(* ===== verification/Limiter.thy ===== *)
theory Limiter
  imports Prelude
begin

text \<open>
  \<open>src/services/analytics.limiter.js\<close>: the per-tenant concurrency limiter of the analytics
  engine. A tenant has an entry with the number of running queries and a FIFO queue of
  waiters; a waiter is the object \<open>acquire\<close> pushed, here a number, and its timer is the
  event \<open>timer_fires\<close>. A promise that \<open>acquire\<close> returns is one of three outcomes.
  The object \<open>entry\<close> a timer closes over is the map's own entry as long as the waiter is
  queued: \<open>release\<close> deletes an entry only when its queue is empty, and clears the timer
  of the waiter it resolves.
\<close>

section \<open>State and operations\<close>

record limiter_config =
  maxConcurrent :: int
  maxQueued :: int
  queueTimeoutMs :: int

record entry =
  active :: int
  queue :: "nat list"

record limiter = limiter_config +
  tenants :: "string \<rightharpoonup> entry"

text \<open>
  \<open>configure\<close>. An argument is absent (\<open>undefined\<close>), or a value whose \<open>Number(...)\<close> is
  NaN (\<open>Some None\<close>) or a finite number; \<open>Number(x) || d\<close> takes \<open>d\<close> for NaN and 0.
\<close>

fun number_or :: "rat \<Rightarrow> rat option \<Rightarrow> rat" where
  "number_or d None = d"
| "number_or d (Some q) = (if q = 0 then d else q)"

definition configure ::
  "rat option option \<Rightarrow> rat option option \<Rightarrow> rat option option \<Rightarrow> limiter \<Rightarrow> limiter" where
  "configure mc mq qt l =
     (let l1 = (case mc of None \<Rightarrow> l
                | Some v \<Rightarrow> l\<lparr>maxConcurrent := max 1 \<lfloor>number_or 1 v\<rfloor>\<rparr>);
          l2 = (case mq of None \<Rightarrow> l1
                | Some v \<Rightarrow> l1\<lparr>maxQueued := max 0 \<lfloor>number_or 0 v\<rfloor>\<rparr>)
      in (case qt of None \<Rightarrow> l2
          | Some v \<Rightarrow> l2\<lparr>queueTimeoutMs := max 0 \<lfloor>number_or 0 v\<rfloor>\<rparr>))"

text \<open>The constructor, with the three options already defaulted (4, 16, 10000).\<close>

definition new_limiter :: "rat option \<Rightarrow> rat option \<Rightarrow> rat option \<Rightarrow> limiter" where
  "new_limiter mc mq qt =
     configure (Some mc) (Some mq) (Some qt)
       \<lparr>maxConcurrent = 1, maxQueued = 0, queueTimeoutMs = 0, tenants = Map.empty\<rparr>"

text \<open>\<open>state(tenantId)\<close>: the tenant's entry, created on first use.\<close>

definition tenant_state :: "string \<Rightarrow> limiter \<Rightarrow> limiter \<times> entry" where
  "tenant_state t l =
     (case tenants l t of
        Some e \<Rightarrow> (l, e)
      | None \<Rightarrow> (let e = \<lparr>active = 0, queue = []\<rparr> in (l\<lparr>tenants := (tenants l)(t \<mapsto> e)\<rparr>, e)))"

definition stats :: "limiter \<Rightarrow> string \<Rightarrow> int \<times> nat" where
  "stats l t = (case tenants l t of None \<Rightarrow> (0, 0) | Some e \<Rightarrow> (active e, length (queue e)))"

text \<open>Resolved at once, rejected with 429 \<open>QUERY_CONCURRENCY_LIMIT\<close>, or pending.\<close>

datatype outcome = Resolved | LimitError | Pending

definition acquire :: "string \<Rightarrow> nat \<Rightarrow> limiter \<Rightarrow> limiter \<times> outcome" where
  "acquire t w l0 =
     (let (l, e) = tenant_state t l0 in
      if active e < maxConcurrent l
      then (l\<lparr>tenants := (tenants l)(t \<mapsto> e\<lparr>active := active e + 1\<rparr>)\<rparr>, Resolved)
      else if int (length (queue e)) \<ge> maxQueued l \<or> queueTimeoutMs l = 0
      then (l, LimitError)
      else (l\<lparr>tenants := (tenants l)(t \<mapsto> e\<lparr>queue := queue e @ [w]\<rparr>)\<rparr>, Pending))"

text \<open>The timer of a pending waiter: it leaves the queue and its promise is rejected.\<close>

definition timer_fires :: "string \<Rightarrow> nat \<Rightarrow> limiter \<Rightarrow> limiter \<times> outcome" where
  "timer_fires t w l =
     (case tenants l t of
        None \<Rightarrow> (l, LimitError)
      | Some e \<Rightarrow> (l\<lparr>tenants := (tenants l)(t \<mapsto> e\<lparr>queue := remove1 w (queue e)\<rparr>)\<rparr>, LimitError))"

text \<open>\<open>release\<close>; the second component is the waiter it resolved, if any.\<close>

definition release :: "string \<Rightarrow> limiter \<Rightarrow> limiter \<times> nat option" where
  "release t l =
     (case tenants l t of
        None \<Rightarrow> (l, None)
      | Some e \<Rightarrow>
          (case queue e of
             w # ws \<Rightarrow> (l\<lparr>tenants := (tenants l)(t \<mapsto> e\<lparr>queue := ws\<rparr>)\<rparr>, Some w)
           | [] \<Rightarrow>
               (let a = max 0 (active e - 1) in
                if a = 0 then (l\<lparr>tenants := (tenants l)(t := None)\<rparr>, None)
                else (l\<lparr>tenants := (tenants l)(t \<mapsto> e\<lparr>active := a\<rparr>)\<rparr>, None))))"

lemmas limiter_opdefs [opdefs] =
  tenant_state_def acquire_def timer_fires_def release_def stats_def

section \<open>Invariant of the stored state\<close>

text \<open>
  Every stored entry has between 1 and \<open>maxConcurrent\<close> running queries, at most
  \<open>maxQueued\<close> distinct waiters, and waiters only while all slots are taken.
\<close>

definition entry_ok :: "limiter \<Rightarrow> entry \<Rightarrow> bool" where
  "entry_ok l e \<longleftrightarrow> 1 \<le> active e \<and> active e \<le> maxConcurrent l
     \<and> int (length (queue e)) \<le> maxQueued l \<and> distinct (queue e)
     \<and> (queue e \<noteq> [] \<longrightarrow> active e = maxConcurrent l)"

definition limiter_inv :: "limiter \<Rightarrow> bool" where
  "limiter_inv l \<longleftrightarrow> 1 \<le> maxConcurrent l \<and> 0 \<le> maxQueued l
     \<and> (\<forall>t e. tenants l t = Some e \<longrightarrow> entry_ok l e)"

definition waiting :: "limiter \<Rightarrow> string \<Rightarrow> nat list" where
  "waiting l t = (case tenants l t of None \<Rightarrow> [] | Some e \<Rightarrow> queue e)"

definition used :: "limiter \<Rightarrow> string \<Rightarrow> int" where
  "used l t = fst (stats l t)"

lemma new_limiter_inv [invs]: "limiter_inv (new_limiter mc mq qt)"
  by (simp add: new_limiter_def configure_def limiter_inv_def Let_def)

lemma configure_bounds:
  "configure (Some mc) (Some mq) (Some qt) l = l' \<Longrightarrow>
     1 \<le> maxConcurrent l' \<and> 0 \<le> maxQueued l' \<and> 0 \<le> queueTimeoutMs l' \<and> tenants l' = tenants l"
  by (auto simp: configure_def Let_def)

lemma acquire_config:
  "acquire t w l = (l', r) \<Longrightarrow> maxConcurrent l' = maxConcurrent l \<and> maxQueued l' = maxQueued l
     \<and> queueTimeoutMs l' = queueTimeoutMs l"
  by (auto simp: opdefs Let_def split: option.splits if_splits)

lemma release_config:
  "release t l = (l', r) \<Longrightarrow> maxConcurrent l' = maxConcurrent l \<and> maxQueued l' = maxQueued l
     \<and> queueTimeoutMs l' = queueTimeoutMs l"
  by (auto simp: opdefs Let_def split: option.splits list.splits if_splits)

lemma limiter_inv_upd:
  "limiter_inv l \<Longrightarrow> entry_ok l e \<Longrightarrow> limiter_inv (l\<lparr>tenants := (tenants l)(t \<mapsto> e)\<rparr>)"
  by (simp add: limiter_inv_def entry_ok_def)

lemma limiter_inv_del: "limiter_inv l \<Longrightarrow> limiter_inv (l\<lparr>tenants := (tenants l)(t := None)\<rparr>)"
  by (simp add: limiter_inv_def entry_ok_def)

lemma entry_okD: "limiter_inv l \<Longrightarrow> tenants l t = Some e \<Longrightarrow> entry_ok l e"
  by (simp add: limiter_inv_def)

lemma limiter_invD: "limiter_inv l \<Longrightarrow> 1 \<le> maxConcurrent l \<and> 0 \<le> maxQueued l"
  by (simp add: limiter_inv_def)

lemma acquire_inv [invs]:
  assumes inv: "limiter_inv l" and fresh: "w \<notin> set (waiting l t)" and acq: "acquire t w l = (l', r)"
  shows "limiter_inv l'"
proof (cases "tenants l t")
  case None
  have "entry_ok l \<lparr>active = 1, queue = []\<rparr>"
    using limiter_invD[OF inv] by (simp add: entry_ok_def)
  then show ?thesis
    using None acq limiter_invD[OF inv] limiter_inv_upd[OF inv]
    by (auto simp: acquire_def tenant_state_def Let_def)
next
  case (Some e)
  then have "entry_ok l e" using inv by (rule entry_okD[rotated])
  then show ?thesis using Some acq fresh inv
    by (auto simp: acquire_def tenant_state_def waiting_def entry_ok_def
          intro!: limiter_inv_upd split: if_splits)
qed

lemma timer_fires_inv [invs]:
  assumes inv: "limiter_inv l" and fires: "timer_fires t w l = (l', r)"
  shows "limiter_inv l'"
proof (cases "tenants l t")
  case (Some e)
  then have "entry_ok l e" using inv by (rule entry_okD[rotated])
  moreover have "length (remove1 w (queue e)) \<le> length (queue e)"
    by (simp add: length_remove1)
  moreover have "remove1 w (queue e) \<noteq> [] \<Longrightarrow> queue e \<noteq> []" by auto
  ultimately have "entry_ok l (e\<lparr>queue := remove1 w (queue e)\<rparr>)" by (auto simp: entry_ok_def)
  then show ?thesis using Some fires inv
    by (auto simp: timer_fires_def intro: limiter_inv_upd)
qed (use inv fires in \<open>auto simp: timer_fires_def\<close>)

lemma release_inv [invs]:
  assumes inv: "limiter_inv l" and rel: "release t l = (l', r)"
  shows "limiter_inv l'"
proof (cases "tenants l t")
  case (Some e)
  then have "entry_ok l e" using inv by (rule entry_okD[rotated])
  then show ?thesis using Some rel inv
    by (auto simp: release_def Let_def entry_ok_def max_def
          intro!: limiter_inv_upd limiter_inv_del split: list.splits if_splits)
qed (use inv rel in \<open>auto simp: release_def\<close>)

text \<open>A pending waiter's tenant has an entry, so the timer's own entry is the map's.\<close>

lemma waiting_has_entry: "w \<in> set (waiting l t) \<Longrightarrow> \<exists>e. tenants l t = Some e \<and> w \<in> set (queue e)"
  by (cases "tenants l t") (auto simp: waiting_def)

lemma other_tenant:
  assumes "t' \<noteq> t"
  shows "tenants (fst (acquire t w l)) t' = tenants l t'"
    and "tenants (fst (timer_fires t w l)) t' = tenants l t'"
    and "tenants (fst (release t l)) t' = tenants l t'"
  using assms by (auto simp: opdefs Let_def split: option.splits list.splits)
section \<open>The interface the query path relies on\<close>

text \<open>
  What \<open>analytics.engine.js\<close> needs of the limiter: a granted slot is counted, a release hands
  the slot to the longest waiting call or frees it, and no operation touches another tenant.
\<close>

locale slot_pool =
  fixes inv :: "'s \<Rightarrow> bool"
    and acq :: "'k \<Rightarrow> nat \<Rightarrow> 's \<Rightarrow> 's \<times> outcome"
    and rel :: "'k \<Rightarrow> 's \<Rightarrow> 's \<times> nat option"
    and in_use :: "'s \<Rightarrow> 'k \<Rightarrow> int"
    and queued :: "'s \<Rightarrow> 'k \<Rightarrow> nat list"
  assumes acq_keeps: "inv s \<Longrightarrow> w \<notin> set (queued s k) \<Longrightarrow> acq k w s = (s', r) \<Longrightarrow> inv s'"
    and rel_keeps: "inv s \<Longrightarrow> rel k s = (s', h) \<Longrightarrow> inv s'"
    and acq_use: "inv s \<Longrightarrow> acq k w s = (s', r) \<Longrightarrow>
      in_use s' k = in_use s k + (if r = Resolved then 1 else 0)"
    and acq_queue: "inv s \<Longrightarrow> acq k w s = (s', r) \<Longrightarrow>
      queued s' k = queued s k @ (if r = Pending then [w] else [])"
    and rel_use: "inv s \<Longrightarrow> 0 < in_use s k \<Longrightarrow> rel k s = (s', h) \<Longrightarrow>
      in_use s' k = in_use s k - (if h = None then 1 else 0)"
    and rel_queue: "inv s \<Longrightarrow> rel k s = (s', h) \<Longrightarrow>
      queued s k = (case h of None \<Rightarrow> [] | Some w \<Rightarrow> [w]) @ queued s' k"
    and acq_other: "k' \<noteq> k \<Longrightarrow> acq k w s = (s', r) \<Longrightarrow> in_use s' k' = in_use s k' \<and> queued s' k' = queued s k'"
    and rel_other: "k' \<noteq> k \<Longrightarrow> rel k s = (s', h) \<Longrightarrow> in_use s' k' = in_use s k' \<and> queued s' k' = queued s k'"
    and use_nonneg: "inv s \<Longrightarrow> 0 \<le> in_use s k"
begin

text \<open>A bracketed call that got its slot at once leaves every tenant's usage as it was.\<close>

lemma bracket_restores:
  assumes "inv s" and "w \<notin> set (queued s k)" and acq: "acq k w s = (s1, Resolved)"
    and idle: "queued s k = []" and rel: "rel k s1 = (s2, h)"
  shows "inv s2 \<and> h = None \<and> (\<forall>k'. in_use s2 k' = in_use s k' \<and> queued s2 k' = queued s k')"
proof -
  have inv1: "inv s1" using assms acq_keeps by blast
  have use1: "in_use s1 k = in_use s k + 1" and q1: "queued s1 k = []"
    using acq_use[OF assms(1) acq] acq_queue[OF assms(1) acq] idle by auto
  have h: "h = None" and q2: "queued s2 k = []"
    using rel_queue[OF inv1 rel] q1 by (auto split: option.splits)
  have "0 < in_use s1 k" using use1 use_nonneg[OF assms(1), of k] by simp
  then have "in_use s2 k = in_use s k" using rel_use[OF inv1 _ rel] h use1 by simp
  then show ?thesis
    using rel_keeps[OF inv1 rel] acq_other[OF _ acq] rel_other[OF _ rel] h q2 idle by metis
qed

end

lemma used_waiting_simps:
  "tenants l t = Some e \<Longrightarrow> used l t = active e"
  "tenants l t = Some e \<Longrightarrow> waiting l t = queue e"
  "tenants l t = None \<Longrightarrow> used l t = 0"
  "tenants l t = None \<Longrightarrow> waiting l t = []"
  by (auto simp: used_def waiting_def stats_def)

lemma acquire_use_queue:
  assumes "acquire t w l = (l', r)"
  shows "used l' t = used l t + (if r = Resolved then 1 else 0)"
    and "waiting l' t = waiting l t @ (if r = Pending then [w] else [])"
  using assms
  by (auto simp: opdefs used_def waiting_def Let_def split: option.splits if_splits)

lemma release_use_queue:
  assumes "release t l = (l', h)"
  shows "0 < used l t \<Longrightarrow> used l' t = used l t - (if h = None then 1 else 0)"
    and "waiting l t = (case h of None \<Rightarrow> [] | Some w \<Rightarrow> [w]) @ waiting l' t"
  using assms
  by (auto simp: opdefs used_def waiting_def Let_def split: option.splits list.splits if_splits)

lemma timer_use_queue:
  assumes "timer_fires t w l = (l', r)"
  shows "used l' t = used l t" and "waiting l' t = remove1 w (waiting l t)"
  using assms by (auto simp: opdefs used_def waiting_def split: option.splits)

lemma used_other:
  assumes "t' \<noteq> t"
  shows "acquire t w l = (l', r) \<Longrightarrow> used l' t' = used l t' \<and> waiting l' t' = waiting l t'"
    and "release t l = (l', h) \<Longrightarrow> used l' t' = used l t' \<and> waiting l' t' = waiting l t'"
    and "timer_fires t w l = (l', r) \<Longrightarrow> used l' t' = used l t' \<and> waiting l' t' = waiting l t'"
  using other_tenant(1)[OF assms, of w l] other_tenant(2)[OF assms, of w l]
    other_tenant(3)[OF assms, of l]
  by (auto simp: used_def waiting_def stats_def)

lemma used_nonneg: "limiter_inv l \<Longrightarrow> 0 \<le> used l t"
  by (cases "tenants l t") (auto simp: used_waiting_simps entry_ok_def dest: entry_okD)

interpretation slots: slot_pool limiter_inv acquire release used waiting
proof (unfold_locales, goal_cases)
  case 1 then show ?case using acquire_inv by blast
next
  case 2 then show ?case using release_inv by blast
next
  case 3 then show ?case using acquire_use_queue(1) by blast
next
  case 4 then show ?case using acquire_use_queue(2) by blast
next
  case 5 then show ?case using release_use_queue(1) by blast
next
  case 6 then show ?case using release_use_queue(2) by blast
next
  case 7 then show ?case using used_other(1) by blast
next
  case 8 then show ?case using used_other(2) by blast
next
  case 9 then show ?case by (rule used_nonneg)
qed

section \<open>Interleaved calls\<close>

text \<open>
  The system: the limiter, the calls of \<open>run\<close> whose \<open>fn\<close> is running, and a counter that
  names calls in the order they arrive (the refusal metric \<open>limitError\<close> bumps is left out). A step is a new call (granted, queued or refused), a
  timer of a queued call, or the end of a running \<open>fn\<close> (returned or thrown, \<open>finally\<close> runs
  \<open>release\<close> either way), which may resume a queued call.
\<close>

record system =
  lim :: limiter
  running :: "(string \<times> nat) list"
  next_call :: nat

definition start_system :: "limiter \<Rightarrow> system" where
  "start_system l = \<lparr>lim = l, running = [], next_call = 0\<rparr>"

inductive lstep :: "system \<Rightarrow> system \<Rightarrow> bool" where
  granted: "acquire t (next_call s) (lim s) = (l', Resolved) \<Longrightarrow>
    lstep s (s\<lparr>lim := l', running := (t, next_call s) # running s, next_call := Suc (next_call s)\<rparr>)"
| queued: "acquire t (next_call s) (lim s) = (l', Pending) \<Longrightarrow>
    lstep s (s\<lparr>lim := l', next_call := Suc (next_call s)\<rparr>)"
| refused: "acquire t (next_call s) (lim s) = (l', LimitError) \<Longrightarrow>
    lstep s (s\<lparr>lim := l', next_call := Suc (next_call s)\<rparr>)"
| timed_out: "w \<in> set (waiting (lim s) t) \<Longrightarrow> timer_fires t w (lim s) = (l', LimitError) \<Longrightarrow>
    lstep s (s\<lparr>lim := l'\<rparr>)"
| finished: "(t, w) \<in> set (running s) \<Longrightarrow> release t (lim s) = (l', h) \<Longrightarrow>
    lstep s (s\<lparr>lim := l',
      running := (case h of None \<Rightarrow> [] | Some w' \<Rightarrow> [(t, w')]) @ remove1 (t, w) (running s)\<rparr>)"

text \<open>The steps in which a running call ends, without new calls and without timers.\<close>

inductive fstep :: "system \<Rightarrow> system \<Rightarrow> bool" where
  "(t, w) \<in> set (running s) \<Longrightarrow> release t (lim s) = (l', h) \<Longrightarrow>
    fstep s (s\<lparr>lim := l',
      running := (case h of None \<Rightarrow> [] | Some w' \<Rightarrow> [(t, w')]) @ remove1 (t, w) (running s)\<rparr>)"

lemma fstep_lstep: "fstep s s' \<Longrightarrow> lstep s s'"
  by (induction rule: fstep.induct) (rule lstep.finished)

inductive lreach :: "limiter \<Rightarrow> system \<Rightarrow> bool" for l0 where
  lreach_start: "lreach l0 (start_system l0)"
| lreach_step: "lreach l0 s \<Longrightarrow> lstep s s' \<Longrightarrow> lreach l0 s'"

definition n_running :: "system \<Rightarrow> string \<Rightarrow> nat" where
  "n_running s t = length (filter (\<lambda>c. fst c = t) (running s))"

text \<open>
  The system invariant: the limiter's own invariant, its counts are the calls really running,
  and the waiters are calls of the past in their order of arrival that are not running.
\<close>

definition counts_ok :: "system \<Rightarrow> bool" where
  "counts_ok s \<longleftrightarrow> (\<forall>t. int (n_running s t) = used (lim s) t)"

definition order_ok :: "system \<Rightarrow> bool" where
  "order_ok s \<longleftrightarrow> (\<forall>t. sorted_wrt (<) (waiting (lim s) t))
     \<and> (\<forall>t. \<forall>w\<in>set (waiting (lim s) t). w < next_call s)"

definition system_inv :: "system \<Rightarrow> bool" where
  "system_inv s \<longleftrightarrow> limiter_inv (lim s) \<and> counts_ok s \<and> order_ok s"

text \<open>Facts of one limiter operation on the counts and queues of every tenant.\<close>

lemma acquire_all:
  assumes "acquire t w l = (l', r)"
  shows "used l' t' = used l t' + (if r = Resolved \<and> t' = t then 1 else 0)"
    and "waiting l' t' = waiting l t' @ (if r = Pending \<and> t' = t then [w] else [])"
  using acquire_use_queue[OF assms] used_other(1)[OF _ assms, of t'] by (cases "t' = t"; simp)+

lemma timer_all:
  assumes "timer_fires t w l = (l', r)"
  shows "used l' t' = used l t'"
    and "waiting l' t' = (if t' = t then remove1 w (waiting l t) else waiting l t')"
  using timer_use_queue[OF assms] used_other(3)[OF _ assms, of t'] by (cases "t' = t"; simp)+

lemma release_all:
  assumes "release t l = (l', h)" and "0 < used l t"
  shows "used l' t' = used l t' - (if h = None \<and> t' = t then 1 else 0)"
    and "waiting l t' = (if t' = t then (case h of None \<Rightarrow> [] | Some w \<Rightarrow> [w]) else []) @ waiting l' t'"
  using release_use_queue[OF assms(1)] assms(2) used_other(2)[OF _ assms(1), of t']
  by (cases "t' = t"; simp)+

lemma n_running_start [simp]: "n_running (start_system l) t = 0"
  by (simp add: n_running_def start_system_def)

lemma n_running_pos: "(t, w) \<in> set (running s) \<Longrightarrow> 0 < n_running s t"
  unfolding n_running_def by (force simp: filter_empty_conv)

lemma counts_okD: "counts_ok s \<Longrightarrow> int (n_running s t) = used (lim s) t"
  by (simp add: counts_ok_def)

lemma lstep_counts:
  assumes "lstep s s'" and "counts_ok s"
  shows "counts_ok s'"
  using assms
proof (induction rule: lstep.induct)
  case (granted t s l')
  then show ?case
    by (auto simp: counts_ok_def n_running_def acquire_all(1)[OF granted.hyps])
next
  case (queued t s l')
  then show ?case by (auto simp: counts_ok_def n_running_def acquire_all(1)[OF queued.hyps])
next
  case (refused t s l')
  then show ?case by (auto simp: counts_ok_def n_running_def acquire_all(1)[OF refused.hyps])
next
  case (timed_out w s t l')
  then show ?case by (auto simp: counts_ok_def n_running_def timer_all(1)[OF timed_out.hyps(2)])
next
  case (finished t w s l' h)
  have "0 < used (lim s) t"
    using n_running_pos[OF finished.hyps(1)] counts_okD[OF finished.prems, of t] by simp
  note use = release_all(1)[OF finished.hyps(2) this]
  have "int (n_running (s\<lparr>lim := l', running := (case h of None \<Rightarrow> [] | Some w' \<Rightarrow> [(t, w')])
      @ remove1 (t, w) (running s)\<rparr>) t') = used l' t'" for t'
    using length_filter_remove1[OF finished.hyps(1), of "\<lambda>c. fst c = t'"]
      counts_okD[OF finished.prems, of t'] use[of t']
    by (auto simp: n_running_def split: option.splits if_splits)
  then show ?case by (simp add: counts_ok_def)
qed

lemma lstep_limiter_inv:
  assumes "lstep s s'" and "limiter_inv (lim s)" and "order_ok s"
  shows "limiter_inv (lim s')"
  using assms
proof (induction rule: lstep.induct)
  case (granted t s l')
  then show ?case using acquire_inv[of "lim s" "next_call s" t] by (fastforce simp: order_ok_def)
next
  case (queued t s l')
  then show ?case using acquire_inv[of "lim s" "next_call s" t] by (fastforce simp: order_ok_def)
next
  case (refused t s l')
  then show ?case using acquire_inv[of "lim s" "next_call s" t] by (fastforce simp: order_ok_def)
next
  case (timed_out w s t l')
  then show ?case using timer_fires_inv by simp
next
  case (finished t w s l' h)
  then show ?case using release_inv by simp
qed

lemma sorted_wrt_remove1: "sorted_wrt P xs \<Longrightarrow> sorted_wrt P (remove1 x xs)"
  using set_remove1_subset by (induction xs) fastforce+

lemma lstep_order:
  assumes "lstep s s'" and "order_ok s" and "counts_ok s"
  shows "order_ok s'"
  using assms
proof (induction rule: lstep.induct)
  case (granted t s l')
  then show ?case by (fastforce simp: order_ok_def acquire_all(2)[OF granted.hyps] less_Suc_eq)
next
  case (queued t s l')
  then show ?case
    by (auto simp: order_ok_def acquire_all(2)[OF queued.hyps] sorted_wrt_append less_Suc_eq)
next
  case (refused t s l')
  then show ?case by (fastforce simp: order_ok_def acquire_all(2)[OF refused.hyps] less_Suc_eq)
next
  case (timed_out w s t l')
  have "set (remove1 w (waiting (lim s) t)) \<subseteq> set (waiting (lim s) t)" by (rule set_remove1_subset)
  with timed_out.prems(1) show ?case
    by (auto simp: order_ok_def timer_all(2)[OF timed_out.hyps(2)] sorted_wrt_remove1)
next
  case (finished t w s l' h)
  have pos: "0 < used (lim s) t"
    using n_running_pos[OF finished.hyps(1)] counts_okD[OF finished.prems(2), of t] by simp
  have "sorted_wrt (<) (waiting l' t') \<and> (\<forall>v\<in>set (waiting l' t'). v < next_call s)" for t'
  proof -
    obtain pre where "waiting (lim s) t' = pre @ waiting l' t'"
      using release_all(2)[OF finished.hyps(2) pos] by blast
    moreover have "sorted_wrt (<) (waiting (lim s) t') \<and> (\<forall>v\<in>set (waiting (lim s) t'). v < next_call s)"
      using finished.prems(1) by (simp add: order_ok_def)
    ultimately show ?thesis by (simp add: sorted_wrt_append)
  qed
  then show ?case by (simp add: order_ok_def)
qed

lemma system_inv_start: "system_inv (start_system (new_limiter mc mq qt))"
proof -
  have "tenants (new_limiter mc mq qt) = Map.empty"
    by (simp add: new_limiter_def configure_def Let_def)
  then show ?thesis
    using new_limiter_inv
    by (simp add: system_inv_def counts_ok_def order_ok_def n_running_def used_def stats_def
        waiting_def start_system_def)
qed

lemma lreach_inv: "lreach l0 s \<Longrightarrow> system_inv (start_system l0) \<Longrightarrow> system_inv s"
proof (induction rule: lreach.induct)
  case (lreach_step s s')
  then show ?case
    unfolding system_inv_def using lstep_counts lstep_limiter_inv lstep_order by blast
qed

lemma lstep_config:
  "lstep s s' \<Longrightarrow> maxConcurrent (lim s') = maxConcurrent (lim s) \<and> maxQueued (lim s') = maxQueued (lim s)"
  by (induction rule: lstep.induct)
    (auto dest: acquire_config release_config simp: timer_fires_def split: option.splits)

lemma lreach_config:
  "lreach l0 s \<Longrightarrow> maxConcurrent (lim s) = maxConcurrent l0 \<and> maxQueued (lim s) = maxQueued l0"
  by (induction rule: lreach.induct) (auto simp: start_system_def dest: lstep_config)

lemma lreach_inv_new: "lreach (new_limiter mc mq qt) s \<Longrightarrow> system_inv s"
  using lreach_inv system_inv_start by blast

lemma system_invD:
  assumes "system_inv s"
  shows "limiter_inv (lim s)" "counts_ok s" "order_ok s"
  using assms by (simp_all add: system_inv_def)

lemma used_le_max: "limiter_inv l \<Longrightarrow> used l t \<le> maxConcurrent l"
  using limiter_invD[of l]
  by (cases "tenants l t") (auto simp: used_waiting_simps entry_ok_def dest: entry_okD)

lemma waiting_le_max: "limiter_inv l \<Longrightarrow> int (length (waiting l t)) \<le> maxQueued l"
  using limiter_invD[of l]
  by (cases "tenants l t") (auto simp: used_waiting_simps entry_ok_def dest: entry_okD)

lemma waiting_full: "limiter_inv l \<Longrightarrow> waiting l t \<noteq> [] \<Longrightarrow> used l t = maxConcurrent l"
  by (cases "tenants l t") (auto simp: used_waiting_simps entry_ok_def dest: entry_okD)

lemma entry_used: "limiter_inv l \<Longrightarrow> tenants l t \<noteq> None \<longleftrightarrow> 0 < used l t"
  by (cases "tenants l t") (auto simp: used_waiting_simps entry_ok_def dest: entry_okD)

text \<open>One finishing call of tenant \<open>t\<close> brings the tenant closer to idle.\<close>

lemma finish_progress:
  assumes inv: "system_inv s" and busy: "tenants (lim s) t \<noteq> None"
  shows "\<exists>s'. fstep s s' \<and> system_inv s' \<and>
    n_running s' t + length (waiting (lim s') t) < n_running s t + length (waiting (lim s) t)"
proof -
  note I = system_invD[OF inv]
  have pos: "0 < used (lim s) t" using entry_used[OF I(1)] busy by blast
  then have "0 < n_running s t" using counts_okD[OF I(2), of t] by simp
  then obtain w where w: "(t, w) \<in> set (running s)"
    by (auto simp: n_running_def filter_empty_conv)
  obtain l' h where rel: "release t (lim s) = (l', h)" by force
  define s' where "s' = s\<lparr>lim := l',
      running := (case h of None \<Rightarrow> [] | Some w' \<Rightarrow> [(t, w')]) @ remove1 (t, w) (running s)\<rparr>"
  have fs: "fstep s s'" unfolding s'_def by (rule fstep.intros[OF w rel])
  note st = fstep_lstep[OF fs]
  have inv': "system_inv s'"
    using lstep_counts[OF st] lstep_limiter_inv[OF st] lstep_order[OF st] I
    by (simp add: system_inv_def)
  have "int (n_running s' t) = used l' t"
    using counts_okD[OF system_invD(2)[OF inv'], of t] by (simp add: s'_def)
  moreover have "used l' t = used (lim s) t - (if h = None then 1 else 0)"
    using release_use_queue(1)[OF rel pos] .
  moreover have "length (waiting (lim s) t) = (if h = None then 0 else 1) + length (waiting l' t)"
    using release_use_queue(2)[OF rel] by (cases h) auto
  ultimately have "n_running s' t + length (waiting (lim s') t)
      < n_running s t + length (waiting (lim s) t)"
    using counts_okD[OF I(2), of t] by (cases h) (auto simp: s'_def)
  with fs inv' show ?thesis by blast
qed

lemma drains:
  "system_inv s \<Longrightarrow> \<exists>s'. fstep\<^sup>*\<^sup>* s s' \<and> tenants (lim s') t = None"
proof (induction "n_running s t + length (waiting (lim s) t)" arbitrary: s rule: less_induct)
  case less
  show ?case
  proof (cases "tenants (lim s) t = None")
    case False
    then obtain s1 where "fstep s s1" "system_inv s1"
        "n_running s1 t + length (waiting (lim s1) t) < n_running s t + length (waiting (lim s) t)"
      using finish_progress[OF less.prems] by blast
    with less.hyps show ?thesis by (meson converse_rtranclp_into_rtranclp)
  qed auto
qed

section \<open>Properties\<close>

text \<open>
  C6. However calls, timeouts and completions interleave, a tenant never has more than
  \<open>maxConcurrent\<close> aggregations running nor more than \<open>maxQueued\<close> calls waiting.
\<close>

theorem limiter_bounds:
  assumes "lreach (new_limiter mc mq qt) s"
  shows "int (n_running s t) \<le> maxConcurrent (new_limiter mc mq qt)
    \<and> int (length (waiting (lim s) t)) \<le> maxQueued (new_limiter mc mq qt)"
proof -
  note I = system_invD[OF lreach_inv_new[OF assms]]
  show ?thesis
    using used_le_max[OF I(1)] waiting_le_max[OF I(1)] counts_okD[OF I(2), of t] lreach_config[OF assms]
    by metis
qed

definition demo_limiter :: limiter where
  "demo_limiter = new_limiter (Some 1) (Some 1) (Some 10)"

lemma demo_limiter_run:
  "lreach demo_limiter \<lparr>lim = demo_limiter\<lparr>tenants := [''a'' \<mapsto> \<lparr>active = 1, queue = [1]\<rparr>]\<rparr>,
     running = [(''a'', 0)], next_call = 2\<rparr>" (is "lreach _ ?s2")
proof -
  let ?s1 = "\<lparr>lim = demo_limiter\<lparr>tenants := [''a'' \<mapsto> \<lparr>active = 1, queue = []\<rparr>]\<rparr>,
     running = [(''a'', 0)], next_call = 1\<rparr>"
  have "lstep (start_system demo_limiter) ?s1"
    using lstep.granted[of "''a''" "start_system demo_limiter"]
    by (simp add: start_system_def demo_limiter_def new_limiter_def configure_def acquire_def
        tenant_state_def Let_def)
  moreover have "lstep ?s1 ?s2"
    using lstep.queued[of "''a''" ?s1]
    by (simp add: demo_limiter_def new_limiter_def configure_def acquire_def tenant_state_def Let_def
        numeral_2_eq_2)
  ultimately show ?thesis by (blast intro: lreach.intros)
qed

theorem limiter_bounds_witness:
  "int (n_running \<lparr>lim = demo_limiter\<lparr>tenants := [''a'' \<mapsto> \<lparr>active = 1, queue = [1]\<rparr>]\<rparr>,
     running = [(''a'', 0)], next_call = 2\<rparr> ''a'') \<le> maxConcurrent demo_limiter"
  using limiter_bounds[OF demo_limiter_run[unfolded demo_limiter_def], of "''a''"]
  unfolding demo_limiter_def by blast

text \<open>
  C29. The limiter wastes no slot and leaks none: calls wait only while all \<open>maxConcurrent\<close>
  slots of their tenant are running, and a tenant without running calls has no map entry at all.
\<close>

theorem limiter_work_conserving:
  assumes "lreach (new_limiter mc mq qt) s"
  shows "(waiting (lim s) t \<noteq> [] \<longrightarrow> int (n_running s t) = maxConcurrent (new_limiter mc mq qt))
    \<and> (n_running s t = 0 \<longrightarrow> tenants (lim s) t = None)"
proof -
  note I = system_invD[OF lreach_inv_new[OF assms]]
  show ?thesis
    using waiting_full[OF I(1)] entry_used[OF I(1), of t] counts_okD[OF I(2), of t] lreach_config[OF assms]
    by (metis of_nat_0 less_irrefl)
qed

theorem limiter_work_conserving_witness:
  "n_running \<lparr>lim = demo_limiter\<lparr>tenants := [''a'' \<mapsto> \<lparr>active = 1, queue = [1]\<rparr>]\<rparr>,
     running = [(''a'', 0)], next_call = 2\<rparr> ''a'' = 1"
  using limiter_work_conserving[OF demo_limiter_run[unfolded demo_limiter_def], of "''a''"]
  by (simp add: waiting_def demo_limiter_def new_limiter_def configure_def Let_def)

text \<open>
  Slots are handed over first come first served: the call a release resumes arrived before
  every call of the tenant that is still waiting.
\<close>

theorem limiter_fifo:
  assumes "lreach (new_limiter mc mq qt) s" and "release t (lim s) = (l', Some w)"
  shows "w \<in> set (waiting (lim s) t) \<and> (\<forall>v\<in>set (waiting l' t). w < v)"
proof -
  have "waiting (lim s) t = w # waiting l' t"
    using slots.rel_queue[OF system_invD(1)[OF lreach_inv_new[OF assms(1)]] assms(2)] by simp
  moreover have "sorted_wrt (<) (waiting (lim s) t)"
    using system_invD(3)[OF lreach_inv_new[OF assms(1)]] by (simp add: order_ok_def)
  ultimately show ?thesis by simp
qed

theorem limiter_fifo_witness:
  "release ''a'' (demo_limiter\<lparr>tenants := [''a'' \<mapsto> \<lparr>active = 1, queue = [1]\<rparr>]\<rparr>)
     = (demo_limiter\<lparr>tenants := [''a'' \<mapsto> \<lparr>active = 1, queue = []\<rparr>]\<rparr>, Some 1)
   \<and> 1 \<in> set (waiting (demo_limiter\<lparr>tenants := [''a'' \<mapsto> \<lparr>active = 1, queue = [1]\<rparr>]\<rparr>) ''a'')"
proof -
  have r: "release ''a'' (demo_limiter\<lparr>tenants := [''a'' \<mapsto> \<lparr>active = 1, queue = [1]\<rparr>]\<rparr>)
     = (demo_limiter\<lparr>tenants := [''a'' \<mapsto> \<lparr>active = 1, queue = []\<rparr>]\<rparr>, Some 1)"
    by (simp add: release_def)
  show ?thesis
    using limiter_fifo[OF demo_limiter_run[unfolded demo_limiter_def], of "''a''" _ 1] r
    unfolding demo_limiter_def by simp
qed

text \<open>
  No call is stuck: from every reachable state, letting running calls end (no new call, no
  timer) reaches a state where the tenant is idle, so every waiting call is resumed on the way.
\<close>

theorem limiter_drains:
  assumes "lreach (new_limiter mc mq qt) s"
  shows "\<exists>s'. fstep\<^sup>*\<^sup>* s s' \<and> tenants (lim s') t = None"
  using drains[OF lreach_inv_new[OF assms]] .

theorem limiter_drains_witness:
  "\<exists>s'. fstep\<^sup>*\<^sup>* \<lparr>lim = demo_limiter\<lparr>tenants := [''a'' \<mapsto> \<lparr>active = 1, queue = [1]\<rparr>]\<rparr>,
     running = [(''a'', 0)], next_call = 2\<rparr> s' \<and> tenants (lim s') ''a'' = None"
  using limiter_drains[OF demo_limiter_run[unfolded demo_limiter_def], of "''a''"]
  unfolding demo_limiter_def .

end
