(* ===== verification/MemoryCache.thy ===== *)
theory MemoryCache
  imports Prelude
begin

text \<open>
  \<open>src/cache/memory.js\<close>: the in-memory cache driver. The store is a JavaScript \<open>Map\<close> (an
  association list in insertion order) from prefixed keys to a value and an optional expiry
  time; \<open>Date.now()\<close> is an argument of every operation that reads it. A cached value is a
  number or any other value whose \<open>Number(...)\<close> is NaN (an object); a TTL argument is
  \<open>None\<close> when it is \<open>undefined\<close> or not an integer. \<open>null\<close> results are \<open>None\<close>.
\<close>

section \<open>State\<close>

datatype 'v cached = CNum int | CData 'v

record 'v cache_entry =
  cvalue :: "'v cached"
  expiresAt :: "int option"

record cache_config =
  ttlDefault :: int
  keyPrefix :: string

record 'v cache =
  cfg :: cache_config
  store :: "(string \<times> 'v cache_entry) list"

datatype cache_error = EmptyKey | NonFinite | CallbackError

text \<open>The arguments of \<open>createMemoryCache\<close>: absent or ill-typed fields are \<open>None\<close>.\<close>

definition createMemoryCache :: "int option \<Rightarrow> string option \<Rightarrow> 'v cache" where
  "createMemoryCache ttl pre =
     \<lparr>cfg = \<lparr>ttlDefault = (case ttl of Some n \<Rightarrow> if 0 < n then n else 300 | None \<Rightarrow> 300),
             keyPrefix = (case pre of Some p \<Rightarrow> p | None \<Rightarrow> ''saas:'')\<rparr>,
      store = []\<rparr>"

definition applyPrefix :: "'v cache \<Rightarrow> string \<Rightarrow> string" where
  "applyPrefix c key = keyPrefix (cfg c) @ key"

definition isExpired :: "int \<Rightarrow> 'v cache_entry \<Rightarrow> bool" where
  "isExpired now e \<longleftrightarrow> (case expiresAt e of None \<Rightarrow> False | Some x \<Rightarrow> x \<le> now)"

definition purgeIfExpired :: "int \<Rightarrow> string \<Rightarrow> 'v cache \<Rightarrow> 'v cache" where
  "purgeIfExpired now fullKey c =
     (case map_of (store c) fullKey of
        Some e \<Rightarrow> if isExpired now e then c\<lparr>store := alist_del fullKey (store c)\<rparr> else c
      | None \<Rightarrow> c)"

text \<open>The expiry a TTL argument gives: only a positive integer sets one.\<close>

definition expiry :: "int \<Rightarrow> int option \<Rightarrow> int option" where
  "expiry now ttl = (case ttl of None \<Rightarrow> None | Some n \<Rightarrow> if 0 < n then Some (now + n * 1000) else None)"

definition put :: "string \<Rightarrow> 'v cached \<Rightarrow> int option \<Rightarrow> 'v cache \<Rightarrow> 'v cache" where
  "put fullKey v ex c = c\<lparr>store := alist_set fullKey \<lparr>cvalue = v, expiresAt = ex\<rparr> (store c)\<rparr>"

section \<open>Operations\<close>

definition cache_get :: "int \<Rightarrow> string \<Rightarrow> 'v cache \<Rightarrow> (cache_error, 'v cache \<times> 'v cached option) res" where
  "cache_get now key c =
     (if key = [] then Inl EmptyKey
      else let fullKey = applyPrefix c key; c1 = purgeIfExpired now fullKey c
           in Inr (c1, map_option cvalue (map_of (store c1) fullKey)))"

definition cache_set ::
  "int \<Rightarrow> string \<Rightarrow> 'v cached \<Rightarrow> int option \<Rightarrow> 'v cache \<Rightarrow> (cache_error, 'v cache) res" where
  "cache_set now key v ttlSec c =
     (if key = [] then Inl EmptyKey else Inr (put (applyPrefix c key) v (expiry now ttlSec) c))"

definition cache_del :: "string \<Rightarrow> 'v cache \<Rightarrow> (cache_error, 'v cache \<times> bool) res" where
  "cache_del key c =
     (if key = [] then Inl EmptyKey
      else let fullKey = applyPrefix c key
           in Inr (c\<lparr>store := alist_del fullKey (store c)\<rparr>, map_of (store c) fullKey \<noteq> None))"

text \<open>\<open>Math.ceil(ms / 1000)\<close> on integers is minus the floor of the negation.\<close>

definition ceil_sec :: "int \<Rightarrow> int" where
  "ceil_sec ms = - ((- ms) div 1000)"

definition cache_ttl :: "int \<Rightarrow> string \<Rightarrow> 'v cache \<Rightarrow> (cache_error, 'v cache \<times> int) res" where
  "cache_ttl now key c =
     (if key = [] then Inl EmptyKey
      else let fullKey = applyPrefix c key in
        (case map_of (store c) fullKey of
           None \<Rightarrow> Inr (c, -2)
         | Some e \<Rightarrow>
             (case expiresAt e of
                None \<Rightarrow> Inr (c, -1)
              | Some x \<Rightarrow>
                  let remaining = ceil_sec (x - now) in
                  if remaining \<le> 0 then Inr (c\<lparr>store := alist_del fullKey (store c)\<rparr>, -2)
                  else Inr (c, remaining))))"

fun number_of_cached :: "'v cached \<Rightarrow> int option" where
  "number_of_cached (CNum n) = Some n"
| "number_of_cached (CData d) = None"

definition cache_increment :: "string \<Rightarrow> int \<Rightarrow> 'v cache \<Rightarrow> (cache_error, 'v cache \<times> int) res" where
  "cache_increment key by c =
     (if key = [] then Inl EmptyKey
      else let fullKey = applyPrefix c key; e = map_of (store c) fullKey;
               current = (case e of Some en \<Rightarrow> number_of_cached (cvalue en) | None \<Rightarrow> Some 0)
           in (case current of
                 None \<Rightarrow> Inl NonFinite
               | Some n \<Rightarrow>
                   Inr (put fullKey (CNum (n + by)) (case e of Some en \<Rightarrow> expiresAt en | None \<Rightarrow> None) c,
                        n + by)))"

definition cache_flushAll :: "'v cache \<Rightarrow> 'v cache" where
  "cache_flushAll c = c\<lparr>store := []\<rparr>"

definition cache_setIfAbsent ::
  "int \<Rightarrow> string \<Rightarrow> 'v cached \<Rightarrow> int option \<Rightarrow> 'v cache \<Rightarrow> (cache_error, 'v cache \<times> bool) res" where
  "cache_setIfAbsent now key v ttlSec c =
     (if key = [] then Inl EmptyKey
      else let fullKey = applyPrefix c key; c1 = purgeIfExpired now fullKey c in
        if map_of (store c1) fullKey \<noteq> None then Inr (c1, False)
        else Inr (put fullKey v (expiry now ttlSec) c1, True))"

definition cache_delByPrefix :: "string \<Rightarrow> 'v cache \<Rightarrow> (cache_error, 'v cache \<times> nat) res" where
  "cache_delByPrefix pre c =
     (if pre = [] then Inl EmptyKey
      else let fullPrefix = applyPrefix c pre;
               gone = filter (\<lambda>e. starts_with fullPrefix (fst e)) (store c)
           in Inr (c\<lparr>store := filter (\<lambda>e. \<not> starts_with fullPrefix (fst e)) (store c)\<rparr>, length gone))"

text \<open>
  \<open>getOrSet\<close>: a hit returns at once; on a miss \<open>fn\<close> is awaited, so the store it leaves and
  the clock \<open>now'\<close> afterwards are its own; a \<open>null\<close> result is returned and not stored.
\<close>

definition cache_getOrSet ::
  "int \<Rightarrow> int \<Rightarrow> string \<Rightarrow> ('v cache \<Rightarrow> 'v cache \<times> 'v cached option option) \<Rightarrow> int option
     \<Rightarrow> 'v cache \<Rightarrow> 'v cache \<times> (cache_error, 'v cached option) res" where
  "cache_getOrSet now now' key fn ttlSec c =
     (let fullKey = applyPrefix c key; c1 = purgeIfExpired now fullKey c in
      case map_of (store c1) fullKey of
        Some e \<Rightarrow> (c1, Inr (Some (cvalue e)))
      | None \<Rightarrow>
          (case fn c1 of
             (c2, None) \<Rightarrow> (c2, Inl CallbackError)
           | (c2, Some None) \<Rightarrow> (c2, Inr None)
           | (c2, Some (Some v)) \<Rightarrow> (put fullKey v (expiry now' ttlSec) c2, Inr (Some v))))"

definition cache_close :: "'v cache \<Rightarrow> 'v cache" where
  "cache_close c = c\<lparr>store := []\<rparr>"

section \<open>The abstract cache: what a reader at time \<open>now\<close> can see\<close>

definition live :: "'v cache \<Rightarrow> int \<Rightarrow> string \<Rightarrow> 'v cached option" where
  "live c now key =
     (case map_of (store c) (applyPrefix c key) of
        None \<Rightarrow> None
      | Some e \<Rightarrow> if isExpired now e then None else Some (cvalue e))"

definition stale :: "'v cache \<Rightarrow> int \<Rightarrow> string \<Rightarrow> bool" where
  "stale c now key \<longleftrightarrow> (\<exists>e. map_of (store c) (applyPrefix c key) = Some e \<and> isExpired now e)"

lemma cfg_ops [simp]:
  "cfg (purgeIfExpired now k c) = cfg c"
  "cfg (put k v x c) = cfg c"
  by (auto simp: purgeIfExpired_def put_def split: option.splits)

lemma applyPrefix_cfg [simp]:
  "applyPrefix (purgeIfExpired now k c) key = applyPrefix c key"
  "applyPrefix (put k v x c) key = applyPrefix c key"
  "applyPrefix (c\<lparr>store := m\<rparr>) key = applyPrefix c key"
  by (simp_all add: applyPrefix_def)

lemma applyPrefix_inj [simp]: "applyPrefix c k = applyPrefix c k' \<longleftrightarrow> k = k'"
  by (simp add: applyPrefix_def)

lemma isExpired_mono: "isExpired now e \<Longrightarrow> now \<le> now' \<Longrightarrow> isExpired now' e"
  by (auto simp: isExpired_def split: option.splits)

lemma isExpired_expiry:
  "isExpired now' \<lparr>cvalue = v, expiresAt = expiry now ttl\<rparr> \<longleftrightarrow>
     (\<exists>n. ttl = Some n \<and> 0 < n \<and> now + n * 1000 \<le> now')"
  by (auto simp: isExpired_def expiry_def split: option.splits)

lemma store_purge:
  "map_of (store (purgeIfExpired now k c)) k' =
     (if k' = k then (case map_of (store c) k of None \<Rightarrow> None | Some e \<Rightarrow> if isExpired now e then None else Some e)
      else map_of (store c) k')"
  by (auto simp: purgeIfExpired_def split: option.splits)

lemma live_purge:
  "now \<le> now' \<Longrightarrow> live (purgeIfExpired now (applyPrefix c k) c) now' k' = live c now' k'"
  by (auto simp: live_def store_purge dest: isExpired_mono split: option.splits)

lemma live_put:
  "live (put (applyPrefix c k) v x c) now k' =
     (if k' = k then (if isExpired now \<lparr>cvalue = v, expiresAt = x\<rparr> then None else Some v) else live c now k')"
  by (auto simp: live_def put_def)

lemma live_delete: "live (c\<lparr>store := alist_del (applyPrefix c k) (store c)\<rparr>) now k' = (if k' = k then None else live c now k')"
  by (auto simp: live_def)

lemma ceil_sec_pos: "0 < ceil_sec ms \<longleftrightarrow> 0 < ms"
  unfolding ceil_sec_def by (simp add: neg_less_0_iff_less div_neg_pos_less0) linarith

lemma live_stale: "live c now k = None \<longleftrightarrow> map_of (store c) (applyPrefix c k) = None \<or> stale c now k"
  by (auto simp: live_def stale_def split: option.splits)

lemma stored_purge_live:
  "map_option cvalue (map_of (store (purgeIfExpired now (applyPrefix c k) c)) (applyPrefix c k)) = live c now k"
  by (auto simp: live_def store_purge split: option.splits)

section \<open>The driver interface\<close>

text \<open>
  \<open>alive\<close> is the life a TTL argument gives a value stored at \<open>now\<close>. The laws are the driver
  surface its clients use (\<open>get\<close>, \<open>set\<close>, \<open>del\<close>, \<open>ttl\<close>, \<open>increment\<close>, \<open>setIfAbsent\<close>), stated on
  the view of a reader. \<open>increment\<close> is only specified where no expired entry is left over.
\<close>

definition alive :: "int option \<Rightarrow> int \<Rightarrow> int \<Rightarrow> bool" where
  "alive ttl now t \<longleftrightarrow> (case ttl of None \<Rightarrow> True | Some n \<Rightarrow> 0 < n \<longrightarrow> t < now + n * 1000)"

locale cache_driver =
  fixes view :: "'s \<Rightarrow> int \<Rightarrow> string \<Rightarrow> 'd cached option"
    and leftover :: "'s \<Rightarrow> int \<Rightarrow> string \<Rightarrow> bool"
    and get_op :: "int \<Rightarrow> string \<Rightarrow> 's \<Rightarrow> ('e, 's \<times> 'd cached option) res"
    and set_op :: "int \<Rightarrow> string \<Rightarrow> 'd cached \<Rightarrow> int option \<Rightarrow> 's \<Rightarrow> ('e, 's) res"
    and del_op :: "string \<Rightarrow> 's \<Rightarrow> ('e, 's \<times> bool) res"
    and ttl_op :: "int \<Rightarrow> string \<Rightarrow> 's \<Rightarrow> ('e, 's \<times> int) res"
    and incr_op :: "string \<Rightarrow> int \<Rightarrow> 's \<Rightarrow> ('e, 's \<times> int) res"
    and claim_op :: "int \<Rightarrow> string \<Rightarrow> 'd cached \<Rightarrow> int option \<Rightarrow> 's \<Rightarrow> ('e, 's \<times> bool) res"
  assumes get_law: "k \<noteq> [] \<Longrightarrow> \<exists>s'. get_op now k s = Inr (s', view s now k)
      \<and> (\<forall>t k'. now \<le> t \<longrightarrow> view s' t k' = view s t k')"
    and set_law: "k \<noteq> [] \<Longrightarrow> \<exists>s'. set_op now k v ttl s = Inr s'
      \<and> (\<forall>t k'. view s' t k' = (if k' = k then (if alive ttl now t then Some v else None) else view s t k'))
      \<and> (\<forall>t k'. leftover s' t k' = (if k' = k then \<not> alive ttl now t else leftover s t k'))"
    and del_law: "k \<noteq> [] \<Longrightarrow> \<exists>s' b. del_op k s = Inr (s', b)
      \<and> (\<forall>t k'. view s' t k' = (if k' = k then None else view s t k'))
      \<and> (\<forall>t k'. leftover s' t k' = (if k' = k then False else leftover s t k'))"
    and ttl_law: "k \<noteq> [] \<Longrightarrow> \<exists>s' n. ttl_op now k s = Inr (s', n) \<and> (n = -2 \<longleftrightarrow> view s now k = None)
      \<and> (\<forall>t k'. now \<le> t \<longrightarrow> view s' t k' = view s t k')"
    and incr_law: "k \<noteq> [] \<Longrightarrow> \<not> leftover s now k \<Longrightarrow> view s now k = None \<or> view s now k = Some (CNum m) \<Longrightarrow>
      \<exists>s'. incr_op k by s = Inr (s', (if view s now k = None then 0 else m) + by)
        \<and> (\<forall>t\<ge>now. \<forall>k'. k' \<noteq> k \<longrightarrow> view s' t k' = view s t k')
        \<and> view s' now k = Some (CNum ((if view s now k = None then 0 else m) + by))"
    and claim_law: "k \<noteq> [] \<Longrightarrow> \<exists>s'. claim_op now k v ttl s = Inr (s', view s now k = None)
      \<and> (\<forall>t k'. now \<le> t \<longrightarrow> view s' t k' =
           (if k' = k \<and> view s now k = None then (if alive ttl now t then Some v else None) else view s t k'))"
begin

text \<open>Two claims of one key while the first is alive: only the first wins.\<close>

lemma claim_exclusive:
  assumes "k \<noteq> []" and "claim_op now k v ttl s = Inr (s1, True)"
    and "now \<le> now'" and "alive ttl now now'"
    and "claim_op now' k v' ttl' s1 = Inr (s2, b)"
  shows "\<not> b"
proof -
  have none: "view s now k = None" and v1: "\<forall>t k'. now \<le> t \<longrightarrow> view s1 t k' =
      (if k' = k then (if alive ttl now t then Some v else None) else view s t k')"
    using claim_law[OF assms(1), of now v ttl s] assms(2) by auto
  have "b = (view s1 now' k = None)"
    using claim_law[OF assms(1), of now' v' ttl' s1] assms(5) by auto
  with v1 assms(3,4) show ?thesis by simp
qed

lemma set_then_get:
  assumes "k \<noteq> []" and "set_op now k v ttl s = Inr s1" and "get_op now' k s1 = Inr (s2, r)"
  shows "r = (if alive ttl now now' then Some v else None)"
  using set_law[OF assms(1), of now v ttl s] get_law[OF assms(1), of now' s1] assms(2,3) by auto

end

lemma alive_expiry: "isExpired t \<lparr>cvalue = v, expiresAt = expiry now ttl\<rparr> \<longleftrightarrow> \<not> alive ttl now t"
  by (auto simp: isExpired_def expiry_def alive_def split: option.splits)

lemma stale_put:
  "stale (put (applyPrefix c k) v (expiry now ttl) c) t k' \<longleftrightarrow>
     (if k' = k then \<not> alive ttl now t else stale c t k')"
  by (auto simp: stale_def put_def alive_expiry)

lemma stale_delete:
  "stale (c\<lparr>store := alist_del (applyPrefix c k) (store c)\<rparr>) t k' \<longleftrightarrow> (if k' = k then False else stale c t k')"
  by (auto simp: stale_def)

lemma cache_ttl_cases:
  assumes "k \<noteq> []"
  shows "\<exists>c' n. cache_ttl now k c = Inr (c', n) \<and> (n = -2 \<longleftrightarrow> live c now k = None)
    \<and> (c' = c \<or> c' = c\<lparr>store := alist_del (applyPrefix c k) (store c)\<rparr> \<and> live c now k = None)"
proof (cases "map_of (store c) (applyPrefix c k)")
  case None
  then show ?thesis using assms by (simp add: cache_ttl_def live_def)
next
  case (Some e)
  show ?thesis
  proof (cases "expiresAt e")
    case None
    then show ?thesis using assms Some by (simp add: cache_ttl_def live_def isExpired_def)
  next
    case (Some x)
    have "0 < ceil_sec (x - now) \<longleftrightarrow> now < x" using ceil_sec_pos[of "x - now"] by simp
    then show ?thesis
      using assms Some \<open>map_of (store c) (applyPrefix c k) = Some e\<close>
      by (auto simp: cache_ttl_def live_def isExpired_def Let_def)
  qed
qed

lemma live_after_expiry:
  "live c now k = None \<Longrightarrow> now \<le> t \<Longrightarrow> live c t k = None"
  by (auto simp: live_def dest: isExpired_mono split: option.splits if_splits)

lemma cache_increment_live:
  assumes "k \<noteq> []" and "\<not> stale c now k"
    and "live c now k = None \<or> live c now k = Some (CNum m)"
    and n: "n = (if live c now k = None then 0 else m) + step"
  shows "\<exists>x. cache_increment k step c = Inr (put (applyPrefix c k) (CNum n) x c, n)
    \<and> \<not> isExpired now \<lparr>cvalue = CNum n, expiresAt = x\<rparr>"
proof (cases "map_of (store c) (applyPrefix c k)")
  case None
  then have "cache_increment k step c = Inr (put (applyPrefix c k) (CNum n) None c, n)"
    using assms(1) by (simp add: cache_increment_def n live_def)
  moreover have "\<not> isExpired now \<lparr>cvalue = CNum n, expiresAt = None\<rparr>" by (simp add: isExpired_def)
  ultimately show ?thesis by blast
next
  case (Some e)
  then have fresh: "\<not> isExpired now e" using assms(2) by (auto simp: stale_def)
  then have "cvalue e = CNum m" using assms(3) Some by (auto simp: live_def)
  then have "cache_increment k step c = Inr (put (applyPrefix c k) (CNum n) (expiresAt e) c, n)"
    using assms(1) Some fresh by (simp add: cache_increment_def n live_def)
  moreover have "\<not> isExpired now \<lparr>cvalue = CNum n, expiresAt = expiresAt e\<rparr>"
    using fresh by (simp add: isExpired_def)
  ultimately show ?thesis by blast
qed

interpretation memory: cache_driver live stale cache_get cache_set cache_del cache_ttl cache_increment
  cache_setIfAbsent
proof (unfold_locales, goal_cases)
  case (1 k now s)
  then show ?case
    by (auto simp: cache_get_def Let_def stored_purge_live live_purge)
next
  case (2 k now v ttl s)
  then show ?case by (auto simp: cache_set_def live_put stale_put alive_expiry)
next
  case (3 k s)
  then show ?case by (auto simp: cache_del_def Let_def live_delete stale_delete)
next
  case (4 k now s)
  then show ?case
    using cache_ttl_cases[OF 4, of now s] live_after_expiry[of s now k] by (auto simp: live_delete)
next
  case (5 k s now m step)
  then show ?case
    using cache_increment_live[OF 5 refl, of step] by (auto simp: live_put)
next
  case (6 k now v ttl s)
  have "map_of (store (purgeIfExpired now (applyPrefix s k) s)) (applyPrefix s k) = None
      \<longleftrightarrow> live s now k = None"
    using stored_purge_live[of now s k] by (metis option.map_disc_iff)
  moreover have "live (put (applyPrefix s k) v (expiry now ttl) (purgeIfExpired now (applyPrefix s k) s)) t k'
      = (if k' = k then (if alive ttl now t then Some v else None) else live s t k')" if "now \<le> t" for t k'
    using live_put[of "purgeIfExpired now (applyPrefix s k) s" k v "expiry now ttl" t k'] live_purge[OF that, of s k k']
    by (simp add: alive_expiry)
  ultimately show ?case using 6
    by (auto simp: cache_setIfAbsent_def Let_def live_purge)
qed

section \<open>Properties\<close>

text \<open>
  What is stored is what is read, until it expires: after \<open>set\<close> with any TTL, a \<open>get\<close> of
  the key at a later time returns the value exactly while the TTL lasts, and other keys are
  unaffected.
\<close>

theorem cache_set_get:
  assumes "k \<noteq> []" and "cache_set now k v ttl c = Inr c1" and "cache_get now' k' c1 = Inr (c2, r)"
  shows "r = (if k' = k then (if alive ttl now now' then Some v else None) else live c now' k')"
proof -
  have "k' \<noteq> []" using assms(3) by (auto simp: cache_get_def)
  then show ?thesis
    using memory.set_law[OF assms(1), of now v ttl c] memory.get_law[of k' now' c1] assms(2,3)
    by auto
qed

definition demo_cache :: "nat cache" where
  "demo_cache = createMemoryCache None None"

theorem cache_set_get_witness:
  "\<exists>c1. cache_set 0 ''k'' (CData 7) (Some 2) demo_cache = Inr c1
     \<and> (\<exists>c2. cache_get 1999 ''k'' c1 = Inr (c2, Some (CData 7)))
     \<and> (\<exists>c2. cache_get 2000 ''k'' c1 = Inr (c2, None))"
proof -
  obtain c1 where c1: "cache_set 0 ''k'' (CData 7) (Some 2) demo_cache = Inr c1"
    by (simp add: cache_set_def)
  obtain a ra where a: "cache_get 1999 ''k'' c1 = Inr (a, ra)" by (simp add: cache_get_def Let_def)
  obtain b rb where b: "cache_get 2000 ''k'' c1 = Inr (b, rb)" by (simp add: cache_get_def Let_def)
  show ?thesis
    using c1 a b cache_set_get[OF _ c1 a] cache_set_get[OF _ c1 b] by (simp add: alive_def)
qed

text \<open>
  \<open>setIfAbsent\<close> is an exclusive claim: it succeeds exactly when the key has no live value,
  and while a successful claim lasts every further claim of the key fails.
\<close>

theorem cache_claim_exclusive:
  assumes "k \<noteq> []" and "cache_setIfAbsent now k v ttl c = Inr (c1, won)"
  shows "won = (live c now k = None)
    \<and> (won \<and> now \<le> now' \<and> alive ttl now now' \<longrightarrow>
         (\<exists>c2. cache_setIfAbsent now' k v' ttl' c1 = Inr (c2, False)))"
proof -
  obtain c2 b where c2: "cache_setIfAbsent now' k v' ttl' c1 = Inr (c2, b)"
    using memory.claim_law[OF assms(1), of now' v' ttl' c1] by blast
  have "won = (live c now k = None)"
    using memory.claim_law[OF assms(1), of now v ttl c] assms(2) by auto
  moreover have "\<not> b" if "won" "now \<le> now'" "alive ttl now now'"
    using memory.claim_exclusive[OF assms(1) _ that(2,3) c2] assms(2) that(1) by simp
  ultimately show ?thesis using c2 by auto
qed

theorem cache_claim_exclusive_witness:
  "\<exists>c1. cache_setIfAbsent 0 ''job'' (CData 1) (Some 60) demo_cache = Inr (c1, True)
     \<and> (\<exists>c2. cache_setIfAbsent 59999 ''job'' (CData 2) (Some 60) c1 = Inr (c2, False))"
proof -
  obtain c1 won where c1: "cache_setIfAbsent 0 ''job'' (CData 1) (Some 60) demo_cache = Inr (c1, won)"
    using memory.claim_law[of "''job''" 0 "CData 1" "Some 60" demo_cache] by blast
  have "live demo_cache 0 ''job'' = None" by (simp add: live_def demo_cache_def createMemoryCache_def)
  then show ?thesis
    using c1 cache_claim_exclusive[OF _ c1, of 59999 "CData 2" "Some 60"] by (simp add: alive_def)
qed

text \<open>
  \<open>ttl\<close> and \<open>get\<close> agree at every instant: -2 exactly when \<open>get\<close> sees nothing, -1 for a value
  without expiry, otherwise the remaining whole seconds rounded up.
\<close>

theorem cache_ttl_agrees:
  assumes "k \<noteq> []"
  shows "\<exists>c' n. cache_ttl now k c = Inr (c', n) \<and> (n = -2 \<longleftrightarrow> live c now k = None)
    \<and> (n \<noteq> -2 \<longrightarrow> (\<exists>e. map_of (store c) (applyPrefix c k) = Some e \<and>
         (case expiresAt e of None \<Rightarrow> n = -1
          | Some x \<Rightarrow> 0 < n \<and> x - now \<le> n * 1000 \<and> n * 1000 < x - now + 1000)))"
proof -
  obtain c' n where n: "cache_ttl now k c = Inr (c', n)" "n = -2 \<longleftrightarrow> live c now k = None"
    using cache_ttl_cases[OF assms, of now c] by auto
  have ceil: "ms \<le> ceil_sec ms * 1000 \<and> ceil_sec ms * 1000 < ms + 1000" for ms
    unfolding ceil_sec_def by (simp add: algebra_simps) linarith
  show ?thesis
    using n assms ceil
    by (fastforce simp: cache_ttl_def Let_def split: option.splits if_splits)
qed

theorem cache_ttl_agrees_witness:
  "\<exists>c' n. cache_ttl 0 ''k'' demo_cache = Inr (c', n) \<and> (n = -2 \<longleftrightarrow> live demo_cache 0 ''k'' = None)"
  using cache_ttl_agrees[of "''k''" 0 demo_cache] by auto

text \<open>
  \<open>increment\<close> counts: on a live counter it adds, on a missing one it starts from 0. On a
  counter whose TTL has passed it does not start again: it returns the expired value plus the
  step, and the result stays invisible to \<open>get\<close>.
\<close>

theorem cache_increment_counts:
  assumes "k \<noteq> []" and "map_of (store c) (applyPrefix c k) = Some \<lparr>cvalue = CNum m, expiresAt = x\<rparr>"
  shows "\<exists>c'. cache_increment k by c = Inr (c', m + by)
    \<and> live c' now k = (if stale c now k then None else Some (CNum (m + by)))"
  using assms by (auto simp: cache_increment_def Let_def live_put stale_def isExpired_def)

theorem cache_increment_counts_witness:
  "\<exists>c'. cache_increment ''lock'' 1 (put ''saas:lock'' (CNum 1) (Some 1000) demo_cache) = Inr (c', 2)
     \<and> live c' 5000 ''lock'' = None"
proof -
  let ?c = "put ''saas:lock'' (CNum 1) (Some 1000) demo_cache"
  have e: "map_of (store ?c) (applyPrefix ?c ''lock'') = Some \<lparr>cvalue = CNum 1, expiresAt = Some 1000\<rparr>"
    by (simp add: put_def demo_cache_def createMemoryCache_def applyPrefix_def)
  have "stale ?c 5000 ''lock''" unfolding stale_def e by (simp add: isExpired_def)
  then show ?thesis using cache_increment_counts[OF _ e, of 1 5000] by simp
qed

end
