(* ===== verification/MemoryQueue.thy ===== *)
theory MemoryQueue
  imports Prelude "HOL-Library.Multiset"
begin

text \<open>
  \<open>src/queues/memory.queue.js\<close>: the in-memory job queue. The closure variables of
  \<open>createInMemoryQueue\<close> are the fields of a record; \<open>running\<close> is the list of messages whose
  consumer call has not settled (the code keeps its length), \<open>immediates\<close> counts the scheduled
  \<open>setImmediate(drain)\<close> callbacks and \<open>timers\<close> holds the due times of the \<open>setTimeout(drain)\<close>
  ones. A listener is a number; \<open>delivered\<close> logs the calls \<open>emit\<close> makes.
\<close>

section \<open>State\<close>

datatype job_id = JobId string | MemId nat

record 'd message =
  mid :: job_id
  mname :: string
  mdata :: 'd
  mattempts :: int
  attemptsMade :: int
  runAt :: int

datatype event_kind = Completed | Failed | Retry

datatype 'd event =
    CompletedEvent job_id string 'd
  | FailedEvent job_id string 'd
  | RetryEvent job_id int int

fun kind_of :: "'d event \<Rightarrow> event_kind" where
  "kind_of (CompletedEvent i n d) = Completed"
| "kind_of (FailedEvent i n d) = Failed"
| "kind_of (RetryEvent i a t) = Retry"

record queue_options =
  concurrency :: int
  default_attempts :: int
  backoffMs :: int

definition getDefaultInMemoryOptions :: queue_options where
  "getDefaultInMemoryOptions = \<lparr>concurrency = 5, default_attempts = 3, backoffMs = 1000\<rparr>"

record 'd mem_queue =
  opts :: queue_options
  buffer :: "'d message list"
  listeners :: "(event_kind \<times> nat) list"
  consuming :: bool
  closed :: bool
  draining :: bool
  running :: "'d message list"
  nextId :: nat
  completedCount :: nat
  failedCount :: nat
  immediates :: nat
  timers :: "int list"
  delivered :: "(nat \<times> 'd event) list"

definition createInMemoryQueue :: "queue_options \<Rightarrow> 'd mem_queue" where
  "createInMemoryQueue os =
     \<lparr>opts = os, buffer = [], listeners = [], consuming = False, closed = False, draining = False,
      running = [], nextId = 1, completedCount = 0, failedCount = 0, immediates = 0, timers = [],
      delivered = []\<rparr>"

section \<open>Operations\<close>

definition emit :: "'d event \<Rightarrow> 'd mem_queue \<Rightarrow> 'd mem_queue" where
  "emit e q = q\<lparr>delivered := delivered q
     @ map (\<lambda>l. (snd l, e)) (filter (\<lambda>l. fst l = kind_of e) (listeners q))\<rparr>"

definition scheduleDrain :: "'d mem_queue \<Rightarrow> 'd mem_queue" where
  "scheduleDrain q = (if closed q then q else q\<lparr>immediates := Suc (immediates q)\<rparr>)"

fun earliest :: "'d message \<Rightarrow> 'd message list \<Rightarrow> int" where
  "earliest m [] = runAt m"
| "earliest m (m' # ms) = min (runAt m) (earliest m' ms)"

text \<open>
  The loop of \<open>drain\<close>: take the first ready message while a slot is free; with none ready, set a
  timer for the earliest one and return.
\<close>

function drain_loop :: "int \<Rightarrow> 'd mem_queue \<Rightarrow> 'd mem_queue" where
  "drain_loop now q =
     (if int (length (running q)) < concurrency (opts q) then
        (case buffer q of
           [] \<Rightarrow> q
         | b # bs \<Rightarrow>
             (case List.extract (\<lambda>m. runAt m \<le> now) (b # bs) of
                None \<Rightarrow> q\<lparr>timers := timers q @ [now + max 0 (earliest b bs - now)]\<rparr>
              | Some (pre, m, post) \<Rightarrow>
                  drain_loop now (q\<lparr>buffer := pre @ post, running := running q @ [m]\<rparr>)))
      else q)"
  by pat_completeness auto
termination
  by (relation "measure (\<lambda>(now, q). length (buffer q))")
    (auto simp: extract_Some_iff simp del: extract_Cons_code dest!: arg_cong[where f = length])

declare drain_loop.simps [simp del]

definition drain :: "int \<Rightarrow> 'd mem_queue \<Rightarrow> 'd mem_queue" where
  "drain now q = (if \<not> consuming q \<or> draining q then q else drain_loop now q)"

text \<open>An immediate or a timer of the queue runs \<open>drain\<close>.\<close>

definition run_immediate :: "int \<Rightarrow> 'd mem_queue \<Rightarrow> 'd mem_queue" where
  "run_immediate now q = drain now (q\<lparr>immediates := immediates q - 1\<rparr>)"

definition run_timer :: "int \<Rightarrow> int \<Rightarrow> 'd mem_queue \<Rightarrow> 'd mem_queue" where
  "run_timer now due q = drain now (q\<lparr>timers := remove1 due (timers q)\<rparr>)"

text \<open>\<open>finally\<close> of a dispatched message: free the slot, schedule the next drain.\<close>

definition message_done :: "'d message \<Rightarrow> 'd mem_queue \<Rightarrow> 'd mem_queue" where
  "message_done m q = scheduleDrain (q\<lparr>running := remove1 m (running q)\<rparr>)"

text \<open>The consumer resolved, or rejected: \<open>runMessage\<close> after its await.\<close>

definition message_ok :: "'d message \<Rightarrow> 'd mem_queue \<Rightarrow> 'd mem_queue" where
  "message_ok m q =
     message_done m (emit (CompletedEvent (mid m) (mname m) (mdata m))
       (q\<lparr>completedCount := Suc (completedCount q)\<rparr>))"

definition message_failed :: "int \<Rightarrow> 'd message \<Rightarrow> 'd mem_queue \<Rightarrow> 'd mem_queue" where
  "message_failed now m q =
     (let made = attemptsMade m + 1 in
      if made \<ge> mattempts m \<or> closed q then
        message_done m (emit (FailedEvent (mid m) (mname m) (mdata m))
          (q\<lparr>failedCount := Suc (failedCount q)\<rparr>))
      else
        (let delay = backoffMs (opts q) * 2 ^ nat (made - 1) in
         message_done m (emit (RetryEvent (mid m) made delay)
           (q\<lparr>buffer := buffer q @ [m\<lparr>attemptsMade := made, runAt := now + delay\<rparr>]\<rparr>))))"

datatype queue_error = QueueClosed

definition schedule ::
  "int \<Rightarrow> 'd \<Rightarrow> int \<Rightarrow> string \<Rightarrow> string option \<Rightarrow> int option \<Rightarrow> 'd mem_queue
     \<Rightarrow> (queue_error, 'd mem_queue \<times> job_id) res" where
  "schedule now d delayMs nm jobId att q =
     (if closed q \<or> draining q then Inl QueueClosed
      else
        let (i, q1) = (case jobId of Some j \<Rightarrow> (JobId j, q)
                       | None \<Rightarrow> (MemId (nextId q), q\<lparr>nextId := Suc (nextId q)\<rparr>));
            m = \<lparr>mid = i, mname = nm, mdata = d,
                 mattempts = (case att of None \<Rightarrow> default_attempts (opts q) | Some a \<Rightarrow> a),
                 attemptsMade = 0, runAt = now + max 0 delayMs\<rparr>
        in Inr (scheduleDrain (q1\<lparr>buffer := buffer q1 @ [m]\<rparr>), i))"

definition enqueue ::
  "int \<Rightarrow> 'd \<Rightarrow> string \<Rightarrow> string option \<Rightarrow> int option \<Rightarrow> 'd mem_queue
     \<Rightarrow> (queue_error, 'd mem_queue \<times> job_id) res" where
  "enqueue now d nm jobId att q =
     (if closed q \<or> draining q then Inl QueueClosed
      else
        let (i, q1) = (case jobId of Some j \<Rightarrow> (JobId j, q)
                       | None \<Rightarrow> (MemId (nextId q), q\<lparr>nextId := Suc (nextId q)\<rparr>));
            m = \<lparr>mid = i, mname = nm, mdata = d,
                 mattempts = (case att of None \<Rightarrow> default_attempts (opts q) | Some a \<Rightarrow> a),
                 attemptsMade = 0, runAt = now\<rparr>
        in Inr (scheduleDrain (q1\<lparr>buffer := buffer q1 @ [m]\<rparr>), i))"

definition consume :: "'d mem_queue \<Rightarrow> 'd mem_queue" where
  "consume q = scheduleDrain (q\<lparr>consuming := True\<rparr>)"

definition on_event :: "event_kind \<Rightarrow> nat \<Rightarrow> 'd mem_queue \<Rightarrow> 'd mem_queue" where
  "on_event k l q = q\<lparr>listeners := listeners q @ [(k, l)]\<rparr>"

definition off_event :: "event_kind \<Rightarrow> nat \<Rightarrow> 'd mem_queue \<Rightarrow> 'd mem_queue" where
  "off_event k l q = q\<lparr>listeners := filter (\<lambda>e. e \<noteq> (k, l)) (listeners q)\<rparr>"

record queue_stats =
  waiting_n :: nat
  delayed_n :: nat
  active_n :: nat
  completed_n :: nat
  failed_n :: nat
  consuming_now :: bool

definition queue_stats_of :: "int \<Rightarrow> 'd mem_queue \<Rightarrow> queue_stats" where
  "queue_stats_of now q =
     (let w = length (filter (\<lambda>m. runAt m \<le> now) (buffer q)) in
      \<lparr>waiting_n = w, delayed_n = length (buffer q) - w, active_n = length (running q),
       completed_n = completedCount q, failed_n = failedCount q,
       consuming_now = consuming q \<and> \<not> draining q \<and> \<not> closed q\<rparr>)"

text \<open>
  \<open>close\<close>: draining starts at once; the rest runs when the running messages are done, when
  \<open>drainTimeoutMs\<close> is over, or immediately when nothing runs or no timeout was given. The result
  is whether it drained and how many buffered messages were dropped.
\<close>

definition close_start :: "'d mem_queue \<Rightarrow> 'd mem_queue" where
  "close_start q = q\<lparr>draining := True\<rparr>"

definition close_finish :: "'d mem_queue \<Rightarrow> 'd mem_queue \<times> bool \<times> nat" where
  "close_finish q =
     (q\<lparr>closed := True, consuming := False, buffer := [], listeners := [], timers := [], immediates := 0\<rparr>,
      running q = [], length (buffer q))"

lemmas queue_opdefs =
  emit_def scheduleDrain_def message_done_def message_ok_def message_failed_def schedule_def
  enqueue_def consume_def on_event_def off_event_def close_start_def close_finish_def

section \<open>The drain loop\<close>

definition same_frame :: "'d mem_queue \<Rightarrow> 'd mem_queue \<Rightarrow> bool" where
  "same_frame q q' \<longleftrightarrow> opts q' = opts q \<and> completedCount q' = completedCount q
     \<and> failedCount q' = failedCount q \<and> consuming q' = consuming q \<and> draining q' = draining q
     \<and> closed q' = closed q \<and> immediates q' = immediates q"

text \<open>The messages of a queue, wherever they are.\<close>

definition messages :: "'d mem_queue \<Rightarrow> 'd message multiset" where
  "messages q = mset (buffer q) + mset (running q)"

definition slot_free :: "'d mem_queue \<Rightarrow> bool" where
  "slot_free q \<longleftrightarrow> int (length (running q)) < concurrency (opts q)"

lemma drain_loop_stop: "\<not> slot_free q \<or> buffer q = [] \<Longrightarrow> drain_loop now q = q"
  by (subst drain_loop.simps) (auto simp: slot_free_def)

lemma drain_loop_arm:
  assumes "slot_free q" and "buffer q = b # bs" and "\<forall>m\<in>set (b # bs). now < runAt m"
  shows "drain_loop now q = q\<lparr>timers := timers q @ [now + max 0 (earliest b bs - now)]\<rparr>"
proof -
  have "List.extract (\<lambda>m. runAt m \<le> now) (b # bs) = None"
    using assms(3) by (auto simp: extract_None_iff simp del: extract_Cons_code)
  then show ?thesis using assms by (subst drain_loop.simps) (simp add: slot_free_def)
qed

lemma drain_loop_step:
  assumes "slot_free q" and "buffer q = pre @ m # post" and "runAt m \<le> now"
    and "\<forall>x\<in>set pre. now < runAt x"
  shows "drain_loop now q = drain_loop now (q\<lparr>buffer := pre @ post, running := running q @ [m]\<rparr>)"
proof -
  obtain b bs where b: "buffer q = b # bs" using assms(2) by (cases pre) auto
  have "List.extract (\<lambda>m. runAt m \<le> now) (b # bs) = Some (pre, m, post)"
    using assms b by (auto simp: extract_Some_iff simp del: extract_Cons_code)
  then show ?thesis using assms(1) b by (subst drain_loop.simps) (simp add: slot_free_def)
qed

lemma drain_loop_induct [case_names stop arm step]:
  assumes stop: "\<And>q. \<not> slot_free q \<or> buffer q = [] \<Longrightarrow> P q"
    and arm: "\<And>q b bs. slot_free q \<Longrightarrow> buffer q = b # bs \<Longrightarrow> \<forall>m\<in>set (b # bs). now < runAt m \<Longrightarrow> P q"
    and step: "\<And>q pre m post. slot_free q \<Longrightarrow> buffer q = pre @ m # post \<Longrightarrow> runAt m \<le> now \<Longrightarrow>
      \<forall>x\<in>set pre. now < runAt x \<Longrightarrow> P (q\<lparr>buffer := pre @ post, running := running q @ [m]\<rparr>) \<Longrightarrow> P q"
  shows "P q"
proof (induction "length (buffer q)" arbitrary: q rule: less_induct)
  case less
  show ?case
  proof (cases "List.extract (\<lambda>m. runAt m \<le> now) (buffer q)")
    case None
    then have "\<forall>m\<in>set (buffer q). now < runAt m"
      by (auto simp: extract_None_iff simp del: extract_Cons_code)
    then show ?thesis using stop[of q] arm[of q] by (cases "buffer q") auto
  next
    case (Some r)
    obtain pre m post where "r = (pre, m, post)" by (cases r)
    then have q: "buffer q = pre @ m # post" "runAt m \<le> now" "\<forall>x\<in>set pre. now < runAt x"
      using Some by (auto simp: extract_Some_iff simp del: extract_Cons_code)
    have "P (q\<lparr>buffer := pre @ post, running := running q @ [m]\<rparr>)" by (rule less) (simp add: q)
    then show ?thesis using stop[of q] step[OF _ q] by blast
  qed
qed

lemma drain_loop_same: "same_frame q (drain_loop now q)"
  by (induction q rule: drain_loop_induct[where now = now])
    (auto simp: drain_loop_stop drain_loop_arm drain_loop_step same_frame_def)

lemma drain_loop_messages: "messages (drain_loop now q) = messages q"
  by (induction q rule: drain_loop_induct[where now = now])
    (auto simp: drain_loop_stop drain_loop_arm drain_loop_step messages_def)

lemma drain_loop_running:
  "int (length (running (drain_loop now q))) \<le> max (int (length (running q))) (concurrency (opts q))"
  by (induction q rule: drain_loop_induct[where now = now])
    (auto simp: drain_loop_stop drain_loop_arm drain_loop_step slot_free_def)

text \<open>Messages are dispatched only once they are ready, and appended to the running ones.\<close>

lemma drain_loop_ready:
  "\<exists>ms. running (drain_loop now q) = running q @ ms \<and> (\<forall>m\<in>set ms. runAt m \<le> now)"
proof (induction q rule: drain_loop_induct[where now = now])
  case (step q pre m post)
  then obtain ms where "running (drain_loop now q) = (running q @ [m]) @ ms" "\<forall>m\<in>set ms. runAt m \<le> now"
    by (auto simp: drain_loop_step)
  then show ?case using step(3) by (auto intro!: exI[of _ "m # ms"])
qed (auto simp: drain_loop_stop drain_loop_arm)

text \<open>When the loop leaves a message behind with a slot free, it has armed a timer for it.\<close>

lemma drain_loop_armed:
  "slot_free (drain_loop now q) \<Longrightarrow> buffer (drain_loop now q) \<noteq> [] \<Longrightarrow>
    (\<exists>b bs. buffer (drain_loop now q) = b # bs
       \<and> now + max 0 (earliest b bs - now) \<in> set (timers (drain_loop now q)))"
  by (induction q rule: drain_loop_induct[where now = now])
    (auto simp: drain_loop_stop drain_loop_arm drain_loop_step)

lemma earliest_le: "m \<in> set (b # bs) \<Longrightarrow> earliest b bs \<le> runAt m"
  by (induction b bs rule: earliest.induct) auto

section \<open>The queue in operation\<close>

text \<open>
  A world is the queue, the clock, and how many messages were accepted and how many were dropped
  by \<open>close\<close>. A step is one call of the handle, one callback of the event loop, one settled
  consumer call, or time passing.
\<close>

record 'd world =
  que :: "'d mem_queue"
  clock :: int
  accepted :: nat
  dropped :: nat

inductive qstep :: "'d world \<Rightarrow> 'd world \<Rightarrow> bool" where
  tick: "clock w \<le> t \<Longrightarrow> qstep w (w\<lparr>clock := t\<rparr>)"
| enqueued: "enqueue (clock w) d nm j a (que w) = Inr (q', i) \<Longrightarrow>
    qstep w (w\<lparr>que := q', accepted := Suc (accepted w)\<rparr>)"
| scheduled: "schedule (clock w) d delay nm j a (que w) = Inr (q', i) \<Longrightarrow>
    qstep w (w\<lparr>que := q', accepted := Suc (accepted w)\<rparr>)"
| consumer_set: "qstep w (w\<lparr>que := consume (que w)\<rparr>)"
| listens: "qstep w (w\<lparr>que := on_event k l (que w)\<rparr>)"
| unlistens: "qstep w (w\<lparr>que := off_event k l (que w)\<rparr>)"
| immediate: "0 < immediates (que w) \<Longrightarrow> qstep w (w\<lparr>que := run_immediate (clock w) (que w)\<rparr>)"
| timer: "due \<in> set (timers (que w)) \<Longrightarrow> due \<le> clock w \<Longrightarrow>
    qstep w (w\<lparr>que := run_timer (clock w) due (que w)\<rparr>)"
| succeeded: "m \<in> set (running (que w)) \<Longrightarrow> qstep w (w\<lparr>que := message_ok m (que w)\<rparr>)"
| errored: "m \<in> set (running (que w)) \<Longrightarrow> qstep w (w\<lparr>que := message_failed (clock w) m (que w)\<rparr>)"
| closing: "qstep w (w\<lparr>que := close_start (que w)\<rparr>)"
| closed_now: "draining (que w) \<Longrightarrow> close_finish (que w) = (q', d, n) \<Longrightarrow>
    qstep w (w\<lparr>que := q', dropped := dropped w + n\<rparr>)"

inductive qreach :: "queue_options \<Rightarrow> 'd world \<Rightarrow> bool" for os where
  qreach_start: "qreach os \<lparr>que = createInMemoryQueue os, clock = t, accepted = 0, dropped = 0\<rparr>"
| qreach_step: "qreach os w \<Longrightarrow> qstep w w' \<Longrightarrow> qreach os w'"

section \<open>Invariants\<close>

text \<open>Every message that is buffered or running has attempts left (or has not run yet).\<close>

definition attempt_ok :: "'d message \<Rightarrow> bool" where
  "attempt_ok m \<longleftrightarrow> attemptsMade m = 0 \<or> (0 < attemptsMade m \<and> attemptsMade m < mattempts m)"

definition q_bounded :: "'d mem_queue \<Rightarrow> bool" where
  "q_bounded q \<longleftrightarrow> int (length (running q)) \<le> max 0 (concurrency (opts q))"

definition q_attempts :: "'d mem_queue \<Rightarrow> bool" where
  "q_attempts q \<longleftrightarrow> (\<forall>m\<in>#messages q. attempt_ok m)"

definition q_accounted :: "'d world \<Rightarrow> bool" where
  "q_accounted w \<longleftrightarrow> accepted w =
     size (messages (que w)) + completedCount (que w) + failedCount (que w) + dropped w"

text \<open>No lost wake-up: a buffered message with a slot free has a drain coming in time.\<close>

definition q_awake :: "int \<Rightarrow> 'd mem_queue \<Rightarrow> bool" where
  "q_awake now q \<longleftrightarrow> (consuming q \<and> \<not> draining q \<and> slot_free q \<and> buffer q \<noteq> [] \<longrightarrow>
     0 < immediates q \<or> (\<exists>d\<in>set (timers q). \<forall>m\<in>set (buffer q). d \<le> max now (runAt m)))"

definition q_closed_ok :: "'d mem_queue \<Rightarrow> bool" where
  "q_closed_ok q \<longleftrightarrow> (closed q \<longrightarrow> draining q \<and> buffer q = [])"

lemma drain_messages: "messages (drain now q) = messages q"
  by (simp add: drain_def drain_loop_messages)

lemma drain_same: "same_frame q (drain now q)"
  by (simp add: drain_def drain_loop_same) (simp add: same_frame_def)

lemma drain_bounded: "q_bounded q \<Longrightarrow> q_bounded (drain now q)"
  using drain_loop_running[of now q] drain_loop_same[of q now]
  by (auto simp: drain_def q_bounded_def same_frame_def)

lemma drain_awake: "q_awake now (drain now q)"
proof (cases "consuming q \<and> \<not> draining q")
  case True
  then have d: "drain now q = drain_loop now q" by (simp add: drain_def)
  show ?thesis
    unfolding q_awake_def d
  proof (intro impI disjI2)
    assume "consuming (drain_loop now q) \<and> \<not> draining (drain_loop now q)
      \<and> slot_free (drain_loop now q) \<and> buffer (drain_loop now q) \<noteq> []"
    then obtain b bs where "buffer (drain_loop now q) = b # bs"
        and t: "now + max 0 (earliest b bs - now) \<in> set (timers (drain_loop now q))"
      using drain_loop_armed[of now q] by blast
    then show "\<exists>d\<in>set (timers (drain_loop now q)). \<forall>m\<in>set (buffer (drain_loop now q)). d \<le> max now (runAt m)"
      using earliest_le[of _ b bs] by (intro bexI[OF _ t]) fastforce
  qed
qed (auto simp: drain_def q_awake_def)

lemma drain_closed_ok: "q_closed_ok q \<Longrightarrow> q_closed_ok (drain now q)"
  using drain_same[of q now] by (auto simp: q_closed_ok_def drain_def same_frame_def)

lemma awake_later: "q_awake now q \<Longrightarrow> now \<le> t \<Longrightarrow> q_awake t q"
  unfolding q_awake_def by (meson max.mono order.trans order_refl)

lemma mset_remove1_running: "m \<in> set (running q) \<Longrightarrow>
    mset (running q) = add_mset m (mset (remove1 m (running q)))"
  by simp

lemma message_ok_facts:
  assumes "m \<in> set (running q)"
  shows "messages q = add_mset m (messages (message_ok m q))"
    and "opts (message_ok m q) = opts q" and "completedCount (message_ok m q) = Suc (completedCount q)"
    and "failedCount (message_ok m q) = failedCount q" and "buffer (message_ok m q) = buffer q"
    and "length (running (message_ok m q)) < length (running q)"
    and "closed (message_ok m q) = closed q" and "draining (message_ok m q) = draining q"
    and "\<not> closed q \<Longrightarrow> 0 < immediates (message_ok m q)"
  using assms length_pos_if_in_set[OF assms]
  by (auto simp: queue_opdefs messages_def length_remove1)

definition retried :: "int \<Rightarrow> 'd mem_queue \<Rightarrow> 'd message \<Rightarrow> 'd message" where
  "retried now q m = m\<lparr>attemptsMade := attemptsMade m + 1,
     runAt := now + backoffMs (opts q) * 2 ^ nat (attemptsMade m)\<rparr>"

definition gives_up :: "'d mem_queue \<Rightarrow> 'd message \<Rightarrow> bool" where
  "gives_up q m \<longleftrightarrow> attemptsMade m + 1 \<ge> mattempts m \<or> closed q"

lemma message_failed_final:
  assumes "m \<in> set (running q)" and "gives_up q m"
  shows "messages q = add_mset m (messages (message_failed now m q))"
    and "completedCount (message_failed now m q) = completedCount q"
    and "failedCount (message_failed now m q) = Suc (failedCount q)"
    and "buffer (message_failed now m q) = buffer q"
  using assms by (auto simp: queue_opdefs messages_def gives_up_def Let_def)

lemma message_failed_retry:
  assumes "m \<in> set (running q)" and "\<not> gives_up q m"
  shows "add_mset (retried now q m) (messages q) = add_mset m (messages (message_failed now m q))"
    and "completedCount (message_failed now m q) = completedCount q"
    and "failedCount (message_failed now m q) = failedCount q"
    and "buffer (message_failed now m q) = buffer q @ [retried now q m]"
  using assms by (auto simp: queue_opdefs messages_def gives_up_def retried_def Let_def)

lemma message_failed_facts:
  assumes "m \<in> set (running q)"
  shows "opts (message_failed now m q) = opts q"
    and "length (running (message_failed now m q)) < length (running q)"
    and "closed (message_failed now m q) = closed q" and "draining (message_failed now m q) = draining q"
    and "\<not> closed q \<Longrightarrow> 0 < immediates (message_failed now m q)"
    and "closed q \<Longrightarrow> buffer (message_failed now m q) = buffer q"
  using assms length_pos_if_in_set[OF assms]
  by (auto simp: queue_opdefs length_remove1 Let_def)

lemma add_facts:
  assumes "enqueue now d nm j a q = Inr (q', i) \<or> schedule now d delay nm j a q = Inr (q', i)"
  shows "\<exists>m. messages q' = add_mset m (messages q) \<and> attemptsMade m = 0 \<and> now \<le> runAt m
      \<and> buffer q' = buffer q @ [m]"
    and "opts q' = opts q \<and> running q' = running q \<and> completedCount q' = completedCount q
      \<and> failedCount q' = failedCount q \<and> \<not> closed q' \<and> \<not> draining q' \<and> 0 < immediates q'"
  using assms
  by (auto simp: enqueue_def schedule_def scheduleDrain_def messages_def Let_def
      split: if_splits option.splits)

definition world_inv :: "'d world \<Rightarrow> bool" where
  "world_inv w \<longleftrightarrow> q_bounded (que w) \<and> q_attempts (que w) \<and> q_accounted w
     \<and> q_awake (clock w) (que w) \<and> q_closed_ok (que w)"

lemma attempt_ok_retried: "attempt_ok m \<Longrightarrow> \<not> gives_up q m \<Longrightarrow> attempt_ok (retried now q m)"
  by (auto simp: attempt_ok_def gives_up_def retried_def)

lemma q_bounded_simps [simp]:
  "q_bounded (q\<lparr>immediates := n\<rparr>) = q_bounded q" "q_bounded (q\<lparr>timers := ts\<rparr>) = q_bounded q"
  by (simp_all add: q_bounded_def)

lemma step_bounded: "qstep w w' \<Longrightarrow> q_bounded (que w) \<Longrightarrow> q_bounded (que w')"
proof (induction rule: qstep.induct)
  case (immediate w)
  then show ?case unfolding run_immediate_def by (simp add: drain_bounded)
next
  case (timer due w)
  then show ?case unfolding run_timer_def by (simp add: drain_bounded)
next
  case (succeeded m w)
  then show ?case using message_ok_facts(2,6)[OF succeeded(1)] by (auto simp: q_bounded_def)
next
  case (errored m w)
  then show ?case using message_failed_facts(1,2)[OF errored(1), of "clock w"] by (auto simp: q_bounded_def)
next
  case (enqueued w d nm j a q' i)
  then show ?case using add_facts(2)[of "clock w" d nm j a "que w" q' i] by (simp add: q_bounded_def)
next
  case (scheduled w d delay nm j a q' i)
  then show ?case using add_facts(2)[of "clock w" d nm j a "que w" q' i delay] by (simp add: q_bounded_def)
qed (auto simp: q_bounded_def consume_def scheduleDrain_def on_event_def off_event_def close_start_def close_finish_def)

lemma messages_simps [simp]:
  "messages (q\<lparr>immediates := n\<rparr>) = messages q" "messages (q\<lparr>timers := ts\<rparr>) = messages q"
  "messages (q\<lparr>consuming := b\<rparr>) = messages q" "messages (q\<lparr>listeners := ls\<rparr>) = messages q"
  "messages (q\<lparr>draining := b\<rparr>) = messages q" "messages (scheduleDrain q) = messages q"
  by (simp_all add: messages_def scheduleDrain_def)

lemma step_attempts: "qstep w w' \<Longrightarrow> q_attempts (que w) \<Longrightarrow> q_attempts (que w')"
proof (induction rule: qstep.induct)
  case (immediate w)
  then show ?case by (simp add: run_immediate_def q_attempts_def drain_messages)
next
  case (timer due w)
  then show ?case by (simp add: run_timer_def q_attempts_def drain_messages)
next
  case (succeeded m w)
  then show ?case using message_ok_facts(1)[OF succeeded(1)] by (simp add: q_attempts_def)
next
  case (errored m w)
  show ?case
  proof (cases "gives_up (que w) m")
    case True
    then show ?thesis
      using message_failed_final(1)[OF errored(1) True, of "clock w"] errored(2) by (simp add: q_attempts_def)
  next
    case False
    have "attempt_ok m" using errored by (simp add: q_attempts_def messages_def)
    then have ok: "attempt_ok (retried (clock w) (que w) m)" using False by (rule attempt_ok_retried)
    have "\<forall>x\<in>#add_mset (retried (clock w) (que w) m) (messages (que w)). attempt_ok x"
      using ok errored(2) by (simp add: q_attempts_def)
    then show ?thesis
      unfolding message_failed_retry(1)[OF errored(1) False] by (simp add: q_attempts_def)
  qed
next
  case (enqueued w d nm j a q' i)
  then show ?case using add_facts(1)[of "clock w" d nm j a "que w" q' i]
    by (auto simp: q_attempts_def attempt_ok_def)
next
  case (scheduled w d delay nm j a q' i)
  then show ?case using add_facts(1)[of "clock w" d nm j a "que w" q' i delay]
    by (auto simp: q_attempts_def attempt_ok_def)
next
  case (closed_now w q' d n)
  then show ?case by (auto simp: q_attempts_def close_finish_def messages_def)
qed (auto simp: q_attempts_def consume_def on_event_def off_event_def close_start_def)

lemma step_accounted: "qstep w w' \<Longrightarrow> q_accounted w \<Longrightarrow> q_accounted w'"
proof (induction rule: qstep.induct)
  case (immediate w)
  then show ?case using drain_same[of "que w\<lparr>immediates := immediates (que w) - 1\<rparr>" "clock w"]
    by (simp add: run_immediate_def q_accounted_def drain_messages same_frame_def)
next
  case (timer due w)
  then show ?case using drain_same[of "que w\<lparr>timers := remove1 due (timers (que w))\<rparr>" "clock w"]
    by (simp add: run_timer_def q_accounted_def drain_messages same_frame_def)
next
  case (succeeded m w)
  then show ?case using message_ok_facts(1,3,4)[OF succeeded(1)] by (simp add: q_accounted_def)
next
  case (errored m w)
  show ?case
  proof (cases "gives_up (que w) m")
    case True
    then show ?thesis
      using message_failed_final(1,2,3)[OF errored(1) True, of "clock w"] errored(2)
      by (simp add: q_accounted_def)
  next
    case False
    have "size (messages (message_failed (clock w) m (que w))) = size (messages (que w))"
      using arg_cong[OF message_failed_retry(1)[OF errored(1) False, of "clock w"], of size] by simp
    then show ?thesis
      using message_failed_retry(2,3)[OF errored(1) False, of "clock w"] errored(2)
      by (simp add: q_accounted_def)
  qed
next
  case (enqueued w d nm j a q' i)
  then show ?case using add_facts[of "clock w" d nm j a "que w" q' i] by (auto simp: q_accounted_def)
next
  case (scheduled w d delay nm j a q' i)
  then show ?case using add_facts[of "clock w" d nm j a "que w" q' i delay] by (auto simp: q_accounted_def)
next
  case (closed_now w q' d n)
  then show ?case by (auto simp: q_accounted_def close_finish_def messages_def)
qed (auto simp: q_accounted_def consume_def on_event_def off_event_def close_start_def scheduleDrain_def)

lemma q_closed_ok_simps [simp]:
  "q_closed_ok (q\<lparr>immediates := n\<rparr>) = q_closed_ok q" "q_closed_ok (q\<lparr>timers := ts\<rparr>) = q_closed_ok q"
  by (simp_all add: q_closed_ok_def)

lemma step_closed_ok: "qstep w w' \<Longrightarrow> q_closed_ok (que w) \<Longrightarrow> q_closed_ok (que w')"
proof (induction rule: qstep.induct)
  case (immediate w)
  then show ?case by (simp add: run_immediate_def drain_closed_ok)
next
  case (timer due w)
  then show ?case by (simp add: run_timer_def drain_closed_ok)
next
  case (succeeded m w)
  then show ?case using message_ok_facts[OF succeeded(1)] by (simp add: q_closed_ok_def)
next
  case (errored m w)
  then show ?case using message_failed_facts[OF errored(1), of "clock w"] by (auto simp: q_closed_ok_def)
next
  case (enqueued w d nm j a q' i)
  then show ?case using add_facts[of "clock w" d nm j a "que w" q' i] by (auto simp: q_closed_ok_def)
next
  case (scheduled w d delay nm j a q' i)
  then show ?case using add_facts[of "clock w" d nm j a "que w" q' i delay] by (auto simp: q_closed_ok_def)
qed (auto simp: q_closed_ok_def queue_opdefs)

text \<open>Every step that could leave a message waiting schedules a drain or arms a timer.\<close>

lemma step_awake:
  "qstep w w' \<Longrightarrow> q_awake (clock w) (que w) \<Longrightarrow> q_closed_ok (que w) \<Longrightarrow> q_awake (clock w') (que w')"
proof (induction rule: qstep.induct)
  case (tick w t)
  then show ?case by (simp add: awake_later)
next
  case (immediate w)
  then show ?case unfolding run_immediate_def by (simp add: drain_awake)
next
  case (timer due w)
  then show ?case unfolding run_timer_def by (simp add: drain_awake)
next
  case (succeeded m w)
  then show ?case
    using message_ok_facts[OF succeeded(1)] by (auto simp: q_awake_def q_closed_ok_def)
next
  case (errored m w)
  then show ?case
    using message_failed_facts[OF errored(1), of "clock w"] by (auto simp: q_awake_def q_closed_ok_def)
next
  case (enqueued w d nm j a q' i)
  then show ?case using add_facts(2)[of "clock w" d nm j a "que w" q' i] by (auto simp: q_awake_def)
next
  case (scheduled w d delay nm j a q' i)
  then show ?case using add_facts(2)[of "clock w" d nm j a "que w" q' i delay] by (auto simp: q_awake_def)
next
  case (consumer_set w)
  then show ?case by (auto simp: q_awake_def queue_opdefs q_closed_ok_def)
qed (auto simp: q_awake_def q_closed_ok_def queue_opdefs slot_free_def)

lemma qreach_inv: "qreach os w \<Longrightarrow> world_inv w"
proof (induction rule: qreach.induct)
  case (qreach_start t)
  then show ?case
    by (simp add: world_inv_def q_bounded_def q_attempts_def q_accounted_def q_awake_def q_closed_ok_def
        messages_def createInMemoryQueue_def)
next
  case (qreach_step w w')
  then show ?case unfolding world_inv_def
    using step_bounded step_attempts step_accounted step_awake step_closed_ok by blast
qed

lemma world_invD:
  assumes "world_inv w"
  shows "q_bounded (que w)" "q_attempts (que w)" "q_accounted w" "q_awake (clock w) (que w)" "q_closed_ok (que w)"
  using assms by (simp_all add: world_inv_def)

lemma qstep_opts: "qstep w w' \<Longrightarrow> opts (que w') = opts (que w)"
proof (induction rule: qstep.induct)
  case (immediate w)
  then show ?case using drain_same[of "que w\<lparr>immediates := immediates (que w) - 1\<rparr>" "clock w"]
    by (simp add: run_immediate_def same_frame_def)
next
  case (timer due w)
  then show ?case using drain_same[of "que w\<lparr>timers := remove1 due (timers (que w))\<rparr>" "clock w"]
    by (simp add: run_timer_def same_frame_def)
next
  case (enqueued w d nm j a q' i)
  then show ?case using add_facts(2)[of "clock w" d nm j a "que w" q' i] by simp
next
  case (scheduled w d delay nm j a q' i)
  then show ?case using add_facts(2)[of "clock w" d nm j a "que w" q' i delay] by simp
qed (auto simp: message_ok_facts(2) message_failed_facts(1) consume_def on_event_def off_event_def close_start_def
      close_finish_def scheduleDrain_def)

lemma qreach_opts: "qreach os w \<Longrightarrow> opts (que w) = os"
  by (induction rule: qreach.induct) (auto simp: createInMemoryQueue_def dest: qstep_opts)

section \<open>Properties\<close>

text \<open>
  C13. Whatever is enqueued, retried, drained or closed, the consumer never runs on more than
  \<open>concurrency\<close> messages at once, and no message is lost or duplicated: each accepted one is
  buffered, running, completed, failed or dropped by \<open>close\<close>.
\<close>

theorem queue_bounded_accounted:
  assumes "qreach os w"
  shows "int (length (running (que w))) \<le> max 0 (concurrency os)
    \<and> accepted w = length (buffer (que w)) + length (running (que w))
        + completedCount (que w) + failedCount (que w) + dropped w"
  using world_invD(1,3)[OF qreach_inv[OF assms]] qreach_opts[OF assms]
  by (simp add: q_bounded_def q_accounted_def messages_def)

definition demo_message :: "nat message" where
  "demo_message = \<lparr>mid = MemId 1, mname = ''job'', mdata = 7, mattempts = 2, attemptsMade = 0, runAt = 0\<rparr>"

definition demo_world :: "nat world" where
  "demo_world = \<lparr>que = (createInMemoryQueue (\<lparr>concurrency = 1, default_attempts = 2, backoffMs = 100\<rparr>))
      \<lparr>buffer := [demo_message], nextId := 2, consuming := True, immediates := 2\<rparr>,
    clock = 0, accepted = 1, dropped = 0\<rparr>"

lemma demo_reach: "qreach \<lparr>concurrency = 1, default_attempts = 2, backoffMs = 100\<rparr> demo_world"
proof -
  let ?os = "\<lparr>concurrency = 1, default_attempts = 2, backoffMs = 100\<rparr>"
  let ?w0 = "\<lparr>que = createInMemoryQueue ?os, clock = 0, accepted = 0, dropped = 0\<rparr> :: nat world"
  let ?w1 = "?w0\<lparr>que := (createInMemoryQueue ?os)\<lparr>buffer := [demo_message], nextId := 2, immediates := 1\<rparr>,
     accepted := 1\<rparr>"
  have "enqueue 0 7 ''job'' None None (que ?w0) = Inr (que ?w1, MemId 1)"
    by (simp add: enqueue_def createInMemoryQueue_def scheduleDrain_def demo_message_def Let_def)
  then have s1: "qstep ?w0 ?w1" using qstep.enqueued[of ?w0 7 "''job''" None None "que ?w1" "MemId 1"] by simp
  have "consume (que ?w1) = que demo_world"
    by (simp add: consume_def scheduleDrain_def demo_world_def createInMemoryQueue_def)
  then have s2: "qstep ?w1 demo_world"
    using qstep.consumer_set[of ?w1] by (simp add: demo_world_def)
  show ?thesis using qreach_start[of ?os 0] s1 s2 by (blast intro: qreach_step)
qed

theorem queue_bounded_accounted_witness:
  "accepted demo_world = length (buffer (que demo_world)) + length (running (que demo_world))
        + completedCount (que demo_world) + failedCount (que demo_world) + dropped demo_world"
  using queue_bounded_accounted[OF demo_reach] by blast

text \<open>
  Retries are bounded: a message that is buffered or running has made fewer failed runs than
  its \<open>attempts\<close> (or none), so the consumer is called on it at most \<open>max 1 attempts\<close> times.
\<close>

theorem queue_attempts_bounded:
  assumes "qreach os w" and "m \<in> set (buffer (que w)) \<union> set (running (que w))"
  shows "0 \<le> attemptsMade m \<and> attemptsMade m + 1 \<le> max 1 (mattempts m)"
proof -
  have "attempt_ok m"
    using world_invD(2)[OF qreach_inv[OF assms(1)]] assms(2) by (auto simp: q_attempts_def messages_def)
  then show ?thesis by (auto simp: attempt_ok_def)
qed

theorem queue_attempts_bounded_witness:
  "attemptsMade demo_message + 1 \<le> max 1 (mattempts demo_message)"
  using queue_attempts_bounded[OF demo_reach, of demo_message] by (simp add: demo_world_def)

text \<open>
  C28. No wake-up is lost: while a consumer is attached, the queue is not shutting down, a slot is
  free and a message is buffered, a drain is already scheduled or a timer is set that fires no
  later than the message becomes ready.
\<close>

theorem queue_no_lost_wakeup:
  assumes "qreach os w" and "consuming (que w)" and "\<not> draining (que w)"
    and "int (length (running (que w))) < concurrency os" and "m \<in> set (buffer (que w))"
  shows "0 < immediates (que w) \<or> (\<exists>d\<in>set (timers (que w)). d \<le> max (clock w) (runAt m))"
  using world_invD(4)[OF qreach_inv[OF assms(1)]] assms(2-5) qreach_opts[OF assms(1)]
  by (auto simp: q_awake_def slot_free_def)

theorem queue_no_lost_wakeup_witness:
  "0 < immediates (que demo_world) \<or> (\<exists>d\<in>set (timers (que demo_world)). d \<le> max (clock demo_world) (runAt demo_message))"
  using queue_no_lost_wakeup[OF demo_reach, of demo_message]
  by (simp add: demo_world_def createInMemoryQueue_def)

text \<open>
  A failed run is retried after exponential backoff while attempts remain: the message goes
  back to the end of the buffer with \<open>attemptsMade + 1\<close> and becomes ready \<open>backoffMs * 2^made\<close>
  later; otherwise it is counted as failed and does not come back.
\<close>

theorem queue_backoff:
  assumes "m \<in> set (running q)" and "0 \<le> attemptsMade m"
  shows "(attemptsMade m + 1 < mattempts m \<and> \<not> closed q \<longrightarrow>
      buffer (message_failed now m q) = buffer q @ [m\<lparr>attemptsMade := attemptsMade m + 1,
        runAt := now + backoffMs (opts q) * 2 ^ nat (attemptsMade m)\<rparr>]
      \<and> failedCount (message_failed now m q) = failedCount q)
    \<and> (mattempts m \<le> attemptsMade m + 1 \<or> closed q \<longrightarrow>
      buffer (message_failed now m q) = buffer q
      \<and> failedCount (message_failed now m q) = Suc (failedCount q))"
  using message_failed_final[OF assms(1), of now] message_failed_retry[OF assms(1), of now]
  by (auto simp: gives_up_def retried_def)

theorem queue_backoff_witness:
  "runAt (last (buffer (message_failed 50 demo_message
     ((createInMemoryQueue getDefaultInMemoryOptions)\<lparr>running := [demo_message]\<rparr>)))) = 1050"
proof -
  let ?q = "(createInMemoryQueue getDefaultInMemoryOptions)\<lparr>running := [demo_message]\<rparr>"
  have "demo_message \<in> set (running ?q)" and "0 \<le> attemptsMade demo_message"
    by (simp_all add: demo_message_def)
  then show ?thesis
    using queue_backoff[of demo_message ?q 50]
    by (simp add: demo_message_def createInMemoryQueue_def getDefaultInMemoryOptions_def)
qed

end
