(* ===== verification/IpAddress.thy ===== *)
theory IpAddress
  imports Prelude "HOL-Library.Word"
begin

unbundle bit_operations_syntax

text \<open>
  The address part of \<open>src/utils/netGuard.js\<close>: which IPv4 and IPv6 literals are refused as not
  public. Addresses are text, as in the code; \<open>net.isIPv4\<close> and \<open>net.isIPv6\<close> are the grammars of
  the Node standard library (dotted quad without leading zeros; up to eight groups, one \<open>::\<close>, an
  optional dotted quad at the end, an optional zone). 32-bit shifts and masks are on \<open>32 word\<close>.
\<close>

section \<open>IPv4\<close>

definition v4_octet :: "string \<Rightarrow> bool" where
  "v4_octet s \<longleftrightarrow> s \<noteq> [] \<and> length s \<le> 3 \<and> (\<forall>c\<in>set s. is_digit c)
     \<and> (length s = 1 \<or> hd s \<noteq> CHR ''0'') \<and> dec_value s \<le> 255"

definition isIPv4 :: "string \<Rightarrow> bool" where
  "isIPv4 s \<longleftrightarrow> (let ps = split_on CHR ''.'' s in length ps = 4 \<and> (\<forall>p\<in>set ps. v4_octet p))"

definition ipv4ToInt :: "string \<Rightarrow> 32 word" where
  "ipv4ToInt ip =
     foldl (\<lambda>acc octet. push_bit 8 acc + word_of_nat (dec_value octet)) 0 (split_on CHR ''.'' ip)"

definition cidr_mask :: "nat \<Rightarrow> 32 word" where
  "cidr_mask bits = (if bits = 0 then 0 else push_bit (32 - bits) (NOT 0))"

definition IPV4_BLOCKED :: "(32 word \<times> 32 word) list" where
  "IPV4_BLOCKED = map (\<lambda>(base, bits). (ipv4ToInt base, cidr_mask bits))
     [(''0.0.0.0'', 8), (''10.0.0.0'', 8), (''100.64.0.0'', 10), (''127.0.0.0'', 8),
      (''169.254.0.0'', 16), (''172.16.0.0'', 12), (''192.0.0.0'', 24), (''192.0.2.0'', 24),
      (''192.88.99.0'', 24), (''192.168.0.0'', 16), (''198.18.0.0'', 15), (''198.51.100.0'', 24),
      (''203.0.113.0'', 24), (''224.0.0.0'', 4), (''240.0.0.0'', 4)]"

definition v4_blocked :: "32 word \<Rightarrow> bool" where
  "v4_blocked value = list_ex (\<lambda>(base, mask). value AND mask = base AND mask) IPV4_BLOCKED"

section \<open>IPv6\<close>

text \<open>The text before and after the first \<open>::\<close>, if there is one.\<close>

fun split_dcolon :: "string \<Rightarrow> (string \<times> string) option" where
  "split_dcolon [] = None"
| "split_dcolon (c # s) =
     (if c = CHR '':'' \<and> s \<noteq> [] \<and> hd s = CHR '':'' then Some ([], tl s)
      else map_option (\<lambda>(l, r). (c # l, r)) (split_dcolon s))"

definition v6_seg :: "string \<Rightarrow> bool" where
  "v6_seg s \<longleftrightarrow> s \<noteq> [] \<and> length s \<le> 4 \<and> (\<forall>c\<in>set s. hex_digit c \<noteq> None)"

text \<open>Groups a list of segments stands for; a dotted quad is allowed last and counts two.\<close>

fun v6_groups :: "string list \<Rightarrow> nat option" where
  "v6_groups [] = Some 0"
| "v6_groups [s] = (if v6_seg s then Some 1 else if isIPv4 s then Some 2 else None)"
| "v6_groups (s # t # ss) = (if v6_seg s then map_option Suc (v6_groups (t # ss)) else None)"

definition colon_parts :: "string \<Rightarrow> string list" where
  "colon_parts s = (if s = [] then [] else split_on CHR '':'' s)"

definition zone_char :: "char \<Rightarrow> bool" where
  "zone_char c \<longleftrightarrow> is_alnum c \<or> c \<in> {CHR ''-'', CHR ''.'', CHR '':''}"

definition isIPv6 :: "string \<Rightarrow> bool" where
  "isIPv6 s =
     (let (body, zone_ok) = (case index_of CHR ''%'' s of
            None \<Rightarrow> (s, True)
          | Some i \<Rightarrow> (take i s, drop (Suc i) s \<noteq> [] \<and> (\<forall>c\<in>set (drop (Suc i) s). zone_char c)))
      in zone_ok \<and>
         (case split_dcolon body of
            None \<Rightarrow> v6_groups (colon_parts body) = Some 8
          | Some (l, r) \<Rightarrow>
              (\<forall>p\<in>set (colon_parts l). v6_seg p) \<and>
              (case v6_groups (colon_parts r) of
                 None \<Rightarrow> False
               | Some n \<Rightarrow> length (colon_parts l) + n \<le> 7)))"

definition isIP :: "string \<Rightarrow> bool" where
  "isIP s \<longleftrightarrow> isIPv4 s \<or> isIPv6 s"

text \<open>The match of \<open>(\d+\.\d+\.\d+\.\d+)$\<close>: the last four of the dotted groups that end the text.\<close>

definition dotted_tail :: "string \<Rightarrow> string option" where
  "dotted_tail a =
     (let suf = rev (takeWhile (\<lambda>c. is_digit c \<or> c = CHR ''.'') (rev a));
          ps = split_on CHR ''.'' suf;
          last4 = drop (length ps - 4) ps
      in if 4 \<le> length ps \<and> (\<forall>p\<in>set last4. p \<noteq> []) then Some (join_with ''.'' last4) else None)"

definition hextets_of_v4 :: "string \<Rightarrow> string" where
  "hextets_of_v4 d = (let v = ipv4ToInt d in
     to_base 16 (unat (drop_bit 16 v)) @ '':'' @ to_base 16 (unat (v AND 0xffff)))"

text \<open>\<open>Number.parseInt(p, 16)\<close> on a group of a valid address: its leading hexadecimal digits.\<close>

definition parse_hextet :: "string \<Rightarrow> nat option" where
  "parse_hextet p = (let ds = takeWhile (\<lambda>c. hex_digit c \<noteq> None) p in
     if ds = [] then None else Some (hex_value ds))"

definition expandIpv6 :: "string \<Rightarrow> nat list option" where
  "expandIpv6 address =
     (let a0 = to_lower address;
          a1 = (case index_of CHR ''%'' a0 of None \<Rightarrow> a0 | Some z \<Rightarrow> take z a0);
          a = (case dotted_tail a1 of
                 None \<Rightarrow> a1
               | Some d \<Rightarrow> take (length a1 - length d) a1 @ hextets_of_v4 d);
          (hd_text, tl_text, compressed) = (case split_dcolon a of
                 None \<Rightarrow> (a, [], False)
               | Some (l, r) \<Rightarrow> (l, (case split_dcolon r of None \<Rightarrow> r | Some (r1, r2) \<Rightarrow> r1), True));
          headParts = colon_parts hd_text;
          tailParts = colon_parts tl_text;
          missing = (if compressed then 8 - int (length headParts) - int (length tailParts) else 0);
          parts = headParts @ replicate (nat (max missing 0)) ''0'' @ tailParts
      in if length parts \<noteq> 8 then None
         else
           (let nums = map parse_hextet parts in
            if list_ex (\<lambda>n. n = None \<or> the n > 0xffff) nums then None else Some (map the nums)))"

definition embeddedIpv4 :: "nat \<Rightarrow> nat \<Rightarrow> string" where
  "embeddedIpv4 h1 h2 =
     join_with ''.'' (map show_nat [h1 div 256, h1 mod 256, h2 div 256, h2 mod 256])"

section \<open>Classification\<close>

definition v4_non_public :: "string \<Rightarrow> bool" where
  "v4_non_public s = v4_blocked (ipv4ToInt s)"

text \<open>The tests on the eight groups; the recursive calls are on dotted quads.\<close>

definition v6_non_public :: "nat list \<Rightarrow> bool" where
  "v6_non_public h =
     (let firstSixZero = list_all (\<lambda>x. x = 0) (take 6 h);
          masked = (\<lambda>m. unat ((word_of_nat (h ! 0) :: 32 word) AND m)) in
      if firstSixZero \<and> h ! 6 = 0 \<and> (h ! 7 = 0 \<or> h ! 7 = 1) then True
      else if list_all (\<lambda>x. x = 0) (take 5 h) \<and> h ! 5 = 0xffff then v4_non_public (embeddedIpv4 (h ! 6) (h ! 7))
      else if firstSixZero then v4_non_public (embeddedIpv4 (h ! 6) (h ! 7))
      else if h ! 0 = 0x64 \<and> h ! 1 = 0xff9b then True
      else if h ! 0 = 0x2002 then v4_non_public (embeddedIpv4 (h ! 1) (h ! 2))
      else if h ! 0 = 0x2001 \<and> h ! 1 = 0x0000 then True
      else if h ! 0 = 0x2001 \<and> h ! 1 = 0x0db8 then True
      else if h ! 0 = 0x0100 \<and> h ! 1 = 0 \<and> h ! 2 = 0 \<and> h ! 3 = 0 then True
      else if masked 0xfe00 = 0xfc00 then True
      else if masked 0xffc0 = 0xfe80 then True
      else if masked 0xffc0 = 0xfec0 then True
      else masked 0xff00 = 0xff00)"

definition isNonPublicAddress :: "string \<Rightarrow> bool" where
  "isNonPublicAddress address =
     (if isIPv4 address then v4_blocked (ipv4ToInt address)
      else if isIPv6 address then
        (case expandIpv6 address of None \<Rightarrow> True | Some h \<Rightarrow> v6_non_public h)
      else True)"

section \<open>IPv4 ranges in numbers\<close>

definition dotted_quad :: "nat \<Rightarrow> nat \<Rightarrow> nat \<Rightarrow> nat \<Rightarrow> string" where
  "dotted_quad a b c d = join_with ''.'' (map show_nat [a, b, c, d])"

lemma split_dotted_quad: "split_on CHR ''.'' (dotted_quad a b c d) = map show_nat [a, b, c, d]"
  unfolding dotted_quad_def by (rule split_join) (auto simp: show_nat_no_char)

lemma ipv4ToInt_quad:
  "ipv4ToInt (dotted_quad a b c d) = word_of_nat (a * 2 ^ 24 + b * 2 ^ 16 + c * 2 ^ 8 + d)"
  unfolding ipv4ToInt_def split_dotted_quad
  by (simp add: push_bit_eq_mult algebra_simps)

lemma digit_char_0: "digit_char 0 = CHR ''0''"
proof -
  have "code (digit_char 0) = 48" by (simp add: code_digit_char)
  also have "48 = code CHR ''0''" by (simp add: code_def)
  finally show ?thesis by (simp only: code_inj)
qed

lemma show_nat_octet: "n < 256 \<Longrightarrow> v4_octet (show_nat n)"
proof -
  assume n: "n < 256"
  have "length (show_nat n) \<le> 3" using length_to_base[of 10 n 3] n by (simp add: show_nat_def)
  moreover have "length (show_nat n) = 1 \<or> hd (show_nat n) \<noteq> CHR ''0''"
  proof (cases "n < 10")
    case True
    then show ?thesis by (simp add: show_nat_def to_base.simps)
  next
    case False
    then show ?thesis using show_nat_head[of n] by (simp add: digit_char_0)
  qed
  moreover have "show_nat n \<noteq> []" by (simp add: show_nat_def)
  ultimately show ?thesis
    using n show_nat_digits[of n] by (simp add: v4_octet_def)
qed

lemma isIPv4_quad: "a < 256 \<Longrightarrow> b < 256 \<Longrightarrow> c < 256 \<Longrightarrow> d < 256 \<Longrightarrow> isIPv4 (dotted_quad a b c d)"
  by (simp add: isIPv4_def split_dotted_quad show_nat_octet)

lemma and_cidr_mask:
  fixes v :: "32 word"
  assumes "0 < bits" and "bits \<le> 32"
  shows "v AND cidr_mask bits = push_bit (32 - bits) (drop_bit (32 - bits) v)"
  using assms by (intro bit_word_eqI) (auto simp: cidr_mask_def bit_simps)

lemma drop_push_drop:
  fixes v :: "32 word"
  shows "drop_bit k (push_bit k (drop_bit k v)) = drop_bit k v"
  by (intro bit_word_eqI) (auto simp: bit_simps dest: bit_imp_le_length)

lemma and_mask_eq_iff:
  fixes v w :: "32 word"
  assumes "0 < bits" and "bits \<le> 32"
  shows "v AND cidr_mask bits = w AND cidr_mask bits \<longleftrightarrow> unat v div 2 ^ (32 - bits) = unat w div 2 ^ (32 - bits)"
proof -
  have "v AND cidr_mask bits = w AND cidr_mask bits \<longleftrightarrow> drop_bit (32 - bits) v = drop_bit (32 - bits) w"
    unfolding and_cidr_mask[OF assms] by (metis drop_push_drop)
  also have "\<dots> \<longleftrightarrow> unat v div 2 ^ (32 - bits) = unat w div 2 ^ (32 - bits)"
    by (simp only: word_unat_eq_iff unat_drop_bit_eq drop_bit_eq_div[where 'a = nat])
  finally show ?thesis .
qed

text \<open>The value of a dotted quad and its leading bits.\<close>

definition quad_value :: "nat \<Rightarrow> nat \<Rightarrow> nat \<Rightarrow> nat \<Rightarrow> nat" where
  "quad_value a b c d = a * 2 ^ 24 + b * 2 ^ 16 + c * 2 ^ 8 + d"

lemma quad_value_less: "a < 256 \<Longrightarrow> b < 256 \<Longrightarrow> c < 256 \<Longrightarrow> d < 256 \<Longrightarrow> quad_value a b c d < 2 ^ 32"
  by (simp add: quad_value_def)

lemma unat_quad:
  assumes "a < 256" "b < 256" "c < 256" "d < 256"
  shows "unat (ipv4ToInt (dotted_quad a b c d)) = quad_value a b c d"
  using quad_value_less[OF assms]
  unfolding ipv4ToInt_quad quad_value_def[symmetric] unat_of_nat by simp

lemma quad_div:
  assumes "a < 256" "b < 256" "c < 256" "d < 256"
  shows "quad_value a b c d div 2 ^ 28 = a div 16"
    and "quad_value a b c d div 2 ^ 24 = a"
    and "quad_value a b c d div 2 ^ 22 = a * 4 + b div 64"
    and "quad_value a b c d div 2 ^ 20 = a * 16 + b div 16"
    and "quad_value a b c d div 2 ^ 17 = a * 128 + b div 2"
    and "quad_value a b c d div 2 ^ 16 = a * 256 + b"
    and "quad_value a b c d div 2 ^ 8 = a * 65536 + b * 256 + c"
  using assms unfolding quad_value_def by - (rule div_nat_eqI; simp; linarith)+

lemma quad_base: "s = dotted_quad a b c d \<Longrightarrow> ipv4ToInt s = word_of_nat (quad_value a b c d)"
  by (simp add: ipv4ToInt_quad quad_value_def)

lemma blocked_bases:
  "ipv4ToInt ''0.0.0.0'' = word_of_nat (quad_value 0 0 0 0)"
  "ipv4ToInt ''10.0.0.0'' = word_of_nat (quad_value 10 0 0 0)"
  "ipv4ToInt ''100.64.0.0'' = word_of_nat (quad_value 100 64 0 0)"
  "ipv4ToInt ''127.0.0.0'' = word_of_nat (quad_value 127 0 0 0)"
  "ipv4ToInt ''169.254.0.0'' = word_of_nat (quad_value 169 254 0 0)"
  "ipv4ToInt ''172.16.0.0'' = word_of_nat (quad_value 172 16 0 0)"
  "ipv4ToInt ''192.0.0.0'' = word_of_nat (quad_value 192 0 0 0)"
  "ipv4ToInt ''192.0.2.0'' = word_of_nat (quad_value 192 0 2 0)"
  "ipv4ToInt ''192.88.99.0'' = word_of_nat (quad_value 192 88 99 0)"
  "ipv4ToInt ''192.168.0.0'' = word_of_nat (quad_value 192 168 0 0)"
  "ipv4ToInt ''198.18.0.0'' = word_of_nat (quad_value 198 18 0 0)"
  "ipv4ToInt ''198.51.100.0'' = word_of_nat (quad_value 198 51 100 0)"
  "ipv4ToInt ''203.0.113.0'' = word_of_nat (quad_value 203 0 113 0)"
  "ipv4ToInt ''224.0.0.0'' = word_of_nat (quad_value 224 0 0 0)"
  "ipv4ToInt ''240.0.0.0'' = word_of_nat (quad_value 240 0 0 0)"
  by (rule quad_base, code_simp)+

lemma in_block:
  assumes "0 < bits" "bits \<le> 32" "a < 256" "b < 256" "c < 256" "d < 256"
  shows "v AND cidr_mask bits = word_of_nat (quad_value a b c d) AND cidr_mask bits
    \<longleftrightarrow> unat v div 2 ^ (32 - bits) = quad_value a b c d div 2 ^ (32 - bits)"
  using quad_value_less[OF assms(3-6)]
  by (subst and_mask_eq_iff[OF assms(1,2)]) (simp add: unat_of_nat)

lemma v4_blocked_div:
  "v4_blocked v \<longleftrightarrow> (let n = unat v in
     n div 2 ^ 24 = 0 \<or> n div 2 ^ 24 = 10 \<or> n div 2 ^ 22 = 401 \<or> n div 2 ^ 24 = 127
     \<or> n div 2 ^ 16 = 43518 \<or> n div 2 ^ 20 = 2753 \<or> n div 2 ^ 8 = 12582912 \<or> n div 2 ^ 8 = 12582914
     \<or> n div 2 ^ 8 = 12605539 \<or> n div 2 ^ 16 = 49320 \<or> n div 2 ^ 17 = 25353
     \<or> n div 2 ^ 8 = 12989284 \<or> n div 2 ^ 8 = 13303921 \<or> n div 2 ^ 28 = 14 \<or> n div 2 ^ 28 = 15)"
  unfolding v4_blocked_def IPV4_BLOCKED_def
  apply (simp add: blocked_bases in_block Let_def del: div_eq_0_iff)
  apply (simp add: quad_value_def)
  done

lemma pos_digits: "x < m \<Longrightarrow> a * m + x = n \<longleftrightarrow> a = n div m \<and> x = n mod (m::nat)"
  by auto

lemma block_arith:
  fixes a b c :: nat
  assumes "a < 256" "b < 256" "c < 256"
  shows "a * 4 + b div 64 = n \<longleftrightarrow> a = n div 4 \<and> b div 64 = n mod 4"
    and "a * 256 + b = n \<longleftrightarrow> a = n div 256 \<and> b = n mod 256"
    and "a * 16 + b div 16 = n \<longleftrightarrow> a = n div 16 \<and> b div 16 = n mod 16"
    and "a * 128 + b div 2 = n \<longleftrightarrow> a = n div 128 \<and> b div 2 = n mod 128"
    and "a * 65536 + b * 256 + c = n \<longleftrightarrow> a = n div 65536 \<and> b = n div 256 mod 256 \<and> c = n mod 256"
proof -
  show "a * 65536 + b * 256 + c = n \<longleftrightarrow> a = n div 65536 \<and> b = n div 256 mod 256 \<and> c = n mod 256"
    using pos_digits[of c 256 "a * 256 + b" n] pos_digits[of b 256 a "n div 256"] assms(2,3)
    by (simp add: algebra_simps div_mult2_eq[of n 256 256, simplified])
qed (rule pos_digits, use assms(2) in linarith)+

lemma div_ranges:
  fixes b :: nat
  shows "b div 64 = 1 \<longleftrightarrow> 64 \<le> b \<and> b \<le> 127" "b div 16 = 1 \<longleftrightarrow> 16 \<le> b \<and> b \<le> 31"
    "b div 2 = 9 \<longleftrightarrow> 18 \<le> b \<and> b \<le> 19" "b div 16 = 14 \<longleftrightarrow> 224 \<le> b \<and> b < 240"
    "b div 16 = 15 \<longleftrightarrow> 240 \<le> b \<and> b < 256"
  by (intro iffI conjI; (elim conjE)?; linarith)+

lemma block_eqs:
  fixes a b c :: nat
  assumes "a < 256" "b < 256" "c < 256"
  shows "a * 4 + b div 64 = 401 \<longleftrightarrow> a = 100 \<and> 64 \<le> b \<and> b \<le> 127"
    and "a * 256 + b = 43518 \<longleftrightarrow> a = 169 \<and> b = 254"
    and "a * 256 + b = 49320 \<longleftrightarrow> a = 192 \<and> b = 168"
    and "a * 16 + b div 16 = 2753 \<longleftrightarrow> a = 172 \<and> 16 \<le> b \<and> b \<le> 31"
    and "a * 128 + b div 2 = 25353 \<longleftrightarrow> a = 198 \<and> 18 \<le> b \<and> b \<le> 19"
    and "a * 65536 + b * 256 + c = 12582912 \<longleftrightarrow> a = 192 \<and> b = 0 \<and> c = 0"
    and "a * 65536 + b * 256 + c = 12582914 \<longleftrightarrow> a = 192 \<and> b = 0 \<and> c = 2"
    and "a * 65536 + b * 256 + c = 12605539 \<longleftrightarrow> a = 192 \<and> b = 88 \<and> c = 99"
    and "a * 65536 + b * 256 + c = 12989284 \<longleftrightarrow> a = 198 \<and> b = 51 \<and> c = 100"
    and "a * 65536 + b * 256 + c = 13303921 \<longleftrightarrow> a = 203 \<and> b = 0 \<and> c = 113"
  by (simp_all only: block_arith[OF assms]) (simp_all add: div_ranges div_ranges(1,2)[unfolded One_nat_def])

text \<open>
  The IPv4 classification in numbers: a literal is refused exactly when it lies in one of the
  fifteen reserved ranges (this host, private, shared, loopback, link-local, test, benchmark, relay,
  multicast and reserved networks).
\<close>

theorem ipv4_non_public_ranges:
  assumes "a < 256" "b < 256" "c < 256" "d < 256"
  shows "isNonPublicAddress (dotted_quad a b c d) \<longleftrightarrow>
    a = 0 \<or> a = 10 \<or> (a = 100 \<and> 64 \<le> b \<and> b \<le> 127) \<or> a = 127 \<or> (a = 169 \<and> b = 254)
    \<or> (a = 172 \<and> 16 \<le> b \<and> b \<le> 31) \<or> (a = 192 \<and> b = 0 \<and> c = 0) \<or> (a = 192 \<and> b = 0 \<and> c = 2)
    \<or> (a = 192 \<and> b = 88 \<and> c = 99) \<or> (a = 192 \<and> b = 168) \<or> (a = 198 \<and> 18 \<le> b \<and> b \<le> 19)
    \<or> (a = 198 \<and> b = 51 \<and> c = 100) \<or> (a = 203 \<and> b = 0 \<and> c = 113) \<or> 224 \<le> a"
proof -
  have "isNonPublicAddress (dotted_quad a b c d) \<longleftrightarrow> v4_blocked (ipv4ToInt (dotted_quad a b c d))"
    by (simp add: isNonPublicAddress_def isIPv4_quad[OF assms])
  moreover have "(224 \<le> a \<and> a < 240) \<or> (240 \<le> a \<and> a < 256) \<longleftrightarrow> 224 \<le> a"
    using assms(1) by linarith
  ultimately show ?thesis
    by (simp only: v4_blocked_div Let_def unat_quad[OF assms] quad_div[OF assms] block_eqs[OF assms(1,2,3)] div_ranges)
qed

theorem ipv4_non_public_ranges_witness:
  "isNonPublicAddress (dotted_quad 172 31 0 9) \<and> \<not> isNonPublicAddress (dotted_quad 172 32 0 9)"
  using ipv4_non_public_ranges[of 172 31 0 9] ipv4_non_public_ranges[of 172 32 0 9] by simp

section \<open>Mapped addresses\<close>

lemma code_colon [simp]: "code CHR '':'' = 58" and code_dot [simp]: "code CHR ''.'' = 46"
  and code_percent [simp]: "code CHR ''%'' = 37"
  by (simp_all add: code_def)

lemma quad_chars: "c \<in> set (dotted_quad p q r s) \<Longrightarrow> is_digit c \<or> c = CHR ''.''"
  unfolding dotted_quad_def using show_nat_digits by auto

lemma quad_no_char:
  "CHR '':'' \<notin> set (dotted_quad p q r s)" "CHR ''%'' \<notin> set (dotted_quad p q r s)"
  by (auto dest!: quad_chars simp: is_digit_def)

lemma to_lower_quad [simp]: "to_lower (dotted_quad p q r s) = dotted_quad p q r s"
  unfolding to_lower_def
  by (rule map_idI) (auto dest!: quad_chars simp: lower_char_def is_digit_def is_upper_def)

lemma length_dotted_quad: "7 \<le> length (dotted_quad p q r s)"
proof -
  have "1 \<le> length (show_nat n)" for n
    using to_base_not_Nil[of 10 n] unfolding show_nat_def by (cases "to_base 10 n") auto
  from this[of p] this[of q] this[of r] this[of s] show ?thesis by (simp add: dotted_quad_def)
qed

lemma split_dcolon_none:
  "(\<And>p. p \<in> set ps \<Longrightarrow> p \<noteq> [] \<and> CHR '':'' \<notin> set p) \<Longrightarrow> split_dcolon (join_with '':'' ps) = None"
proof (induction ps)
  case (Cons p ps)
  have *: "CHR '':'' \<notin> set t \<Longrightarrow> split_dcolon u = None \<Longrightarrow> u \<noteq> [] \<Longrightarrow> hd u \<noteq> CHR '':'' \<Longrightarrow>
      split_dcolon (t @ CHR '':'' # u) = None" for t u
    by (induction t) auto
  have **: "CHR '':'' \<notin> set t \<Longrightarrow> split_dcolon t = None" for t
    by (induction t) auto
  show ?case
  proof (cases ps)
    case Nil
    then show ?thesis using Cons.prems by (simp add: **)
  next
    case (Cons q qs)
    have q: "q \<noteq> []" "CHR '':'' \<notin> set q" using Cons.prems Cons by auto
    then have "join_with '':'' ps \<noteq> []" "hd (join_with '':'' ps) \<noteq> CHR '':''"
      using Cons by (cases q; cases qs; auto)+
    moreover have "split_dcolon (join_with '':'' ps) = None" using Cons.IH Cons.prems by simp
    ultimately have "split_dcolon (p @ CHR '':'' # join_with '':'' ps) = None"
      using Cons.prems by (intro *) auto
    then show ?thesis using Cons by (simp add: join_with_Cons)
  qed
qed simp

lemma takeWhile_stop: "\<forall>c\<in>set xs. P c \<Longrightarrow> \<not> P y \<Longrightarrow> takeWhile P (xs @ y # ys) = xs"
  by (induction xs) auto

lemma dotted_tail_quad:
  assumes "u \<noteq> []" "last u = CHR '':''"
  shows "dotted_tail (u @ dotted_quad p q r s) = Some (dotted_quad p q r s)"
proof -
  have "rev u = CHR '':'' # rev (butlast u)"
    using assms by (metis append_butlast_last_id rev.simps(2) rev_rev_ident rev_append)
  then have "takeWhile (\<lambda>c. is_digit c \<or> c = CHR ''.'') (rev (dotted_quad p q r s) @ rev u) = rev (dotted_quad p q r s)"
    by (simp only: \<open>rev u = _\<close>) (rule takeWhile_stop, auto dest: quad_chars)
  then show ?thesis
    by (simp add: dotted_tail_def split_dotted_quad Let_def) (simp add: dotted_quad_def show_nat_def)
qed

lemma hex_no_sep: "c \<in> set (to_base 16 n) \<Longrightarrow> c \<noteq> CHR '':''"
  using to_base_hex_digits[of n] by (auto simp: hex_digit_def is_digit_def)

lemma hextets_quad:
  assumes "p < 256" "q < 256" "r < 256" "s < 256"
  shows "hextets_of_v4 (dotted_quad p q r s) = to_base 16 (p * 256 + q) @ '':'' @ to_base 16 (r * 256 + s)"
proof -
  have v: "unat (ipv4ToInt (dotted_quad p q r s)) = quad_value p q r s" by (rule unat_quad[OF assms])
  have "unat (drop_bit 16 (ipv4ToInt (dotted_quad p q r s))) = p * 256 + q"
    by (simp only: unat_drop_bit_eq drop_bit_eq_div[where 'a = nat] v quad_div[OF assms])
  moreover have "0xffff = (mask 16 :: 32 word)" by (simp add: mask_eq_exp_minus_1)
  then have "unat (ipv4ToInt (dotted_quad p q r s) AND 0xffff) = quad_value p q r s mod 2 ^ 16"
    by (simp only: take_bit_eq_mask[symmetric] unsigned_take_bit_eq take_bit_eq_mod[where 'a = nat] v)
  moreover have "quad_value p q r s mod 2 ^ 16 = r * 256 + s"
  proof -
    have "quad_value p q r s = (p * 256 + q) * 2 ^ 16 + (r * 256 + s)" by (simp add: quad_value_def)
    moreover have "r * 256 + s < 2 ^ 16" using assms(3,4) by simp
    ultimately show ?thesis by (simp only: mod_mult_self3 mod_less)
  qed
  ultimately show ?thesis by (simp add: hextets_of_v4_def Let_def)
qed

lemma parse_hextet_base [simp]: "parse_hextet (to_base 16 n) = Some n"
  using to_base_hex_digits[of n] by (simp add: parse_hextet_def takeWhile_eq_all_conv[THEN iffD2])

lemma hex_no_colon [simp]: "CHR '':'' \<notin> set (to_base 16 n)"
  using hex_no_sep by blast

lemma mapped_parts:
  "\<forall>p\<in>set [''ffff'', to_base 16 m, to_base 16 n]. p \<noteq> [] \<and> CHR '':'' \<notin> set p"
  by simp

lemma mapped_join:
  "''ffff:'' @ to_base 16 m @ '':'' @ to_base 16 n = join_with '':'' [''ffff'', to_base 16 m, to_base 16 n]"
  by simp

lemma split_colon_hextets:
  "split_on CHR '':'' (''ffff:'' @ to_base 16 m @ '':'' @ to_base 16 n) = [''ffff'', to_base 16 m, to_base 16 n]"
  unfolding mapped_join by (rule split_join) (use mapped_parts in blast)+

lemma dcolon_hextets: "split_dcolon (''ffff:'' @ to_base 16 m @ '':'' @ to_base 16 n) = None"
  unfolding mapped_join by (rule split_dcolon_none) (use mapped_parts in blast)

lemma parse_hextet_ffff: "parse_hextet ''ffff'' = Some 65535" "parse_hextet ''0'' = Some 0"
proof -
  have "code (digit_char 15) = 102" by (simp add: code_digit_char)
  also have "102 = code CHR ''f''" by (simp add: code_def)
  finally have f: "digit_char 15 = CHR ''f''" by (simp only: code_inj)
  have "to_base 16 65535 = ''ffff''" "to_base 16 0 = ''0''" by (simp_all add: to_base.simps f digit_char_0)
  then show "parse_hextet ''ffff'' = Some 65535" "parse_hextet ''0'' = Some 0"
    using parse_hextet_base[of 65535] parse_hextet_base[of 0] by simp_all
qed

definition v4_mapped :: "string \<Rightarrow> string" where
  "v4_mapped d = ''::ffff:'' @ d"

lemma to_lower_mapped: "to_lower (v4_mapped (dotted_quad p q r s)) = v4_mapped (dotted_quad p q r s)"
proof -
  have "to_lower (u @ v) = to_lower u @ to_lower v" for u v by (simp add: to_lower_def)
  moreover have "to_lower ''::ffff:'' = ''::ffff:''" by code_simp
  ultimately show ?thesis by (simp only: v4_mapped_def to_lower_quad)
qed

lemma replicate_five: "replicate 5 x = [x, x, x, x, x]"
  by (simp add: eval_nat_numeral)

lemma expand_mapped:
  assumes "p < 256" "q < 256" "r < 256" "s < 256"
  shows "expandIpv6 (v4_mapped (dotted_quad p q r s)) = Some [0, 0, 0, 0, 0, 65535, p * 256 + q, r * 256 + s]"
proof -
  let ?t = "''ffff:'' @ to_base 16 (p * 256 + q) @ '':'' @ to_base 16 (r * 256 + s)"
  have z: "index_of CHR ''%'' (v4_mapped (dotted_quad p q r s)) = None"
    using quad_no_char(2) by (simp add: v4_mapped_def)
  have d: "dotted_tail (v4_mapped (dotted_quad p q r s)) = Some (dotted_quad p q r s)"
    unfolding v4_mapped_def by (rule dotted_tail_quad) simp_all
  have a: "take (length (v4_mapped (dotted_quad p q r s)) - length (dotted_quad p q r s)) (v4_mapped (dotted_quad p q r s))
      @ hextets_of_v4 (dotted_quad p q r s) = ''::'' @ ?t"
    by (simp add: v4_mapped_def hextets_quad[OF assms])
  have c: "split_dcolon (''::'' @ ?t) = Some ([], ?t)" by simp
  show ?thesis
    unfolding expandIpv6_def to_lower_mapped z d Let_def option.case a c prod.case dcolon_hextets
      colon_parts_def split_colon_hextets
    using assms replicate_five[of "''0''"] by (simp add: parse_hextet_ffff)
qed

lemma set_join_with: "set (join_with sep ps) \<subseteq> (\<Union>p\<in>set ps. set p) \<union> set sep"
  by (induction ps rule: induct_list012) auto

lemma mapped_isIPv4: "\<not> isIPv4 (v4_mapped d)"
proof
  assume "isIPv4 (v4_mapped d)"
  moreover have "CHR '':'' \<in> set (join_with ''.'' (split_on CHR ''.'' (v4_mapped d)))"
    unfolding join_split_on by (simp add: v4_mapped_def)
  then obtain t where "t \<in> set (split_on CHR ''.'' (v4_mapped d))" "CHR '':'' \<in> set t"
    using set_join_with[of "''.''"] by fastforce
  ultimately show False unfolding isIPv4_def v4_octet_def Let_def by (metis not_digit_sep(2))
qed

lemma mapped_isIPv6:
  assumes "p < 256" "q < 256" "r < 256" "s < 256"
  shows "isIPv6 (v4_mapped (dotted_quad p q r s))"
proof -
  let ?d = "dotted_quad p q r s"
  have z: "index_of CHR ''%'' (v4_mapped ?d) = None"
    using quad_no_char(2) by (simp add: v4_mapped_def)
  have c: "split_dcolon (v4_mapped ?d) = Some ([], ''ffff:'' @ ?d)" by (simp add: v4_mapped_def)
  have s: "split_on CHR '':'' (''ffff:'' @ ?d) = [''ffff'', ?d]"
    by (simp add: split_on_absent quad_no_char)
  have "\<not> v6_seg ?d" using length_dotted_quad[of p q r s] by (simp add: v6_seg_def)
  moreover have "v6_seg ''ffff''" by code_simp
  ultimately have "v6_groups [''ffff'', ?d] = Some 3" using isIPv4_quad[OF assms] by simp
  then show ?thesis
    by (simp only: isIPv6_def z c option.case Let_def prod.case colon_parts_def s) simp
qed

text \<open>
  An IPv4 address written in its IPv4-mapped IPv6 form gets the verdict of the IPv4 address:
  the mapped form opens no way round the IPv4 ranges.
\<close>

theorem mapped_as_ipv4:
  assumes "p < 256" "q < 256" "r < 256" "s < 256"
  shows "isNonPublicAddress (v4_mapped (dotted_quad p q r s)) = isNonPublicAddress (dotted_quad p q r s)"
proof -
  have "embeddedIpv4 (p * 256 + q) (r * 256 + s) = dotted_quad p q r s"
    using assms by (simp add: embeddedIpv4_def dotted_quad_def)
  then have "v6_non_public [0, 0, 0, 0, 0, 65535, p * 256 + q, r * 256 + s] = v4_non_public (dotted_quad p q r s)"
    by (simp add: v6_non_public_def)
  then show ?thesis
    by (simp add: isNonPublicAddress_def mapped_isIPv4 mapped_isIPv6[OF assms] expand_mapped[OF assms]
        isIPv4_quad[OF assms] v4_non_public_def)
qed

theorem mapped_as_ipv4_witness:
  "isNonPublicAddress (v4_mapped (dotted_quad 169 254 169 254)) = isNonPublicAddress (dotted_quad 169 254 169 254)"
  by (rule mapped_as_ipv4) simp_all

end
