(* ===== verification/NetGuard.thy ===== *)
theory NetGuard
  imports IpAddress
begin

text \<open>
  The egress policy of \<open>src/utils/netGuard.js\<close>: connection strings, allowed options, the host
  policy, resolution before connecting and the guarded lookup used at connect time. The WHATWG
  \<open>URL\<close> and \<open>URLSearchParams\<close> parsers, the DNS resolver and the values of \<open>env\<close> are arguments:
  every theorem holds whatever they answer.
\<close>

section \<open>Connection strings\<close>

record mongo_match =
  protocol :: string
  username :: "string option"
  password :: "string option"
  hostList :: string
  rest :: string

text \<open>
  \<open>MONGO_URI_RE\<close>. The protocol has no slash, so it ends at the colon before the first slash; the user
  info ends at the first at-sign (a colon may split it once); when the host list would then start
  with a colon the match backtracks to one without user info.
\<close>

definition match_protocol :: "string \<Rightarrow> (string \<times> string) option" where
  "match_protocol s =
     (let p = takeWhile (\<lambda>c. c \<noteq> CHR ''/'') s; t = dropWhile (\<lambda>c. c \<noteq> CHR ''/'') s
      in if 2 \<le> length p \<and> last p = CHR '':'' then map_option (Pair (butlast p)) (strip_prefix ''//'' t) else None)"

definition match_userinfo :: "string \<Rightarrow> (string \<times> string option \<times> string) option" where
  "match_userinfo t =
     (let u = takeWhile (\<lambda>c. c \<noteq> CHR '':'' \<and> c \<noteq> CHR ''@'') t;
          r = dropWhile (\<lambda>c. c \<noteq> CHR '':'' \<and> c \<noteq> CHR ''@'') t
      in case r of
           [] \<Rightarrow> None
         | c # r' \<Rightarrow>
             if c = CHR ''@'' then Some (u, None, r')
             else (case dropWhile (\<lambda>c. c \<noteq> CHR ''@'') r' of
                     [] \<Rightarrow> None
                   | _ # r'' \<Rightarrow> Some (u, Some (takeWhile (\<lambda>c. c \<noteq> CHR ''@'') r'), r'')))"

definition host_char :: "char \<Rightarrow> bool" where
  "host_char c \<longleftrightarrow> c \<noteq> CHR ''/'' \<and> c \<noteq> CHR ''?'' \<and> c \<noteq> CHR ''@''"

definition match_hosts :: "string \<Rightarrow> (string \<times> string) option" where
  "match_hosts t = (if starts_with '':'' t then None else Some (takeWhile host_char t, dropWhile host_char t))"

definition MONGO_URI_RE :: "string \<Rightarrow> mongo_match option" where
  "MONGO_URI_RE s =
     (case match_protocol s of
        None \<Rightarrow> None
      | Some (pr, t) \<Rightarrow>
          (let plain = map_option (\<lambda>(h, r). \<lparr>protocol = pr, username = None, password = None, hostList = h, rest = r\<rparr>)
                         (match_hosts t)
           in case match_userinfo t of
                None \<Rightarrow> plain
              | Some (u, pw, t') \<Rightarrow>
                  (case match_hosts t' of
                     None \<Rightarrow> plain
                   | Some (h, r) \<Rightarrow>
                       Some \<lparr>protocol = pr, username = Some u, password = pw, hostList = h, rest = r\<rparr>)))"

definition USERINFO_ILLEGAL :: "string \<Rightarrow> bool" where
  "USERINFO_ILLEGAL s = list_ex (\<lambda>c. c \<in> {CHR '':'', CHR ''/'', CHR ''?'', CHR ''#'', CHR ''['', CHR '']'', CHR ''@''}) s"

record host_port =
  host :: string
  port :: "nat option"

text \<open>\<open>new URL(text)\<close>: the host name and the port text, or nothing when it throws.\<close>

type_synonym url_parser = "string \<Rightarrow> (string \<times> string) option"

definition unbracket :: "string \<Rightarrow> string" where
  "unbracket h = (if h \<noteq> [] \<and> hd h = CHR ''['' \<and> last h = CHR '']'' then butlast (tl h) else h)"

definition parseHostAddress :: "url_parser \<Rightarrow> string \<Rightarrow> host_port option" where
  "parseHostAddress new_URL value =
     (if value = [] \<or> list_ex (\<lambda>c. is_space c \<or> c = CHR ''%'') value \<or> ends_with ''.sock'' (to_lower value) then None
      else case new_URL (''ilovejs://'' @ value) of
        None \<Rightarrow> None
      | Some (hostname, port_text) \<Rightarrow>
          (let h = unbracket (to_lower hostname) in
           if h = [] then None
           else if port_text = [] then Some \<lparr>host = h, port = None\<rparr>
           else let p = dec_value port_text in
             if p < 1 \<or> p > 65535 then None else Some \<lparr>host = h, port = Some p\<rparr>))"

record mongo_uri =
  srv :: bool
  hosts :: "host_port list"
  options :: "(string \<times> string) list"

fun map_all :: "('a \<Rightarrow> 'b option) \<Rightarrow> 'a list \<Rightarrow> 'b list option" where
  "map_all f [] = Some []"
| "map_all f (x # xs) = (case f x of None \<Rightarrow> None | Some y \<Rightarrow> map_option ((#) y) (map_all f xs))"

definition at_before_path :: "string \<Rightarrow> bool" where
  "at_before_path r = (CHR ''@'' \<in> set (takeWhile (\<lambda>c. c \<noteq> CHR ''/'' \<and> c \<noteq> CHR ''?'') r))"

definition query_text :: "string \<Rightarrow> string" where
  "query_text r = (case index_of CHR ''?'' r of None \<Rightarrow> [] | Some q \<Rightarrow> drop (Suc q) r)"

definition parseMongoUri ::
  "url_parser \<Rightarrow> (string \<Rightarrow> (string \<times> string) list) \<Rightarrow> string \<Rightarrow> mongo_uri option" where
  "parseMongoUri new_URL search_params uri =
     (case MONGO_URI_RE (trim uri) of
        None \<Rightarrow> None
      | Some m \<Rightarrow>
          (let scheme = to_lower (protocol m) in
           if scheme \<noteq> ''mongodb'' \<and> scheme \<noteq> ''mongodb+srv'' then None
           else if hostList m = [] then None
           else if (case username m of None \<Rightarrow> False | Some u \<Rightarrow> USERINFO_ILLEGAL u) then None
           else if (case password m of None \<Rightarrow> False | Some u \<Rightarrow> USERINFO_ILLEGAL u) then None
           else if at_before_path (rest m) then None
           else case map_all (parseHostAddress new_URL) (split_on CHR '','' (hostList m)) of
             None \<Rightarrow> None
           | Some hs \<Rightarrow>
               (let is_srv = (scheme = ''mongodb+srv'') in
                if is_srv \<and> (length hs \<noteq> 1 \<or> port (hd hs) \<noteq> None) then None
                else Some \<lparr>srv = is_srv, hosts = hs, options = search_params (query_text (rest m))\<rparr>)))"

section \<open>Allowed options\<close>

definition isBool :: "string \<Rightarrow> bool" where
  "isBool v \<longleftrightarrow> v = ''true'' \<or> v = ''false''"

definition all_in :: "(char \<Rightarrow> bool) \<Rightarrow> nat \<Rightarrow> string \<Rightarrow> bool" where
  "all_in P n v \<longleftrightarrow> 1 \<le> length v \<and> length v \<le> n \<and> list_all P v"

definition isPositiveInt :: "string \<Rightarrow> bool" where
  "isPositiveInt v = all_in is_digit 9 v"

definition oneOf :: "string list \<Rightarrow> string \<Rightarrow> bool" where
  "oneOf values v = list_ex (\<lambda>x. x = to_lower v) values"

definition name_char :: "char \<Rightarrow> bool" where
  "name_char c \<longleftrightarrow> is_alnum c \<or> c \<in> {CHR ''_'', CHR ''.'', CHR ''-''}"

text \<open>
  What \<open>ALLOWED_MONGO_OPTIONS[key]\<close> finds. The object literal inherits from \<open>Object.prototype\<close>, whose
  lower-case property names are \<open>constructor\<close> (a function) and \<open>__proto__\<close> (an object).
\<close>

datatype option_check = Check "string \<Rightarrow> bool" | Constructor_function | Prototype_object | No_check

definition ALLOWED_MONGO_OPTIONS :: "string \<Rightarrow> option_check" where
  "ALLOWED_MONGO_OPTIONS k =
     (if k = ''authsource'' then Check (all_in (\<lambda>c. name_char c \<or> c = CHR ''$'') 64)
      else if k = ''authmechanism'' then Check (oneOf [''scram-sha-1'', ''scram-sha-256'', ''default''])
      else if k = ''replicaset'' then Check (all_in name_char 128)
      else if k \<in> {''tls'', ''ssl'', ''retrywrites'', ''retryreads''} then Check isBool
      else if k = ''w'' then Check (\<lambda>v. v = ''majority'' \<or> all_in is_digit 2 v)
      else if k = ''journal'' then Check isBool
      else if k = ''wtimeoutms'' then Check isPositiveInt
      else if k = ''readpreference'' then
        Check (oneOf [''primary'', ''primarypreferred'', ''secondary'', ''secondarypreferred'', ''nearest''])
      else if k = ''maxstalenessseconds'' then Check (\<lambda>v. v = ''-1'' \<or> isPositiveInt v)
      else if k = ''readconcernlevel'' then
        Check (oneOf [''local'', ''majority'', ''available'', ''linearizable'', ''snapshot''])
      else if k = ''appname'' then Check (all_in (\<lambda>c. name_char c \<or> c = CHR '' '') 64)
      else if k = ''directconnection'' then Check isBool
      else if k = ''srvmaxhosts'' then Check isPositiveInt
      else if k = ''compressors'' then
        Check (\<lambda>v. list_all (\<lambda>c. to_lower (trim c) \<in> {''zlib'', ''none''}) (split_on CHR '','' v))
      else if k = ''constructor'' then Constructor_function
      else if k = ''__proto__'' then Prototype_object
      else No_check)"

datatype guard_error = EgressBlocked | HostUnresolved | ConfigInvalid | TypeError

definition shown_name :: "string \<Rightarrow> string" where
  "shown_name key = (if all_in name_char 64 key then key else ''unknown option'')"

definition option_rejected :: "string \<times> string \<Rightarrow> (guard_error, bool) res" where
  "option_rejected kv =
     (case ALLOWED_MONGO_OPTIONS (to_lower (fst kv)) of
        No_check \<Rightarrow> Inr True
      | Check f \<Rightarrow> Inr (\<not> f (snd kv))
      | Constructor_function \<Rightarrow> Inr False
      | Prototype_object \<Rightarrow> Inl TypeError)"

fun reject_options :: "(string \<times> string) list \<Rightarrow> string list \<Rightarrow> (guard_error, string list) res" where
  "reject_options [] rejected = Inr rejected"
| "reject_options (kv # kvs) rejected =
     rbind (option_rejected kv) (\<lambda>bad.
       reject_options kvs
         (if bad \<and> shown_name (fst kv) \<notin> set rejected then rejected @ [shown_name (fst kv)] else rejected))"

definition disallowedMongoOptions :: "mongo_uri option \<Rightarrow> (guard_error, string list) res" where
  "disallowedMongoOptions parsed = (case parsed of None \<Rightarrow> Inr [] | Some p \<Rightarrow> reject_options (options p) [])"

section \<open>Host policy\<close>

definition drop_dot :: "string \<Rightarrow> string" where
  "drop_dot h = (if h \<noteq> [] \<and> last h = CHR ''.'' then butlast h else h)"

definition hex_label :: "string \<Rightarrow> bool" where
  "hex_label p \<longleftrightarrow> starts_with ''0x'' p \<and> list_all (\<lambda>c. hex_digit c \<noteq> None \<and> \<not> is_upper c) (drop 2 p)"

definition isObviouslyInternalHost :: "string \<Rightarrow> bool" where
  "isObviouslyInternalHost raw =
     (let h = drop_dot (to_lower raw) in
      if h = [] then True
      else if isIP h then isNonPublicAddress h
      else if list_all (\<lambda>c. is_digit c \<or> c = CHR ''.'') h \<or> list_ex hex_label (split_on CHR ''.'' h) then True
      else h = ''localhost'' \<or> ends_with ''.localhost'' h \<or> ends_with ''.local'' h \<or> ends_with ''.internal'' h
        \<or> ends_with ''.localdomain'' h \<or> ends_with ''.home.arpa'' h \<or> CHR ''.'' \<notin> set h)"

definition strip_brackets :: "string \<Rightarrow> string" where
  "strip_brackets h =
     (let a = (if h \<noteq> [] \<and> hd h = CHR ''['' then tl h else h)
      in if a \<noteq> [] \<and> last a = CHR '']'' then butlast a else a)"

definition normaliseHost :: "string \<Rightarrow> string" where
  "normaliseHost raw =
     (let h = strip_brackets (drop_dot (to_lower raw)) in
      if h = ''localhost'' \<or> ends_with ''.localhost'' h then ''loopback''
      else if isIP h \<and> (starts_with ''127.'' h \<or> h = ''::1'' \<or> h = ''0.0.0.0'' \<or> h = ''::'') then ''loopback''
      else h)"

record platform_policy =
  endpoints :: "(string \<times> nat) list"
  suffixes :: "string list"

record uri_endpoint =
  ep_host :: string
  ep_port :: nat
  ep_srv :: bool

definition port_or :: "nat \<Rightarrow> string \<Rightarrow> nat" where
  "port_or d t = (if dec_value t = 0 then d else dec_value t)"

definition endpointsOfUri ::
  "url_parser \<Rightarrow> (string \<Rightarrow> (string \<times> string) list) \<Rightarrow> string \<Rightarrow> uri_endpoint list" where
  "endpointsOfUri new_URL search_params uri =
     (if uri = [] then []
      else if starts_with ''mongodb'' (to_lower uri) then
        (case parseMongoUri new_URL search_params uri of
           None \<Rightarrow> []
         | Some p \<Rightarrow> map (\<lambda>h. \<lparr>ep_host = to_lower (host h),
                              ep_port = (case port h of None \<Rightarrow> 27017 | Some n \<Rightarrow> n), ep_srv = srv p\<rparr>) (hosts p))
      else
        (case new_URL uri of
           None \<Rightarrow> []
         | Some (hostname, port_text) \<Rightarrow>
             if hostname = [] then []
             else [\<lparr>ep_host = strip_brackets (to_lower hostname), ep_port = port_or 6379 port_text, ep_srv = False\<rparr>]))"

fun add_endpoint :: "platform_policy \<Rightarrow> uri_endpoint \<Rightarrow> platform_policy" where
  "add_endpoint pol e =
     (if ep_srv e then
        pol\<lparr>suffixes := suffixes pol @ [ep_host e] @
          (let labels = split_on CHR ''.'' (ep_host e)
           in if 3 \<le> length labels then [''.'' @ join_with ''.'' (tl labels)] else [])\<rparr>
      else pol\<lparr>endpoints := endpoints pol @ [(ep_host e, ep_port e)]\<rparr>)"

definition platformHostPolicy ::
  "url_parser \<Rightarrow> (string \<Rightarrow> (string \<times> string) list) \<Rightarrow> string \<Rightarrow> string \<Rightarrow> platform_policy" where
  "platformHostPolicy new_URL search_params databaseUri redisUrl =
     foldl add_endpoint \<lparr>endpoints = [], suffixes = []\<rparr>
       (endpointsOfUri new_URL search_params databaseUri @ endpointsOfUri new_URL search_params redisUrl)"

definition isPlatformHost :: "string \<Rightarrow> nat option \<Rightarrow> platform_policy \<Rightarrow> bool" where
  "isPlatformHost h p policy =
     (let raw = drop_dot (to_lower h) in
      if list_ex (\<lambda>s. if starts_with ''.'' s then ends_with s raw else raw = s) (suffixes policy) then True
      else case p of
        None \<Rightarrow> False
      | Some n \<Rightarrow> list_ex (\<lambda>e. normaliseHost (fst e) = normaliseHost raw \<and> snd e = n) (endpoints policy))"

definition isHostAllowListed :: "string \<Rightarrow> string list \<Rightarrow> bool" where
  "isHostAllowListed h allowList =
     (allowList = [] \<or>
      (let raw = drop_dot (to_lower h) in
       list_ex (\<lambda>entry. let e = trim (to_lower entry) in
         e \<noteq> [] \<and> (if starts_with ''.'' e then ends_with e raw else raw = e)) allowList))"

record egress_config =
  allowPrivate :: bool
  allowList :: "string list"
  platform :: platform_policy

definition hostPolicyViolation :: "egress_config \<Rightarrow> string \<Rightarrow> nat option \<Rightarrow> string option" where
  "hostPolicyViolation cfg h p =
     (if isPlatformHost h p (platform cfg) then Some ''the host is not allowed''
      else if \<not> isHostAllowListed h (allowList cfg) then Some ''the host is not on the allowed list''
      else if \<not> allowPrivate cfg \<and> isObviouslyInternalHost h then Some ''the host must be a public address''
      else None)"

section \<open>Resolution\<close>

text \<open>A resolver answers with addresses, or not at all (its promise is rejected).\<close>

record resolver =
  lookup :: "string \<Rightarrow> string list option"
  resolveSrv :: "string \<Rightarrow> (string \<times> nat option) list option"

definition answers :: "'a list option \<Rightarrow> 'a list" where
  "answers r = (case r of None \<Rightarrow> [] | Some xs \<Rightarrow> xs)"

definition resolve_host :: "resolver \<Rightarrow> string \<Rightarrow> string list" where
  "resolve_host rs h = (if isIP h then [h] else answers (lookup rs h))"

definition platformAddresses :: "platform_policy \<Rightarrow> resolver \<Rightarrow> (string \<times> nat) list" where
  "platformAddresses policy rs =
     concat (map (\<lambda>(h, p). map (\<lambda>a. (a, p)) (resolve_host rs h)) (endpoints policy))"

definition platform_hit :: "string list \<Rightarrow> nat \<Rightarrow> (string \<times> nat) list \<Rightarrow> bool" where
  "platform_hit addresses p resolved =
     list_ex (\<lambda>a. list_ex (\<lambda>q. snd q = p \<and> normaliseHost (fst q) = normaliseHost a) resolved) addresses"

text \<open>The loop over the endpoints; the platform's own addresses are resolved at most once.\<close>

fun egress_loop ::
  "egress_config \<Rightarrow> resolver \<Rightarrow> (string \<times> nat) list option \<Rightarrow> host_port list \<Rightarrow> (guard_error, unit) res" where
  "egress_loop cfg rs resolved [] = Inr ()"
| "egress_loop cfg rs resolved (e # es) =
     (if hostPolicyViolation cfg (host e) (port e) \<noteq> None then Inl EgressBlocked
      else
        (let addresses = resolve_host rs (host e) in
         if addresses = [] then Inl HostUnresolved
         else if \<not> allowPrivate cfg \<and> list_ex isNonPublicAddress addresses then Inl EgressBlocked
         else case port e of
           None \<Rightarrow> egress_loop cfg rs resolved es
         | Some p \<Rightarrow>
             if endpoints (platform cfg) = [] then egress_loop cfg rs resolved es
             else
               (let own = (case resolved of None \<Rightarrow> platformAddresses (platform cfg) rs | Some r \<Rightarrow> r)
                in if platform_hit addresses p own then Inl EgressBlocked
                   else egress_loop cfg rs (Some own) es)))"

definition assertEgressAllowed :: "egress_config \<Rightarrow> resolver \<Rightarrow> host_port list \<Rightarrow> (guard_error, unit) res" where
  "assertEgressAllowed cfg rs hs = egress_loop cfg rs None hs"

definition with_port :: "nat \<Rightarrow> host_port \<Rightarrow> host_port" where
  "with_port d h = h\<lparr>port := Some (case port h of None \<Rightarrow> d | Some p \<Rightarrow> p)\<rparr>"

definition seed_endpoints :: "resolver \<Rightarrow> mongo_uri \<Rightarrow> host_port list" where
  "seed_endpoints rs p =
     (if srv p then
        map (\<lambda>(n, q). with_port 27017 \<lparr>host = n, port = q\<rparr>)
          (answers (resolveSrv rs (''_mongodb._tcp.'' @ host (hd (hosts p)))))
      else map (with_port 27017) (hosts p))"

definition seed_port :: "mongo_uri \<Rightarrow> host_port \<Rightarrow> nat option" where
  "seed_port p s = (if srv p then None else port (with_port 27017 s))"

definition assertPublicMongoHosts ::
  "egress_config \<Rightarrow> resolver \<Rightarrow> mongo_uri option \<Rightarrow> (guard_error, unit) res" where
  "assertPublicMongoHosts cfg rs parsed =
     (case parsed of
        None \<Rightarrow> Inl ConfigInvalid
      | Some p \<Rightarrow>
          if list_ex (\<lambda>s. hostPolicyViolation cfg (host s) (seed_port p s) \<noteq> None)
               (hosts p) then Inl EgressBlocked
          else if srv p \<and> hosts p = [] then Inl TypeError
          else if srv p \<and> seed_endpoints rs p = [] then Inl HostUnresolved
          else assertEgressAllowed cfg rs (seed_endpoints rs p))"

section \<open>Guarded lookup\<close>

datatype lookup_answer =
    Lookup_error string
  | Lookup_all "(string \<times> nat) list"
  | Lookup_one string

datatype lookup_result =
    Refused guard_error
  | Failed string
  | Dial_any "(string \<times> nat) list"
  | Dial "string \<times> nat"

definition ip_family :: "string \<Rightarrow> nat" where
  "ip_family a = (if isIPv4 a then 4 else if isIPv6 a then 6 else 0)"

definition guardedLookup ::
  "egress_config \<Rightarrow> (string \<Rightarrow> lookup_answer) \<Rightarrow> bool \<Rightarrow> string \<Rightarrow> lookup_result" where
  "guardedLookup cfg baseLookup all hostname =
     (if hostPolicyViolation cfg hostname None \<noteq> None then Refused EgressBlocked
      else case baseLookup hostname of
        Lookup_error e \<Rightarrow> Failed e
      | ans \<Rightarrow>
          (let xs = (case ans of Lookup_all xs \<Rightarrow> xs | Lookup_one a \<Rightarrow> [(a, ip_family a)] | Lookup_error _ \<Rightarrow> []) in
           if xs = [] \<or> (\<not> allowPrivate cfg \<and> list_ex (\<lambda>x. isNonPublicAddress (fst x)) xs) then Refused EgressBlocked
           else if all then Dial_any xs
           else Dial (hd xs)))"

section \<open>What a parsed connection string is\<close>

lemma match_protocol_Some:
  assumes "match_protocol s = Some (pr, t)"
  shows "s = pr @ ''://'' @ t \<and> pr \<noteq> [] \<and> CHR ''/'' \<notin> set pr"
proof -
  let ?p = "takeWhile (\<lambda>c. c \<noteq> CHR ''/'') s" and ?t = "dropWhile (\<lambda>c. c \<noteq> CHR ''/'') s"
  have p: "2 \<le> length ?p" "last ?p = CHR '':''" "pr = butlast ?p" "?t = ''//'' @ t"
    using assms unfolding match_protocol_def Let_def
    by (simp_all add: strip_prefix_Some split: if_splits)
  have "?p = pr @ '':''" using p(1,2,3) by (metis append_butlast_last_id list.size(3) not_numeral_le_zero)
  moreover have "s = ?p @ ?t" by simp
  moreover have "pr \<noteq> []" using p(1,3) by (cases ?p) auto
  moreover have "CHR ''/'' \<notin> set pr" using p(3) by (auto dest!: in_set_butlastD set_takeWhileD)
  ultimately show ?thesis using p(4) by (metis append_Cons append_Nil append_assoc)
qed

definition userinfo_text :: "string option \<Rightarrow> string option \<Rightarrow> string" where
  "userinfo_text u pw =
     (case u of None \<Rightarrow> [] | Some n \<Rightarrow> n @ (case pw of None \<Rightarrow> [] | Some w \<Rightarrow> CHR '':'' # w) @ ''@'')"

lemma dropWhile_Cons: "dropWhile P xs = y # ys \<Longrightarrow> xs = takeWhile P xs @ y # ys \<and> \<not> P y"
  by (simp add: dropWhile_eq_Cons_conv)

lemma match_userinfo_Some:
  assumes "match_userinfo t = Some (u, pw, t')"
  shows "t = userinfo_text (Some u) pw @ t'"
proof -
  let ?P = "\<lambda>c. c \<noteq> CHR '':'' \<and> c \<noteq> CHR ''@''" and ?Q = "\<lambda>c. c \<noteq> CHR ''@''"
  obtain c r where r: "dropWhile ?P t = c # r"
    using assms by (auto simp: match_userinfo_def Let_def split: list.splits)
  have t: "t = takeWhile ?P t @ c # r" "c = CHR '':'' \<or> c = CHR ''@''"
    using dropWhile_Cons[OF r] by auto
  show ?thesis
  proof (cases "c = CHR ''@''")
    case True
    then have "u = takeWhile ?P t" "pw = None" "t' = r" using assms r by (simp_all add: match_userinfo_def Let_def)
    then show ?thesis using t(1) True by (simp add: userinfo_text_def)
  next
    case False
    then obtain d r' where d: "dropWhile ?Q r = d # r'" "u = takeWhile ?P t" "pw = Some (takeWhile ?Q r)" "t' = r'"
      using assms r by (auto simp: match_userinfo_def Let_def split: list.splits)
    have "d = CHR ''@''" "r = takeWhile ?Q r @ d # r'" using dropWhile_Cons[OF d(1)] by blast+
    then have "r = takeWhile ?Q r @ ''@'' @ r'" by (metis append_Cons append_Nil)
    then have "t = takeWhile ?P t @ '':'' @ takeWhile ?Q r @ ''@'' @ r'" using t False by simp
    then show ?thesis using d by (simp add: userinfo_text_def)
  qed
qed

lemma match_hosts_Some:
  assumes "match_hosts t = Some (h, r)"
  shows "t = h @ r \<and> (\<forall>c\<in>set h. host_char c) \<and> (r = [] \<or> \<not> host_char (hd r))"
  using assms hd_dropWhile[of host_char t] takeWhile_dropWhile_id[of host_char t]
  by (auto simp: match_hosts_def dest: set_takeWhileD split: if_splits)

lemma MONGO_URI_RE_Some:
  assumes "MONGO_URI_RE s = Some m"
  shows "s = protocol m @ ''://'' @ userinfo_text (username m) (password m) @ hostList m @ rest m"
    and "CHR ''/'' \<notin> set (protocol m)" and "\<forall>c\<in>set (hostList m). host_char c"
    and "rest m = [] \<or> \<not> host_char (hd (rest m))"
proof -
  obtain pr t where p: "match_protocol s = Some (pr, t)"
    using assms by (auto simp: MONGO_URI_RE_def split: option.splits)
  have pr: "s = pr @ ''://'' @ t" "CHR ''/'' \<notin> set pr" using match_protocol_Some[OF p] by auto
  consider (plain) h r where "match_hosts t = Some (h, r)"
      "m = \<lparr>protocol = pr, username = None, password = None, hostList = h, rest = r\<rparr>"
    | (user) u pw t' h r where "match_userinfo t = Some (u, pw, t')" "match_hosts t' = Some (h, r)"
      "m = \<lparr>protocol = pr, username = Some u, password = pw, hostList = h, rest = r\<rparr>"
    using assms p by (auto simp: MONGO_URI_RE_def Let_def split: option.splits)
  then have "s = protocol m @ ''://'' @ userinfo_text (username m) (password m) @ hostList m @ rest m
    \<and> CHR ''/'' \<notin> set (protocol m) \<and> (\<forall>c\<in>set (hostList m). host_char c)
    \<and> (rest m = [] \<or> \<not> host_char (hd (rest m)))"
  proof cases
    case plain
    then show ?thesis using pr match_hosts_Some[OF plain(1)] by (simp add: userinfo_text_def)
  next
    case user
    then show ?thesis using pr match_hosts_Some[OF user(2)] match_userinfo_Some[OF user(1)] by simp
  qed
  then show "s = protocol m @ ''://'' @ userinfo_text (username m) (password m) @ hostList m @ rest m"
    "CHR ''/'' \<notin> set (protocol m)" "\<forall>c\<in>set (hostList m). host_char c"
    "rest m = [] \<or> \<not> host_char (hd (rest m))" by blast+
qed

lemma map_all_Some: "map_all f xs = Some ys \<Longrightarrow> length ys = length xs \<and> (\<forall>i<length xs. f (xs ! i) = Some (ys ! i))"
proof (induction xs arbitrary: ys)
  case (Cons x xs)
  then obtain y zs where z: "f x = Some y" "map_all f xs = Some zs" "ys = y # zs"
    by (auto split: option.splits)
  then show ?case using Cons.IH[OF z(2)] by (auto simp: nth_Cons split: nat.splits)
qed simp

lemma at_before_path_hd: "\<not> at_before_path r \<Longrightarrow> r = [] \<or> hd r \<noteq> CHR ''@''"
  by (cases r) (auto simp: at_before_path_def)

lemma parseMongoUri_Some:
  assumes "parseMongoUri new_URL sp uri = Some p"
  obtains m where "MONGO_URI_RE (trim uri) = Some m" "to_lower (protocol m) \<in> {''mongodb'', ''mongodb+srv''}"
    "srv p \<longleftrightarrow> to_lower (protocol m) = ''mongodb+srv''" "hostList m \<noteq> []"
    "\<And>u. username m = Some u \<Longrightarrow> \<not> USERINFO_ILLEGAL u" "\<And>u. password m = Some u \<Longrightarrow> \<not> USERINFO_ILLEGAL u"
    "\<not> at_before_path (rest m)"
    "map_all (parseHostAddress new_URL) (split_on CHR '','' (hostList m)) = Some (hosts p)"
    "srv p \<Longrightarrow> length (hosts p) = 1 \<and> port (hd (hosts p)) = None"
    "options p = sp (query_text (rest m))"
proof -
  obtain m where m: "MONGO_URI_RE (trim uri) = Some m"
    using assms by (auto simp: parseMongoUri_def split: option.splits)
  obtain hs where hs: "map_all (parseHostAddress new_URL) (split_on CHR '','' (hostList m)) = Some hs"
    using assms m by (auto simp: parseMongoUri_def Let_def split: option.splits if_splits)
  have "to_lower (protocol m) \<in> {''mongodb'', ''mongodb+srv''}"
    "srv p \<longleftrightarrow> to_lower (protocol m) = ''mongodb+srv''" "hostList m \<noteq> []"
    "\<not> at_before_path (rest m)" "hosts p = hs" "srv p \<Longrightarrow> length hs = 1 \<and> port (hd hs) = None"
    "options p = sp (query_text (rest m))"
    using assms m hs by (auto simp: parseMongoUri_def Let_def split: if_splits)
  moreover have "\<not> USERINFO_ILLEGAL u" if "username m = Some u" for u
    using assms m hs that by (auto simp: parseMongoUri_def Let_def split: if_splits)
  moreover have "\<not> USERINFO_ILLEGAL u" if "password m = Some u" for u
    using assms m hs that by (auto simp: parseMongoUri_def Let_def split: if_splits)
  ultimately show thesis using that[OF m] hs by blast
qed

definition plain_char :: "char \<Rightarrow> bool" where
  "plain_char c \<longleftrightarrow> c \<notin> {CHR ''/'', CHR ''?'', CHR ''#'', CHR ''['', CHR '']'', CHR ''@''}"

lemma userinfo_plain:
  assumes "\<And>n. u = Some n \<Longrightarrow> \<not> USERINFO_ILLEGAL n" "\<And>n. w = Some n \<Longrightarrow> \<not> USERINFO_ILLEGAL n"
  shows "userinfo_text u w = [] \<or> (\<exists>t. userinfo_text u w = t @ ''@'' \<and> (\<forall>c\<in>set t. plain_char c))"
proof (cases u)
  case (Some n)
  let ?t = "n @ (case w of None \<Rightarrow> [] | Some x \<Rightarrow> CHR '':'' # x)"
  have "\<forall>c\<in>set ?t. plain_char c"
    using assms Some by (auto simp: USERINFO_ILLEGAL_def plain_char_def list_ex_iff split: option.splits)
  then show ?thesis using Some by (intro disjI2 exI[of _ ?t]) (simp add: userinfo_text_def)
qed (simp add: userinfo_text_def)

text \<open>
  Nothing but the listed hosts can be dialled: an accepted connection string is scheme, \<open>://\<close>, at
  most one user info (whose text holds no further separator), the host list and a path or query.
  Every host of the list, and only those, is in the result; an SRV string names one host and no port.
\<close>

theorem parsed_uri_shape:
  assumes "parseMongoUri new_URL sp uri = Some p"
  shows "\<exists>pr ui hl r. trim uri = pr @ ''://'' @ ui @ hl @ r
    \<and> to_lower pr \<in> {''mongodb'', ''mongodb+srv''} \<and> (srv p \<longleftrightarrow> to_lower pr = ''mongodb+srv'')
    \<and> (ui = [] \<or> (\<exists>t. ui = t @ ''@'' \<and> (\<forall>c\<in>set t. plain_char c)))
    \<and> (\<forall>c\<in>set hl. host_char c) \<and> (r = [] \<or> hd r \<in> {CHR ''/'', CHR ''?''})
    \<and> length (hosts p) = length (split_on CHR '','' hl)
    \<and> (\<forall>i<length (hosts p). parseHostAddress new_URL (split_on CHR '','' hl ! i) = Some (hosts p ! i))
    \<and> (srv p \<longrightarrow> length (hosts p) = 1 \<and> port (hd (hosts p)) = None)"
proof -
  from assms obtain m where m: "MONGO_URI_RE (trim uri) = Some m"
      "to_lower (protocol m) \<in> {''mongodb'', ''mongodb+srv''}"
      "srv p \<longleftrightarrow> to_lower (protocol m) = ''mongodb+srv''"
      "\<And>u. username m = Some u \<Longrightarrow> \<not> USERINFO_ILLEGAL u" "\<And>u. password m = Some u \<Longrightarrow> \<not> USERINFO_ILLEGAL u"
      "\<not> at_before_path (rest m)"
      "map_all (parseHostAddress new_URL) (split_on CHR '','' (hostList m)) = Some (hosts p)"
      "srv p \<Longrightarrow> length (hosts p) = 1 \<and> port (hd (hosts p)) = None"
    by (rule parseMongoUri_Some) blast
  have "rest m = [] \<or> hd (rest m) \<in> {CHR ''/'', CHR ''?''}"
    using MONGO_URI_RE_Some(4)[OF m(1)] at_before_path_hd[OF m(6)] by (auto simp: host_char_def)
  then show ?thesis
    using MONGO_URI_RE_Some(1,3)[OF m(1)] m(2,3,8) userinfo_plain[OF m(4,5)] map_all_Some[OF m(7)]
    by (intro exI[of _ "protocol m"] exI[of _ "userinfo_text (username m) (password m)"]
        exI[of _ "hostList m"] exI[of _ "rest m"]) simp
qed

definition sample_url :: url_parser where
  "sample_url t = (if starts_with ''ilovejs://'' t then Some (drop 10 t, []) else None)"

lemma sample_uri:
  "parseMongoUri sample_url (\<lambda>q. []) ''mongodb+srv://u:p@h.ex/db''
     = Some \<lparr>srv = True, hosts = [\<lparr>host = ''h.ex'', port = None\<rparr>], options = []\<rparr>"
  by code_simp

theorem parsed_uri_shape_witness:
  "\<exists>hl. length (split_on CHR '','' hl) = 1 \<and> parseHostAddress sample_url (split_on CHR '','' hl ! 0)
     = Some \<lparr>host = ''h.ex'', port = None\<rparr>"
  using parsed_uri_shape[OF sample_uri] by auto

section \<open>Options\<close>

definition rejected_pairs :: "(string \<times> string) list \<Rightarrow> (string \<times> string) set" where
  "rejected_pairs kvs = {kv \<in> set kvs. option_rejected kv = Inr True}"

lemma rejected_pairs_Cons:
  "rejected_pairs (kv # kvs) = (if option_rejected kv = Inr True then insert kv (rejected_pairs kvs) else rejected_pairs kvs)"
  by (auto simp: rejected_pairs_def)

lemma reject_options_Inr:
  "reject_options kvs r = Inr out \<Longrightarrow>
     set out = set r \<union> (\<lambda>kv. shown_name (fst kv)) ` rejected_pairs kvs
     \<and> (\<forall>kv\<in>set kvs. \<exists>b. option_rejected kv = Inr b)"
proof (induction kvs arbitrary: r)
  case (Cons kv kvs)
  then obtain bad where b: "option_rejected kv = Inr bad" by auto
  then have "reject_options kvs (if bad \<and> shown_name (fst kv) \<notin> set r then r @ [shown_name (fst kv)] else r) = Inr out"
    using Cons.prems by simp
  from Cons.IH[OF this] b show ?case by (cases bad) (auto simp: rejected_pairs_Cons split: if_splits)
qed (simp add: rejected_pairs_def)

lemma rejected_pairs_empty:
  assumes "\<forall>kv\<in>set kvs. \<exists>b. option_rejected kv = Inr b"
  shows "rejected_pairs kvs = {} \<longleftrightarrow> (\<forall>kv\<in>set kvs. option_rejected kv = Inr False)"
proof -
  have "option_rejected kv \<noteq> Inr True \<longleftrightarrow> option_rejected kv = Inr False" if "kv \<in> set kvs" for kv
    using assms that by (cases "option_rejected kv") auto
  then show ?thesis by (auto simp: rejected_pairs_def)
qed

lemma inherited_constructor: "ALLOWED_MONGO_OPTIONS k = Constructor_function \<longleftrightarrow> k = ''constructor''"
proof (cases "k = ''constructor''")
  case True
  then show ?thesis by (simp only: True) (simp add: ALLOWED_MONGO_OPTIONS_def)
next
  case False
  then show ?thesis unfolding ALLOWED_MONGO_OPTIONS_def by simp
qed

lemma option_rejected_cases:
  "option_rejected kv = Inr False \<longleftrightarrow> to_lower (fst kv) = ''constructor''
     \<or> (\<exists>f. ALLOWED_MONGO_OPTIONS (to_lower (fst kv)) = Check f \<and> f (snd kv))"
  using inherited_constructor[of "to_lower (fst kv)"]
  by (cases "ALLOWED_MONGO_OPTIONS (to_lower (fst kv))") (simp_all add: option_rejected_def)

lemma shown_name_safe: "shown_name k = k \<and> all_in name_char 64 k \<or> shown_name k = ''unknown option''"
  by (simp add: shown_name_def)

text \<open>
  The option check is an allow list: a connection string passes exactly when each option's value
  passes the check listed for its lower-cased name (or the option is called \<open>constructor\<close>, the one
  name the object inherits), and a refusal names options only, never a value.
\<close>

theorem options_allow_list:
  assumes "disallowedMongoOptions (Some p) = Inr out"
  shows "(out = [] \<longleftrightarrow> (\<forall>(k, v)\<in>set (options p). to_lower k = ''constructor''
            \<or> (\<exists>f. ALLOWED_MONGO_OPTIONS (to_lower k) = Check f \<and> f v)))
    \<and> (\<forall>n\<in>set out. n = ''unknown option'' \<or> (all_in name_char 64 n \<and> n \<in> fst ` set (options p)))"
proof -
  have r: "set out = (\<lambda>kv. shown_name (fst kv)) ` rejected_pairs (options p)"
    "\<forall>kv\<in>set (options p). \<exists>b. option_rejected kv = Inr b"
    using assms reject_options_Inr[of "options p" "[]" out] by (simp_all add: disallowedMongoOptions_def)
  have "out = [] \<longleftrightarrow> rejected_pairs (options p) = {}"
    using r(1) by (metis image_is_empty set_empty)
  also have "\<dots> \<longleftrightarrow> (\<forall>kv\<in>set (options p). option_rejected kv = Inr False)"
    by (rule rejected_pairs_empty[OF r(2)])
  finally have "out = [] \<longleftrightarrow> (\<forall>kv\<in>set (options p). option_rejected kv = Inr False)" .
  moreover have "\<forall>n\<in>set out. n = ''unknown option'' \<or> (all_in name_char 64 n \<and> n \<in> fst ` set (options p))"
  proof
    fix n assume "n \<in> set out"
    then obtain kv where kv: "kv \<in> set (options p)" "n = shown_name (fst kv)"
      using r(1) by (auto simp: rejected_pairs_def)
    then show "n = ''unknown option'' \<or> (all_in name_char 64 n \<and> n \<in> fst ` set (options p))"
      using shown_name_safe[of "fst kv"] by auto
  qed
  ultimately show ?thesis unfolding option_rejected_cases by (simp only: case_prod_unfold)
qed

theorem options_allow_list_witness:
  "disallowedMongoOptions (Some \<lparr>srv = False, hosts = [], options = [(''proxyHost'', ''10.0.0.1''), (''w'', ''1'')]\<rparr>)
     = Inr [''proxyHost'']
   \<and> (\<forall>n\<in>set [''proxyHost'']. n = ''unknown option''
        \<or> (all_in name_char 64 n \<and> n \<in> fst ` set [(''proxyHost'', ''10.0.0.1''), (''w'', ''1'')]))"
proof -
  have e: "disallowedMongoOptions (Some \<lparr>srv = False, hosts = [], options = [(''proxyHost'', ''10.0.0.1''), (''w'', ''1'')]\<rparr>)
      = Inr [''proxyHost'']" by code_simp
  show ?thesis using options_allow_list[OF e] e by simp
qed

section \<open>Egress\<close>

text \<open>What the check promises of one endpoint, in terms of the addresses its name resolves to.\<close>

definition endpoint_safe :: "egress_config \<Rightarrow> resolver \<Rightarrow> host_port \<Rightarrow> bool" where
  "endpoint_safe cfg rs e \<longleftrightarrow>
     hostPolicyViolation cfg (host e) (port e) = None \<and> resolve_host rs (host e) \<noteq> []
     \<and> (\<forall>a\<in>set (resolve_host rs (host e)). (allowPrivate cfg \<or> \<not> isNonPublicAddress a)
          \<and> (\<forall>(h, q)\<in>set (endpoints (platform cfg)). port e = Some q \<longrightarrow>
                (\<forall>b\<in>set (resolve_host rs h). normaliseHost b \<noteq> normaliseHost a)))"

lemma platform_hit_iff:
  "platform_hit as p (platformAddresses pol rs) \<longleftrightarrow>
     (\<exists>a\<in>set as. \<exists>(h, q)\<in>set (endpoints pol). q = p \<and> (\<exists>b\<in>set (resolve_host rs h). normaliseHost b = normaliseHost a))"
  by (fastforce simp: platform_hit_def platformAddresses_def list_ex_iff)

lemma endpoint_safe_step:
  "endpoint_safe cfg rs e \<longleftrightarrow>
     hostPolicyViolation cfg (host e) (port e) = None \<and> resolve_host rs (host e) \<noteq> []
     \<and> \<not> (\<not> allowPrivate cfg \<and> list_ex isNonPublicAddress (resolve_host rs (host e)))
     \<and> (\<forall>p. port e = Some p \<longrightarrow> \<not> platform_hit (resolve_host rs (host e)) p (platformAddresses (platform cfg) rs))"
  unfolding endpoint_safe_def platform_hit_iff list_ex_iff by fastforce

lemma platformAddresses_none: "endpoints pol = [] \<Longrightarrow> \<not> platform_hit as p (platformAddresses pol rs)"
  by (simp add: platform_hit_iff)

lemma egress_loop_iff:
  "resolved \<in> {None, Some (platformAddresses (platform cfg) rs)} \<Longrightarrow>
     egress_loop cfg rs resolved es = Inr () \<longleftrightarrow> (\<forall>e\<in>set es. endpoint_safe cfg rs e)"
proof (induction es arbitrary: resolved)
  case (Cons e es)
  let ?own = "platformAddresses (platform cfg) rs"
  have own: "(case resolved of None \<Rightarrow> ?own | Some r \<Rightarrow> r) = ?own" using Cons.prems by auto
  have IH: "egress_loop cfg rs resolved es = Inr () \<longleftrightarrow> (\<forall>e\<in>set es. endpoint_safe cfg rs e)"
    "egress_loop cfg rs (Some ?own) es = Inr () \<longleftrightarrow> (\<forall>e\<in>set es. endpoint_safe cfg rs e)"
    using Cons.IH[OF Cons.prems] Cons.IH[of "Some ?own"] by simp_all
  show ?case
    using IH platformAddresses_none[of "platform cfg"]
    by (auto simp: endpoint_safe_step own Let_def split: option.splits)
qed simp

text \<open>
  The pre-flight check is exact: it accepts a list of endpoints if and only if every endpoint
  passes the name policy, resolves, resolves to public addresses only (unless private networks are
  allowed) and shares no address and port with the platform's own data stores.
\<close>

theorem egress_exact:
  "assertEgressAllowed cfg rs hs = Inr () \<longleftrightarrow> list_all (endpoint_safe cfg rs) hs"
  unfolding assertEgressAllowed_def list_all_iff by (rule egress_loop_iff) simp

lemma hd_eq_in_set: "hd xs = y \<Longrightarrow> xs \<noteq> [] \<Longrightarrow> y \<in> set xs"
  by auto

lemma seed_endpoints_port: "e \<in> set (seed_endpoints rs p) \<Longrightarrow> port e \<noteq> None"
  by (auto simp: seed_endpoints_def with_port_def split: if_splits)

text \<open>
  C14. When the Mongo check passes, every seed the tenant typed passed the name policy and every
  endpoint the driver will dial (the hosts with the default port, or the SRV targets) is safe; with
  private networks off, none of their addresses is loopback, private or reserved.
\<close>

theorem mongo_hosts_public:
  assumes "assertPublicMongoHosts cfg rs (Some p) = Inr ()" and "\<not> allowPrivate cfg"
  shows "(\<forall>s\<in>set (hosts p). hostPolicyViolation cfg (host s) (seed_port p s) = None)
    \<and> (hosts p \<noteq> [] \<longrightarrow> seed_endpoints rs p \<noteq> [])
    \<and> (\<forall>e\<in>set (seed_endpoints rs p). endpoint_safe cfg rs e
         \<and> (\<forall>a\<in>set (resolve_host rs (host e)). \<not> isNonPublicAddress a))"
proof -
  have a: "\<not> list_ex (\<lambda>s. hostPolicyViolation cfg (host s) (seed_port p s) \<noteq> None) (hosts p)"
    "assertEgressAllowed cfg rs (seed_endpoints rs p) = Inr ()" "srv p \<Longrightarrow> seed_endpoints rs p \<noteq> []"
    using assms(1) by (simp_all add: assertPublicMongoHosts_def del: not_None_eq split: if_splits)
  have e: "\<forall>e\<in>set (seed_endpoints rs p). endpoint_safe cfg rs e"
    using a(2) egress_loop_iff[of None cfg rs] by (simp add: assertEgressAllowed_def)
  moreover have "\<forall>e\<in>set (seed_endpoints rs p). \<forall>x\<in>set (resolve_host rs (host e)). \<not> isNonPublicAddress x"
    using e assms(2) by (simp add: endpoint_safe_def)
  moreover have "hosts p \<noteq> [] \<longrightarrow> seed_endpoints rs p \<noteq> []" using a(3) by (auto simp: seed_endpoints_def)
  ultimately show ?thesis using a(1) by (auto simp: list_ex_iff)
qed

definition sample_platform :: platform_policy where
  "sample_platform = \<lparr>endpoints = [], suffixes = [''own.mongodb.net'', ''.mongodb.net'']\<rparr>"

definition sample_config :: egress_config where
  "sample_config = \<lparr>allowPrivate = False, allowList = [], platform = sample_platform\<rparr>"

definition sample_resolver :: resolver where
  "sample_resolver = \<lparr>lookup = (\<lambda>_. Some [''8.8.4.4'']),
     resolveSrv = (\<lambda>_. Some [(''t1.h.ex'', Some 8)])\<rparr>"

theorem mongo_hosts_public_witness:
  "endpoint_safe sample_config sample_resolver \<lparr>host = ''t1.h.ex'', port = Some 8\<rparr>"
proof -
  let ?p = "\<lparr>srv = True, hosts = [\<lparr>host = ''h.ex'', port = None\<rparr>], options = []\<rparr>"
  have "hostPolicyViolation sample_config ''t1.h.ex'' (Some 8) = None" by code_simp
  moreover have "hostPolicyViolation sample_config ''h.ex'' None = None" by code_simp
  moreover have "\<not> isNonPublicAddress ''8.8.4.4''" by code_simp
  moreover have "resolve_host sample_resolver ''t1.h.ex'' = [''8.8.4.4'']" by code_simp
  moreover have "endpoints (platform sample_config) = []" by (simp add: sample_config_def sample_platform_def)
  ultimately have "assertPublicMongoHosts sample_config sample_resolver (Some ?p) = Inr ()"
    by (simp add: assertPublicMongoHosts_def seed_port_def seed_endpoints_def
        sample_resolver_def[THEN arg_cong[where f = resolveSrv]] answers_def with_port_def assertEgressAllowed_def)
  moreover have "\<not> allowPrivate sample_config" by (simp add: sample_config_def)
  moreover have "seed_endpoints sample_resolver ?p = [\<lparr>host = ''t1.h.ex'', port = Some 8\<rparr>]"
    by (simp add: seed_endpoints_def sample_resolver_def answers_def with_port_def)
  ultimately show ?thesis using mongo_hosts_public[of sample_config sample_resolver ?p] by simp
qed

text \<open>
  C35. Whatever name service answers at connect time, the guarded lookup hands the socket only
  addresses of that answer, at least one, all of them public when private networks are off, and only
  for a name the policy admits: a name that resolves differently after the pre-flight check gains nothing.
\<close>

theorem guarded_lookup_safe:
  assumes "guardedLookup cfg base all h = out" and "out = Dial (a, f) \<and> xs = [(a, f)] \<or> out = Dial_any xs"
  shows "xs \<noteq> [] \<and> hostPolicyViolation cfg h None = None
    \<and> (\<forall>x\<in>set xs. (allowPrivate cfg \<or> \<not> isNonPublicAddress (fst x))
         \<and> (case base h of Lookup_all ys \<Rightarrow> x \<in> set ys | Lookup_one b \<Rightarrow> fst x = b | Lookup_error _ \<Rightarrow> False))"
  using assms unfolding guardedLookup_def
proof (cases "base h")
  case (Lookup_all ys)
  then show ?thesis
    using assms hd_eq_in_set[of ys "(a, f)"] unfolding guardedLookup_def
    by (auto simp: Let_def list_ex_iff split: if_splits)
qed (use assms in \<open>auto simp: guardedLookup_def Let_def list_ex_iff split: if_splits\<close>)

theorem guarded_lookup_safe_witness:
  "\<not> isNonPublicAddress (fst (''8.8.4.4'', 4::nat)) \<and> hostPolicyViolation sample_config ''h.ex'' None = None"
proof -
  have "guardedLookup sample_config (\<lambda>_. Lookup_one ''8.8.4.4'') False ''h.ex'' = Dial (''8.8.4.4'', 4)"
    by code_simp
  from guarded_lookup_safe[OF this, of "''8.8.4.4''" 4 "[(''8.8.4.4'', 4)]"] show ?thesis
    by (simp add: sample_config_def)
qed

end
