(* ===== verification/WebhookVerify.thy ===== *)
theory WebhookVerify
  imports Prelude
begin

text \<open>
  \<open>src/modules/connectors/webhook/webhook.verify.js\<close>: signature headers, the timestamp window and
  the signature check. Bytes are characters. \<open>hmac secret payload\<close>, the hexadecimal HMAC-SHA256 of
  \<open>node:crypto\<close>, is an argument; a header map is a function from lower-case names.
\<close>

definition DEFAULT_TOLERANCE_SECONDS :: int where
  "DEFAULT_TOLERANCE_SECONDS = 300"

definition MAX_FUTURE_SKEW_SECONDS :: int where
  "MAX_FUTURE_SKEW_SECONDS = 60"

definition SIGNATURE_HEADER :: string where
  "SIGNATURE_HEADER = ''x-saas-signature''"

definition TIMESTAMP_HEADER :: string where
  "TIMESTAMP_HEADER = ''x-saas-timestamp''"

type_synonym headers = "string \<Rightarrow> string option"
type_synonym hmac = "string \<Rightarrow> string \<Rightarrow> string"

text \<open>\<open>SIGNATURE_VERSIONS\<close>: 1 (body only) and 2 (timestamp and body).\<close>

datatype sig_version = LEGACY | TIMESTAMPED

datatype sig_error =
    Signature_missing
  | Signature_malformed
  | Signature_invalid
  | Legacy_rejected
  | Timestamp_missing
  | Timestamp_invalid
  | Timestamp_out_of_window

section \<open>Signing\<close>

text \<open>A timestamp is printed as JavaScript prints a number or a numeric string.\<close>

definition signedPayload :: "string \<Rightarrow> string \<Rightarrow> string" where
  "signedPayload timestamp body = timestamp @ ''.'' @ body"

definition computeTimestampedSignature :: "hmac \<Rightarrow> string \<Rightarrow> string \<Rightarrow> string \<Rightarrow> string" where
  "computeTimestampedSignature hmac timestamp rawBody secret =
     ''v2='' @ hmac secret (signedPayload timestamp rawBody)"

definition computeSignature :: "hmac \<Rightarrow> string \<Rightarrow> string \<Rightarrow> string" where
  "computeSignature hmac rawBody secret = ''sha256='' @ hmac secret rawBody"

section \<open>Pre-checks\<close>

definition HEX64 :: "string \<Rightarrow> bool" where
  "HEX64 s \<longleftrightarrow> length s = 64 \<and> list_all (\<lambda>c. hex_digit c \<noteq> None) s"

definition blank :: "string option \<Rightarrow> bool" where
  "blank v = (case v of None \<Rightarrow> True | Some s \<Rightarrow> trim s = [])"

definition parse_candidate :: "string \<Rightarrow> (sig_error, sig_version \<times> string) res" where
  "parse_candidate part =
     (case split_on CHR ''='' (trim part) of
        [tag, hex] \<Rightarrow>
          if hex = [] \<or> \<not> HEX64 hex then Inl Signature_malformed
          else if tag = ''v2'' then Inr (TIMESTAMPED, to_lower hex)
          else if tag = ''sha256'' then Inr (LEGACY, to_lower hex)
          else Inl Signature_malformed
      | _ \<Rightarrow> Inl Signature_malformed)"

definition parseSignatureHeader :: "string option \<Rightarrow> (sig_error, (sig_version \<times> string) list) res" where
  "parseSignatureHeader value =
     (if blank value then Inl Signature_missing
      else case value of
        None \<Rightarrow> Inl Signature_missing
      | Some v \<Rightarrow>
          if 1024 < length v then Inl Signature_malformed
          else rmap parse_candidate (split_on CHR '','' v))"

definition parseTimestampHeader :: "string option \<Rightarrow> bool \<Rightarrow> (sig_error, int option) res" where
  "parseTimestampHeader value required =
     (if blank value then (if required then Inl Timestamp_missing else Inr None)
      else case value of
        None \<Rightarrow> Inr None
      | Some v \<Rightarrow>
          if digits_between 1 11 (trim v) then Inr (Some (int (dec_value (trim v)))) else Inl Timestamp_invalid)"

definition assertTimestampInWindow :: "int \<Rightarrow> int \<Rightarrow> int \<Rightarrow> (sig_error, unit) res" where
  "assertTimestampInWindow epochSeconds toleranceSeconds nowMs =
     (let ageSec = nowMs div 1000 - epochSeconds in
      if toleranceSeconds < ageSec \<or> ageSec < - MAX_FUTURE_SKEW_SECONDS then Inl Timestamp_out_of_window
      else Inr ())"

record precheck =
  version :: sig_version
  candidates :: "string list"
  stamp :: "int option"

definition of_version :: "sig_version \<Rightarrow> (sig_version \<times> string) list \<Rightarrow> string list" where
  "of_version v parsed = map snd (filter (\<lambda>c. fst c = v) parsed)"

definition precheckWebhookHeaders ::
  "headers \<Rightarrow> sig_version \<Rightarrow> int \<Rightarrow> bool \<Rightarrow> int \<Rightarrow> int \<Rightarrow> (sig_error, precheck) res" where
  "precheckWebhookHeaders hs connectorVersion toleranceSeconds legacyEnabled maxLegacyToleranceSeconds nowMs =
     rbind (parseSignatureHeader (hs SIGNATURE_HEADER)) (\<lambda>parsed.
       let v2 = of_version TIMESTAMPED parsed; v1 = of_version LEGACY parsed in
       if v2 \<noteq> [] then
         rbind (parseTimestampHeader (hs TIMESTAMP_HEADER) True) (\<lambda>ts.
           rbind (case ts of None \<Rightarrow> Inr () | Some t \<Rightarrow> assertTimestampInWindow t toleranceSeconds nowMs) (\<lambda>_.
             Inr \<lparr>version = TIMESTAMPED, candidates = v2, stamp = ts\<rparr>))
       else if connectorVersion = TIMESTAMPED \<or> \<not> legacyEnabled then Inl Legacy_rejected
       else
         rbind (parseTimestampHeader (hs TIMESTAMP_HEADER) False) (\<lambda>ts.
           rbind (case ts of None \<Rightarrow> Inr () | Some t \<Rightarrow> assertTimestampInWindow t maxLegacyToleranceSeconds nowMs) (\<lambda>_.
             Inr \<lparr>version = LEGACY, candidates = v1, stamp = ts\<rparr>)))"

section \<open>Verification\<close>

text \<open>\<open>Buffer.from(text, 'hex')\<close>: whole pairs up to the first character that is no hexadecimal digit.\<close>

fun hex_bytes :: "string \<Rightarrow> nat list" where
  "hex_bytes (a # b # s) =
     (case (hex_digit a, hex_digit b) of
        (Some x, Some y) \<Rightarrow> (16 * x + y) # hex_bytes s
      | _ \<Rightarrow> [])"
| "hex_bytes _ = []"

definition safeHexEqual :: "string \<Rightarrow> string \<Rightarrow> bool" where
  "safeHexEqual expectedHex givenHex =
     (let a = hex_bytes expectedHex; b = hex_bytes givenHex in length a = length b \<and> a = b)"

definition show_int :: "int \<Rightarrow> string" where
  "show_int n = (if n < 0 then CHR ''-'' # show_nat (nat (- n)) else show_nat (nat n))"

text \<open>The bytes a pre-checked request must have signed.\<close>

definition payload_of :: "precheck \<Rightarrow> string \<Rightarrow> string" where
  "payload_of pre rawBody =
     (case version pre of
        TIMESTAMPED \<Rightarrow> signedPayload (case stamp pre of None \<Rightarrow> ''null'' | Some t \<Rightarrow> show_int t) rawBody
      | LEGACY \<Rightarrow> rawBody)"

definition verifyPrechecked :: "hmac \<Rightarrow> precheck \<Rightarrow> string \<Rightarrow> string \<Rightarrow> (sig_error, string) res" where
  "verifyPrechecked hmac pre rawBody secret =
     (if secret = [] then Inl Signature_invalid
      else case List.find (safeHexEqual (hmac secret (payload_of pre rawBody))) (candidates pre) of
        None \<Rightarrow> Inl Signature_invalid
      | Some m \<Rightarrow> Inr m)"

section \<open>Legacy helpers\<close>

definition verifySignature :: "hmac \<Rightarrow> string \<Rightarrow> string option \<Rightarrow> string \<Rightarrow> bool \<times> string" where
  "verifySignature hmac rawBody signatureHeader secret =
     (if blank signatureHeader then (False, ''missing signature header'')
      else
        let parts = split_on CHR ''='' (trim (the signatureHeader)); algo = hd parts;
            expected = (if 2 \<le> length parts then parts ! 1 else [])
        in if algo \<noteq> ''sha256'' \<or> expected = [] then (False, ''unsupported signature algorithm'')
           else (hmac secret rawBody = expected, ''signature mismatch''))"

definition verifyTimestamp :: "string option \<Rightarrow> int \<Rightarrow> bool \<Rightarrow> int \<Rightarrow> bool" where
  "verifyTimestamp timestampHeader toleranceSeconds requireTimestamp nowMs =
     (if blank timestampHeader then \<not> requireTimestamp
      else case parse_int (the timestampHeader) of
        None \<Rightarrow> False
      | Some epoch \<Rightarrow>
          (let ageSec = nowMs div 1000 - epoch in
           \<not> (ageSec < - MAX_FUTURE_SKEW_SECONDS \<or> toleranceSeconds < ageSec)))"

definition verifyWebhook ::
  "hmac \<Rightarrow> string \<Rightarrow> headers \<Rightarrow> string \<Rightarrow> int \<Rightarrow> bool \<Rightarrow> int \<Rightarrow> (sig_error, unit) res" where
  "verifyWebhook hmac rawBody hs secret toleranceSeconds requireTimestamp nowMs =
     (if \<not> fst (verifySignature hmac rawBody (hs SIGNATURE_HEADER) secret) then Inl Signature_invalid
      else if \<not> verifyTimestamp (hs TIMESTAMP_HEADER) toleranceSeconds requireTimestamp nowMs then Inl Signature_invalid
      else Inr ())"

section \<open>Hexadecimal text\<close>

definition lower_hex :: "string \<Rightarrow> bool" where
  "lower_hex s \<longleftrightarrow> (\<forall>c\<in>set s. \<exists>d<16. c = digit_char d)"

lemma hex_bytes_length: "lower_hex s \<Longrightarrow> length (hex_bytes s) = length s div 2"
proof (induction s rule: hex_bytes.induct)
  case (1 a b s)
  then obtain x y where "x < 16" "y < 16" "a = digit_char x" "b = digit_char y" "lower_hex s"
    by (auto simp: lower_hex_def)
  then show ?case using 1 by (simp add: hex_digit_digit_char)
qed auto

lemma hex_bytes_inj:
  "lower_hex s \<Longrightarrow> lower_hex t \<Longrightarrow> even (length s) \<Longrightarrow> even (length t) \<Longrightarrow> hex_bytes s = hex_bytes t \<Longrightarrow> s = t"
proof (induction s arbitrary: t rule: induct_list012)
  case 1
  then show ?case using hex_bytes_length[of t] by auto
next
  case (3 a b s)
  obtain x y where x: "x < 16" "y < 16" "a = digit_char x" "b = digit_char y" "lower_hex s"
    using 3 by (auto simp: lower_hex_def)
  have ab: "hex_bytes (a # b # s) = (16 * x + y) # hex_bytes s"
    using x by (simp add: hex_digit_digit_char)
  then have "t \<noteq> []" "length t \<noteq> 1" using 3(4,6,7) by (auto simp: length_Suc_conv)
  then obtain c d u where t: "t = c # d # u" by (cases t rule: hex_bytes.cases) auto
  obtain z w where z: "z < 16" "w < 16" "c = digit_char z" "d = digit_char w" "lower_hex u"
    using 3(4) t by (auto simp: lower_hex_def)
  have e: "16 * x + y = 16 * z + w" "hex_bytes s = hex_bytes u"
    using 3(7) x z t by (simp_all add: hex_digit_digit_char)
  have "x = z" using e(1) x(1,2) z(1,2) by linarith
  moreover from this have "y = w" using e(1) by simp
  moreover have "s = u" using 3(1)[OF x(5) z(5)] 3(5,6) t e(2) by simp
  ultimately show ?case using x z t by simp
qed auto

lemma HEX64_lower: "HEX64 s \<Longrightarrow> lower_hex (to_lower s)"
proof -
  assume "HEX64 s"
  then have h: "\<forall>c\<in>set s. hex_digit c \<noteq> None" by (simp add: HEX64_def list_all_iff)
  have "\<exists>d<16. lower_char c = digit_char d" if h: "hex_digit c \<noteq> None" for c
  proof -
    from h obtain d where d: "hex_digit c = Some d" by blast
    then have "d < 16 \<and> code (lower_char c) = code (digit_char d)"
      by (auto simp: hex_digit_def is_digit_def code_lower_char is_upper_def code_digit_char split: if_splits)
    then show ?thesis by (auto simp: code_inj)
  qed
  then show ?thesis using h by (auto simp: lower_hex_def to_lower_def)
qed

lemma safeHexEqual_refl: "safeHexEqual h h"
  by (simp add: safeHexEqual_def)

section \<open>Timestamps\<close>

lemma show_int_no_dot: "CHR ''.'' \<notin> set (show_int n)"
  by (simp add: show_int_def show_nat_no_char)

lemma show_int_inj: "show_int m = show_int n \<Longrightarrow> m = n"
proof -
  assume e: "show_int m = show_int n"
  have minus: "show_nat k \<noteq> CHR ''-'' # t" for k t
    using show_nat_no_char[of "CHR ''-''" k] by auto
  have inj: "show_nat k = show_nat l \<Longrightarrow> k = l" for k l by (metis dec_value_show_nat)
  show ?thesis
    using e minus by (auto simp: show_int_def dest!: inj split: if_splits) (metis minus)+
qed

lemma signedPayload_inj:
  assumes "signedPayload (show_int t) b = signedPayload (show_int t') b'"
  shows "t = t' \<and> b = b'"
proof -
  have s: "split_on CHR ''.'' (signedPayload (show_int n) c) = show_int n # split_on CHR ''.'' c" for n c
    using split_on_append_sep[OF show_int_no_dot, of n c] by (simp add: signedPayload_def)
  have "show_int t = show_int t'" "split_on CHR ''.'' b = split_on CHR ''.'' b'"
    using s[of t b] s[of t' b'] assms by simp_all
  then show ?thesis using show_int_inj join_split_on by metis
qed

lemma precheck_v2:
  assumes "precheckWebhookHeaders hs cv tol legacy maxl now = Inr pre" and "cv = TIMESTAMPED \<or> \<not> legacy"
  obtains parsed t where "parseSignatureHeader (hs SIGNATURE_HEADER) = Inr parsed"
    "version pre = TIMESTAMPED" "candidates pre = of_version TIMESTAMPED parsed" "stamp pre = Some t"
    "parseTimestampHeader (hs TIMESTAMP_HEADER) True = Inr (Some t)" "assertTimestampInWindow t tol now = Inr ()"
proof -
  have req: "parseTimestampHeader v True \<noteq> Inr None" for v
    by (auto simp: parseTimestampHeader_def blank_def split: option.splits)
  show thesis
    using assms req[of "hs TIMESTAMP_HEADER"] that
    by (fastforce simp: precheckWebhookHeaders_def Let_def split: if_splits option.splits)
qed

lemma window_iff:
  "assertTimestampInWindow t tol now = Inr () \<longleftrightarrow> now div 1000 - t \<le> tol \<and> - MAX_FUTURE_SKEW_SECONDS \<le> now div 1000 - t"
  by (auto simp: assertTimestampInWindow_def Let_def)

lemma find_Some: "List.find P xs = Some y \<Longrightarrow> y \<in> set xs \<and> P y"
  by (induction xs) (auto split: if_splits)

lemma verify_Inr:
  assumes "verifyPrechecked hmac pre body secret = Inr m"
  shows "secret \<noteq> [] \<and> m \<in> set (candidates pre) \<and> safeHexEqual (hmac secret (payload_of pre body)) m"
  using assms find_Some[of _ "candidates pre" m]
  by (auto simp: verifyPrechecked_def split: if_splits option.splits)

lemma parse_candidate_Inr: "parse_candidate p = Inr c \<Longrightarrow> \<exists>h. HEX64 h \<and> snd c = to_lower h"
  by (auto simp: parse_candidate_def split: list.splits if_splits)

lemma parsed_lower_hex:
  assumes "parseSignatureHeader v = Inr parsed" "c \<in> set parsed"
  shows "lower_hex (snd c) \<and> length (snd c) = 64"
proof -
  obtain s where "rmap parse_candidate (split_on CHR '','' s) = Inr parsed"
    using assms(1) by (auto simp: parseSignatureHeader_def split: if_splits option.splits)
  then obtain h where "HEX64 h" "snd c = to_lower h"
    using rmap_Inr_set[of parse_candidate _ parsed c] parse_candidate_Inr assms(2) by metis
  then show ?thesis using HEX64_lower[of h] by (simp add: HEX64_def)
qed

text \<open>
  C33. No downgrade: once timestamps are required (a version-2 connector, or legacy signatures
  switched off) every accepted request carries a timestamp inside the window, and one of its
  \<open>v2\<close> candidates is the HMAC, under the connector's non-empty secret, of exactly that timestamp
  and the received body.
\<close>

theorem webhook_accepts_signed_time:
  assumes "precheckWebhookHeaders hs cv tol legacy maxl now = Inr pre"
    and "cv = TIMESTAMPED \<or> \<not> legacy" and "verifyPrechecked hmac pre body secret = Inr m"
    and "\<And>p. lower_hex (hmac secret p) \<and> length (hmac secret p) = 64"
  shows "\<exists>t parsed. parseTimestampHeader (hs TIMESTAMP_HEADER) True = Inr (Some t)
    \<and> - 60 \<le> now div 1000 - t \<and> now div 1000 - t \<le> tol \<and> secret \<noteq> []
    \<and> m = hmac secret (signedPayload (show_int t) body)
    \<and> parseSignatureHeader (hs SIGNATURE_HEADER) = Inr parsed \<and> (TIMESTAMPED, m) \<in> set parsed"
proof -
  from precheck_v2[OF assms(1,2)] obtain parsed t where p:
    "parseSignatureHeader (hs SIGNATURE_HEADER) = Inr parsed"
    "version pre = TIMESTAMPED" "candidates pre = of_version TIMESTAMPED parsed" "stamp pre = Some t"
    "parseTimestampHeader (hs TIMESTAMP_HEADER) True = Inr (Some t)" "assertTimestampInWindow t tol now = Inr ()" .
  have pay: "payload_of pre body = signedPayload (show_int t) body" using p by (simp add: payload_of_def)
  have v: "secret \<noteq> []" "m \<in> set (candidates pre)" "safeHexEqual (hmac secret (signedPayload (show_int t) body)) m"
    using verify_Inr[OF assms(3)] pay by simp_all
  then have m: "(TIMESTAMPED, m) \<in> set parsed" using p(3) by (auto simp: of_version_def)
  have "m = hmac secret (signedPayload (show_int t) body)"
    using v(3) parsed_lower_hex[OF p(1) m] assms(4)[of "signedPayload (show_int t) body"]
    by (intro hex_bytes_inj[symmetric]) (simp_all add: safeHexEqual_def Let_def)
  then show ?thesis
    using p(5,6) v(1) m p(1) by (intro exI[of _ t] exI[of _ parsed]) (simp add: window_iff MAX_FUTURE_SKEW_SECONDS_def)
qed

definition sample_hmac :: hmac where
  "sample_hmac secret p = replicate 63 (digit_char 10) @ [digit_char ((length secret + length p) mod 16)]"

lemma sample_hmac_hex: "lower_hex (sample_hmac s p) \<and> length (sample_hmac s p) = 64"
proof -
  have "\<exists>d<16. digit_char (n mod 16) = digit_char d" for n :: nat
    by (rule exI[of _ "n mod 16"]) simp
  moreover have "\<exists>d<16. digit_char 10 = digit_char d" by (rule exI[of _ 10]) simp
  ultimately show ?thesis by (simp add: sample_hmac_def lower_hex_def)
qed

lemma lower_hex_char:
  assumes "lower_hex s" "c \<in> set s"
  shows "c \<noteq> CHR '','' \<and> c \<noteq> CHR ''='' \<and> \<not> is_space c \<and> \<not> is_upper c \<and> hex_digit c \<noteq> None"
proof -
  obtain d where d: "d < 16" "c = digit_char d" using assms by (auto simp: lower_hex_def)
  have k: "code CHR '','' = 44" "code CHR ''='' = 61" by (simp_all add: code_def)
  have "code c \<noteq> 44" "code c \<noteq> 61" "\<not> is_space c" "\<not> is_upper c"
    using d by (auto simp: code_digit_char is_space_def is_upper_def)
  then show ?thesis using d(1) hex_digit_digit_char[of d] unfolding d(2) k[symmetric] by auto
qed

lemma lower_hex_id:
  assumes "lower_hex s" "length s = 64"
  shows "HEX64 s" "to_lower s = s" "CHR '','' \<notin> set s" "CHR ''='' \<notin> set s" "\<forall>c\<in>set s. \<not> is_space c"
  using assms lower_hex_char[OF assms(1)]
  by (auto simp: HEX64_def list_all_iff to_lower_def lower_char_def intro: map_idI)

lemma parse_own_signature:
  assumes "lower_hex h" "length h = 64"
  shows "parseSignatureHeader (Some (''v2='' @ h)) = Inr [(TIMESTAMPED, h)]"
proof -
  note h = lower_hex_id[OF assms]
  have t: "trim (''v2='' @ h) = ''v2='' @ h"
    using h(5) by (intro trim_no_space) (auto simp: is_space_def code_def)
  have "split_on CHR '','' (''v2='' @ h) = [''v2='' @ h]" using h(3) by (intro split_on_absent) simp
  moreover have "split_on CHR ''='' (''v2='' @ h) = [''v2'', h]" using h(4) by (simp add: split_on_absent)
  ultimately show ?thesis
    using assms(2) h(1,2) t by (auto simp: parseSignatureHeader_def blank_def parse_candidate_def)
qed

lemma parse_own_timestamp:
  assumes "0 \<le> t" "t < 10 ^ 11"
  shows "parseTimestampHeader (Some (show_int t)) b = Inr (Some t)"
proof -
  let ?s = "show_nat (nat t)"
  have d: "\<forall>c\<in>set ?s. is_digit c" by (rule show_nat_digits)
  then have t: "trim ?s = ?s" by (intro trim_no_space) (simp add: is_digit_not_space)
  have "nat t < 10 ^ 11" using assms by (simp add: nat_less_iff)
  then have "length ?s \<le> 11" unfolding show_nat_def by (intro length_to_base) simp_all
  moreover have "?s \<noteq> []" by (simp add: show_nat_def)
  ultimately have "digits_between 1 11 ?s" using d by (cases ?s) (simp_all add: digits_between_def list_all_iff)
  then show ?thesis
    using assms t \<open>?s \<noteq> []\<close> by (simp add: parseTimestampHeader_def blank_def show_int_def)
qed

text \<open>
  What \<open>computeTimestampedSignature\<close> produces is accepted: a sender that signs the body it sends
  with the current time passes both checks, whatever version the connector has.
\<close>

theorem webhook_own_signature_accepted:
  assumes "hs SIGNATURE_HEADER = Some (computeTimestampedSignature hmac (show_int t) body secret)"
    and "hs TIMESTAMP_HEADER = Some (show_int t)" and "0 \<le> t" and "t < 10 ^ 11"
    and "- 60 \<le> now div 1000 - t" and "now div 1000 - t \<le> tol" and "secret \<noteq> []"
    and hex: "\<And>p. lower_hex (hmac secret p) \<and> length (hmac secret p) = 64"
  shows "\<exists>pre. precheckWebhookHeaders hs cv tol legacy maxl now = Inr pre
    \<and> verifyPrechecked hmac pre body secret = Inr (hmac secret (signedPayload (show_int t) body))"
proof -
  let ?h = "hmac secret (signedPayload (show_int t) body)"
  have "parseSignatureHeader (hs SIGNATURE_HEADER) = Inr [(TIMESTAMPED, ?h)]"
    using assms(1) parse_own_signature[of ?h] hex by (simp add: computeTimestampedSignature_def)
  moreover have "parseTimestampHeader (hs TIMESTAMP_HEADER) True = Inr (Some t)"
    using assms(2) parse_own_timestamp[OF assms(3,4)] by simp
  moreover have "assertTimestampInWindow t tol now = Inr ()"
    using assms(5,6) by (simp add: window_iff MAX_FUTURE_SKEW_SECONDS_def)
  ultimately have "precheckWebhookHeaders hs cv tol legacy maxl now
      = Inr \<lparr>version = TIMESTAMPED, candidates = [?h], stamp = Some t\<rparr>"
    by (simp add: precheckWebhookHeaders_def of_version_def Let_def)
  moreover have "verifyPrechecked hmac \<lparr>version = TIMESTAMPED, candidates = [?h], stamp = Some t\<rparr> body secret = Inr ?h"
    using assms(7) by (simp add: verifyPrechecked_def payload_of_def safeHexEqual_refl)
  ultimately show ?thesis by blast
qed

text \<open>
  The matched signature identifies the delivery: when the HMAC does not collide on the two
  payloads, two version-2 requests accepted under one secret with the same signature carry the same
  timestamp and the same body, so neither the time nor the body of a captured delivery can be changed.
\<close>

theorem webhook_signature_binds:
  assumes "verifyPrechecked hmac \<lparr>version = TIMESTAMPED, candidates = cs, stamp = Some t\<rparr> body secret = Inr m"
    and "verifyPrechecked hmac \<lparr>version = TIMESTAMPED, candidates = cs', stamp = Some t'\<rparr> body' secret = Inr m"
    and "\<And>p. lower_hex (hmac secret p) \<and> length (hmac secret p) = 64"
    and "hmac secret (signedPayload (show_int t) body) = hmac secret (signedPayload (show_int t') body')
      \<Longrightarrow> signedPayload (show_int t) body = signedPayload (show_int t') body'"
  shows "t = t' \<and> body = body'"
proof -
  let ?h = "hmac secret (signedPayload (show_int t) body)" and ?h' = "hmac secret (signedPayload (show_int t') body')"
  have "hex_bytes ?h = hex_bytes m" "hex_bytes ?h' = hex_bytes m"
    using verify_Inr[OF assms(1)] verify_Inr[OF assms(2)]
    by (simp_all add: payload_of_def safeHexEqual_def Let_def)
  then have "?h = ?h'"
    using assms(3)[of "signedPayload (show_int t) body"] assms(3)[of "signedPayload (show_int t') body'"]
    by (intro hex_bytes_inj) simp_all
  then show ?thesis using assms(4) signedPayload_inj by blast
qed

definition sample_headers :: headers where
  "sample_headers = (\<lambda>n. if n = SIGNATURE_HEADER
       then Some (computeTimestampedSignature sample_hmac (show_int 1000) ''{}'' ''k'')
     else if n = TIMESTAMP_HEADER then Some (show_int 1000) else None)"

lemma sample_headers_at:
  "sample_headers SIGNATURE_HEADER = Some (computeTimestampedSignature sample_hmac (show_int 1000) ''{}'' ''k'')"
  "sample_headers TIMESTAMP_HEADER = Some (show_int 1000)"
  by (simp_all add: sample_headers_def SIGNATURE_HEADER_def TIMESTAMP_HEADER_def)

theorem webhook_own_signature_accepted_witness:
  "\<exists>pre. precheckWebhookHeaders sample_headers TIMESTAMPED 300 False 3600 1200000 = Inr pre
    \<and> verifyPrechecked sample_hmac pre ''{}'' ''k'' = Inr (sample_hmac ''k'' (signedPayload (show_int 1000) ''{}''))"
  by (rule webhook_own_signature_accepted) (simp_all add: sample_headers_at sample_hmac_hex)

lemma sample_precheck:
  "precheckWebhookHeaders sample_headers TIMESTAMPED 300 False 3600 1200000
     = Inr \<lparr>version = TIMESTAMPED, candidates = [sample_hmac ''k'' (signedPayload (show_int 1000) ''{}'')], stamp = Some 1000\<rparr>"
  using parse_own_signature[of "sample_hmac ''k'' (signedPayload (show_int 1000) ''{}'')"] parse_own_timestamp[of 1000 True]
  by (simp add: precheckWebhookHeaders_def sample_headers_at computeTimestampedSignature_def sample_hmac_hex
      of_version_def Let_def window_iff MAX_FUTURE_SKEW_SECONDS_def)

lemma sample_verified:
  "verifyPrechecked sample_hmac
     \<lparr>version = TIMESTAMPED, candidates = [sample_hmac ''k'' (signedPayload (show_int 1000) ''{}'')], stamp = Some 1000\<rparr> ''{}'' ''k''
   = Inr (sample_hmac ''k'' (signedPayload (show_int 1000) ''{}''))"
  by (simp add: verifyPrechecked_def payload_of_def safeHexEqual_refl)

theorem webhook_accepts_signed_time_witness:
  "\<exists>t. parseTimestampHeader (sample_headers TIMESTAMP_HEADER) True = Inr (Some t) \<and> 1200 - t \<le> 300"
  using webhook_accepts_signed_time[OF sample_precheck _ sample_verified sample_hmac_hex] by auto

theorem webhook_signature_binds_witness:
  "\<exists>m. verifyPrechecked sample_hmac
       \<lparr>version = TIMESTAMPED, candidates = [sample_hmac ''k'' (signedPayload (show_int 1000) ''{}'')], stamp = Some 1000\<rparr>
       ''{}'' ''k'' = Inr m
     \<and> (1000::int) = 1000 \<and> ''{}'' = ''{}''"
  using sample_verified webhook_signature_binds[OF sample_verified sample_verified sample_hmac_hex refl] by blast

end
