(* ===== verification/Json.thy ===== *)
theory Json
  imports Prelude
begin

text \<open>
  JSON values as the components exchange them: numbers are rationals, an object is its list of
  properties in insertion order. Reading a missing property is \<open>undefined\<close>, written \<open>None\<close>.
\<close>

datatype json =
    JNull
  | JBool bool
  | JNum rat
  | JStr string
  | JArr "json list"
  | JObj "(string \<times> json) list"

fun get_prop :: "string \<Rightarrow> json \<Rightarrow> json option" where
  "get_prop k (JObj ps) = map_of ps k"
| "get_prop k v = None"

fun is_object :: "json \<Rightarrow> bool" where
  "is_object (JObj ps) = True"
| "is_object v = False"

fun is_array :: "json \<Rightarrow> bool" where
  "is_array (JArr xs) = True"
| "is_array v = False"

fun truthy :: "json \<Rightarrow> bool" where
  "truthy JNull = False"
| "truthy (JBool b) = b"
| "truthy (JNum n) = (n \<noteq> 0)"
| "truthy (JStr s) = (s \<noteq> [])"
| "truthy (JArr xs) = True"
| "truthy (JObj ps) = True"

lemma size_get_prop: "get_prop k v = Some w \<Longrightarrow> size w < size v"
proof (induction k v rule: get_prop.induct)
  case (1 k ps)
  then have "(k, w) \<in> set ps" by (auto dest: map_of_SomeD)
  then have "size w < size_list (size_prod (\<lambda>x. 0) size) ps + 1"
    by (induction ps) auto
  then show ?case by simp
qed simp_all

end
