(* ===== verification/WebhookIntake.thy ===== *)
theory WebhookIntake
  imports WebhookVerify MemoryCache Json
begin

text \<open>
  \<open>handleWebhook\<close> of \<open>src/services/connector.service.js\<close> with the replay store of
  \<open>webhook.replay.js\<close> on the in-memory cache driver and the normalisation of
  \<open>webhook.connector.js\<close>. The connector repository, the decrypted configuration, \<open>JSON.parse\<close>, the
  hash and the answers of the usage ledger, of the queue and of the cache are arguments: a call that fails may
  have taken effect all the same, and the two undo steps after a failure may fail themselves. The clock is read three times, at the
  pre-check, the exact check and the claim. \<open>key_loads\<close> counts the requests for the signing key.
\<close>

section \<open>State and inputs\<close>

record connector_doc =
  c_id :: string
  c_type :: string
  c_paused :: bool
  c_tenant_active :: bool
  c_sig_version :: "sig_version option"
  c_window :: "int option"

record webhook_config =
  signingSecret :: string
  toleranceSeconds :: "int option"
  requireTimestamp :: bool

record intake_env =
  maxBodyBytes :: nat
  maxRecords :: nat
  legacySignaturesEnabled :: bool
  webhookToleranceSeconds :: int

text \<open>The answers of \<open>usageService.reserve\<close> and of \<open>connectorQueue.enqueue\<close>. A call that fails says, in its
  argument, whether the reservation or the message is stored nevertheless.\<close>

datatype reserve_answer = Reserve_ok | Reserve_refused | Reserve_fails bool

datatype queue_answer = Queue_ok | Queue_fails bool

record services =
  findByWebhookToken :: "string \<Rightarrow> connector_doc option"
  decryptConfig :: "connector_doc \<Rightarrow> webhook_config"
  JSON_parse :: "string \<Rightarrow> json option"
  sha256 :: "string \<Rightarrow> string"
  hmac256 :: hmac
  reserve_call :: "(string \<times> nat) list \<Rightarrow> nat \<Rightarrow> reserve_answer"
  enqueue_call :: queue_answer
  cancel_works :: bool
  cache_up :: bool
  release_works :: bool

record intake =
  replay :: "nat cache"
  reservations :: "(string \<times> nat) list"
  enqueued :: "(string \<times> json list) list"
  key_loads :: nat

datatype intake_error =
    Bad_signature sig_error
  | Unsupported_media_type
  | Payload_invalid
  | Payload_too_large
  | Connector_paused
  | Tenant_not_active
  | Replay_check_unavailable
  | Replayed
  | Too_many_records
  | Quota_exceeded
  | Ledger_unavailable
  | Queue_unavailable

section \<open>Replay store\<close>

definition keyFor :: "(string \<Rightarrow> string) \<Rightarrow> string \<Rightarrow> string \<Rightarrow> string" where
  "keyFor hash connectorId signature =
     ''webhook:replay:'' @ connectorId @ '':'' @ take 32 (hash (connectorId @ '':'' @ signature))"

definition claimDelivery ::
  "services \<Rightarrow> int \<Rightarrow> string \<Rightarrow> string \<Rightarrow> int \<Rightarrow> nat cache \<Rightarrow> (intake_error, nat cache \<times> bool) res" where
  "claimDelivery sv now connectorId signature ttlSeconds c =
     (if \<not> cache_up sv then Inl Replay_check_unavailable
      else case cache_setIfAbsent now (keyFor (sha256 sv) connectorId signature) (CNum 1) (Some (max 1 ttlSeconds)) c of
        Inl _ \<Rightarrow> Inl Replay_check_unavailable
      | Inr r \<Rightarrow> Inr r)"

definition releaseDelivery :: "services \<Rightarrow> string \<Rightarrow> string \<Rightarrow> nat cache \<Rightarrow> nat cache" where
  "releaseDelivery sv connectorId signature c =
     (if \<not> release_works sv then c
      else case cache_del (keyFor (sha256 sv) connectorId signature) c of Inl _ \<Rightarrow> c | Inr (c', _) \<Rightarrow> c')"

section \<open>Request shape\<close>

definition WEBHOOK_TOKEN_RE :: "string \<Rightarrow> bool" where
  "WEBHOOK_TOKEN_RE s \<longleftrightarrow> 20 \<le> length s \<and> length s \<le> 128
     \<and> list_all (\<lambda>c. is_alnum c \<or> c = CHR ''_'' \<or> c = CHR ''-'') s"

definition json_tail :: "string \<Rightarrow> bool" where
  "json_tail s =
     (case strip_prefix ''json'' s of
        None \<Rightarrow> False
      | Some t \<Rightarrow> (let u = dropWhile is_space t in u = [] \<or> hd u = CHR '';''))"

definition subtype_char :: "char \<Rightarrow> bool" where
  "subtype_char c \<longleftrightarrow> is_alnum c \<or> c \<in> {CHR ''_'', CHR ''.'', CHR ''+'', CHR ''-''}"

definition JSON_CONTENT_TYPE_RE :: "string \<Rightarrow> bool" where
  "JSON_CONTENT_TYPE_RE s =
     (case strip_prefix ''application/'' (to_lower s) of
        None \<Rightarrow> False
      | Some r \<Rightarrow> json_tail r
          \<or> list_ex (\<lambda>i. list_all subtype_char (take i r) \<and> r ! i = CHR ''+'' \<and> json_tail (drop (Suc i) r)) [1..<length r])"

text \<open>\<open>WebhookConnector.ingest\<close>.\<close>

fun array_prop :: "string \<Rightarrow> json \<Rightarrow> json list option" where
  "array_prop k v = (case get_prop k v of Some (JArr xs) \<Rightarrow> Some xs | _ \<Rightarrow> None)"

definition ingest :: "json \<Rightarrow> json list" where
  "ingest payload =
     (case payload of
        JNull \<Rightarrow> []
      | JArr xs \<Rightarrow> xs
      | JObj ps \<Rightarrow>
          (case array_prop ''events'' payload of
             Some xs \<Rightarrow> xs
           | None \<Rightarrow> (case array_prop ''data'' payload of Some xs \<Rightarrow> xs | None \<Rightarrow> [payload]))
      | _ \<Rightarrow> [JObj [(''value'', payload)]])"

section \<open>The handler\<close>

definition MAX_WEBHOOK_TOLERANCE_SECONDS :: int where
  "MAX_WEBHOOK_TOLERANCE_SECONDS = 3600"

definition connector_version :: "connector_doc \<Rightarrow> sig_version" where
  "connector_version cn = (case c_sig_version cn of None \<Rightarrow> LEGACY | Some v \<Rightarrow> v)"

definition effective_window :: "intake_env \<Rightarrow> connector_doc \<Rightarrow> webhook_config \<Rightarrow> int" where
  "effective_window ev cn config =
     (case c_window cn of
        Some w \<Rightarrow> w
      | None \<Rightarrow> (case toleranceSeconds config of Some w \<Rightarrow> w | None \<Rightarrow> webhookToleranceSeconds ev))"

definition precheck_window :: "intake_env \<Rightarrow> connector_doc \<Rightarrow> int" where
  "precheck_window ev cn =
     (case c_window cn of
        Some w \<Rightarrow> w
      | None \<Rightarrow> if connector_version cn = TIMESTAMPED then webhookToleranceSeconds ev else MAX_WEBHOOK_TOLERANCE_SECONDS)"

text \<open>Steps 1 to 7: everything that needs no key.\<close>

definition admit ::
  "intake_env \<Rightarrow> services \<Rightarrow> string \<Rightarrow> string \<Rightarrow> headers \<Rightarrow> int \<Rightarrow> (intake_error, connector_doc \<times> precheck) res" where
  "admit ev sv webhookToken rawBody hs now =
     (if \<not> WEBHOOK_TOKEN_RE webhookToken then Inl (Bad_signature Signature_invalid)
      else if \<not> JSON_CONTENT_TYPE_RE (case hs ''content-type'' of None \<Rightarrow> [] | Some v \<Rightarrow> v) then Inl Unsupported_media_type
      else if rawBody = [] then Inl Payload_invalid
      else if maxBodyBytes ev < length rawBody then Inl Payload_too_large
      else case findByWebhookToken sv webhookToken of
        None \<Rightarrow> Inl (Bad_signature Signature_invalid)
      | Some cn \<Rightarrow>
          if c_type cn \<noteq> ''webhook'' then Inl (Bad_signature Signature_invalid)
          else if c_paused cn then Inl Connector_paused
          else if \<not> c_tenant_active cn then Inl Tenant_not_active
          else
            (case precheckWebhookHeaders hs (connector_version cn)
                    (precheck_window ev cn)
                    (legacySignaturesEnabled ev) MAX_WEBHOOK_TOLERANCE_SECONDS now of
               Inl e \<Rightarrow> Inl (Bad_signature e)
             | Inr pre \<Rightarrow> Inr (cn, pre)))"

text \<open>Steps 8 and 9: the exact window and the HMAC.\<close>

definition authenticate ::
  "intake_env \<Rightarrow> services \<Rightarrow> connector_doc \<Rightarrow> precheck \<Rightarrow> string \<Rightarrow> int \<Rightarrow> (sig_error, string) res" where
  "authenticate ev sv cn pre rawBody now =
     (let config = decryptConfig sv cn in
      if version pre = LEGACY \<and> stamp pre = None \<and> requireTimestamp config then Inl Timestamp_missing
      else
        rbind (case stamp pre of None \<Rightarrow> Inr () | Some t \<Rightarrow> assertTimestampInWindow t (effective_window ev cn config) now)
          (\<lambda>_. verifyPrechecked (hmac256 sv) pre rawBody (signingSecret config)))"

text \<open>Steps 11 to 13, after the claim: the error of a payload keeps the claim, any other one gives it back, and
  a failure after the reservation cancels it. Both undo steps swallow their own errors.\<close>

definition deliver ::
  "intake_env \<Rightarrow> services \<Rightarrow> string \<Rightarrow> string \<Rightarrow> string \<Rightarrow> string \<Rightarrow> intake \<Rightarrow> intake \<times> (intake_error, nat) res" where
  "deliver ev sv connectorId signature jobId rawBody s =
     (case JSON_parse sv rawBody of
        None \<Rightarrow> (s, Inl Payload_invalid)
      | Some payload \<Rightarrow>
          (let records = ingest payload; n = length records;
               release = (\<lambda>s. s\<lparr>replay := releaseDelivery sv connectorId signature (replay s)\<rparr>);
               reserved = s\<lparr>reservations := reservations s @ [(jobId, n)]\<rparr> in
           if maxRecords ev < n then (s, Inl Too_many_records)
           else if n = 0 then (s, Inr 0)
           else
             (case reserve_call sv (reservations s) n of
                Reserve_refused \<Rightarrow> (release s, Inl Quota_exceeded)
              | Reserve_fails stored \<Rightarrow> (release (if stored then reserved else s), Inl Ledger_unavailable)
              | Reserve_ok \<Rightarrow>
                  (let queued = reserved\<lparr>enqueued := enqueued s @ [(jobId, records)]\<rparr> in
                   case enqueue_call sv of
                     Queue_ok \<Rightarrow> (queued, Inr n)
                   | Queue_fails took \<Rightarrow>
                       (let s1 = release (if took then queued else reserved) in
                        (if cancel_works sv then s1\<lparr>reservations := alist_del jobId (reservations s1)\<rparr> else s1,
                         Inl Queue_unavailable))))))"

definition handleWebhook ::
  "intake_env \<Rightarrow> services \<Rightarrow> string \<Rightarrow> string \<Rightarrow> headers \<Rightarrow> string \<Rightarrow> int \<times> int \<times> int \<Rightarrow> intake
     \<Rightarrow> intake \<times> (intake_error, nat \<times> sig_version) res" where
  "handleWebhook ev sv webhookToken rawBody hs jobId clk s =
     (case clk of (t0, t1, t2) \<Rightarrow>
      (case admit ev sv webhookToken rawBody hs t0 of
         Inl e \<Rightarrow> (s, Inl e)
       | Inr (cn, pre) \<Rightarrow>
           (let s1 = s\<lparr>key_loads := Suc (key_loads s)\<rparr> in
            case authenticate ev sv cn pre rawBody t1 of
              Inl e \<Rightarrow> (s1, Inl (Bad_signature e))
            | Inr signature \<Rightarrow>
                (case claimDelivery sv t2 (c_id cn) signature
                        (effective_window ev cn (decryptConfig sv cn) + MAX_FUTURE_SKEW_SECONDS + 60) (replay s1) of
                   Inl e \<Rightarrow> (s1, Inl e)
                 | Inr (c, fresh) \<Rightarrow>
                     if \<not> fresh then (s1\<lparr>replay := c\<rparr>, Inl Replayed)
                     else
                       (case deliver ev sv (c_id cn) signature jobId rawBody (s1\<lparr>replay := c\<rparr>) of
                          (s2, Inl e) \<Rightarrow> (s2, Inl e)
                        | (s2, Inr n) \<Rightarrow> (s2, Inr (n, version pre)))))))"

section \<open>Claims\<close>

lemma keyFor_not_Nil [simp]: "keyFor h c g \<noteq> []"
  by (simp add: keyFor_def)

lemma claimDelivery_Inr:
  assumes "claimDelivery sv now cid sig ttl c = Inr (c', fresh)"
  shows "fresh = (live c now (keyFor (sha256 sv) cid sig) = None)"
    and "fresh \<Longrightarrow> now \<le> t \<Longrightarrow> live c' t (keyFor (sha256 sv) cid sig) = (if alive (Some (max 1 ttl)) now t then Some (CNum 1) else None)"
proof -
  have e: "cache_setIfAbsent now (keyFor (sha256 sv) cid sig) (CNum 1) (Some (max 1 ttl)) c = Inr (c', fresh)"
    using assms by (auto simp: claimDelivery_def split: if_splits sum.splits)
  note law = memory.claim_law[of "keyFor (sha256 sv) cid sig" now "CNum 1" "Some (max 1 ttl)" c]
  show "fresh = (live c now (keyFor (sha256 sv) cid sig) = None)" using law e by auto
  then show "fresh \<Longrightarrow> now \<le> t \<Longrightarrow> live c' t (keyFor (sha256 sv) cid sig) = (if alive (Some (max 1 ttl)) now t then Some (CNum 1) else None)"
    using law e by auto
qed

lemma releaseDelivery_live: "release_works sv \<Longrightarrow> live (releaseDelivery sv cid sig c) t (keyFor (sha256 sv) cid sig) = None"
proof -
  obtain c' b where "cache_del (keyFor (sha256 sv) cid sig) c = Inr (c', b)"
    "live c' t (keyFor (sha256 sv) cid sig) = None"
    using memory.del_law[of "keyFor (sha256 sv) cid sig" c] by auto
  then show "release_works sv \<Longrightarrow> ?thesis" by (simp add: releaseDelivery_def)
qed

text \<open>The stages a run of the handler went through.\<close>

lemma handle_cases:
  assumes "handleWebhook ev sv tok body hs job (t0, t1, t2) s = (s', r)"
  obtains
    (refused) e where "admit ev sv tok body hs t0 = Inl e" "s' = s" "r = Inl e"
  | (unauthenticated) cn pre e where "admit ev sv tok body hs t0 = Inr (cn, pre)"
      "authenticate ev sv cn pre body t1 = Inl e" "s' = s\<lparr>key_loads := Suc (key_loads s)\<rparr>" "r = Inl (Bad_signature e)"
  | (unclaimed) cn pre e where "admit ev sv tok body hs t0 = Inr (cn, pre)"
      "s' = s\<lparr>key_loads := Suc (key_loads s)\<rparr>" "r = Inl Replay_check_unavailable"
  | (replayed) cn pre sig c where "admit ev sv tok body hs t0 = Inr (cn, pre)"
      "authenticate ev sv cn pre body t1 = Inr sig"
      "claimDelivery sv t2 (c_id cn) sig (effective_window ev cn (decryptConfig sv cn) + MAX_FUTURE_SKEW_SECONDS + 60) (replay s) = Inr (c, False)"
      "s' = s\<lparr>key_loads := Suc (key_loads s), replay := c\<rparr>" "r = Inl Replayed"
  | (delivered) cn pre sig c where "admit ev sv tok body hs t0 = Inr (cn, pre)"
      "authenticate ev sv cn pre body t1 = Inr sig"
      "claimDelivery sv t2 (c_id cn) sig (effective_window ev cn (decryptConfig sv cn) + MAX_FUTURE_SKEW_SECONDS + 60) (replay s) = Inr (c, True)"
      "s' = fst (deliver ev sv (c_id cn) sig job body (s\<lparr>key_loads := Suc (key_loads s), replay := c\<rparr>))"
      "r = map_sum id (\<lambda>n. (n, version pre)) (snd (deliver ev sv (c_id cn) sig job body (s\<lparr>key_loads := Suc (key_loads s), replay := c\<rparr>)))"
proof -
  have unav: "claimDelivery sv t2 x y z w = Inl e \<Longrightarrow> e = Replay_check_unavailable" for x y z w e
    by (auto simp: claimDelivery_def split: if_splits sum.splits)
  show thesis
  proof (cases "admit ev sv tok body hs t0")
    case (Inl e)
    then show thesis using assms refused by (simp add: handleWebhook_def)
  next
    case (Inr cp)
    obtain cn pre where a: "admit ev sv tok body hs t0 = Inr (cn, pre)" using Inr by (cases cp) auto
    show thesis
    proof (cases "authenticate ev sv cn pre body t1")
      case (Inl e)
      then show thesis using assms a unauthenticated by (simp add: handleWebhook_def)
    next
      case (Inr sig)
      let ?ttl = "effective_window ev cn (decryptConfig sv cn) + MAX_FUTURE_SKEW_SECONDS + 60"
      show thesis
      proof (cases "claimDelivery sv t2 (c_id cn) sig ?ttl (replay s)")
        case (Inl e)
        then show thesis using assms a Inr unclaimed unav[OF Inl] \<open>authenticate ev sv cn pre body t1 = Inr sig\<close>
          by (simp add: handleWebhook_def)
      next
        case (Inr cf)
        obtain c f where c: "claimDelivery sv t2 (c_id cn) sig ?ttl (replay s) = Inr (c, f)" using Inr by (cases cf) auto
        show thesis
          using assms a \<open>authenticate ev sv cn pre body t1 = Inr sig\<close> c replayed[OF a _ ] delivered[OF a]
          by (cases f) (auto simp: handleWebhook_def split: prod.splits sum.splits)
      qed
    qed
  qed
qed

section \<open>Properties\<close>

definition effect_ok :: "nat \<Rightarrow> string \<Rightarrow> intake \<Rightarrow> intake \<Rightarrow> nat \<Rightarrow> bool" where
  "effect_ok limit job s s' n \<longleftrightarrow>
     (if n = 0 then reservations s' = reservations s \<and> enqueued s' = enqueued s
      else n \<le> limit \<and> reservations s' = reservations s @ [(job, n)]
        \<and> (\<exists>recs. length recs = n \<and> enqueued s' = enqueued s @ [(job, recs)]))"

lemma alist_del_fresh: "job \<notin> fst ` set m \<Longrightarrow> alist_del job (m @ [(job, n)]) = m"
  by (auto simp: alist_del_def filter_id_conv)

text \<open>What a refused delivery may leave: its own reservation when the ledger stored it and then failed, or
  when the queue failed and the cancellation did too; its own message when the queue took it and then failed.\<close>

definition residue_ok :: "services \<Rightarrow> nat \<Rightarrow> string \<Rightarrow> intake \<Rightarrow> intake \<Rightarrow> intake_error \<Rightarrow> bool" where
  "residue_ok sv limit job s s' e \<longleftrightarrow>
     (reservations s' = reservations s
      \<or> (\<exists>n. 0 < n \<and> n \<le> limit \<and> reservations s' = reservations s @ [(job, n)]
          \<and> (e = Ledger_unavailable \<and> reserve_call sv (reservations s) n = Reserve_fails True
             \<or> e = Queue_unavailable \<and> enqueue_call sv \<noteq> Queue_ok \<and> \<not> cancel_works sv)))
     \<and> (enqueued s' = enqueued s
      \<or> (\<exists>recs. length recs \<le> limit \<and> enqueued s' = enqueued s @ [(job, recs)]
          \<and> e = Queue_unavailable \<and> enqueue_call sv = Queue_fails True))"

lemma deliver_effects:
  assumes d: "deliver ev sv cid sig job body s = (s', r)" and job: "job \<notin> fst ` set (reservations s)"
  shows "case r of Inl e \<Rightarrow> residue_ok sv (maxRecords ev) job s s' e
                        | Inr n \<Rightarrow> effect_ok (maxRecords ev) job s s' n"
proof (cases "JSON_parse sv body")
  case None
  then show ?thesis using d by (auto simp: deliver_def residue_ok_def)
next
  case (Some p)
  let ?n = "length (ingest p)"
  show ?thesis
  proof (cases "maxRecords ev < ?n \<or> ?n = 0")
    case True
    then show ?thesis using d Some by (auto simp: deliver_def residue_ok_def effect_ok_def Let_def)
  next
    case False
    then have n: "\<not> maxRecords ev < ?n" "?n \<noteq> 0" "0 < ?n" "?n \<le> maxRecords ev" by auto
    show ?thesis
    proof (cases "reserve_call sv (reservations s) ?n")
      case Reserve_refused
      then show ?thesis using d Some n(1,2) by (auto simp: deliver_def residue_ok_def Let_def)
    next
      case (Reserve_fails b)
      then show ?thesis using d Some n by (cases b) (auto simp: deliver_def residue_ok_def Let_def)
    next
      case Reserve_ok
      then show ?thesis using d Some n alist_del_fresh[OF job, of ?n]
        by (cases "enqueue_call sv"; cases "cancel_works sv")
          (auto simp: deliver_def residue_ok_def effect_ok_def Let_def split: if_splits)
    qed
  qed
qed

lemma precheck_same:
  "precheckWebhookHeaders hs v w l m t0 = Inr p \<Longrightarrow> precheckWebhookHeaders hs v w l m u0 = Inr q \<Longrightarrow> q = p"
  by (auto simp: precheckWebhookHeaders_def Let_def split: if_splits)

lemma admit_Inr:
  "admit ev sv tok body hs t0 = Inr (cn, pre) \<longleftrightarrow>
     WEBHOOK_TOKEN_RE tok \<and> JSON_CONTENT_TYPE_RE (case hs ''content-type'' of None \<Rightarrow> [] | Some v \<Rightarrow> v)
     \<and> body \<noteq> [] \<and> length body \<le> maxBodyBytes ev \<and> findByWebhookToken sv tok = Some cn
     \<and> c_type cn = ''webhook'' \<and> \<not> c_paused cn \<and> c_tenant_active cn
     \<and> precheckWebhookHeaders hs (connector_version cn) (precheck_window ev cn)
          (legacySignaturesEnabled ev) MAX_WEBHOOK_TOLERANCE_SECONDS t0 = Inr pre"
proof (cases "findByWebhookToken sv tok")
  case (Some a)
  show ?thesis
  proof (cases "precheckWebhookHeaders hs (connector_version a) (precheck_window ev a)
      (legacySignaturesEnabled ev) MAX_WEBHOOK_TOLERANCE_SECONDS t0")
    case (Inl e)
    then show ?thesis using Some by (auto simp: admit_def)
  next
    case (Inr p)
    then show ?thesis using Some by (auto simp: admit_def)
  qed
qed (auto simp: admit_def)

text \<open>
  The signing key is asked for only after every check that needs no key has passed: a request
  with a malformed token, the wrong media type, an oversized body, an unknown, paused or inactive
  target, or a stale or malformed signature header costs no key derivation.
\<close>

theorem webhook_checks_before_key:
  assumes "handleWebhook ev sv tok body hs job (t0, t1, t2) s = (s', r)" and "key_loads s' \<noteq> key_loads s"
  shows "WEBHOOK_TOKEN_RE tok \<and> body \<noteq> [] \<and> length body \<le> maxBodyBytes ev
    \<and> (\<exists>cn w pre. findByWebhookToken sv tok = Some cn \<and> c_type cn = ''webhook'' \<and> \<not> c_paused cn \<and> c_tenant_active cn
         \<and> precheckWebhookHeaders hs (connector_version cn) w (legacySignaturesEnabled ev) MAX_WEBHOOK_TOLERANCE_SECONDS t0 = Inr pre)"
proof -
  have "\<exists>cn pre. admit ev sv tok body hs t0 = Inr (cn, pre)"
    using assms(1) by (cases rule: handle_cases) (use assms(2) in auto)
  then show ?thesis unfolding admit_Inr by blast
qed

lemma authenticate_same:
  assumes "authenticate ev sv cn pre body t1 = Inr g" and "authenticate ev sv cn pre body u1 = Inr h"
  shows "g = h"
  using assms by (auto simp: authenticate_def Let_def split: if_splits)

lemma admit_same:
  assumes "admit ev sv tok body hs t0 = Inr (cn, pre)" and "admit ev sv tok body hs u0 = Inr (cn', pre')"
  shows "cn' = cn \<and> pre' = pre"
proof -
  have "cn' = cn" using assms by (simp add: admit_Inr)
  then show ?thesis using assms precheck_same by (simp add: admit_Inr) blast
qed

text \<open>
  A refusal the sender may retry gives the claim back: after a delivery failed because of the quota,
  the ledger or the queue, sending the very same request again is never answered as a replay.
\<close>

definition retryable :: "intake_error \<Rightarrow> bool" where
  "retryable e \<longleftrightarrow> e \<in> {Quota_exceeded, Ledger_unavailable, Queue_unavailable}"

lemma deliver_retryable:
  assumes "deliver ev sv cid g job body s = (s', Inl e)" and "retryable e"
  shows "replay s' = releaseDelivery sv cid g (replay s)"
proof (cases "JSON_parse sv body")
  case (Some p)
  then show ?thesis using assms
    by (cases "reserve_call sv (reservations s) (length (ingest p))"; cases "enqueue_call sv")
      (auto simp: deliver_def Let_def retryable_def split: if_splits)
qed (use assms in \<open>auto simp: deliver_def retryable_def\<close>)

lemma deliver_not_replayed: "snd (deliver ev sv c g j b w) \<noteq> Inl Replayed"
  by (auto simp: deliver_def Let_def split: option.splits reserve_answer.splits queue_answer.splits)

lemma admit_not_late: "admit ev sv tok body hs t0 = Inl e \<Longrightarrow> \<not> retryable e \<and> e \<noteq> Replayed"
  by (auto simp: admit_def retryable_def split: if_splits option.splits sum.splits)

lemma retry_not_replay:
  assumes "handleWebhook ev sv tok body hs job clk s = (s', Inl e)" and e: "retryable e" and "release_works sv"
  shows "snd (handleWebhook ev sv tok body hs job' clk' s') \<noteq> Inl Replayed"
proof
  obtain t0 t1 t2 where clk: "clk = (t0, t1, t2)" by (cases clk) auto
  obtain u0 u1 u2 where clk': "clk' = (u0, u1, u2)" by (cases clk') auto
  assume "snd (handleWebhook ev sv tok body hs job' clk' s') = Inl Replayed"
  then obtain s'' where h2: "handleWebhook ev sv tok body hs job' (u0, u1, u2) s' = (s'', Inl Replayed)"
    unfolding clk' by (metis prod.collapse)
  from assms(1)[unfolded clk] obtain cn pre g where a: "admit ev sv tok body hs t0 = Inr (cn, pre)"
    "authenticate ev sv cn pre body t1 = Inr g"
    "\<And>t. live (replay s') t (keyFor (sha256 sv) (c_id cn) g) = None"
  proof (cases rule: handle_cases)
    case (refused e')
    then show ?thesis using admit_not_late[of ev sv tok body hs t0] e by auto
  next
    case (delivered cn pre g c)
    let ?s1 = "s\<lparr>key_loads := Suc (key_loads s), replay := c\<rparr>"
    have "snd (deliver ev sv (c_id cn) g job body ?s1) = Inl e"
      using delivered(5) by (cases "snd (deliver ev sv (c_id cn) g job body ?s1)") auto
    then have "deliver ev sv (c_id cn) g job body ?s1 = (s', Inl e)" using delivered(4) by (metis prod.collapse)
    then show ?thesis using that[OF delivered(1,2)] deliver_retryable[OF _ e] releaseDelivery_live[OF assms(3)] by simp
  qed (use e in \<open>auto simp: retryable_def\<close>)
  from h2 show False
  proof (cases rule: handle_cases)
    case (refused e')
    then show ?thesis using admit_not_late[of ev sv tok body hs u0] by auto
  next
    case (replayed cn' pre' g' c')
    have "cn' = cn" "g' = g" using admit_same[OF a(1) replayed(1)] authenticate_same[OF a(2)] replayed(2) by auto
    then show ?thesis using claimDelivery_Inr(1)[OF replayed(3)] a(3) by simp
  next
    case (delivered cn' pre' g' c')
    then show ?thesis using deliver_not_replayed by (auto simp: map_sum_def split: sum.splits)
  qed auto
qed

text \<open>
  C32. What a webhook delivery leaves behind. An accepted one reserves exactly the rows it enqueues,
  within the record limit, in one message under its own job id. A refused one leaves nothing, with two
  exceptions that lie outside the handler: its own reservation stays when the ledger stored it and then
  failed, or when the queue failed and the cancellation failed as well; its own message stays when the queue
  took it and then failed - without the reservation, unless the cancellation failed. A refusal for the
  quota, the ledger or the queue gives the claim back, unless the cache refuses to: the same request is then
  never answered as a replay.
\<close>

theorem webhook_delivery_accounted:
  assumes "handleWebhook ev sv tok body hs job clk s = (s', r)" and "job \<notin> fst ` set (reservations s)"
  shows "case r of
      Inl e \<Rightarrow> residue_ok sv (maxRecords ev) job s s' e
        \<and> (retryable e \<and> release_works sv \<longrightarrow> (\<forall>job' clk'. snd (handleWebhook ev sv tok body hs job' clk' s') \<noteq> Inl Replayed))
    | Inr (n, v) \<Rightarrow> effect_ok (maxRecords ev) job s s' n"
proof -
  obtain t0 t1 t2 where clk: "clk = (t0, t1, t2)" by (cases clk) auto
  from assms(1)[unfolded clk]
  have "case r of Inl e \<Rightarrow> residue_ok sv (maxRecords ev) job s s' e | Inr (n, v) \<Rightarrow> effect_ok (maxRecords ev) job s s' n"
  proof (cases rule: handle_cases)
    case (delivered cn pre sig c)
    let ?s1 = "s\<lparr>key_loads := Suc (key_loads s), replay := c\<rparr>"
    obtain s2 r2 where d: "deliver ev sv (c_id cn) sig job body ?s1 = (s2, r2)"
      by (cases "deliver ev sv (c_id cn) sig job body ?s1") auto
    then show ?thesis
      using deliver_effects[OF d] assms(2) delivered(4,5) by (cases r2) (auto simp: effect_ok_def residue_ok_def)
  qed (simp_all add: residue_ok_def)
  then show ?thesis
  proof (cases r)
    case (Inl e)
    have "\<forall>job' clk'. snd (handleWebhook ev sv tok body hs job' clk' s') \<noteq> Inl Replayed" if "retryable e \<and> release_works sv"
      using retry_not_replay[OF assms(1)[unfolded Inl]] that by blast
    then show ?thesis using \<open>case r of Inl e \<Rightarrow> _ e | Inr (n, v) \<Rightarrow> _ n\<close> Inl by simp
  qed simp
qed

lemma claim_outlives:
  fixes W :: int
  assumes "q - ts \<le> W" "u1 < (q + 1) * 1000" "r * 1000 \<le> t1" "- 60 \<le> r - ts" "t1 \<le> t2" "u2 \<le> u1 + 59000"
  shows "u2 < t2 + (W + 60 + 60) * 1000"
  using assms by (simp add: algebra_simps)

text \<open>The pre-check of a timestamp-bound request depends on its headers alone: neither the connector nor
  the settings change what is verified.\<close>

lemma precheck_timestamped:
  assumes "precheckWebhookHeaders hs v w l m t0 = Inr p" and "version p = TIMESTAMPED"
    and "precheckWebhookHeaders hs v' w' l' m' u0 = Inr q"
  shows "q = p"
  using assms by (auto simp: precheckWebhookHeaders_def Let_def split: if_splits)

definition reconfigured ::
    "intake_env \<times> services \<times> string \<Rightarrow> intake_env \<times> services \<times> string \<Rightarrow> bool" where
  "reconfigured = (\<lambda>(ev, sv, tok) (ev', sv', tok').
     \<exists>cn cn'. findByWebhookToken sv tok = Some cn \<and> findByWebhookToken sv' tok' = Some cn'
       \<and> (c_id cn' \<noteq> c_id cn
          \<or> signingSecret (decryptConfig sv' cn') \<noteq> signingSecret (decryptConfig sv cn)
          \<or> effective_window ev cn (decryptConfig sv cn) < effective_window ev' cn' (decryptConfig sv' cn')))"

definition claim_lost :: "intake \<Rightarrow> intake \<Rightarrow> int \<Rightarrow> bool" where
  "claim_lost s1 s2 t \<longleftrightarrow> (\<exists>k. live (replay s1) t k \<noteq> None \<and> live (replay s2) t k = None)"

lemma accepted_timestamped:
  assumes "handleWebhook ev sv tok body hs job (t0, t1, t2) s = (s1, Inr (n, TIMESTAMPED))"
  obtains cn pre g c where "admit ev sv tok body hs t0 = Inr (cn, pre)" "authenticate ev sv cn pre body t1 = Inr g"
    "claimDelivery sv t2 (c_id cn) g (effective_window ev cn (decryptConfig sv cn) + MAX_FUTURE_SKEW_SECONDS + 60) (replay s) = Inr (c, True)"
    "replay s1 = c" "version pre = TIMESTAMPED"
proof -
  have keep: "snd (deliver ev sv c g j b w) = Inr m \<Longrightarrow> replay (fst (deliver ev sv c g j b w)) = replay w" for c g j b w m
    by (auto simp: deliver_def Let_def split: option.splits if_splits reserve_answer.splits queue_answer.splits)
  from assms show thesis
  proof (cases rule: handle_cases)
    case (delivered cn pre g c)
    let ?s1 = "s\<lparr>key_loads := Suc (key_loads s), replay := c\<rparr>"
    have "snd (deliver ev sv (c_id cn) g job body ?s1) = Inr n \<and> version pre = TIMESTAMPED"
      using delivered(5) by (cases "snd (deliver ev sv (c_id cn) g job body ?s1)") auto
    then show ?thesis using that[OF delivered(1-3)] keep[of "c_id cn" g job body ?s1 n] delivered(4) by simp
  qed auto
qed

lemma accepted_any:
  assumes "handleWebhook ev sv tok body hs job (t0, t1, t2) s = (s1, Inr nv)"
  obtains cn pre g c where "admit ev sv tok body hs t0 = Inr (cn, pre)" "authenticate ev sv cn pre body t1 = Inr g"
    "claimDelivery sv t2 (c_id cn) g (effective_window ev cn (decryptConfig sv cn) + MAX_FUTURE_SKEW_SECONDS + 60) (replay s) = Inr (c, True)"
  using assms by (cases rule: handle_cases) (use that in blast)+

lemma authenticate_window:
  "authenticate ev sv cn pre body t1 = Inr g \<Longrightarrow> stamp pre = Some ts \<Longrightarrow>
     - 60 \<le> t1 div 1000 - ts \<and> t1 div 1000 - ts \<le> effective_window ev cn (decryptConfig sv cn)"
  by (auto simp: authenticate_def Let_def window_iff MAX_FUTURE_SKEW_SECONDS_def split: if_splits)

lemma authenticate_signature:
  assumes "authenticate ev sv cn pre body t1 = Inr g" and "authenticate ev' sv' cn' pre body u1 = Inr h"
    and "hmac256 sv' = hmac256 sv" and "signingSecret (decryptConfig sv' cn') = signingSecret (decryptConfig sv cn)"
  shows "h = g"
  using assms by (auto simp: authenticate_def Let_def split: if_splits)

text \<open>
  C15. A captured version-2 delivery cannot be used twice. Once accepted, the same body and headers are
  refused whenever they come back, under whatever settings and at whatever later time, unless one of
  these holds: since then the connector the token names, its signing secret or a wider window was put
  in place; a claim was lost from the store before its time to live ran out; or the claim of the second
  request came more than 59 seconds after its window check. A claim lives longer than the last instant at
  which the timestamp check, with the window it was made for, still lets the request through.
\<close>

theorem webhook_replay_refused:
  assumes "handleWebhook ev sv tok body hs job (t0, t1, t2) s = (s1, Inr (n, TIMESTAMPED))"
    and "t1 \<le> t2" and "t2 \<le> u2" and "sha256 sv' = sha256 sv" and "hmac256 sv' = hmac256 sv"
  shows "(\<exists>e. snd (handleWebhook ev' sv' tok' body hs job' (u0, u1, u2) s2) = Inl e)
    \<or> reconfigured (ev, sv, tok) (ev', sv', tok') \<or> claim_lost s1 s2 u2 \<or> u1 + 59000 < u2"
proof (rule ccontr)
  assume neg: "\<not> ?thesis"
  then have nr: "\<not> reconfigured (ev, sv, tok) (ev', sv', tok')" and nl: "\<not> claim_lost s1 s2 u2" and slow: "u2 \<le> u1 + 59000" by auto
  let ?ttl = "\<lambda>ev sv cn. effective_window ev cn (decryptConfig sv cn) + MAX_FUTURE_SKEW_SECONDS + 60"
  obtain cn pre g c where a: "admit ev sv tok body hs t0 = Inr (cn, pre)"
    "authenticate ev sv cn pre body t1 = Inr g" "claimDelivery sv t2 (c_id cn) g (?ttl ev sv cn) (replay s) = Inr (c, True)"
    "replay s1 = c" "version pre = TIMESTAMPED"
    using assms(1) by (rule accepted_timestamped)
  obtain s3 nv where "handleWebhook ev' sv' tok' body hs job' (u0, u1, u2) s2 = (s3, Inr nv)"
    using neg by (metis obj_sumE prod.collapse)
  then obtain cn' pre' g' c' where b: "admit ev' sv' tok' body hs u0 = Inr (cn', pre')"
    "authenticate ev' sv' cn' pre' body u1 = Inr g'"
    "claimDelivery sv' u2 (c_id cn') g' (?ttl ev' sv' cn') (replay s2) = Inr (c', True)" by (rule accepted_any)
  have pre: "pre' = pre" using a(1,5) b(1) precheck_timestamped unfolding admit_Inr by blast
  have found: "findByWebhookToken sv tok = Some cn" "findByWebhookToken sv' tok' = Some cn'"
    using a(1) b(1) unfolding admit_Inr by blast+
  have same: "c_id cn' = c_id cn" "signingSecret (decryptConfig sv' cn') = signingSecret (decryptConfig sv cn)"
    and win: "effective_window ev' cn' (decryptConfig sv' cn') \<le> effective_window ev cn (decryptConfig sv cn)"
    using nr found unfolding reconfigured_def by auto
  have sig: "g' = g" by (rule authenticate_signature[OF a(2) b(2)[unfolded pre] assms(5) same(2)])
  have "stamp pre \<noteq> None"
    using a(1,5) by (auto simp: admit_def precheckWebhookHeaders_def parseTimestampHeader_def blank_def Let_def
        split: if_splits option.splits sum.splits)
  then obtain ts where ts: "stamp pre = Some ts" by blast
  note w1 = authenticate_window[OF a(2) ts] and w2 = authenticate_window[OF b(2)[unfolded pre] ts]
  have "u1 < (u1 div 1000 + 1) * 1000" "t1 div 1000 * 1000 \<le> t1" by presburger+
  then have "u2 < t2 + (?ttl ev sv cn) * 1000"
    using w1 w2 win assms(2) slow unfolding MAX_FUTURE_SKEW_SECONDS_def by (intro claim_outlives) auto
  also have "\<dots> \<le> t2 + max 1 (?ttl ev sv cn) * 1000"
    by (intro add_left_mono mult_right_mono) simp_all
  finally have "u2 < t2 + max 1 (?ttl ev sv cn) * 1000" .
  then have "live (replay s1) u2 (keyFor (sha256 sv) (c_id cn) g) \<noteq> None"
    using claimDelivery_Inr(2)[OF a(3) _ assms(3)] a(4) by (simp add: alive_def)
  moreover have "\<not> (live (replay s1) u2 (keyFor (sha256 sv) (c_id cn) g) \<noteq> None \<and> live (replay s2) u2 (keyFor (sha256 sv) (c_id cn) g) = None)"
    using nl unfolding claim_lost_def not_ex by (rule spec)
  ultimately have "live (replay s2) u2 (keyFor (sha256 sv) (c_id cn) g) \<noteq> None" by (simp only: simp_thms)
  then show False using claimDelivery_Inr(1)[OF b(3)] same(1) sig assms(4) by simp
qed

section \<open>Witnesses\<close>

definition sample_connector :: connector_doc where
  "sample_connector = \<lparr>c_id = ''c1'', c_type = ''webhook'', c_paused = False, c_tenant_active = True,
     c_sig_version = Some TIMESTAMPED, c_window = Some 300\<rparr>"

definition sample_env :: intake_env where
  "sample_env = \<lparr>maxBodyBytes = 1000, maxRecords = 10, legacySignaturesEnabled = False, webhookToleranceSeconds = 300\<rparr>"

definition sample_services :: "bool \<Rightarrow> services" where
  "sample_services takes = \<lparr>findByWebhookToken = (\<lambda>_. Some sample_connector),
     decryptConfig = (\<lambda>_. \<lparr>signingSecret = ''k'', toleranceSeconds = None, requireTimestamp = True\<rparr>),
     JSON_parse = (\<lambda>_. Some (JObj [])), sha256 = id, hmac256 = sample_hmac,
     reserve_call = (\<lambda>_ _. Reserve_ok), enqueue_call = (if takes then Queue_ok else Queue_fails True), cancel_works = True,
     cache_up = True, release_works = True\<rparr>"

definition sample_token :: string where
  "sample_token = replicate 20 (CHR ''t'')"

definition intake_headers :: headers where
  "intake_headers = sample_headers(''content-type'' := Some ''application/json'')"

definition fresh_intake :: intake where
  "fresh_intake = \<lparr>replay = createMemoryCache None (Some ''cache:''), reservations = [], enqueued = [], key_loads = 0\<rparr>"

abbreviation sample_sig :: string where
  "sample_sig \<equiv> sample_hmac ''k'' (signedPayload (show_int 1000) ''{}'')"

abbreviation sample_pre :: precheck where
  "sample_pre \<equiv> \<lparr>version = TIMESTAMPED, candidates = [sample_sig], stamp = Some 1000\<rparr>"

lemma intake_headers_at: "intake_headers SIGNATURE_HEADER = sample_headers SIGNATURE_HEADER"
  "intake_headers TIMESTAMP_HEADER = sample_headers TIMESTAMP_HEADER"
  "intake_headers ''content-type'' = Some ''application/json''"
  by (simp_all add: intake_headers_def SIGNATURE_HEADER_def TIMESTAMP_HEADER_def)

lemma sample_admit:
  "admit sample_env (sample_services b) sample_token ''{}'' intake_headers 1200000 = Inr (sample_connector, sample_pre)"
proof -
  have "WEBHOOK_TOKEN_RE sample_token" by code_simp
  moreover have "JSON_CONTENT_TYPE_RE ''application/json''" by code_simp
  moreover have "precheckWebhookHeaders intake_headers TIMESTAMPED 300 False MAX_WEBHOOK_TOLERANCE_SECONDS 1200000 = Inr sample_pre"
    using sample_precheck unfolding precheckWebhookHeaders_def intake_headers_at MAX_WEBHOOK_TOLERANCE_SECONDS_def .
  ultimately show ?thesis
    by (simp add: admit_Inr intake_headers_at(3) sample_services_def sample_connector_def sample_env_def
        precheck_window_def connector_version_def)
qed

lemma sample_authentic: "authenticate sample_env (sample_services b) sample_connector sample_pre ''{}'' 1200000 = Inr sample_sig"
  using sample_verified
  by (simp add: authenticate_def sample_services_def sample_connector_def effective_window_def window_iff
      MAX_FUTURE_SKEW_SECONDS_def)

lemma sample_claim:
  "\<exists>c. claimDelivery (sample_services b) 1200000 ''c1'' sample_sig ttl (replay fresh_intake) = Inr (c, True)"
proof -
  have "live (replay fresh_intake) t k = None" for t k
    by (simp add: fresh_intake_def live_def createMemoryCache_def)
  then show ?thesis
    using memory.claim_law[of "keyFor id ''c1'' sample_sig" 1200000 "CNum 1" "Some (max 1 ttl)" "replay fresh_intake"]
    by (auto simp: claimDelivery_def sample_services_def)
qed

lemma sample_run:
  "\<exists>s'. handleWebhook sample_env (sample_services b) sample_token ''{}'' intake_headers ''j''
     (1200000, 1200000, 1200000) fresh_intake = (s', if b then Inr (1, TIMESTAMPED) else Inl Queue_unavailable)
   \<and> key_loads s' = 1"
proof -
  obtain c where c: "claimDelivery (sample_services b) 1200000 ''c1'' sample_sig
      (effective_window sample_env sample_connector (decryptConfig (sample_services b) sample_connector)
         + MAX_FUTURE_SKEW_SECONDS + 60) (replay fresh_intake) = Inr (c, True)"
    using sample_claim by blast
  have "c_id sample_connector = ''c1''" by (simp add: sample_connector_def)
  then show ?thesis
    using c by (simp add: handleWebhook_def sample_admit sample_authentic)
      (simp add: deliver_def sample_services_def ingest_def sample_env_def Let_def fresh_intake_def)
qed

theorem webhook_delivery_accounted_witness:
  "(\<exists>s'. effect_ok 10 ''j'' fresh_intake s' 1)
   \<and> (\<exists>s'. residue_ok (sample_services False) 10 ''j'' fresh_intake s' Queue_unavailable
        \<and> snd (handleWebhook sample_env (sample_services False) sample_token ''{}'' intake_headers ''j2''
             (1200000, 1200000, 1200000) s') \<noteq> Inl Replayed)"
proof -
  obtain s' where "handleWebhook sample_env (sample_services True) sample_token ''{}'' intake_headers ''j''
     (1200000, 1200000, 1200000) fresh_intake = (s', Inr (1, TIMESTAMPED))" using sample_run[of True] by auto
  from webhook_delivery_accounted[OF this] have ok: "effect_ok 10 ''j'' fresh_intake s' 1"
    by (auto simp: fresh_intake_def sample_env_def)
  obtain s2 where "handleWebhook sample_env (sample_services False) sample_token ''{}'' intake_headers ''j''
     (1200000, 1200000, 1200000) fresh_intake = (s2, Inl Queue_unavailable)" using sample_run[of False] by auto
  from webhook_delivery_accounted[OF this] have "residue_ok (sample_services False) (maxRecords sample_env) ''j'' fresh_intake s2 Queue_unavailable
      \<and> (retryable Queue_unavailable \<and> release_works (sample_services False) \<longrightarrow>
         (\<forall>job' clk'. snd (handleWebhook sample_env (sample_services False) sample_token ''{}'' intake_headers job' clk' s2) \<noteq> Inl Replayed))"
    by (simp add: fresh_intake_def)
  then show ?thesis using ok by (auto simp: sample_env_def retryable_def sample_services_def)
qed

theorem webhook_checks_before_key_witness:
  "WEBHOOK_TOKEN_RE sample_token \<and> length ''{}'' \<le> maxBodyBytes sample_env"
proof -
  obtain s' where s: "handleWebhook sample_env (sample_services True) sample_token ''{}'' intake_headers ''j''
     (1200000, 1200000, 1200000) fresh_intake = (s', Inr (1, TIMESTAMPED))" "key_loads s' = 1"
    using sample_run[of True] by auto
  have "key_loads s' \<noteq> key_loads fresh_intake" using s(2) by (simp add: fresh_intake_def)
  from webhook_checks_before_key[OF s(1) this] show ?thesis by blast
qed

theorem webhook_replay_refused_witness:
  "\<exists>s1 e. snd (handleWebhook sample_env (sample_services False) sample_token ''{}'' intake_headers ''j2''
     (1300000, 1300000, 1300000) s1) = Inl e"
proof -
  obtain s1 where s: "handleWebhook sample_env (sample_services True) sample_token ''{}'' intake_headers ''j''
     (1200000, 1200000, 1200000) fresh_intake = (s1, Inr (1, TIMESTAMPED))" using sample_run[of True] by auto
  have "(\<exists>e. snd (handleWebhook sample_env (sample_services False) sample_token ''{}'' intake_headers ''j2'' (1300000, 1300000, 1300000) s1) = Inl e)
    \<or> reconfigured (sample_env, sample_services True, sample_token) (sample_env, sample_services False, sample_token)
    \<or> claim_lost s1 s1 1300000 \<or> (1300000::int) + 59000 < 1300000"
    by (rule webhook_replay_refused[OF s]) (simp_all add: sample_services_def)
  moreover have "\<not> reconfigured (sample_env, sample_services True, sample_token) (sample_env, sample_services False, sample_token)"
    by (simp add: reconfigured_def sample_services_def effective_window_def sample_connector_def)
  ultimately show ?thesis by (auto simp: claim_lost_def)
qed

end
