(* ===== verification/SensitiveFields.thy ===== *)
theory SensitiveFields
  imports Json
begin

text \<open>
  \<open>src/utils/sensitiveFields.js\<close>: which column names look like credentials, and the copy of a row
  without them. Dates and object ids, which the code returns unchanged, are not JSON values.
\<close>

definition SENSITIVE_TOKENS :: "string list" where
  "SENSITIVE_TOKENS = [''password'', ''passwd'', ''pwd'', ''passcode'', ''passphrase'', ''pass'',
     ''hash'', ''hashed'', ''salt'', ''otp'', ''totp'', ''mfa'', ''secret'', ''secrets'', ''token'', ''fcm'', ''apns'',
     ''apikey'', ''credential'', ''credentials'', ''jwt'', ''bearer'', ''cookie'', ''cvv'']"

definition SENSITIVE_SQUASHED :: "string list" where
  "SENSITIVE_SQUASHED = [''apikey'', ''apisecret'', ''privatekey'', ''secretkey'', ''accesskey'', ''clientsecret'',
     ''sessionid'', ''sessiontoken'', ''sessionkey'', ''resetcode'', ''resetlink'', ''resettoken'', ''resetkey'',
     ''refreshtoken'', ''accesstoken'', ''authtoken'', ''authkey'', ''authcode'', ''pushtoken'', ''devicetoken'',
     ''signingkey'', ''encryptionkey'', ''passwordhash'', ''pwhash'']"

text \<open>\<open>([a-z0-9])([A-Z])\<close> becomes both with a space between: matches do not overlap.\<close>

fun split_camel :: "string \<Rightarrow> string" where
  "split_camel (a # b # s) =
     (if (is_lower a \<or> is_digit a) \<and> is_upper b then a # CHR '' '' # b # split_camel s
      else a # split_camel (b # s))"
| "split_camel s = s"

text \<open>
  \<open>([A-Z]+)([A-Z][a-z])\<close>: in a run of upper-case letters that a lower-case one follows, a space goes
  before the last letter of the run.
\<close>

fun split_acronym :: "string \<Rightarrow> string" where
  "split_acronym (a # b # c # s) =
     (if is_upper a \<and> is_upper b \<and> is_lower c then a # CHR '' '' # b # c # split_acronym s
      else a # split_acronym (b # c # s))"
| "split_acronym s = s"

fun words_of :: "string \<Rightarrow> string \<Rightarrow> string list" where
  "words_of acc [] = (if acc = [] then [] else [rev acc])"
| "words_of acc (c # s) =
     (if is_lower c \<or> is_digit c then words_of (c # acc) s
      else if acc = [] then words_of [] s else rev acc # words_of [] s)"

definition tokenize :: "string \<Rightarrow> string list" where
  "tokenize key = words_of [] (to_lower (split_acronym (split_camel key)))"

fun contains :: "string \<Rightarrow> string \<Rightarrow> bool" where
  "contains p [] = (p = [])"
| "contains p (c # s) = (starts_with p (c # s) \<or> contains p s)"

definition sensitive_segment :: "string \<Rightarrow> bool" where
  "sensitive_segment key =
     (key \<noteq> [] \<and>
      (list_ex (\<lambda>t. t \<in> set SENSITIVE_TOKENS) (tokenize key)
       \<or> (let squashed = filter (\<lambda>c. is_lower c \<or> is_digit c) (to_lower key)
          in list_ex (\<lambda>p. contains p squashed) SENSITIVE_SQUASHED)))"

definition isSensitiveFieldName :: "string \<Rightarrow> bool" where
  "isSensitiveFieldName key =
     (if CHR ''.'' \<in> set key then list_ex sensitive_segment (split_on CHR ''.'' key) else sensitive_segment key)"

text \<open>\<open>depth\<close> counts up to 16; below that level values are returned as they are.\<close>

fun stripSensitiveFields :: "nat \<Rightarrow> json \<Rightarrow> json" and strip_list :: "nat \<Rightarrow> json list \<Rightarrow> json list"
  and strip_props :: "nat \<Rightarrow> (string \<times> json) list \<Rightarrow> (string \<times> json) list" where
  "stripSensitiveFields depth v =
     (if 16 < depth then v
      else case v of
        JArr xs \<Rightarrow> JArr (strip_list depth xs)
      | JObj ps \<Rightarrow> JObj (strip_props depth ps)
      | _ \<Rightarrow> v)"
| "strip_list depth [] = []"
| "strip_list depth (x # xs) = stripSensitiveFields (Suc depth) x # strip_list depth xs"
| "strip_props depth [] = []"
| "strip_props depth ((k, v) # ps) =
     (if isSensitiveFieldName k then strip_props depth ps
      else (k, stripSensitiveFields (Suc depth) v) # strip_props depth ps)"

fun sensitiveKeysIn :: "nat \<Rightarrow> string \<Rightarrow> json \<Rightarrow> string list"
  and keys_in_list :: "nat \<Rightarrow> string \<Rightarrow> json list \<Rightarrow> string list"
  and keys_in_props :: "nat \<Rightarrow> string \<Rightarrow> (string \<times> json) list \<Rightarrow> string list" where
  "sensitiveKeysIn depth pre v =
     (if 16 < depth then []
      else case v of
        JArr xs \<Rightarrow> keys_in_list depth pre xs
      | JObj ps \<Rightarrow> keys_in_props depth pre ps
      | _ \<Rightarrow> [])"
| "keys_in_list depth pre [] = []"
| "keys_in_list depth pre (x # xs) = sensitiveKeysIn (Suc depth) pre x @ keys_in_list depth pre xs"
| "keys_in_props depth pre [] = []"
| "keys_in_props depth pre ((k, v) # ps) =
     (let path = (if pre = [] then k else pre @ ''.'' @ k) in
      (if isSensitiveFieldName k then [path] else sensitiveKeysIn (Suc depth) path v) @ keys_in_props depth pre ps)"

declare stripSensitiveFields.simps(1) [simp del] sensitiveKeysIn.simps(1) [simp del]

section \<open>What is left after stripping\<close>

text \<open>Every key on the way to depth 16.\<close>

fun clean :: "nat \<Rightarrow> json \<Rightarrow> bool" and clean_list :: "nat \<Rightarrow> json list \<Rightarrow> bool"
  and clean_props :: "nat \<Rightarrow> (string \<times> json) list \<Rightarrow> bool" where
  "clean depth v =
     (if 16 < depth then True
      else case v of JArr xs \<Rightarrow> clean_list depth xs | JObj ps \<Rightarrow> clean_props depth ps | _ \<Rightarrow> True)"
| "clean_list depth [] = True"
| "clean_list depth (x # xs) = (clean (Suc depth) x \<and> clean_list depth xs)"
| "clean_props depth [] = True"
| "clean_props depth ((k, v) # ps) = (\<not> isSensitiveFieldName k \<and> clean (Suc depth) v \<and> clean_props depth ps)"

declare clean.simps(1) [simp del]

lemma strip_clean:
  "clean d (stripSensitiveFields d v)" "clean_list d (strip_list d xs)" "clean_props d (strip_props d ps)"
proof (induction d v and d xs and d ps rule: stripSensitiveFields_strip_list_strip_props.induct)
  case (1 d v)
  then show ?case
    by (subst stripSensitiveFields.simps, subst clean.simps) (auto split: json.splits)
qed simp_all

lemma clean_strip_id:
  "clean d v \<Longrightarrow> stripSensitiveFields d v = v" "clean_list d xs \<Longrightarrow> strip_list d xs = xs"
  "clean_props d ps \<Longrightarrow> strip_props d ps = ps"
proof (induction d v and d xs and d ps rule: clean_clean_list_clean_props.induct)
  case (1 d v)
  then show ?case
    by (subst stripSensitiveFields.simps) (auto simp: clean.simps[of d v] split: json.splits if_splits)
qed simp_all

lemma clean_no_keys:
  "clean d v \<Longrightarrow> sensitiveKeysIn d p v = []" "clean_list d xs \<Longrightarrow> keys_in_list d p xs = []"
  "clean_props d ps \<Longrightarrow> keys_in_props d p ps = []"
proof (induction d v and d xs and d ps arbitrary: p and p and p rule: clean_clean_list_clean_props.induct)
  case (1 d v)
  then show ?case
    by (subst sensitiveKeysIn.simps) (auto simp: clean.simps[of d v] split: json.splits if_splits)
qed (simp_all add: Let_def)

lemma map_of_strip_props:
  "map_of (strip_props d ps) k =
     (if isSensitiveFieldName k then None else map_option (stripSensitiveFields (Suc d)) (map_of ps k))"
  by (induction ps) auto

text \<open>
  Stripping removes every credential-like key and only those: the audit function finds no
  sensitive key in a stripped value, stripping twice changes nothing, and every other column is kept
  with its value stripped.
\<close>

theorem strip_leaves_no_secret:
  "sensitiveKeysIn 0 p (stripSensitiveFields 0 v) = []
   \<and> stripSensitiveFields 0 (stripSensitiveFields 0 v) = stripSensitiveFields 0 v
   \<and> get_prop k (stripSensitiveFields 0 v) =
       (if isSensitiveFieldName k then None else map_option (stripSensitiveFields 1) (get_prop k v))"
proof -
  have "get_prop k (stripSensitiveFields 0 v) =
       (if isSensitiveFieldName k then None else map_option (stripSensitiveFields 1) (get_prop k v))"
    by (cases v) (simp_all add: stripSensitiveFields.simps(1) map_of_strip_props)
  then show ?thesis using strip_clean(1)[of 0 v] clean_no_keys(1) clean_strip_id(1) by blast
qed

end
