(* ===== verification/QueryContract.thy ===== *)
theory QueryContract
  imports SensitiveFields
begin

text \<open>
  The query contract of \<open>src/services/analytics.engine.js\<close>: every validator, \<open>validateQuery\<close> and
  \<open>normalizeQuery\<close>. Queries are JSON; a missing or \<open>undefined\<close> property is \<open>None\<close>. A validator
  returns the reported problems, each a path and a kind (the text of a message is presentation), and
  the normalised value. \<open>Number\<close> on text is written out on decimal, hexadecimal, octal and binary
  literals with exact values; \<open>Date\<close>'s parser for text with an offset is an argument. Validators see
  JSON only, so the \<open>Date\<close> objects internal callers may pass are not modelled.
\<close>

section \<open>Constants\<close>

definition FILTER_OPS :: "string list" where
  "FILTER_OPS = [''eq'', ''neq'', ''in'', ''nin'', ''gt'', ''gte'', ''lt'', ''lte'', ''exists'']"

definition METRIC_OPS :: "string list" where
  "METRIC_OPS = [''count'', ''sum'', ''avg'', ''min'', ''max'', ''count_distinct'', ''count_non_null'']"

definition DATE_BUCKETS :: "string list" where
  "DATE_BUCKETS = [''day'', ''week'', ''month'', ''quarter'', ''year'']"

definition DATE_PRESETS :: "string list" where
  "DATE_PRESETS = [''today'', ''yesterday'', ''last_7_days'', ''last_30_days'', ''this_month'', ''last_month'',
     ''previous_month'', ''this_quarter'', ''last_quarter'', ''this_year'', ''last_year'', ''custom'']"

definition QUERY_KEYS :: "string list" where
  "QUERY_KEYS = [''connectorIds'', ''filters'', ''filtersOp'', ''dateRange'', ''metrics'', ''groupBy'', ''orderBy'', ''pagination'']"

definition INTERNAL_KEYS :: "string list" where
  "INTERNAL_KEYS = [''tenantId'', ''timezone'', ''now'', ''filterGroups'', ''access'', ''compare'']"

definition COMPARE_TYPES :: "string list" where
  "COMPARE_TYPES = [''previous_period'', ''previous_year'']"

definition RANGE_OPS :: "string list" where
  "RANGE_OPS = [''gt'', ''gte'', ''lt'', ''lte'']"

definition NOT_FILTERABLE :: "string list" where
  "NOT_FILTERABLE = [''ingestedAt'', ''tenantId'']"

definition NOT_DATES :: "string list" where
  "NOT_DATES = [''connectorId'', ''sourceRowId'', ''tenantId'']"

text \<open>\<open>LIMITS\<close>: datasets 50, filters 50, filter groups 5, \<open>in\<close> values 1000, metrics 20, group fields 5,
order fields 5, names 200 and values 1000 characters, pages 100000, rows per page 200.\<close>

datatype problem =
    Unknown_field
  | Must_be_array
  | Must_be_object
  | Too_many
  | Bad_dataset_id
  | Bad_name
  | Protected_field
  | Not_filterable
  | Bad_op
  | Bad_value
  | Bad_preset
  | Not_with_preset
  | Needs_bounds
  | Bad_boundary
  | From_after_to
  | Field_required
  | Reserved_name
  | Duplicate_name
  | Bad_bucket
  | Not_a_date
  | Conflicting_direction
  | Bad_direction
  | Bad_number
  | Name_clash
  | Not_an_output
  | Bad_ref
  | Bad_compare
  | Bad_timezone

type_synonym problems = "(string \<times> problem) list"
type_synonym 'a checked = "problems \<times> 'a"

abbreviation at_index :: "string \<Rightarrow> nat \<Rightarrow> string" where
  "at_index p i \<equiv> p @ ''['' @ show_nat i @ '']''"

abbreviation at_field :: "string \<Rightarrow> string \<Rightarrow> string" where
  "at_field p k \<equiv> p @ ''.'' @ k"

text \<open>A report under a condition, and its absence otherwise.\<close>

definition fail_if :: "bool \<Rightarrow> string \<Rightarrow> problem \<Rightarrow> problems" where
  "fail_if b p m = (if b then [(p, m)] else [])"

lemma fail_if_Nil [simp]: "fail_if b p m = [] \<longleftrightarrow> \<not> b"
  by (simp add: fail_if_def)

text \<open>\<open>value.map((x, i) => ...)\<close> with a variable the callback updates.\<close>

fun check_each :: "(nat \<Rightarrow> 's \<Rightarrow> json \<Rightarrow> 's \<times> problems \<times> json) \<Rightarrow> nat \<Rightarrow> 's \<Rightarrow> json list \<Rightarrow> json list checked" where
  "check_each f i s [] = ([], [])"
| "check_each f i s (x # xs) =
     (case f i s x of
        (s', es, y) \<Rightarrow> (case check_each f (Suc i) s' xs of (es', ys) \<Rightarrow> (es @ es', y # ys)))"

text \<open>An object literal whose undefined properties are left out.\<close>

definition obj_of :: "(string \<times> json option) list \<Rightarrow> json" where
  "obj_of ps = JObj (concat (map (\<lambda>(k, v). case v of None \<Rightarrow> [] | Some w \<Rightarrow> [(k, w)]) ps))"

fun str_of :: "json option \<Rightarrow> string option" where
  "str_of (Some (JStr s)) = Some s"
| "str_of v = None"

text \<open>\<open>value !== undefined && value !== null && value !== ''\<close>.\<close>

definition given :: "json option \<Rightarrow> bool" where
  "given v \<longleftrightarrow> v \<noteq> None \<and> v \<noteq> Some JNull \<and> v \<noteq> Some (JStr [])"

definition present :: "json option \<Rightarrow> bool" where
  "present v \<longleftrightarrow> v \<noteq> None \<and> v \<noteq> Some JNull"

definition string_in :: "json option \<Rightarrow> string list \<Rightarrow> bool" where
  "string_in v ss = (case str_of v of None \<Rightarrow> False | Some s \<Rightarrow> s \<in> set ss)"

section \<open>Names, scalars, numbers\<close>

definition safe_text :: "string \<Rightarrow> bool" where
  "safe_text s \<longleftrightarrow> s \<noteq> [] \<and> length s \<le> 200
     \<and> list_all (\<lambda>c. c \<noteq> CHR ''$'' \<and> c \<noteq> CHR ''.'' \<and> 32 \<le> code c) s"

definition isSafeName :: "json option \<Rightarrow> bool" where
  "isSafeName v = (case str_of v of None \<Rightarrow> False | Some s \<Rightarrow> safe_text s)"

definition isReservedOutputName :: "string \<Rightarrow> bool" where
  "isReservedOutputName s \<longleftrightarrow> s = ''_id'' \<or> starts_with ''__'' s"

definition sensitive_field :: "json option \<Rightarrow> bool" where
  "sensitive_field v = (case str_of v of None \<Rightarrow> False | Some s \<Rightarrow> isSensitiveFieldName s)"

definition OBJECT_ID_RE :: "string \<Rightarrow> bool" where
  "OBJECT_ID_RE s \<longleftrightarrow> length s = 24 \<and> list_all (\<lambda>c. hex_digit c \<noteq> None) s"

fun is_dataset_id :: "json \<Rightarrow> bool" where
  "is_dataset_id (JStr s) = OBJECT_ID_RE s"
| "is_dataset_id v = False"

fun isScalar :: "json \<Rightarrow> bool" where
  "isScalar (JStr s) = (length s \<le> 1000)"
| "isScalar (JArr xs) = False"
| "isScalar (JObj ps) = False"
| "isScalar v = True"

definition rejectUnknownKeys :: "json \<Rightarrow> string list \<Rightarrow> string \<Rightarrow> problems" where
  "rejectUnknownKeys v allowed p =
     (case v of
        JObj ps \<Rightarrow> map (\<lambda>(k, w). (if p = [] then k else at_field p k, Unknown_field)) (filter (\<lambda>(k, w). k \<notin> set allowed) ps)
      | _ \<Rightarrow> [])"

text \<open>\<open>Number(text)\<close> on trimmed text: \<open>None\<close> is NaN or infinite.\<close>

definition radix_value :: "nat \<Rightarrow> string \<Rightarrow> rat option" where
  "radix_value b s =
     (if s = [] \<or> list_ex (\<lambda>c. case hex_digit c of None \<Rightarrow> True | Some d \<Rightarrow> b \<le> d) s then None
      else Some (of_nat (foldl (\<lambda>acc c. b * acc + (case hex_digit c of None \<Rightarrow> 0 | Some d \<Rightarrow> d)) 0 s)))"

definition decimal_value :: "string \<Rightarrow> rat option" where
  "decimal_value s =
     (let ip = takeWhile is_digit s; r = dropWhile is_digit s;
          (fp, r2) = (if r \<noteq> [] \<and> hd r = CHR ''.'' then (takeWhile is_digit (tl r), dropWhile is_digit (tl r)) else ([], r));
          m = of_nat (dec_value (ip @ fp)) / 10 ^ length fp
      in if ip = [] \<and> fp = [] then None
         else if r2 = [] then Some m
         else if hd r2 = CHR ''e'' \<or> hd r2 = CHR ''E'' then
           (let t = tl r2; neg = (t \<noteq> [] \<and> hd t = CHR ''-'');
                ds = (if t \<noteq> [] \<and> (hd t = CHR ''-'' \<or> hd t = CHR ''+'') then tl t else t)
            in if ds = [] \<or> \<not> list_all is_digit ds then None
               else Some (if neg then m / 10 ^ dec_value ds else m * 10 ^ dec_value ds))
         else None)"

definition js_number :: "string \<Rightarrow> rat option" where
  "js_number t =
     (let s = trim t; low = to_lower (take 2 s);
          v = (if s = [] then Some 0
               else if low = ''0x'' then radix_value 16 (drop 2 s)
               else if low = ''0o'' then radix_value 8 (drop 2 s)
               else if low = ''0b'' then radix_value 2 (drop 2 s)
               else if hd s = CHR ''-'' then map_option uminus (decimal_value (tl s))
               else if hd s = CHR ''+'' then decimal_value (tl s)
               else decimal_value s)
      in case v of None \<Rightarrow> None | Some n \<Rightarrow> if \<bar>n\<bar> < 2 ^ 1024 then Some n else None)"

section \<open>Date boundaries\<close>

datatype boundary =
    Instant int
  | Date_only int int int
  | Wall_time int int int int int int int

text \<open>\<open>Date.UTC(year, month - 1, day)\<close> in days, for years from 100 (earlier ones the code rejects).\<close>

definition utc_days :: "int \<Rightarrow> int \<Rightarrow> int \<Rightarrow> int" where
  "utc_days y m d =
     (let y' = (if m \<le> 2 then y - 1 else y); m' = (if m \<le> 2 then m + 9 else m - 3)
      in 365 * y' + y' div 4 - y' div 100 + y' div 400 + (153 * m' + 2) div 5 + d - 1 - 719468)"

definition leap_year :: "int \<Rightarrow> bool" where
  "leap_year y \<longleftrightarrow> y mod 4 = 0 \<and> (y mod 100 \<noteq> 0 \<or> y mod 400 = 0)"

definition month_days :: "int \<Rightarrow> int \<Rightarrow> int" where
  "month_days y m = (if m = 2 then (if leap_year y then 29 else 28) else if m \<in> {4, 6, 9, 11} then 30 else 31)"

definition validCalendar :: "int \<Rightarrow> int \<Rightarrow> int \<Rightarrow> bool" where
  "validCalendar y m d \<longleftrightarrow> 100 \<le> y \<and> 1 \<le> m \<and> m \<le> 12 \<and> 1 \<le> d \<and> d \<le> month_days y m"

definition digits_at :: "nat \<Rightarrow> nat \<Rightarrow> string \<Rightarrow> bool" where
  "digits_at i n s \<longleftrightarrow> i + n \<le> length s \<and> list_all is_digit (take n (drop i s))"

definition num_at :: "nat \<Rightarrow> nat \<Rightarrow> string \<Rightarrow> int" where
  "num_at i n s = int (dec_value (take n (drop i s)))"

definition char_at :: "nat \<Rightarrow> string \<Rightarrow> char \<Rightarrow> bool" where
  "char_at i s c \<longleftrightarrow> i < length s \<and> s ! i = c"

definition DATE_ONLY_RE :: "string \<Rightarrow> bool" where
  "DATE_ONLY_RE s \<longleftrightarrow> length s = 10 \<and> digits_at 0 4 s \<and> char_at 4 s (CHR ''-'') \<and> digits_at 5 2 s
     \<and> char_at 7 s (CHR ''-'') \<and> digits_at 8 2 s"

text \<open>The seconds and milliseconds that may follow \<open>hh:mm\<close>, and what is left.\<close>

definition seconds_part :: "string \<Rightarrow> int \<times> int \<times> string" where
  "seconds_part s =
     (if char_at 0 s (CHR '':'') \<and> digits_at 1 2 s then
        (let r = drop 3 s; ms = takeWhile is_digit (take 3 (tl r)) in
         if char_at 0 r (CHR ''.'') \<and> ms \<noteq> [] then
           (num_at 1 2 s, int (dec_value (ms @ replicate (3 - length ms) (CHR ''0''))), drop (Suc (length ms)) r)
         else (num_at 1 2 s, 0, r))
      else (0, 0, s))"

definition offset_text :: "string \<Rightarrow> bool" where
  "offset_text s \<longleftrightarrow> s = ''Z'' \<or>
     ((char_at 0 s (CHR ''+'') \<or> char_at 0 s (CHR ''-'')) \<and> digits_at 1 2 s \<and>
       ((length s = 5 \<and> digits_at 3 2 s) \<or> (length s = 6 \<and> char_at 3 s (CHR '':'') \<and> digits_at 4 2 s)))"

definition parseBoundaryParts :: "(string \<Rightarrow> int option) \<Rightarrow> json option \<Rightarrow> boundary option" where
  "parseBoundaryParts date_parse value =
     (case str_of value of
        None \<Rightarrow> None
      | Some raw \<Rightarrow>
          (let text = trim raw; y = num_at 0 4 text; mo = num_at 5 2 text; d = num_at 8 2 text in
           if DATE_ONLY_RE text then (if validCalendar y mo d then Some (Date_only y mo d) else None)
           else if DATE_ONLY_RE (take 10 text) \<and> (char_at 10 text (CHR ''T'') \<or> char_at 10 text (CHR '' ''))
              \<and> digits_at 11 2 text \<and> char_at 13 text (CHR '':'') \<and> digits_at 14 2 text then
             (case seconds_part (drop 16 text) of
                (sec, ms, r) \<Rightarrow>
                  if r \<noteq> [] \<and> \<not> offset_text r then None
                  else if \<not> validCalendar y mo d \<or> num_at 11 2 text > 23 \<or> num_at 14 2 text > 59 \<or> sec > 59 then None
                  else if r \<noteq> [] then map_option Instant (date_parse (text[10 := CHR ''T'']))
                  else Some (Wall_time y mo d (num_at 11 2 text) (num_at 14 2 text) sec ms))
           else None))"

text \<open>Boundary instants in UTC, the last millisecond of the day for an inclusive end.\<close>

definition boundary_utc :: "boundary \<Rightarrow> bool \<Rightarrow> int" where
  "boundary_utc b is_end =
     (case b of
        Instant t \<Rightarrow> t
      | Date_only y m d \<Rightarrow> (if is_end then (utc_days y m d + 1) * 86400000 - 1 else utc_days y m d * 86400000)
      | Wall_time y m d h mi s ms \<Rightarrow> utc_days y m d * 86400000 + ((h * 60 + mi) * 60 + s) * 1000 + ms)"

definition same_kind :: "boundary \<Rightarrow> boundary \<Rightarrow> bool" where
  "same_kind a b =
     (case (a, b) of
        (Instant _, Instant _) \<Rightarrow> True
      | (Date_only _ _ _, Date_only _ _ _) \<Rightarrow> True
      | (Wall_time _ _ _ _ _ _ _, Wall_time _ _ _ _ _ _ _) \<Rightarrow> True
      | _ \<Rightarrow> False)"

section \<open>Validators\<close>

type_synonym validator = "json \<Rightarrow> string \<Rightarrow> json checked"

definition validateConnectorIds :: validator where
  "validateConnectorIds value p =
     (case value of
        JArr xs \<Rightarrow>
          (case check_each (\<lambda>i _ x. ((), fail_if (\<not> is_dataset_id x) (at_index p i) Bad_dataset_id, x)) 0 () xs of
             (es, ys) \<Rightarrow> (fail_if (50 < length xs) p Too_many @ es, JArr ys))
      | _ \<Rightarrow> ([(p, Must_be_array)], JArr []))"

definition check_filter_value :: "json \<Rightarrow> string \<Rightarrow> string \<Rightarrow> problems \<times> json option" where
  "check_filter_value f op here =
     (let v = get_prop ''value'' f; vp = at_field here ''value'';
          on_dataset = (get_prop ''field'' f = Some (JStr ''connectorId'')) in
      if op = ''in'' \<or> op = ''nin'' then
        (let values = (case v of Some (JArr xs) \<Rightarrow> map Some xs | _ \<Rightarrow> [v]);
             scalar = list_all (\<lambda>x. case x of None \<Rightarrow> False | Some w \<Rightarrow> isScalar w) values;
             ids = list_all (\<lambda>x. case x of None \<Rightarrow> False | Some w \<Rightarrow> is_dataset_id w) values
         in (fail_if (1000 < length values) vp Too_many
               @ (if \<not> scalar then [(vp, Bad_value)] else fail_if (on_dataset \<and> \<not> ids) vp Bad_dataset_id),
             Some (JArr (map (\<lambda>x. case x of None \<Rightarrow> JNull | Some w \<Rightarrow> w) values))))
      else if op \<in> set RANGE_OPS then
        (let n = (case v of
                    Some (JNum q) \<Rightarrow> Some q
                  | Some (JStr t) \<Rightarrow> (if trim t = [] then None else js_number t)
                  | _ \<Rightarrow> None)
         in (case n of None \<Rightarrow> ([(vp, Bad_number)], v) | Some q \<Rightarrow> ([], Some (JNum q))))
      else if op = ''exists'' then
        (let w = (if v = Some (JStr ''true'') then Some (JBool True)
                  else if v = Some (JStr ''false'') then Some (JBool False) else v)
         in (fail_if (w \<noteq> Some (JBool True) \<and> w \<noteq> Some (JBool False)) vp Bad_value, w))
      else if (case v of None \<Rightarrow> True | Some w \<Rightarrow> \<not> isScalar w) then ([(vp, Bad_value)], v)
      else (fail_if (on_dataset \<and> (case v of None \<Rightarrow> True | Some w \<Rightarrow> \<not> is_dataset_id w)) vp Bad_dataset_id, v))"

definition check_filter :: "string \<Rightarrow> nat \<Rightarrow> unit \<Rightarrow> json \<Rightarrow> unit \<times> problems \<times> json" where
  "check_filter p i u f =
     (let here = at_index p i; field = get_prop ''field'' f; op = get_prop ''op'' f; fp = at_field here ''field'' in
      if \<not> is_object f then ((), [(here, Must_be_object)], f)
      else
        (let e1 = rejectUnknownKeys f [''field'', ''op'', ''value''] here
               @ (if \<not> isSafeName field then [(fp, Bad_name)]
                  else if sensitive_field field then [(fp, Protected_field)]
                  else fail_if (string_in field NOT_FILTERABLE) fp Not_filterable)
         in if \<not> string_in op FILTER_OPS then
              ((), e1 @ [(at_field here ''op'', Bad_op)],
               obj_of [(''field'', field), (''op'', op), (''value'', get_prop ''value'' f)])
            else
              (case check_filter_value f (the (str_of op)) here of
                 (e2, v) \<Rightarrow> ((), e1 @ e2, obj_of [(''field'', field), (''op'', op), (''value'', v)]))))"

definition validateFilters :: validator where
  "validateFilters value p =
     (case value of
        JArr xs \<Rightarrow>
          (case check_each (check_filter p) 0 () xs of
             (es, ys) \<Rightarrow> (fail_if (50 < length xs) p Too_many @ es, JArr ys))
      | _ \<Rightarrow> ([(p, Must_be_array)], JArr []))"

definition validateFiltersOp :: validator where
  "validateFiltersOp value p = (fail_if (\<not> string_in (Some value) [''and'', ''or'']) p Bad_op, value)"

definition boundary_problems ::
  "(string \<Rightarrow> int option) \<Rightarrow> json option \<Rightarrow> string \<Rightarrow> problems \<times> boundary option \<times> json option" where
  "boundary_problems date_parse v p =
     (if \<not> given v then ([], None, None)
      else case parseBoundaryParts date_parse v of
        None \<Rightarrow> ([(p, Bad_boundary)], None, None)
      | Some b \<Rightarrow> ([], Some b, map_option (\<lambda>t. JStr (trim t)) (str_of v)))"

definition validateDateRange :: "(string \<Rightarrow> int option) \<Rightarrow> validator" where
  "validateDateRange date_parse value p =
     (let field = get_prop ''field'' value; preset = get_prop ''preset'' value;
          from = get_prop ''from'' value; upto = get_prop ''to'' value; fp = at_field p ''field'' in
      if \<not> is_object value then ([(p, Must_be_object)], value)
      else
        (let e1 = rejectUnknownKeys value [''field'', ''preset'', ''from'', ''to''] p
               @ (if \<not> given field then [(fp, Field_required)]
                  else if \<not> isSafeName field then [(fp, Bad_name)]
                  else fail_if (string_in field NOT_DATES) fp Not_a_date);
             out_field = (if given field \<and> isSafeName field \<and> \<not> string_in field NOT_DATES then field else None)
         in if present preset \<and> \<not> string_in preset DATE_PRESETS then
              (e1 @ [(at_field p ''preset'', Bad_preset)], obj_of [(''field'', out_field)])
            else
              (let out_preset = (if present preset then preset else None) in
               if out_preset \<noteq> None \<and> out_preset \<noteq> Some (JStr ''custom'') then
                 (e1 @ fail_if (given from) (at_field p ''from'') Not_with_preset
                     @ fail_if (given upto) (at_field p ''to'') Not_with_preset,
                  obj_of [(''field'', out_field), (''preset'', out_preset)])
               else if \<not> given from \<and> \<not> given upto then
                 (e1 @ [(p, Needs_bounds)], obj_of [(''field'', out_field), (''preset'', out_preset)])
               else
                 (case (boundary_problems date_parse from (at_field p ''from''),
                        boundary_problems date_parse upto (at_field p ''to'')) of
                    ((e2, b1, o1), (e3, b2, o2)) \<Rightarrow>
                      (e1 @ e2 @ e3
                         @ (case (b1, b2) of
                              (Some x, Some y) \<Rightarrow>
                                fail_if (same_kind x y \<and> boundary_utc y True < boundary_utc x False) p From_after_to
                            | _ \<Rightarrow> []),
                       obj_of [(''field'', out_field), (''preset'', out_preset), (''from'', o1), (''to'', o2)])))))"

text \<open>\<open>METRIC_REF_RE\<close>: the key of a reference \<open>metric:key\<close> or \<open>metric:key@version\<close>.\<close>

definition METRIC_REF_RE :: "string \<Rightarrow> string option" where
  "METRIC_REF_RE s =
     (case strip_prefix ''metric:'' s of
        None \<Rightarrow> None
      | Some r \<Rightarrow>
          (let k = takeWhile (\<lambda>c. c \<noteq> CHR ''@'') r; v = dropWhile (\<lambda>c. c \<noteq> CHR ''@'') r in
           if k \<noteq> [] \<and> length k \<le> 64 \<and> is_lower (hd k)
              \<and> list_all (\<lambda>c. is_lower c \<or> is_digit c \<or> c = CHR ''_'') k
              \<and> (v = [] \<or> (digits_between 1 6 (tl v) \<and> hd (tl v) \<noteq> CHR ''0''))
           then Some k else None))"

text \<open>Template text of a property: \<open>undefined\<close> prints as that word, numbers and the rest do not occur in a valid query.\<close>

definition name_text :: "json option \<Rightarrow> string" where
  "name_text v = (case v of Some (JStr s) \<Rightarrow> s | Some JNull \<Rightarrow> ''null'' | None \<Rightarrow> ''undefined'' | _ \<Rightarrow> ''[object]'')"

definition metricAlias :: "json \<Rightarrow> string" where
  "metricAlias m =
     (let alias = get_prop ''alias'' m; ref = str_of (get_prop ''ref'' m); field = get_prop ''field'' m; op = get_prop ''op'' m in
      if given alias then name_text alias
      else case ref of
        Some r \<Rightarrow> (case METRIC_REF_RE r of Some k \<Rightarrow> k | None \<Rightarrow> r)
      | None \<Rightarrow> if given field then name_text op @ ''_'' @ name_text field else name_text op)"

definition alias_problems :: "string \<Rightarrow> string list \<Rightarrow> string \<Rightarrow> problems" where
  "alias_problems alias seen here =
     fail_if (isReservedOutputName alias) (at_field here ''alias'') Reserved_name
       @ fail_if (alias \<in> set seen) (at_field here ''alias'') Duplicate_name"

definition check_metric :: "string \<Rightarrow> nat \<Rightarrow> string list \<Rightarrow> json \<Rightarrow> string list \<times> problems \<times> json" where
  "check_metric p i seen m =
     (let here = at_index p i; ref = get_prop ''ref'' m; op = get_prop ''op'' m;
          field = get_prop ''field'' m; alias = get_prop ''alias'' m;
          alias_out = (if given alias \<and> isSafeName alias then alias else None);
          alias_err = fail_if (given alias \<and> \<not> isSafeName alias) (at_field here ''alias'') Bad_name in
      if \<not> is_object m then (seen, [(here, Must_be_object)], m)
      else if ref \<noteq> None then
        (let out = obj_of [(''ref'', ref), (''alias'', alias_out)] in
         (seen @ [metricAlias out],
          rejectUnknownKeys m [''ref'', ''alias''] here
            @ fail_if (case str_of ref of None \<Rightarrow> True | Some r \<Rightarrow> METRIC_REF_RE r = None) (at_field here ''ref'') Bad_ref
            @ alias_err @ alias_problems (metricAlias out) seen here,
          out))
      else
        (let out = obj_of [(''op'', op),
                           (''field'', if given field \<and> isSafeName field \<and> \<not> sensitive_field field then field else None),
                           (''alias'', alias_out)] in
         (seen @ [metricAlias out],
          rejectUnknownKeys m [''field'', ''op'', ''alias''] here
            @ fail_if (\<not> string_in op METRIC_OPS) (at_field here ''op'') Bad_op
            @ (if given field then
                 (if \<not> isSafeName field then [(at_field here ''field'', Bad_name)]
                  else fail_if (sensitive_field field) (at_field here ''field'') Protected_field)
               else fail_if (op \<noteq> Some (JStr ''count'') \<and> string_in op METRIC_OPS) (at_field here ''field'') Field_required)
            @ alias_err @ alias_problems (metricAlias out) seen here,
          out)))"

definition validateMetrics :: validator where
  "validateMetrics value p =
     (case value of
        JArr xs \<Rightarrow>
          (case check_each (check_metric p) 0 [] xs of
             (es, ys) \<Rightarrow> (fail_if (20 < length xs) p Too_many @ es, JArr ys))
      | _ \<Rightarrow> ([(p, Must_be_array)], JArr []))"

text \<open>A text stands for an object with that field.\<close>

definition field_item :: "json \<Rightarrow> json" where
  "field_item g = (case g of JStr t \<Rightarrow> JObj [(''field'', JStr t)] | _ \<Rightarrow> g)"

definition check_group :: "string \<Rightarrow> nat \<Rightarrow> string list \<Rightarrow> json \<Rightarrow> string list \<times> problems \<times> json" where
  "check_group p i seen g =
     (let here = at_index p i; item = field_item g; field = get_prop ''field'' item; bucket = get_prop ''bucket'' item;
          fp = at_field here ''field''; bp = at_field here ''bucket'' in
      if \<not> is_object item then (seen, [(here, Must_be_object)], item)
      else
        (let named = (isSafeName field \<and> \<not> isReservedOutputName (name_text field) \<and> \<not> sensitive_field field);
             bucket_ok = (string_in bucket DATE_BUCKETS \<and> \<not> string_in field NOT_DATES) in
         (if named \<and> name_text field \<notin> set seen then seen @ [name_text field] else seen,
          rejectUnknownKeys item [''field'', ''bucket''] here
            @ (if \<not> isSafeName field then [(if str_of (Some g) \<noteq> None then here else fp, Bad_name)]
               else if isReservedOutputName (name_text field) then [(fp, Reserved_name)]
               else if sensitive_field field then [(fp, Protected_field)]
               else fail_if (name_text field \<in> set seen) fp Duplicate_name)
            @ (if \<not> present bucket then []
               else if \<not> string_in bucket DATE_BUCKETS then [(bp, Bad_bucket)]
               else fail_if (string_in field NOT_DATES) bp Not_a_date),
          obj_of [(''field'', field), (''bucket'', if present bucket \<and> bucket_ok then bucket else None)])))"

definition validateGroupBy :: validator where
  "validateGroupBy value p =
     (case value of
        JArr xs \<Rightarrow>
          (case check_each (check_group p) 0 [] xs of
             (es, ys) \<Rightarrow> (fail_if (5 < length xs) p Too_many @ es, JArr ys))
      | _ \<Rightarrow> ([(p, Must_be_array)], JArr []))"

definition nonnull :: "json option \<Rightarrow> json option" where
  "nonnull v = (if v = Some JNull then None else v)"

definition order_direction :: "json \<Rightarrow> json" where
  "order_direction item =
     (case nonnull (get_prop ''direction'' item) of
        Some d \<Rightarrow> d
      | None \<Rightarrow> (case nonnull (get_prop ''dir'' item) of Some d \<Rightarrow> d | None \<Rightarrow> JStr ''asc''))"

definition check_order :: "string \<Rightarrow> nat \<Rightarrow> unit \<Rightarrow> json \<Rightarrow> unit \<times> problems \<times> json" where
  "check_order p i u entry =
     (let here = at_index p i; item = field_item entry; field = get_prop ''field'' item; fp = at_field here ''field'';
          d = get_prop ''direction'' item; dir = get_prop ''dir'' item in
      if \<not> is_object item then ((), [(here, Must_be_object)], item)
      else
        ((),
         rejectUnknownKeys item [''field'', ''direction'', ''dir''] here
           @ (if \<not> isSafeName field then [(fp, Bad_name)]
              else if field = Some (JStr ''_id'') then [(fp, Reserved_name)]
              else fail_if (sensitive_field field) fp Protected_field)
           @ fail_if (d \<noteq> None \<and> dir \<noteq> None \<and> d \<noteq> dir) (at_field here ''dir'') Conflicting_direction
           @ fail_if (\<not> string_in (Some (order_direction item)) [''asc'', ''desc''])
               (at_field here (if d \<noteq> None then ''direction'' else ''dir'')) Bad_direction,
         obj_of [(''field'', field), (''direction'', Some (order_direction item))]))"

definition validateOrderBy :: validator where
  "validateOrderBy value p =
     (case value of
        JArr xs \<Rightarrow>
          (case check_each (check_order p) 0 () xs of
             (es, ys) \<Rightarrow> (fail_if (5 < length xs) p Too_many @ es, JArr ys))
      | _ \<Rightarrow> ([(p, Must_be_array)], JArr []))"

definition intOf :: "json option \<Rightarrow> rat option" where
  "intOf v =
     (case v of
        Some (JNum n) \<Rightarrow> Some n
      | Some (JStr t) \<Rightarrow> (if trim t \<noteq> [] \<and> list_all is_digit (trim t) then Some (of_nat (dec_value (trim t))) else None)
      | _ \<Rightarrow> None)"

definition whole_upto :: "nat \<Rightarrow> rat \<Rightarrow> bool" where
  "whole_upto m n \<longleftrightarrow> n \<in> \<int> \<and> 1 \<le> n \<and> n \<le> of_nat m"

definition check_page :: "json \<Rightarrow> string \<Rightarrow> nat \<Rightarrow> string \<Rightarrow> problems \<times> json option" where
  "check_page value k m p =
     (let v = get_prop k value in
      if \<not> present v then ([], None)
      else case intOf v of
        None \<Rightarrow> ([(at_field p k, Bad_number)], None)
      | Some n \<Rightarrow> if whole_upto m n then ([], Some (JNum n)) else ([(at_field p k, Bad_number)], None))"

definition validatePagination :: validator where
  "validatePagination value p =
     (if \<not> is_object value then ([(p, Must_be_object)], JObj [])
      else
        (case (check_page value ''page'' 100000 p, check_page value ''limit'' 200 p) of
           ((e1, o1), (e2, o2)) \<Rightarrow>
             (rejectUnknownKeys value [''page'', ''limit''] p @ e1 @ e2, obj_of [(''page'', o1), (''limit'', o2)])))"

definition validateCompare :: validator where
  "validateCompare value p =
     (if \<not> is_object value then ([(p, Must_be_object)], value)
      else
        (rejectUnknownKeys value [''type''] p
           @ fail_if (\<not> string_in (get_prop ''type'' value) COMPARE_TYPES) (at_field p ''type'') Bad_compare,
         obj_of [(''type'', get_prop ''type'' value)]))"

text \<open>\<open>VALIDATORS[key]\<close>.\<close>

definition VALIDATORS :: "(string \<Rightarrow> int option) \<Rightarrow> string \<Rightarrow> validator" where
  "VALIDATORS date_parse key =
     (if key = ''connectorIds'' then validateConnectorIds
      else if key = ''filters'' then validateFilters
      else if key = ''filtersOp'' then validateFiltersOp
      else if key = ''dateRange'' then validateDateRange date_parse
      else if key = ''metrics'' then validateMetrics
      else if key = ''groupBy'' then validateGroupBy
      else if key = ''orderBy'' then validateOrderBy
      else validatePagination)"

section \<open>The whole query\<close>

fun elems :: "json option \<Rightarrow> json list" where
  "elems (Some (JArr xs)) = xs"
| "elems v = []"

definition indexed :: "'a list \<Rightarrow> (nat \<times> 'a) list" where
  "indexed xs = zip [0..<length xs] xs"

definition query_outputs :: "json list \<Rightarrow> json list \<Rightarrow> json option list" where
  "query_outputs groups metrics =
     map (get_prop ''field'') groups
       @ (if metrics \<noteq> [] then map (\<lambda>m. Some (JStr (metricAlias m))) metrics else [Some (JStr ''count'')])"

definition validateCombination :: "json \<Rightarrow> string \<Rightarrow> problems" where
  "validateCombination out pre =
     (let groupBy = filter is_object (elems (get_prop ''groupBy'' out));
          metrics = filter is_object (elems (get_prop ''metrics'' out));
          groupFields = map (get_prop ''field'') groupBy in
      if groupBy = [] \<and> metrics = [] then []
      else
        concat (map (\<lambda>(i, m). fail_if (Some (JStr (metricAlias m)) \<in> set groupFields)
                                  (at_field (at_index (pre @ ''metrics'') i) ''alias'') Name_clash) (indexed metrics))
        @ (if metrics = [] then
             concat (map (\<lambda>(i, g). fail_if (is_object g \<and> get_prop ''field'' g = Some (JStr ''count''))
                                       (at_field (at_index (pre @ ''groupBy'') i) ''field'') Name_clash)
               (indexed (elems (get_prop ''groupBy'' out))))
           else [])
        @ concat (map (\<lambda>(i, r). fail_if (is_object r \<and> isSafeName (get_prop ''field'' r)
                                           \<and> get_prop ''field'' r \<notin> set (query_outputs groupBy metrics))
                                    (at_field (at_index (pre @ ''orderBy'') i) ''field'') Not_an_output)
            (indexed (elems (get_prop ''orderBy'' out)))))"

text \<open>The loop over the given keys.\<close>

fun collect_props ::
  "(string \<Rightarrow> int option) \<Rightarrow> string list \<Rightarrow> (string \<times> validator) list \<Rightarrow> string \<Rightarrow> (string \<times> json) list
     \<Rightarrow> (string \<times> json) list checked" where
  "collect_props date_parse keys extra pre [] = ([], [])"
| "collect_props date_parse keys extra pre ((k, v) # ps) =
     (case collect_props date_parse keys extra pre ps of
        (es, out) \<Rightarrow>
          if k \<notin> set keys \<and> map_of extra k = None then ((pre @ k, Unknown_field) # es, out)
          else if v = JNull then (es, out)
          else
            (case (case map_of extra k of Some f \<Rightarrow> f | None \<Rightarrow> VALIDATORS date_parse k) v (pre @ k) of
               (e, w) \<Rightarrow> (e @ es, (k, w) # out)))"

definition prefix_root :: "string \<Rightarrow> string" where
  "prefix_root pre =
     (let r = (if pre \<noteq> [] \<and> last pre = CHR ''.'' then butlast pre else pre) in if r = [] then ''query'' else r)"

definition collect ::
  "(string \<Rightarrow> int option) \<Rightarrow> string list \<Rightarrow> (string \<times> validator) list \<Rightarrow> string \<Rightarrow> json \<Rightarrow> json checked" where
  "collect date_parse keys extra pre input =
     (case input of
        JObj ps \<Rightarrow>
          (case collect_props date_parse keys extra pre ps of
             (es, out) \<Rightarrow> (es @ validateCombination (JObj out) pre, JObj out))
      | _ \<Rightarrow> ([(prefix_root pre, Must_be_object)], JObj []))"

definition validateQuery ::
  "(string \<Rightarrow> int option) \<Rightarrow> string list \<Rightarrow> (string \<times> validator) list \<Rightarrow> string \<Rightarrow> json \<Rightarrow> (problems, json) res" where
  "validateQuery date_parse keys extra pre input =
     (case collect date_parse keys extra pre input of
        (es, out) \<Rightarrow> if es \<noteq> [] then Inl es else Inr out)"

text \<open>The engine-only options: a time zone, a clock and a resolved scope are not JSON of a client.\<close>

record 'a internal_options =
  i_tenantId :: "json option"
  i_timezone :: "json option"
  i_now :: "int option option"
  i_filterGroups :: "json option"
  i_access :: "'a option"
  i_compare :: "json option"

record 'a query =
  q_tenantId :: string
  q_timezone :: "string option"
  q_now :: "int option"
  q_filterGroups :: "(json list \<times> string) list"
  q_access :: "'a option"
  q_connectorIds :: "json list"
  q_filters :: "json list"
  q_filtersOp :: string
  q_dateRange :: "json option"
  q_metrics :: "json list"
  q_groupBy :: "json list"
  q_orderBy :: "json list"
  q_pagination :: json
  q_compare :: "json option"

definition check_group_filters :: "nat \<Rightarrow> json \<Rightarrow> problems \<times> (json list \<times> string) list" where
  "check_group_filters i g =
     (let p = at_index ''filterGroups'' i; op = get_prop ''filtersOp'' g in
      if \<not> is_object g then ([(p, Must_be_object)], [])
      else
        (case validateFilters (case nonnull (get_prop ''filters'' g) of Some v \<Rightarrow> v | None \<Rightarrow> JArr []) (at_field p ''filters'') of
           (e1, fs) \<Rightarrow>
             (rejectUnknownKeys g [''filters'', ''filtersOp''] p @ e1
                @ (case op of None \<Rightarrow> [] | Some v \<Rightarrow> fst (validateFiltersOp v (at_field p ''filtersOp''))),
              [(elems (Some fs), case str_of op of Some t \<Rightarrow> t | None \<Rightarrow> ''and'')])))"

definition check_filter_groups :: "json option \<Rightarrow> problems \<times> (json list \<times> string) list" where
  "check_filter_groups v =
     (if \<not> present v then ([], [])
      else case v of
        Some (JArr gs) \<Rightarrow>
          (let rs = map (\<lambda>(i, g). check_group_filters i g) (indexed gs) in
           (fail_if (5 < length gs) ''filterGroups'' Too_many @ concat (map fst rs), concat (map snd rs)))
      | _ \<Rightarrow> ([(''filterGroups'', Must_be_array)], []))"

datatype normalize_error = Invalid_query problems | Tenant_required

definition normalizeQuery ::
  "(string \<Rightarrow> int option) \<Rightarrow> (string \<Rightarrow> bool) \<Rightarrow> (string \<Rightarrow> string) \<Rightarrow> ('a \<Rightarrow> bool)
     \<Rightarrow> 'a internal_options \<Rightarrow> json \<Rightarrow> (normalize_error, 'a query) res" where
  "normalizeQuery date_parse isValidTimeZone normalizeTimeZone isAccessScope opts input =
     (if \<not> is_object input then Inl (Invalid_query [(''query'', Must_be_object)])
      else
        (case collect date_parse QUERY_KEYS [] [] input of
           (e1, out) \<Rightarrow>
             (case str_of (i_tenantId opts) of
                None \<Rightarrow> Inl Tenant_required
              | Some tenant \<Rightarrow>
                  if tenant = [] then Inl Tenant_required
                  else
                    (let e2 = fail_if (present (i_timezone opts) \<and>
                                (case str_of (i_timezone opts) of None \<Rightarrow> True | Some z \<Rightarrow> \<not> isValidTimeZone z)) ''timezone'' Bad_timezone;
                         e3 = fail_if (i_now opts = Some None) ''now'' Bad_value;
                         (e4, groups) = check_filter_groups (i_filterGroups opts);
                         (e5, cmp) = (if present (i_compare opts)
                                      then (case validateCompare (the (i_compare opts)) ''compare'' of (e, c) \<Rightarrow> (e, Some c))
                                      else ([], None));
                         es = e1 @ e2 @ e3 @ e4 @ e5
                     in if es \<noteq> [] then Inl (Invalid_query es)
                        else Inr
                          \<lparr>q_tenantId = tenant,
                           q_timezone = (case str_of (i_timezone opts) of
                                           Some z \<Rightarrow> if z = [] then None else Some (normalizeTimeZone z) | None \<Rightarrow> None),
                           q_now = (case i_now opts of Some (Some t) \<Rightarrow> Some t | _ \<Rightarrow> None),
                           q_filterGroups = groups,
                           q_access = (case i_access opts of Some a \<Rightarrow> if isAccessScope a then Some a else None | None \<Rightarrow> None),
                           q_connectorIds = elems (get_prop ''connectorIds'' out),
                           q_filters = elems (get_prop ''filters'' out),
                           q_filtersOp = (case str_of (get_prop ''filtersOp'' out) of Some t \<Rightarrow> t | None \<Rightarrow> ''and''),
                           q_dateRange = get_prop ''dateRange'' out,
                           q_metrics = elems (get_prop ''metrics'' out),
                           q_groupBy = elems (get_prop ''groupBy'' out),
                           q_orderBy = elems (get_prop ''orderBy'' out),
                           q_pagination = (case get_prop ''pagination'' out of Some v \<Rightarrow> v | None \<Rightarrow> JObj []),
                           q_compare = cmp\<rparr>))))"

end
