(* ===== verification/QueryNormalForm.thy ===== *)
theory QueryNormalForm
  imports QueryContract "HOL-Library.Sublist"
begin

text \<open>
  The contract of analytics queries stated on its own, as a grammar of normal forms, and the proof
  that the validators of \<open>QueryContract\<close> implement it: what they accept comes out in normal form, and
  a normal form is accepted unchanged.
\<close>

section \<open>Normal forms\<close>

definition value_ok :: "string \<Rightarrow> string \<Rightarrow> json \<Rightarrow> bool" where
  "value_ok fd op v \<longleftrightarrow>
     (if op = ''in'' \<or> op = ''nin'' then
        \<exists>xs. v = JArr xs \<and> length xs \<le> 1000 \<and> (\<forall>x\<in>set xs. isScalar x \<and> (fd = ''connectorId'' \<longrightarrow> is_dataset_id x))
      else if op \<in> set RANGE_OPS then \<exists>q. v = JNum q
      else if op = ''exists'' then \<exists>b. v = JBool b
      else isScalar v \<and> (fd = ''connectorId'' \<longrightarrow> is_dataset_id v))"

definition filter_ok :: "json \<Rightarrow> bool" where
  "filter_ok f \<longleftrightarrow>
     (\<exists>fd op v. f = JObj [(''field'', JStr fd), (''op'', JStr op), (''value'', v)]
        \<and> safe_text fd \<and> \<not> isSensitiveFieldName fd \<and> fd \<notin> set NOT_FILTERABLE \<and> op \<in> set FILTER_OPS \<and> value_ok fd op v)"

definition alias_part :: "string option \<Rightarrow> (string \<times> json) list" where
  "alias_part a = (case a of None \<Rightarrow> [] | Some s \<Rightarrow> [(''alias'', JStr s)])"

definition metric_ok :: "json \<Rightarrow> bool" where
  "metric_ok m \<longleftrightarrow>
     (\<exists>a. (\<forall>s. a = Some s \<longrightarrow> safe_text s) \<and>
        ((\<exists>r. m = JObj ((''ref'', JStr r) # alias_part a) \<and> METRIC_REF_RE r \<noteq> None)
         \<or> (\<exists>op fd. m = JObj ((''op'', JStr op) # (''field'', JStr fd) # alias_part a) \<and> op \<in> set METRIC_OPS
              \<and> safe_text fd \<and> \<not> isSensitiveFieldName fd)
         \<or> m = JObj ((''op'', JStr ''count'') # alias_part a)))
     \<and> \<not> isReservedOutputName (metricAlias m)"

definition group_ok :: "json \<Rightarrow> bool" where
  "group_ok g \<longleftrightarrow>
     (\<exists>fd. safe_text fd \<and> \<not> isReservedOutputName fd \<and> \<not> isSensitiveFieldName fd \<and>
        (g = JObj [(''field'', JStr fd)]
         \<or> (\<exists>b. g = JObj [(''field'', JStr fd), (''bucket'', JStr b)] \<and> b \<in> set DATE_BUCKETS \<and> fd \<notin> set NOT_DATES)))"

definition order_ok :: "json \<Rightarrow> bool" where
  "order_ok x \<longleftrightarrow>
     (\<exists>fd d. x = JObj [(''field'', JStr fd), (''direction'', JStr d)] \<and> safe_text fd \<and> fd \<noteq> ''_id''
        \<and> \<not> isSensitiveFieldName fd \<and> d \<in> {''asc'', ''desc''})"

definition ids_ok :: "json \<Rightarrow> bool" where
  "ids_ok v \<longleftrightarrow> (\<exists>xs. v = JArr xs \<and> length xs \<le> 50 \<and> (\<forall>x\<in>set xs. is_dataset_id x))"

definition filters_ok :: "json \<Rightarrow> bool" where
  "filters_ok v \<longleftrightarrow> (\<exists>xs. v = JArr xs \<and> length xs \<le> 50 \<and> (\<forall>x\<in>set xs. filter_ok x))"

definition metrics_ok :: "json \<Rightarrow> bool" where
  "metrics_ok v \<longleftrightarrow> (\<exists>xs. v = JArr xs \<and> length xs \<le> 20 \<and> (\<forall>x\<in>set xs. metric_ok x) \<and> distinct (map metricAlias xs))"

definition field_name :: "json \<Rightarrow> string" where
  "field_name g = name_text (get_prop ''field'' g)"

definition groups_ok :: "json \<Rightarrow> bool" where
  "groups_ok v \<longleftrightarrow> (\<exists>xs. v = JArr xs \<and> length xs \<le> 5 \<and> (\<forall>x\<in>set xs. group_ok x) \<and> distinct (map field_name xs))"

definition orders_ok :: "json \<Rightarrow> bool" where
  "orders_ok v \<longleftrightarrow> (\<exists>xs. v = JArr xs \<and> length xs \<le> 5 \<and> (\<forall>x\<in>set xs. order_ok x))"

section \<open>Lists of items\<close>

lemma check_each_Cons:
  "check_each f i s (x # xs) = ([], zs) \<longleftrightarrow>
     (\<exists>s' y ys. f i s x = (s', [], y) \<and> check_each f (Suc i) s' xs = ([], ys) \<and> zs = y # ys)"
  by (auto split: prod.splits)

lemma check_each_Nil: "check_each f i s [] = ([], zs) \<longleftrightarrow> zs = []"
  by auto

declare check_each.simps [simp del]

text \<open>Without a shared variable: item by item.\<close>

lemma check_each_all:
  "check_each f i () xs = ([], ys) \<Longrightarrow> (\<And>j x y. f j () x = ((), [], y) \<Longrightarrow> P y) \<Longrightarrow> length ys = length xs \<and> (\<forall>y\<in>set ys. P y)"
  by (induction xs arbitrary: i ys) (auto simp: check_each_Cons check_each_Nil)

lemma check_each_id:
  "(\<And>j x. x \<in> set xs \<Longrightarrow> f j () x = ((), [], x)) \<Longrightarrow> check_each f i () xs = ([], xs)"
  by (induction xs arbitrary: i) (auto simp: check_each_Cons check_each_Nil)

text \<open>With the list of names seen so far: the names of the results are new and distinct.\<close>

lemma check_each_seen:
  assumes "\<And>j s x s' y. f j s x = (s', [], y) \<Longrightarrow> P y \<and> nm y \<notin> set s \<and> s' = s @ [nm y]"
  shows "check_each f i s xs = ([], ys) \<Longrightarrow>
     length ys = length xs \<and> (\<forall>y\<in>set ys. P y) \<and> distinct (map nm ys) \<and> set (map nm ys) \<inter> set s = {}"
proof (induction xs arbitrary: i s ys)
  case (Cons x xs)
  then obtain s' y zs where y: "f i s x = (s', [], y)" "check_each f (Suc i) s' xs = ([], zs)" "ys = y # zs"
    by (auto simp: check_each_Cons)
  note one = assms[OF y(1)]
  show ?case using Cons.IH[OF y(2)] one y(3) by auto
qed (simp add: check_each_Nil)

lemma check_each_seen_id:
  assumes "\<And>j s x. x \<in> set xs \<Longrightarrow> nm x \<notin> set s \<Longrightarrow> f j s x = (s @ [nm x], [], x)"
  shows "distinct (map nm xs) \<Longrightarrow> set (map nm xs) \<inter> set s = {} \<Longrightarrow> check_each f i s xs = ([], xs)"
  using assms
proof (induction xs arbitrary: i s)
  case (Cons x xs)
  have "f i s x = (s @ [nm x], [], x)" using Cons.prems by simp
  moreover have "check_each f (Suc i) (s @ [nm x]) xs = ([], xs)"
    using Cons.prems by (intro Cons.IH) auto
  ultimately show ?case by (simp add: check_each_Cons)
qed (simp add: check_each_Nil)

lemma obj_of_simps:
  "obj_of [] = JObj []"
  "obj_of ((k, Some v) # ps) = (case obj_of ps of JObj qs \<Rightarrow> JObj ((k, v) # qs) | w \<Rightarrow> w)"
  "obj_of ((k, None) # ps) = obj_of ps"
  by (simp_all add: obj_of_def)

lemma str_of_Some: "str_of v = Some s \<longleftrightarrow> v = Some (JStr s)"
  by (cases "v" rule: str_of.cases) auto

lemma isSafeName_iff: "isSafeName v \<longleftrightarrow> (\<exists>s. v = Some (JStr s) \<and> safe_text s)"
  by (cases v rule: str_of.cases) (auto simp: isSafeName_def)

lemma string_in_iff: "string_in v ss \<longleftrightarrow> (\<exists>s. v = Some (JStr s) \<and> s \<in> set ss)"
  by (cases v rule: str_of.cases) (auto simp: string_in_def)

lemma sensitive_field_Some [simp]: "sensitive_field (Some (JStr s)) = isSensitiveFieldName s"
  by (simp add: sensitive_field_def)

lemma given_safe: "safe_text s \<Longrightarrow> given (Some (JStr s))"
  by (auto simp: given_def safe_text_def)

lemma unknown_keys_Nil: "rejectUnknownKeys (JObj ps) ks p = [] \<longleftrightarrow> fst ` set ps \<subseteq> set ks"
  by (auto simp: rejectUnknownKeys_def filter_empty_conv)

section \<open>Filters\<close>

definition unopt :: "json option \<Rightarrow> json" where
  "unopt x = (case x of None \<Rightarrow> JNull | Some w \<Rightarrow> w)"

lemma in_values_ok:
  assumes "length values \<le> 1000" and "list_all (\<lambda>x. case x of None \<Rightarrow> False | Some w \<Rightarrow> isScalar w) values"
    and "fd = ''connectorId'' \<Longrightarrow> list_all (\<lambda>x. case x of None \<Rightarrow> False | Some w \<Rightarrow> is_dataset_id w) values"
  shows "\<exists>xs. JArr (map unopt values) = JArr xs \<and> length xs \<le> 1000
    \<and> (\<forall>x\<in>set xs. isScalar x \<and> (fd = ''connectorId'' \<longrightarrow> is_dataset_id x))"
  using assms by (auto simp: list_all_iff unopt_def split: option.splits)

lemma filter_value_ok:
  assumes c: "check_filter_value f op here = ([], v)" and f: "get_prop ''field'' f = Some (JStr fd)"
  shows "\<exists>w. v = Some w \<and> value_ok fd op w"
proof -
  consider (lst) "op = ''in'' \<or> op = ''nin''"
    | (range) "\<not> (op = ''in'' \<or> op = ''nin'')" "op \<in> set RANGE_OPS"
    | (exists) "op = ''exists''" "op \<notin> set RANGE_OPS" | (plain) "op \<noteq> ''in''" "op \<noteq> ''nin''" "op \<notin> set RANGE_OPS" "op \<noteq> ''exists''"
    by (auto simp: RANGE_OPS_def)
  then show ?thesis
  proof cases
    case lst
    let ?vals = "case get_prop ''value'' f of Some (JArr xs) \<Rightarrow> map Some xs | _ \<Rightarrow> [get_prop ''value'' f]"
    have "v = Some (JArr (map unopt ?vals))" "length ?vals \<le> 1000"
      "list_all (\<lambda>x. case x of None \<Rightarrow> False | Some w \<Rightarrow> isScalar w) ?vals"
      "fd = ''connectorId'' \<Longrightarrow> list_all (\<lambda>x. case x of None \<Rightarrow> False | Some w \<Rightarrow> is_dataset_id w) ?vals"
      using c f lst unfolding check_filter_value_def Let_def unopt_def by (simp_all split: if_splits)
    then show ?thesis using lst in_values_ok[of ?vals fd] by (simp add: value_ok_def)
  next
    case range
    then show ?thesis
      using c by (auto simp: check_filter_value_def value_ok_def Let_def split: option.splits json.splits if_splits)
  next
    case exists
    then show ?thesis
      using c by (auto simp: check_filter_value_def value_ok_def Let_def split: if_splits)
  next
    case plain
    then show ?thesis
      using c f by (auto simp: check_filter_value_def value_ok_def Let_def split: if_splits option.splits)
  qed
qed

lemma filter_value_id:
  assumes ok: "value_ok fd op v" and f: "f = JObj [(''field'', JStr fd), (''op'', JStr op), (''value'', v)]"
  shows "check_filter_value f op here = ([], Some v)"
proof -
  have g: "get_prop ''value'' f = Some v" "get_prop ''field'' f = Some (JStr fd)" using f by simp_all
  consider (lst) "op = ''in'' \<or> op = ''nin''"
    | (range) "op \<noteq> ''in''" "op \<noteq> ''nin''" "op \<in> set RANGE_OPS"
    | (exists) "op = ''exists''" "op \<notin> set RANGE_OPS" | (plain) "op \<noteq> ''in''" "op \<noteq> ''nin''" "op \<notin> set RANGE_OPS" "op \<noteq> ''exists''"
    by (auto simp: RANGE_OPS_def)
  then show ?thesis
  proof cases
    case lst
    then obtain xs where xs: "v = JArr xs" "length xs \<le> 1000" "\<forall>x\<in>set xs. isScalar x \<and> (fd = ''connectorId'' \<longrightarrow> is_dataset_id x)"
      using ok by (auto simp: value_ok_def)
    then show ?thesis using lst by (auto simp: check_filter_value_def g Let_def list_all_iff o_def)
  next
    case range
    then obtain q where "v = JNum q" using ok by (auto simp: value_ok_def)
    then show ?thesis using range by (simp add: check_filter_value_def g Let_def)
  next
    case exists
    then obtain b where "v = JBool b" using ok by (auto simp: value_ok_def)
    then show ?thesis using exists by (cases b) (simp_all add: check_filter_value_def g Let_def)
  next
    case plain
    then have "isScalar v" "fd = ''connectorId'' \<longrightarrow> is_dataset_id v" using ok by (auto simp: value_ok_def)
    then show ?thesis using plain by (simp add: check_filter_value_def g Let_def)
  qed
qed

lemma check_filter_ok: "check_filter p i () f = ((), [], y) \<Longrightarrow> filter_ok y"
proof -
  assume c: "check_filter p i () f = ((), [], y)"
  then obtain ps where f: "f = JObj ps" by (cases f) (auto simp: check_filter_def)
  obtain fd op where n: "get_prop ''field'' f = Some (JStr fd)" "safe_text fd" "\<not> isSensitiveFieldName fd"
      "fd \<notin> set NOT_FILTERABLE" "get_prop ''op'' f = Some (JStr op)" "op \<in> set FILTER_OPS"
    using c by (auto simp: check_filter_def Let_def isSafeName_iff string_in_iff f split: if_splits prod.splits)
  obtain v where v: "check_filter_value f op (at_index p i) = ([], v)"
      "y = obj_of [(''field'', Some (JStr fd)), (''op'', Some (JStr op)), (''value'', v)]"
    using c n by (auto simp: check_filter_def Let_def isSafeName_iff string_in_iff str_of_Some f split: if_splits prod.splits)
  from filter_value_ok[OF v(1) n(1)] obtain w where "v = Some w" "value_ok fd op w" by blast
  then show ?thesis using n v(2) by (auto simp: filter_ok_def obj_of_simps)
qed

lemma check_filter_id:
  assumes "filter_ok f" shows "check_filter p i () f = ((), [], f)"
proof -
  obtain fd op v where f: "f = JObj [(''field'', JStr fd), (''op'', JStr op), (''value'', v)]" "safe_text fd"
      "\<not> isSensitiveFieldName fd" "fd \<notin> set NOT_FILTERABLE" "op \<in> set FILTER_OPS" "value_ok fd op v"
    using assms by (auto simp: filter_ok_def)
  then show ?thesis
    using filter_value_id[OF f(6,1), of "at_index p i"]
    by (simp add: check_filter_def Let_def isSafeName_iff string_in_iff obj_of_simps unknown_keys_Nil)
qed

lemma validateFilters_ok: "validateFilters v p = ([], w) \<Longrightarrow> filters_ok w"
proof -
  assume a: "validateFilters v p = ([], w)"
  then obtain xs ys where "v = JArr xs" "check_each (check_filter p) 0 () xs = ([], ys)" "length xs \<le> 50" "w = JArr ys"
    by (cases v) (auto simp: validateFilters_def split: prod.splits)
  then show ?thesis
    using check_each_all[of "check_filter p" 0 xs ys filter_ok] check_filter_ok by (auto simp: filters_ok_def)
qed

lemma validateFilters_id: "filters_ok v \<Longrightarrow> validateFilters v p = ([], v)"
  using check_each_id[of _ "check_filter p" 0] check_filter_id
  by (auto simp: filters_ok_def validateFilters_def)

section \<open>Datasets, groups, orders\<close>

lemma validateConnectorIds_ok: "validateConnectorIds v p = ([], w) \<Longrightarrow> ids_ok w"
proof -
  assume a: "validateConnectorIds v p = ([], w)"
  let ?f = "\<lambda>i _ x. ((), fail_if (\<not> is_dataset_id x) (at_index p i) Bad_dataset_id, x)"
  obtain xs ys where "v = JArr xs" "check_each ?f 0 () xs = ([], ys)" "length xs \<le> 50" "w = JArr ys"
    using a by (cases v) (auto simp: validateConnectorIds_def split: prod.splits)
  then show ?thesis using check_each_all[of ?f 0 xs ys is_dataset_id] by (auto simp: ids_ok_def)
qed

lemma validateConnectorIds_id: "ids_ok v \<Longrightarrow> validateConnectorIds v p = ([], v)"
proof -
  assume "ids_ok v"
  then obtain xs where x: "v = JArr xs" "length xs \<le> 50" "\<forall>x\<in>set xs. is_dataset_id x" by (auto simp: ids_ok_def)
  have "check_each (\<lambda>i _ x. ((), fail_if (\<not> is_dataset_id x) (at_index p i) Bad_dataset_id, x)) 0 () xs = ([], xs)"
    using x(3) by (intro check_each_id) auto
  then show ?thesis using x(1,2) by (simp add: validateConnectorIds_def)
qed

lemma safe_not_Nil: "safe_text s \<Longrightarrow> s \<noteq> []"
  by (simp add: safe_text_def)

lemma check_group_ok:
  assumes "check_group p i seen g = (seen', [], y)"
  shows "group_ok y \<and> field_name y \<notin> set seen \<and> seen' = seen @ [field_name y]"
proof -
  let ?it = "field_item g"
  obtain ps where it: "?it = JObj ps"
    using assms by (cases "?it") (auto simp: check_group_def Let_def)
  have c: "isSafeName (get_prop ''field'' ?it)" "\<not> isReservedOutputName (name_text (get_prop ''field'' ?it))"
    "\<not> sensitive_field (get_prop ''field'' ?it)" "name_text (get_prop ''field'' ?it) \<notin> set seen"
    using assms it by (auto simp: check_group_def Let_def split: if_splits)
  then obtain fd where fd: "get_prop ''field'' ?it = Some (JStr fd)" "safe_text fd" by (auto simp: isSafeName_iff)
  let ?b = "get_prop ''bucket'' ?it"
  have b: "present ?b \<Longrightarrow> string_in ?b DATE_BUCKETS \<and> \<not> string_in (Some (JStr fd)) NOT_DATES"
    using assms it fd by (auto simp: check_group_def Let_def split: if_splits)
  have y: "y = obj_of [(''field'', Some (JStr fd)), (''bucket'', if present ?b then ?b else None)]"
    "seen' = seen @ [fd]"
    using assms it fd b c by (auto simp: check_group_def Let_def name_text_def split: if_splits)
  show ?thesis
  proof (cases "present ?b")
    case True
    then obtain bk where bk: "?b = Some (JStr bk)" "bk \<in> set DATE_BUCKETS" "fd \<notin> set NOT_DATES"
      using b by (auto simp: string_in_iff)
    then show ?thesis using y c fd True
      by (auto simp: obj_of_simps group_ok_def field_name_def name_text_def)
  next
    case False
    then show ?thesis using y c fd by (auto simp: obj_of_simps group_ok_def field_name_def name_text_def)
  qed
qed

lemma check_group_id:
  assumes "group_ok g" and "field_name g \<notin> set seen"
  shows "check_group p i seen g = (seen @ [field_name g], [], g)"
proof -
  obtain fd where fd: "safe_text fd" "\<not> isReservedOutputName fd" "\<not> isSensitiveFieldName fd"
    and g: "g = JObj [(''field'', JStr fd)]
        \<or> (\<exists>b. g = JObj [(''field'', JStr fd), (''bucket'', JStr b)] \<and> b \<in> set DATE_BUCKETS \<and> fd \<notin> set NOT_DATES)"
    using assms(1) by (auto simp: group_ok_def)
  have n: "field_item g = g" "is_object g" "get_prop ''field'' g = Some (JStr fd)" "field_name g = fd" "str_of (Some g) = None"
    "rejectUnknownKeys g [''field'', ''bucket''] (at_index p i) = []"
    using g by (auto simp: field_item_def field_name_def name_text_def unknown_keys_Nil)
  have "(let b = get_prop ''bucket'' g in (present b \<longrightarrow> string_in b DATE_BUCKETS \<and> \<not> string_in (Some (JStr fd)) NOT_DATES)
      \<and> obj_of [(''field'', Some (JStr fd)), (''bucket'', if present b then b else None)] = g)"
    using g by (auto simp: present_def string_in_iff obj_of_simps)
  then show ?thesis
    using n fd assms(2) unfolding check_group_def Let_def
    by (auto simp: name_text_def isSafeName_iff)
qed

lemma validateGroupBy_ok: "validateGroupBy v p = ([], w) \<Longrightarrow> groups_ok w"
proof -
  assume a: "validateGroupBy v p = ([], w)"
  then obtain xs ys where "v = JArr xs" "check_each (check_group p) 0 [] xs = ([], ys)" "length xs \<le> 5" "w = JArr ys"
    by (cases v) (auto simp: validateGroupBy_def split: prod.splits)
  then show ?thesis
    using check_each_seen[of "check_group p" group_ok field_name 0 "[]" xs ys] check_group_ok by (auto simp: groups_ok_def)
qed

lemma validateGroupBy_id: "groups_ok v \<Longrightarrow> validateGroupBy v p = ([], v)"
proof -
  assume "groups_ok v"
  then obtain xs where x: "v = JArr xs" "length xs \<le> 5" "\<forall>x\<in>set xs. group_ok x" "distinct (map field_name xs)"
    by (auto simp: groups_ok_def)
  have "check_each (check_group p) 0 [] xs = ([], xs)"
    using x(3,4) check_group_id by (intro check_each_seen_id[where nm = field_name]) auto
  then show ?thesis using x(1,2) by (simp add: validateGroupBy_def)
qed

lemma check_order_ok: "check_order p i () x = ((), [], y) \<Longrightarrow> order_ok y"
proof -
  assume c: "check_order p i () x = ((), [], y)"
  let ?it = "field_item x"
  obtain ps where it: "?it = JObj ps" using c by (cases "?it") (auto simp: check_order_def Let_def)
  have d: "isSafeName (get_prop ''field'' ?it)" "get_prop ''field'' ?it \<noteq> Some (JStr ''_id'')"
    "\<not> sensitive_field (get_prop ''field'' ?it)" "string_in (Some (order_direction ?it)) [''asc'', ''desc'']"
    "y = obj_of [(''field'', get_prop ''field'' ?it), (''direction'', Some (order_direction ?it))]"
    using c it by (auto simp: check_order_def Let_def split: if_splits)
  then obtain fd dr where "get_prop ''field'' ?it = Some (JStr fd)" "safe_text fd" "order_direction ?it = JStr dr" "dr \<in> {''asc'', ''desc''}"
    by (auto simp: isSafeName_iff string_in_iff)
  then show ?thesis using d by (auto simp: order_ok_def obj_of_simps)
qed

lemma check_order_id: "order_ok x \<Longrightarrow> check_order p i () x = ((), [], x)"
  by (auto simp: order_ok_def check_order_def Let_def field_item_def isSafeName_iff string_in_iff obj_of_simps
      unknown_keys_Nil order_direction_def nonnull_def)

lemma validateOrderBy_ok: "validateOrderBy v p = ([], w) \<Longrightarrow> orders_ok w"
proof -
  assume a: "validateOrderBy v p = ([], w)"
  then obtain xs ys where "v = JArr xs" "check_each (check_order p) 0 () xs = ([], ys)" "length xs \<le> 5" "w = JArr ys"
    by (cases v) (auto simp: validateOrderBy_def split: prod.splits)
  then show ?thesis
    using check_each_all[of "check_order p" 0 xs ys order_ok] check_order_ok by (auto simp: orders_ok_def)
qed

lemma validateOrderBy_id: "orders_ok v \<Longrightarrow> validateOrderBy v p = ([], v)"
  using check_each_id[of _ "check_order p" 0] check_order_id by (auto simp: orders_ok_def validateOrderBy_def)

section \<open>Metrics\<close>

lemma alias_part_cases:
  "obj_of [(''ref'', r), (''alias'', a)] = (case r of None \<Rightarrow> obj_of [(''alias'', a)] | Some w \<Rightarrow>
     JObj ((''ref'', w) # (case a of None \<Rightarrow> [] | Some v \<Rightarrow> [(''alias'', v)])))"
  by (simp add: obj_of_simps split: option.splits)

lemma metric_out:
  assumes "isSafeName alias \<or> \<not> given alias"
  shows "\<exists>a. (if given alias \<and> isSafeName alias then alias else None) = map_option JStr a
    \<and> (\<forall>s. a = Some s \<longrightarrow> safe_text s)"
proof (cases "given alias")
  case True
  then obtain s where "alias = Some (JStr s)" "safe_text s" using assms by (auto simp: isSafeName_iff)
  then show ?thesis using True by (intro exI[of _ "Some s"]) (simp add: isSafeName_iff)
qed (intro exI[of _ None], simp)

lemma obj_alias: "obj_of (ps @ [(''alias'', map_option JStr a)]) =
    (case obj_of ps of JObj qs \<Rightarrow> JObj (qs @ alias_part a) | w \<Rightarrow> w)"
  by (cases a) (auto simp: obj_of_def alias_part_def)

lemma check_metric_ok:
  assumes "check_metric p i seen m = (seen', [], y)"
  shows "metric_ok y \<and> metricAlias y \<notin> set seen \<and> seen' = seen @ [metricAlias y]"
proof -
  obtain ps where m: "m = JObj ps" using assms by (cases m) (auto simp: check_metric_def Let_def)
  let ?al = "get_prop ''alias'' m" and ?fd = "get_prop ''field'' m" and ?op = "get_prop ''op'' m" and ?rf = "get_prop ''ref'' m"
  have al: "isSafeName ?al \<or> \<not> given ?al"
    using assms m by (auto simp: check_metric_def Let_def split: if_splits)
  from metric_out[OF al] obtain a where a: "(if given ?al \<and> isSafeName ?al then ?al else None) = map_option JStr a"
    "\<forall>s. a = Some s \<longrightarrow> safe_text s" by blast
  show ?thesis
  proof (cases "?rf = None")
    case False
    have c: "y = obj_of ([(''ref'', ?rf)] @ [(''alias'', map_option JStr a)])"
      "\<not> (case str_of ?rf of None \<Rightarrow> True | Some r \<Rightarrow> METRIC_REF_RE r = None)"
      "seen' = seen @ [metricAlias y]" "\<not> isReservedOutputName (metricAlias y)" "metricAlias y \<notin> set seen"
      using assms m False a(1) by (auto simp: check_metric_def Let_def alias_problems_def)
    then obtain r where r: "?rf = Some (JStr r)" "METRIC_REF_RE r \<noteq> None"
      by (cases ?rf rule: str_of.cases) auto
    have "y = JObj ((''ref'', JStr r) # alias_part a)" using c(1) r(1) unfolding obj_alias by (simp add: obj_of_simps)
    then show ?thesis using c(3-5) r(2) a(2) unfolding metric_ok_def by blast
  next
    case True
    let ?f = "if given ?fd \<and> isSafeName ?fd \<and> \<not> sensitive_field ?fd then ?fd else None"
    have c: "y = obj_of ([(''op'', ?op), (''field'', ?f)] @ [(''alias'', map_option JStr a)])"
      "string_in ?op METRIC_OPS" "given ?fd \<Longrightarrow> isSafeName ?fd \<and> \<not> sensitive_field ?fd"
      "\<not> given ?fd \<Longrightarrow> ?op = Some (JStr ''count'')"
      "seen' = seen @ [metricAlias y]" "\<not> isReservedOutputName (metricAlias y)" "metricAlias y \<notin> set seen"
      using assms m True a(1) by (auto simp: check_metric_def Let_def alias_problems_def split: if_splits)
    then obtain op where op: "?op = Some (JStr op)" "op \<in> set METRIC_OPS" by (auto simp: string_in_iff)
    show ?thesis
    proof (cases "given ?fd")
      case True
      then obtain fd where fd: "?fd = Some (JStr fd)" "safe_text fd" "\<not> isSensitiveFieldName fd"
        using c(3) by (auto simp: isSafeName_iff)
      have "y = JObj ((''op'', JStr op) # (''field'', JStr fd) # alias_part a)"
        using c(1) op(1) fd True unfolding obj_alias by (simp add: obj_of_simps isSafeName_iff)
      then show ?thesis using c(5-7) op(2) fd a(2) unfolding metric_ok_def by blast
    next
      case False
      then have "y = JObj ((''op'', JStr ''count'') # alias_part a)"
        using c(1,4) unfolding obj_alias by (simp add: obj_of_simps)
      then show ?thesis using c(5-7) a(2) unfolding metric_ok_def by blast
    qed
  qed
qed

lemma alias_part_get:
  "map_of (alias_part a) ''alias'' = map_option JStr a"
  "k \<noteq> ''alias'' \<Longrightarrow> map_of (alias_part a) k = None"
  by (auto simp: alias_part_def split: option.splits)

lemma alias_part_given:
  assumes "\<forall>s. a = Some s \<longrightarrow> safe_text s"
  shows "(if given (map_option JStr a) \<and> isSafeName (map_option JStr a) then map_option JStr a else None) = map_option JStr a"
    "\<not> (given (map_option JStr a) \<and> \<not> isSafeName (map_option JStr a))"
  using assms by (cases a; auto simp: given_def isSafeName_iff safe_text_def)+

lemma check_metric_id:
  assumes "metric_ok m" and "metricAlias m \<notin> set seen"
  shows "check_metric p i seen m = (seen @ [metricAlias m], [], m)"
proof -
  obtain a where a: "\<forall>s. a = Some s \<longrightarrow> safe_text s" and res: "\<not> isReservedOutputName (metricAlias m)" and
    m: "(\<exists>r. m = JObj ((''ref'', JStr r) # alias_part a) \<and> METRIC_REF_RE r \<noteq> None)
         \<or> (\<exists>op fd. m = JObj ((''op'', JStr op) # (''field'', JStr fd) # alias_part a) \<and> op \<in> set METRIC_OPS
              \<and> safe_text fd \<and> \<not> isSensitiveFieldName fd)
         \<or> m = JObj ((''op'', JStr ''count'') # alias_part a)"
    using assms(1) by (auto simp: metric_ok_def)
  have keys: "fst ` set (alias_part a) \<subseteq> {''alias''}" by (auto simp: alias_part_def split: option.splits)
  consider (ref) r where "m = JObj ((''ref'', JStr r) # alias_part a)" "METRIC_REF_RE r \<noteq> None"
    | (field) op fd where "m = JObj ((''op'', JStr op) # (''field'', JStr fd) # alias_part a)" "op \<in> set METRIC_OPS"
        "safe_text fd" "\<not> isSensitiveFieldName fd"
    | (count) "m = JObj ((''op'', JStr ''count'') # alias_part a)"
    using m by blast
  then show ?thesis
  proof cases
    case ref
    have "obj_of ([(''ref'', Some (JStr r))] @ [(''alias'', map_option JStr a)]) = m"
      unfolding obj_alias using ref by (simp add: obj_of_simps)
    then show ?thesis
      using ref assms(2) res keys alias_part_given[OF a]
      by (simp add: check_metric_def Let_def alias_part_get alias_problems_def unknown_keys_Nil subset_iff)
  next
    case field
    have "obj_of ([(''op'', Some (JStr op)), (''field'', Some (JStr fd))] @ [(''alias'', map_option JStr a)]) = m"
      unfolding obj_alias using field by (simp add: obj_of_simps)
    then show ?thesis
      using field assms(2) res keys alias_part_given[OF a] given_safe[OF field(3)]
      by (simp add: check_metric_def Let_def alias_part_get alias_problems_def unknown_keys_Nil subset_iff
          isSafeName_iff string_in_iff)
  next
    case count
    have "obj_of ([(''op'', Some (JStr ''count'')), (''field'', None)] @ [(''alias'', map_option JStr a)]) = m"
      unfolding obj_alias using count by (simp add: obj_of_simps)
    moreover have "''count'' \<in> set METRIC_OPS" by (simp add: METRIC_OPS_def)
    ultimately show ?thesis
      using count assms(2) res keys alias_part_given[OF a]
      by (simp add: check_metric_def Let_def alias_part_get alias_problems_def unknown_keys_Nil subset_iff
          isSafeName_iff string_in_iff given_def)
  qed
qed

section \<open>Dates, pages, operators\<close>

definition opt_prop :: "string \<Rightarrow> string option \<Rightarrow> (string \<times> json) list" where
  "opt_prop k v = (case v of None \<Rightarrow> [] | Some s \<Rightarrow> [(k, JStr s)])"

definition bound_ok :: "(string \<Rightarrow> int option) \<Rightarrow> string option \<Rightarrow> boundary option \<Rightarrow> bool" where
  "bound_ok dp t b \<longleftrightarrow>
     (case t of None \<Rightarrow> b = None
      | Some s \<Rightarrow> b \<noteq> None \<and> s \<noteq> [] \<and> trim s = s \<and> parseBoundaryParts dp (Some (JStr s)) = b)"

definition ordered_bounds :: "boundary option \<Rightarrow> boundary option \<Rightarrow> bool" where
  "ordered_bounds a b \<longleftrightarrow>
     (case (a, b) of
        (Some x, Some y) \<Rightarrow> same_kind x y \<longrightarrow> boundary_utc x False \<le> boundary_utc y True
      | _ \<Rightarrow> True)"

definition date_range_ok :: "(string \<Rightarrow> int option) \<Rightarrow> json \<Rightarrow> bool" where
  "date_range_ok dp v \<longleftrightarrow>
     (\<exists>fd. safe_text fd \<and> fd \<notin> set NOT_DATES \<and>
        ((\<exists>pr. v = JObj [(''field'', JStr fd), (''preset'', JStr pr)] \<and> pr \<in> set DATE_PRESETS \<and> pr \<noteq> ''custom'')
         \<or> (\<exists>pr f t b1 b2. v = JObj ((''field'', JStr fd) # opt_prop ''preset'' pr @ opt_prop ''from'' f @ opt_prop ''to'' t)
              \<and> pr \<in> {None, Some ''custom''} \<and> (f \<noteq> None \<or> t \<noteq> None)
              \<and> bound_ok dp f b1 \<and> bound_ok dp t b2 \<and> ordered_bounds b1 b2)))"

definition num_prop :: "string \<Rightarrow> rat option \<Rightarrow> (string \<times> json) list" where
  "num_prop k v = (case v of None \<Rightarrow> [] | Some n \<Rightarrow> [(k, JNum n)])"

definition pagination_ok :: "json \<Rightarrow> bool" where
  "pagination_ok v \<longleftrightarrow>
     (\<exists>a b. v = JObj (num_prop ''page'' a @ num_prop ''limit'' b)
        \<and> (\<forall>n. a = Some n \<longrightarrow> whole_upto 100000 n) \<and> (\<forall>n. b = Some n \<longrightarrow> whole_upto 200 n))"

definition op_ok :: "json \<Rightarrow> bool" where
  "op_ok v \<longleftrightarrow> v = JStr ''and'' \<or> v = JStr ''or''"

lemma validateFiltersOp_ok: "validateFiltersOp v p = ([], w) \<Longrightarrow> op_ok w"
  by (auto simp: validateFiltersOp_def string_in_iff op_ok_def)

lemma validateFiltersOp_id: "op_ok v \<Longrightarrow> validateFiltersOp v p = ([], v)"
  by (auto simp: validateFiltersOp_def string_in_iff op_ok_def)

lemma check_page_ok:
  "check_page value k m p = ([], out) \<Longrightarrow> \<exists>a. out = map_option JNum a \<and> (\<forall>n. a = Some n \<longrightarrow> whole_upto m n)"
  by (cases "present (get_prop k value)"; cases "intOf (get_prop k value)")
    (auto simp: check_page_def Let_def split: if_splits intro: exI[of _ None] exI[of _ "intOf (get_prop k value)"])

lemma obj_of_nums: "obj_of [(''page'', map_option JNum a), (''limit'', map_option JNum b)] = JObj (num_prop ''page'' a @ num_prop ''limit'' b)"
  by (cases a; cases b) (simp_all add: obj_of_simps num_prop_def)

lemma validatePagination_ok: "validatePagination v p = ([], w) \<Longrightarrow> pagination_ok w"
proof -
  assume a: "validatePagination v p = ([], w)"
  obtain o1 o2 where o: "check_page v ''page'' 100000 p = ([], o1)" "check_page v ''limit'' 200 p = ([], o2)"
    "w = obj_of [(''page'', o1), (''limit'', o2)]"
    using a by (auto simp: validatePagination_def split: if_splits prod.splits)
  from check_page_ok[OF o(1)] check_page_ok[OF o(2)] show ?thesis
    unfolding o(3) pagination_ok_def using obj_of_nums by blast
qed

lemma check_page_id:
  "get_prop k value = map_option JNum a \<Longrightarrow> (\<forall>n. a = Some n \<longrightarrow> whole_upto m n) \<Longrightarrow>
     check_page value k m p = ([], map_option JNum a)"
  by (cases a) (simp_all add: check_page_def present_def intOf_def)

lemma validatePagination_id: "pagination_ok v \<Longrightarrow> validatePagination v p = ([], v)"
proof -
  assume "pagination_ok v"
  then obtain a b where v: "v = JObj (num_prop ''page'' a @ num_prop ''limit'' b)"
    and w: "\<forall>n. a = Some n \<longrightarrow> whole_upto 100000 n" "\<forall>n. b = Some n \<longrightarrow> whole_upto 200 n"
    by (auto simp: pagination_ok_def)
  have g: "get_prop ''page'' v = map_option JNum a" "get_prop ''limit'' v = map_option JNum b"
    using v by (auto simp: num_prop_def split: option.splits)
  have "rejectUnknownKeys v [''page'', ''limit''] p = []"
    using v by (auto simp: unknown_keys_Nil num_prop_def split: option.splits)
  then show ?thesis
    using check_page_id[OF g(1) w(1)] check_page_id[OF g(2) w(2)] v
    by (simp add: validatePagination_def obj_of_nums)
qed

lemma trim_trim [simp]: "trim (trim s) = trim s"
proof -
  let ?u = "dropWhile is_space s"
  let ?w = "dropWhile is_space (rev ?u)"
  have "suffix ?w (rev ?u)" by (rule suffix_dropWhile)
  then obtain z where z: "?u = rev ?w @ z" by (metis rev_append rev_rev_ident suffixE)
  have "dropWhile is_space (rev ?w) = rev ?w"
  proof (cases "rev ?w")
    case (Cons c cs)
    then have "?u = c # cs @ z" using z by simp
    then have "\<not> is_space c" using dropWhile_eq_Cons_conv[of is_space s c] by blast
    then show ?thesis using Cons by simp
  next
    case Nil
    then show ?thesis unfolding Nil by simp
  qed
  then show ?thesis by (simp add: trim_def)
qed

lemma parse_trim: "parseBoundaryParts dp (Some (JStr (trim s))) = parseBoundaryParts dp (Some (JStr s))"
  by (simp add: parseBoundaryParts_def)

lemma parse_not_blank: "parseBoundaryParts dp (Some (JStr s)) = Some b \<Longrightarrow> trim s \<noteq> []"
  by (auto simp: parseBoundaryParts_def DATE_ONLY_RE_def)

lemma boundary_problems_ok:
  assumes "boundary_problems dp v p = ([], b, out)"
  shows "\<exists>t. out = map_option JStr t \<and> bound_ok dp t b \<and> (t = None \<longleftrightarrow> \<not> given v)"
proof (cases "given v")
  case False
  then show ?thesis using assms by (intro exI[of _ None]) (simp add: boundary_problems_def bound_ok_def)
next
  case True
  then obtain bb where bb: "parseBoundaryParts dp v = Some bb" "b = Some bb" "out = map_option (\<lambda>t. JStr (trim t)) (str_of v)"
    using assms by (auto simp: boundary_problems_def split: option.splits)
  then obtain s where s: "v = Some (JStr s)"
    by (cases v rule: str_of.cases) (auto simp: parseBoundaryParts_def)
  then have "trim s \<noteq> []" "parseBoundaryParts dp (Some (JStr (trim s))) = Some bb"
    using bb(1) parse_not_blank by (auto simp: parse_trim)
  then show ?thesis using True s bb by (intro exI[of _ "Some (trim s)"]) (simp add: bound_ok_def)
qed

lemma boundary_problems_id:
  assumes "bound_ok dp t b"
  shows "boundary_problems dp (map_option JStr t) p = ([], b, map_option JStr t)"
  using assms by (cases t; cases b) (auto simp: bound_ok_def boundary_problems_def given_def)

lemma obj_of_dates:
  "obj_of [(''field'', Some (JStr fd)), (''preset'', map_option JStr pr), (''from'', map_option JStr f), (''to'', map_option JStr t)]
     = JObj ((''field'', JStr fd) # opt_prop ''preset'' pr @ opt_prop ''from'' f @ opt_prop ''to'' t)"
  by (cases pr; cases f; cases t) (simp_all add: obj_of_simps opt_prop_def)

lemma ordered_problems:
  "(case (b1, b2) of (Some x, Some y) \<Rightarrow> fail_if (same_kind x y \<and> boundary_utc y True < boundary_utc x False) p From_after_to
      | _ \<Rightarrow> []) = [] \<longleftrightarrow> ordered_bounds b1 b2"
  by (auto simp: ordered_bounds_def not_less split: option.splits)

lemma validateMetrics_ok: "validateMetrics v p = ([], w) \<Longrightarrow> metrics_ok w"
proof -
  assume a: "validateMetrics v p = ([], w)"
  then obtain xs ys where "v = JArr xs" "check_each (check_metric p) 0 [] xs = ([], ys)" "length xs \<le> 20" "w = JArr ys"
    by (cases v) (auto simp: validateMetrics_def split: prod.splits)
  then show ?thesis
    using check_each_seen[of "check_metric p" metric_ok metricAlias 0 "[]" xs ys] check_metric_ok by (auto simp: metrics_ok_def)
qed

lemma validateMetrics_id: "metrics_ok v \<Longrightarrow> validateMetrics v p = ([], v)"
proof -
  assume "metrics_ok v"
  then obtain xs where x: "v = JArr xs" "length xs \<le> 20" "\<forall>x\<in>set xs. metric_ok x" "distinct (map metricAlias xs)"
    by (auto simp: metrics_ok_def)
  have "check_each (check_metric p) 0 [] xs = ([], xs)"
    using x(3,4) check_metric_id by (intro check_each_seen_id[where nm = metricAlias]) auto
  then show ?thesis using x(1,2) by (simp add: validateMetrics_def)
qed

lemma date_field_ok:
  assumes "(if \<not> given field then [(fp, Field_required)] else if \<not> isSafeName field then [(fp, Bad_name)]
      else fail_if (string_in field NOT_DATES) fp Not_a_date) = []"
  shows "\<exists>fd. field = Some (JStr fd) \<and> safe_text fd \<and> fd \<notin> set NOT_DATES
    \<and> (if given field \<and> isSafeName field \<and> \<not> string_in field NOT_DATES then field else None) = Some (JStr fd)"
  using assms by (auto simp: isSafeName_iff string_in_iff split: if_splits)

lemma validateDateRange_ok:
  assumes a: "validateDateRange dp v p = ([], w)"
  shows "date_range_ok dp w"
proof -
  let ?fd = "get_prop ''field'' v" and ?pr = "get_prop ''preset'' v" and ?f = "get_prop ''from'' v" and ?t = "get_prop ''to'' v"
  obtain ps where v: "v = JObj ps" using a by (cases v) (auto simp: validateDateRange_def Let_def)
  have e1: "(if \<not> given ?fd then [(at_field p ''field'', Field_required)] else if \<not> isSafeName ?fd then [(at_field p ''field'', Bad_name)]
      else fail_if (string_in ?fd NOT_DATES) (at_field p ''field'') Not_a_date) = []"
    using a v unfolding validateDateRange_def Let_def by (simp split: if_splits prod.splits)
  from date_field_ok[OF e1] obtain fd where fd: "?fd = Some (JStr fd)" "safe_text fd" "fd \<notin> set NOT_DATES"
    "(if given ?fd \<and> isSafeName ?fd \<and> \<not> string_in ?fd NOT_DATES then ?fd else None) = Some (JStr fd)" by blast
  have pr: "present ?pr \<Longrightarrow> string_in ?pr DATE_PRESETS"
    using a v unfolding validateDateRange_def Let_def by (auto split: if_splits)
  have "\<exists>pr. (if present ?pr then ?pr else None) = map_option JStr pr \<and> (\<forall>s. pr = Some s \<longrightarrow> s \<in> set DATE_PRESETS)"
  proof (cases "present ?pr")
    case True
    then show ?thesis using pr by (auto simp: string_in_iff intro: exI[of _ "str_of ?pr"])
  qed (intro exI[of _ None], simp)
  then obtain pr where pr': "(if present ?pr then ?pr else None) = map_option JStr pr"
    "\<forall>s. pr = Some s \<longrightarrow> s \<in> set DATE_PRESETS" by blast
  show ?thesis
  proof (cases "pr = None \<or> pr = Some ''custom''")
    case False
    then obtain s where s: "pr = Some s" "s \<noteq> ''custom''" by (cases pr) auto
    have "w = obj_of [(''field'', Some (JStr fd)), (''preset'', Some (JStr s))]"
      using a v pr pr'(1) s fd(4) unfolding validateDateRange_def Let_def by (simp split: if_splits)
    then show ?thesis using fd s pr'(2) by (auto simp: date_range_ok_def obj_of_simps)
  next
    case True
    then have c: "\<not> ((if present ?pr then ?pr else None) \<noteq> None \<and> (if present ?pr then ?pr else None) \<noteq> Some (JStr ''custom''))"
      using pr'(1) by auto
    have g: "given ?f \<or> given ?t"
      using a v c pr unfolding validateDateRange_def Let_def by (simp split: if_splits)
    obtain b1 o1 b2 o2 where b: "boundary_problems dp ?f (at_field p ''from'') = ([], b1, o1)"
        "boundary_problems dp ?t (at_field p ''to'') = ([], b2, o2)"
      and o: "(case (b1, b2) of (Some x, Some y) \<Rightarrow> fail_if (same_kind x y \<and> boundary_utc y True < boundary_utc x False) p From_after_to
          | _ \<Rightarrow> []) = []"
      and w: "w = obj_of [(''field'', Some (JStr fd)), (''preset'', map_option JStr pr), (''from'', o1), (''to'', o2)]"
      using a v c g pr fd(4) pr'(1) unfolding validateDateRange_def Let_def by (simp split: if_splits prod.splits)
    from boundary_problems_ok[OF b(1)] obtain f where f: "o1 = map_option JStr f" "bound_ok dp f b1" "f = None \<longleftrightarrow> \<not> given ?f" by blast
    from boundary_problems_ok[OF b(2)] obtain t where t: "o2 = map_option JStr t" "bound_ok dp t b2" "t = None \<longleftrightarrow> \<not> given ?t" by blast
    have "w = JObj ((''field'', JStr fd) # opt_prop ''preset'' pr @ opt_prop ''from'' f @ opt_prop ''to'' t)"
      unfolding w f(1) t(1) by (rule obj_of_dates)
    moreover have "ordered_bounds b1 b2" using o by (simp only: ordered_problems)
    moreover have "f \<noteq> None \<or> t \<noteq> None" using g f(3) t(3) by blast
    ultimately show ?thesis using fd(2,3) True f(2) t(2) unfolding date_range_ok_def by blast
  qed
qed

lemma bound_given: "bound_ok dp t b \<Longrightarrow> t \<noteq> None \<Longrightarrow> given (map_option JStr t)"
  by (cases t) (simp_all add: bound_ok_def given_def)

lemma custom_preset: "''custom'' \<in> set DATE_PRESETS"
  by (simp add: DATE_PRESETS_def)

lemma date_get:
  assumes "v = JObj ((''field'', JStr fd) # opt_prop ''preset'' pr @ opt_prop ''from'' f @ opt_prop ''to'' t)"
  shows "get_prop ''field'' v = Some (JStr fd)" "get_prop ''preset'' v = map_option JStr pr"
    "get_prop ''from'' v = map_option JStr f" "get_prop ''to'' v = map_option JStr t" "is_object v"
    "rejectUnknownKeys v [''field'', ''preset'', ''from'', ''to''] p = []"
  unfolding assms by (cases pr; cases f; cases t; simp add: opt_prop_def unknown_keys_Nil)+

lemma validateDateRange_id:
  assumes "date_range_ok dp v"
  shows "validateDateRange dp v p = ([], v)"
proof -
  obtain fd where fd: "safe_text fd" "fd \<notin> set NOT_DATES" and
    v: "(\<exists>pr. v = JObj [(''field'', JStr fd), (''preset'', JStr pr)] \<and> pr \<in> set DATE_PRESETS \<and> pr \<noteq> ''custom'')
         \<or> (\<exists>pr f t b1 b2. v = JObj ((''field'', JStr fd) # opt_prop ''preset'' pr @ opt_prop ''from'' f @ opt_prop ''to'' t)
              \<and> pr \<in> {None, Some ''custom''} \<and> (f \<noteq> None \<or> t \<noteq> None)
              \<and> bound_ok dp f b1 \<and> bound_ok dp t b2 \<and> ordered_bounds b1 b2)"
    using assms unfolding date_range_ok_def by blast
  have f: "given (Some (JStr fd))" "isSafeName (Some (JStr fd))" "\<not> string_in (Some (JStr fd)) NOT_DATES"
    using fd by (auto simp: given_safe isSafeName_iff string_in_iff)
  from v show ?thesis
  proof
    assume "\<exists>pr. v = JObj [(''field'', JStr fd), (''preset'', JStr pr)] \<and> pr \<in> set DATE_PRESETS \<and> pr \<noteq> ''custom''"
    then obtain pr where p: "v = JObj [(''field'', JStr fd), (''preset'', JStr pr)]" "pr \<in> set DATE_PRESETS" "pr \<noteq> ''custom''" by blast
    have g: "get_prop ''field'' v = Some (JStr fd)" "get_prop ''preset'' v = Some (JStr pr)" "get_prop ''from'' v = None"
      "get_prop ''to'' v = None" "is_object v" using p by simp_all
    have "rejectUnknownKeys v [''field'', ''preset'', ''from'', ''to''] q = []" for q using p by (simp add: unknown_keys_Nil)
    then show ?thesis unfolding validateDateRange_def Let_def g
      using f p(2,3) by (simp add: present_def string_in_iff given_def obj_of_simps p(1))
  next
    assume "\<exists>pr f t b1 b2. v = JObj ((''field'', JStr fd) # opt_prop ''preset'' pr @ opt_prop ''from'' f @ opt_prop ''to'' t)
              \<and> pr \<in> {None, Some ''custom''} \<and> (f \<noteq> None \<or> t \<noteq> None)
              \<and> bound_ok dp f b1 \<and> bound_ok dp t b2 \<and> ordered_bounds b1 b2"
    then obtain pr fr t b1 b2 where d: "v = JObj ((''field'', JStr fd) # opt_prop ''preset'' pr @ opt_prop ''from'' fr @ opt_prop ''to'' t)"
        and pr: "pr \<in> {None, Some ''custom''}" and some: "fr \<noteq> None \<or> t \<noteq> None"
        and b: "bound_ok dp fr b1" "bound_ok dp t b2" "ordered_bounds b1 b2" by blast
    note g = date_get[OF d]
    have "given (map_option JStr fr) \<or> given (map_option JStr t)"
      using some bound_given[OF b(1)] bound_given[OF b(2)] by blast
    moreover have "present (map_option JStr pr) \<Longrightarrow> string_in (map_option JStr pr) DATE_PRESETS"
      using pr custom_preset by (cases pr) (simp_all add: string_in_iff present_def)
    moreover have "(if present (map_option JStr pr) then map_option JStr pr else None) = map_option JStr pr"
      by (cases pr) (simp_all add: present_def)
    moreover have "\<not> ((\<exists>y. pr = Some y) \<and> pr \<noteq> Some ''custom'')" using pr by blast
    moreover note o = b(3)[folded ordered_problems[where p = p]]
    ultimately show ?thesis unfolding validateDateRange_def Let_def g boundary_problems_id[OF b(1)] boundary_problems_id[OF b(2)]
      using f o g(5) obj_of_dates[of fd pr fr t, folded d] by (cases "pr = None") simp_all
  qed
qed

section \<open>The rules across parts\<close>

definition part_ok :: "(string \<Rightarrow> int option) \<Rightarrow> string \<Rightarrow> json \<Rightarrow> bool" where
  "part_ok dp k v \<longleftrightarrow>
     (if k = ''connectorIds'' then ids_ok v
      else if k = ''filters'' then filters_ok v
      else if k = ''filtersOp'' then op_ok v
      else if k = ''dateRange'' then date_range_ok dp v
      else if k = ''metrics'' then metrics_ok v
      else if k = ''groupBy'' then groups_ok v
      else if k = ''orderBy'' then orders_ok v
      else pagination_ok v)"

lemma if_both:
  "(if c then f else g) v p = r \<Longrightarrow> (f v p = r \<Longrightarrow> A) \<Longrightarrow> (g v p = r \<Longrightarrow> B) \<Longrightarrow> if c then A else B"
  by (simp split: if_splits)

lemma if_both_id:
  "(if c then A else B) \<Longrightarrow> (A \<Longrightarrow> f v p = r) \<Longrightarrow> (B \<Longrightarrow> g v p = r) \<Longrightarrow> (if c then f else g) v p = r"
  by (simp split: if_splits)

lemma VALIDATORS_ok: "VALIDATORS dp k v p = ([], w) \<Longrightarrow> part_ok dp k w"
  unfolding VALIDATORS_def part_ok_def
  by (elim if_both; elim validateConnectorIds_ok validateFilters_ok validateFiltersOp_ok validateDateRange_ok validateMetrics_ok
      validateGroupBy_ok validateOrderBy_ok validatePagination_ok)

lemma VALIDATORS_id: "part_ok dp k v \<Longrightarrow> VALIDATORS dp k v p = ([], v)"
  unfolding VALIDATORS_def part_ok_def
  by (elim if_both_id; elim validateConnectorIds_id validateFilters_id validateFiltersOp_id validateDateRange_id validateMetrics_id
      validateGroupBy_id validateOrderBy_id validatePagination_id)

lemma ok_not_null:
  "\<not> ids_ok JNull" "\<not> filters_ok JNull" "\<not> op_ok JNull" "\<not> date_range_ok dp JNull" "\<not> metrics_ok JNull"
  "\<not> groups_ok JNull" "\<not> orders_ok JNull" "\<not> pagination_ok JNull"
  by (simp_all add: ids_ok_def filters_ok_def op_ok_def date_range_ok_def metrics_ok_def groups_ok_def orders_ok_def
      pagination_ok_def)

lemma part_not_null: "\<not> part_ok dp k JNull"
  unfolding part_ok_def by (simp only: ok_not_null if_cancel simp_thms if_False)

text \<open>What a query outputs: the group fields and the metrics, or \<open>count\<close> when it names no metric.\<close>

definition outputs :: "json \<Rightarrow> string set" where
  "outputs q =
     field_name ` set (elems (get_prop ''groupBy'' q))
       \<union> (if elems (get_prop ''metrics'' q) = [] then {''count''} else metricAlias ` set (elems (get_prop ''metrics'' q)))"

text \<open>An aggregation's outputs do not collide, and it is ordered by its outputs only.\<close>

definition combined_ok :: "json \<Rightarrow> bool" where
  "combined_ok q \<longleftrightarrow>
     (let gs = elems (get_prop ''groupBy'' q); ms = elems (get_prop ''metrics'' q) in
      gs = [] \<and> ms = []
      \<or> (metricAlias ` set ms \<inter> field_name ` set gs = {} \<and> (ms = [] \<longrightarrow> ''count'' \<notin> field_name ` set gs)
         \<and> field_name ` set (elems (get_prop ''orderBy'' q)) \<subseteq> outputs q))"

definition query_ok :: "(string \<Rightarrow> int option) \<Rightarrow> json \<Rightarrow> bool" where
  "query_ok dp q \<longleftrightarrow>
     (\<exists>ps. q = JObj ps \<and> (\<forall>(k, v)\<in>set ps. k \<in> set QUERY_KEYS \<and> part_ok dp k v) \<and> combined_ok q)"

lemma indexed_fails:
  "concat (map (\<lambda>(i, m). fail_if (P m) (h i) e) (indexed ms)) = [] \<longleftrightarrow> (\<forall>m\<in>set ms. \<not> P m)"
proof -
  have "(\<forall>(i, m)\<in>set (indexed ms). \<not> P m) \<longleftrightarrow> (\<forall>m\<in>snd ` set (indexed ms). \<not> P m)" by auto
  also have "snd ` set (indexed ms) = set ms" by (simp add: indexed_def set_map[symmetric] del: set_map)
  finally show ?thesis by (auto simp: case_prod_unfold)
qed

lemma joined_Nil: "(if b then [] else c1 @ (if d then c2 else []) @ c3) = [] \<longleftrightarrow> b \<or> (c1 = [] \<and> (d \<longrightarrow> c2 = []) \<and> c3 = [])"
  by simp

lemma group_named: "group_ok g \<Longrightarrow> is_object g \<and> get_prop ''field'' g = Some (JStr (field_name g))"
  by (auto simp: group_ok_def field_name_def name_text_def)

lemma order_named: "order_ok r \<Longrightarrow> is_object r \<and> get_prop ''field'' r = Some (JStr (field_name r)) \<and> isSafeName (get_prop ''field'' r)"
  by (auto simp: order_ok_def field_name_def name_text_def isSafeName_iff)

lemma metric_object: "metric_ok m \<Longrightarrow> is_object m"
  by (auto simp: metric_ok_def)

lemma part_elems:
  assumes "\<forall>(k, v)\<in>set ps. k \<in> set QUERY_KEYS \<and> part_ok dp k v"
  shows "g \<in> set (elems (get_prop ''groupBy'' (JObj ps))) \<Longrightarrow> group_ok g"
    "m \<in> set (elems (get_prop ''metrics'' (JObj ps))) \<Longrightarrow> metric_ok m"
    "r \<in> set (elems (get_prop ''orderBy'' (JObj ps))) \<Longrightarrow> order_ok r"
proof -
  have p: "\<And>k v. map_of ps k = Some v \<Longrightarrow> part_ok dp k v" using assms map_of_SomeD by fastforce
  show "g \<in> set (elems (get_prop ''groupBy'' (JObj ps))) \<Longrightarrow> group_ok g"
    using p[of "''groupBy''"] by (cases "map_of ps ''groupBy''") (auto simp: part_ok_def groups_ok_def)
  show "m \<in> set (elems (get_prop ''metrics'' (JObj ps))) \<Longrightarrow> metric_ok m"
    using p[of "''metrics''"] by (cases "map_of ps ''metrics''") (auto simp: part_ok_def metrics_ok_def)
  show "r \<in> set (elems (get_prop ''orderBy'' (JObj ps))) \<Longrightarrow> order_ok r"
    using p[of "''orderBy''"] by (cases "map_of ps ''orderBy''") (auto simp: part_ok_def orders_ok_def)
qed

lemma combination_iff:
  assumes "\<forall>(k, v)\<in>set ps. k \<in> set QUERY_KEYS \<and> part_ok dp k v"
  shows "validateCombination (JObj ps) pre = [] \<longleftrightarrow> combined_ok (JObj ps)"
proof -
  let ?g = "elems (get_prop ''groupBy'' (JObj ps))" and ?m = "elems (get_prop ''metrics'' (JObj ps))"
    and ?o = "elems (get_prop ''orderBy'' (JObj ps))"
  have g: "\<And>x. x \<in> set ?g \<Longrightarrow> is_object x \<and> get_prop ''field'' x = Some (JStr (field_name x))"
    and m: "\<And>x. x \<in> set ?m \<Longrightarrow> is_object x"
    and o: "\<And>x. x \<in> set ?o \<Longrightarrow> is_object x \<and> get_prop ''field'' x = Some (JStr (field_name x)) \<and> isSafeName (get_prop ''field'' x)"
    using part_elems[OF assms] group_named metric_object order_named by blast+
  have fg: "filter is_object ?g = ?g" "filter is_object ?m = ?m" using g m by (simp_all add: filter_id_conv)
  have outs: "set (query_outputs ?g ?m) = (Some \<circ> JStr) ` outputs (JObj ps)"
    using g unfolding query_outputs_def outputs_def by (force simp: image_Un image_image)
  have one: "(\<forall>x\<in>set ?m. Some (JStr (metricAlias x)) \<notin> set (map (get_prop ''field'') ?g)) \<longleftrightarrow> metricAlias ` set ?m \<inter> field_name ` set ?g = {}"
    using g by force
  have two: "(\<forall>x\<in>set ?g. \<not> (is_object x \<and> get_prop ''field'' x = Some (JStr ''count''))) \<longleftrightarrow> ''count'' \<notin> field_name ` set ?g"
    using g by force
  have three: "(\<forall>x\<in>set ?o. \<not> (is_object x \<and> isSafeName (get_prop ''field'' x) \<and> get_prop ''field'' x \<notin> set (query_outputs ?g ?m)))
      \<longleftrightarrow> field_name ` set ?o \<subseteq> outputs (JObj ps)"
    using o unfolding outs by fastforce
  show ?thesis
    unfolding validateCombination_def combined_ok_def Let_def fg by (simp only: joined_Nil indexed_fails one two three)
qed

lemma collect_props_ok:
  "collect_props dp QUERY_KEYS [] pre ps = ([], out) \<Longrightarrow> \<forall>(k, v)\<in>set out. k \<in> set QUERY_KEYS \<and> part_ok dp k v"
proof (induction ps arbitrary: out)
  case (Cons x ps)
  obtain k v where x: "x = (k, v)" by (cases x)
  obtain es rest where r: "collect_props dp QUERY_KEYS [] pre ps = (es, rest)" by fastforce
  have k: "k \<in> set QUERY_KEYS" using Cons.prems r x by (auto split: if_splits)
  show ?case
  proof (cases "v = JNull")
    case True
    then have "es = []" "out = rest" using Cons.prems r x k by simp_all
    then show ?thesis using Cons.IH[of rest] r by simp
  next
    case False
    then obtain w where w: "VALIDATORS dp k v (pre @ k) = ([], w)" "es = []" "out = (k, w) # rest"
      using Cons.prems r x k by (auto split: prod.splits)
    then show ?thesis using Cons.IH[of rest] r k VALIDATORS_ok[OF w(1)] by simp
  qed
qed simp

lemma collect_props_id:
  "\<forall>(k, v)\<in>set ps. k \<in> set QUERY_KEYS \<and> part_ok dp k v \<Longrightarrow> collect_props dp QUERY_KEYS [] pre ps = ([], ps)"
proof (induction ps)
  case (Cons x ps)
  obtain k v where x: "x = (k, v)" by (cases x)
  then have "VALIDATORS dp k v (pre @ k) = ([], v)" "v \<noteq> JNull" "k \<in> set QUERY_KEYS"
    using Cons.prems VALIDATORS_id part_not_null by fastforce+
  then show ?case using Cons x by simp
qed simp

lemma collect_ok: "collect dp QUERY_KEYS [] pre input = ([], out) \<Longrightarrow> query_ok dp out"
proof -
  assume a: "collect dp QUERY_KEYS [] pre input = ([], out)"
  then obtain ps qs where ps: "input = JObj ps" "collect_props dp QUERY_KEYS [] pre ps = ([], qs)" "out = JObj qs"
      "validateCombination (JObj qs) pre = []"
    by (cases input) (auto simp: collect_def split: prod.splits)
  note parts = collect_props_ok[OF ps(2)]
  then show ?thesis using ps(3,4) combination_iff[OF parts] by (simp add: query_ok_def)
qed

lemma collect_id: "query_ok dp q \<Longrightarrow> collect dp QUERY_KEYS [] pre q = ([], q)"
  using combination_iff collect_props_id by (auto simp: query_ok_def collect_def)

section \<open>The properties\<close>

text \<open> C19.
  Refinement of the query contract. What \<open>validateQuery\<close> accepts, from any JSON value, comes out in
  the normal form of the grammar: known keys only, every part within its limits and in its one
  shape, no credential-like field in a filter, metric, group or order, unambiguous outputs.\<close>
theorem query_contract_sound:
  assumes "validateQuery dp QUERY_KEYS [] pre input = Inr out"
  shows "query_ok dp out"
  using assms collect_ok[of dp pre input] by (auto simp: validateQuery_def split: prod.splits if_splits)

theorem query_contract_sound_witness:
  "query_ok (\<lambda>_. None) (JObj [(''groupBy'', JArr [JObj [(''field'', JStr ''a'')]])])"
proof -
  have "validateQuery (\<lambda>_. None) QUERY_KEYS [] [] (JObj [(''groupBy'', JArr [JStr ''a''])])
      = Inr (JObj [(''groupBy'', JArr [JObj [(''field'', JStr ''a'')]])])"
    by code_simp
  then show ?thesis by (rule query_contract_sound)
qed

text \<open> C38.
  The query contract is idempotent. Whatever query `validateQuery` accepts, the value it returns is
  accepted again and returned unchanged, under any prefix for its messages: the short forms it expands
  (a column name given as a string, a default direction) and the values it normalises (dates, numbers,
  trimmed names) are already expanded and normalised in its result, so a stored definition can be
  validated on every run without drifting or being refused later.\<close>
theorem query_contract_idempotent:
  assumes "validateQuery dp QUERY_KEYS [] pre input = Inr q"
  shows "validateQuery dp QUERY_KEYS [] pre' q = Inr q"
proof -
  have "query_ok dp q"
    using assms collect_ok[of dp pre input] by (auto simp: validateQuery_def split: prod.splits if_splits)
  then show ?thesis by (simp add: validateQuery_def collect_id)
qed

theorem query_contract_idempotent_witness:
  "validateQuery (\<lambda>_. None) QUERY_KEYS [] ''spec.'' (JObj [(''groupBy'', JArr [JObj [(''field'', JStr ''a'')]])])
    = Inr (JObj [(''groupBy'', JArr [JObj [(''field'', JStr ''a'')]])])"
proof -
  have "validateQuery (\<lambda>_. None) QUERY_KEYS [] [] (JObj [(''groupBy'', JArr [JStr ''a''])])
      = Inr (JObj [(''groupBy'', JArr [JObj [(''field'', JStr ''a'')]])])"
    by code_simp
  then show ?thesis by (rule query_contract_idempotent)
qed

end
