(* ===== verification/Bson.thy ===== *)
theory Bson
  imports Json
begin

text \<open>
  The documents sent to MongoDB (match bodies, expressions, pipeline stages) as data. An object id is
  kept in lower case, since \<open>new ObjectId\<close> reads hexadecimal digits of either case. The meaning the
  database gives to a document is not code of the repository: \<open>mongo_reads\<close> states the documented
  meaning of the operators the properties rely on, about an evaluator that stays an argument.
\<close>

datatype bson =
    B_null
  | B_bool bool
  | B_num rat
  | B_str string
  | B_date int
  | B_oid string
  | B_arr "bson list"
  | B_doc "(string \<times> bson) list"

definition object_id :: "string \<Rightarrow> bson" where
  "object_id s = B_oid (to_lower s)"

text \<open>A JSON value as the driver encodes it.\<close>

fun of_json :: "json \<Rightarrow> bson" where
  "of_json JNull = B_null"
| "of_json (JBool b) = B_bool b"
| "of_json (JNum n) = B_num n"
| "of_json (JStr s) = B_str s"
| "of_json (JArr xs) = B_arr (map of_json xs)"
| "of_json (JObj ps) = B_doc (map (\<lambda>(k, v). (k, of_json v)) ps)"

abbreviation b_op :: "string \<Rightarrow> bson \<Rightarrow> bson" where
  "b_op k v \<equiv> B_doc [(k, v)]"

text \<open>
  The documented meaning of match bodies and boolean expressions: a match body holds when all its
  fields do, an equality on a text field compares it, \<open>$in\<close> with nothing matches nothing, \<open>$nin\<close>
  excludes, and \<open>$and\<close>, \<open>$or\<close>, \<open>$ne\<close> and booleans mean what they say. \<open>tenant\<close>, \<open>dataset\<close> and
  \<open>deleted\<close> read the stored row.
\<close>

definition match_fields :: "(bson \<Rightarrow> 'r \<Rightarrow> bool) \<Rightarrow> bool" where
  "match_fields matches \<longleftrightarrow>
     (\<forall>kvs r. matches (B_doc kvs) r \<longleftrightarrow> (\<forall>kv\<in>set kvs. matches (B_doc [kv]) r))"

definition match_row ::
  "(bson \<Rightarrow> 'r \<Rightarrow> bool) \<Rightarrow> ('r \<Rightarrow> string) \<Rightarrow> ('r \<Rightarrow> string) \<Rightarrow> ('r \<Rightarrow> bool) \<Rightarrow> bool" where
  "match_row matches tenant dataset deleted \<longleftrightarrow>
     (\<forall>t r. matches (B_doc [(''tenantId'', B_str t)]) r \<longleftrightarrow> tenant r = t)
   \<and> (\<forall>r. matches (B_doc [(''deletedAt'', B_null)]) r \<longleftrightarrow> \<not> deleted r)
   \<and> (\<forall>r. \<not> matches (B_doc [(''_id'', B_doc [(''$in'', B_arr [])])]) r)
   \<and> (\<forall>ids r. matches (B_doc [(''connectorId'', B_doc [(''$in'', B_arr (map object_id ids))])]) r
        \<longleftrightarrow> to_lower (dataset r) \<in> to_lower ` set ids)
   \<and> (\<forall>ids r. matches (B_doc [(''connectorId'', B_doc [(''$nin'', B_arr (map object_id ids))])]) r
        \<longleftrightarrow> to_lower (dataset r) \<notin> to_lower ` set ids)"

definition expr_reads :: "(bson \<Rightarrow> 'r \<Rightarrow> bool) \<Rightarrow> (bson \<Rightarrow> 'r \<Rightarrow> bool) \<Rightarrow> ('r \<Rightarrow> string) \<Rightarrow> bool" where
  "expr_reads matches holds dataset \<longleftrightarrow>
     (\<forall>e r. matches (B_doc [(''$expr'', e)]) r \<longleftrightarrow> holds e r)
   \<and> (\<forall>es r. holds (B_doc [(''$and'', B_arr es)]) r \<longleftrightarrow> (\<forall>e\<in>set es. holds e r))
   \<and> (\<forall>es r. holds (B_doc [(''$or'', B_arr es)]) r \<longleftrightarrow> (\<exists>e\<in>set es. holds e r))
   \<and> (\<forall>b r. holds (B_bool b) r \<longleftrightarrow> b)
   \<and> (\<forall>c r. holds (B_doc [(''$ne'', B_arr [B_str ''$connectorId'', object_id c])]) r \<longleftrightarrow> to_lower (dataset r) \<noteq> to_lower c)"

definition mongo_reads ::
  "(bson \<Rightarrow> 'r \<Rightarrow> bool) \<Rightarrow> (bson \<Rightarrow> 'r \<Rightarrow> bool) \<Rightarrow> ('r \<Rightarrow> string) \<Rightarrow> ('r \<Rightarrow> string) \<Rightarrow> ('r \<Rightarrow> bool) \<Rightarrow> bool" where
  "mongo_reads matches holds tenant dataset deleted \<longleftrightarrow>
     match_fields matches \<and> match_row matches tenant dataset deleted \<and> expr_reads matches holds dataset"

end
