(* ===== verification/DataAccess.thy ===== *)
theory DataAccess
  imports QueryContract Bson "HOL-Library.List_Lexorder" "HOL-Library.Char_ord"
begin

text \<open>
  \<open>src/services/dataAccess.service.js\<close>: which datasets, and which rows of them, an actor may read.
  The collections the service reads and writes are a record of lists. The actor's permission keys
  (\<open>resolveActorPermissions\<close>) are an argument. An access scope is a value of its own type, which stands
  for the brand: request input is JSON and never a scope. Audit records (best effort) are left out.
\<close>

section \<open>Stored documents\<close>

record grant =
  g_subjectType :: string
  g_subjectId :: string
  g_level :: string

record dataset_access =
  da_tenantId :: string
  da_connectorId :: string
  da_restricted :: bool
  da_grants :: "grant list"

record row_policy =
  rp_id :: string
  rp_tenantId :: string
  rp_connectorId :: string
  rp_field :: string
  rp_op :: string
  rp_attribute :: string
  rp_enabled :: bool

record member =
  u_id :: string
  u_tenantId :: string
  u_active :: bool
  u_attributes :: "(string \<times> json) list"

record role_grant =
  ur_tenantId :: string
  ur_userId :: string
  ur_roleId :: string
  ur_expiresAt :: "int option"

record access_store =
  s_connectors :: "(string \<times> string) list"
  s_datasets :: "dataset_access list"
  s_policies :: "row_policy list"
  s_users :: "member list"
  s_userRoles :: "role_grant list"
  s_roles :: "(string \<times> string) list"

definition GRANT_LEVELS :: "string list" where
  "GRANT_LEVELS = [''view'', ''query'', ''manage'']"

definition GRANT_SUBJECTS :: "string list" where
  "GRANT_SUBJECTS = [''user'', ''role'']"

definition ROW_POLICY_OPS :: "string list" where
  "ROW_POLICY_OPS = [''eq'', ''in'']"

definition QUERY_LEVELS :: "string list" where
  "QUERY_LEVELS = [''query'', ''manage'']"

definition RESERVED_FIELDS :: "string list" where
  "RESERVED_FIELDS = [''tenantId'', ''connectorId'', ''sourceRowId'', ''ingestedAt'']"

definition CONFIGURE_PERMISSION :: string where
  "CONFIGURE_PERMISSION = ''data_access.configure''"

definition word_start :: "char \<Rightarrow> bool" where
  "word_start c \<longleftrightarrow> is_upper c \<or> is_lower c \<or> c = CHR ''_''"

definition SAFE_NAME_RE :: "string \<Rightarrow> bool" where
  "SAFE_NAME_RE s \<longleftrightarrow> s \<noteq> [] \<and> length s \<le> 128 \<and> word_start (hd s)
     \<and> list_all (\<lambda>c. word_start c \<or> is_digit c \<or> c = CHR ''.'' \<or> c = CHR ''-'') (tl s)"

definition ATTRIBUTE_RE :: "string \<Rightarrow> bool" where
  "ATTRIBUTE_RE s \<longleftrightarrow> s \<noteq> [] \<and> length s \<le> 64 \<and> word_start (hd s) \<and> list_all (\<lambda>c. word_start c \<or> is_digit c) (tl s)"

section \<open>Scopes\<close>

text \<open>A row scope is \<open>none\<close> (no row of the dataset) or the filters every row must satisfy.\<close>

record row_scope =
  rs_connectorId :: string
  rs_filters :: "json list option"

record access_scope =
  bypass :: bool
  denied :: "string list"
  hidden :: "string list"
  rowScopes :: "row_scope list"

definition makeScope :: "bool \<Rightarrow> string list \<Rightarrow> string list \<Rightarrow> row_scope list \<Rightarrow> access_scope" where
  "makeScope b d h rs = \<lparr>bypass = b, denied = d, hidden = h, rowScopes = rs\<rparr>"

text \<open>Who asks: an admin, a user (by the id the actor carries), or anybody else.\<close>

datatype actor = Admin_actor | User_actor string | Other_actor

definition userDataActor :: "string \<Rightarrow> actor" where
  "userDataActor uid = (if OBJECT_ID_RE uid then User_actor uid else Other_actor)"

definition attributeValues :: "json option \<Rightarrow> string list" where
  "attributeValues v =
     (let xs = (case v of Some (JArr ys) \<Rightarrow> ys | None \<Rightarrow> [] | Some JNull \<Rightarrow> [] | Some w \<Rightarrow> [w])
      in filter (\<lambda>s. s \<noteq> []) (concat (map (\<lambda>x. case x of JStr s \<Rightarrow> [s] | _ \<Rightarrow> []) xs)))"

definition active_member :: "access_store \<Rightarrow> string \<Rightarrow> actor \<Rightarrow> member option" where
  "active_member st tenant who =
     (case who of
        User_actor uid \<Rightarrow>
          (if OBJECT_ID_RE uid then find (\<lambda>u. u_id u = to_lower uid \<and> u_tenantId u = tenant \<and> u_active u) (s_users st) else None)
      | _ \<Rightarrow> None)"

definition live_roles :: "access_store \<Rightarrow> string \<Rightarrow> string \<Rightarrow> int \<Rightarrow> string list" where
  "live_roles st tenant uid now =
     map ur_roleId (filter (\<lambda>g. ur_tenantId g = tenant \<and> ur_userId g = uid
       \<and> (case ur_expiresAt g of None \<Rightarrow> True | Some e \<Rightarrow> e > now)) (s_userRoles st))"

definition matching_grants :: "member option \<Rightarrow> string list \<Rightarrow> dataset_access \<Rightarrow> grant list" where
  "matching_grants user roleIds access =
     (case user of
        None \<Rightarrow> []
      | Some u \<Rightarrow> filter (\<lambda>g. (g_subjectType g = ''user'' \<and> g_subjectId g = u_id u)
                          \<or> (g_subjectType g = ''role'' \<and> g_subjectId g \<in> set roleIds)) (da_grants access))"

definition eq_filter :: "string \<Rightarrow> string \<Rightarrow> json" where
  "eq_filter fd v = JObj [(''field'', JStr fd), (''op'', JStr ''eq''), (''value'', JStr v)]"

definition in_filter :: "string \<Rightarrow> string list \<Rightarrow> json" where
  "in_filter fd vs = JObj [(''field'', JStr fd), (''op'', JStr ''in''), (''value'', JArr (map JStr vs))]"

text \<open>The loop over the policies: an entry per dataset, with its filters and its \<open>none\<close> mark.\<close>

definition policy_step ::
  "string list \<Rightarrow> (string \<times> json) list \<Rightarrow> row_policy \<Rightarrow> (string \<times> json list \<times> bool) list \<Rightarrow> (string \<times> json list \<times> bool) list" where
  "policy_step deniedSet attributes policy m =
     (if rp_connectorId policy \<in> set deniedSet then m
      else
        (case (case map_of m (rp_connectorId policy) of Some e \<Rightarrow> e | None \<Rightarrow> ([], False)) of
           (filters, none) \<Rightarrow>
             (let values = attributeValues (map_of attributes (rp_attribute policy)) in
              if values = [] then alist_set (rp_connectorId policy) (filters, True) m
              else if rp_op policy = ''in'' \<or> 1 < length values then
                alist_set (rp_connectorId policy) (filters @ [in_filter (rp_field policy) values], none) m
              else alist_set (rp_connectorId policy) (filters @ [eq_filter (rp_field policy) (hd values)], none) m)))"

definition to_row_scope :: "string \<times> json list \<times> bool \<Rightarrow> row_scope" where
  "to_row_scope e = \<lparr>rs_connectorId = fst e, rs_filters = (if snd (snd e) then None else Some (fst (snd e)))\<rparr>"

datatype access_error = Bad_request_access string | Not_found_access string

definition resolveAccessScope ::
  "access_store \<Rightarrow> (string \<Rightarrow> string list) \<Rightarrow> int \<Rightarrow> string \<Rightarrow> actor \<Rightarrow> (access_error, access_scope) res" where
  "resolveAccessScope st permissions now tenant who =
     (if tenant = [] then Inl (Bad_request_access ''tenantId is required'')
      else if who = Admin_actor then Inr (makeScope True [] [] [])
      else
        (let restricted = filter (\<lambda>d. da_tenantId d = tenant \<and> da_restricted d) (s_datasets st);
             policies = filter (\<lambda>p. rp_tenantId p = tenant \<and> rp_enabled p) (s_policies st) in
         if restricted = [] \<and> policies = [] then Inr (makeScope False [] [] [])
         else
           (let user = active_member st tenant who in
            if (case user of None \<Rightarrow> False | Some u \<Rightarrow> CONFIGURE_PERMISSION \<in> set (permissions (u_id u)))
            then Inr (makeScope True [] [] [])
            else
              (let roleIds = (case user of None \<Rightarrow> [] | Some u \<Rightarrow> live_roles st tenant (u_id u) now);
                   denied = map da_connectorId (filter (\<lambda>d. \<not> list_ex (\<lambda>g. g_level g \<in> set QUERY_LEVELS)
                                                            (matching_grants user roleIds d)) restricted);
                   hidden = map da_connectorId (filter (\<lambda>d. matching_grants user roleIds d = []) restricted);
                   attributes = (case user of None \<Rightarrow> [] | Some u \<Rightarrow> u_attributes u);
                   byConnector = foldl (\<lambda>m p. policy_step denied attributes p m) [] policies
               in Inr (makeScope False denied hidden (map to_row_scope (sort_key fst byConnector)))))))"

definition assertQueryable :: "access_scope option \<Rightarrow> string list \<Rightarrow> bool" where
  "assertQueryable scope ids =
     (case scope of
        None \<Rightarrow> True
      | Some sc \<Rightarrow> bypass sc \<or> denied sc = [] \<or> \<not> list_ex (\<lambda>i. i \<in> set (denied sc)) ids)"

definition hiddenConnectorIds ::
  "access_store \<Rightarrow> (string \<Rightarrow> string list) \<Rightarrow> int \<Rightarrow> string \<Rightarrow> actor \<Rightarrow> (access_error, string list) res" where
  "hiddenConnectorIds st permissions now tenant who =
     rbind (resolveAccessScope st permissions now tenant who) (\<lambda>sc. Inr (if bypass sc then [] else hidden sc))"

text \<open>\<open>accessCacheView\<close>: what of a scope enters a cache key.\<close>

datatype cache_view = View_bypass | View_rules "string list" "row_scope list"

definition accessCacheView :: "access_scope option \<Rightarrow> cache_view option" where
  "accessCacheView scope =
     (case scope of
        None \<Rightarrow> None
      | Some sc \<Rightarrow> if bypass sc then Some View_bypass
                 else if denied sc = [] \<and> rowScopes sc = [] then None
                 else Some (View_rules (sort (denied sc)) (rowScopes sc)))"

definition row_match :: "json \<Rightarrow> bson" where
  "row_match f =
     (let v = (case get_prop ''value'' f of Some w \<Rightarrow> of_json w | None \<Rightarrow> B_null) in
      b_op (''data.'' @ (case str_of (get_prop ''field'' f) of Some s \<Rightarrow> s | None \<Rightarrow> ''undefined''))
        (if get_prop ''op'' f = Some (JStr ''in'') then b_op ''$in'' v else b_op ''$eq'' v))"

definition rowListMatch ::
  "access_store \<Rightarrow> (string \<Rightarrow> string list) \<Rightarrow> int \<Rightarrow> string \<Rightarrow> actor \<Rightarrow> string \<Rightarrow> (access_error, bson option) res" where
  "rowListMatch st permissions now tenant who connectorId =
     rbind (resolveAccessScope st permissions now tenant who) (\<lambda>sc.
       if \<not> assertQueryable (Some sc) [connectorId] then Inl (Not_found_access ''Dataset not found'')
       else if bypass sc then Inr None
       else (case find (\<lambda>s. rs_connectorId s = connectorId) (rowScopes sc) of
               None \<Rightarrow> Inr None
             | Some rule \<Rightarrow> (case rs_filters rule of
                  None \<Rightarrow> Inr (Some (b_op ''_id'' (b_op ''$in'' (B_arr []))))
                | Some fs \<Rightarrow> Inr (Some (b_op ''$and'' (B_arr (map row_match fs)))))))"

section \<open>Management\<close>

text \<open>\<open>String(value ?? '')\<close> where an id is expected: a one-element array prints as its element; no
number, boolean or object prints as 24 hexadecimal digits.\<close>

fun id_text :: "json \<Rightarrow> string" where
  "id_text (JStr s) = s"
| "id_text (JArr [x]) = id_text x"
| "id_text v = []"

definition id_text_opt :: "json option \<Rightarrow> string" where
  "id_text_opt v = (case v of None \<Rightarrow> [] | Some w \<Rightarrow> id_text w)"

definition assertConnector :: "access_store \<Rightarrow> string \<Rightarrow> string \<Rightarrow> bool" where
  "assertConnector st tenant cid \<longleftrightarrow> OBJECT_ID_RE cid \<and> (to_lower cid, tenant) \<in> set (s_connectors st)"

definition getDatasetAccess ::
  "access_store \<Rightarrow> string \<Rightarrow> string \<Rightarrow> (access_error, bool \<times> grant list \<times> row_policy list) res" where
  "getDatasetAccess st tenant cid =
     (if \<not> assertConnector st tenant cid then Inl (Not_found_access ''Dataset not found'')
      else
        (let access = find (\<lambda>d. da_tenantId d = tenant \<and> da_connectorId d = cid) (s_datasets st) in
         Inr (case access of None \<Rightarrow> False | Some d \<Rightarrow> da_restricted d,
              case access of None \<Rightarrow> [] | Some d \<Rightarrow> da_grants d,
              filter (\<lambda>p. rp_tenantId p = tenant \<and> rp_connectorId p = cid) (s_policies st))))"

definition clean_grant :: "json \<Rightarrow> grant option" where
  "clean_grant g =
     (let ty = get_prop ''subjectType'' g; lv = get_prop ''level'' g; sid = id_text_opt (get_prop ''subjectId'' g) in
      if \<not> truthy g \<or> \<not> string_in ty GRANT_SUBJECTS \<or> \<not> string_in lv GRANT_LEVELS \<or> \<not> OBJECT_ID_RE sid then None
      else Some \<lparr>g_subjectType = the (str_of ty), g_subjectId = sid, g_level = the (str_of lv)\<rparr>)"

definition ok_grants :: "json list \<Rightarrow> grant list" where
  "ok_grants gs = concat (map (\<lambda>g. case g of None \<Rightarrow> [] | Some x \<Rightarrow> [x]) (map clean_grant gs))"

definition count_docs :: "string list \<Rightarrow> string \<Rightarrow> (string \<times> string) list \<Rightarrow> nat" where
  "count_docs ids tenant docs = length (filter (\<lambda>(i, t). t = tenant \<and> i \<in> set (map to_lower ids)) docs)"

fun put_access :: "dataset_access \<Rightarrow> dataset_access list \<Rightarrow> dataset_access list" where
  "put_access d [] = [d]"
| "put_access d (x # xs) =
     (if da_tenantId x = da_tenantId d \<and> da_connectorId x = da_connectorId d then d # xs else x # put_access d xs)"

definition setDatasetAccess ::
  "access_store \<Rightarrow> string \<Rightarrow> string \<Rightarrow> json option \<Rightarrow> json option
     \<Rightarrow> access_store \<times> (access_error, bool \<times> grant list \<times> row_policy list) res" where
  "setDatasetAccess st tenant cid restricted grants =
     (if \<not> assertConnector st tenant cid then (st, Inl (Not_found_access ''Dataset not found''))
      else case restricted of
        Some (JBool r) \<Rightarrow>
          (case (case grants of None \<Rightarrow> JArr [] | Some g \<Rightarrow> g) of
             JArr gs \<Rightarrow>
               (let ok = ok_grants gs;
                    userIds = map g_subjectId (filter (\<lambda>g. g_subjectType g = ''user'') ok);
                    roleIds = map g_subjectId (filter (\<lambda>g. g_subjectType g = ''role'') ok) in
                if 500 < length gs \<or> None \<in> set (map clean_grant gs) then (st, Inl (Bad_request_access ''Invalid access''))
                else if count_docs userIds tenant (map (\<lambda>u. (u_id u, u_tenantId u)) (s_users st)) \<noteq> length (remdups userIds)
                     \<or> count_docs roleIds tenant (s_roles st) \<noteq> length (remdups roleIds)
                  then (st, Inl (Bad_request_access ''Invalid access''))
                else
                  (let st' = st\<lparr>s_datasets := put_access
                         \<lparr>da_tenantId = tenant, da_connectorId = cid, da_restricted = r, da_grants = ok\<rparr> (s_datasets st)\<rparr>
                   in (st', getDatasetAccess st' tenant cid)))
           | _ \<Rightarrow> (st, Inl (Bad_request_access ''Invalid access'')))
      | _ \<Rightarrow> (st, Inl (Bad_request_access ''Invalid access'')))"

definition addRowPolicy ::
  "access_store \<Rightarrow> string \<Rightarrow> string \<Rightarrow> string \<Rightarrow> json option \<Rightarrow> json option \<Rightarrow> json option
     \<Rightarrow> access_store \<times> (access_error, row_policy) res" where
  "addRowPolicy st new_id tenant cid field op attribute =
     (let fd = str_of field; op' = (case op of None \<Rightarrow> Some ''eq'' | Some v \<Rightarrow> str_of op); attr = str_of attribute in
      if \<not> assertConnector st tenant cid then (st, Inl (Not_found_access ''Dataset not found''))
      else if (case fd of None \<Rightarrow> True | Some s \<Rightarrow> \<not> SAFE_NAME_RE s \<or> s \<in> set RESERVED_FIELDS)
           \<or> (case op' of None \<Rightarrow> True | Some s \<Rightarrow> s \<notin> set ROW_POLICY_OPS)
           \<or> (case attr of None \<Rightarrow> True | Some s \<Rightarrow> \<not> ATTRIBUTE_RE s)
        then (st, Inl (Bad_request_access ''Invalid row policy''))
      else
        (let p = \<lparr>rp_id = new_id, rp_tenantId = tenant, rp_connectorId = cid, rp_field = the fd, rp_op = the op',
                  rp_attribute = the attr, rp_enabled = True\<rparr>
         in (st\<lparr>s_policies := s_policies st @ [p]\<rparr>, Inr p)))"

definition removeRowPolicy :: "access_store \<Rightarrow> string \<Rightarrow> string \<Rightarrow> access_store \<times> (access_error, string) res" where
  "removeRowPolicy st tenant pid =
     (if \<not> OBJECT_ID_RE pid then (st, Inl (Not_found_access ''Row policy not found''))
      else case find (\<lambda>p. rp_id p = to_lower pid \<and> rp_tenantId p = tenant) (s_policies st) of
        None \<Rightarrow> (st, Inl (Not_found_access ''Row policy not found''))
      | Some p \<Rightarrow> (st\<lparr>s_policies := remove1 p (s_policies st)\<rparr>, Inr pid))"

definition findMember :: "access_store \<Rightarrow> string \<Rightarrow> string \<Rightarrow> member option" where
  "findMember st tenant uid =
     (if OBJECT_ID_RE uid then find (\<lambda>u. u_id u = to_lower uid \<and> u_tenantId u = tenant) (s_users st) else None)"

definition getUserAttributes :: "access_store \<Rightarrow> string \<Rightarrow> string \<Rightarrow> (access_error, (string \<times> json) list) res" where
  "getUserAttributes st tenant uid =
     (case findMember st tenant uid of
        None \<Rightarrow> Inl (Not_found_access ''User not found'')
      | Some u \<Rightarrow> Inr (u_attributes u))"

definition attribute_ok :: "string \<times> json \<Rightarrow> bool" where
  "attribute_ok e =
     (let xs = (case snd e of JArr ys \<Rightarrow> ys | v \<Rightarrow> [v]) in
      ATTRIBUTE_RE (fst e) \<and> length xs \<le> 200
      \<and> list_all (\<lambda>v. case v of JStr s \<Rightarrow> s \<noteq> [] \<and> length s \<le> 256 | _ \<Rightarrow> False) xs)"

definition setUserAttributes ::
  "access_store \<Rightarrow> string \<Rightarrow> string \<Rightarrow> json option \<Rightarrow> access_store \<times> (access_error, (string \<times> json) list) res" where
  "setUserAttributes st tenant uid attributes =
     (case findMember st tenant uid of
        None \<Rightarrow> (st, Inl (Not_found_access ''User not found''))
      | Some u \<Rightarrow>
          (case attributes of
             Some (JObj entries) \<Rightarrow>
               (if 50 < length entries \<or> \<not> list_all attribute_ok entries
                then (st, Inl (Bad_request_access ''Invalid attributes''))
                else (st\<lparr>s_users := map (\<lambda>m. if u_id m = to_lower uid \<and> u_tenantId m = tenant then m\<lparr>u_attributes := entries\<rparr> else m) (s_users st)\<rparr>,
                      Inr entries))
           | _ \<Rightarrow> (st, Inl (Bad_request_access ''Invalid attributes''))))"

section \<open>What a scope says\<close>

text \<open>The abstract rule: which grants apply to the actor, and what the enabled policies of a dataset ask.\<close>

definition grant_applies :: "access_store \<Rightarrow> string \<Rightarrow> int \<Rightarrow> actor \<Rightarrow> grant \<Rightarrow> bool" where
  "grant_applies st tenant now who g \<longleftrightarrow>
     (\<exists>u. active_member st tenant who = Some u \<and>
        (g_subjectType g = ''user'' \<and> g_subjectId g = u_id u
         \<or> g_subjectType g = ''role'' \<and>
            (\<exists>r\<in>set (s_userRoles st). ur_tenantId r = tenant \<and> ur_userId r = u_id u \<and> ur_roleId r = g_subjectId g
               \<and> (\<forall>e. ur_expiresAt r = Some e \<longrightarrow> now < e))))"

definition may_query :: "access_store \<Rightarrow> string \<Rightarrow> int \<Rightarrow> actor \<Rightarrow> string \<Rightarrow> bool" where
  "may_query st tenant now who c \<longleftrightarrow>
     (\<forall>d\<in>set (s_datasets st). da_tenantId d = tenant \<and> da_connectorId d = c \<and> da_restricted d \<longrightarrow>
        (\<exists>g\<in>set (da_grants d). grant_applies st tenant now who g \<and> g_level g \<in> {''query'', ''manage''}))"

definition policies_of :: "access_store \<Rightarrow> string \<Rightarrow> string \<Rightarrow> row_policy list" where
  "policies_of st tenant c = filter (\<lambda>p. rp_tenantId p = tenant \<and> rp_enabled p \<and> rp_connectorId p = c) (s_policies st)"

definition attributes_of :: "access_store \<Rightarrow> string \<Rightarrow> actor \<Rightarrow> (string \<times> json) list" where
  "attributes_of st tenant who = (case active_member st tenant who of None \<Rightarrow> [] | Some u \<Rightarrow> u_attributes u)"

definition rule_filter :: "(string \<times> json) list \<Rightarrow> row_policy \<Rightarrow> json" where
  "rule_filter attrs p =
     (let vs = attributeValues (map_of attrs (rp_attribute p)) in
      if rp_op p = ''in'' \<or> 1 < length vs then in_filter (rp_field p) vs else eq_filter (rp_field p) (hd vs))"

text \<open>No rule, no row at all (an attribute without a value), or one filter per policy.\<close>

definition row_rule :: "access_store \<Rightarrow> string \<Rightarrow> actor \<Rightarrow> string \<Rightarrow> json list option option" where
  "row_rule st tenant who c =
     (let ps = policies_of st tenant c; attrs = attributes_of st tenant who in
      if ps = [] then None
      else if \<exists>p\<in>set ps. attributeValues (map_of attrs (rp_attribute p)) = [] then Some None
      else Some (Some (map (rule_filter attrs) ps)))"

definition scope_rule :: "access_scope \<Rightarrow> string \<Rightarrow> json list option option" where
  "scope_rule sc c = map_option rs_filters (find (\<lambda>s. rs_connectorId s = c) (rowScopes sc))"

lemma policy_fold:
  fixes ps :: "row_policy list" and den :: "string list" and at' :: "(string \<times> json) list"
  defines "no_value \<equiv> \<lambda>p. attributeValues (map_of at' (rp_attribute p)) = []"
  shows "map_of (foldl (\<lambda>m p. policy_step den at' p m) m ps) c =
     (let qs = filter (\<lambda>p. rp_connectorId p = c) ps; e = (case map_of m c of Some e \<Rightarrow> e | None \<Rightarrow> ([], False)) in
      if c \<in> set den \<or> qs = [] then map_of m c
      else Some (fst e @ map (rule_filter at') (filter (\<lambda>p. \<not> no_value p) qs), snd e \<or> (\<exists>p\<in>set qs. no_value p)))"
proof (induction ps arbitrary: m)
  case (Cons p ps)
  show ?case
  proof (cases "rp_connectorId p = c \<and> c \<notin> set den")
    case True
    let ?e = "case map_of m c of Some e \<Rightarrow> e | None \<Rightarrow> ([], False)"
    have "map_of (policy_step den at' p m) c =
        Some (if no_value p then (fst ?e, True) else (fst ?e @ [rule_filter at' p], snd ?e))"
      using True by (cases ?e) (simp add: policy_step_def no_value_def rule_filter_def Let_def split: option.splits)
    then show ?thesis using True by (auto simp: Cons.IH Let_def filter_empty_conv)
  next
    case False
    then have "map_of (policy_step den at' p m) c = map_of m c"
      by (cases "rp_connectorId p = c") (auto simp: policy_step_def Let_def split: option.splits prod.splits)
    then show ?thesis using False by (auto simp: Cons.IH Let_def)
  qed
qed (simp add: Let_def)

lemma policy_fold_distinct:
  "distinct (map fst m) \<Longrightarrow> distinct (map fst (foldl (\<lambda>m p. policy_step den at' p m) m ps))"
proof (induction ps arbitrary: m)
  case (Cons p ps)
  have "distinct (map fst (policy_step den at' p m))"
    using Cons.prems by (auto simp: policy_step_def Let_def distinct_alist_set split: option.splits prod.splits)
  then show ?case using Cons.IH by simp
qed simp

lemma find_row_scope:
  assumes "distinct (map fst m)"
  shows "find (\<lambda>s. rs_connectorId s = c) (map to_row_scope (sort_key fst m)) = map_option (\<lambda>e. to_row_scope (c, e)) (map_of m c)"
proof -
  have "find (\<lambda>s. rs_connectorId s = c) (map to_row_scope xs) = map_option (\<lambda>e. to_row_scope (c, e)) (map_of xs c)" for xs
    by (induction xs) (auto simp: to_row_scope_def)
  moreover have "distinct (map fst (sort_key fst m))"
    using assms unfolding distinct_map by (simp add: distinct_map)
  then have "map_of (sort_key fst m) = map_of m"
    using assms by (subst map_of_inject_set) simp_all
  ultimately show ?thesis by simp
qed

lemma scope_parts:
  assumes "resolveAccessScope st perms now tenant who = Inr sc" and "\<not> bypass sc"
  shows "denied sc = map da_connectorId (filter (\<lambda>d. \<not> list_ex (\<lambda>g. g_level g \<in> set QUERY_LEVELS)
            (matching_grants (active_member st tenant who)
               (case active_member st tenant who of None \<Rightarrow> [] | Some u \<Rightarrow> live_roles st tenant (u_id u) now) d))
            (filter (\<lambda>d. da_tenantId d = tenant \<and> da_restricted d) (s_datasets st)))"
    and "rowScopes sc = map to_row_scope (sort_key fst
            (foldl (\<lambda>m p. policy_step (denied sc) (attributes_of st tenant who) p m) []
               (filter (\<lambda>p. rp_tenantId p = tenant \<and> rp_enabled p) (s_policies st))))"
    and "set (hidden sc) \<subseteq> set (denied sc)"
  using assms
  by (auto simp: resolveAccessScope_def Let_def makeScope_def attributes_of_def list_ex_iff filter_empty_conv split: if_splits)

lemma live_roles_iff:
  "i \<in> set (live_roles st tenant uid now) \<longleftrightarrow>
     (\<exists>r\<in>set (s_userRoles st). ur_tenantId r = tenant \<and> ur_userId r = uid \<and> ur_roleId r = i
        \<and> (\<forall>e. ur_expiresAt r = Some e \<longrightarrow> now < e))"
proof -
  have "(case ur_expiresAt r of None \<Rightarrow> True | Some e \<Rightarrow> e > now) \<longleftrightarrow> (\<forall>e. ur_expiresAt r = Some e \<longrightarrow> now < e)" for r
    by (simp split: option.splits)
  then show ?thesis unfolding live_roles_def by (simp only: set_map set_filter image_iff) blast
qed

lemma applies_iff:
  "g \<in> set (matching_grants (active_member st tenant who)
      (case active_member st tenant who of None \<Rightarrow> [] | Some u \<Rightarrow> live_roles st tenant (u_id u) now) d)
    \<longleftrightarrow> g \<in> set (da_grants d) \<and> grant_applies st tenant now who g"
  by (cases "active_member st tenant who") (simp_all add: matching_grants_def grant_applies_def live_roles_iff)

lemma denied_iff:
  assumes "resolveAccessScope st perms now tenant who = Inr sc" and "\<not> bypass sc"
  shows "c \<in> set (denied sc) \<longleftrightarrow> \<not> may_query st tenant now who c"
proof -
  have "(\<exists>g\<in>set (matching_grants (active_member st tenant who)
      (case active_member st tenant who of None \<Rightarrow> [] | Some u \<Rightarrow> live_roles st tenant (u_id u) now) d). g_level g \<in> set QUERY_LEVELS)
    \<longleftrightarrow> (\<exists>g\<in>set (da_grants d). grant_applies st tenant now who g \<and> g_level g \<in> {''query'', ''manage''})" for d
    unfolding Bex_def applies_iff QUERY_LEVELS_def by auto
  then show ?thesis
    unfolding scope_parts(1)[OF assms] may_query_def list_ex_iff set_map set_filter image_iff by auto
qed

lemma scope_rule_eq:
  assumes "resolveAccessScope st perms now tenant who = Inr sc" and "\<not> bypass sc" and "c \<notin> set (denied sc)"
  shows "scope_rule sc c = row_rule st tenant who c"
proof -
  let ?ps = "filter (\<lambda>p. rp_tenantId p = tenant \<and> rp_enabled p) (s_policies st)" and ?at = "attributes_of st tenant who"
  have q: "filter (\<lambda>p. rp_connectorId p = c) ?ps = policies_of st tenant c" by (simp add: policies_of_def conj_assoc)
  let ?m = "foldl (\<lambda>m p. policy_step (denied sc) ?at p m) [] ?ps"
  have "scope_rule sc c = map_option (\<lambda>e. rs_filters (to_row_scope (c, e))) (map_of ?m c)"
    unfolding scope_rule_def scope_parts(2)[OF assms(1,2)]
    by (subst find_row_scope) (simp_all add: policy_fold_distinct option.map_comp o_def)
  also have "\<dots> = row_rule st tenant who c"
    unfolding policy_fold q row_rule_def Let_def using assms(3)
    by (simp add: to_row_scope_def filter_id_conv)
  finally show ?thesis .
qed

text \<open> C18.
  Row-level security, in full. The scope resolved for anyone but a bypassing actor denies exactly the
  restricted datasets on which no live grant to query applies to them, hides only denied ones, and
  carries for every other dataset exactly the rule its enabled policies ask of the actor's attributes.\<close>
theorem access_scope_exact:
  assumes "resolveAccessScope st perms now tenant who = Inr sc" and "\<not> bypass sc"
  shows "(c \<in> set (denied sc) \<longleftrightarrow> \<not> may_query st tenant now who c)
    \<and> set (hidden sc) \<subseteq> set (denied sc)
    \<and> (may_query st tenant now who c \<longrightarrow> scope_rule sc c = row_rule st tenant who c)"
  using denied_iff[OF assms] scope_rule_eq[OF assms] scope_parts(3)[OF assms] by blast

definition hex_id :: "char \<Rightarrow> string" where
  "hex_id c = replicate 24 c"

text \<open>A store for the examples: a restricted dataset granted to one member, a dataset with a row rule.\<close>

definition sample_store :: access_store where
  "sample_store =
     \<lparr>s_connectors = [(hex_id (CHR ''a''), ''t''), (hex_id (CHR ''b''), ''t'')],
      s_datasets = [\<lparr>da_tenantId = ''t'', da_connectorId = hex_id (CHR ''a''), da_restricted = True,
                      da_grants = [\<lparr>g_subjectType = ''user'', g_subjectId = hex_id (CHR ''1''), g_level = ''query''\<rparr>]\<rparr>],
      s_policies = [\<lparr>rp_id = hex_id (CHR ''5''), rp_tenantId = ''t'', rp_connectorId = hex_id (CHR ''b''), rp_field = ''region'',
                      rp_op = ''eq'', rp_attribute = ''region'', rp_enabled = True\<rparr>],
      s_users = [\<lparr>u_id = hex_id (CHR ''1''), u_tenantId = ''t'', u_active = True, u_attributes = [(''region'', JStr ''EU'')]\<rparr>,
                 \<lparr>u_id = hex_id (CHR ''2''), u_tenantId = ''t'', u_active = True, u_attributes = []\<rparr>],
      s_userRoles = [],
      s_roles = []\<rparr>"

theorem access_scope_exact_witness:
  "\<not> may_query sample_store ''t'' 0 (User_actor (hex_id (CHR ''2''))) (hex_id (CHR ''a''))"
proof -
  have "resolveAccessScope sample_store (\<lambda>_. []) 0 ''t'' (User_actor (hex_id (CHR ''2''))) =
      Inr (makeScope False [hex_id (CHR ''a'')] [hex_id (CHR ''a'')] [\<lparr>rs_connectorId = hex_id (CHR ''b''), rs_filters = None\<rparr>])"
    by code_simp
  from access_scope_exact[OF this, of "hex_id (CHR ''a'')"] show ?thesis by (simp add: makeScope_def)
qed

text \<open> C37.
  Failing closed. An actor that is neither an admin nor an active member of the workspace (no
  identity, a system job, a deactivated or foreign user) is refused every restricted dataset, does not
  even see it listed, and reads no row of a dataset that has a row rule.\<close>
theorem access_fails_closed:
  assumes "resolveAccessScope st perms now tenant who = Inr sc" and "who \<noteq> Admin_actor"
    and "active_member st tenant who = None"
  shows "\<not> bypass sc
    \<and> (\<forall>d\<in>set (s_datasets st). da_tenantId d = tenant \<and> da_restricted d \<longrightarrow>
           da_connectorId d \<in> set (denied sc) \<inter> set (hidden sc))
    \<and> (\<forall>p\<in>set (s_policies st). rp_tenantId p = tenant \<and> rp_enabled p \<longrightarrow>
           rp_connectorId p \<in> set (denied sc) \<or> scope_rule sc (rp_connectorId p) = Some None)"
proof -
  have nb: "\<not> bypass sc"
    using assms by (auto simp: resolveAccessScope_def Let_def makeScope_def split: if_splits)
  moreover have "\<forall>d\<in>set (s_datasets st). da_tenantId d = tenant \<and> da_restricted d \<longrightarrow>
           da_connectorId d \<in> set (denied sc) \<inter> set (hidden sc)"
    using assms by (auto simp: resolveAccessScope_def Let_def makeScope_def matching_grants_def filter_empty_conv split: if_splits)
  moreover have "row_rule st tenant who (rp_connectorId p) = Some None"
    if "p \<in> set (s_policies st)" "rp_tenantId p = tenant" "rp_enabled p" for p
  proof -
    have "p \<in> set (policies_of st tenant (rp_connectorId p))" using that by (simp add: policies_of_def)
    then show ?thesis using assms(3) by (auto simp: row_rule_def Let_def attributes_of_def attributeValues_def)
  qed
  ultimately show ?thesis using scope_rule_eq[OF assms(1) nb] by metis
qed

theorem access_fails_closed_witness:
  "\<not> bypass (makeScope False [hex_id (CHR ''a'')] [hex_id (CHR ''a'')] [\<lparr>rs_connectorId = hex_id (CHR ''b''), rs_filters = None\<rparr>])"
proof -
  have "resolveAccessScope sample_store (\<lambda>_. []) 0 ''t'' Other_actor =
      Inr (makeScope False [hex_id (CHR ''a'')] [hex_id (CHR ''a'')] [\<lparr>rs_connectorId = hex_id (CHR ''b''), rs_filters = None\<rparr>])"
    by code_simp
  from access_fails_closed[OF this] show ?thesis by (simp add: active_member_def)
qed

section \<open>Changing the grants\<close>

definition unique_access :: "access_store \<Rightarrow> bool" where
  "unique_access st \<longleftrightarrow> distinct (map (\<lambda>d. (da_tenantId d, da_connectorId d)) (s_datasets st))"

lemma put_access_keys:
  "set (map (\<lambda>d. (da_tenantId d, da_connectorId d)) (put_access d xs)) =
     insert (da_tenantId d, da_connectorId d) (set (map (\<lambda>d. (da_tenantId d, da_connectorId d)) xs))"
  by (induction d xs rule: put_access.induct) auto

lemma put_access_distinct:
  "distinct (map (\<lambda>d. (da_tenantId d, da_connectorId d)) xs) \<Longrightarrow>
     distinct (map (\<lambda>d. (da_tenantId d, da_connectorId d)) (put_access d xs))"
proof (induction d xs rule: put_access.induct)
  case (2 d x xs)
  then show ?case using put_access_keys[of d xs] by (auto simp: image_iff)
qed simp

lemma put_access_mem:
  assumes "distinct (map (\<lambda>d. (da_tenantId d, da_connectorId d)) xs)"
  shows "e \<in> set (put_access d xs) \<longleftrightarrow>
     e = d \<or> (e \<in> set xs \<and> (da_tenantId e, da_connectorId e) \<noteq> (da_tenantId d, da_connectorId d))"
  using assms
proof (induction d xs rule: put_access.induct)
  case (2 d x xs)
  then show ?case by (force simp: image_iff)
qed simp

lemma put_access_find:
  "find (\<lambda>x. da_tenantId x = da_tenantId d \<and> da_connectorId x = da_connectorId d) (put_access d xs) = Some d"
  by (induction d xs rule: put_access.induct) auto

lemma setDatasetAccess_parts:
  assumes "setDatasetAccess st tenant cid restricted grants = (st', Inr v)"
  shows "\<exists>r gs. restricted = Some (JBool r) \<and> assertConnector st tenant cid
    \<and> st' = st\<lparr>s_datasets := put_access \<lparr>da_tenantId = tenant, da_connectorId = cid, da_restricted = r, da_grants = ok_grants gs\<rparr> (s_datasets st)\<rparr>
    \<and> fst v = r \<and> fst (snd v) = ok_grants gs
    \<and> count_docs (map g_subjectId (filter (\<lambda>g. g_subjectType g = ''user'') (ok_grants gs))) tenant
         (map (\<lambda>u. (u_id u, u_tenantId u)) (s_users st))
       = length (remdups (map g_subjectId (filter (\<lambda>g. g_subjectType g = ''user'') (ok_grants gs))))"
proof -
  obtain r where r: "restricted = Some (JBool r)" "assertConnector st tenant cid"
    using assms by (auto simp: setDatasetAccess_def split: if_splits option.splits json.splits)
  obtain gs where gs: "(case grants of None \<Rightarrow> JArr [] | Some g \<Rightarrow> g) = JArr gs"
    using assms r by (cases "case grants of None \<Rightarrow> JArr [] | Some g \<Rightarrow> g") (auto simp: setDatasetAccess_def)
  let ?d = "\<lparr>da_tenantId = tenant, da_connectorId = cid, da_restricted = r, da_grants = ok_grants gs\<rparr>"
  have f: "find (\<lambda>x. da_tenantId x = tenant \<and> da_connectorId x = cid) (put_access ?d (s_datasets st)) = Some ?d"
    using put_access_find[of ?d "s_datasets st"] by simp
  show ?thesis
    using assms r unfolding setDatasetAccess_def gs
    by (auto simp: Let_def getDatasetAccess_def assertConnector_def f split: if_splits)
qed

text \<open>Counting: when as many documents match as there are names, every name has its document.\<close>

lemma count_all_found:
  assumes "count_docs ids tenant docs = length (remdups ids)" and "distinct (map fst docs)" and "i \<in> set ids"
  shows "(to_lower i, tenant) \<in> set docs"
proof -
  let ?f = "filter (\<lambda>(i, t). t = tenant \<and> i \<in> set (map to_lower ids)) docs"
  have d: "distinct (map fst ?f)" using assms(2) by (simp add: distinct_map_filter)
  have sub: "set (map fst ?f) \<subseteq> to_lower ` set ids" by auto
  have "card (set (map fst ?f)) = card (set ids)"
    using assms(1) distinct_card[OF d] by (simp add: count_docs_def length_remdups_card_conv)
  moreover have "card (to_lower ` set ids) \<le> card (set ids)" by (rule card_image_le) simp
  moreover have "card (set (map fst ?f)) \<le> card (to_lower ` set ids)" by (rule card_mono[OF _ sub]) simp
  ultimately have "set (map fst ?f) = to_lower ` set ids"
    using sub by (intro card_subset_eq) simp_all
  then show ?thesis using assms(3) by (force simp: image_iff)
qed

lemma active_member_datasets [simp]: "active_member (st\<lparr>s_datasets := x\<rparr>) tenant who = active_member st tenant who"
  by (cases who) (simp_all add: active_member_def)

lemma grant_applies_datasets [simp]: "grant_applies (st\<lparr>s_datasets := x\<rparr>) tenant now who g = grant_applies st tenant now who g"
  by (simp add: grant_applies_def)

text \<open> Setting a dataset's access decides who may query it, and nothing else. After it, an actor may query
  the dataset exactly when it is not restricted or one of the stored grants to query applies to them;
  every other dataset of every workspace keeps its answer; there is still one record per dataset, and
  every user granted access is a user of the workspace.\<close>
theorem set_access_governs:
  assumes "setDatasetAccess st tenant cid restricted grants = (st', Inr v)"
    and "unique_access st" and "distinct (map u_id (s_users st))"
  shows "(may_query st' tenant now who cid \<longleftrightarrow>
            \<not> fst v \<or> (\<exists>g\<in>set (fst (snd v)). grant_applies st tenant now who g \<and> g_level g \<in> {''query'', ''manage''}))
    \<and> ((t, c) \<noteq> (tenant, cid) \<longrightarrow> may_query st' t now who c = may_query st t now who c)
    \<and> unique_access st'
    \<and> (\<forall>g\<in>set (fst (snd v)). g_subjectType g = ''user'' \<longrightarrow>
         (\<exists>u\<in>set (s_users st). u_id u = to_lower (g_subjectId g) \<and> u_tenantId u = tenant))"
proof -
  from setDatasetAccess_parts[OF assms(1)] obtain r gs where
    st': "st' = st\<lparr>s_datasets := put_access \<lparr>da_tenantId = tenant, da_connectorId = cid, da_restricted = r, da_grants = ok_grants gs\<rparr> (s_datasets st)\<rparr>"
    and v: "fst v = r" "fst (snd v) = ok_grants gs"
    and n: "count_docs (map g_subjectId (filter (\<lambda>g. g_subjectType g = ''user'') (ok_grants gs))) tenant
         (map (\<lambda>u. (u_id u, u_tenantId u)) (s_users st))
       = length (remdups (map g_subjectId (filter (\<lambda>g. g_subjectType g = ''user'') (ok_grants gs))))" by blast
  note mem = put_access_mem[OF assms(2)[unfolded unique_access_def],
      of _ "\<lparr>da_tenantId = tenant, da_connectorId = cid, da_restricted = r, da_grants = ok_grants gs\<rparr>"]
  have "may_query st' tenant now who cid \<longleftrightarrow>
      \<not> fst v \<or> (\<exists>g\<in>set (fst (snd v)). grant_applies st tenant now who g \<and> g_level g \<in> {''query'', ''manage''})"
    unfolding may_query_def st' v by (simp add: Ball_def mem) blast
  moreover have "(t, c) \<noteq> (tenant, cid) \<Longrightarrow> may_query st' t now who c = may_query st t now who c"
    unfolding may_query_def st' by (auto simp: Ball_def mem)
  moreover have "unique_access st'"
    using assms(2) put_access_distinct by (simp add: unique_access_def st')
  moreover have "\<exists>u\<in>set (s_users st). u_id u = to_lower (g_subjectId g) \<and> u_tenantId u = tenant"
    if "g \<in> set (fst (snd v))" "g_subjectType g = ''user''" for g
    using count_all_found[OF n, of "g_subjectId g"] assms(3) that by (auto simp: v o_def)
  ultimately show ?thesis by blast
qed

theorem set_access_governs_witness:
  "may_query (fst (setDatasetAccess sample_store ''t'' (hex_id (CHR ''b'')) (Some (JBool True)) (Some (JArr []))))
      ''t'' 0 Admin_actor (hex_id (CHR ''b'')) = False"
proof -
  let ?r = "setDatasetAccess sample_store ''t'' (hex_id (CHR ''b'')) (Some (JBool True)) (Some (JArr []))"
  have v: "snd ?r = Inr (True, [], s_policies sample_store)" by code_simp
  have u: "unique_access sample_store" "distinct (map u_id (s_users sample_store))"
    by (simp add: unique_access_def sample_store_def) code_simp
  have "?r = (fst ?r, Inr (True, [], s_policies sample_store))" using v by (metis prod.collapse)
  from set_access_governs[OF this u] show ?thesis by simp
qed

section \<open>Row listings\<close>

text \<open> The raw row listings enforce the same rules. For a dataset named as it is stored, a member who may
  not query it gets "not found"; otherwise the extra match is exactly the rule of the dataset: none,
  a match on no row, or the conjunction of its filters.\<close>
theorem row_listing_exact:
  assumes "resolveAccessScope st perms now tenant who = Inr sc" and "\<not> bypass sc"
  shows "rowListMatch st perms now tenant who c =
    (if \<not> may_query st tenant now who c then Inl (Not_found_access ''Dataset not found'')
     else case row_rule st tenant who c of
       None \<Rightarrow> Inr None
     | Some None \<Rightarrow> Inr (Some (b_op ''_id'' (b_op ''$in'' (B_arr []))))
     | Some (Some fs) \<Rightarrow> Inr (Some (b_op ''$and'' (B_arr (map row_match fs)))))"
proof (cases "may_query st tenant now who c")
  case True
  then have "c \<notin> set (denied sc)" using denied_iff[OF assms] by simp
  then have "row_rule st tenant who c = map_option rs_filters (find (\<lambda>s. rs_connectorId s = c) (rowScopes sc))"
    using scope_rule_eq[OF assms] by (simp add: scope_rule_def)
  then show ?thesis using True assms \<open>c \<notin> set (denied sc)\<close>
    by (cases "find (\<lambda>s. rs_connectorId s = c) (rowScopes sc)") (auto simp: rowListMatch_def assertQueryable_def)
next
  case False
  then have "c \<in> set (denied sc)" using denied_iff[OF assms] by simp
  then show ?thesis using assms False by (auto simp: rowListMatch_def assertQueryable_def)
qed

theorem row_listing_exact_witness:
  "rowListMatch sample_store (\<lambda>_. []) 0 ''t'' (User_actor (hex_id (CHR ''2''))) (hex_id (CHR ''b''))
     = Inr (Some (b_op ''_id'' (b_op ''$in'' (B_arr []))))"
proof -
  have r: "resolveAccessScope sample_store (\<lambda>_. []) 0 ''t'' (User_actor (hex_id (CHR ''2''))) =
      Inr (makeScope False [hex_id (CHR ''a'')] [hex_id (CHR ''a'')] [\<lparr>rs_connectorId = hex_id (CHR ''b''), rs_filters = None\<rparr>])"
    by code_simp
  have "may_query sample_store ''t'' 0 (User_actor (hex_id (CHR ''2''))) (hex_id (CHR ''b''))"
    by (auto simp: may_query_def sample_store_def hex_id_def)
  moreover have "row_rule sample_store ''t'' (User_actor (hex_id (CHR ''2''))) (hex_id (CHR ''b'')) = Some None" by code_simp
  ultimately show ?thesis by (subst row_listing_exact[OF r]) (simp_all add: makeScope_def)
qed

text \<open>
  The comparison is on the text of the id, although the row collection reads the id in either case: a
  dataset named with capital hexadecimal digits is the same dataset to the database, and is not found
  among the denied ones.\<close>
lemma row_list_case_gap:
  "rowListMatch sample_store (\<lambda>_. []) 0 ''t'' (User_actor (hex_id (CHR ''2''))) (hex_id (CHR ''a''))
     = Inl (Not_found_access ''Dataset not found'')"
  "rowListMatch sample_store (\<lambda>_. []) 0 ''t'' (User_actor (hex_id (CHR ''2''))) (hex_id (CHR ''A'')) = Inr None"
  "assertConnector sample_store ''t'' (hex_id (CHR ''A''))"
  "object_id (hex_id (CHR ''A'')) = object_id (hex_id (CHR ''a''))"
  by code_simp+

end
