(* ===== verification/QueryPipeline.thy ===== *)
theory QueryPipeline
  imports QueryNormalForm DataAccess
begin

text \<open>
  How a prepared query becomes an aggregation pipeline (\<open>src/services/analytics.engine.js\<close>, from
  \<open>toNumber\<close> to \<open>runPrepared\<close>, with the metric stages): the stages are data, built by the same
  functions as in the code. A prepared query has an absolute window (milliseconds since 1970) and
  pinned metric references, whose definitions are an association list from the pinned text.
\<close>

section \<open>Prepared queries and stages\<close>

record metric_part =
  mp_aggregation :: string
  mp_field :: string
  mp_filters :: "json list"

record metric_def =
  md_connectorId :: string
  md_aggregation :: string
  md_field :: string
  md_filters :: "json list"
  md_numerator :: metric_part
  md_denominator :: metric_part

type_synonym metric_defs = "(string \<times> metric_def) list"

record prepared =
  p_tenantId :: string
  p_connectorIds :: "string list"
  p_filters :: "json list"
  p_filtersOp :: string
  p_filterGroups :: "(json list \<times> string) list"
  p_dateRange :: "(string \<times> int option \<times> int option) option"
  p_metrics :: "json list"
  p_groupBy :: "json list"
  p_orderBy :: "json list"
  p_timezone :: string
  p_access :: "access_scope option"
  p_page :: nat
  p_limit :: nat

datatype stage =
    Match bson
  | AddFields "(string \<times> bson) list"
  | Group bson "(string \<times> bson) list"
  | Project "(string \<times> bson) list"
  | Sort "(string \<times> int) list"
  | Skip nat
  | Limit nat
  | Count string
  | Facet "stage list" "stage list"

section \<open>Expressions\<close>

definition TOP_LEVEL_FIELDS :: "string list" where
  "TOP_LEVEL_FIELDS = [''connectorId'', ''ingestedAt'', ''sourceRowId'', ''tenantId'']"

definition dataPath :: "string \<Rightarrow> string" where
  "dataPath field = (if field \<in> set TOP_LEVEL_FIELDS then ''$'' @ field else ''$data.'' @ field)"

definition toNumber :: "string \<Rightarrow> bson" where
  "toNumber path =
     b_op ''$convert'' (B_doc [(''input'', B_str path), (''to'', B_str ''double''), (''onError'', B_null), (''onNull'', B_null)])"

abbreviation b_list :: "string \<Rightarrow> bson list \<Rightarrow> bson" where
  "b_list k xs \<equiv> b_op k (B_arr xs)"

definition field_of :: "json \<Rightarrow> string" where
  "field_of v = (case str_of (get_prop ''field'' v) of Some s \<Rightarrow> s | None \<Rightarrow> ''undefined'')"

definition filterExpr :: "json \<Rightarrow> bson" where
  "filterExpr f =
     (let field = field_of f; path = B_str (dataPath field); value = get_prop ''value'' f;
          op = (case str_of (get_prop ''op'' f) of Some s \<Rightarrow> s | None \<Rightarrow> ''undefined'');
          lit = (\<lambda>v. if field = ''connectorId'' then object_id (case v of JStr s \<Rightarrow> s | _ \<Rightarrow> []) else b_op ''$literal'' (of_json v));
          v = (case value of Some w \<Rightarrow> w | None \<Rightarrow> JNull) in
      if op = ''eq'' then b_list ''$eq'' [path, lit v]
      else if op = ''neq'' then b_list ''$ne'' [path, lit v]
      else if op = ''in'' then b_list ''$in'' [path, B_arr (map lit (elems value))]
      else if op = ''nin'' then b_list ''$not'' [b_list ''$in'' [path, B_arr (map lit (elems value))]]
      else if op = ''exists'' then
        (if truthy v then b_list ''$ne'' [b_list ''$ifNull'' [path, B_null], B_null]
         else b_list ''$eq'' [b_list ''$ifNull'' [path, B_null], B_null])
      else b_list ''$and''
        [b_list ''$ne'' [toNumber (dataPath field), B_null],
         b_list (''$'' @ op) [toNumber (dataPath field), of_json v]])"

definition MIN_BUSINESS_DATE :: int where
  "MIN_BUSINESS_DATE = utc_days 1 1 2 * 86400000"

definition MAX_BUSINESS_DATE :: int where
  "MAX_BUSINESS_DATE = utc_days 9999 12 30 * 86400000"

definition businessDate :: "string \<Rightarrow> string \<Rightarrow> bson" where
  "businessDate path tz =
     (let p = B_str path; ty = b_op ''$type'' p;
          from_text = (\<lambda>z. b_op ''$dateFromString'' (B_doc ((''dateString'', p) # z @ [(''onError'', B_null), (''onNull'', B_null)])));
          parsed = b_op ''$switch'' (B_doc
            [(''branches'', B_arr
               [B_doc [(''case'', b_list ''$eq'' [ty, B_str ''date'']), (''then'', p)],
                B_doc [(''case'', b_list ''$eq'' [ty, B_str ''string'']),
                       (''then'', b_list ''$cond''
                          [b_op ''$regexMatch'' (B_doc [(''input'', p), (''regex'', B_str ''(Z|z|[+-][0-9]{2}:?[0-9]{2})$'')]),
                           from_text [], from_text [(''timezone'', B_str tz)]])],
                B_doc [(''case'', b_list ''$in'' [ty, B_arr [B_str ''int'', B_str ''long'', B_str ''double'', B_str ''decimal'']]),
                       (''then'', b_op ''$convert'' (B_doc [(''input'', p), (''to'', B_str ''date''), (''onError'', B_null), (''onNull'', B_null)]))]]),
             (''default'', B_null)])
      in b_op ''$let'' (B_doc
           [(''vars'', B_doc [(''d'', parsed)]),
            (''in'', b_list ''$cond''
               [b_list ''$and'' [b_list ''$gte'' [B_str ''$$d'', B_date MIN_BUSINESS_DATE],
                               b_list ''$lte'' [B_str ''$$d'', B_date MAX_BUSINESS_DATE]],
                B_str ''$$d'', B_null])]))"

definition bucketStart :: "string \<Rightarrow> string \<Rightarrow> string \<Rightarrow> bson" where
  "bucketStart dateRef bucket tz =
     (let d = B_str dateRef;
          format = (\<lambda>date fmt zone. b_op ''$dateToString'' (B_doc [(''date'', date), (''format'', B_str fmt), (''timezone'', B_str zone)]));
          guard = (\<lambda>e. b_list ''$cond'' [b_list ''$eq'' [d, B_null], B_null, e]);
          dpart = (\<lambda>op. b_op op (B_doc [(''date'', d), (''timezone'', B_str tz)])) in
      if bucket = ''day'' then guard (format d ''%Y-%m-%d'' tz)
      else if bucket = ''month'' then guard (format d ''%Y-%m-01'' tz)
      else if bucket = ''year'' then guard (format d ''%Y-01-01'' tz)
      else if bucket = ''week'' then
        guard (format (b_op ''$dateFromParts'' (B_doc
          [(''isoWeekYear'', dpart ''$isoWeekYear''), (''isoWeek'', dpart ''$isoWeek''), (''isoDayOfWeek'', B_num 1)])) ''%Y-%m-%d'' ''UTC'')
      else
        guard (format (b_op ''$dateFromParts'' (B_doc
          [(''year'', dpart ''$year''),
           (''month'', b_list ''$add''
              [b_list ''$multiply'' [b_op ''$floor'' (b_list ''$divide'' [b_list ''$subtract'' [dpart ''$month'', B_num 1], B_num 3]), B_num 3], B_num 1]),
           (''day'', B_num 1)])) ''%Y-%m-%d'' ''UTC''))"

section \<open>Leading stages\<close>

definition date_bounds :: "int option \<Rightarrow> int option \<Rightarrow> (string \<times> bson) list" where
  "date_bounds f t =
     (case f of None \<Rightarrow> [] | Some a \<Rightarrow> [(''$gte'', B_date a)]) @ (case t of None \<Rightarrow> [] | Some b \<Rightarrow> [(''$lte'', B_date b)])"

definition buildBaseMatch :: "prepared \<Rightarrow> bson" where
  "buildBaseMatch q =
     B_doc ([(''tenantId'', B_str (p_tenantId q)), (''deletedAt'', B_null)]
       @ (if p_connectorIds q = [] then [] else [(''connectorId'', b_op ''$in'' (B_arr (map object_id (p_connectorIds q))))])
       @ (case p_dateRange q of
            Some (fd, f, t) \<Rightarrow> if fd = ''ingestedAt'' then [(''ingestedAt'', B_doc (date_bounds f t))] else []
          | None \<Rightarrow> []))"

definition buildAccessStages :: "access_scope option \<Rightarrow> stage list" where
  "buildAccessStages access =
     (case access of
        None \<Rightarrow> [Match (b_op ''_id'' (b_op ''$in'' (B_arr [])))]
      | Some sc \<Rightarrow>
          if bypass sc then []
          else
            (if denied sc = [] then [] else [Match (b_op ''connectorId'' (b_op ''$nin'' (B_arr (map object_id (denied sc)))))])
            @ (if rowScopes sc = [] then []
               else [Match (b_op ''$expr'' (b_list ''$and'' (map (\<lambda>s.
                       b_list ''$or'' [b_list ''$ne'' [B_str ''$connectorId'', object_id (rs_connectorId s)],
                         case rs_filters s of None \<Rightarrow> B_bool False | Some fs \<Rightarrow> b_list ''$and'' (map filterExpr fs)]) (rowScopes sc))))]))"

definition buildDateStages :: "(string \<times> int option \<times> int option) option \<Rightarrow> string \<Rightarrow> stage list" where
  "buildDateStages dateRange tz =
     (case dateRange of
        None \<Rightarrow> []
      | Some (fd, f, t) \<Rightarrow>
          if fd = ''ingestedAt'' then []
          else [AddFields [(''__window'', businessDate (dataPath fd) tz)],
                Match (b_op ''__window'' (B_doc ((''$ne'', B_null) # date_bounds f t)))])"

definition buildFilterStages :: "json list \<Rightarrow> string \<Rightarrow> stage list" where
  "buildFilterStages filters filtersOp =
     (if filters = [] then []
      else
        (let conds = map filterExpr filters in
         if filtersOp = ''or'' \<and> 1 < length conds then [Match (b_op ''$expr'' (b_list ''$or'' conds))]
         else map (\<lambda>c. Match (b_op ''$expr'' c)) conds))"

section \<open>Metrics and groups\<close>

definition metricCondition :: "string \<Rightarrow> json list \<Rightarrow> bson" where
  "metricCondition connectorId filters =
     b_list ''$and'' (b_list ''$eq'' [B_str ''$connectorId'', object_id connectorId] # map filterExpr filters)"

definition conditionalAccumulator :: "string \<Rightarrow> string \<Rightarrow> bson \<Rightarrow> bson" where
  "conditionalAccumulator aggregation field cond =
     (let path = dataPath field in
      if aggregation = ''count'' then b_op ''$sum'' (b_list ''$cond'' [cond, B_num 1, B_num 0])
      else if aggregation = ''count_distinct'' then
        b_op ''$addToSet'' (b_list ''$cond''
          [b_list ''$and'' [cond, b_list ''$ne'' [b_list ''$ifNull'' [B_str path, B_null], B_null]], B_str path, B_str ''$$REMOVE''])
      else b_op (''$'' @ aggregation) (b_list ''$cond'' [cond, toNumber path, B_null]))"

definition sized :: "string \<Rightarrow> string \<Rightarrow> bson" where
  "sized agg name = (if agg = ''count_distinct'' then b_op ''$size'' (B_str (''$'' @ name)) else B_str (''$'' @ name))"

text \<open>\<open>None\<close>: the reference was not resolved; \<open>Some None\<close>: a plain accumulator.\<close>

definition metricStages :: "json \<Rightarrow> string \<Rightarrow> metric_defs \<Rightarrow> ((string \<times> bson) list \<times> bson) option option" where
  "metricStages m slot defs =
     (case str_of (get_prop ''ref'' m) of
        Some r \<Rightarrow>
          (case map_of defs r of
             None \<Rightarrow> None
           | Some d \<Rightarrow>
               if md_aggregation d = ''ratio'' then
                 (let n = slot @ ''n''; dn = slot @ ''d''; num = md_numerator d; den = md_denominator d in
                  Some (Some
                    ([(n, conditionalAccumulator (mp_aggregation num) (mp_field num)
                             (metricCondition (md_connectorId d) (md_filters d @ mp_filters num))),
                      (dn, conditionalAccumulator (mp_aggregation den) (mp_field den)
                             (metricCondition (md_connectorId d) (md_filters d @ mp_filters den)))],
                     b_op ''$let'' (B_doc
                       [(''vars'', B_doc [(''n'', sized (mp_aggregation num) n), (''d'', sized (mp_aggregation den) dn)]),
                        (''in'', b_list ''$cond''
                           [b_list ''$or'' [b_list ''$eq'' [B_str ''$$d'', B_null], b_list ''$eq'' [B_str ''$$d'', B_num 0]],
                            B_null, b_list ''$divide'' [B_str ''$$n'', B_str ''$$d'']])]))))
               else
                 Some (Some
                   ([(slot, conditionalAccumulator (md_aggregation d) (md_field d) (metricCondition (md_connectorId d) (md_filters d)))],
                    sized (md_aggregation d) slot)))
      | None \<Rightarrow>
          if get_prop ''op'' m = Some (JStr ''count_distinct'') then
            (let path = B_str (dataPath (field_of m)) in
             Some (Some
               ([(slot, b_op ''$addToSet'' (b_list ''$cond''
                   [b_list ''$ne'' [b_list ''$ifNull'' [path, B_null], B_null], path, B_str ''$$REMOVE'']))],
                b_op ''$size'' (B_str (''$'' @ slot)))))
          else Some None)"

definition op_of :: "json \<Rightarrow> string" where
  "op_of m = (case str_of (get_prop ''op'' m) of Some s \<Rightarrow> s | None \<Rightarrow> ''undefined'')"

definition metricAccumulator :: "json \<Rightarrow> bson" where
  "metricAccumulator m =
     (let path = dataPath (field_of m) in
      if op_of m = ''count'' then b_op ''$sum'' (B_num 1)
      else if op_of m = ''count_non_null'' then
        b_op ''$sum'' (b_list ''$cond'' [b_list ''$eq'' [b_list ''$ifNull'' [B_str path, B_null], B_null], B_num 0, B_num 1])
      else if op_of m = ''count_distinct'' then b_op ''$addToSet'' (B_str path)
      else b_op (''$'' @ op_of m) (toNumber path))"

definition NUMERIC_OPS :: "string list" where
  "NUMERIC_OPS = [''sum'', ''avg'', ''min'', ''max'']"

definition counts_excluded :: "json \<Rightarrow> bool" where
  "counts_excluded m \<longleftrightarrow> op_of m \<in> set NUMERIC_OPS \<and> given (get_prop ''field'' m)"

definition excludedAccumulators :: "json list \<Rightarrow> (string \<times> bson) list" where
  "excludedAccumulators metrics =
     concat (map (\<lambda>(i, m). if \<not> counts_excluded m then []
         else
           (let path = dataPath (field_of m) in
            [(''__excl'' @ show_nat i,
              b_op ''$sum'' (b_list ''$cond''
                [b_list ''$and'' [b_list ''$ne'' [b_list ''$ifNull'' [B_str path, B_null], B_null], b_list ''$eq'' [toNumber path, B_null]],
                 B_num 1, B_num 0]))]))
       (indexed metrics))"

text \<open>The loop over the metrics: accumulators and derived outputs, both insertion-ordered objects.\<close>

fun metric_loop ::
  "metric_defs \<Rightarrow> nat \<Rightarrow> json list \<Rightarrow> (string \<times> bson) list \<Rightarrow> (string \<times> bson) list
     \<Rightarrow> ((string \<times> bson) list \<times> (string \<times> bson) list) option" where
  "metric_loop defs i [] acc der = Some (acc, der)"
| "metric_loop defs i (m # ms) acc der =
     (case metricStages m (''__m'' @ show_nat i) defs of
        None \<Rightarrow> None
      | Some None \<Rightarrow> metric_loop defs (Suc i) ms (alist_set (metricAlias m) (metricAccumulator m) acc) der
      | Some (Some (extra, output)) \<Rightarrow>
          metric_loop defs (Suc i) ms (foldl (\<lambda>a (k, v). alist_set k v a) acc extra) (alist_set (metricAlias m) output der))"

definition assign :: "(string \<times> bson) list \<Rightarrow> (string \<times> bson) list \<Rightarrow> (string \<times> bson) list" where
  "assign a b = foldl (\<lambda>m (k, v). alist_set k v m) a b"

definition bucket_of :: "json \<Rightarrow> string option" where
  "bucket_of g = (case str_of (get_prop ''bucket'' g) of Some b \<Rightarrow> if b = [] then None else Some b | None \<Rightarrow> None)"

definition buildGroupStages :: "json list \<Rightarrow> json list \<Rightarrow> string \<Rightarrow> metric_defs \<Rightarrow> (stage list \<times> stage list) option" where
  "buildGroupStages groupBy metrics tz defs =
     (case metric_loop defs 0 metrics [] [] of
        None \<Rightarrow> None
      | Some (accs, derived) \<Rightarrow>
          (let pre = concat (map (\<lambda>(i, g). if bucket_of g = None then []
                       else [(''__bucket'' @ show_nat i, businessDate (dataPath (field_of g)) tz)]) (indexed groupBy));
               ident = assign [] (map (\<lambda>(i, g). (field_of g, case bucket_of g of
                         None \<Rightarrow> B_str (dataPath (field_of g))
                       | Some b \<Rightarrow> bucketStart (''$__bucket'' @ show_nat i) b tz)) (indexed groupBy));
               accumulators = (if accs = [] then [(''count'', b_op ''$sum'' (B_num 1))] else accs);
               excluded = excludedAccumulators metrics;
               spec0 = assign [(''_id'', B_num 0)] (map (\<lambda>g. (field_of g, B_str (''$_id.'' @ field_of g))) groupBy);
               spec1 = assign spec0 (map (\<lambda>(k, v). (k, B_num 1)) (filter (\<lambda>(k, v). \<not> starts_with ''__m'' k) accumulators));
               spec2 = assign spec1 derived;
               spec3 = assign spec2 (map (\<lambda>(k, v). (k, B_num 1)) excluded)
           in Some (if pre = [] then [] else [AddFields pre],
                    [Group (if groupBy = [] then B_null else B_doc ident) (assign accumulators excluded), Project spec3])))"

definition direction_of :: "json \<Rightarrow> int" where
  "direction_of x = (if get_prop ''direction'' x = Some (JStr ''desc'') then -1 else 1)"

definition buildGroupedSort :: "json list \<Rightarrow> json list \<Rightarrow> stage list" where
  "buildGroupedSort orderBy groupBy =
     (let spec = foldl (\<lambda>m x. alist_set (field_of x) (direction_of x) m) [] orderBy;
          full = foldl (\<lambda>m g. if map_of m (field_of g) = None then alist_set (field_of g) 1 m else m) spec groupBy
      in if full = [] then [] else [Sort full])"

definition buildRawStages :: "json list \<Rightarrow> stage list" where
  "buildRawStages orderBy =
     (let items = indexed orderBy;
          project = [(''_id'', B_num 0), (''connectorId'', B_num 1), (''sourceRowId'', B_num 1), (''data'', B_num 1), (''ingestedAt'', B_num 1)]
            @ concat (map (\<lambda>(i, x). if field_of x \<in> set TOP_LEVEL_FIELDS then []
                                 else [(''__sort'' @ show_nat i, B_str (''$data.'' @ field_of x))]) items);
          sort0 = foldl (\<lambda>m (i, x). alist_set (if field_of x \<in> set TOP_LEVEL_FIELDS then field_of x else ''__sort'' @ show_nat i)
                                    (direction_of x) m) [] items;
          sort1 = (if sort0 = [] then [(''ingestedAt'', -1)] else sort0);
          sort2 = (if map_of sort1 ''sourceRowId'' = None then alist_set ''sourceRowId'' 1 sort1 else sort1)
      in [Project project, Sort sort2])"

section \<open>The whole pipeline\<close>

record query_stages =
  qs_groupMode :: bool
  qs_prefix :: "stage list"
  qs_group :: "stage list"
  qs_rowStages :: "stage list"

definition leading_stages :: "prepared \<Rightarrow> stage list" where
  "leading_stages q =
     Match (buildBaseMatch q) # buildAccessStages (p_access q)
       @ buildDateStages (p_dateRange q) (p_timezone q)
       @ buildFilterStages (p_filters q) (p_filtersOp q)
       @ concat (map (\<lambda>(fs, fop). buildFilterStages fs fop) (p_filterGroups q))"

definition buildQueryStages :: "prepared \<Rightarrow> metric_defs \<Rightarrow> query_stages option" where
  "buildQueryStages q defs =
     (if p_groupBy q \<noteq> [] \<or> p_metrics q \<noteq> [] then
        (case buildGroupStages (p_groupBy q) (p_metrics q) (p_timezone q) defs of
           None \<Rightarrow> None
         | Some (pre, grp) \<Rightarrow>
             Some \<lparr>qs_groupMode = True, qs_prefix = leading_stages q @ pre, qs_group = grp,
                   qs_rowStages = grp @ buildGroupedSort (p_orderBy q) (p_groupBy q)\<rparr>)
      else Some \<lparr>qs_groupMode = False, qs_prefix = leading_stages q, qs_group = [], qs_rowStages = buildRawStages (p_orderBy q)\<rparr>)"

text \<open>The pipeline \<open>runPrepared\<close> sends, and the one of a row stream.\<close>

definition page_skip :: "nat \<Rightarrow> nat \<Rightarrow> nat" where
  "page_skip page limit = (page - 1) * limit"

definition page_count :: "nat \<Rightarrow> nat \<Rightarrow> nat" where
  "page_count n limit = (if n = 0 then 0 else (n + limit - 1) div limit)"

definition run_pipeline :: "prepared \<Rightarrow> metric_defs \<Rightarrow> stage list option" where
  "run_pipeline q defs =
     (case buildQueryStages q defs of
        None \<Rightarrow> None
      | Some s \<Rightarrow>
          Some (qs_prefix s @
            [Facet (qs_rowStages s @ [Skip (page_skip (p_page q) (p_limit q)), Limit (p_limit q)])
                   ((if qs_groupMode s then take 1 (qs_group s) else []) @ [Count ''n''])]))"

definition stream_pipeline :: "prepared \<Rightarrow> metric_defs \<Rightarrow> stage list option" where
  "stream_pipeline q defs = map_option (\<lambda>s. qs_prefix s @ qs_rowStages s) (buildQueryStages q defs)"

definition computeColumns :: "json list \<Rightarrow> json list \<Rightarrow> string list" where
  "computeColumns groupBy metrics = map field_of groupBy @ (if metrics = [] then [''count''] else map metricAlias metrics)"

section \<open>Tenancy and row-level security\<close>

text \<open>
  What running a pipeline depends on: a leading \<open>$match\<close> keeps the rows it matches, and everything
  after the leading matches is some function of the remaining stages and rows.
\<close>

fun aggregate :: "(bson \<Rightarrow> 'r \<Rightarrow> bool) \<Rightarrow> (stage list \<Rightarrow> 'r list \<Rightarrow> 'o) \<Rightarrow> stage list \<Rightarrow> 'r list \<Rightarrow> 'o" where
  "aggregate matches tail (Match m # ss) rows = aggregate matches tail ss (filter (matches m) rows)"
| "aggregate matches tail ss rows = tail ss rows"

text \<open>The rows a scope lets an actor of a workspace read.\<close>

definition scope_allows :: "(bson \<Rightarrow> 'r \<Rightarrow> bool) \<Rightarrow> ('r \<Rightarrow> string) \<Rightarrow> access_scope option \<Rightarrow> 'r \<Rightarrow> bool" where
  "scope_allows holds dataset access r \<longleftrightarrow>
     (\<exists>sc. access = Some sc \<and>
        (bypass sc \<or>
         to_lower (dataset r) \<notin> to_lower ` set (denied sc) \<and>
         (\<forall>s\<in>set (rowScopes sc). to_lower (rs_connectorId s) = to_lower (dataset r) \<longrightarrow>
            (\<exists>fs. rs_filters s = Some fs \<and> (\<forall>f\<in>set fs. holds (filterExpr f) r)))))"

definition readable ::
  "(bson \<Rightarrow> 'r \<Rightarrow> bool) \<Rightarrow> ('r \<Rightarrow> string) \<Rightarrow> ('r \<Rightarrow> string) \<Rightarrow> ('r \<Rightarrow> bool) \<Rightarrow> string \<Rightarrow> access_scope option \<Rightarrow> 'r \<Rightarrow> bool" where
  "readable holds tenant dataset deleted t access r \<longleftrightarrow> tenant r = t \<and> \<not> deleted r \<and> scope_allows holds dataset access r"

lemma aggregate_matches:
  "aggregate matches tail (map Match ms @ ss) rows = aggregate matches tail ss (filter (\<lambda>r. \<forall>m\<in>set ms. matches m r) rows)"
  by (induction ms arbitrary: rows) (auto intro!: arg_cong[where f = "aggregate matches tail ss"] filter_cong)

lemma access_matches:
  assumes "mongo_reads matches holds tenant dataset deleted"
  shows "\<exists>ms. buildAccessStages access = map Match ms \<and> (\<forall>r. (\<forall>m\<in>set ms. matches m r) \<longleftrightarrow> scope_allows holds dataset access r)"
proof (cases access)
  case None
  then show ?thesis
    using assms by (intro exI[of _ "[b_op ''_id'' (b_op ''$in'' (B_arr []))]"])
      (auto simp: buildAccessStages_def scope_allows_def mongo_reads_def match_row_def)
next
  case (Some sc)
  let ?deny = "b_op ''connectorId'' (b_op ''$nin'' (B_arr (map object_id (denied sc))))"
  let ?rule = "\<lambda>s. b_list ''$or'' [b_list ''$ne'' [B_str ''$connectorId'', object_id (rs_connectorId s)],
                         case rs_filters s of None \<Rightarrow> B_bool False | Some fs \<Rightarrow> b_list ''$and'' (map filterExpr fs)]"
  let ?rules = "b_op ''$expr'' (b_list ''$and'' (map ?rule (rowScopes sc)))"
  have deny: "matches ?deny r \<longleftrightarrow> to_lower (dataset r) \<notin> to_lower ` set (denied sc)" for r
    using assms by (simp add: mongo_reads_def match_row_def)
  have rule: "holds (?rule s) r \<longleftrightarrow> to_lower (rs_connectorId s) = to_lower (dataset r) \<longrightarrow>
      (\<exists>fs. rs_filters s = Some fs \<and> (\<forall>f\<in>set fs. holds (filterExpr f) r))" for s r
    using assms by (cases "rs_filters s") (auto simp: mongo_reads_def expr_reads_def)
  have rules: "matches ?rules r \<longleftrightarrow> (\<forall>s\<in>set (rowScopes sc). holds (?rule s) r)" for r
    using assms by (simp add: mongo_reads_def expr_reads_def)
  let ?ms = "if bypass sc then [] else (if denied sc = [] then [] else [?deny]) @ (if rowScopes sc = [] then [] else [?rules])"
  have "buildAccessStages access = map Match ?ms" using Some by (simp add: buildAccessStages_def)
  moreover have "(\<forall>m\<in>set ?ms. matches m r) \<longleftrightarrow> scope_allows holds dataset access r" for r
    using Some by (auto simp: scope_allows_def deny rules rule)
  ultimately show ?thesis by blast
qed

lemma base_match_reads:
  assumes "mongo_reads matches holds tenant dataset deleted" and "matches (buildBaseMatch q) r"
  shows "tenant r = p_tenantId q \<and> \<not> deleted r"
proof -
  let ?t = "(''tenantId'', B_str (p_tenantId q))" and ?d = "(''deletedAt'', B_null)"
  obtain kvs where kvs: "buildBaseMatch q = B_doc kvs" "{?t, ?d} \<subseteq> set kvs"
    by (simp add: buildBaseMatch_def)
  have "match_fields matches" using assms(1) by (simp add: mongo_reads_def)
  then have "\<forall>kv\<in>set kvs. matches (B_doc [kv]) r"
    using assms(2) unfolding kvs(1) match_fields_def by blast
  then have "matches (B_doc [?t]) r" "matches (B_doc [?d]) r" using kvs(2) by blast+
  then show ?thesis using assms(1) by (simp add: mongo_reads_def match_row_def)
qed

lemma leading_reads:
  assumes "mongo_reads matches holds tenant dataset deleted"
  shows "aggregate matches tail (leading_stages q @ ss) rows =
    aggregate matches tail (leading_stages q @ ss) (filter (readable holds tenant dataset deleted (p_tenantId q) (p_access q)) rows)"
proof -
  from access_matches[OF assms, of "p_access q"] obtain ms where
    ms: "buildAccessStages (p_access q) = map Match ms" "\<And>r. (\<forall>m\<in>set ms. matches m r) \<longleftrightarrow> scope_allows holds dataset (p_access q) r" by blast
  define more where "more = buildDateStages (p_dateRange q) (p_timezone q) @ buildFilterStages (p_filters q) (p_filtersOp q)
       @ concat (map (\<lambda>(fs, fop). buildFilterStages fs fop) (p_filterGroups q)) @ ss"
  have lead: "leading_stages q @ ss = map Match (buildBaseMatch q # ms) @ more"
    by (simp add: leading_stages_def ms(1) more_def)
  have keep: "(\<forall>m\<in>set (buildBaseMatch q # ms). matches m r) \<Longrightarrow> readable holds tenant dataset deleted (p_tenantId q) (p_access q) r" for r
    using base_match_reads[OF assms] ms(2) by (auto simp: readable_def)
  have "filter (\<lambda>r. \<forall>m\<in>set (buildBaseMatch q # ms). matches m r) rows =
      filter (\<lambda>r. \<forall>m\<in>set (buildBaseMatch q # ms). matches m r) (filter (readable holds tenant dataset deleted (p_tenantId q) (p_access q)) rows)"
    unfolding filter_filter using keep by (intro filter_cong) auto
  then show ?thesis unfolding lead aggregate_matches by simp
qed

lemma pipelines_lead:
  "run_pipeline q defs = Some ss \<Longrightarrow> \<exists>more. ss = leading_stages q @ more"
  "stream_pipeline q defs = Some ss \<Longrightarrow> \<exists>more. ss = leading_stages q @ more"
  by (auto simp: run_pipeline_def stream_pipeline_def buildQueryStages_def split: option.splits if_splits)

section \<open>The rows a query answers from\<close>

text \<open>
  The documented meaning of the stages that restrict a query to its window: bounds on the ingestion time
  compare it (with no bound at all the body is compared for equality and matches no date), \<open>$addFields\<close>
  adds the computed field to every row, and bounds beside \<open>$ne\<close> null on that field compare the business
  date, which is a date or null. \<open>ingested\<close> and \<open>date_of\<close> read the stored row, \<open>added\<close> is the row with
  the field.
\<close>

definition in_window :: "int option \<Rightarrow> int option \<Rightarrow> int \<Rightarrow> bool" where
  "in_window f t d \<longleftrightarrow> (\<forall>a. f = Some a \<longrightarrow> a \<le> d) \<and> (\<forall>b. t = Some b \<longrightarrow> d \<le> b)"

definition mongo_windows ::
  "(bson \<Rightarrow> 'r \<Rightarrow> bool) \<Rightarrow> ('r \<Rightarrow> int) \<Rightarrow> (bson \<Rightarrow> 'r \<Rightarrow> int option) \<Rightarrow> ((string \<times> bson) list \<Rightarrow> 'r \<Rightarrow> 'r)
     \<Rightarrow> (stage list \<Rightarrow> 'r list \<Rightarrow> 'o) \<Rightarrow> bool" where
  "mongo_windows matches ingested date_of added tail \<longleftrightarrow>
     (\<forall>f t r. matches (b_op ''ingestedAt'' (B_doc (date_bounds f t))) r \<longleftrightarrow> (f \<noteq> None \<or> t \<noteq> None) \<and> in_window f t (ingested r))
   \<and> (\<forall>p tz f t r. matches (b_op ''__window'' (B_doc ((''$ne'', B_null) # date_bounds f t))) (added [(''__window'', businessDate p tz)] r)
        \<longleftrightarrow> (\<exists>d. date_of (businessDate p tz) r = Some d \<and> in_window f t d))
   \<and> (\<forall>fs ss rows. tail (AddFields fs # ss) rows = aggregate matches tail ss (map (added fs) rows))"

text \<open>The datasets and the window a query selects, and the rows it answers from.\<close>

definition selected :: "('r \<Rightarrow> string) \<Rightarrow> ('r \<Rightarrow> int) \<Rightarrow> (bson \<Rightarrow> 'r \<Rightarrow> int option) \<Rightarrow> prepared \<Rightarrow> 'r \<Rightarrow> bool" where
  "selected dataset ingested date_of q r \<longleftrightarrow>
     (p_connectorIds q = [] \<or> to_lower (dataset r) \<in> to_lower ` set (p_connectorIds q))
     \<and> (case p_dateRange q of
          None \<Rightarrow> True
        | Some (fd, f, t) \<Rightarrow>
            if fd = ''ingestedAt'' then (f \<noteq> None \<or> t \<noteq> None) \<and> in_window f t (ingested r)
            else (\<exists>d. date_of (businessDate (dataPath fd) (p_timezone q)) r = Some d \<and> in_window f t d))"

definition windowed :: "((string \<times> bson) list \<Rightarrow> 'r \<Rightarrow> 'r) \<Rightarrow> prepared \<Rightarrow> 'r \<Rightarrow> 'r" where
  "windowed added q r =
     (case p_dateRange q of
        None \<Rightarrow> r
      | Some (fd, f, t) \<Rightarrow> if fd = ''ingestedAt'' then r else added [(''__window'', businessDate (dataPath fd) (p_timezone q))] r)"

definition base_selected :: "('r \<Rightarrow> string) \<Rightarrow> ('r \<Rightarrow> int) \<Rightarrow> prepared \<Rightarrow> 'r \<Rightarrow> bool" where
  "base_selected dataset ingested q r \<longleftrightarrow>
     (p_connectorIds q = [] \<or> to_lower (dataset r) \<in> to_lower ` set (p_connectorIds q))
     \<and> (case p_dateRange q of
          None \<Rightarrow> True
        | Some (fd, f, t) \<Rightarrow> fd = ''ingestedAt'' \<longrightarrow> (f \<noteq> None \<or> t \<noteq> None) \<and> in_window f t (ingested r))"

lemma base_match_exact:
  assumes m: "mongo_reads matches holds tenant dataset deleted" and w: "mongo_windows matches ingested date_of added tail"
  shows "matches (buildBaseMatch q) r \<longleftrightarrow> tenant r = p_tenantId q \<and> \<not> deleted r \<and> base_selected dataset ingested q r"
proof -
  have f: "matches (B_doc kvs) r \<longleftrightarrow> (\<forall>kv\<in>set kvs. matches (B_doc [kv]) r)" for kvs
    using m unfolding mongo_reads_def match_fields_def by blast
  have t: "matches (B_doc [(''tenantId'', B_str (p_tenantId q))]) r \<longleftrightarrow> tenant r = p_tenantId q"
    and d: "matches (B_doc [(''deletedAt'', B_null)]) r \<longleftrightarrow> \<not> deleted r"
    and c: "matches (b_op ''connectorId'' (b_op ''$in'' (B_arr (map object_id ids)))) r \<longleftrightarrow> to_lower (dataset r) \<in> to_lower ` set ids" for ids
    using m unfolding mongo_reads_def match_row_def by blast+
  have i: "matches (b_op ''ingestedAt'' (B_doc (date_bounds a b))) r \<longleftrightarrow> (a \<noteq> None \<or> b \<noteq> None) \<and> in_window a b (ingested r)" for a b
    using w unfolding mongo_windows_def by blast
  let ?cs = "if p_connectorIds q = [] then [] else [(''connectorId'', b_op ''$in'' (B_arr (map object_id (p_connectorIds q))))]"
  let ?ws = "case p_dateRange q of Some (fd, f, t) \<Rightarrow> if fd = ''ingestedAt'' then [(''ingestedAt'', B_doc (date_bounds f t))] else [] | None \<Rightarrow> []"
  have cs: "(\<forall>kv\<in>set ?cs. matches (B_doc [kv]) r) \<longleftrightarrow> p_connectorIds q = [] \<or> to_lower (dataset r) \<in> to_lower ` set (p_connectorIds q)"
    using c[of "p_connectorIds q"] by simp
  have ws: "(\<forall>kv\<in>set ?ws. matches (B_doc [kv]) r) \<longleftrightarrow> (case p_dateRange q of
          None \<Rightarrow> True | Some (fd, f, t) \<Rightarrow> fd = ''ingestedAt'' \<longrightarrow> (f \<noteq> None \<or> t \<noteq> None) \<and> in_window f t (ingested r))"
    by (cases "p_dateRange q") (auto simp: i)
  have "matches (buildBaseMatch q) r \<longleftrightarrow> matches (B_doc [(''tenantId'', B_str (p_tenantId q))]) r \<and> matches (B_doc [(''deletedAt'', B_null)]) r
      \<and> (\<forall>kv\<in>set ?cs. matches (B_doc [kv]) r) \<and> (\<forall>kv\<in>set ?ws. matches (B_doc [kv]) r)"
    unfolding buildBaseMatch_def by (subst f) (simp only: set_append ball_Un list.set ball_simps simp_thms conj_assoc)
  then show ?thesis unfolding t d cs ws base_selected_def .
qed

lemma date_stage_exact:
  assumes w: "mongo_windows matches ingested date_of added tail"
  shows "aggregate matches tail (buildDateStages (p_dateRange q) (p_timezone q) @ later) (filter (\<lambda>r. P r \<and> base_selected dataset ingested q r) rows)
    = aggregate matches tail later (map (windowed added q) (filter (\<lambda>r. P r \<and> selected dataset ingested date_of q r) rows))"
proof (cases "p_dateRange q")
  case None
  then show ?thesis by (simp add: buildDateStages_def windowed_def[abs_def] selected_def base_selected_def)
next
  case (Some x)
  obtain fd f t where x: "p_dateRange q = Some (fd, f, t)" using Some by (cases x) simp
  show ?thesis
  proof (cases "fd = ''ingestedAt''")
    case True
    then show ?thesis using x by (simp add: buildDateStages_def windowed_def[abs_def] selected_def base_selected_def)
  next
    case False
    let ?e = "businessDate (dataPath fd) (p_timezone q)" and ?b = "b_op ''__window'' (B_doc ((''$ne'', B_null) # date_bounds f t))"
    let ?add = "added [(''__window'', ?e)]"
    have st: "buildDateStages (p_dateRange q) (p_timezone q) = [AddFields [(''__window'', ?e)], Match ?b]"
      using x False by (simp only: buildDateStages_def option.case prod.case if_False)
    have m: "matches ?b (?add r) \<longleftrightarrow> (\<exists>d. date_of ?e r = Some d \<and> in_window f t d)" for r
      using w unfolding mongo_windows_def by blast
    have tl: "tail (AddFields [(''__window'', ?e)] # ss) xs = aggregate matches tail ss (map ?add xs)" for ss xs
      using w unfolding mongo_windows_def by blast
    have sel: "base_selected dataset ingested q r \<and> matches ?b (?add r) \<longleftrightarrow> selected dataset ingested date_of q r" for r
      unfolding m selected_def base_selected_def x option.case prod.case if_not_P[OF False] using False by blast
    have "aggregate matches tail ([AddFields [(''__window'', ?e)], Match ?b] @ later) xs
        = aggregate matches tail later (filter (matches ?b) (map ?add xs))" for xs
      unfolding append.simps aggregate.simps tl ..
    also have "filter (matches ?b) (map ?add xs) = map ?add (filter (\<lambda>r. matches ?b (?add r)) xs)" for xs
      by (simp only: filter_map comp_def)
    finally have a: "aggregate matches tail ([AddFields [(''__window'', ?e)], Match ?b] @ later) xs
        = aggregate matches tail later (map ?add (filter (\<lambda>r. matches ?b (?add r)) xs))" for xs .
    have "windowed added q = ?add" using x False by (intro ext) (simp only: windowed_def option.case prod.case if_False)
    moreover have "filter (\<lambda>r. matches ?b (?add r)) (filter (\<lambda>r. P r \<and> base_selected dataset ingested q r) rows)
        = filter (\<lambda>r. P r \<and> selected dataset ingested date_of q r) rows"
      unfolding filter_filter sel[symmetric] by (simp only: conj_assoc)
    ultimately show ?thesis unfolding st a by (simp only:)
  qed
qed

text \<open> C2.
  What a query answers from. Whatever the query asks, the stages of its pipeline (paged or streamed) that
  come after the workspace, access and date stages see exactly these rows, each with its business date where
  the window is on a column: the rows of the query's own workspace that are not deleted, that the access scope
  allows, that belong to the selected datasets and that lie in the date window. So no other row can change the
  answer, and none of these is lost before the filters. Without a scope there is no such row. The hypotheses
  are the documented meaning of MongoDB's match operators and of \<open>$addFields\<close>.\<close>
theorem query_reads_exactly_selected:
  assumes "mongo_reads matches holds tenant dataset deleted" and "mongo_windows matches ingested date_of added tail"
    and "run_pipeline q defs = Some ss \<or> stream_pipeline q defs = Some ss"
  shows "\<exists>later. ss = Match (buildBaseMatch q) # buildAccessStages (p_access q) @ buildDateStages (p_dateRange q) (p_timezone q) @ later
    \<and> (\<forall>rows. aggregate matches tail ss rows = aggregate matches tail later (map (windowed added q)
         (filter (\<lambda>r. readable holds tenant dataset deleted (p_tenantId q) (p_access q) r \<and> selected dataset ingested date_of q r) rows)))"
proof -
  let ?R = "readable holds tenant dataset deleted (p_tenantId q) (p_access q)"
  from assms(3) obtain rest where "ss = leading_stages q @ rest" using pipelines_lead by blast
  then obtain later where ss: "ss = Match (buildBaseMatch q) # buildAccessStages (p_access q) @ buildDateStages (p_dateRange q) (p_timezone q) @ later"
    by (simp add: leading_stages_def)
  from access_matches[OF assms(1), of "p_access q"] obtain ms where
    ms: "buildAccessStages (p_access q) = map Match ms" "\<And>r. (\<forall>m\<in>set ms. matches m r) \<longleftrightarrow> scope_allows holds dataset (p_access q) r" by blast
  have lead: "ss = map Match (buildBaseMatch q # ms) @ buildDateStages (p_dateRange q) (p_timezone q) @ later" unfolding ss ms(1) by simp
  have keep: "(\<forall>m\<in>set (buildBaseMatch q # ms). matches m r) \<longleftrightarrow> ?R r \<and> base_selected dataset ingested q r" for r
    using base_match_exact[OF assms(1,2), of q r] ms(2)[of r] by (auto simp: readable_def)
  have "aggregate matches tail ss rows = aggregate matches tail later (map (windowed added q) (filter (\<lambda>r. ?R r \<and> selected dataset ingested date_of q r) rows))" for rows
    unfolding lead aggregate_matches keep by (rule date_stage_exact[OF assms(2)])
  then show ?thesis using ss by blast
qed

text \<open>A small evaluator with the documented meaning, for the examples: rows are workspace, dataset, deleted.\<close>

fun demo_holds :: "bson \<Rightarrow> string \<times> string \<times> bool \<Rightarrow> bool" where
  "demo_holds (B_bool b) r = b"
| "demo_holds (B_doc [(k, B_arr es)]) r =
     (if k = ''$and'' then \<forall>e\<in>set es. demo_holds e r
      else if k = ''$or'' then \<exists>e\<in>set es. demo_holds e r
      else k = ''$ne'' \<and> (case es of [B_str p, B_oid c] \<Rightarrow> to_lower (fst (snd r)) \<noteq> c | _ \<Rightarrow> False))"
| "demo_holds e r = False"

definition demo_field :: "string \<Rightarrow> bson \<Rightarrow> string \<times> string \<times> bool \<Rightarrow> bool" where
  "demo_field k v r =
     (if k = ''tenantId'' then v = B_str (fst r)
      else if k = ''deletedAt'' then v = B_null \<and> \<not> snd (snd r)
      else if k = ''connectorId'' then
        (case v of
           B_doc [(f, B_arr ids)] \<Rightarrow> if f = ''$in'' then object_id (fst (snd r)) \<in> set ids else object_id (fst (snd r)) \<notin> set ids
         | _ \<Rightarrow> False)
      else k = ''$expr'' \<and> demo_holds v r)"

fun demo_matches :: "bson \<Rightarrow> string \<times> string \<times> bool \<Rightarrow> bool" where
  "demo_matches (B_doc kvs) r = (\<forall>(k, v)\<in>set kvs. demo_field k v r)"
| "demo_matches e r = False"

lemma object_id_mem: "object_id c \<in> set (map object_id ids) \<longleftrightarrow> to_lower c \<in> to_lower ` set ids"
  by (auto simp: object_id_def)

lemma demo_reads: "mongo_reads demo_matches demo_holds fst (\<lambda>r. fst (snd r)) (\<lambda>r. snd (snd r))"
proof -
  have "match_row demo_matches fst (\<lambda>r. fst (snd r)) (\<lambda>r. snd (snd r))"
    unfolding match_row_def by (auto simp: demo_field_def object_id_mem simp del: set_map)
  moreover have "expr_reads demo_matches demo_holds (\<lambda>r. fst (snd r))"
    unfolding expr_reads_def by (simp add: demo_field_def object_id_def)
  moreover have "match_fields demo_matches" unfolding match_fields_def by auto
  ultimately show ?thesis by (simp add: mongo_reads_def)
qed

definition sample_query :: "access_scope option \<Rightarrow> prepared" where
  "sample_query access =
     \<lparr>p_tenantId = ''t'', p_connectorIds = [], p_filters = [], p_filtersOp = ''and'', p_filterGroups = [], p_dateRange = None,
      p_metrics = [], p_groupBy = [JObj [(''field'', JStr ''region'')]], p_orderBy = [], p_timezone = ''UTC'', p_access = access,
      p_page = 1, p_limit = 50\<rparr>"

definition sample_stages :: "access_scope option \<Rightarrow> stage list" where
  "sample_stages access = (case run_pipeline (sample_query access) [] of Some ss \<Rightarrow> ss | None \<Rightarrow> [])"

lemma groups_without_metrics: "buildGroupStages gs [] tz defs \<noteq> None"
  unfolding buildGroupStages_def metric_loop.simps Let_def option.case prod.case by (rule option.distinct(2))

lemma sample_runs: "run_pipeline (sample_query access) [] = Some (sample_stages access)"
proof -
  have "run_pipeline (sample_query access) [] \<noteq> None"
    using groups_without_metrics by (auto simp: run_pipeline_def buildQueryStages_def sample_query_def split: option.splits)
  then show ?thesis by (auto simp: sample_stages_def)
qed

lemma sample_query_sel [simp]: "p_tenantId (sample_query access) = ''t''" "p_access (sample_query access) = access"
  by (simp_all add: sample_query_def)

text \<open>The same evaluator on rows with an ingestion time and the field a stage may add; the business date of a row is
  its ingestion time.\<close>

type_synonym demo_row = "(string \<times> string \<times> bool) \<times> int \<times> int option"

definition demo_compare :: "string \<Rightarrow> bson \<Rightarrow> int \<Rightarrow> bool" where
  "demo_compare k v d = (case v of B_date y \<Rightarrow> if k = ''$gte'' then y \<le> d else d \<le> y | _ \<Rightarrow> k = ''$ne'')"

definition demo_dates :: "bson \<Rightarrow> int option \<Rightarrow> bool" where
  "demo_dates v x = (case v of B_doc kvs \<Rightarrow> kvs \<noteq> [] \<and> (case x of None \<Rightarrow> False | Some d \<Rightarrow> \<forall>(k, b)\<in>set kvs. demo_compare k b d) | _ \<Rightarrow> False)"

fun demo_matches_dated :: "bson \<Rightarrow> demo_row \<Rightarrow> bool" where
  "demo_matches_dated (B_doc kvs) r = (\<forall>(k, v)\<in>set kvs.
     if k = ''ingestedAt'' then demo_dates v (Some (fst (snd r)))
     else if k = ''__window'' then demo_dates v (snd (snd r)) else demo_field k v (fst r))"
| "demo_matches_dated e r = False"

definition demo_added :: "(string \<times> bson) list \<Rightarrow> demo_row \<Rightarrow> demo_row" where
  "demo_added fs r = (fst r, fst (snd r), Some (fst (snd r)))"

fun demo_tail :: "stage list \<Rightarrow> demo_row list \<Rightarrow> demo_row list" where
  "demo_tail (AddFields fs # ss) rows = demo_tail ss (map (demo_added fs) rows)"
| "demo_tail (Match m # ss) rows = demo_tail ss (filter (demo_matches_dated m) rows)"
| "demo_tail ss rows = rows"

lemma demo_tail_aggregate: "aggregate demo_matches_dated demo_tail ss rows = demo_tail ss rows"
  by (induction ss rows rule: demo_tail.induct) simp_all

lemma demo_bounds: "(\<forall>(k, b)\<in>set (date_bounds f t). demo_compare k b d) \<longleftrightarrow> in_window f t d"
  by (auto simp: date_bounds_def demo_compare_def in_window_def split: option.splits)

lemma date_bounds_Nil: "date_bounds f t = [] \<longleftrightarrow> f = None \<and> t = None"
  by (auto simp: date_bounds_def split: option.splits)

lemma demo_windows: "mongo_windows demo_matches_dated (\<lambda>r. fst (snd r)) (\<lambda>e r. Some (fst (snd r))) demo_added demo_tail"
proof -
  have "demo_matches_dated (b_op ''ingestedAt'' (B_doc (date_bounds f t))) r \<longleftrightarrow> (f \<noteq> None \<or> t \<noteq> None) \<and> in_window f t (fst (snd r))" for f t r
    by (simp add: demo_dates_def demo_bounds date_bounds_Nil)
  moreover have "demo_matches_dated (b_op ''__window'' (B_doc ((''$ne'', B_null) # date_bounds f t))) (demo_added fs r) \<longleftrightarrow> in_window f t (fst (snd r))" for f t r fs
    by (simp add: demo_dates_def demo_bounds demo_added_def) (simp add: demo_compare_def)
  ultimately show ?thesis unfolding mongo_windows_def demo_tail_aggregate by (simp only: demo_tail.simps option.inject ex_simps simp_thms)
qed

lemma demo_reads_dated: "mongo_reads demo_matches_dated (\<lambda>e r. demo_holds e (fst r)) (\<lambda>r. fst (fst r)) (\<lambda>r. fst (snd (fst r))) (\<lambda>r. snd (snd (fst r)))"
proof -
  have "match_row demo_matches_dated (\<lambda>r. fst (fst r)) (\<lambda>r. fst (snd (fst r))) (\<lambda>r. snd (snd (fst r)))"
    unfolding match_row_def by (auto simp: demo_field_def object_id_mem simp del: set_map)
  moreover have "expr_reads demo_matches_dated (\<lambda>e r. demo_holds e (fst r)) (\<lambda>r. fst (snd (fst r)))"
    unfolding expr_reads_def by (simp add: demo_field_def object_id_def)
  moreover have "match_fields demo_matches_dated" unfolding match_fields_def by auto
  ultimately show ?thesis by (simp add: mongo_reads_def)
qed

definition dated_query :: prepared where
  "dated_query = (sample_query (Some (makeScope False [] [] [])))\<lparr>p_connectorIds := [''a''], p_dateRange := Some (''day'', Some 5, None)\<rparr>"

lemma dated_sel: "p_tenantId dated_query = ''t''" "p_access dated_query = Some (makeScope False [] [] [])" "p_connectorIds dated_query = [''a'']"
  "p_dateRange dated_query = Some (''day'', Some 5, None)"
  by (simp_all add: dated_query_def)

lemma dated_runs: "\<exists>ss. run_pipeline dated_query [] = Some ss"
proof -
  have "p_metrics dated_query = []" "p_groupBy dated_query \<noteq> []" by (simp_all add: dated_query_def sample_query_def)
  then have "run_pipeline dated_query [] \<noteq> None"
    using groups_without_metrics by (auto simp: run_pipeline_def buildQueryStages_def split: option.splits)
  then show ?thesis by simp
qed

theorem query_reads_exactly_selected_witness:
  "\<exists>ss. run_pipeline dated_query [] = Some ss
    \<and> aggregate demo_matches_dated demo_tail ss
        [((''t'', ''a'', False), 7, None), ((''t'', ''b'', False), 7, None), ((''t'', ''a'', False), 3, None), ((''u'', ''a'', False), 7, None)]
      = aggregate demo_matches_dated demo_tail ss [((''t'', ''a'', False), 7, None)]"
proof -
  obtain ss where ss: "run_pipeline dated_query [] = Some ss" using dated_runs by blast
  let ?ok = "\<lambda>r :: demo_row. readable (\<lambda>e r. demo_holds e (fst r)) (\<lambda>r. fst (fst r)) (\<lambda>r. fst (snd (fst r))) (\<lambda>r. snd (snd (fst r)))
      (p_tenantId dated_query) (p_access dated_query) r
    \<and> selected (\<lambda>r. fst (snd (fst r))) (\<lambda>r. fst (snd r)) (\<lambda>e r. Some (fst (snd r))) dated_query r"
  obtain later where m: "\<And>rows. aggregate demo_matches_dated demo_tail ss rows
      = aggregate demo_matches_dated demo_tail later (map (windowed demo_added dated_query) (filter ?ok rows))"
    using query_reads_exactly_selected[OF demo_reads_dated demo_windows disjI1[OF ss]] by blast
  have low: "to_lower ''a'' = ''a''" "to_lower ''b'' = ''b''" by code_simp+
  have no: "\<not> ?ok ((''t'', ''b'', False), 7, None)" "\<not> ?ok ((''t'', ''a'', False), 3, None)" "\<not> ?ok ((''u'', ''a'', False), 7, None)"
    unfolding selected_def readable_def dated_sel low by (simp_all add: in_window_def low)
  let ?A = "[((''t'', ''a'', False), 7, None), ((''t'', ''b'', False), 7, None), ((''t'', ''a'', False), 3, None), ((''u'', ''a'', False), 7, None)] :: demo_row list"
    and ?B = "[((''t'', ''a'', False), 7, None)] :: demo_row list"
  have "filter ?ok [((''t'', ''a'', False), 7, None), ((''t'', ''b'', False), 7, None), ((''t'', ''a'', False), 3, None), ((''u'', ''a'', False), 7, None)]
      = filter ?ok [((''t'', ''a'', False), 7, None)]"
    unfolding filter.simps if_not_P[OF no(1)] if_not_P[OF no(2)] if_not_P[OF no(3)] ..
  then have "aggregate demo_matches_dated demo_tail ss ?A = aggregate demo_matches_dated demo_tail ss ?B"
    unfolding m[of ?A] m[of ?B] by (simp only:)
  then show ?thesis using ss by blast
qed

text \<open>What a member is entitled to read, from grants, policies and attributes.\<close>

definition entitled ::
  "access_store \<Rightarrow> string \<Rightarrow> int \<Rightarrow> actor \<Rightarrow> (bson \<Rightarrow> 'r \<Rightarrow> bool) \<Rightarrow> ('r \<Rightarrow> string) \<Rightarrow> ('r \<Rightarrow> string) \<Rightarrow> 'r \<Rightarrow> bool" where
  "entitled st t now who holds tenant dataset r \<longleftrightarrow>
     tenant r = t \<and> may_query st t now who (dataset r) \<and>
     (case row_rule st t who (dataset r) of
        None \<Rightarrow> True
      | Some None \<Rightarrow> False
      | Some (Some fs) \<Rightarrow> \<forall>f\<in>set fs. holds (filterExpr f) r)"

lemma readable_entitled:
  assumes sc: "resolveAccessScope st perms now t who = Inr sc" "\<not> bypass sc"
    and r: "readable holds tenant dataset deleted t (Some sc) r"
  shows "entitled st t now who holds tenant dataset r"
proof -
  have allow: "dataset r \<notin> set (denied sc)"
    "\<And>s. s \<in> set (rowScopes sc) \<Longrightarrow> rs_connectorId s = dataset r \<Longrightarrow> \<exists>fs. rs_filters s = Some fs \<and> (\<forall>f\<in>set fs. holds (filterExpr f) r)"
    using r sc(2) by (auto simp: readable_def scope_allows_def)
  have rule: "map_option rs_filters (find (\<lambda>s. rs_connectorId s = dataset r) (rowScopes sc)) = row_rule st t who (dataset r)"
    using scope_rule_eq[OF sc allow(1)] by (simp add: scope_rule_def)
  have "may_query st t now who (dataset r)" using denied_iff[OF sc] allow(1) by simp
  moreover have "case row_rule st t who (dataset r) of None \<Rightarrow> True | Some None \<Rightarrow> False | Some (Some fs) \<Rightarrow> \<forall>f\<in>set fs. holds (filterExpr f) r"
  proof (cases "find (\<lambda>s. rs_connectorId s = dataset r) (rowScopes sc)")
    case (Some s)
    then have "s \<in> set (rowScopes sc)" "rs_connectorId s = dataset r" by (auto simp: find_Some_iff)
    from allow(2)[OF this] obtain fs where "rs_filters s = Some fs" "\<forall>f\<in>set fs. holds (filterExpr f) r" by blast
    then show ?thesis using rule[symmetric] Some by simp
  qed (use rule in simp)
  ultimately show ?thesis using r by (simp add: entitled_def readable_def)
qed

text \<open> C1.
  End to end. When the scope is the one resolved for an actor who does not administer the rules, the
  answer of every query depends only on the rows that actor is entitled to by the workspace's grants,
  row policies and the actor's attributes; no other row can change it.\<close>
theorem member_query_sees_entitled:
  assumes "mongo_reads matches holds tenant dataset deleted"
    and "resolveAccessScope st perms now (p_tenantId q) who = Inr sc" and "\<not> bypass sc" and "p_access q = Some sc"
    and "run_pipeline q defs = Some ss \<or> stream_pipeline q defs = Some ss"
    and "filter (entitled st (p_tenantId q) now who holds tenant dataset) rows
       = filter (entitled st (p_tenantId q) now who holds tenant dataset) rows'"
  shows "aggregate matches tail ss rows = aggregate matches tail ss rows'"
proof -
  let ?R = "readable holds tenant dataset deleted (p_tenantId q) (p_access q)"
    and ?E = "entitled st (p_tenantId q) now who holds tenant dataset"
  have "filter ?R xs = filter ?R (filter ?E xs)" for xs
    unfolding filter_filter using readable_entitled[OF assms(2,3)] assms(4) by (intro filter_cong) auto
  then have eq: "filter ?R rows = filter ?R rows'" using assms(6) by metis
  from assms(5) obtain more where "ss = leading_stages q @ more" using pipelines_lead by blast
  then show ?thesis using leading_reads[OF assms(1)] eq by metis
qed

theorem member_query_sees_entitled_witness:
  "aggregate demo_matches (\<lambda>ss rows. rows)
      (sample_stages (Some (makeScope False [hex_id (CHR ''a'')] [hex_id (CHR ''a'')] [\<lparr>rs_connectorId = hex_id (CHR ''b''), rs_filters = None\<rparr>])))
      [(''t'', hex_id (CHR ''a''), False), (''t'', ''c'', False)]
    = aggregate demo_matches (\<lambda>ss rows. rows)
      (sample_stages (Some (makeScope False [hex_id (CHR ''a'')] [hex_id (CHR ''a'')] [\<lparr>rs_connectorId = hex_id (CHR ''b''), rs_filters = None\<rparr>])))
      [(''t'', ''c'', False)]"
proof -
  let ?sc = "makeScope False [hex_id (CHR ''a'')] [hex_id (CHR ''a'')] [\<lparr>rs_connectorId = hex_id (CHR ''b''), rs_filters = None\<rparr>]"
    and ?who = "User_actor (hex_id (CHR ''2''))"
  have sc: "resolveAccessScope sample_store (\<lambda>_. []) 0 ''t'' ?who = Inr ?sc" by code_simp
  have no: "\<not> may_query sample_store ''t'' 0 ?who (hex_id (CHR ''a''))"
    using denied_iff[OF sc, of "hex_id (CHR ''a'')"] by (simp add: makeScope_def)
  have sc': "resolveAccessScope sample_store (\<lambda>_. []) 0 (p_tenantId (sample_query (Some ?sc))) ?who = Inr ?sc"
    using sc by simp
  let ?E = "entitled sample_store (p_tenantId (sample_query (Some ?sc))) 0 ?who demo_holds fst (\<lambda>r. fst (snd r))"
  have same: "filter ?E [(''t'', hex_id (CHR ''a''), False), (''t'', ''c'', False)] = filter ?E [(''t'', ''c'', False)]"
    using no by (simp add: entitled_def)
  show ?thesis
    by (rule member_query_sees_entitled[OF demo_reads sc' _ _ disjI1[OF sample_runs] same]) (simp_all add: makeScope_def)
qed

section \<open>Client text is never an expression\<close>

text \<open>The texts of an expression that MongoDB reads as field paths: those that begin with a dollar sign
outside \<open>$literal\<close>.\<close>

fun field_paths :: "bson \<Rightarrow> string list" where
  "field_paths (B_str s) = (if s \<noteq> [] \<and> hd s = CHR ''$'' then [s] else [])"
| "field_paths (B_arr xs) = concat (map field_paths xs)"
| "field_paths (B_doc kvs) = concat (map (\<lambda>(k, v). if k = ''$literal'' then [] else field_paths v) kvs)"
| "field_paths v = []"

lemma object_id_path [simp]: "field_paths (object_id c) = []"
  by (simp add: object_id_def)

lemma dataPath_path: "field_paths (B_str (dataPath fd)) = [dataPath fd]"
  by (simp add: dataPath_def)

lemma toNumber_path: "field_paths (toNumber (dataPath fd)) = [dataPath fd]"
  by (simp add: toNumber_def dataPath_path del: field_paths.simps(1)) simp

text \<open> C20.
  No injection through filters. In the expression of an accepted filter the only text MongoDB reads as
  a field path is the path of the filter's own field, whose name holds no dollar sign and no dot and is
  not credential-like; the values of the filter are literals, numbers or dataset ids.\<close>
theorem filter_values_are_literals:
  assumes "filter_ok f"
  shows "set (field_paths (filterExpr f)) \<subseteq> {dataPath (field_of f)}
    \<and> CHR ''$'' \<notin> set (field_of f) \<and> CHR ''.'' \<notin> set (field_of f) \<and> \<not> isSensitiveFieldName (field_of f)"
proof -
  obtain fd op v where f: "f = JObj [(''field'', JStr fd), (''op'', JStr op), (''value'', v)]" "safe_text fd"
      "\<not> isSensitiveFieldName fd" "op \<in> set FILTER_OPS" "value_ok fd op v"
    using assms by (auto simp: filter_ok_def)
  have fd: "field_of f = fd" using f by (simp add: field_of_def)
  have names: "CHR ''$'' \<notin> set fd" "CHR ''.'' \<notin> set fd" using f(2) by (auto simp: safe_text_def list_all_iff)
  let ?lit = "\<lambda>v. if fd = ''connectorId'' then object_id (case v of JStr s \<Rightarrow> s | _ \<Rightarrow> []) else b_op ''$literal'' (of_json v)"
  have lit: "field_paths (?lit w) = []" for w by simp
  have lits: "field_paths (B_arr (map ?lit ws)) = []" for ws using lit by (induction ws) auto
  have e: "filterExpr f =
     (if op = ''eq'' then b_list ''$eq'' [B_str (dataPath fd), ?lit v]
      else if op = ''neq'' then b_list ''$ne'' [B_str (dataPath fd), ?lit v]
      else if op = ''in'' then b_list ''$in'' [B_str (dataPath fd), B_arr (map ?lit (elems (Some v)))]
      else if op = ''nin'' then b_list ''$not'' [b_list ''$in'' [B_str (dataPath fd), B_arr (map ?lit (elems (Some v)))]]
      else if op = ''exists'' then
        (if truthy v then b_list ''$ne'' [b_list ''$ifNull'' [B_str (dataPath fd), B_null], B_null]
         else b_list ''$eq'' [b_list ''$ifNull'' [B_str (dataPath fd), B_null], B_null])
      else b_list ''$and'' [b_list ''$ne'' [toNumber (dataPath fd), B_null], b_list (''$'' @ op) [toNumber (dataPath fd), of_json v]])"
    using f(1) fd by (simp add: filterExpr_def Let_def)
  have "op = ''eq'' \<or> op = ''neq'' \<or> op = ''in'' \<or> op = ''nin'' \<or> op = ''exists'' \<or> op \<in> set RANGE_OPS"
    using f(4) by (simp add: FILTER_OPS_def RANGE_OPS_def) argo
  then have "set (field_paths (filterExpr f)) \<subseteq> {dataPath fd}"
  proof (elim disjE)
    assume range: "op \<in> set RANGE_OPS"
    then have "\<exists>q. v = JNum q" using f(5) by (auto simp: value_ok_def RANGE_OPS_def)
    then obtain q where q: "v = JNum q" by blast
    have ne: "op \<noteq> ''eq''" "op \<noteq> ''neq''" "op \<noteq> ''in''" "op \<noteq> ''nin''" "op \<noteq> ''exists''"
      using range by (auto simp: RANGE_OPS_def)
    show ?thesis unfolding e using ne by (simp add: q toNumber_path)
  qed (simp_all add: e dataPath_path lit lits del: field_paths.simps(1) map_map)
  then show ?thesis using fd names f(3) by simp
qed

theorem filter_values_are_literals_witness:
  "field_paths (filterExpr (JObj [(''field'', JStr ''region''), (''op'', JStr ''eq''), (''value'', JStr ''$data.secret'')])) = [''$data.region'']
    \<and> CHR ''$'' \<notin> set (field_of (JObj [(''field'', JStr ''region''), (''op'', JStr ''eq''), (''value'', JStr ''$data.secret'')]))"
proof -
  have "validateFilters (JArr [JObj [(''field'', JStr ''region''), (''op'', JStr ''eq''), (''value'', JStr ''$data.secret'')]]) [] =
      ([], JArr [JObj [(''field'', JStr ''region''), (''op'', JStr ''eq''), (''value'', JStr ''$data.secret'')]])" by code_simp
  then have "filter_ok (JObj [(''field'', JStr ''region''), (''op'', JStr ''eq''), (''value'', JStr ''$data.secret'')])"
    by (auto dest!: validateFilters_ok simp: filters_ok_def)
  from filter_values_are_literals[OF this] show ?thesis by (simp add: filterExpr_def field_of_def dataPath_def TOP_LEVEL_FIELDS_def)
qed

section \<open>Pages\<close>

lemma pages_concat:
  "concat (map (\<lambda>p. take k (drop (p * k) xs)) [0..<n]) = take (n * k) xs"
proof (induction n)
  case (Suc n)
  have "take (n * k + k) xs = take (n * k) xs @ take k (drop (n * k) xs)" by (rule take_add)
  then show ?case using Suc by (simp add: add.commute)
qed simp

text \<open> Paging. The pages \<open>$skip\<close> and \<open>$limit\<close> cut out of the ordered result, from the first to the reported
  page count, are exactly the result: no row is lost or repeated, each page has at most \<open>limit\<close> rows, and
  only the pages up to the count have rows.\<close>
theorem pages_partition_result:
  assumes "0 < limit"
  shows "concat (map (\<lambda>p. take limit (drop (page_skip (Suc p) limit) rows)) [0..<page_count (length rows) limit]) = rows
    \<and> (\<forall>p \<ge> 1. take limit (drop (page_skip p limit) rows) = [] \<longleftrightarrow> page_count (length rows) limit < p)"
proof -
  let ?n = "page_count (length rows) limit"
  have n: "?n = (length rows + limit - 1) div limit" using assms by (simp add: page_count_def)
  have ceil: "length rows \<le> k * limit \<longleftrightarrow> ?n \<le> k" for k
  proof -
    have "?n \<le> k \<longleftrightarrow> ?n < Suc k" by (rule less_Suc_eq_le[symmetric])
    also have "\<dots> \<longleftrightarrow> length rows + limit - 1 < Suc k * limit" unfolding n using assms by (simp add: div_less_iff_less_mult)
    also have "\<dots> \<longleftrightarrow> length rows \<le> k * limit" using assms by auto
    finally show ?thesis by simp
  qed
  have "concat (map (\<lambda>p. take limit (drop (page_skip (Suc p) limit) rows)) [0..<?n]) = take (?n * limit) rows"
    by (simp add: page_skip_def pages_concat)
  also have "\<dots> = rows" using ceil[of ?n] by simp
  finally have all: "concat (map (\<lambda>p. take limit (drop (page_skip (Suc p) limit) rows)) [0..<?n]) = rows" .
  have "take limit (drop (page_skip p limit) rows) = [] \<longleftrightarrow> ?n < p" if "1 \<le> p" for p
    using ceil[of "p - 1"] assms that by (auto simp: page_skip_def)
  then show ?thesis using all by blast
qed

theorem pages_partition_result_witness:
  "concat (map (\<lambda>p. take 2 (drop (page_skip (Suc p) 2) ''abc'')) [0..<page_count (length ''abc'') 2]) = ''abc''"
  using pages_partition_result[of 2 "''abc''"] by simp

section \<open>Columns\<close>

abbreviation keys_of :: "('k \<times> 'v) list \<Rightarrow> 'k set" where
  "keys_of m \<equiv> fst ` set m"

lemma assign_keys: "keys_of (assign a b) = keys_of a \<union> keys_of b"
  unfolding assign_def by (induction b arbitrary: a) (simp_all add: keys_alist_set case_prod_unfold)

lemma assign_not_Nil: "a \<noteq> [] \<or> b \<noteq> [] \<Longrightarrow> assign a b \<noteq> []"
  using assign_keys[of a b] by auto

abbreviation internal_slot :: "string \<Rightarrow> bool" where
  "internal_slot k \<equiv> starts_with ''__m'' k"

lemma metricStages_slots:
  assumes "metricStages m (''__m'' @ show_nat i) defs = Some (Some (extra, res))"
  shows "extra \<noteq> [] \<and> (\<forall>k\<in>keys_of extra. internal_slot k)"
  using assms by (auto simp: metricStages_def Let_def starts_with_iff split: option.splits if_splits)

lemma metric_loop_keys:
  assumes "metric_loop defs i ms acc der = Some (a, d)" and "\<forall>m\<in>set ms. \<not> internal_slot (metricAlias m)"
  shows "{k \<in> keys_of a. \<not> internal_slot k} \<union> keys_of d =
      {k \<in> keys_of acc. \<not> internal_slot k} \<union> keys_of der \<union> metricAlias ` set ms \<and> (ms \<noteq> [] \<or> acc \<noteq> [] \<longrightarrow> a \<noteq> [])"
  using assms
proof (induction ms arbitrary: i acc der)
  case (Cons m ms)
  obtain st where st: "metricStages m (''__m'' @ show_nat i) defs = Some st"
    using Cons.prems(1) by (auto split: option.splits)
  have al: "\<not> internal_slot (metricAlias m)" using Cons.prems(2) by simp
  show ?case
  proof (cases st)
    case None
    let ?acc = "alist_set (metricAlias m) (metricAccumulator m) acc"
    have l: "metric_loop defs (Suc i) ms ?acc der = Some (a, d)" using Cons.prems(1) st None by simp
    have k: "keys_of ?acc = insert (metricAlias m) (keys_of acc)" by (rule keys_alist_set)
    then have "?acc \<noteq> []" by auto
    with Cons.IH[OF l] Cons.prems(2) k al show ?thesis by auto
  next
    case (Some eo)
    obtain extra res where eo: "eo = (extra, res)" by (cases eo)
    let ?acc = "assign acc extra" and ?der = "alist_set (metricAlias m) res der"
    have l: "metric_loop defs (Suc i) ms ?acc ?der = Some (a, d)" using Cons.prems(1) st Some eo by (simp add: assign_def)
    have e: "extra \<noteq> []" "\<forall>k\<in>keys_of extra. internal_slot k" using metricStages_slots st Some eo by blast+
    have k: "{k \<in> keys_of ?acc. \<not> internal_slot k} = {k \<in> keys_of acc. \<not> internal_slot k}"
      unfolding assign_keys using e(2) by blast
    have "keys_of ?der = insert (metricAlias m) (keys_of der)" by (rule keys_alist_set)
    with Cons.IH[OF l] Cons.prems(2) k e(1) assign_not_Nil[of acc extra] show ?thesis by auto
  qed
qed auto

lemma excluded_keys: "k \<in> keys_of (excludedAccumulators ms) \<Longrightarrow> starts_with ''__excl'' k"
  by (auto simp: excludedAccumulators_def Let_def starts_with_iff split: if_splits)

lemma pick_columns:
  "(\<And>c. c \<in> C \<Longrightarrow> c \<noteq> i \<and> \<not> P c) \<Longrightarrow> (\<And>x. x \<in> X \<Longrightarrow> P x) \<Longrightarrow> {k \<in> {i} \<union> C \<union> X. k \<noteq> i \<and> \<not> P k} = C"
  by blast

lemma field_of_name: "group_ok g \<Longrightarrow> field_of g = field_name g"
  by (auto simp: group_ok_def field_of_def field_name_def name_text_def)

lemma not_reserved:
  "\<not> isReservedOutputName s \<Longrightarrow> s \<noteq> ''_id'' \<and> \<not> internal_slot s \<and> \<not> starts_with ''__excl'' s"
  by (auto simp: isReservedOutputName_def starts_with_iff)

text \<open> The columns of a grouped result. For a query in normal form the columns reported to the client are
  distinct and are exactly the output names of the projection, apart from the suppressed \<open>_id\<close> and the
  internal exclusion counters: group fields and metrics neither overwrite each other nor get lost.\<close>
theorem grouped_columns_exact:
  assumes "query_ok dp q"
    and "elems (get_prop ''groupBy'' q) = gs" and "elems (get_prop ''metrics'' q) = ms" and "gs \<noteq> [] \<or> ms \<noteq> []"
    and "buildGroupStages gs ms tz defs = Some (pre, [Group i acc, Project spec])"
  shows "distinct (computeColumns gs ms)
    \<and> set (computeColumns gs ms) = {k \<in> fst ` set spec. k \<noteq> ''_id'' \<and> \<not> starts_with ''__excl'' k}"
proof -
  obtain ps where q: "q = JObj ps" "\<forall>(k, v)\<in>set ps. k \<in> set QUERY_KEYS \<and> part_ok dp k v" "combined_ok q"
    using assms(1) by (auto simp: query_ok_def)
  have parts: "map_of ps k = Some v \<Longrightarrow> part_ok dp k v" for k v using q(2) map_of_SomeD by fastforce
  have g: "\<forall>g\<in>set gs. group_ok g" and m: "\<forall>m\<in>set ms. metric_ok m"
    using part_elems[OF q(2)] assms(2,3) q(1) by auto
  have dg: "distinct (map field_name gs)"
    using parts[of "''groupBy''"] assms(2) q(1) by (cases "map_of ps ''groupBy''") (auto simp: part_ok_def groups_ok_def)
  have dm: "distinct (map metricAlias ms)"
    using parts[of "''metrics''"] assms(3) q(1) by (cases "map_of ps ''metrics''") (auto simp: part_ok_def metrics_ok_def)
  have comb: "metricAlias ` set ms \<inter> field_name ` set gs = {}" "ms = [] \<longrightarrow> ''count'' \<notin> field_name ` set gs"
    using q(3) assms(2-4) by (auto simp: combined_ok_def Let_def)
  have fg: "map field_of gs = map field_name gs" using g field_of_name by simp
  then have fgs: "field_of ` set gs = field_name ` set gs" using g field_of_name by auto
  have rg: "\<not> isReservedOutputName f" if "f \<in> field_name ` set gs" for f
    using that g by (auto simp: group_ok_def field_name_def name_text_def)
  have rm: "\<not> isReservedOutputName a" if "a \<in> metricAlias ` set ms" for a
    using that m by (auto simp: metric_ok_def)
  obtain accs derived where loop: "metric_loop defs 0 ms [] [] = Some (accs, derived)"
    using assms(5) by (auto simp: buildGroupStages_def split: option.splits)
  have keys: "{k \<in> keys_of accs. \<not> internal_slot k} \<union> keys_of derived = metricAlias ` set ms" "ms \<noteq> [] \<longrightarrow> accs \<noteq> []"
    using metric_loop_keys[OF loop] rm not_reserved by auto
  have "ms = [] \<Longrightarrow> accs = [] \<and> derived = []" using loop by auto
  let ?accs = "if accs = [] then [(''count'', b_op ''$sum'' (B_num 1))] else accs"
  have out: "{k \<in> keys_of ?accs. \<not> internal_slot k} \<union> keys_of derived = (if ms = [] then {''count''} else metricAlias ` set ms)"
    using keys \<open>ms = [] \<Longrightarrow> accs = [] \<and> derived = []\<close> by (auto simp: starts_with_iff)
  have one: "keys_of (filter (\<lambda>(k, v). \<not> internal_slot k) xs) = {k \<in> keys_of xs. \<not> internal_slot k}"
    for xs :: "(string \<times> bson) list" by force
  have two: "keys_of (map (\<lambda>(k, v). (k, B_num 1)) xs) = keys_of xs" for xs :: "(string \<times> bson) list" by force
  have three: "keys_of (map (\<lambda>g. (field_of g, B_str (''$_id.'' @ field_of g))) gs) = field_name ` set gs"
    unfolding fgs[symmetric] by (simp add: image_image)
  have spec: "spec = assign (assign (assign (assign [(''_id'', B_num 0)] (map (\<lambda>g. (field_of g, B_str (''$_id.'' @ field_of g))) gs))
      (map (\<lambda>(k, v). (k, B_num 1)) (filter (\<lambda>(k, v). \<not> internal_slot k) ?accs))) derived)
      (map (\<lambda>(k, v). (k, B_num 1)) (excludedAccumulators ms))"
    using assms(5) loop by (simp add: buildGroupStages_def Let_def)
  let ?C = "field_name ` set gs \<union> (if ms = [] then {''count''} else metricAlias ` set ms)"
  have spec_keys: "keys_of spec = {''_id''} \<union> ?C \<union> keys_of (excludedAccumulators ms)"
    unfolding spec assign_keys one two three out[symmetric] by (simp only: list.set image_insert image_empty fst_conv Un_assoc)
  have "\<not> isReservedOutputName ''count''" by (simp add: isReservedOutputName_def starts_with_iff)
  then have "c \<noteq> ''_id'' \<and> \<not> starts_with ''__excl'' c" if "c \<in> ?C" for c
    using that rg rm not_reserved[of c] by (auto split: if_splits)
  then have "{k \<in> keys_of spec. k \<noteq> ''_id'' \<and> \<not> starts_with ''__excl'' k} = ?C"
    unfolding spec_keys by (rule pick_columns[OF _ excluded_keys])
  moreover have "set (computeColumns gs ms) = field_name ` set gs \<union> (if ms = [] then {''count''} else metricAlias ` set ms)"
    by (simp add: computeColumns_def fgs)
  moreover have "distinct (computeColumns gs ms)"
    unfolding computeColumns_def fg using dg dm comb by auto
  ultimately show ?thesis by simp
qed

theorem grouped_columns_exact_witness:
  "distinct (computeColumns [JObj [(''field'', JStr ''a'')]] [])"
proof -
  let ?q = "JObj [(''groupBy'', JArr [JObj [(''field'', JStr ''a'')]])]"
  have "collect (\<lambda>_. None) QUERY_KEYS [] [] ?q = ([], ?q)" by code_simp
  then have "query_ok (\<lambda>_. None) ?q" by (rule collect_ok)
  moreover have "buildGroupStages [JObj [(''field'', JStr ''a'')]] [] ''UTC'' [] =
      Some ([], [Group (B_doc [(''a'', B_str ''$data.a'')]) [(''count'', b_op ''$sum'' (B_num 1))],
                 Project [(''_id'', B_num 0), (''a'', B_str ''$_id.a''), (''count'', B_num 1)]])"
    by code_simp
  ultimately show ?thesis using grouped_columns_exact[of "\<lambda>_. None" ?q] by simp
qed

end
