(* ===== verification/Calendar.thy ===== *)
theory Calendar
  imports QueryContract
begin

text \<open>
  The proleptic Gregorian calendar behind \<open>Date.UTC\<close> and the \<open>getUTC\<close> methods: \<open>utc_days\<close> counts
  days and \<open>civil_of\<close> reads a count back, each the inverse of the other. Years below 100, which
  \<open>Date.UTC\<close> moves to the twentieth century, are outside the model.
\<close>

type_synonym date = "int \<times> int \<times> int"

definition year_start :: "int \<Rightarrow> int" where
  "year_start y = 365 * y + y div 4 - y div 100 + y div 400"

definition civil_of :: "int \<Rightarrow> date" where
  "civil_of z =
     (let w = z + 719468; g = 400 * w div 146097;
          y = (if year_start (g + 1) \<le> w then g + 1 else g);
          doy = w - year_start y; mp = (5 * doy + 2) div 153;
          m = (if mp < 10 then mp + 3 else mp - 9)
      in (if m \<le> 2 then y + 1 else y, m, doy - (153 * mp + 2) div 5 + 1))"

definition days_of :: "date \<Rightarrow> int" where
  "days_of x = (case x of (y, m, d) \<Rightarrow> utc_days y m d)"

lemma div_bounds: "0 < k \<Longrightarrow> k * (y div k) \<le> y \<and> y < k * (y div k) + k" for y k :: int
  using mult_div_mod_eq[of k y] pos_mod_bound[of k y] pos_mod_sign[of k y] by linarith

lemma year_start_bounds:
  "146097 * y - 699 \<le> 400 * year_start y \<and> 400 * year_start y \<le> 146097 * y + 396"
  using div_bounds[of 4 y] div_bounds[of 100 y] div_bounds[of 400 y] unfolding year_start_def by auto

lemma div_next:
  fixes y k :: int
  assumes "1 < k"
  shows "(y + 1) div k = y div k + (if (y + 1) mod k = 0 then 1 else 0)"
proof -
  let ?r = "(y + 1) mod k" and ?q = "(y + 1) div k"
  have e: "y + 1 = k * ?q + ?r" by simp
  have r: "0 \<le> ?r" "?r < k" using assms by simp_all
  show ?thesis
  proof (cases "?r = 0")
    case True
    then have "y = k * (?q - 1) + (k - 1)" using e by (simp add: algebra_simps)
    from int_div_pos_eq[OF this] have "y div k = ?q - 1" using assms by simp
    then show ?thesis using True by simp
  next
    case False
    then have "y = k * ?q + (?r - 1)" using e by linarith
    from int_div_pos_eq[OF this] have "y div k = ?q" using r False by simp
    then show ?thesis using False by simp
  qed
qed

lemma year_step_sum:
  fixes y a b c a' b' c' :: int
  assumes "a' = a + (if A then 1 else 0)" "b' = b + (if B then 1 else 0)" "c' = c + (if C then 1 else 0)" "C \<Longrightarrow> B" "B \<Longrightarrow> A"
  shows "(365 * (y + 1) + a' - b' + c') - (365 * y + a - b + c) = (if A \<and> (\<not> B \<or> C) then 366 else 365)"
proof -
  have "(365 * (y + 1) + a' - b' + c') - (365 * y + a - b + c) = 365 + (a' - a) - (b' - b) + (c' - c)" by (simp add: algebra_simps)
  then show ?thesis using assms by (cases A; cases B; cases C) simp_all
qed

lemma year_start_step: "year_start (y + 1) - year_start y = (if leap_year (y + 1) then 366 else 365)"
  unfolding year_start_def leap_year_def
proof (rule year_step_sum)
  show "(y + 1) mod 400 = 0 \<Longrightarrow> (y + 1) mod 100 = 0" "(y + 1) mod 100 = 0 \<Longrightarrow> (y + 1) mod 4 = 0"
    using dvd_trans[of 100 400 "y + 1"] dvd_trans[of 4 100 "y + 1"] by (simp_all only: dvd_eq_mod_eq_0) simp_all
qed (rule div_next, simp)+

lemma year_start_less: "a < b \<Longrightarrow> year_start a + 365 \<le> year_start b"
proof (induction rule: int_gr_induct)
  case base
  then show ?case using year_start_step[of a] by (simp split: if_splits)
next
  case (step i)
  then show ?case using year_start_step[of i] by (simp split: if_splits)
qed

lemma year_start_mono: "a \<le> b \<Longrightarrow> year_start a \<le> year_start b"
  using year_start_less[of a b] by (cases "a = b") auto

text \<open>The year of a day count.\<close>

definition civil_year :: "int \<Rightarrow> int" where
  "civil_year w = (let g = 400 * w div 146097 in if year_start (g + 1) \<le> w then g + 1 else g)"

lemma civil_year_bracket: "year_start (civil_year w) \<le> w \<and> w < year_start (civil_year w + 1)"
proof -
  define g where "g = 400 * w div 146097"
  have g: "146097 * g \<le> 400 * w" "400 * w < 146097 * g + 146097" using div_bounds[of 146097 "400 * w"] unfolding g_def by auto
  have "year_start g \<le> w" using year_start_bounds[of g, THEN conjunct2] g by linarith
  moreover have "w < year_start (g + 2)"
    using year_start_bounds[of "g + 2", THEN conjunct1] g unfolding distrib_left by linarith
  ultimately show ?thesis unfolding civil_year_def g_def[symmetric] Let_def by (simp add: add.assoc)
qed

lemma civil_year_unique: "year_start y \<le> w \<Longrightarrow> w < year_start (y + 1) \<Longrightarrow> civil_year w = y"
  using civil_year_bracket[of w] year_start_mono[of "y + 1" "civil_year w"] year_start_mono[of "civil_year w + 1" y]
  by linarith

definition month_of :: "int \<Rightarrow> int \<times> int" where
  "month_of doy = (let mp = (5 * doy + 2) div 153 in (if mp < 10 then mp + 3 else mp - 9, doy - (153 * mp + 2) div 5 + 1))"

lemma civil_of_eq:
  "civil_of z = (let y = civil_year (z + 719468); (m, d) = month_of (z + 719468 - year_start y) in (if m \<le> 2 then y + 1 else y, m, d))"
  by (simp only: civil_of_def civil_year_def month_of_def Let_def prod.case)

lemma utc_days_eq:
  "utc_days y m d = year_start (if m \<le> 2 then y - 1 else y) + (153 * (if m \<le> 2 then m + 9 else m - 3) + 2) div 5 + d - 1 - 719468"
  by (simp add: utc_days_def year_start_def Let_def)

lemma month_of_range:
  assumes "0 \<le> doy" "doy \<le> 365" "month_of doy = (m, d)"
  shows "1 \<le> m \<and> m \<le> 12 \<and> 1 \<le> d \<and> (153 * (if m \<le> 2 then m + 9 else m - 3) + 2) div 5 + d - 1 = doy"
proof -
  let ?mp = "(5 * doy + 2) div 153"
  have b: "153 * ?mp \<le> 5 * doy + 2" "5 * doy + 2 < 153 * ?mp + 153" using div_bounds[of 153 "5 * doy + 2"] by auto
  have mp: "0 \<le> ?mp" "?mp \<le> 11" using b assms(1,2) by linarith+
  have "5 * ((153 * ?mp + 2) div 5) \<le> 153 * ?mp + 2" using div_bounds[of 5 "153 * ?mp + 2"] by auto
  then have "(153 * ?mp + 2) div 5 \<le> doy" using b by linarith
  moreover define p where "p = ?mp"
  ultimately show ?thesis using assms(3) mp unfolding month_of_def Let_def p_def[symmetric] by (cases "p < 10") (simp_all, auto simp: add.commute)
qed

lemma days_of_civil: "days_of (civil_of z) = z"
proof -
  let ?w = "z + 719468" and ?y = "civil_year (z + 719468)"
  obtain m d where md: "month_of (?w - year_start ?y) = (m, d)" by fastforce
  have "0 \<le> ?w - year_start ?y" "?w - year_start ?y \<le> 365"
    using civil_year_bracket[of ?w] year_start_step[of ?y] by (auto split: if_splits)
  from month_of_range[OF this md] show ?thesis
    using md by (auto simp: civil_of_eq Let_def days_of_def utc_days_eq split: if_splits)
qed

text \<open>Lengths of the months, counted from March.\<close>

lemma month_of_at:
  assumes "153 * k \<le> 5 * x + 2" "5 * x + 2 < 153 * k + 153"
  shows "month_of x = (if k < 10 then k + 3 else k - 9, x - (153 * k + 2) div 5 + 1)"
proof -
  have "(5 * x + 2) div 153 = k" using assms by (intro int_div_pos_eq[where r = "5 * x + 2 - 153 * k"]) auto
  then show ?thesis by (simp add: month_of_def)
qed

lemma month_of_valid:
  assumes "1 \<le> m" "m \<le> 12" "1 \<le> d" "d \<le> month_days y m"
  shows "month_of ((153 * (if m \<le> 2 then m + 9 else m - 3) + 2) div 5 + d - 1) = (m, d)"
proof -
  let ?k = "if m \<le> 2 then m + 9 else m - 3"
  let ?x = "(153 * ?k + 2) div 5 + d - 1"
  have m: "m \<in> {1, 2, 3, 4, 5, 6, 7, 8, 9, 10, 11, 12}" using assms(1,2) by simp presburger
  then have "153 * ?k \<le> 5 * ?x + 2" "5 * ?x + 2 < 153 * ?k + 153"
    using assms(3,4) by (auto simp: month_days_def split: if_splits)
  then show ?thesis using assms(1,2) by (subst month_of_at[of ?k]) (auto simp del: mult_le_cancel_left)
qed

lemma month_fits:
  assumes "1 \<le> m" "m \<le> 12" "1 \<le> d" "d \<le> month_days y m"
  shows "0 \<le> (153 * (if m \<le> 2 then m + 9 else m - 3) + 2) div 5 + d - 1
    \<and> (153 * (if m \<le> 2 then m + 9 else m - 3) + 2) div 5 + d - 1
        < year_start ((if m \<le> 2 then y - 1 else y) + 1) - year_start (if m \<le> 2 then y - 1 else y)"
proof -
  have m: "m \<in> {1, 2, 3, 4, 5, 6, 7, 8, 9, 10, 11, 12}" using assms(1,2) by simp presburger
  show ?thesis
    unfolding year_start_step using m assms(3,4) by (auto simp: month_days_def split: if_splits)
qed

lemma civil_of_days:
  assumes "1 \<le> m" "m \<le> 12" "1 \<le> d" "d \<le> month_days y m"
  shows "civil_of (utc_days y m d) = (y, m, d)"
proof -
  let ?y = "if m \<le> 2 then y - 1 else y" and ?doy = "(153 * (if m \<le> 2 then m + 9 else m - 3) + 2) div 5 + d - 1"
  have w: "utc_days y m d + 719468 = year_start ?y + ?doy" by (simp add: utc_days_eq)
  have y: "civil_year (year_start ?y + ?doy) = ?y"
    using month_fits[OF assms] by (intro civil_year_unique) linarith+
  have x: "year_start ?y + ?doy - year_start ?y = ?doy" by simp
  show ?thesis
    unfolding civil_of_eq w y Let_def x month_of_valid[OF assms] by simp
qed

lemma civil_range:
  assumes "civil_of z = (y, m, d)"
  shows "1 \<le> m \<and> m \<le> 12 \<and> 1 \<le> d"
proof -
  let ?w = "z + 719468" and ?y = "civil_year (z + 719468)"
  obtain m' d' where md: "month_of (?w - year_start ?y) = (m', d')" by fastforce
  have "0 \<le> ?w - year_start ?y" "?w - year_start ?y \<le> 365"
    using civil_year_bracket[of ?w] year_start_step[of ?y] by (auto split: if_splits)
  from month_of_range[OF this md] show ?thesis
    using md assms by (auto simp: civil_of_eq Let_def)
qed

lemma month_length:
  assumes "k \<in> {0, 1, 2, 3, 4, 5, 6, 7, 8, 9, 10, 11}"
    and "x < (if leap_year (yy + 1) then 366 else 365)" "5 * x + 2 < 153 * k + 153"
  shows "x - (153 * k + 2) div 5 + 1 \<le> month_days (if (if k < 10 then k + 3 else k - 9) \<le> 2 then yy + 1 else yy)
    (if k < 10 then k + 3 else k - 9)"
  using assms by (elim insertE emptyE) (simp_all add: month_days_def split: if_splits)

lemma civil_day_bound:
  assumes "civil_of z = (y, m, d)"
  shows "d \<le> month_days y m"
proof -
  let ?w = "z + 719468" and ?y = "civil_year (z + 719468)"
  let ?doy = "?w - year_start ?y" and ?mp = "(5 * (?w - year_start ?y) + 2) div 153"
  have doy: "0 \<le> ?doy" "?doy < (if leap_year (?y + 1) then 366 else 365)"
    using civil_year_bracket[of ?w] year_start_step[of ?y] by auto
  define k where "k = ?mp"
  have b: "153 * k \<le> 5 * ?doy + 2" "5 * ?doy + 2 < 153 * k + 153" unfolding k_def using div_bounds[of 153 "5 * ?doy + 2"] by auto
  have k: "0 \<le> k" "k \<le> 11" using b doy by (auto split: if_splits)
  then have ks: "k \<in> {0, 1, 2, 3, 4, 5, 6, 7, 8, 9, 10, 11}" by simp presburger
  have m: "m = (if k < 10 then k + 3 else k - 9)" "d = ?doy - (153 * k + 2) div 5 + 1" "y = (if m \<le> 2 then ?y + 1 else ?y)"
  proof -
    have "month_of ?doy = (if k < 10 then k + 3 else k - 9, ?doy - (153 * k + 2) div 5 + 1)"
      unfolding month_of_def Let_def k_def by (rule refl)
    then have "civil_of z = (if (if k < 10 then k + 3 else k - 9) \<le> 2 then ?y + 1 else ?y, if k < 10 then k + 3 else k - 9,
        ?doy - (153 * k + 2) div 5 + 1)"
      unfolding civil_of_eq Let_def by (simp only: prod.case)
    then have e: "(y, m, d) = (if (if k < 10 then k + 3 else k - 9) \<le> 2 then ?y + 1 else ?y, if k < 10 then k + 3 else k - 9,
        ?doy - (153 * k + 2) div 5 + 1)"
      unfolding assms .
    show me: "m = (if k < 10 then k + 3 else k - 9)" using e unfolding prod.inject by (elim conjE)
    show "d = ?doy - (153 * k + 2) div 5 + 1" using e unfolding prod.inject by (elim conjE)
    show "y = (if m \<le> 2 then ?y + 1 else ?y)" unfolding me using e unfolding prod.inject by (elim conjE)
  qed
  define x where "x = ?doy"
  define yy where "yy = ?y"
  have "x < (if leap_year (yy + 1) then 366 else 365)" "5 * x + 2 < 153 * k + 153" using doy b by (simp_all add: x_def yy_def)
  from month_length[OF ks this] show ?thesis unfolding m x_def yy_def .
qed

section \<open>Months\<close>

text \<open>Months counted since year 0, and their first days.\<close>

definition month_index :: "int \<Rightarrow> int" where
  "month_index z = (case civil_of z of (y, m, d) \<Rightarrow> 12 * y + (m - 1))"

definition month_first :: "int \<Rightarrow> int" where
  "month_first k = utc_days (k div 12) (k mod 12 + 1) 1"

lemma month_first_civil: "civil_of (month_first k) = (k div 12, k mod 12 + 1, 1)"
  unfolding month_first_def
proof (rule civil_of_days)
  show "(1::int) \<le> month_days (k div 12) (k mod 12 + 1)" by (simp add: month_days_def)
qed simp_all

lemma utc_days_in_month: "utc_days y m d = utc_days y m 1 + d - 1"
  by (simp add: utc_days_eq)

lemma month_days_bounds: "28 \<le> month_days y m \<and> month_days y m \<le> 31"
  by (simp add: month_days_def)

lemma month_next:
  assumes "r \<in> {0, 1, 2, 3, 4, 5, 6, 7, 8, 9, 10}"
  shows "utc_days y (r + 1 + 1) 1 = utc_days y (r + 1) 1 + month_days y (r + 1)"
  using assms year_start_step[of "y - 1"] unfolding utc_days_eq
  by (elim insertE emptyE) (simp_all add: month_days_def split: if_splits)

lemma month_first_step: "month_first (k + 1) = month_first k + month_days (k div 12) (k mod 12 + 1)"
proof (cases "k mod 12 = 11")
  case True
  then have "k + 1 = 12 * (k div 12 + 1) + 0" using mult_div_mod_eq[of 12 k] by (simp add: distrib_left)
  then have n: "(k + 1) mod 12 = 0" "(k + 1) div 12 = k div 12 + 1"
    using int_mod_pos_eq[of "k + 1" 12 "k div 12 + 1" 0] int_div_pos_eq[of "k + 1" 12 "k div 12 + 1" 0] by linarith+
  show ?thesis unfolding month_first_def n True utc_days_eq by (simp add: month_days_def)
next
  case False
  moreover have "k + 1 = 12 * (k div 12) + (k mod 12 + 1)" by simp
  ultimately have n: "(k + 1) mod 12 = k mod 12 + 1" "(k + 1) div 12 = k div 12"
    using int_mod_pos_eq[of "k + 1" 12 "k div 12" "k mod 12 + 1"] int_div_pos_eq[of "k + 1" 12 "k div 12" "k mod 12 + 1"]
      pos_mod_bound[of 12 k] pos_mod_sign[of 12 k] by linarith+
  have "k mod 12 \<in> {0, 1, 2, 3, 4, 5, 6, 7, 8, 9, 10}"
    using False pos_mod_bound[of 12 k] pos_mod_sign[of 12 k] by simp presburger
  from month_next[OF this] show ?thesis unfolding month_first_def n by simp
qed

lemma month_first_up: "a < b \<Longrightarrow> month_first (a + 1) \<le> month_first b"
proof (induction rule: int_gr_induct)
  case (step i)
  have "month_first i < month_first (i + 1)" using month_first_step[of i] month_days_bounds[of "i div 12" "i mod 12 + 1"] by linarith
  then show ?case using step by linarith
qed simp

lemma month_first_mono: "a \<le> b \<Longrightarrow> month_first a \<le> month_first b"
  using month_first_up[of a b] month_first_step[of a] month_days_bounds[of "a div 12" "a mod 12 + 1"]
  by (cases "a = b") simp_all

lemma month_first_le: "month_first k \<le> z \<longleftrightarrow> k \<le> month_index z"
proof -
  obtain y m d where c: "civil_of z = (y, m, d)" by (metis prod_cases3)
  have r: "1 \<le> m" "m \<le> 12" "1 \<le> d" "d \<le> month_days y m" using civil_range[OF c] civil_day_bound[OF c] by auto
  let ?j = "month_index z"
  have j: "?j = 12 * y + (m - 1)" by (simp add: month_index_def c)
  have jd: "?j div 12 = y" "?j mod 12 = m - 1" unfolding j using r by (simp_all add: div_pos_pos_trivial)
  have z: "z = utc_days y m 1 + d - 1" using days_of_civil[of z] by (simp add: c days_of_def utc_days_in_month[of y m d])
  have f: "month_first ?j = utc_days y m 1" by (simp add: month_first_def jd)
  have "month_first ?j \<le> z" using r z f by linarith
  moreover have "month_days (?j div 12) (?j mod 12 + 1) = month_days y m" unfolding jd by simp
  then have "z < month_first (?j + 1)" using month_first_step[of ?j] r(4) z f by linarith
  ultimately show ?thesis using month_first_mono[of k ?j] month_first_mono[of "?j + 1" k] by linarith
qed

end
