(* ===== verification/BusinessTime.thy ===== *)
theory BusinessTime
  imports Calendar
begin

text \<open>
  Business time: \<open>src/utils/timezone.js\<close> and the date windows of \<open>src/services/analytics.engine.js\<close>
  (\<open>resolveDateRange\<close>, \<open>boundaryInstant\<close>, \<open>comparisonWindow\<close>). Instants are milliseconds since 1970.
  \<open>Intl.DateTimeFormat\<close> is an argument: \<open>off zone t\<close> is the offset of the zone's wall clock at \<open>t\<close>,
  and the formatter's fields are those of the shifted instant, which is its documented behaviour.
\<close>

section \<open>Zones\<close>

definition ms_day :: int where
  "ms_day = 86400000"

record wall =
  w_year :: int
  w_month :: int
  w_day :: int
  w_hour :: int
  w_minute :: int
  w_second :: int
  w_weekday :: int

type_synonym offsets = "string \<Rightarrow> int \<Rightarrow> int"

definition utc_ms :: "int \<Rightarrow> int \<Rightarrow> int \<Rightarrow> int \<Rightarrow> int \<Rightarrow> int \<Rightarrow> int \<Rightarrow> int" where
  "utc_ms y mo d h mi s ms = utc_days y mo d * ms_day + ((h * 60 + mi) * 60 + s) * 1000 + ms"

definition wall_of :: "int \<Rightarrow> wall" where
  "wall_of l =
     (let r = l mod ms_day in
      case civil_of (l div ms_day) of
        (y, m, d) \<Rightarrow> \<lparr>w_year = y, w_month = m, w_day = d, w_hour = r div 3600000, w_minute = r div 60000 mod 60,
                     w_second = r div 1000 mod 60, w_weekday = (l div ms_day + 4) mod 7\<rparr>)"

definition zonedParts :: "offsets \<Rightarrow> string \<Rightarrow> int \<Rightarrow> wall" where
  "zonedParts off tz t = wall_of (t + off tz t)"

definition offsetAt :: "offsets \<Rightarrow> string \<Rightarrow> int \<Rightarrow> int" where
  "offsetAt off tz t =
     (let p = zonedParts off tz t
      in utc_ms (w_year p) (w_month p) (w_day p) (w_hour p) (w_minute p) (w_second p) 0 - t div 1000 * 1000)"

definition zonedTimeToUtc ::
  "offsets \<Rightarrow> string \<Rightarrow> int \<Rightarrow> int \<Rightarrow> int \<Rightarrow> int \<Rightarrow> int \<Rightarrow> int \<Rightarrow> int \<Rightarrow> int" where
  "zonedTimeToUtc off tz y m d h mi s ms =
     (let guess = utc_ms y m d h mi s ms; first = offsetAt off tz guess; candidate = guess - first;
          second = offsetAt off tz candidate in
      if second = first then candidate
      else
        (let candidates = [guess - first, guess - second];
             shows = (\<lambda>t. let p = zonedParts off tz t in
                        w_year p = y \<and> w_month p = m \<and> w_day p = d \<and> w_hour p = h \<and> w_minute p = mi);
             valid = filter shows candidates
         in if valid \<noteq> [] then Min (set valid) else Max (set candidates)))"

definition addCalendarDays :: "date \<Rightarrow> int \<Rightarrow> date" where
  "addCalendarDays x n = civil_of (days_of x + n)"

definition addCalendarMonths :: "int \<times> int \<Rightarrow> int \<Rightarrow> date" where
  "addCalendarMonths x n = (case x of (y, m) \<Rightarrow> (y + (m - 1 + n) div 12, (m - 1 + n) mod 12 + 1, 1))"

definition calendarWeekday :: "date \<Rightarrow> int" where
  "calendarWeekday x = (days_of x + 4) mod 7"

definition startOfZonedDay :: "offsets \<Rightarrow> string \<Rightarrow> date \<Rightarrow> int" where
  "startOfZonedDay off tz x = (case x of (y, m, d) \<Rightarrow> zonedTimeToUtc off tz y m d 0 0 0 0)"

text \<open>Zone names: \<open>known\<close> answers whether \<open>Intl\<close> accepts a name, \<open>zones\<close> lists its names, \<open>resolved\<close> its spelling.\<close>

definition isValidTimeZone :: "(string \<Rightarrow> bool) \<Rightarrow> string \<Rightarrow> bool" where
  "isValidTimeZone known v \<longleftrightarrow> trim v \<noteq> [] \<and> length v \<le> 64 \<and> known (trim v)"

definition CASED_ZONE_RE :: "string \<Rightarrow> bool" where
  "CASED_ZONE_RE s \<longleftrightarrow> list_all (\<lambda>p. p \<noteq> [] \<and> is_upper (hd p)
     \<and> list_all (\<lambda>c. is_alnum c \<or> c = CHR ''_'' \<or> c = CHR ''+'' \<or> c = CHR ''-'') (tl p)) (split_on (CHR ''/'') s)"

definition normalizeTimeZone :: "(string \<Rightarrow> bool) \<Rightarrow> string list \<Rightarrow> (string \<Rightarrow> string) \<Rightarrow> string \<Rightarrow> string \<Rightarrow> string" where
  "normalizeTimeZone known zones resolved v fallback =
     (if \<not> isValidTimeZone known v then fallback
      else if CASED_ZONE_RE (trim v) then trim v
      else (case find (\<lambda>z. to_lower z = to_lower (trim v)) zones of Some z \<Rightarrow> z | None \<Rightarrow> resolved (trim v)))"

section \<open>Windows\<close>

record window =
  wn_field :: string
  wn_preset :: "string option"
  wn_from :: "int option"
  wn_to :: "int option"

definition boundaryInstant :: "offsets \<Rightarrow> string \<Rightarrow> boundary \<Rightarrow> bool \<Rightarrow> int" where
  "boundaryInstant off tz b is_end =
     (case b of
        Instant t \<Rightarrow> t
      | Date_only y m d \<Rightarrow>
          (if \<not> is_end then startOfZonedDay off tz (y, m, d) else startOfZonedDay off tz (addCalendarDays (y, m, d) 1) - 1)
      | Wall_time y m d h mi s ms \<Rightarrow> zonedTimeToUtc off tz y m d h mi s ms)"

definition preset_window :: "offsets \<Rightarrow> string \<Rightarrow> date \<Rightarrow> string \<Rightarrow> (int \<times> int) option" where
  "preset_window off tz today preset =
     (let (y, m, d) = today; window = (\<lambda>a b. Some (startOfZonedDay off tz a, startOfZonedDay off tz b - 1));
          monthStart = (y, m, 1); quarterMonth = m - (m - 1) mod 3; quarterStart = (y, quarterMonth, 1); yearStart = (y, 1, 1) in
      if preset = ''today'' then window today (addCalendarDays today 1)
      else if preset = ''yesterday'' then window (addCalendarDays today (-1)) today
      else if preset = ''last_7_days'' then window (addCalendarDays today (-6)) (addCalendarDays today 1)
      else if preset = ''last_30_days'' then window (addCalendarDays today (-29)) (addCalendarDays today 1)
      else if preset = ''this_month'' then window monthStart (addCalendarMonths (y, m) 1)
      else if preset = ''last_month'' \<or> preset = ''previous_month'' then window (addCalendarMonths (y, m) (-1)) monthStart
      else if preset = ''this_quarter'' then window quarterStart (addCalendarMonths (y, quarterMonth) 3)
      else if preset = ''last_quarter'' then window (addCalendarMonths (y, quarterMonth) (-3)) quarterStart
      else if preset = ''this_year'' then window yearStart (y + 1, 1, 1)
      else if preset = ''last_year'' then window (y - 1, 1, 1) yearStart
      else None)"

definition resolveDateRange :: "(string \<Rightarrow> int option) \<Rightarrow> offsets \<Rightarrow> string \<Rightarrow> int \<Rightarrow> json \<Rightarrow> window" where
  "resolveDateRange date_parse off tz now dateRange =
     (let field = (case str_of (get_prop ''field'' dateRange) of Some s \<Rightarrow> s | None \<Rightarrow> ''undefined'');
          preset = str_of (get_prop ''preset'' dateRange); p = zonedParts off tz now;
          today = (w_year p, w_month p, w_day p);
          bound = (\<lambda>k is_end. if present (get_prop k dateRange)
                     then map_option (\<lambda>b. boundaryInstant off tz b is_end) (parseBoundaryParts date_parse (get_prop k dateRange)) else None) in
      case (case preset of None \<Rightarrow> None | Some s \<Rightarrow> preset_window off tz today s) of
        Some (a, b) \<Rightarrow> \<lparr>wn_field = field, wn_preset = preset, wn_from = Some a, wn_to = Some b\<rparr>
      | None \<Rightarrow> \<lparr>wn_field = field, wn_preset = preset, wn_from = bound ''from'' False, wn_to = bound ''to'' True\<rparr>)"

definition daysInMonth :: "int \<Rightarrow> int \<Rightarrow> int" where
  "daysInMonth y m = month_days y m"

definition shiftMonths :: "offsets \<Rightarrow> string \<Rightarrow> int \<Rightarrow> int \<Rightarrow> int" where
  "shiftMonths off tz t months =
     (let p = zonedParts off tz t in
      case addCalendarMonths (w_year p, w_month p) months of
        (y, m, d) \<Rightarrow> zonedTimeToUtc off tz y m (min (w_day p) (daysInMonth y m)) (w_hour p) (w_minute p) (w_second p) (t mod 1000))"

definition wholeMonths :: "offsets \<Rightarrow> string \<Rightarrow> int \<Rightarrow> int \<Rightarrow> int option" where
  "wholeMonths off tz a b =
     (let p = zonedParts off tz a; q = zonedParts off tz b;
          aligned = (\<lambda>w. w_day w = 1 \<and> w_hour w = 0 \<and> w_minute w = 0 \<and> w_second w = 0);
          n = (w_year q - w_year p) * 12 + (w_month q - w_month p) in
      if \<not> aligned p \<or> \<not> aligned q \<or> a mod 1000 \<noteq> 0 \<or> b mod 1000 \<noteq> 0 then None
      else if 0 < n then Some n else None)"

definition comparisonWindow :: "offsets \<Rightarrow> string \<Rightarrow> string \<Rightarrow> int \<Rightarrow> int \<Rightarrow> int \<times> int" where
  "comparisonWindow off tz kind a b =
     (let e = b + 1 in
      if kind = ''previous_year'' then (shiftMonths off tz a (-12), shiftMonths off tz e (-12) - 1)
      else case wholeMonths off tz a e of
        Some n \<Rightarrow> (shiftMonths off tz a (- n), a - 1)
      | None \<Rightarrow> (a - (e - a), a - 1))"

section \<open>Wall clocks\<close>

lemma minute_of_day:
  "l div ms_day = l div 60000 div 1440" "l mod ms_day div 60000 = l div 60000 mod 1440"
  "l mod ms_day div 3600000 = l div 60000 mod 1440 div 60"
proof -
  show "l div ms_day = l div 60000 div 1440" by (simp add: ms_day_def zdiv_zmult2_eq[of 1440 l 60000, simplified])
  have "l mod ms_day = 60000 * (l div 60000 mod 1440) + l mod 60000"
    using zmod_zmult2_eq[of 1440 l 60000] by (simp add: ms_day_def)
  then show m: "l mod ms_day div 60000 = l div 60000 mod 1440" by simp
  have "l mod ms_day div 3600000 = l mod ms_day div 60000 div 60" by (simp add: zdiv_zmult2_eq[of 60 _ 60000, simplified])
  then show "l mod ms_day div 3600000 = l div 60000 mod 1440 div 60" by (simp add: m)
qed

lemma wall_minute:
  "w_hour (wall_of l) = l div 60000 mod 1440 div 60" "w_minute (wall_of l) = l div 60000 mod 60"
  "days_of (w_year (wall_of l), w_month (wall_of l), w_day (wall_of l)) = l div 60000 div 1440"
proof -
  obtain y m d where c: "civil_of (l div ms_day) = (y, m, d)" by (metis prod_cases3)
  note w = wall_of_def[of l, unfolded Let_def c prod.case]
  show "w_hour (wall_of l) = l div 60000 mod 1440 div 60" by (simp only: w wall.simps minute_of_day)
  show "w_minute (wall_of l) = l div 60000 mod 60"
    by (simp add: w minute_of_day(2) mod_mod_cancel)
  show "days_of (w_year (wall_of l), w_month (wall_of l), w_day (wall_of l)) = l div 60000 div 1440"
    using days_of_civil[of "l div ms_day"] by (simp only: w wall.simps minute_of_day(1)[symmetric] c)
qed

text \<open>The minute a date and a time of day name.\<close>

definition minute_at :: "int \<Rightarrow> int \<Rightarrow> int \<Rightarrow> int \<Rightarrow> int \<Rightarrow> int" where
  "minute_at y m d h mi = 1440 * utc_days y m d + 60 * h + mi"

definition time_ok :: "int \<Rightarrow> int \<Rightarrow> int \<Rightarrow> int \<Rightarrow> int \<Rightarrow> int \<Rightarrow> int \<Rightarrow> bool" where
  "time_ok y m d h mi s ms \<longleftrightarrow> validCalendar y m d \<and> 0 \<le> h \<and> h \<le> 23 \<and> 0 \<le> mi \<and> mi \<le> 59 \<and> 0 \<le> s \<and> s \<le> 59 \<and> 0 \<le> ms \<and> ms \<le> 999"

lemma shows_iff:
  assumes "time_ok y m d h mi s ms"
  shows "(w_year (wall_of l) = y \<and> w_month (wall_of l) = m \<and> w_day (wall_of l) = d \<and> w_hour (wall_of l) = h \<and> w_minute (wall_of l) = mi)
    \<longleftrightarrow> l div 60000 = minute_at y m d h mi"
proof
  let ?q = "l div 60000"
  assume "w_year (wall_of l) = y \<and> w_month (wall_of l) = m \<and> w_day (wall_of l) = d \<and> w_hour (wall_of l) = h \<and> w_minute (wall_of l) = mi"
  then have a: "?q div 1440 = utc_days y m d" "?q mod 1440 div 60 = h" "?q mod 60 = mi"
    using wall_minute[of l] by (simp_all add: days_of_def)
  have "?q mod 1440 mod 60 = mi" using a(3) by (simp add: mod_mod_cancel)
  then have "?q mod 1440 = 60 * h + mi" using a(2) mult_div_mod_eq[of 60 "?q mod 1440"] by simp
  then show "?q = minute_at y m d h mi" using a(1) mult_div_mod_eq[of 1440 ?q] by (simp add: minute_at_def)
next
  let ?q = "l div 60000"
  assume q: "?q = minute_at y m d h mi"
  have r: "0 \<le> 60 * h + mi" "60 * h + mi < 1440" "0 \<le> mi" "mi < 60" using assms by (auto simp: time_ok_def)
  have qq: "?q = 1440 * utc_days y m d + (60 * h + mi)" using q by (simp add: minute_at_def)
  have d: "?q div 1440 = utc_days y m d" "?q mod 1440 = 60 * h + mi"
    using int_div_pos_eq[OF qq r(1,2)] int_mod_pos_eq[OF qq r(1,2)] by auto
  have c: "civil_of (utc_days y m d) = (y, m, d)"
    using assms by (intro civil_of_days) (auto simp: time_ok_def validCalendar_def)
  have h: "?q mod 1440 div 60 = h" "?q mod 1440 mod 60 = mi" unfolding d(2) using r by simp_all
  then have "?q mod 60 = mi" by (simp add: mod_mod_cancel)
  moreover have "w_year (wall_of l) = y \<and> w_month (wall_of l) = m \<and> w_day (wall_of l) = d"
    unfolding wall_of_def Let_def minute_of_day(1) d(1) c by simp
  ultimately show "w_year (wall_of l) = y \<and> w_month (wall_of l) = m \<and> w_day (wall_of l) = d \<and> w_hour (wall_of l) = h \<and> w_minute (wall_of l) = mi"
    using wall_minute[of l] h(1) by simp
qed

lemma ms_sum:
  fixes q D h mi r :: int
  assumes "q = 1440 * D + 60 * h + mi" "x = 60 * q + r"
  shows "D * ms_day + ((h * 60 + mi) * 60 + r) * 1000 + 0 = x * 1000"
  unfolding assms(2) unfolding assms(1) ms_day_def by (simp add: algebra_simps)

lemma utc_ms_wall:
  "utc_ms (w_year (wall_of l)) (w_month (wall_of l)) (w_day (wall_of l)) (w_hour (wall_of l)) (w_minute (wall_of l)) (w_second (wall_of l)) 0
     = l div 1000 * 1000"
proof -
  let ?q = "l div 60000"
  have s: "w_second (wall_of l) = l div 1000 mod 60"
  proof -
    have "l mod ms_day div 1000 mod 60 = l div 1000 mod 60"
      using zmod_zmult2_eq[of 86400 l 1000] by (simp add: ms_day_def mod_mod_cancel)
    then show ?thesis by (simp add: wall_of_def Let_def split: prod.splits)
  qed
  let ?D = "?q div 1440" and ?h = "?q mod 1440 div 60" and ?mi = "?q mod 60" and ?s = "l div 1000 mod 60"
  have "?q mod 1440 mod 60 = ?mi" by (simp add: mod_mod_cancel)
  then have "?q mod 1440 = 60 * ?h + ?mi" using mult_div_mod_eq[of 60 "?q mod 1440"] by linarith
  then have q: "?q = 1440 * ?D + 60 * ?h + ?mi" using mult_div_mod_eq[of 1440 ?q] by linarith
  have sec: "l div 1000 = 60 * ?q + ?s" using zdiv_zmult2_eq[of 60 l 1000] mult_div_mod_eq[of 60 "l div 1000"] by simp
  have "utc_days (w_year (wall_of l)) (w_month (wall_of l)) (w_day (wall_of l)) = ?D"
    using wall_minute(3)[of l] by (simp add: days_of_def)
  then have "utc_ms (w_year (wall_of l)) (w_month (wall_of l)) (w_day (wall_of l)) (w_hour (wall_of l)) (w_minute (wall_of l)) (w_second (wall_of l)) 0
      = ?D * ms_day + ((?h * 60 + ?mi) * 60 + ?s) * 1000 + 0"
    unfolding utc_ms_def s wall_minute(1,2) by (simp only:)
  also have "\<dots> = l div 1000 * 1000" by (rule ms_sum[OF q sec])
  finally show ?thesis .
qed

lemma offsetAt_off:
  assumes "off tz t mod 1000 = 0"
  shows "offsetAt off tz t = off tz t"
proof -
  have "(t + off tz t) div 1000 * 1000 = t div 1000 * 1000 + off tz t"
  proof -
    obtain k where "off tz t = 1000 * k" using assms by (metis mod_0_imp_dvd dvdE)
    then show ?thesis by simp
  qed
  then show ?thesis by (simp add: offsetAt_def Let_def zonedParts_def utc_ms_wall)
qed

section \<open>Wall time to instants\<close>

lemma utc_ms_minute: "time_ok y m d h mi s ms \<Longrightarrow> utc_ms y m d h mi s ms div 60000 = minute_at y m d h mi"
proof -
  assume t: "time_ok y m d h mi s ms"
  have "utc_ms y m d h mi s ms = 60000 * minute_at y m d h mi + (1000 * s + ms)"
    by (simp add: utc_ms_def minute_at_def ms_day_def algebra_simps)
  moreover have "0 \<le> 1000 * s + ms" "1000 * s + ms < 60000" using t by (auto simp: time_ok_def)
  ultimately show ?thesis by (rule int_div_pos_eq)
qed

text \<open>
  Around a clock change a zone has two offsets, \<open>a\<close> and \<open>b\<close>; \<open>two_offsets\<close> says so for every instant
  within a day of a given one, with offsets of whole minutes and at most a day.\<close>

definition two_offsets :: "offsets \<Rightarrow> string \<Rightarrow> int \<Rightarrow> int \<Rightarrow> int \<Rightarrow> bool" where
  "two_offsets off tz t a b \<longleftrightarrow>
     a mod 60000 = 0 \<and> b mod 60000 = 0 \<and> \<bar>a\<bar> \<le> ms_day \<and> \<bar>b\<bar> \<le> ms_day
   \<and> (\<forall>x. \<bar>x - t\<bar> \<le> ms_day \<longrightarrow> off tz x = a \<or> off tz x = b) \<and> (\<forall>x. \<bar>off tz x\<bar> \<le> ms_day)"

lemma minute_mod: "x mod 60000 = 0 \<Longrightarrow> x mod 1000 = 0" for x :: int
  using mod_mod_cancel[of 1000 60000 x] by simp

lemma same_minute:
  fixes x y u v :: int
  assumes "x = y + u - v" "u mod 60000 = 0" "v mod 60000 = 0" "x div 60000 = y div 60000"
  shows "x = y"
proof -
  have "x mod 60000 = y mod 60000"
    using assms(2,3) unfolding assms(1) by (metis add.right_neutral diff_zero mod_add_right_eq mod_diff_right_eq)
  then show ?thesis using assms(4) by (metis mult_div_mod_eq)
qed

text \<open> Wall time to instant. In a zone with at most two offsets around the requested time, if the zone's
  clock ever shows that time then the computed instant is one at which it does, to the millisecond; if
  the clock jumps over it, the result is the time shifted forward by the gap (the smaller offset).\<close>
theorem wall_time_resolves:
  assumes ok: "time_ok y m d h mi s ms" and two: "two_offsets off tz (utc_ms y m d h mi s ms) a b"
  shows "if \<exists>t. t + off tz t = utc_ms y m d h mi s ms
    then zonedTimeToUtc off tz y m d h mi s ms + off tz (zonedTimeToUtc off tz y m d h mi s ms) = utc_ms y m d h mi s ms
    else zonedTimeToUtc off tz y m d h mi s ms = utc_ms y m d h mi s ms - min a b"
proof -
  define G where "G = utc_ms y m d h mi s ms"
  define r where "r = zonedTimeToUtc off tz y m d h mi s ms"
  have ab: "a mod 60000 = 0" "b mod 60000 = 0" "\<bar>a\<bar> \<le> ms_day" "\<bar>b\<bar> \<le> ms_day"
    and near: "\<And>x. \<bar>x - G\<bar> \<le> ms_day \<Longrightarrow> off tz x = a \<or> off tz x = b" and small: "\<And>x. \<bar>off tz x\<bar> \<le> ms_day"
    using two by (auto simp: two_offsets_def G_def)
  have whole: "off tz x mod 60000 = 0" if "\<bar>x - G\<bar> \<le> ms_day" for x using near[OF that] ab by auto
  have at: "offsetAt off tz x = off tz x" if "\<bar>x - G\<bar> \<le> ms_day" for x
    by (intro offsetAt_off minute_mod whole that)
  define u where "u = off tz G"
  define v where "v = off tz (G - u)"
  have G0: "\<bar>G - G\<bar> \<le> ms_day" by (simp add: ms_day_def)
  have u: "u = a \<or> u = b" "u mod 60000 = 0" using near[OF G0] whole[OF G0] by (auto simp: u_def)
  have cu: "\<bar>G - u - G\<bar> \<le> ms_day" using u(1) ab by auto
  have v: "v = a \<or> v = b" "v mod 60000 = 0" using near[OF cu] whole[OF cu] by (auto simp: v_def)
  have cv: "\<bar>G - v - G\<bar> \<le> ms_day" using v(1) ab by auto
  have o: "offsetAt off tz G = u" "offsetAt off tz (G - u) = v" using at[OF G0] at[OF cu] by (simp_all add: u_def v_def)
  define visible where "visible = (\<lambda>t. let p = zonedParts off tz t in
      w_year p = y \<and> w_month p = m \<and> w_day p = d \<and> w_hour p = h \<and> w_minute p = mi)"
  have r: "r = (if v = u then G - u else let valid = filter visible [G - u, G - v] in
      if valid \<noteq> [] then Min (set valid) else Max (set [G - u, G - v]))"
    unfolding r_def zonedTimeToUtc_def Let_def G_def[symmetric] o visible_def by simp
  have exact: "visible t \<longleftrightarrow> t + off tz t = G" if "t = G - w" "w mod 60000 = 0" "\<bar>t - G\<bar> \<le> ms_day" for t w
  proof -
    have "visible t \<longleftrightarrow> (t + off tz t) div 60000 = G div 60000"
      using shows_iff[OF ok, of "t + off tz t"] utc_ms_minute[OF ok] by (simp add: visible_def Let_def zonedParts_def G_def)
    also have "\<dots> \<longleftrightarrow> t + off tz t = G"
      using same_minute[of "t + off tz t" G "off tz t" w] that whole[OF that(3)] by auto
    finally show ?thesis .
  qed
  have eu: "visible (G - u) \<longleftrightarrow> G - u + off tz (G - u) = G" and ev: "visible (G - v) \<longleftrightarrow> G - v + off tz (G - v) = G"
    using exact[OF _ u(2) cu] exact[OF _ v(2) cv] by auto
  show ?thesis unfolding G_def[symmetric] r_def[symmetric]
  proof (cases "v = u")
    case True
    then have "r + off tz r = G" using r by (simp add: v_def)
    then show "if \<exists>t. t + off tz t = G then r + off tz r = G else r = G - min a b" by auto
  next
    case False
    then have uv: "{u, v} = {a, b}" using u(1) v(1) by auto
    show "if \<exists>t. t + off tz t = G then r + off tz r = G else r = G - min a b"
    proof (cases "\<exists>t. t + off tz t = G")
      case True
      then obtain t where t: "t + off tz t = G" by blast
      have "\<bar>t - G\<bar> \<le> ms_day" using small[of t] t by auto
      then have "off tz t \<in> {u, v}" using near uv by auto
      then have "t = G - u \<or> t = G - v" using t by auto
      then have "filter visible [G - u, G - v] \<noteq> []" using eu ev t by auto
      then have "r \<in> set (filter visible [G - u, G - v])" using r False Min_in[of "set (filter visible [G - u, G - v])"] by (simp add: Let_def)
      then show ?thesis using eu ev True by (auto split: if_splits)
    next
      case none: False
      then have "filter visible [G - u, G - v] = []" using eu ev by auto
      then have "r = max (G - u) (G - v)" using r False by (simp add: Let_def)
      then have "r = G - min a b" using uv by (auto simp: doubleton_eq_iff)
      then show ?thesis using none by simp
    qed
  qed
qed

text \<open>A zone east of Greenwich whose clock goes back from +2 h to +1 h at instant 0, and one west of it.\<close>

definition east :: offsets where
  "east tz t = (if t < 0 then 7200000 else 3600000)"

definition west :: offsets where
  "west tz t = (if t < 0 then -14400000 else -18000000)"

theorem wall_time_resolves_witness:
  "zonedTimeToUtc west [] 1969 12 31 19 30 0 0 + west [] (zonedTimeToUtc west [] 1969 12 31 19 30 0 0) = utc_ms 1969 12 31 19 30 0 0"
proof -
  have g: "utc_ms 1969 12 31 19 30 0 0 = -16200000"
    by (simp add: utc_ms_def utc_days_def ms_day_def Let_def)
  have "two_offsets west [] (utc_ms 1969 12 31 19 30 0 0) (-14400000) (-18000000)"
    by (auto simp: two_offsets_def west_def ms_day_def)
  moreover have "time_ok 1969 12 31 19 30 0 0" by (simp add: time_ok_def validCalendar_def month_days_def)
  moreover have "-1800000 + west [] (-1800000) = utc_ms 1969 12 31 19 30 0 0" by (simp add: g west_def)
  ultimately show ?thesis using wall_time_resolves[of 1969 12 31 19 30 0 0 west "[]"] by meson
qed

text \<open>
  The comment on \<open>zonedTimeToUtc\<close> promises the first occurrence of a repeated wall time. West of
  Greenwich that is what happens; east of it the first offset read is already the later one, the two
  reads agree, and the second occurrence is returned.\<close>
lemma repeated_time_second_occurrence:
  "utc_ms 1970 1 1 1 30 0 0 = -1800000 + east [] (-1800000)"
  "zonedTimeToUtc east [] 1970 1 1 1 30 0 0 = 1800000"
  "zonedTimeToUtc west [] 1969 12 31 19 30 0 0 = -1800000"
proof -
  have g: "utc_ms 1970 1 1 1 30 0 0 = 5400000" "utc_ms 1969 12 31 19 30 0 0 = -16200000"
    by (simp_all add: utc_ms_def utc_days_def ms_day_def Let_def)
  have o: "offsetAt east [] x = east [] x" "offsetAt west [] x = west [] x" for x
    by (simp_all add: offsetAt_off east_def west_def)
  show "utc_ms 1970 1 1 1 30 0 0 = -1800000 + east [] (-1800000)" by (simp add: g east_def)
  show "zonedTimeToUtc east [] 1970 1 1 1 30 0 0 = 1800000"
    unfolding zonedTimeToUtc_def Let_def g o by (simp add: east_def)
  show "zonedTimeToUtc west [] 1969 12 31 19 30 0 0 = -1800000"
    unfolding zonedTimeToUtc_def Let_def g o by (simp add: west_def)
qed

section \<open>Presets\<close>

definition local_day :: "offsets \<Rightarrow> string \<Rightarrow> int \<Rightarrow> int" where
  "local_day off tz t = (t + off tz t) div ms_day"

text \<open>
  What a zone's clock does at the midnight that opens day \<open>z\<close>. It is clear when one instant parts the
  earlier readings from the later ones, and at that instant the clock shows midnight, or jumps over it
  from midnight itself; the zone has at most two offsets around it, below a day. A clock set back across
  midnight (Havana, Beirut) or forward from before it is not clear there. \<open>Date.UTC\<close> reads the years 0
  to 99 as 1900 to 1999, which leaves the first century out.\<close>

definition clear_midnight :: "offsets \<Rightarrow> string \<Rightarrow> int \<Rightarrow> bool" where
  "clear_midnight off tz z \<longleftrightarrow>
     100 \<le> fst (civil_of z) \<and> (\<forall>x. \<bar>off tz x\<bar> < ms_day) \<and> (\<exists>a b. two_offsets off tz (z * ms_day) a b)
   \<and> (\<exists>u. (\<forall>t. t < u \<longrightarrow> t + off tz t < z * ms_day) \<and> (\<forall>t. u < t \<longrightarrow> z * ms_day < t + off tz t)
        \<and> z * ms_day \<le> u + off tz u \<and> (u + off tz u = z * ms_day \<or> u - 1 + off tz (u - 1) = z * ms_day - 1))"

text \<open>The days of a preset, seen from day \<open>d\<close>.\<close>

definition in_preset :: "string \<Rightarrow> int \<Rightarrow> int \<Rightarrow> bool" where
  "in_preset preset d z \<longleftrightarrow>
     (if preset = ''today'' then z = d
      else if preset = ''yesterday'' then z = d - 1
      else if preset = ''last_7_days'' then d - 6 \<le> z \<and> z \<le> d
      else if preset = ''last_30_days'' then d - 29 \<le> z \<and> z \<le> d
      else if preset = ''this_month'' then month_index z = month_index d
      else if preset = ''last_month'' \<or> preset = ''previous_month'' then month_index z = month_index d - 1
      else if preset = ''this_quarter'' then month_index z div 3 = month_index d div 3
      else if preset = ''last_quarter'' then month_index z div 3 = month_index d div 3 - 1
      else if preset = ''this_year'' then month_index z div 12 = month_index d div 12
      else preset = ''last_year'' \<and> month_index z div 12 = month_index d div 12 - 1)"

lemma civil_start_ms: "civil_of z = (y, m, d) \<Longrightarrow> utc_ms y m d 0 0 0 0 = z * ms_day"
  using days_of_civil[of z] by (simp add: utc_ms_def days_of_def)

lemma day_below: "z * ms_day \<le> s \<longleftrightarrow> z \<le> s div ms_day"
proof
  show "z * ms_day \<le> s \<Longrightarrow> z \<le> s div ms_day" using zdiv_mono1[of "z * ms_day" s ms_day] by (simp add: ms_day_def)
next
  assume "z \<le> s div ms_day"
  then have "z * ms_day \<le> s div ms_day * ms_day" by (simp add: ms_day_def)
  also have "\<dots> \<le> s" by (simp add: ms_day_def)
  finally show "z * ms_day \<le> s" .
qed

text \<open>At a clear midnight the code's search finds the start of the day.\<close>

lemma clear_midnight_start:
  assumes "clear_midnight off tz z"
  shows "startOfZonedDay off tz (civil_of z) \<le> t \<longleftrightarrow> z \<le> local_day off tz t"
proof -
  define G where "G = z * ms_day"
  define r where "r = startOfZonedDay off tz (civil_of z)"
  obtain a b u where small: "\<And>x. \<bar>off tz x\<bar> < ms_day" and two: "two_offsets off tz G a b"
    and before: "\<And>t. t < u \<Longrightarrow> t + off tz t < G" and after: "\<And>t. u < t \<Longrightarrow> G < t + off tz t"
    and reached: "G \<le> u + off tz u" and met: "u + off tz u = G \<or> u - 1 + off tz (u - 1) = G - 1"
    using assms unfolding clear_midnight_def G_def[symmetric] by blast
  obtain y m d where c: "civil_of z = (y, m, d)" by (metis prod_cases3)
  have ms: "utc_ms y m d 0 0 0 0 = G" using civil_start_ms[OF c] by (simp add: G_def)
  have "100 \<le> y" using assms by (simp add: clear_midnight_def c)
  then have ok: "time_ok y m d 0 0 0 0" using civil_range[OF c] civil_day_bound[OF c] by (simp add: time_ok_def validCalendar_def)
  note res = wall_time_resolves[OF ok, of off tz a b, unfolded ms, OF two]
  have r: "r = zonedTimeToUtc off tz y m d 0 0 0 0" by (simp add: r_def startOfZonedDay_def c)
  have "r = u"
  proof (cases "u + off tz u = G")
    case True
    then have "\<exists>t. t + off tz t = G" by blast
    then have "r + off tz r = G" using res by (simp only: r if_True)
    then show ?thesis using before[of r] after[of r] by linarith
  next
    case False
    have none: "\<nexists>t. t + off tz t = G"
    proof
      assume "\<exists>t. t + off tz t = G"
      then obtain t where "t + off tz t = G" by blast
      then show False using before[of t] after[of t] False by (cases t u rule: linorder_cases) auto
    qed
    have jump: "u - 1 + off tz (u - 1) = G - 1" and up: "off tz (u - 1) < off tz u" using met False reached by auto
    have "\<bar>u - 1 - G\<bar> \<le> ms_day" "\<bar>u - G\<bar> \<le> ms_day" using jump small[of "u - 1"] by linarith+
    then have "off tz (u - 1) = a \<or> off tz (u - 1) = b" "off tz u = a \<or> off tz u = b" using two by (auto simp: two_offsets_def)
    then have "min a b = off tz (u - 1)" using up by auto
    moreover have "r = G - min a b" using res none by (simp add: r)
    ultimately show ?thesis using jump by linarith
  qed
  moreover have "u \<le> t \<longleftrightarrow> G \<le> t + off tz t"
    using before[of t] after[of t] reached by (cases t u rule: linorder_cases) auto
  ultimately show ?thesis using day_below[of z "t + off tz t"] by (simp add: r_def G_def local_day_def)
qed

text \<open>A preset is a run of days, and its window runs from the start of the first to the start of the day after the last.\<close>

definition preset_days :: "string \<Rightarrow> int \<Rightarrow> int \<times> int" where
  "preset_days preset d =
     (let k = month_index d; q = 3 * (k div 3); y = 12 * (k div 12) in
      if preset = ''today'' then (d, d + 1)
      else if preset = ''yesterday'' then (d - 1, d)
      else if preset = ''last_7_days'' then (d - 6, d + 1)
      else if preset = ''last_30_days'' then (d - 29, d + 1)
      else if preset = ''this_month'' then (month_first k, month_first (k + 1))
      else if preset = ''last_month'' \<or> preset = ''previous_month'' then (month_first (k - 1), month_first k)
      else if preset = ''this_quarter'' then (month_first q, month_first (q + 3))
      else if preset = ''last_quarter'' then (month_first (q - 3), month_first q)
      else if preset = ''this_year'' then (month_first y, month_first (y + 12))
      else (month_first (y - 12), month_first y))"

definition calendar_presets :: "string list" where
  "calendar_presets = [''today'', ''yesterday'', ''last_7_days'', ''last_30_days'', ''this_month'', ''last_month'', ''previous_month'',
     ''this_quarter'', ''last_quarter'', ''this_year'', ''last_year'']"

lemma between_multiples: "0 < k \<Longrightarrow> k * q \<le> x \<and> x < k * q + k \<longleftrightarrow> x div k = q" for x k q :: int
  using div_bounds[of k x] int_div_pos_eq[of x k q "x - k * q"] by auto

lemma month_first_less: "z < month_first k \<longleftrightarrow> month_index z < k"
  using month_first_le[of k z] by linarith

lemma in_preset_days:
  assumes "preset \<in> set calendar_presets" "preset_days preset d = (lo, hi)"
  shows "in_preset preset d z \<longleftrightarrow> lo \<le> z \<and> z < hi"
proof -
  have quarter: "month_index z div 3 = k \<longleftrightarrow> 3 * k \<le> month_index z \<and> month_index z < 3 * k + 3"
    and year: "month_index z div 12 = k \<longleftrightarrow> 12 * k \<le> month_index z \<and> month_index z < 12 * k + 12" for k
    using between_multiples[of 3 k "month_index z"] between_multiples[of 12 k "month_index z"] by auto
  note w = assms(2)[unfolded preset_days_def Let_def]
  from assms(1) show ?thesis
    unfolding in_preset_def calendar_presets_def list.set
    using w by (elim insertE emptyE)
      (simp_all only: if_True if_False simp_thms prod.inject, auto simp: month_first_le month_first_less quarter year)
qed

lemma preset_days_run:
  assumes "preset \<in> set calendar_presets" "preset_days preset d = (lo, hi)"
  shows "lo < hi"
proof -
  have up: "month_first i < month_first j" if "i < j" for i j
    using month_first_up[OF that] month_first_step[of i] month_days_bounds[of "i div 12" "i mod 12 + 1"] by linarith
  note w = assms(2)[unfolded preset_days_def Let_def]
  from assms(1) show ?thesis
    unfolding calendar_presets_def list.set
    using w by (elim insertE emptyE) (simp_all only: if_True if_False simp_thms prod.inject, auto intro: up)
qed

lemma month_civil: "0 \<le> i \<Longrightarrow> i < 12 \<Longrightarrow> (y, i + 1, 1) = civil_of (month_first (12 * y + i))"
  by (simp add: month_first_civil)

lemma addCalendarMonths_civil: "addCalendarMonths (y, m) n = civil_of (month_first (12 * y + (m - 1) + n))"
proof -
  have "(12 * y + (m - 1) + n) div 12 = y + (m - 1 + n) div 12" "(12 * y + (m - 1) + n) mod 12 = (m - 1 + n) mod 12"
    using div_mult_self1[of 12 "m - 1 + n" y] mod_mult_self1[of "m - 1 + n" y 12] by (simp_all add: algebra_simps)
  then show ?thesis by (simp add: addCalendarMonths_def month_first_civil)
qed

lemma preset_window_days:
  assumes "preset \<in> set calendar_presets" "preset_days preset d = (lo, hi)"
  shows "preset_window off tz (civil_of d) preset = Some (startOfZonedDay off tz (civil_of lo), startOfZonedDay off tz (civil_of hi) - 1)"
proof -
  obtain y m dd where c: "civil_of d = (y, m, dd)" by (metis prod_cases3)
  have m: "1 \<le> m" "m \<le> 12" using civil_range[OF c] by auto
  define K where "K = month_index d"
  have K: "K = 12 * y + (m - 1)" by (simp add: K_def month_index_def c)
  have D: "days_of (y, m, dd) = d" using days_of_civil[of d] c by simp
  have today: "(y, m, dd) = civil_of d" by (simp add: c)
  have add: "addCalendarDays (y, m, dd) n = civil_of (d + n)" for n by (simp add: addCalendarDays_def D)
  let ?qm = "m - (m - 1) mod 3"
  have K3: "12 * y + (?qm - 1) = 3 * (K div 3)"
  proof -
    have "K mod 3 = (m - 1) mod 3" using mod_mult_self1[of "m - 1" "4 * y" 3] by (simp add: K algebra_simps)
    then have "12 * y + (?qm - 1) = K - K mod 3" by (simp add: K)
    also have "\<dots> = 3 * (K div 3)" by (rule minus_mod_eq_mult_div)
    finally show ?thesis .
  qed
  have qm: "0 \<le> ?qm - 1" "?qm - 1 < 12"
  proof -
    have "0 \<le> (m - 1) mod 3" "(m - 1) mod 3 \<le> m - 1" using m zmod_le_nonneg_dividend[of "m - 1" 3] by simp_all
    then show "0 \<le> ?qm - 1" "?qm - 1 < 12" using m by linarith+
  qed
  have K12: "K div 12 = y" using m by (simp add: K)
  have mo: "(y, m, 1) = civil_of (month_first K)" using month_civil[of "m - 1" y] m by (simp add: K)
  have q: "(y, ?qm, 1) = civil_of (month_first (3 * (K div 3)))" using month_civil[OF qm, of y] K3 by simp
  have yr: "(y', 1, 1) = civil_of (month_first (12 * y'))" for y' using month_civil[of 0 y'] by simp
  have amm: "addCalendarMonths (y, m) n = civil_of (month_first (K + n))" for n by (simp add: addCalendarMonths_civil K)
  have amq: "addCalendarMonths (y, ?qm) n = civil_of (month_first (3 * (K div 3) + n))" for n by (simp only: addCalendarMonths_civil K3)
  have minus: "x + (- n) = x - n" for x n :: int by simp
  have years: "12 * (y + 1) = 12 * y + 12" "12 * (y - 1) = 12 * y - 12" by simp_all
  note w = assms(2)[unfolded preset_days_def Let_def K_def[symmetric] K12]
  from assms(1) show ?thesis
    unfolding calendar_presets_def list.set preset_window_def c Let_def prod.case add amm amq mo q yr minus years
    unfolding today
    using w by (elim insertE emptyE) (simp_all add: prod.inject, auto)
qed

text \<open>The midnights at which the days of a preset begin and end.\<close>

definition boundaries_clear :: "offsets \<Rightarrow> string \<Rightarrow> string \<Rightarrow> int \<Rightarrow> bool" where
  "boundaries_clear off tz preset d \<longleftrightarrow>
     (\<forall>z. in_preset preset d z \<noteq> in_preset preset d (z - 1) \<longrightarrow> clear_midnight off tz z)"

lemma zoned_today: "zonedParts off tz t = w \<Longrightarrow> (w_year w, w_month w, w_day w) = civil_of (local_day off tz t)"
  by (auto simp: zonedParts_def wall_of_def Let_def local_day_def split: prod.splits)

text \<open> C22.
  Date presets mean calendar periods. Resolved at an instant in a zone whose clock passes cleanly through
  the two midnights that bound the period (no change of the clock repeats either of them or starts
  before it and skips it), a preset's window holds an instant exactly when its local day belongs to
  the period seen from the local day of now: today, yesterday, the last 7 or 30 days with today, and
  the current or previous month, quarter and year. Clock changes elsewhere, inside the period too, do not matter.\<close>
theorem preset_windows_exact:
  assumes "str_of (get_prop ''preset'' dateRange) = Some preset" and "preset \<in> set calendar_presets"
    and "boundaries_clear off tz preset (local_day off tz now)"
  shows "\<exists>a b. wn_from (resolveDateRange date_parse off tz now dateRange) = Some a
    \<and> wn_to (resolveDateRange date_parse off tz now dateRange) = Some b
    \<and> (\<forall>t. a \<le> t \<and> t \<le> b \<longleftrightarrow> in_preset preset (local_day off tz now) (local_day off tz t))"
proof -
  let ?d = "local_day off tz now"
  obtain lo hi where days: "preset_days preset ?d = (lo, hi)" by (meson surj_pair)
  note run = in_preset_days[OF assms(2) days] and less = preset_days_run[OF assms(2) days]
  have clear: "clear_midnight off tz lo" "clear_midnight off tz hi"
    using assms(3)[unfolded boundaries_clear_def run] less by simp_all
  note starts = clear_midnight_start[OF clear(1)] clear_midnight_start[OF clear(2)]
  note today = zoned_today[of off tz now, OF refl]
  have "a \<le> t \<and> t \<le> b - 1 \<longleftrightarrow> in_preset preset ?d (local_day off tz t)"
    if "a = startOfZonedDay off tz (civil_of lo)" "b = startOfZonedDay off tz (civil_of hi)" for a b t
    unfolding run using starts[of t] that by linarith
  then show ?thesis
    by (simp add: resolveDateRange_def Let_def assms(1) today preset_window_days[OF assms(2) days])
qed

lemma clear_midnightI:
  assumes "100 \<le> fst (civil_of z)" "\<And>x. \<bar>off tz x\<bar> < ms_day" "two_offsets off tz (z * ms_day) a b"
    "\<And>t. t < u \<Longrightarrow> t + off tz t < z * ms_day" "\<And>t. u < t \<Longrightarrow> z * ms_day < t + off tz t" "u + off tz u = z * ms_day"
  shows "clear_midnight off tz z"
  unfolding clear_midnight_def using assms by (intro conjI exI[of _ a] exI[of _ b] exI[of _ u]) auto

text \<open>In the zone \<open>east\<close> the first of January 1970 has 25 hours; its window holds all of them.\<close>

lemma east_midnights: "clear_midnight east tz 0" "clear_midnight east tz 1"
proof -
  have small: "\<bar>east tz x\<bar> < ms_day" for x by (simp add: east_def ms_day_def)
  have two: "two_offsets east tz g 7200000 3600000" for g by (simp add: two_offsets_def east_def ms_day_def)
  have epoch: "civil_of 0 = (1970, 1, 1)" "civil_of 1 = (1970, 1, 2)" by code_simp+
  show "clear_midnight east tz 0" by (rule clear_midnightI[OF _ small two, where u = "-7200000"]) (simp_all add: east_def ms_day_def epoch)
  show "clear_midnight east tz 1" by (rule clear_midnightI[OF _ small two, where u = 82800000]) (simp_all add: east_def ms_day_def epoch)
qed

theorem preset_windows_exact_witness:
  "\<exists>a b. wn_from (resolveDateRange (\<lambda>_. None) east [] 0 (JObj [(''field'', JStr ''day''), (''preset'', JStr ''today'')])) = Some a
     \<and> wn_to (resolveDateRange (\<lambda>_. None) east [] 0 (JObj [(''field'', JStr ''day''), (''preset'', JStr ''today'')])) = Some b
     \<and> (\<forall>t. a \<le> t \<and> t \<le> b \<longleftrightarrow> in_preset ''today'' (local_day east [] 0) (local_day east [] t))"
proof (rule preset_windows_exact)
  have d: "local_day east [] 0 = 0" by (simp add: local_day_def east_def ms_day_def)
  show "str_of (get_prop ''preset'' (JObj [(''field'', JStr ''day''), (''preset'', JStr ''today'')])) = Some ''today''" by simp
  show "''today'' \<in> set calendar_presets" by (simp add: calendar_presets_def)
  have "in_preset ''today'' 0 z \<longleftrightarrow> z = 0" for z by (simp add: in_preset_def)
  then show "boundaries_clear east [] ''today'' (local_day east [] 0)"
    unfolding boundaries_clear_def d using east_midnights by (metis add_0 diff_add_cancel)
qed

text \<open>A zone of one offset.\<close>

lemma fixed_zone_time:
  assumes "\<And>t. off tz t = c0" "c0 mod 1000 = 0"
  shows "zonedTimeToUtc off tz y m d h mi s ms = utc_ms y m d h mi s ms - c0"
  using assms by (simp add: zonedTimeToUtc_def Let_def offsetAt_off)

section \<open>Comparison windows\<close>

definition month_start :: "offsets \<Rightarrow> string \<Rightarrow> int \<Rightarrow> int" where
  "month_start off tz k = startOfZonedDay off tz (k div 12, k mod 12 + 1, 1)"

text \<open>Months start at midnight of their first day, to the second.\<close>

definition months_at_midnight :: "offsets \<Rightarrow> string \<Rightarrow> bool" where
  "months_at_midnight off tz \<longleftrightarrow>
     (\<forall>k. month_start off tz k + off tz (month_start off tz k) = month_first k * ms_day \<and> month_start off tz k mod 1000 = 0)"

lemma month_start_parts:
  assumes "months_at_midnight off tz"
  shows "zonedParts off tz (month_start off tz k) =
    \<lparr>w_year = k div 12, w_month = k mod 12 + 1, w_day = 1, w_hour = 0, w_minute = 0, w_second = 0, w_weekday = (month_first k + 4) mod 7\<rparr>"
proof -
  have "month_start off tz k + off tz (month_start off tz k) = month_first k * ms_day" using assms by (simp add: months_at_midnight_def)
  moreover have "month_first k * ms_day div ms_day = month_first k" "month_first k * ms_day mod ms_day = 0" by (simp_all add: ms_day_def)
  ultimately show ?thesis by (simp add: zonedParts_def wall_of_def Let_def month_first_civil)
qed

lemma shift_month_start:
  assumes "months_at_midnight off tz"
  shows "shiftMonths off tz (month_start off tz k) n = month_start off tz (k + n)"
proof -
  have "(k + n) div 12 = k div 12 + (k mod 12 + n) div 12" "(k + n) mod 12 = (k mod 12 + n) mod 12"
    using div_mult_self4[of 12 "k div 12" "k mod 12 + n"] by (simp_all add: mod_add_left_eq)
  note d = this
  have "min (1::int) (daysInMonth y m) = 1" for y m using month_days_bounds[of y m] by (simp add: daysInMonth_def)
  then show ?thesis
    unfolding shiftMonths_def month_start_parts[OF assms] addCalendarMonths_def month_start_def[of off tz "k + n"] startOfZonedDay_def d
    using assms by (simp add: Let_def months_at_midnight_def)
qed

text \<open> Comparison windows. The previous period of \<open>n\<close> whole calendar months is the \<open>n\<close> calendar months just
  before them; the previous year of whole months is the same months a year earlier; any other previous
  period is as long as the window and ends one millisecond before it.\<close>
theorem comparison_windows:
  assumes "months_at_midnight off tz" and "i < j"
  shows "comparisonWindow off tz ''previous_period'' (month_start off tz i) (month_start off tz j - 1)
      = (month_start off tz (i - (j - i)), month_start off tz i - 1)
    \<and> comparisonWindow off tz ''previous_year'' (month_start off tz i) (month_start off tz j - 1)
      = (month_start off tz (i - 12), month_start off tz (j - 12) - 1)
    \<and> (wholeMonths off tz a (b + 1) = None \<longrightarrow>
         (case comparisonWindow off tz ''previous_period'' a b of (a', b') \<Rightarrow> b' = a - 1 \<and> b' - a' = b - a))"
proof -
  have "(j div 12 - i div 12) * 12 + (j mod 12 - i mod 12) = j - i"
    using mult_div_mod_eq[of 12 i] mult_div_mod_eq[of 12 j] unfolding left_diff_distrib by linarith
  then have "wholeMonths off tz (month_start off tz i) (month_start off tz j) = Some (j - i)"
    using assms by (simp add: wholeMonths_def month_start_parts months_at_midnight_def Let_def)
  then show ?thesis
    by (simp add: comparisonWindow_def Let_def shift_month_start[OF assms(1)])
qed

lemma fixed_zone_months:
  assumes "\<And>t. off tz t = c0" "c0 mod 1000 = 0"
  shows "months_at_midnight off tz"
proof -
  have m: "month_start off tz k = month_first k * ms_day - c0" for k
    using fixed_zone_time[of off tz c0, OF assms] civil_start_ms[OF month_first_civil] by (simp add: month_start_def startOfZonedDay_def)
  have "month_first k * ms_day mod 1000 = 0" for k
    using mod_mult_right_eq[of "month_first k" ms_day 1000] by (simp add: ms_day_def)
  then have "(month_first k * ms_day - c0) mod 1000 = 0" for k using assms(2) by (metis diff_zero mod_0 mod_diff_eq)
  then show ?thesis by (simp add: months_at_midnight_def m assms(1))
qed

theorem comparison_windows_witness:
  "comparisonWindow (\<lambda>_ _. 0) [] ''previous_period'' (month_start (\<lambda>_ _. 0) [] 24308) (month_start (\<lambda>_ _. 0) [] 24309 - 1)
     = (month_start (\<lambda>_ _. 0) [] 24307, month_start (\<lambda>_ _. 0) [] 24308 - 1)"
  using comparison_windows[OF fixed_zone_months[of "\<lambda>_ _. 0" "[]" 0], of 24308 24309] by simp

end
