(* ===== verification/MetricCatalogue.thy ===== *)
theory MetricCatalogue
  imports QueryNormalForm
begin

text \<open>
  The tenant's catalogue of versioned metric definitions: \<open>src/services/metricDefinition.service.js\<close> over
  \<open>src/repositories/metricDefinition.repository.js\<close>. The collection is a list of stored versions; the
  unique index on tenant, key and version makes \<open>repo_create\<close> fail on a duplicate. Every database call is
  one step, so an operation that reads and then writes (\<open>metric_update\<close>) is given as its two steps too.
  A number sent where text is expected keeps its printed form, the argument \<open>nt\<close> (\<open>Number::toString\<close>).
  Listing, audit records and the profiler's suggestions are left out.
\<close>

section \<open>Stored versions\<close>

datatype metric_status = Draft | Approved | Archived

record ratio_part =
  pt_aggregation :: string
  pt_field :: "string option"
  pt_filters :: "json list"

record metric_body =
  mb_key :: string
  mb_label :: string
  mb_description :: string
  mb_connectorId :: string
  mb_aggregation :: string
  mb_field :: "string option"
  mb_numerator :: "ratio_part option"
  mb_denominator :: "ratio_part option"
  mb_filters :: "json list"
  mb_unit :: "string option"
  mb_format :: string
  mb_direction :: string
  mb_owner :: "string option"

record metric_version =
  mv_tenantId :: string
  mv_version :: nat
  mv_body :: metric_body
  mv_status :: metric_status
  mv_createdBy :: "string option"
  mv_approvedBy :: "string option"
  mv_approvedAt :: "int option"
  mv_archivedBy :: "string option"
  mv_archivedAt :: "int option"

type_synonym metric_store = "metric_version list"

datatype metric_error =
    Metric_tenant_required
  | Metric_invalid "(string \<times> problem) list"
  | Metric_not_found string
  | Metric_exists
  | Metric_not_draft
  | Metric_archived
  | Metric_conflict

definition METRIC_AGGREGATIONS :: "string list" where
  "METRIC_AGGREGATIONS = [''count'', ''sum'', ''avg'', ''min'', ''max'', ''count_distinct'']"

definition METRIC_KINDS :: "string list" where
  "METRIC_KINDS = METRIC_AGGREGATIONS @ [''ratio'']"

definition METRIC_FORMATS :: "string list" where
  "METRIC_FORMATS = [''number'', ''integer'', ''currency'', ''percent'']"

definition METRIC_DIRECTIONS :: "string list" where
  "METRIC_DIRECTIONS = [''higher_is_better'', ''lower_is_better'', ''neutral'']"

definition METRIC_KEY_PATTERN :: "string \<Rightarrow> bool" where
  "METRIC_KEY_PATTERN k \<longleftrightarrow> k \<noteq> [] \<and> length k \<le> 64 \<and> is_lower (hd k)
     \<and> list_all (\<lambda>c. is_lower c \<or> is_digit c \<or> c = CHR ''_'') k"

definition DEFINITION_FIELDS :: "string list" where
  "DEFINITION_FIELDS = [''key'', ''label'', ''description'', ''connectorId'', ''aggregation'', ''field'', ''numerator'',
     ''denominator'', ''filters'', ''unit'', ''format'', ''direction'', ''owner'']"

definition PART_KEYS :: "string list" where
  "PART_KEYS = [''aggregation'', ''field'', ''filters'']"

section \<open>Validation\<close>

text \<open>\<open>String(v)\<close>.\<close>

fun js_text :: "(rat \<Rightarrow> string) \<Rightarrow> json \<Rightarrow> string" where
  "js_text nt JNull = ''null''"
| "js_text nt (JBool b) = (if b then ''true'' else ''false'')"
| "js_text nt (JNum n) = nt n"
| "js_text nt (JStr s) = s"
| "js_text nt (JArr xs) = join_with '','' (map (\<lambda>x. if x = JNull then [] else js_text nt x) xs)"
| "js_text nt (JObj ps) = ''[object Object]''"

definition sanitizeFilters :: "json option \<Rightarrow> string \<Rightarrow> json list checked" where
  "sanitizeFilters value p =
     (if \<not> present value then ([], [])
      else
        (case value of
           Some (JArr xs) \<Rightarrow>
             (let long = fail_if (20 < length xs) p Too_many; pre = take (length p - length ''filters'') p in
              case validateQuery (\<lambda>_. None) [''filters''] [] pre (JObj [(''filters'', JArr xs)]) of
                Inl es \<Rightarrow> (long @ es, [])
              | Inr out \<Rightarrow> (long, elems (get_prop ''filters'' out)))
         | _ \<Rightarrow> ([(p, Must_be_array)], [])))"

definition sanitizeAggregation ::
  "(rat \<Rightarrow> string) \<Rightarrow> json option \<Rightarrow> json option \<Rightarrow> string \<Rightarrow> bool \<Rightarrow> (json option \<times> string option) checked" where
  "sanitizeAggregation nt aggregation field p allowRatio =
     (let allowed = (if allowRatio then METRIC_KINDS else METRIC_AGGREGATIONS) in
      if \<not> string_in aggregation allowed then ([(p @ ''aggregation'', Bad_op)], (aggregation, None))
      else if aggregation = Some (JStr ''ratio'') then ([], (aggregation, None))
      else if aggregation = Some (JStr ''count'') then
        (fail_if (given field \<and> \<not> isSafeName field) (p @ ''field'') Bad_name, (aggregation, None))
      else
        (if \<not> given field then [(p @ ''field'', Field_required)] else fail_if (\<not> isSafeName field) (p @ ''field'') Bad_name,
         (aggregation, if given field then Some (js_text nt (the field)) else None)))"

definition aggregation_text :: "json option \<Rightarrow> string" where
  "aggregation_text v = (case str_of v of Some s \<Rightarrow> s | None \<Rightarrow> ''undefined'')"

definition sanitizePart :: "(rat \<Rightarrow> string) \<Rightarrow> json option \<Rightarrow> string \<Rightarrow> ratio_part option checked" where
  "sanitizePart nt value p =
     (case value of
        Some (JObj ps) \<Rightarrow>
          (let unknown = concat (map (\<lambda>(k, v). fail_if (k \<notin> set PART_KEYS) (p @ ''.'' @ k) Unknown_field) ps);
               v = JObj ps in
           case sanitizeAggregation nt (get_prop ''aggregation'' v) (get_prop ''field'' v) (p @ ''.'') False of
             (e1, (agg, fd)) \<Rightarrow>
               (case sanitizeFilters (get_prop ''filters'' v) (p @ ''.filters'') of
                  (e2, fs) \<Rightarrow>
                    (unknown @ e1 @ e2,
                     Some \<lparr>pt_aggregation = aggregation_text agg, pt_field = fd, pt_filters = fs\<rparr>)))
      | _ \<Rightarrow> ([(p, Must_be_object)], None))"

definition optionalText :: "json option \<Rightarrow> string \<Rightarrow> nat \<Rightarrow> string option checked" where
  "optionalText value p most =
     (if \<not> present value then ([], None)
      else
        (case str_of value of
           None \<Rightarrow> ([(p, Bad_value)], None)
         | Some s \<Rightarrow> (fail_if (most < length (trim s)) p Too_many, if trim s = [] then None else Some (trim s))))"

text \<open>A choice with a default (\<open>input.format ?? 'number'\<close>): the text, and a problem unless it is one of the list.\<close>

definition choice :: "json option \<Rightarrow> string \<Rightarrow> string list \<Rightarrow> string \<Rightarrow> string checked" where
  "choice value dflt allowed p =
     (if \<not> present value then ([], dflt)
      else (fail_if (\<not> string_in value allowed) p Bad_op, aggregation_text value))"

definition sanitizeDefinition :: "(rat \<Rightarrow> string) \<Rightarrow> json \<Rightarrow> (metric_error, metric_body) res" where
  "sanitizeDefinition nt input =
     (if \<not> is_object input then Inl (Metric_invalid [(''body'', Must_be_object)])
      else
        (let g = (\<lambda>k. get_prop k input); keys = (case input of JObj ps \<Rightarrow> map fst ps | _ \<Rightarrow> []);
             e0 = concat (map (\<lambda>k. fail_if (k \<notin> set DEFINITION_FIELDS) k Unknown_field) keys);
             key = (case str_of (g ''key'') of Some s \<Rightarrow> trim s | None \<Rightarrow> []);
             e1 = fail_if (\<not> METRIC_KEY_PATTERN key) ''key'' Bad_name;
             label = (case str_of (g ''label'') of Some s \<Rightarrow> trim s | None \<Rightarrow> []);
             e2 = (if label = [] then [(''label'', Field_required)] else fail_if (120 < length label) ''label'' Too_many);
             (e3, description) = optionalText (g ''description'') ''description'' 1000;
             connectorId = (if present (g ''connectorId'') then js_text nt (the (g ''connectorId'')) else []);
             e4 = fail_if (\<not> OBJECT_ID_RE connectorId) ''connectorId'' Bad_dataset_id;
             (e5, (aggregation, fd)) = sanitizeAggregation nt (g ''aggregation'') (g ''field'') [] True;
             (e6, filters) = sanitizeFilters (g ''filters'') ''filters'';
             (e7, unit) = optionalText (g ''unit'') ''unit'' 32;
             owner = (if given (g ''owner'') then Some (take 64 (js_text nt (the (g ''owner'')))) else None);
             ratio = (aggregation = Some (JStr ''ratio''));
             (e8, numerator) = (if ratio then sanitizePart nt (g ''numerator'') ''numerator''
                                else (fail_if (present (g ''numerator'')) ''numerator'' Unknown_field, None));
             (e9, denominator) = (if ratio then sanitizePart nt (g ''denominator'') ''denominator''
                                  else (fail_if (present (g ''denominator'')) ''denominator'' Unknown_field, None));
             (e10, fmt) = choice (g ''format'') (if ratio \<and> g ''format'' = None then ''percent'' else ''number'') METRIC_FORMATS ''format'';
             (e11, direction) = choice (g ''direction'') ''higher_is_better'' METRIC_DIRECTIONS ''direction'';
             es = e0 @ e1 @ e2 @ e3 @ e4 @ e5 @ e6 @ e7 @ e8 @ e9 @ e10 @ e11
         in if es \<noteq> [] then Inl (Metric_invalid es)
            else Inr \<lparr>mb_key = key, mb_label = label, mb_description = (case description of None \<Rightarrow> [] | Some s \<Rightarrow> s),
                      mb_connectorId = connectorId, mb_aggregation = aggregation_text aggregation, mb_field = fd,
                      mb_numerator = numerator, mb_denominator = denominator, mb_filters = filters, mb_unit = unit,
                      mb_format = fmt, mb_direction = direction, mb_owner = owner\<rparr>))"

section \<open>The repository\<close>

definition of_key :: "metric_store \<Rightarrow> string \<Rightarrow> string \<Rightarrow> metric_version list" where
  "of_key st t k = filter (\<lambda>d. mv_tenantId d = t \<and> mb_key (mv_body d) = k) st"

definition listVersions :: "metric_store \<Rightarrow> string \<Rightarrow> string \<Rightarrow> metric_version list" where
  "listVersions st t k = rev (sort_key mv_version (of_key st t k))"

definition findVersion :: "metric_store \<Rightarrow> string \<Rightarrow> string \<Rightarrow> nat \<Rightarrow> metric_version option" where
  "findVersion st t k v = find (\<lambda>d. mv_version d = v) (of_key st t k)"

definition findLatest :: "metric_store \<Rightarrow> string \<Rightarrow> string \<Rightarrow> metric_status option \<Rightarrow> metric_version option" where
  "findLatest st t k status =
     find (\<lambda>d. status = None \<or> status = Some (mv_status d)) (listVersions st t k)"

text \<open>The unique index and the cast of the dataset id to an object id.\<close>

definition repo_create :: "metric_store \<Rightarrow> metric_version \<Rightarrow> (unit, metric_store) res" where
  "repo_create st d =
     (if findVersion st (mv_tenantId d) (mb_key (mv_body d)) (mv_version d) \<noteq> None then Inl ()
      else Inr (st @ [d\<lparr>mv_body := (mv_body d)\<lparr>mb_connectorId := to_lower (mb_connectorId (mv_body d))\<rparr>\<rparr>]))"

definition setStatus ::
  "metric_store \<Rightarrow> string \<Rightarrow> string \<Rightarrow> nat \<Rightarrow> metric_status \<Rightarrow> (metric_version \<Rightarrow> metric_version) \<Rightarrow> metric_store option" where
  "setStatus st t k v from_status upd =
     (if \<exists>d\<in>set (of_key st t k). mv_version d = v \<and> mv_status d = from_status
      then Some (map (\<lambda>d. if mv_tenantId d = t \<and> mb_key (mv_body d) = k \<and> mv_version d = v \<and> mv_status d = from_status
                          then upd d else d) st)
      else None)"

definition archiveKey :: "metric_store \<Rightarrow> string \<Rightarrow> string \<Rightarrow> string option \<Rightarrow> int \<Rightarrow> metric_store" where
  "archiveKey st t k who now =
     map (\<lambda>d. if mv_tenantId d = t \<and> mb_key (mv_body d) = k \<and> mv_status d \<noteq> Archived
              then d\<lparr>mv_status := Archived, mv_archivedBy := who, mv_archivedAt := Some now\<rparr> else d) st"

section \<open>References\<close>

definition ref_version :: "string \<Rightarrow> nat option" where
  "ref_version r =
     (case dropWhile (\<lambda>c. c \<noteq> CHR ''@'') r of [] \<Rightarrow> None | c # v \<Rightarrow> Some (dec_value v))"

definition resolveMetricRef :: "metric_store \<Rightarrow> bool \<Rightarrow> string \<Rightarrow> string \<Rightarrow> metric_version option" where
  "resolveMetricRef st includeDrafts t r =
     (if t = [] then None
      else
        (case METRIC_REF_RE r of
           None \<Rightarrow> None
         | Some k \<Rightarrow>
             (case ref_version r of
                Some v \<Rightarrow>
                  (case findVersion st t k v of
                     None \<Rightarrow> None
                   | Some d \<Rightarrow> if mv_status d \<noteq> Approved \<and> \<not> (includeDrafts \<and> mv_status d = Draft) then None else Some d)
              | None \<Rightarrow>
                  (case findLatest st t k (Some Approved) of
                     Some d \<Rightarrow> Some d
                   | None \<Rightarrow> if includeDrafts then findLatest st t k (Some Draft) else None))))"

definition metricRefErrors :: "metric_store \<Rightarrow> string \<Rightarrow> json option \<Rightarrow> string \<Rightarrow> problems" where
  "metricRefErrors st t query pre =
     concat (map (\<lambda>(i, m).
         case str_of (get_prop ''ref'' m) of
           None \<Rightarrow> []
         | Some r \<Rightarrow> fail_if (resolveMetricRef st False t r = None) (pre @ ''metrics['' @ show_nat i @ ''].ref'') Bad_ref)
       (indexed (elems (case query of None \<Rightarrow> None | Some q \<Rightarrow> get_prop ''metrics'' q))))"

section \<open>The lifecycle\<close>

text \<open>\<open>owned\<close> answers \<open>connectorRepository.findById\<close>: whether the dataset is one of the workspace.\<close>

definition new_version :: "string \<Rightarrow> metric_body \<Rightarrow> nat \<Rightarrow> string option \<Rightarrow> metric_version" where
  "new_version t b v actor =
     \<lparr>mv_tenantId = t, mv_version = v, mv_body = b, mv_status = Draft, mv_createdBy = actor, mv_approvedBy = None,
      mv_approvedAt = None, mv_archivedBy = None, mv_archivedAt = None\<rparr>"

definition assertDatasetOwned :: "(string \<Rightarrow> string \<Rightarrow> bool) \<Rightarrow> string \<Rightarrow> metric_body \<Rightarrow> (metric_error, unit) res" where
  "assertDatasetOwned owned t b =
     (if owned t (mb_connectorId b) then Inr () else Inl (Metric_invalid [(''connectorId'', Bad_dataset_id)]))"

definition metric_create ::
  "(rat \<Rightarrow> string) \<Rightarrow> (string \<Rightarrow> string \<Rightarrow> bool) \<Rightarrow> metric_store \<Rightarrow> string \<Rightarrow> string option \<Rightarrow> json \<Rightarrow> (metric_error, metric_store) res" where
  "metric_create nt owned st t actor input =
     (if t = [] then Inl Metric_tenant_required
      else rbind (sanitizeDefinition nt input) (\<lambda>b. rbind (assertDatasetOwned owned t b) (\<lambda>_.
        if findLatest st t (mb_key b) None \<noteq> None then Inl Metric_exists
        else (case repo_create st (new_version t b 1 actor) of Inl _ \<Rightarrow> Inl Metric_exists | Inr st' \<Rightarrow> Inr st'))))"

definition part_json :: "ratio_part option \<Rightarrow> json" where
  "part_json p = (case p of None \<Rightarrow> JNull
     | Some q \<Rightarrow> JObj [(''aggregation'', JStr (pt_aggregation q)),
                       (''field'', case pt_field q of None \<Rightarrow> JNull | Some s \<Rightarrow> JStr s), (''filters'', JArr (pt_filters q))])"

definition text_json :: "string option \<Rightarrow> json" where
  "text_json v = (case v of None \<Rightarrow> JNull | Some s \<Rightarrow> JStr s)"

definition body_props :: "metric_body \<Rightarrow> (string \<times> json) list" where
  "body_props b =
     [(''key'', JStr (mb_key b)), (''label'', JStr (mb_label b)), (''description'', JStr (mb_description b)),
      (''connectorId'', JStr (mb_connectorId b)), (''aggregation'', JStr (mb_aggregation b)), (''field'', text_json (mb_field b)),
      (''numerator'', part_json (mb_numerator b)), (''denominator'', part_json (mb_denominator b)),
      (''filters'', JArr (mb_filters b)), (''unit'', text_json (mb_unit b)), (''format'', JStr (mb_format b)),
      (''direction'', JStr (mb_direction b)), (''owner'', text_json (mb_owner b))]"

text \<open>The two steps of an update: what it makes of the latest version it read, and the insertion.\<close>

definition update_prepare ::
  "(rat \<Rightarrow> string) \<Rightarrow> (string \<Rightarrow> string \<Rightarrow> bool) \<Rightarrow> metric_store \<Rightarrow> string \<Rightarrow> string \<Rightarrow> json
     \<Rightarrow> (metric_error, metric_body \<times> nat) res" where
  "update_prepare nt owned st t key patch =
     (if t = [] then Inl Metric_tenant_required
      else
        (case findLatest st t key None of
           None \<Rightarrow> Inl (Metric_not_found key)
         | Some latest \<Rightarrow>
             if mv_status latest = Archived then Inl Metric_archived
             else
               (case patch of
                  JObj (p # ps) \<Rightarrow>
                    if get_prop ''key'' patch \<noteq> None \<and> get_prop ''key'' patch \<noteq> Some (JStr key)
                    then Inl (Metric_invalid [(''key'', Bad_value)])
                    else
                      rbind (sanitizeDefinition nt
                          (JObj (alist_set ''key'' (JStr key) (foldl (\<lambda>m (k, v). alist_set k v m) (body_props (mv_body latest)) (p # ps)))))
                        (\<lambda>b. rbind (assertDatasetOwned owned t b) (\<lambda>_. Inr (b, mv_version latest + 1)))
                | _ \<Rightarrow> Inl (Metric_invalid [(''body'', Must_be_object)]))))"

definition update_commit :: "metric_store \<Rightarrow> string \<Rightarrow> string option \<Rightarrow> metric_body \<times> nat \<Rightarrow> (metric_error, metric_store) res" where
  "update_commit st t actor bv =
     (case repo_create st (new_version t (fst bv) (snd bv) actor) of Inl _ \<Rightarrow> Inl Metric_conflict | Inr st' \<Rightarrow> Inr st')"

definition metric_update ::
  "(rat \<Rightarrow> string) \<Rightarrow> (string \<Rightarrow> string \<Rightarrow> bool) \<Rightarrow> metric_store \<Rightarrow> string \<Rightarrow> string \<Rightarrow> string option \<Rightarrow> json
     \<Rightarrow> (metric_error, metric_store) res" where
  "metric_update nt owned st t key actor patch = rbind (update_prepare nt owned st t key patch) (update_commit st t actor)"

definition metric_approve :: "metric_store \<Rightarrow> string \<Rightarrow> string \<Rightarrow> int \<Rightarrow> string option \<Rightarrow> int \<Rightarrow> (metric_error, metric_store) res" where
  "metric_approve st t key v actor now =
     (if t = [] then Inl Metric_tenant_required
      else if v < 1 then Inl (Metric_invalid [(''version'', Bad_number)])
      else
        (case findVersion st t key (nat v) of
           None \<Rightarrow> Inl (Metric_not_found key)
         | Some d \<Rightarrow>
             if mv_status d \<noteq> Draft then Inl Metric_not_draft
             else
               (case setStatus st t key (nat v) Draft (\<lambda>d. d\<lparr>mv_status := Approved, mv_approvedBy := actor, mv_approvedAt := Some now\<rparr>) of
                  None \<Rightarrow> Inl Metric_not_draft
                | Some st' \<Rightarrow> Inr st')))"

definition metric_archive :: "metric_store \<Rightarrow> string \<Rightarrow> string \<Rightarrow> string option \<Rightarrow> int \<Rightarrow> (metric_error, metric_store \<times> nat) res" where
  "metric_archive st t key actor now =
     (if t = [] then Inl Metric_tenant_required
      else
        (case findLatest st t key None of
           None \<Rightarrow> Inl (Metric_not_found key)
         | Some _ \<Rightarrow> Inr (archiveKey st t key actor now, length (filter (\<lambda>d. mv_status d \<noteq> Archived) (of_key st t key)))))"

definition metric_get :: "metric_store \<Rightarrow> string \<Rightarrow> string \<Rightarrow> nat option \<Rightarrow> (metric_error, metric_version \<times> nat option) res" where
  "metric_get st t key v =
     (if t = [] then Inl Metric_tenant_required
      else if \<not> METRIC_KEY_PATTERN key then Inl (Metric_not_found key)
      else
        (let versions = listVersions st t key in
         if versions = [] then Inl (Metric_not_found key)
         else
           (case (case v of None \<Rightarrow> Some (hd versions) | Some n \<Rightarrow> find (\<lambda>d. mv_version d = n) versions) of
              None \<Rightarrow> Inl (Metric_not_found key)
            | Some d \<Rightarrow> Inr (d, map_option mv_version (find (\<lambda>d. mv_status d = Approved) versions)))))"

section \<open>What validation accepts\<close>

definition filter_list_ok :: "json list \<Rightarrow> bool" where
  "filter_list_ok fs \<longleftrightarrow> length fs \<le> 20 \<and> (\<forall>f\<in>set fs. filter_ok f)"

definition agg_ok :: "string list \<Rightarrow> string \<Rightarrow> string option \<Rightarrow> bool" where
  "agg_ok kinds agg fd \<longleftrightarrow> agg \<in> set kinds
     \<and> (if agg = ''count'' \<or> agg = ''ratio'' then fd = None else \<exists>s. fd = Some s \<and> safe_text s)"

definition ratio_part_ok :: "ratio_part \<Rightarrow> bool" where
  "ratio_part_ok p \<longleftrightarrow> agg_ok METRIC_AGGREGATIONS (pt_aggregation p) (pt_field p) \<and> filter_list_ok (pt_filters p)"

definition opt_text_ok :: "nat \<Rightarrow> string option \<Rightarrow> bool" where
  "opt_text_ok n v \<longleftrightarrow> (\<forall>s. v = Some s \<longrightarrow> s \<noteq> [] \<and> trim s = s \<and> length s \<le> n)"

definition body_ok :: "metric_body \<Rightarrow> bool" where
  "body_ok b \<longleftrightarrow> METRIC_KEY_PATTERN (mb_key b)
     \<and> mb_label b \<noteq> [] \<and> trim (mb_label b) = mb_label b \<and> length (mb_label b) \<le> 120
     \<and> trim (mb_description b) = mb_description b \<and> length (mb_description b) \<le> 1000
     \<and> OBJECT_ID_RE (mb_connectorId b) \<and> agg_ok METRIC_KINDS (mb_aggregation b) (mb_field b)
     \<and> filter_list_ok (mb_filters b) \<and> opt_text_ok 32 (mb_unit b)
     \<and> mb_format b \<in> set METRIC_FORMATS \<and> mb_direction b \<in> set METRIC_DIRECTIONS
     \<and> (\<forall>s. mb_owner b = Some s \<longrightarrow> length s \<le> 64)
     \<and> (if mb_aggregation b = ''ratio''
        then (\<exists>p q. mb_numerator b = Some p \<and> mb_denominator b = Some q \<and> ratio_part_ok p \<and> ratio_part_ok q)
        else mb_numerator b = None \<and> mb_denominator b = None)"

lemma fail_if_Nil_iff: "fail_if b p m = [] \<longleftrightarrow> \<not> b"
  by (simp add: fail_if_def)

lemma only_filters:
  "validateQuery dp [''filters''] [] pre (JObj [(''filters'', JArr xs)]) =
     (case validateFilters (JArr xs) (pre @ ''filters'') of (es, v) \<Rightarrow> if es \<noteq> [] then Inl es else Inr (JObj [(''filters'', v)]))"
  by (simp add: validateQuery_def collect_def VALIDATORS_def validateCombination_def split: prod.splits)

lemma validateFilters_length: "validateFilters (JArr xs) p = ([], w) \<Longrightarrow> \<exists>ys. w = JArr ys \<and> length ys = length xs \<and> (\<forall>y\<in>set ys. filter_ok y)"
proof -
  assume "validateFilters (JArr xs) p = ([], w)"
  then obtain ys where ys: "check_each (check_filter p) 0 () xs = ([], ys)" "w = JArr ys"
    by (auto simp: validateFilters_def split: prod.splits)
  then show ?thesis using check_each_all[OF ys(1), of filter_ok] check_filter_ok by blast
qed

lemma sanitizeFilters_ok: "sanitizeFilters v p = ([], fs) \<Longrightarrow> filter_list_ok fs"
proof -
  assume a: "sanitizeFilters v p = ([], fs)"
  show ?thesis
  proof (cases "present v")
    case True
    then obtain w where v: "v = Some w" by (auto simp: present_def)
    have "is_array w" using a v True by (cases w) (simp_all add: sanitizeFilters_def)
    then obtain xs where xs: "v = Some (JArr xs)" using v by (cases w) auto
    let ?pre = "take (length p - length ''filters'') p"
    obtain es w where w: "validateFilters (JArr xs) (?pre @ ''filters'') = (es, w)" by fastforce
    have "es = []" "length xs \<le> 20" "fs = elems (Some w)"
      using a True w unfolding xs sanitizeFilters_def only_filters by (auto simp: Let_def fail_if_Nil_iff split: if_splits)
    then show ?thesis using validateFilters_length[of xs "?pre @ ''filters''" w] w by (auto simp: filter_list_ok_def)
  next
    case False
    then show ?thesis using a by (simp add: sanitizeFilters_def filter_list_ok_def)
  qed
qed

lemma sanitizeFilters_id: "filter_list_ok fs \<Longrightarrow> sanitizeFilters (Some (JArr fs)) p = ([], fs)"
proof -
  assume a: "filter_list_ok fs"
  then have "validateFilters (JArr fs) q = ([], JArr fs)" for q
    by (intro validateFilters_id) (auto simp: filters_ok_def filter_list_ok_def)
  then show ?thesis using a unfolding sanitizeFilters_def only_filters by (simp add: present_def fail_if_def filter_list_ok_def Let_def)
qed

lemma sanitizeAggregation_ok:
  assumes "sanitizeAggregation nt agg fd p ratio = ([], (a, f))"
  shows "agg_ok (if ratio then METRIC_KINDS else METRIC_AGGREGATIONS) (aggregation_text a) f \<and> a = Some (JStr (aggregation_text a))"
proof -
  let ?kinds = "if ratio then METRIC_KINDS else METRIC_AGGREGATIONS"
  have "string_in agg ?kinds" using assms unfolding sanitizeAggregation_def Let_def by (metis Pair_inject list.distinct(1))
  then obtain s where s: "agg = Some (JStr s)" "s \<in> set ?kinds" by (auto simp: string_in_iff)
  then have in_kinds: "string_in (Some (JStr s)) ?kinds" by (auto simp: string_in_iff)
  consider "s = ''ratio''" | "s = ''count''" | "s \<noteq> ''ratio''" "s \<noteq> ''count''" by blast
  then show ?thesis
  proof cases
    case 3
    have g: "given fd" using assms s(1) in_kinds 3 unfolding sanitizeAggregation_def Let_def by (auto split: if_splits)
    then have "isSafeName fd" using assms s(1) in_kinds 3 unfolding sanitizeAggregation_def Let_def by (auto simp: fail_if_def split: if_splits)
    then obtain x where "fd = Some (JStr x)" "safe_text x" by (auto simp: isSafeName_iff)
    then show ?thesis using assms s in_kinds 3 g unfolding sanitizeAggregation_def Let_def
      by (auto simp: agg_ok_def aggregation_text_def fail_if_def split: if_splits)
  qed (use assms s in_kinds in \<open>auto simp: sanitizeAggregation_def Let_def agg_ok_def aggregation_text_def split: if_splits\<close>)
qed

lemma sanitizeAggregation_id:
  assumes "agg_ok (if ratio then METRIC_KINDS else METRIC_AGGREGATIONS) a f"
  shows "sanitizeAggregation nt (Some (JStr a)) (Some (text_json f)) p ratio = ([], (Some (JStr a), f))"
proof -
  have "string_in (Some (JStr a)) (if ratio then METRIC_KINDS else METRIC_AGGREGATIONS)" using assms by (auto simp: string_in_iff agg_ok_def)
  then show ?thesis using assms unfolding sanitizeAggregation_def Let_def agg_ok_def
    by (auto simp: text_json_def fail_if_def isSafeName_iff given_def safe_text_def split: if_splits)
qed

lemma sanitizePart_ok: "sanitizePart nt v p = ([], r) \<Longrightarrow> \<exists>q. r = Some q \<and> ratio_part_ok q"
proof -
  assume a: "sanitizePart nt v p = ([], r)"
  then obtain ps where v: "v = Some (JObj ps)"
    unfolding sanitizePart_def by (cases v) (auto split: json.splits)
  obtain e1 g f where e1: "sanitizeAggregation nt (get_prop ''aggregation'' (JObj ps)) (get_prop ''field'' (JObj ps)) (p @ ''.'') False = (e1, (g, f))"
    by (metis prod.collapse)
  obtain e2 fs where e2: "sanitizeFilters (get_prop ''filters'' (JObj ps)) (p @ ''.filters'') = (e2, fs)" by fastforce
  have "e1 = []" "e2 = []" "r = Some \<lparr>pt_aggregation = aggregation_text g, pt_field = f, pt_filters = fs\<rparr>"
    using a unfolding v sanitizePart_def option.case json.case Let_def e1 e2 prod.case by simp_all
  then show ?thesis using sanitizeAggregation_ok[of nt _ _ _ False g f] sanitizeFilters_ok e1 e2 by (auto simp: ratio_part_ok_def)
qed

lemma sanitizePart_id: "ratio_part_ok q \<Longrightarrow> sanitizePart nt (Some (part_json (Some q))) p = ([], Some q)"
proof -
  assume a: "ratio_part_ok q"
  have agg: "sanitizeAggregation nt (Some (JStr (pt_aggregation q))) (Some (text_json (pt_field q))) r False = ([], (Some (JStr (pt_aggregation q)), pt_field q))" for r
    using a by (intro sanitizeAggregation_id) (simp add: ratio_part_ok_def)
  have fs: "sanitizeFilters (Some (JArr (pt_filters q))) r = ([], pt_filters q)" for r
    using a by (intro sanitizeFilters_id) (simp add: ratio_part_ok_def)
  have "part_json (Some q) = JObj [(''aggregation'', JStr (pt_aggregation q)), (''field'', text_json (pt_field q)), (''filters'', JArr (pt_filters q))]"
    by (simp add: part_json_def text_json_def)
  then show ?thesis by (simp add: sanitizePart_def agg fs PART_KEYS_def fail_if_def aggregation_text_def)
qed

lemma optionalText_ok: "optionalText v p n = ([], r) \<Longrightarrow> opt_text_ok n r"
  unfolding optionalText_def opt_text_ok_def by (auto simp: fail_if_def split: if_splits option.splits)

lemma optionalText_id: "opt_text_ok n r \<Longrightarrow> optionalText (Some (text_json r)) p n = ([], r)"
  by (auto simp: optionalText_def opt_text_ok_def text_json_def present_def fail_if_def split: option.splits)

lemma choice_ok: "choice v d ss p = ([], s) \<Longrightarrow> d \<in> set ss \<Longrightarrow> s \<in> set ss"
  by (auto simp: choice_def fail_if_def string_in_iff aggregation_text_def split: if_splits)

lemma choice_id: "s \<in> set ss \<Longrightarrow> choice (Some (JStr s)) d ss p = ([], s)"
  by (auto simp: choice_def fail_if_def string_in_iff aggregation_text_def present_def)

lemma sanitizeDefinition_parts:
  assumes "sanitizeDefinition nt input = Inr b"
  shows "body_ok b \<and> mb_key b = (case str_of (get_prop ''key'' input) of Some s \<Rightarrow> trim s | None \<Rightarrow> [])"
proof -
  let ?g = "\<lambda>k. get_prop k input"
  have "is_object input" using assms by (auto simp: sanitizeDefinition_def split: if_splits)
  then obtain ps where input: "input = JObj ps" by (cases input) auto
  obtain e3 d where e3: "optionalText (?g ''description'') ''description'' 1000 = (e3, d)" by fastforce
  obtain e5 a f where e5: "sanitizeAggregation nt (?g ''aggregation'') (?g ''field'') [] True = (e5, (a, f))" by (metis prod.collapse)
  obtain e6 fs where e6: "sanitizeFilters (?g ''filters'') ''filters'' = (e6, fs)" by fastforce
  obtain e7 u where e7: "optionalText (?g ''unit'') ''unit'' 32 = (e7, u)" by fastforce
  obtain e8 n where e8: "(if a = Some (JStr ''ratio'') then sanitizePart nt (?g ''numerator'') ''numerator''
      else (fail_if (present (?g ''numerator'')) ''numerator'' Unknown_field, None)) = (e8, n)" by fastforce
  obtain e9 m where e9: "(if a = Some (JStr ''ratio'') then sanitizePart nt (?g ''denominator'') ''denominator''
      else (fail_if (present (?g ''denominator'')) ''denominator'' Unknown_field, None)) = (e9, m)" by fastforce
  obtain e10 fmt where e10: "choice (?g ''format'') (if a = Some (JStr ''ratio'') \<and> ?g ''format'' = None then ''percent'' else ''number'')
      METRIC_FORMATS ''format'' = (e10, fmt)" by fastforce
  obtain e11 dir where e11: "choice (?g ''direction'') ''higher_is_better'' METRIC_DIRECTIONS ''direction'' = (e11, dir)" by fastforce
  define e0 where "e0 = concat (map (\<lambda>k. fail_if (k \<notin> set DEFINITION_FIELDS) k Unknown_field) (map fst ps))"
  define key where "key = (case str_of (?g ''key'') of Some s \<Rightarrow> trim s | None \<Rightarrow> [])"
  define label where "label = (case str_of (?g ''label'') of Some s \<Rightarrow> trim s | None \<Rightarrow> [])"
  define id where "id = (if present (?g ''connectorId'') then js_text nt (the (?g ''connectorId'')) else [])"
  define ow where "ow = (if given (?g ''owner'') then Some (take 64 (js_text nt (the (?g ''owner'')))) else None)"
  define e1 where "e1 = fail_if (\<not> METRIC_KEY_PATTERN key) ''key'' Bad_name"
  define e2 where "e2 = (if label = [] then [(''label'', Field_required)] else fail_if (120 < length label) ''label'' Too_many)"
  define e4 where "e4 = fail_if (\<not> OBJECT_ID_RE id) ''connectorId'' Bad_dataset_id"
  have keys: "(case input of JObj ps \<Rightarrow> map fst ps | _ \<Rightarrow> []) = map fst ps" by (simp add: input)
  have obj: "\<not> is_object input \<longleftrightarrow> False" by (simp add: input)
  have parts: "(if e0 @ e1 @ e2 @ e3 @ e4 @ e5 @ e6 @ e7 @ e8 @ e9 @ e10 @ e11 \<noteq> [] then Inl (Metric_invalid (e0 @ e1 @ e2 @ e3 @ e4 @ e5 @ e6 @ e7 @ e8 @ e9 @ e10 @ e11))
      else Inr \<lparr>mb_key = key, mb_label = label, mb_description = (case d of None \<Rightarrow> [] | Some s \<Rightarrow> s), mb_connectorId = id,
        mb_aggregation = aggregation_text a, mb_field = f, mb_numerator = n, mb_denominator = m, mb_filters = fs, mb_unit = u,
        mb_format = fmt, mb_direction = dir, mb_owner = ow\<rparr>) = Inr b"
    using assms unfolding sanitizeDefinition_def Let_def keys obj e3 e5 e6 e7 prod.case e8 e9 e10 e11
      key_def[symmetric] label_def[symmetric] id_def[symmetric] ow_def[symmetric] e0_def[symmetric] e1_def[symmetric] e2_def[symmetric] e4_def[symmetric]
      if_False .
  then have nil: "e0 @ e1 @ e2 @ e3 @ e4 @ e5 @ e6 @ e7 @ e8 @ e9 @ e10 @ e11 = []" by (metis sum.distinct(1))
  then have none: "e3 = []" "e5 = []" "e6 = []" "e7 = []" "e8 = []" "e9 = []" "e10 = []" "e11 = []"
      "METRIC_KEY_PATTERN key" "label \<noteq> []" "length label \<le> 120" "OBJECT_ID_RE id"
    by (simp_all add: e1_def e2_def e4_def fail_if_Nil_iff split: if_splits)
  have "b = \<lparr>mb_key = key, mb_label = label, mb_description = (case d of None \<Rightarrow> [] | Some s \<Rightarrow> s), mb_connectorId = id,
        mb_aggregation = aggregation_text a, mb_field = f, mb_numerator = n, mb_denominator = m, mb_filters = fs, mb_unit = u,
        mb_format = fmt, mb_direction = dir, mb_owner = ow\<rparr>"
    using parts unfolding nil by simp
  then have b: "mb_key b = key" "mb_label b = label" "mb_description b = (case d of None \<Rightarrow> [] | Some s \<Rightarrow> s)" "mb_connectorId b = id"
      "mb_aggregation b = aggregation_text a" "mb_field b = f" "mb_numerator b = n" "mb_denominator b = m" "mb_filters b = fs"
      "mb_unit b = u" "mb_format b = fmt" "mb_direction b = dir" "mb_owner b = ow" by simp_all
  have agg: "agg_ok METRIC_KINDS (aggregation_text a) f" "a = Some (JStr (aggregation_text a))"
    using sanitizeAggregation_ok[of nt _ _ _ True a f] e5 none(2) by auto
  have ratio: "a = Some (JStr ''ratio'') \<longleftrightarrow> mb_aggregation b = ''ratio''" using agg(2) b(5) by (metis json.inject(3) option.inject)
  have sides: "if mb_aggregation b = ''ratio'' then (\<exists>p q. n = Some p \<and> m = Some q \<and> ratio_part_ok p \<and> ratio_part_ok q) else n = None \<and> m = None"
  proof (cases "mb_aggregation b = ''ratio''")
    case True
    then have s: "sanitizePart nt (?g ''numerator'') ''numerator'' = ([], n)" "sanitizePart nt (?g ''denominator'') ''denominator'' = ([], m)"
      using e8 e9 none(5,6) unfolding ratio by simp_all
    show ?thesis using sanitizePart_ok[OF s(1)] sanitizePart_ok[OF s(2)] True by auto
  qed (use e8 e9 ratio in auto)
  have desc: "trim (mb_description b) = mb_description b \<and> length (mb_description b) \<le> 1000"
    using optionalText_ok[of _ _ 1000 d] e3 none(1) unfolding b by (auto simp: opt_text_ok_def trim_def split: option.splits)
  have fd: "fmt \<in> set METRIC_FORMATS" "dir \<in> set METRIC_DIRECTIONS"
    using choice_ok[of _ _ METRIC_FORMATS _ fmt] choice_ok[of _ _ METRIC_DIRECTIONS _ dir] e10 e11 none(7,8)
    by (auto simp: METRIC_FORMATS_def METRIC_DIRECTIONS_def)
  have "trim label = label" by (auto simp: label_def trim_def[of "[]"] split: option.splits)
  moreover have "\<forall>s. ow = Some s \<longrightarrow> length s \<le> 64" by (auto simp: ow_def)
  ultimately have "body_ok b"
    using none(9-12) desc agg(1) fd sanitizeFilters_ok[of _ _ fs] e6 none(3) optionalText_ok[of _ _ 32 u] e7 none(4) sides
    unfolding body_ok_def b by auto
  then show ?thesis using b(1) key_def by simp
qed

lemma sanitizeDefinition_ok: "sanitizeDefinition nt input = Inr b \<Longrightarrow> body_ok b"
  using sanitizeDefinition_parts by blast

lemma trim_no_key: "METRIC_KEY_PATTERN k \<Longrightarrow> trim k = k"
proof (rule trim_no_space)
  assume "METRIC_KEY_PATTERN k"
  then show "\<forall>c\<in>set k. \<not> is_space c"
    by (auto simp: METRIC_KEY_PATTERN_def list_all_iff is_lower_def is_digit_def is_space_def code_def)
qed

lemma sanitizeDefinition_id:
  assumes "body_ok b" "mb_owner b \<noteq> Some []"
  shows "sanitizeDefinition nt (JObj (body_props b)) = Inr b"
proof -
  have agg: "sanitizeAggregation nt (Some (JStr (mb_aggregation b))) (Some (text_json (mb_field b))) [] True
      = ([], (Some (JStr (mb_aggregation b)), mb_field b))"
    using assms(1) by (intro sanitizeAggregation_id) (simp add: body_ok_def)
  have fs: "sanitizeFilters (Some (JArr (mb_filters b))) ''filters'' = ([], mb_filters b)"
    using assms(1) by (intro sanitizeFilters_id) (simp add: body_ok_def)
  have unit: "optionalText (Some (text_json (mb_unit b))) ''unit'' 32 = ([], mb_unit b)"
    using assms(1) by (intro optionalText_id) (simp add: body_ok_def)
  have desc: "optionalText (Some (JStr (mb_description b))) ''description'' 1000 = ([], if mb_description b = [] then None else Some (mb_description b))"
    using assms(1) by (simp add: optionalText_def present_def fail_if_def body_ok_def)
  have owner: "(if given (Some (text_json (mb_owner b))) then Some (take 64 (js_text nt (text_json (mb_owner b)))) else None) = mb_owner b"
    using assms by (auto simp: given_def text_json_def body_ok_def split: option.splits)
  have sides: "(if mb_aggregation b = ''ratio'' then sanitizePart nt (Some (part_json (mb_numerator b))) p
        else (fail_if (present (Some (part_json (mb_numerator b)))) p Unknown_field, None)) = ([], mb_numerator b)"
      "(if mb_aggregation b = ''ratio'' then sanitizePart nt (Some (part_json (mb_denominator b))) p
        else (fail_if (present (Some (part_json (mb_denominator b)))) p Unknown_field, None)) = ([], mb_denominator b)" for p
    using assms(1) sanitizePart_id unfolding body_ok_def by (auto simp: part_json_def present_def fail_if_def split: if_splits)
  have known: "concat (map (\<lambda>k. fail_if (k \<notin> set DEFINITION_FIELDS) k Unknown_field) (map fst (body_props b))) = []"
    by (simp add: body_props_def DEFINITION_FIELDS_def fail_if_def)
  have ch: "choice (Some (JStr (mb_format b))) d METRIC_FORMATS p = ([], mb_format b)"
      "choice (Some (JStr (mb_direction b))) d METRIC_DIRECTIONS p = ([], mb_direction b)" for d p
    using assms(1) by (intro choice_id; simp add: body_ok_def)+
  have b: "METRIC_KEY_PATTERN (mb_key b)" "trim (mb_key b) = mb_key b" "mb_label b \<noteq> []" "trim (mb_label b) = mb_label b"
      "length (mb_label b) \<le> 120" "OBJECT_ID_RE (mb_connectorId b)"
    using assms(1) trim_no_key by (simp_all add: body_ok_def)
  have pres: "present (Some (JStr s))" for s by (simp add: present_def)
  have no_problem: "fail_if False p e = []" "fail_if (120 < length (mb_label b)) p e = []" for p e
    using assms(1) by (simp_all add: fail_if_def body_ok_def)
  have g: "get_prop ''key'' (JObj (body_props b)) = Some (JStr (mb_key b))" "get_prop ''label'' (JObj (body_props b)) = Some (JStr (mb_label b))"
      "get_prop ''description'' (JObj (body_props b)) = Some (JStr (mb_description b))"
      "get_prop ''connectorId'' (JObj (body_props b)) = Some (JStr (mb_connectorId b))"
      "get_prop ''aggregation'' (JObj (body_props b)) = Some (JStr (mb_aggregation b))"
      "get_prop ''field'' (JObj (body_props b)) = Some (text_json (mb_field b))"
      "get_prop ''numerator'' (JObj (body_props b)) = Some (part_json (mb_numerator b))"
      "get_prop ''denominator'' (JObj (body_props b)) = Some (part_json (mb_denominator b))"
      "get_prop ''filters'' (JObj (body_props b)) = Some (JArr (mb_filters b))" "get_prop ''unit'' (JObj (body_props b)) = Some (text_json (mb_unit b))"
      "get_prop ''format'' (JObj (body_props b)) = Some (JStr (mb_format b))" "get_prop ''direction'' (JObj (body_props b)) = Some (JStr (mb_direction b))"
      "get_prop ''owner'' (JObj (body_props b)) = Some (text_json (mb_owner b))"
    by (simp_all add: body_props_def)
  have "sanitizeDefinition nt (JObj (body_props b)) =
      Inr \<lparr>mb_key = mb_key b, mb_label = mb_label b, mb_description = mb_description b, mb_connectorId = mb_connectorId b,
        mb_aggregation = mb_aggregation b, mb_field = mb_field b, mb_numerator = mb_numerator b, mb_denominator = mb_denominator b,
        mb_filters = mb_filters b, mb_unit = mb_unit b, mb_format = mb_format b, mb_direction = mb_direction b, mb_owner = mb_owner b\<rparr>"
    unfolding sanitizeDefinition_def Let_def g known json.case option.sel
    by (simp only: agg fs unit desc owner sides ch b pres known prod.case is_object.simps option.inject json.inject str_of.simps option.case
        js_text.simps if_True if_False no_problem simp_thms append_Nil aggregation_text_def) simp
  then show ?thesis by simp
qed

section \<open>The catalogue over time\<close>

text \<open>
  Requests interleave at database calls: an update reads in one step and inserts in another, so the
  world keeps the prepared insertions besides the collection.
\<close>

record metric_world =
  mw_store :: metric_store
  mw_pending :: "(string \<times> string option \<times> metric_body \<times> nat) list"

inductive mstep :: "(rat \<Rightarrow> string) \<Rightarrow> (string \<Rightarrow> string \<Rightarrow> bool) \<Rightarrow> metric_world \<Rightarrow> metric_world \<Rightarrow> bool"
  for nt :: "rat \<Rightarrow> string" and owned :: "string \<Rightarrow> string \<Rightarrow> bool" where
  created: "metric_create nt owned (mw_store w) t actor input = Inr st \<Longrightarrow> mstep nt owned w (w\<lparr>mw_store := st\<rparr>)"
| update_read: "update_prepare nt owned (mw_store w) t key patch = Inr (b, v) \<Longrightarrow>
    mstep nt owned w (w\<lparr>mw_pending := (t, actor, b, v) # mw_pending w\<rparr>)"
| update_insert: "(t, actor, b, v) \<in> set (mw_pending w) \<Longrightarrow> update_commit (mw_store w) t actor (b, v) = Inr st \<Longrightarrow>
    mstep nt owned w (w\<lparr>mw_store := st, mw_pending := remove1 (t, actor, b, v) (mw_pending w)\<rparr>)"
| approved: "metric_approve (mw_store w) t key n actor now = Inr st \<Longrightarrow> mstep nt owned w (w\<lparr>mw_store := st\<rparr>)"
| archived: "metric_archive (mw_store w) t key actor now = Inr (st, k) \<Longrightarrow> mstep nt owned w (w\<lparr>mw_store := st\<rparr>)"

inductive_cases mstepE: "mstep nt owned w w'"

fun status_rank :: "metric_status \<Rightarrow> nat" where
  "status_rank Draft = 0"
| "status_rank Approved = 1"
| "status_rank Archived = 2"

text \<open>One version later in its life: nothing but the status and its stamps has changed.\<close>

definition later_version :: "metric_version \<Rightarrow> metric_version \<Rightarrow> bool" where
  "later_version d e \<longleftrightarrow> mv_tenantId e = mv_tenantId d \<and> mv_version e = mv_version d \<and> mv_body e = mv_body d
     \<and> mv_createdBy e = mv_createdBy d \<and> status_rank (mv_status d) \<le> status_rank (mv_status e)"

definition version_id :: "metric_version \<Rightarrow> string \<times> string \<times> nat" where
  "version_id d = (mv_tenantId d, mb_key (mv_body d), mv_version d)"

definition store_ok :: "metric_store \<Rightarrow> bool" where
  "store_ok st \<longleftrightarrow> distinct (map version_id st) \<and> (\<forall>d\<in>set st. body_ok (mv_body d))"

definition world_ok :: "metric_world \<Rightarrow> bool" where
  "world_ok w \<longleftrightarrow> store_ok (mw_store w) \<and> (\<forall>p\<in>set (mw_pending w). body_ok (fst (snd (snd p))))"

lemma later_refl [simp]: "later_version d d"
  by (simp add: later_version_def)

lemma later_trans: "later_version a b \<Longrightarrow> later_version b c \<Longrightarrow> later_version a c"
  by (auto simp: later_version_def)

lemma later_id: "later_version d e \<Longrightarrow> version_id e = version_id d"
  by (simp add: later_version_def version_id_def)

lemma of_key_mem: "d \<in> set (of_key st t k) \<longleftrightarrow> d \<in> set st \<and> mv_tenantId d = t \<and> mb_key (mv_body d) = k"
  by (auto simp: of_key_def)

lemma findVersion_Some: "findVersion st t k v = Some d \<Longrightarrow> d \<in> set st \<and> version_id d = (t, k, v)"
  unfolding findVersion_def version_id_def using of_key_mem[of d st t k] by (auto simp: find_Some_iff dest: nth_mem)

lemma findVersion_None: "findVersion st t k v = None \<longleftrightarrow> (t, k, v) \<notin> version_id ` set st"
  by (auto simp: findVersion_def find_None_iff of_key_mem version_id_def)

lemma findLatest_Some: "findLatest st t k s = Some d \<Longrightarrow>
    d \<in> set st \<and> mv_tenantId d = t \<and> mb_key (mv_body d) = k \<and> (s = None \<or> s = Some (mv_status d))"
proof -
  assume "findLatest st t k s = Some d"
  then have "d \<in> set (listVersions st t k)" "s = None \<or> s = Some (mv_status d)" unfolding findLatest_def by (auto simp: find_Some_iff)
  then show ?thesis by (auto simp: listVersions_def of_key_mem)
qed

definition lower_id :: "metric_version \<Rightarrow> metric_version" where
  "lower_id d = d\<lparr>mv_body := (mv_body d)\<lparr>mb_connectorId := to_lower (mb_connectorId (mv_body d))\<rparr>\<rparr>"

lemma repo_create_Inr: "repo_create st d = Inr st' \<longleftrightarrow> version_id d \<notin> version_id ` set st \<and> st' = st @ [lower_id d]"
  using findVersion_None[of st "mv_tenantId d" "mb_key (mv_body d)" "mv_version d"]
  by (auto simp: repo_create_def lower_id_def version_id_def)

lemma body_ok_lower: "body_ok b \<Longrightarrow> body_ok (b\<lparr>mb_connectorId := to_lower (mb_connectorId b)\<rparr>)"
proof -
  have hex: "hex_digit c \<noteq> None \<Longrightarrow> hex_digit (lower_char c) \<noteq> None" for c
    using code_lower_char[of c] by (auto simp: hex_digit_def is_digit_def is_upper_def split: if_splits)
  then have "OBJECT_ID_RE s \<Longrightarrow> OBJECT_ID_RE (to_lower s)" for s by (auto simp: OBJECT_ID_RE_def to_lower_def list_all_iff)
  then show "body_ok b \<Longrightarrow> ?thesis" by (auto simp: body_ok_def)
qed

lemma store_ok_add: "store_ok st \<Longrightarrow> body_ok (mv_body d) \<Longrightarrow> repo_create st d = Inr st' \<Longrightarrow> store_ok st'"
  using body_ok_lower[of "mv_body d"] by (auto simp: store_ok_def repo_create_Inr lower_id_def version_id_def)

lemma store_ok_map: "store_ok st \<Longrightarrow> (\<And>d. later_version d (f d)) \<Longrightarrow> store_ok (map f st)"
proof -
  assume s: "store_ok st" and f: "\<And>d. later_version d (f d)"
  have "map version_id (map f st) = map version_id st" using later_id[OF f] by simp
  then have "distinct (map version_id (map f st))" using s by (simp only: store_ok_def)
  moreover have "mv_body (f d) = mv_body d" for d using f[of d] by (simp add: later_version_def)
  ultimately show ?thesis using s unfolding store_ok_def by auto
qed

definition advance :: "(metric_version \<Rightarrow> metric_version) \<Rightarrow> bool" where
  "advance f \<longleftrightarrow> (\<forall>d. later_version d (f d))"

text \<open>Every step adds one valid version or moves versions on in their lives.\<close>

lemma mstep_cases:
  assumes "mstep nt owned w w'" "world_ok w"
  shows "(\<exists>d. body_ok (mv_body d) \<and> repo_create (mw_store w) d = Inr (mw_store w')) \<or> (\<exists>f. advance f \<and> mw_store w' = map f (mw_store w))"
  using assms(1)
proof cases
  case (created t actor input st)
  then show ?thesis using sanitizeDefinition_ok
    by (auto simp: metric_create_def new_version_def split: if_splits sum.splits)
next
  case (update_read t key patch b v actor)
  then show ?thesis by (intro disjI2 exI[of _ id]) (simp add: advance_def)
next
  case (update_insert t actor b v st)
  then have "body_ok b" using assms(2) by (auto simp: world_ok_def)
  then show ?thesis using update_insert
    by (auto simp: update_commit_def new_version_def split: sum.splits)
next
  case (approved t key n actor now st)
  let ?f = "\<lambda>d. if mv_tenantId d = t \<and> mb_key (mv_body d) = key \<and> mv_version d = nat n \<and> mv_status d = Draft
      then d\<lparr>mv_status := Approved, mv_approvedBy := actor, mv_approvedAt := Some now\<rparr> else d"
  have "advance ?f" by (simp add: advance_def later_version_def)
  moreover have "mw_store w' = map ?f (mw_store w)"
    using approved by (auto simp: metric_approve_def setStatus_def split: if_splits option.splits)
  ultimately show ?thesis by blast
next
  case (archived t key actor now st k)
  let ?f = "\<lambda>d. if mv_tenantId d = t \<and> mb_key (mv_body d) = key \<and> mv_status d \<noteq> Archived
      then d\<lparr>mv_status := Archived, mv_archivedBy := actor, mv_archivedAt := Some now\<rparr> else d"
  have "status_rank s \<le> 2" for s by (cases s) simp_all
  then have "advance ?f" by (simp add: advance_def later_version_def)
  moreover have "mw_store w' = map ?f (mw_store w)"
    using archived by (auto simp: metric_archive_def archiveKey_def split: if_splits option.splits)
  ultimately show ?thesis by blast
qed

inductive mreach :: "(rat \<Rightarrow> string) \<Rightarrow> (string \<Rightarrow> string \<Rightarrow> bool) \<Rightarrow> metric_world \<Rightarrow> metric_world \<Rightarrow> bool"
  for nt :: "rat \<Rightarrow> string" and owned :: "string \<Rightarrow> string \<Rightarrow> bool" where
  start: "mreach nt owned w w"
| step: "mreach nt owned w w' \<Longrightarrow> mstep nt owned w' w'' \<Longrightarrow> mreach nt owned w w''"

lemma update_prepare_ok: "update_prepare nt owned st t key patch = Inr (b, v) \<Longrightarrow> body_ok b"
  unfolding update_prepare_def by (auto simp: sanitizeDefinition_ok split: if_splits option.splits json.splits list.splits)

lemma mstep_world_ok [invs]: "mstep nt owned w w' \<Longrightarrow> world_ok w \<Longrightarrow> world_ok w'"
proof -
  assume s: "mstep nt owned w w'" and w: "world_ok w"
  have "store_ok (mw_store w')"
    using mstep_cases[OF s w] store_ok_add store_ok_map w unfolding world_ok_def advance_def by metis
  moreover have "\<forall>p\<in>set (mw_pending w'). body_ok (fst (snd (snd p)))"
    using s
  proof cases
    case (update_read t key patch b v actor)
    then show ?thesis using w update_prepare_ok by (auto simp: world_ok_def)
  next
    case (update_insert t actor b v st)
    then show ?thesis using w set_remove1_subset[of "(t, actor, b, v)" "mw_pending w"] by (auto simp: world_ok_def)
  qed (use w in \<open>auto simp: world_ok_def\<close>)
  ultimately show ?thesis by (simp add: world_ok_def)
qed

lemma mstep_later:
  assumes "mstep nt owned w w'" "world_ok w" "d \<in> set (mw_store w)"
  shows "\<exists>e\<in>set (mw_store w'). later_version d e"
  using mstep_cases[OF assms(1,2)]
proof
  assume "\<exists>x. body_ok (mv_body x) \<and> repo_create (mw_store w) x = Inr (mw_store w')"
  then have "d \<in> set (mw_store w')" using assms(3) by (auto simp: repo_create_Inr)
  then show ?thesis by (rule bexI[rotated]) simp
qed (use assms(3) in \<open>auto simp: advance_def\<close>)

lemma mreach_later:
  assumes "mreach nt owned w w'" "world_ok w"
  shows "world_ok w' \<and> (\<forall>d\<in>set (mw_store w). \<exists>e\<in>set (mw_store w'). later_version d e)"
  using assms
proof induction
  case (step w w' w'')
  then show ?case using mstep_world_ok mstep_later later_trans by metis
next
  case (start w)
  then show ?case using later_refl by blast
qed

lemma same_id: "store_ok st \<Longrightarrow> d \<in> set st \<Longrightarrow> e \<in> set st \<Longrightarrow> version_id d = version_id e \<Longrightarrow> d = e"
  by (auto simp: store_ok_def distinct_map inj_on_def)

lemma resolve_pinned: "resolveMetricRef st dr t r = Some d \<Longrightarrow> ref_version r = Some v \<Longrightarrow>
    \<exists>k. METRIC_REF_RE r = Some k \<and> d \<in> set st \<and> version_id d = (t, k, v)"
  by (auto simp: resolveMetricRef_def dest!: findVersion_Some split: if_splits option.splits)

text \<open> C5.
  Versions are immutable. Whatever requests run, in whatever interleaving of their database calls, every
  stored version keeps its tenant, number, definition and author; only its status moves, and only forward
  (draft, approved, archived); versions stay unique and every stored definition stays valid.\<close>
theorem metric_versions_immutable:
  assumes "world_ok w" and "mreach nt owned w w'" and "d \<in> set (mw_store w)"
  shows "world_ok w' \<and> (\<exists>e\<in>set (mw_store w'). later_version d e \<and> (\<forall>x\<in>set (mw_store w'). version_id x = version_id d \<longrightarrow> x = e))"
proof -
  obtain e where e: "e \<in> set (mw_store w')" "later_version d e" using mreach_later[OF assms(2,1)] assms(3) by blast
  have w': "world_ok w'" using mreach_later[OF assms(2,1)] by blast
  then have "x = e" if "x \<in> set (mw_store w')" "version_id x = version_id d" for x
    using same_id[of "mw_store w'" x e] later_id[OF e(2)] that e(1) by (simp add: world_ok_def)
  then show ?thesis using e w' by blast
qed

text \<open> C30.
  Pinned references. Whenever a reference that names a version resolves, now or after any requests, it
  resolves to the same definition: a saved query never changes its meaning, it can only stop resolving.\<close>
theorem pinned_reference_stable:
  assumes "world_ok w" and "mreach nt owned w w'" and "ref_version r = Some v"
    and "resolveMetricRef (mw_store w) x t r = Some d" and "resolveMetricRef (mw_store w') y t r = Some e"
  shows "mv_body e = mv_body d \<and> mv_version e = v \<and> mv_version d = v \<and> mv_tenantId e = t"
proof -
  obtain k where k: "METRIC_REF_RE r = Some k" "d \<in> set (mw_store w)" "version_id d = (t, k, v)"
    using resolve_pinned[OF assms(4,3)] by blast
  have e: "e \<in> set (mw_store w')" "version_id e = (t, k, v)" using resolve_pinned[OF assms(5,3)] k(1) by auto
  obtain f where f: "f \<in> set (mw_store w')" "later_version d f" and w': "world_ok w'"
    using mreach_later[OF assms(2,1)] k(2) by blast
  have "e = f" using same_id[of "mw_store w'" e f] later_id[OF f(2)] e f k(3) w' by (simp add: world_ok_def)
  then show ?thesis using f(2) k(3) e by (simp add: later_version_def version_id_def)
qed

section \<open>Archiving\<close>

definition retired :: "metric_world \<Rightarrow> string \<Rightarrow> string \<Rightarrow> bool" where
  "retired w t k \<longleftrightarrow> of_key (mw_store w) t k \<noteq> [] \<and> (\<forall>d\<in>set (of_key (mw_store w) t k). mv_status d = Archived)
     \<and> (\<forall>(u, actor, b, v)\<in>set (mw_pending w). \<not> (u = t \<and> mb_key b = k))"

lemma sanitized_key:
  assumes "sanitizeDefinition nt input = Inr b" and "get_prop ''key'' input = Some (JStr s)"
  shows "mb_key b = trim s"
  using sanitizeDefinition_parts[OF assms(1)] assms(2) by simp

lemma update_prepare_key:
  "update_prepare nt owned st t key patch = Inr (b, v) \<Longrightarrow> mb_key b = trim key \<and> (\<exists>d. findLatest st t key None = Some d \<and> mv_status d \<noteq> Archived)"
  unfolding update_prepare_def by (auto dest!: sanitized_key split: if_splits option.splits json.splits list.splits)

lemma of_key_add: "of_key (st @ [d]) t k = of_key st t k @ (if mv_tenantId d = t \<and> mb_key (mv_body d) = k then [d] else [])"
  by (simp add: of_key_def)

lemma of_key_map: "advance f \<Longrightarrow> of_key (map f st) t k = map f (of_key st t k)"
  by (induction st) (auto simp: of_key_def advance_def later_version_def)

lemma findLatest_None: "findLatest st t k None = None \<longleftrightarrow> of_key st t k = []"
  by (auto simp: findLatest_def find_None_iff listVersions_def)

lemma later_archived: "later_version d e \<Longrightarrow> mv_status d = Archived \<Longrightarrow> mv_status e = Archived"
  by (cases "mv_status e") (auto simp: later_version_def)

lemma metric_create_adds:
  "metric_create nt owned st t actor input = Inr st' \<Longrightarrow>
     \<exists>d. repo_create st d = Inr st' \<and> body_ok (mv_body d) \<and> of_key st (mv_tenantId d) (mb_key (mv_body d)) = []"
  by (auto simp: metric_create_def new_version_def findLatest_None sanitizeDefinition_ok split: if_splits sum.splits)

lemma retired_step:
  assumes "mstep nt owned w w'" "world_ok w" "retired w t k"
  shows "retired w' t k"
proof (cases "\<exists>f. advance f \<and> mw_store w' = map f (mw_store w) \<and> mw_pending w' = mw_pending w")
  case True
  then obtain f where f: "advance f" "mw_store w' = map f (mw_store w)" "mw_pending w' = mw_pending w" by blast
  then have "mv_status (f d) = Archived" if "mv_status d = Archived" for d
    using later_archived[of d "f d"] that by (simp add: advance_def)
  then show ?thesis using assms(3) f by (auto simp: retired_def of_key_map)
next
  case False
  from assms(1) show ?thesis
  proof cases
    case (created u actor input st)
    obtain d where d: "repo_create (mw_store w) d = Inr st" "of_key (mw_store w) (mv_tenantId d) (mb_key (mv_body d)) = []"
      using metric_create_adds created(2) by blast
    then have "\<not> (mv_tenantId d = t \<and> mb_key (mv_body d) = k)" using assms(3) by (auto simp: retired_def)
    then show ?thesis using assms(3) d(1) created(1) by (auto simp: retired_def repo_create_Inr of_key_add lower_id_def)
  next
    case (update_read u key patch b v actor)
    obtain d where d: "findLatest (mw_store w) u key None = Some d" "mv_status d \<noteq> Archived" "mb_key b = trim key"
      using update_prepare_key update_read(2) by blast
    then have "d \<in> set (of_key (mw_store w) u key)" "body_ok (mv_body d)" "mb_key (mv_body d) = key"
      using findLatest_Some assms(2) by (auto simp: of_key_mem world_ok_def store_ok_def)
    then have "\<not> (u = t \<and> mb_key b = k)" using d assms(3) trim_no_key[of key] by (auto simp: retired_def body_ok_def)
    then show ?thesis using assms(3) update_read(1) by (auto simp: retired_def)
  next
    case (update_insert u actor b v st)
    then have "\<not> (u = t \<and> mb_key b = k)" using assms(3) by (auto simp: retired_def)
    moreover have "set (remove1 (u, actor, b, v) (mw_pending w)) \<subseteq> set (mw_pending w)" by (rule set_remove1_subset)
    ultimately show ?thesis using assms(3) update_insert(1,3)
      by (auto simp: retired_def update_commit_def repo_create_Inr of_key_add lower_id_def new_version_def split: sum.splits)
  next
    case (approved u key n actor now st)
    then show ?thesis using mstep_cases[OF assms(1,2)] False by (auto simp: metric_approve_def setStatus_def repo_create_Inr split: if_splits option.splits)
  next
    case (archived u key actor now st j)
    then show ?thesis using mstep_cases[OF assms(1,2)] False by (auto simp: metric_archive_def archiveKey_def repo_create_Inr split: if_splits option.splits)
  qed
qed

lemma retired_reach: "mreach nt owned w w' \<Longrightarrow> world_ok w \<Longrightarrow> retired w t k \<Longrightarrow> retired w' t k \<and> world_ok w'"
proof (induction rule: mreach.induct)
  case (step w w' w'')
  then show ?case using retired_step mstep_world_ok by blast
qed simp

lemma retired_resolves_none:
  assumes "retired w t k" "METRIC_REF_RE r = Some k"
  shows "resolveMetricRef (mw_store w) dr t r = None"
proof (rule ccontr)
  assume "resolveMetricRef (mw_store w) dr t r \<noteq> None"
  then obtain d where d: "resolveMetricRef (mw_store w) dr t r = Some d" by blast
  then have "d \<in> set (of_key (mw_store w) t k)" "mv_status d \<noteq> Archived"
    using assms(2) unfolding resolveMetricRef_def
    by (auto dest!: findVersion_Some findLatest_Some simp: version_id_def of_key_mem split: if_splits option.splits)
  then show False using assms(1) by (auto simp: retired_def)
qed

text \<open> C31.
  Archiving is final. Once every version of a key is archived and no edit of it is under way, no request
  makes any reference to it resolve again, not even for a reviewer's preview.\<close>
theorem archive_is_final:
  assumes "world_ok w" and "retired w t k" and "mreach nt owned w w'" and "METRIC_REF_RE r = Some k"
  shows "resolveMetricRef (mw_store w') drafts t r = None"
  using retired_resolves_none retired_reach assms by blast

definition with_label :: "string \<Rightarrow> metric_body \<Rightarrow> metric_body" where
  "with_label l b = b\<lparr>mb_label := l\<rparr>"

lemma body_ok_label: "body_ok b \<Longrightarrow> l \<noteq> [] \<Longrightarrow> trim l = l \<Longrightarrow> length l \<le> 120 \<Longrightarrow> body_ok (with_label l b)"
  by (cases "mb_aggregation b = ''ratio''") (simp_all add: body_ok_def with_label_def)

lemma patch_label:
  "alist_set ''key'' (JStr (mb_key b)) (alist_set ''label'' (JStr l) (body_props b)) = body_props (with_label l b)"
  by (simp add: body_props_def with_label_def)

text \<open> Definitions survive their own validation: a stored definition sent back is accepted and comes out
  unchanged, so an edit of the label gives the next version with that label and nothing else changed.\<close>
theorem definition_roundtrip:
  assumes "body_ok b" and "mb_owner b \<noteq> Some []" and "findLatest st t (mb_key b) None = Some d" and "mv_body d = b"
    and "mv_status d \<noteq> Archived" and "t \<noteq> []" and "owned t (mb_connectorId b)"
    and "l \<noteq> []" and "trim l = l" and "length l \<le> 120"
  shows "sanitizeDefinition nt (JObj (body_props b)) = Inr b
    \<and> update_prepare nt owned st t (mb_key b) (JObj [(''label'', JStr l)]) = Inr (with_label l b, mv_version d + 1)"
proof -
  have "sanitizeDefinition nt (JObj (body_props (with_label l b))) = Inr (with_label l b)"
    using assms(2) body_ok_label[OF assms(1,8-10)] by (intro sanitizeDefinition_id) (simp_all add: with_label_def)
  then have "update_prepare nt owned st t (mb_key b) (JObj [(''label'', JStr l)]) = Inr (with_label l b, mv_version d + 1)"
    using assms unfolding update_prepare_def by (simp add: patch_label assertDatasetOwned_def with_label_def[of _ b, symmetric] del: alist_set.simps) (simp add: with_label_def)
  then show ?thesis using sanitizeDefinition_id[OF assms(1,2)] by simp
qed

section \<open>Runs\<close>

definition sample_body :: metric_body where
  "sample_body = \<lparr>mb_key = ''rows'', mb_label = ''Rows'', mb_description = [], mb_connectorId = replicate 24 (CHR ''a''),
     mb_aggregation = ''max'', mb_field = Some ''n'', mb_numerator = None, mb_denominator = None, mb_filters = [], mb_unit = None,
     mb_format = ''number'', mb_direction = ''neutral'', mb_owner = None\<rparr>"

definition sample_version :: "nat \<Rightarrow> metric_status \<Rightarrow> metric_version" where
  "sample_version v s = (new_version ''t'' sample_body v None)\<lparr>mv_status := s\<rparr>"

lemma sample_body_ok: "body_ok sample_body"
proof -
  have "METRIC_KEY_PATTERN (mb_key sample_body)" "trim ''Rows'' = ''Rows''" "OBJECT_ID_RE (mb_connectorId sample_body)" "safe_text ''n''" by code_simp+
  then show ?thesis
    by (simp add: body_ok_def sample_body_def agg_ok_def filter_list_ok_def opt_text_ok_def METRIC_KINDS_def METRIC_AGGREGATIONS_def
        METRIC_FORMATS_def METRIC_DIRECTIONS_def trim_def)
qed

definition sample_world :: "metric_version list \<Rightarrow> metric_world" where
  "sample_world ds = \<lparr>mw_store = ds, mw_pending = []\<rparr>"

lemma sample_world_ok: "world_ok (sample_world [sample_version 1 s])"
  using sample_body_ok by (simp add: world_ok_def sample_world_def store_ok_def sample_version_def new_version_def)

lemma sample_key: "mb_key sample_body = ''rows''" "mb_connectorId sample_body = replicate 24 (CHR ''a'')"
  by (simp_all add: sample_body_def)

lemma sample_approve: "mstep nt owned (sample_world [sample_version 1 Draft])
    (sample_world [(sample_version 1 Approved)\<lparr>mv_approvedAt := Some 5\<rparr>])"
  using mstep.approved[of "sample_world [sample_version 1 Draft]" "''t''" "''rows''" 1 None 5]
  by (simp add: metric_approve_def findVersion_def of_key_def setStatus_def sample_world_def sample_version_def new_version_def sample_key)

theorem metric_versions_immutable_witness:
  "sample_version 1 Draft \<in> set (mw_store (sample_world [sample_version 1 Draft]))
   \<and> (\<exists>e\<in>set (mw_store (sample_world [(sample_version 1 Approved)\<lparr>mv_approvedAt := Some 5\<rparr>])). later_version (sample_version 1 Draft) e)"
proof -
  have "mreach (\<lambda>_. []) (\<lambda>_ _. True) (sample_world [sample_version 1 Draft])
      (sample_world [(sample_version 1 Approved)\<lparr>mv_approvedAt := Some 5\<rparr>])"
    using mreach.step[OF mreach.start sample_approve] .
  from metric_versions_immutable[OF sample_world_ok this, of "sample_version 1 Draft"] show ?thesis
    by (simp add: sample_world_def)
qed

lemma sample_ref: "METRIC_REF_RE ''metric:rows@1'' = Some ''rows''" "ref_version ''metric:rows@1'' = Some 1" "METRIC_REF_RE ''metric:rows'' = Some ''rows''"
  by code_simp+

theorem pinned_reference_stable_witness:
  "resolveMetricRef [sample_version 1 Draft] True ''t'' ''metric:rows@1'' = Some (sample_version 1 Draft)
   \<and> mv_body ((sample_version 1 Approved)\<lparr>mv_approvedAt := Some 5\<rparr>) = mv_body (sample_version 1 Draft)"
proof -
  have r: "resolveMetricRef (mw_store (sample_world [sample_version 1 Draft])) True ''t'' ''metric:rows@1'' = Some (sample_version 1 Draft)"
    "resolveMetricRef (mw_store (sample_world [(sample_version 1 Approved)\<lparr>mv_approvedAt := Some 5\<rparr>])) False ''t'' ''metric:rows@1''
       = Some ((sample_version 1 Approved)\<lparr>mv_approvedAt := Some 5\<rparr>)"
    by (simp_all add: resolveMetricRef_def sample_ref findVersion_def of_key_def sample_world_def sample_version_def new_version_def sample_key)
  from pinned_reference_stable[OF sample_world_ok mreach.step[OF mreach.start sample_approve] sample_ref(2) r] r(1) show ?thesis
    by (simp add: sample_world_def)
qed

theorem archive_is_final_witness:
  "resolveMetricRef (mw_store (sample_world [sample_version 1 Archived])) True ''t'' ''metric:rows'' = None"
proof -
  have "retired (sample_world [sample_version 1 Archived]) ''t'' ''rows''"
    by (simp add: retired_def of_key_def sample_world_def sample_version_def new_version_def sample_key)
  from archive_is_final[OF sample_world_ok this mreach.start sample_ref(3)] show ?thesis .
qed

theorem definition_roundtrip_witness:
  "update_prepare (\<lambda>_. []) (\<lambda>_ _. True) [sample_version 1 Approved] ''t'' ''rows'' (JObj [(''label'', JStr ''R'')])
     = Inr (with_label ''R'' sample_body, 2)"
proof -
  have "findLatest [sample_version 1 Approved] ''t'' (mb_key sample_body) None = Some (sample_version 1 Approved)"
    by (simp add: findLatest_def listVersions_def of_key_def sample_version_def new_version_def sample_key)
  moreover have "trim ''R'' = ''R''" by code_simp
  ultimately show ?thesis
    using definition_roundtrip[OF sample_body_ok, of "[sample_version 1 Approved]" "''t''" "sample_version 1 Approved" "\<lambda>_ _. True" "''R''" "\<lambda>_. []"]
    by (simp add: sample_version_def new_version_def sample_body_def)
qed

text \<open>
  Two gaps. The name of a metric's column is only tested for being safe, so a definition may aggregate a
  credential-like column, which every other part of a query refuses. And an edit that was read before the
  key was archived still inserts its draft afterwards; once approved, the archived key resolves again.
\<close>

lemma metric_field_not_screened:
  assumes "safe_text fd"
  shows "sanitizeDefinition nt (JObj (body_props (sample_body\<lparr>mb_field := Some fd\<rparr>))) = Inr (sample_body\<lparr>mb_field := Some fd\<rparr>)"
proof (rule sanitizeDefinition_id)
  show "body_ok (sample_body\<lparr>mb_field := Some fd\<rparr>)"
    using sample_body_ok assms by (auto simp: body_ok_def agg_ok_def sample_body_def)
qed (simp add: sample_body_def)

lemma password_is_sensitive: "safe_text ''password'' \<and> isSensitiveFieldName ''password''"
  by code_simp

definition late_version :: "metric_status \<Rightarrow> metric_version" where
  "late_version s = (new_version ''t'' (with_label ''R'' sample_body) 2 None)\<lparr>mv_status := s\<rparr>"

lemma archived_metric_returns:
  "\<exists>w1 w2 w3 d. mstep nt (\<lambda>_ _. True) (sample_world [sample_version 1 Approved]) w1
     \<and> metric_archive (mw_store w1) ''t'' ''rows'' None 7 = Inr (mw_store w2, 1) \<and> mstep nt (\<lambda>_ _. True) w1 w2
     \<and> mreach nt (\<lambda>_ _. True) w2 w3 \<and> resolveMetricRef (mw_store w3) False ''t'' ''metric:rows'' = Some d"
proof -
  let ?a = "(sample_version 1 Archived)\<lparr>mv_archivedAt := Some 7\<rparr>"
  let ?b = "with_label ''R'' sample_body"
  let ?w1 = "\<lparr>mw_store = [sample_version 1 Approved], mw_pending = [(''t'', None, ?b, 2)]\<rparr>"
  let ?w2 = "\<lparr>mw_store = [?a], mw_pending = [(''t'', None, ?b, 2)]\<rparr>"
  let ?w3 = "\<lparr>mw_store = [?a, late_version Draft], mw_pending = []\<rparr>"
  let ?w4 = "\<lparr>mw_store = [?a, (late_version Approved)\<lparr>mv_approvedAt := Some 9\<rparr>], mw_pending = []\<rparr>"
  have lab: "trim ''R'' = ''R''" by code_simp
  have "sanitizeDefinition nt (JObj (body_props ?b)) = Inr ?b"
    by (rule sanitizeDefinition_id) (use body_ok_label[OF sample_body_ok, of "''R''"] lab in \<open>simp_all add: with_label_def sample_body_def\<close>)
  then have "update_prepare nt (\<lambda>_ _. True) [sample_version 1 Approved] ''t'' ''rows'' (JObj [(''label'', JStr ''R'')]) = Inr (?b, 2)"
    using patch_label[of sample_body "''R''"]
    by (simp add: update_prepare_def findLatest_def listVersions_def of_key_def sample_version_def new_version_def sample_key assertDatasetOwned_def)
  then have s1: "mstep nt (\<lambda>_ _. True) (sample_world [sample_version 1 Approved]) ?w1"
    using mstep.update_read[of nt "\<lambda>_ _. True" "sample_world [sample_version 1 Approved]" "''t''" "''rows''" _ ?b 2 None]
    by (simp add: sample_world_def)
  have ar: "metric_archive (mw_store ?w1) ''t'' ''rows'' None 7 = Inr (mw_store ?w2, 1)"
    by (simp add: metric_archive_def archiveKey_def findLatest_def listVersions_def of_key_def sample_version_def new_version_def sample_key)
  then have s2: "mstep nt (\<lambda>_ _. True) ?w1 ?w2"
    using mstep.archived[of ?w1 "''t''" "''rows''" None 7] by simp
  have low: "to_lower (replicate 24 (CHR ''a'')) = replicate 24 (CHR ''a'')" by code_simp
  have "update_commit [?a] ''t'' None (?b, 2) = Inr [?a, late_version Draft]"
    using low by (simp add: update_commit_def repo_create_def findVersion_def of_key_def sample_version_def new_version_def late_version_def with_label_def sample_body_def)
  then have s3: "mstep nt (\<lambda>_ _. True) ?w2 ?w3"
    using mstep.update_insert[of "''t''" None ?b 2 ?w2] by simp
  have "metric_approve [?a, late_version Draft] ''t'' ''rows'' 2 None 9 = Inr [?a, (late_version Approved)\<lparr>mv_approvedAt := Some 9\<rparr>]"
    by (simp add: metric_approve_def findVersion_def of_key_def setStatus_def sample_version_def late_version_def new_version_def with_label_def sample_body_def)
  then have s4: "mstep nt (\<lambda>_ _. True) ?w3 ?w4"
    using mstep.approved[of ?w3 "''t''" "''rows''" 2 None 9] by simp
  have "resolveMetricRef (mw_store ?w4) False ''t'' ''metric:rows'' = Some ((late_version Approved)\<lparr>mv_approvedAt := Some 9\<rparr>)"
  proof -
    have "ref_version ''metric:rows'' = None" by code_simp
    then show ?thesis
      by (simp add: resolveMetricRef_def sample_ref findLatest_def listVersions_def of_key_def sample_version_def late_version_def new_version_def with_label_def sample_body_def)
  qed
  then show ?thesis using s1 ar s2 mreach.step[OF mreach.step[OF mreach.start s3] s4] by blast
qed

end
