(* ===== verification/CronSchedule.thy ===== *)
theory CronSchedule
  imports BusinessTime
begin

text \<open>
  Cron schedules: \<open>src/utils/cron.js\<close> over the wall clocks of \<open>BusinessTime\<close>. A match set is the list of its
  members in insertion order; a message is reduced to the kind of mistake. The stepping loop of a field
  has no bound of its own in the code, so it is a \<open>partial_function\<close>, and that it ends is proved.
\<close>

section \<open>Runs that may fail or not end\<close>

type_synonym ('e, 'a) run = "('e, 'a) res option"

abbreviation ret :: "'a \<Rightarrow> ('e, 'a) run" where
  "ret x \<equiv> Some (Inr x)"

abbreviation fail :: "'e \<Rightarrow> ('e, 'a) run" where
  "fail e \<equiv> Some (Inl e)"

fun and_then :: "('e, 'a) run \<Rightarrow> ('a \<Rightarrow> ('e, 'b) run) \<Rightarrow> ('e, 'b) run" where
  "and_then None f = None"
| "and_then (Some (Inl e)) f = fail e"
| "and_then (Some (Inr x)) f = f x"

lemma and_then_ret: "and_then m f = ret y \<longleftrightarrow> (\<exists>x. m = ret x \<and> f x = ret y)"
  by (cases "(m, f)" rule: and_then.cases) auto

definition ends :: "('e, 'a) run \<Rightarrow> bool" where
  "ends m \<longleftrightarrow> m \<noteq> None"

lemma ends_simps [simp]: "ends (Some r)" "ends (if b then m else n) \<longleftrightarrow> (if b then ends m else ends n)"
  by (simp_all add: ends_def)

lemma and_then_ends [intro]: "ends m \<Longrightarrow> (\<And>x. m = ret x \<Longrightarrow> ends (f x)) \<Longrightarrow> ends (and_then m f)"
  by (cases "(m, f)" rule: and_then.cases) (auto simp: ends_def)

section \<open>Fields\<close>

record cron_field =
  f_name :: string
  f_min :: nat
  f_max :: nat

definition FIELDS :: "cron_field list" where
  "FIELDS = [\<lparr>f_name = ''minute'', f_min = 0, f_max = 59\<rparr>, \<lparr>f_name = ''hour'', f_min = 0, f_max = 23\<rparr>,
     \<lparr>f_name = ''day-of-month'', f_min = 1, f_max = 31\<rparr>, \<lparr>f_name = ''month'', f_min = 1, f_max = 12\<rparr>,
     \<lparr>f_name = ''day-of-week'', f_min = 0, f_max = 7\<rparr>]"

definition SEARCH_DAYS :: nat where
  "SEARCH_DAYS = 366 * 5"

datatype cron_error =
    Invalid_value string
  | Out_of_range string
  | Invalid_list string
  | Invalid_step string
  | Invalid_range string
  | Empty_field string
  | Five_fields
  | Unknown_zone
  | Never_runs

definition all_digits :: "string \<Rightarrow> bool" where
  "all_digits s \<longleftrightarrow> s \<noteq> [] \<and> list_all is_digit s"

definition parseNumber :: "cron_field \<Rightarrow> string \<Rightarrow> (cron_error, nat) run" where
  "parseNumber fd v =
     (if \<not> all_digits v then fail (Invalid_value (f_name fd))
      else if dec_value v < f_min fd \<or> f_max fd < dec_value v then fail (Out_of_range (f_name fd))
      else ret (dec_value v))"

text \<open>The loop that adds \<open>lo\<close>, \<open>lo + step\<close>, ... while they are at most \<open>hi\<close>.\<close>

partial_function (option) step_loop :: "nat \<Rightarrow> nat \<Rightarrow> nat \<Rightarrow> nat list \<Rightarrow> nat list option" where
  "step_loop step hi v acc =
     (if v \<le> hi then step_loop step hi (v + step) (if v \<in> set acc then acc else acc @ [v]) else Some acc)"

definition item_step :: "cron_field \<Rightarrow> string option \<Rightarrow> (cron_error, nat) run" where
  "item_step fd stepText =
     (case stepText of
        None \<Rightarrow> ret 1
      | Some s \<Rightarrow> if \<not> all_digits s \<or> dec_value s < 1 then fail (Invalid_step (f_name fd)) else ret (dec_value s))"

definition item_bounds :: "cron_field \<Rightarrow> string \<Rightarrow> bool \<Rightarrow> (cron_error, nat \<times> nat) run" where
  "item_bounds fd rangeText stepped =
     (if rangeText = ''*'' then ret (f_min fd, f_max fd)
      else if CHR ''-'' \<in> set rangeText then
        (let parts = split_on (CHR ''-'') rangeText in
         if 2 < length parts then fail (Invalid_range (f_name fd))
         else and_then (parseNumber fd (parts ! 0)) (\<lambda>lo. and_then (parseNumber fd (parts ! 1)) (\<lambda>hi.
           if hi < lo then fail (Invalid_range (f_name fd)) else ret (lo, hi))))
      else and_then (parseNumber fd rangeText) (\<lambda>lo. ret (lo, if stepped then f_max fd else lo)))"

definition expand_item :: "cron_field \<Rightarrow> string \<Rightarrow> nat list \<Rightarrow> (cron_error, nat list) run" where
  "expand_item fd part vals =
     (if part = [] then fail (Invalid_list (f_name fd))
      else
        (let parts = split_on (CHR ''/'') part; stepText = (if 1 < length parts then Some (parts ! 1) else None) in
         if 2 < length parts then fail (Invalid_step (f_name fd))
         else and_then (item_step fd stepText) (\<lambda>step.
           and_then (item_bounds fd (parts ! 0) (stepText \<noteq> None)) (\<lambda>(lo, hi).
             map_option Inr (step_loop step hi lo vals)))))"

fun expand_items :: "cron_field \<Rightarrow> string list \<Rightarrow> nat list \<Rightarrow> (cron_error, nat list) run" where
  "expand_items fd [] vals = ret vals"
| "expand_items fd (p # ps) vals = and_then (expand_item fd p vals) (expand_items fd ps)"

definition expandField :: "cron_field \<Rightarrow> string \<Rightarrow> (cron_error, nat list) run" where
  "expandField fd raw =
     (if trim raw = [] then fail (Empty_field (f_name fd)) else expand_items fd (split_on (CHR '','') (trim raw)) [])"

section \<open>Expressions\<close>

record cron_spec =
  minutes :: "nat list"
  hours :: "nat list"
  daysOfMonth :: "nat list"
  months :: "nat list"
  daysOfWeek :: "nat list"
  domRestricted :: bool
  dowRestricted :: bool

text \<open>\<open>text.split(/\s+/)\<close> of trimmed text.\<close>

function words_between :: "string \<Rightarrow> string list" where
  "words_between s =
     (let w = takeWhile (\<lambda>c. \<not> is_space c) s; r = dropWhile (\<lambda>c. \<not> is_space c) s in
      if r = [] then [w] else w # words_between (dropWhile is_space r))"
  by pat_completeness auto
termination
proof (relation "measure length")
  fix s w r :: string
  assume r: "r = dropWhile (\<lambda>c. \<not> is_space c) s" "r \<noteq> []"
  then have "is_space (hd r)" using hd_dropWhile by metis
  then have "length (dropWhile is_space r) < length r" using r(2) by (cases r) (auto simp: le_imp_less_Suc length_dropWhile_le)
  also have "length r \<le> length s" by (simp add: r(1) length_dropWhile_le)
  finally show "(dropWhile is_space r, s) \<in> measure length" by simp
qed simp

declare words_between.simps [simp del]

fun expand_fields :: "(cron_field \<times> string) list \<Rightarrow> (cron_error, nat list list) run" where
  "expand_fields [] = ret []"
| "expand_fields ((fd, t) # rest) = and_then (expandField fd t) (\<lambda>vs. and_then (expand_fields rest) (\<lambda>vss. ret (vs # vss)))"

definition parseCron :: "string \<Rightarrow> (cron_error, cron_spec) run" where
  "parseCron expr =
     (let fields = words_between (trim expr) in
      if length fields \<noteq> 5 \<or> fields ! 0 = [] then fail Five_fields
      else and_then (expand_fields (zip FIELDS fields)) (\<lambda>vss.
        ret \<lparr>minutes = sort (vss ! 0), hours = sort (vss ! 1), daysOfMonth = vss ! 2, months = vss ! 3,
             daysOfWeek = (if 7 \<in> set (vss ! 4) then vss ! 4 @ [0] else vss ! 4),
             domRestricted = (fields ! 2 \<noteq> ''*''), dowRestricted = (fields ! 4 \<noteq> ''*'')\<rparr>))"

definition dayMatches :: "cron_spec \<Rightarrow> date \<Rightarrow> bool" where
  "dayMatches spec x =
     (case x of (y, m, d) \<Rightarrow>
        (let dom = nat d \<in> set (daysOfMonth spec); dow = nat (calendarWeekday x) \<in> set (daysOfWeek spec) in
         nat m \<in> set (months spec) \<and> (if domRestricted spec \<and> dowRestricted spec then dom \<or> dow else dom \<and> dow)))"

section \<open>The projection\<close>

text \<open>What the innermost loop does with one wall time of a day.\<close>

definition fires_at :: "offsets \<Rightarrow> string \<Rightarrow> int \<Rightarrow> wall \<Rightarrow> date \<Rightarrow> nat \<Rightarrow> nat \<Rightarrow> nat \<Rightarrow> int option" where
  "fires_at off tz from_ms start x offset h mi =
     (case x of (y, m, d) \<Rightarrow>
        (if offset = 0 \<and> int h < w_hour start then None
         else if offset = 0 \<and> int h = w_hour start \<and> int mi < w_minute start then None
         else
           (let instant = zonedTimeToUtc off tz y m d (int h) (int mi) 0 0 in
            if instant \<le> from_ms then None
            else
              (let shown = zonedParts off tz instant in
               if w_day shown \<noteq> d \<or> w_hour shown \<noteq> int h \<or> w_minute shown \<noteq> int mi then None else Some instant))))"

fun first_some :: "('a \<Rightarrow> 'b option) \<Rightarrow> 'a list \<Rightarrow> 'b option" where
  "first_some f [] = None"
| "first_some f (x # xs) = (case f x of Some y \<Rightarrow> Some y | None \<Rightarrow> first_some f xs)"

definition day_fires :: "offsets \<Rightarrow> string \<Rightarrow> int \<Rightarrow> wall \<Rightarrow> cron_spec \<Rightarrow> nat \<Rightarrow> int option" where
  "day_fires off tz from_ms start spec offset =
     (let x = addCalendarDays (w_year start, w_month start, w_day start) (int offset) in
      if \<not> dayMatches spec x then None
      else first_some (\<lambda>h. first_some (fires_at off tz from_ms start x offset h) (minutes spec)) (hours spec))"

definition nextCronDate ::
  "(string \<Rightarrow> bool) \<Rightarrow> string list \<Rightarrow> (string \<Rightarrow> string) \<Rightarrow> offsets \<Rightarrow> string \<Rightarrow> int \<Rightarrow> string \<Rightarrow> (cron_error, int option) run" where
  "nextCronDate known zones resolved off expr from_ms timeZone =
     and_then (parseCron expr) (\<lambda>spec.
       if timeZone \<noteq> [] \<and> \<not> isValidTimeZone known timeZone then fail Unknown_zone
       else
         (let tz = normalizeTimeZone known zones resolved timeZone ''UTC'' in
          ret (first_some (day_fires off tz from_ms (zonedParts off tz from_ms) spec) [0..<Suc SEARCH_DAYS])))"

definition assertValidCron ::
  "(string \<Rightarrow> bool) \<Rightarrow> string list \<Rightarrow> (string \<Rightarrow> string) \<Rightarrow> offsets \<Rightarrow> string \<Rightarrow> int \<Rightarrow> string \<Rightarrow> (cron_error, unit) run" where
  "assertValidCron known zones resolved off expr now timeZone =
     and_then (nextCronDate known zones resolved off expr now timeZone) (\<lambda>next. if next = None then fail Never_runs else ret ())"

section \<open>Parsing ends, and yields values of the field\<close>

definition steps_of :: "nat \<Rightarrow> nat \<Rightarrow> nat \<Rightarrow> nat set" where
  "steps_of step lo hi = {x. lo \<le> x \<and> x \<le> hi \<and> step dvd x - lo}"

lemma steps_of_step: "0 < step \<Longrightarrow> v \<le> hi \<Longrightarrow> steps_of step v hi = insert v (steps_of step (v + step) hi)"
proof (intro set_eqI iffI)
  fix x
  assume s: "0 < step" "v \<le> hi" and x: "x \<in> steps_of step v hi"
  then obtain k where k: "x - v = step * k" "v \<le> x" "x \<le> hi" by (auto simp: steps_of_def dvd_def)
  show "x \<in> insert v (steps_of step (v + step) hi)"
  proof (cases k)
    case (Suc j)
    then have "x = v + step + step * j" using k by simp
    then show ?thesis using k(3) by (auto simp: steps_of_def)
  qed (use k in simp)
next
  fix x
  assume s: "0 < step" "v \<le> hi" and "x \<in> insert v (steps_of step (v + step) hi)"
  then consider "x = v" | "v + step \<le> x" "x \<le> hi" "step dvd x - (v + step)" by (auto simp: steps_of_def)
  then show "x \<in> steps_of step v hi"
  proof cases
    case 2
    then have "x - v = (x - (v + step)) + step" by simp
    then have "step dvd x - v" using 2(3) by (metis dvd_add_triv_right_iff)
    then show ?thesis using 2 by (simp add: steps_of_def)
  qed (use s in \<open>simp add: steps_of_def\<close>)
qed

lemma step_loop_ends:
  assumes "0 < step"
  shows "\<exists>ys. step_loop step hi v acc = Some ys \<and> set ys = set acc \<union> steps_of step v hi"
  using assms
proof (induction "Suc hi - v" arbitrary: v acc rule: less_induct)
  case less
  show ?case
  proof (cases "v \<le> hi")
    case True
    then have "Suc hi - (v + step) < Suc hi - v" using less.prems by simp
    from less.hyps[OF this less.prems, of "if v \<in> set acc then acc else acc @ [v]"] show ?thesis
      using True steps_of_step[OF less.prems True] by (subst step_loop.simps) auto
  next
    case False
    then have "steps_of step v hi = {}" by (auto simp: steps_of_def)
    then show ?thesis using False by (subst step_loop.simps) simp
  qed
qed

definition in_field :: "cron_field \<Rightarrow> nat list \<Rightarrow> bool" where
  "in_field fd vs \<longleftrightarrow> (\<forall>v\<in>set vs. f_min fd \<le> v \<and> v \<le> f_max fd)"

lemma parseNumber_ends [intro]: "ends (parseNumber fd s)"
  by (simp add: parseNumber_def)

lemma item_bounds_ends [intro]: "ends (item_bounds fd r b)"
  unfolding item_bounds_def Let_def
  by (auto intro!: and_then_ends)

lemma parseNumber_ret: "parseNumber fd s = ret n \<Longrightarrow> f_min fd \<le> n \<and> n \<le> f_max fd"
  by (auto simp: parseNumber_def split: if_splits)

lemma item_bounds_ret: "item_bounds fd r b = ret (lo, hi) \<Longrightarrow> f_min fd \<le> lo \<and> hi \<le> f_max fd"
  unfolding item_bounds_def Let_def by (auto simp: and_then_ret dest!: parseNumber_ret split: if_splits)

lemma item_step_ret: "item_step fd s = ret n \<Longrightarrow> 0 < n"
  by (auto simp: item_step_def split: option.splits if_splits)

lemma item_step_ends [intro]: "ends (item_step fd s)"
  by (simp add: item_step_def split: option.splits)

lemma expand_item_ends [intro]: "ends (expand_item fd p vs)"
proof (cases "p = [] \<or> 2 < length (split_on (CHR ''/'') p)")
  case False
  have "ends (map_option Inr (step_loop n hi lo vs))" if "0 < n" for n lo hi :: nat
    using step_loop_ends[OF that, of hi lo vs] by (auto simp: ends_def)
  then show ?thesis
    using False unfolding expand_item_def Let_def
    by (auto intro!: and_then_ends dest: item_step_ret)
qed (auto simp: expand_item_def Let_def)

lemma expand_item_ret: "expand_item fd p vs = ret ws \<Longrightarrow> in_field fd vs \<Longrightarrow> in_field fd ws"
proof -
  assume a: "expand_item fd p vs = ret ws" and v: "in_field fd vs"
  then obtain n lo hi where n: "0 < n" "f_min fd \<le> lo \<and> hi \<le> f_max fd" "step_loop n hi lo vs = Some ws"
    unfolding expand_item_def Let_def by (auto simp: and_then_ret dest!: item_step_ret item_bounds_ret split: if_splits)
  then have "set ws = set vs \<union> steps_of n lo hi" using step_loop_ends[of n hi lo vs] by auto
  then show ?thesis using n(2) v by (auto simp: in_field_def steps_of_def)
qed

lemma expand_items_ends [intro]: "ends (expand_items fd ps vs)"
  by (induction ps arbitrary: vs) (auto intro!: and_then_ends expand_item_ends)

lemma expand_items_ret: "expand_items fd ps vs = ret ws \<Longrightarrow> in_field fd vs \<Longrightarrow> in_field fd ws"
  by (induction ps arbitrary: vs) (auto simp: and_then_ret dest: expand_item_ret)

lemma expandField_ends [intro]: "ends (expandField fd s)"
  by (auto simp: expandField_def)

lemma expandField_ret: "expandField fd s = ret vs \<Longrightarrow> in_field fd vs"
  using expand_items_ret[of fd _ "[]"] by (auto simp: expandField_def in_field_def split: if_splits)

lemma expand_fields_ends [intro]: "ends (expand_fields xs)"
  by (induction xs rule: expand_fields.induct) (auto intro!: and_then_ends expandField_ends)

lemma expand_fields_ret: "expand_fields xs = ret vss \<Longrightarrow> list_all2 in_field (map fst xs) vss"
  by (induction xs arbitrary: vss rule: expand_fields.induct) (auto simp: and_then_ret dest: expandField_ret)

lemma parse_ends [intro]: "ends (parseCron expr)"
proof -
  have "ends (and_then (expand_fields xs) (\<lambda>vss. ret (f vss)))" for xs and f :: "nat list list \<Rightarrow> cron_spec"
    by (rule and_then_ends[OF expand_fields_ends]) simp
  then show ?thesis unfolding parseCron_def Let_def by simp
qed

definition spec_ok :: "cron_spec \<Rightarrow> bool" where
  "spec_ok s \<longleftrightarrow> sorted (minutes s) \<and> sorted (hours s) \<and> set (minutes s) \<subseteq> {0..59} \<and> set (hours s) \<subseteq> {0..23}
     \<and> set (daysOfMonth s) \<subseteq> {1..31} \<and> set (months s) \<subseteq> {1..12} \<and> set (daysOfWeek s) \<subseteq> {0..7}
     \<and> (7 \<in> set (daysOfWeek s) \<longrightarrow> 0 \<in> set (daysOfWeek s))"

lemma parse_spec_ok: "parseCron expr = ret s \<Longrightarrow> spec_ok s"
proof -
  assume a: "parseCron expr = ret s"
  let ?ws = "words_between (trim expr)"
  obtain vss where v: "expand_fields (zip FIELDS ?ws) = ret vss" "length ?ws = 5"
      and s: "s = \<lparr>minutes = sort (vss ! 0), hours = sort (vss ! 1), daysOfMonth = vss ! 2, months = vss ! 3,
             daysOfWeek = (if 7 \<in> set (vss ! 4) then vss ! 4 @ [0] else vss ! 4),
             domRestricted = (?ws ! 2 \<noteq> ''*''), dowRestricted = (?ws ! 4 \<noteq> ''*'')\<rparr>"
    using a unfolding parseCron_def Let_def by (auto simp: and_then_ret split: if_splits)
  have "list_all2 in_field FIELDS vss" using expand_fields_ret[OF v(1)] v(2) by (simp add: FIELDS_def)
  then have "in_field (FIELDS ! i) (vss ! i)" if "i < 5" for i
    using that by (auto simp: list_all2_conv_all_nth FIELDS_def)
  from this[of 0] this[of 1] this[of 2] this[of 3] this[of 4] show ?thesis
    by (auto simp: spec_ok_def s in_field_def FIELDS_def)
qed

text \<open> C40.
  Parsing always ends, and with values of the fields. For every text the parser returns: a typed error,
  or match sets inside the ranges of their fields, minutes and hours in order, Sunday known as 0.\<close>
theorem cron_parse_ends: "\<exists>r. parseCron expr = Some r \<and> (case r of Inl e \<Rightarrow> True | Inr s \<Rightarrow> spec_ok s)"
  using parse_ends[of expr] parse_spec_ok[of expr] by (cases "parseCron expr") (auto simp: ends_def split: sum.splits)

section \<open>The projection is the first firing\<close>

text \<open>A local instant at which an expression fires: second zero of a minute that all fields match.\<close>

definition fires :: "cron_spec \<Rightarrow> int \<Rightarrow> bool" where
  "fires s l \<longleftrightarrow>
     (let w = wall_of l in
      dayMatches s (w_year w, w_month w, w_day w) \<and> nat (w_hour w) \<in> set (hours s) \<and> nat (w_minute w) \<in> set (minutes s) \<and> l mod 60000 = 0)"

lemma first_some_Some: "first_some f xs = Some y \<Longrightarrow> \<exists>us x vs. xs = us @ x # vs \<and> f x = Some y \<and> (\<forall>u\<in>set us. f u = None)"
proof (induction xs)
  case (Cons x xs)
  show ?case
  proof (cases "f x")
    case None
    then obtain us z vs where "xs = us @ z # vs" "f z = Some y" "\<forall>u\<in>set us. f u = None" using Cons by auto
    then have "x # xs = (x # us) @ z # vs \<and> f z = Some y \<and> (\<forall>u\<in>set (x # us). f u = None)" using None by simp
    then show ?thesis by blast
  next
    case (Some z)
    then have "x # xs = [] @ x # xs \<and> f x = Some y \<and> (\<forall>u\<in>set []. f u = None)" using Cons.prems by simp
    then show ?thesis by blast
  qed
qed simp

lemma first_some_None: "first_some f xs = None \<longleftrightarrow> (\<forall>x\<in>set xs. f x = None)"
  by (induction xs) (auto split: option.splits)

lemma first_some_cong: "(\<And>x. x \<in> set xs \<Longrightarrow> f x = g x) \<Longrightarrow> first_some f xs = first_some g xs"
  by (induction xs) (auto split: option.splits)

text \<open>An earlier success of a search contradicts a later one, on sorted keys.\<close>

lemma first_some_least:
  assumes "first_some f xs = Some y" "sorted xs" "z \<in> set xs" "f z \<noteq> None"
  shows "\<exists>x\<in>set xs. f x = Some y \<and> x \<le> z"
proof -
  obtain us x vs where x: "xs = us @ x # vs" "f x = Some y" "\<forall>u\<in>set us. f u = None" using first_some_Some[OF assms(1)] by auto
  then have "z \<in> set (x # vs)" using assms(3,4) by auto
  then show ?thesis using x assms(2) by (auto simp: sorted_append)
qed

definition slot :: "int \<Rightarrow> nat \<Rightarrow> nat \<Rightarrow> int" where
  "slot z h mi = z * ms_day + (int h * 60 + int mi) * 60000"

lemma wall_slot:
  assumes "civil_of z = (y, m, d)" "h \<le> 23" "mi \<le> 59"
  shows "w_year (wall_of (slot z h mi)) = y \<and> w_month (wall_of (slot z h mi)) = m \<and> w_day (wall_of (slot z h mi)) = d
    \<and> w_hour (wall_of (slot z h mi)) = int h \<and> w_minute (wall_of (slot z h mi)) = int mi"
proof -
  have q: "slot z h mi div 60000 = 1440 * z + (60 * int h + int mi)" by (simp add: slot_def ms_day_def)
  have r: "0 \<le> 60 * int h + int mi" "60 * int h + int mi < 1440" "0 \<le> int mi" "int mi < 60" using assms(2,3) by auto
  have d: "slot z h mi div 60000 div 1440 = z" "slot z h mi div 60000 mod 1440 = 60 * int h + int mi"
    using int_div_pos_eq[OF q r(1,2)] int_mod_pos_eq[OF q r(1,2)] by auto
  have h: "slot z h mi div 60000 mod 1440 div 60 = int h" "slot z h mi div 60000 mod 1440 mod 60 = int mi"
    unfolding d(2) using r by simp_all
  then have "slot z h mi div 60000 mod 60 = int mi" by (simp add: mod_mod_cancel)
  moreover have "slot z h mi div ms_day = z" by (simp only: minute_of_day(1) d(1))
  then have "w_year (wall_of (slot z h mi)) = y \<and> w_month (wall_of (slot z h mi)) = m \<and> w_day (wall_of (slot z h mi)) = d"
    unfolding wall_of_def Let_def by (simp add: assms(1))
  moreover have "w_hour (wall_of (slot z h mi)) = int h" using wall_minute(1)[of "slot z h mi"] h(1) by simp
  ultimately show ?thesis using wall_minute(2)[of "slot z h mi"] by simp
qed

lemma fires_slot: "fires s l \<Longrightarrow> \<exists>h\<in>set (hours s). \<exists>mi\<in>set (minutes s). l = slot (l div ms_day) h mi \<and> dayMatches s (civil_of (l div ms_day))"
proof -
  assume f: "fires s l"
  let ?q = "l div 60000"
  have l: "l = 60000 * ?q" using f mult_div_mod_eq[of 60000 l] by (simp add: fires_def Let_def)
  have hm: "w_hour (wall_of l) = ?q mod 1440 div 60" "w_minute (wall_of l) = ?q mod 1440 mod 60"
    using wall_minute[of l] by (simp_all add: mod_mod_cancel)
  have pos: "0 \<le> w_hour (wall_of l)" "0 \<le> w_minute (wall_of l)" unfolding hm by (simp_all add: pos_imp_zdiv_nonneg_iff)
  have z: "l div ms_day = ?q div 1440" by (rule minute_of_day(1))
  have "?q = 1440 * (?q div 1440) + (60 * w_hour (wall_of l) + w_minute (wall_of l))" unfolding hm by simp
  then have "l = slot (l div ms_day) (nat (w_hour (wall_of l))) (nat (w_minute (wall_of l)))"
    using l pos unfolding slot_def z by (simp add: ms_day_def)
  moreover have "civil_of (l div ms_day) = (w_year (wall_of l), w_month (wall_of l), w_day (wall_of l))"
    by (simp add: wall_of_def Let_def split: prod.splits)
  ultimately show ?thesis using f unfolding fires_def Let_def by metis
qed

lemma slot_fires: "spec_ok s \<Longrightarrow> h \<in> set (hours s) \<Longrightarrow> mi \<in> set (minutes s) \<Longrightarrow> dayMatches s (civil_of z) \<Longrightarrow> fires s (slot z h mi)"
proof -
  assume a: "spec_ok s" "h \<in> set (hours s)" "mi \<in> set (minutes s)" "dayMatches s (civil_of z)"
  obtain y m d where c: "civil_of z = (y, m, d)" by (metis prod_cases3)
  have "h \<le> 23" "mi \<le> 59" using a by (auto simp: spec_ok_def)
  note w = wall_slot[OF c this]
  have "slot z h mi mod 60000 = 0" by (simp add: slot_def ms_day_def)
  then show ?thesis using w a c by (simp add: fires_def Let_def)
qed

text \<open>In a zone of one offset, the innermost test accepts a slot exactly when it lies after \<open>from\<close>.\<close>

lemma fires_at_fixed:
  fixes from_ms c0 :: int
  assumes "\<And>t. off tz t = c0" "c0 mod 1000 = 0" "h \<le> 23" "mi \<le> 59"
  defines "L \<equiv> from_ms + c0"
  shows "fires_at off tz from_ms (zonedParts off tz from_ms) (civil_of (L div ms_day + int k)) k h mi =
    (if L < slot (L div ms_day + int k) h mi then Some (slot (L div ms_day + int k) h mi - c0) else None)"
proof -
  let ?z = "L div ms_day + int k"
  let ?w = "wall_of L"
  obtain y m d where c: "civil_of ?z = (y, m, d)" by (metis prod_cases3)
  have "utc_ms y m d (int h) (int mi) 0 0 = slot ?z h mi"
    using civil_start_ms[OF c] by (simp add: utc_ms_def slot_def algebra_simps)
  then have inst: "zonedTimeToUtc off tz y m d (int h) (int mi) 0 0 = slot ?z h mi - c0"
    using fixed_zone_time[of off tz c0, OF assms(1,2)] by simp
  have parts: "zonedParts off tz (slot ?z h mi - c0) = wall_of (slot ?z h mi)" "zonedParts off tz from_ms = ?w"
    by (simp_all add: zonedParts_def assms(1) L_def)
  have early: "\<not> L < slot ?z h mi" if "k = 0" "int h < w_hour ?w \<or> int h = w_hour ?w \<and> int mi < w_minute ?w"
  proof -
    let ?q = "L div 60000"
    have hm: "w_hour ?w = ?q mod 1440 div 60" "w_minute ?w = ?q mod 1440 mod 60" using wall_minute[of L] by (simp_all add: mod_mod_cancel)
    have q: "?q = 1440 * (L div ms_day) + 60 * w_hour ?w + w_minute ?w" unfolding hm minute_of_day(1) by simp
    have "0 \<le> w_minute ?w" unfolding hm by simp
    then have "60 * int h + int mi < 60 * w_hour ?w + w_minute ?w" using that(2) assms(4) by (elim disjE) linarith+
    then have "slot ?z h mi \<le> 60000 * ?q" using that(1) q by (simp add: slot_def ms_day_def)
    also have "\<dots> \<le> L" using mult_div_mod_eq[of 60000 L] pos_mod_sign[of 60000 L] by linarith
    finally show ?thesis by simp
  qed
  have "L < slot ?z h mi \<longleftrightarrow> \<not> slot ?z h mi - c0 \<le> from_ms" by (auto simp: L_def)
  then show ?thesis
    unfolding fires_at_def c prod.case Let_def inst parts using early wall_slot[OF c assms(3,4)] by auto
qed

lemma day_fires_fixed:
  fixes from_ms c0 :: int
  assumes "\<And>t. off tz t = c0" "c0 mod 1000 = 0" "spec_ok s"
  defines "L \<equiv> from_ms + c0"
  defines "D \<equiv> day_fires off tz from_ms (zonedParts off tz from_ms) s"
  shows "D k = Some t \<Longrightarrow> fires s (t + c0) \<and> L < t + c0 \<and> (t + c0) div ms_day = L div ms_day + int k
      \<and> (\<forall>l. fires s l \<longrightarrow> l div ms_day = L div ms_day + int k \<longrightarrow> L < l \<longrightarrow> t + c0 \<le> l)"
    and "D k = None \<Longrightarrow> fires s l \<Longrightarrow> l div ms_day = L div ms_day + int k \<Longrightarrow> \<not> L < l"
proof -
  let ?z = "L div ms_day + int k"
  have civ: "addCalendarDays (w_year w, w_month w, w_day w) (int k) = civil_of ?z" if "w = zonedParts off tz from_ms" for w
    using wall_minute(3)[of L] that by (simp add: addCalendarDays_def zonedParts_def assms(1) L_def minute_of_day(1))
  have bounds: "h \<in> set (hours s) \<Longrightarrow> h \<le> 23" "mi \<in> set (minutes s) \<Longrightarrow> mi \<le> 59" for h mi using assms(3) by (auto simp: spec_ok_def)
  define F where "F = (\<lambda>h mi. if L < slot ?z h mi then Some (slot ?z h mi - c0) else None)"
  have fa: "first_some (fires_at off tz from_ms (zonedParts off tz from_ms) (civil_of ?z) k h) (minutes s) = first_some (F h) (minutes s)"
    if "h \<in> set (hours s)" for h
    using fires_at_fixed[of off tz c0 h _ from_ms k, OF assms(1,2) bounds(1)[OF that] bounds(2)]
    unfolding F_def L_def by (intro first_some_cong) auto
  have D: "D k = (if dayMatches s (civil_of ?z) then first_some (\<lambda>h. first_some (F h) (minutes s)) (hours s) else None)"
    unfolding D_def day_fires_def Let_def civ[OF refl]
    using first_some_cong[of "hours s" "\<lambda>h. first_some (fires_at off tz from_ms (zonedParts off tz from_ms) (civil_of ?z) k h) (minutes s)", OF fa] by simp
  have srt: "sorted (hours s)" "sorted (minutes s)" using assms(3) by (auto simp: spec_ok_def)
  { assume "D k = Some t"
    then have day: "dayMatches s (civil_of ?z)" and fs: "first_some (\<lambda>h. first_some (F h) (minutes s)) (hours s) = Some t"
      by (auto simp: D split: if_splits)
    obtain us h vs where h: "hours s = us @ h # vs" "first_some (F h) (minutes s) = Some t" using first_some_Some[OF fs] by auto
    then obtain us' mi vs' where mi: "minutes s = us' @ mi # vs'" "F h mi = Some t" using first_some_Some by metis
    have t: "t + c0 = slot ?z h mi" "L < slot ?z h mi" using mi(2) by (auto simp: F_def split: if_splits)
    have fire: "fires s (t + c0)" unfolding t(1) using day h(1) mi(1) assms(3) by (intro slot_fires) auto
    have dz: "slot ?z g n div ms_day = ?z" if "g \<le> 23" "n \<le> 59" for g n
    proof -
      have "slot ?z g n = ms_day * ?z + (int g * 60 + int n) * 60000" by (simp add: slot_def)
      then show ?thesis using that by (intro int_div_pos_eq) (auto simp: ms_day_def)
    qed
    have "t + c0 \<le> l" if l: "fires s l" "l div ms_day = ?z" "L < l" for l
    proof -
      obtain g n where g: "g \<in> set (hours s)" "n \<in> set (minutes s)" "l = slot ?z g n" using fires_slot[OF l(1)] l(2) by auto
      then have fg: "F g n \<noteq> None" using l(3) by (simp add: F_def)
      then have "first_some (F g) (minutes s) \<noteq> None" using g(2) by (auto simp: first_some_None)
      then obtain h' where h': "h' \<in> set (hours s)" "first_some (F h') (minutes s) = Some t" "h' \<le> g"
        using first_some_least[OF fs srt(1) g(1)] by auto
      show ?thesis
      proof (cases "h' = g")
        case True
        then obtain n' where "F g n' = Some t" "n' \<le> n" using first_some_least[of "F g", OF _ srt(2) g(2) fg] h'(2) by blast
        then have "t + c0 = slot ?z g n'" "n' \<le> n" by (auto simp: F_def split: if_splits)
        then show ?thesis unfolding g(3) by (simp add: slot_def)
      next
        case False
        obtain n' where n': "n' \<in> set (minutes s)" "F h' n' = Some t" using first_some_Some[OF h'(2)] by (metis in_set_conv_decomp)
        then have "t + c0 = slot ?z h' n'" by (auto simp: F_def split: if_splits)
        moreover have "h' < g" "n' \<le> 59" using False h'(3) bounds(2)[OF n'(1)] by auto
        ultimately show ?thesis unfolding g(3) by (auto simp: slot_def)
      qed
    qed
    then show "fires s (t + c0) \<and> L < t + c0 \<and> (t + c0) div ms_day = ?z
      \<and> (\<forall>l. fires s l \<longrightarrow> l div ms_day = ?z \<longrightarrow> L < l \<longrightarrow> t + c0 \<le> l)"
      using fire t dz[OF bounds(1)[of h] bounds(2)[of mi]] h(1) mi(1) by simp }
  { assume n: "D k = None" and l: "fires s l" "l div ms_day = ?z"
    obtain g m where g: "g \<in> set (hours s)" "m \<in> set (minutes s)" "l = slot ?z g m" "dayMatches s (civil_of ?z)"
      using fires_slot[OF l(1)] l(2) by auto
    then have "F g m = None" using n by (auto simp: D first_some_None)
    then show "\<not> L < l" using g(3) by (auto simp: F_def split: if_splits) }
qed

text \<open> C27.
  The projection is exact. In a zone of one offset, a projected instant lies after \<open>from\<close>, the
  expression fires at it, and it fires at no instant between; no projection means that it does not fire
  on the day of \<open>from\<close> or on any of the 1830 days after it.\<close>
theorem cron_next_exact:
  assumes "\<And>t. off (normalizeTimeZone known zones resolved tz ''UTC'') t = c0" and "c0 mod 1000 = 0"
    and "parseCron expr = ret s" and "nextCronDate known zones resolved off expr from_ms tz = ret r"
  shows "(\<forall>t. r = Some t \<longrightarrow> from_ms < t \<and> fires s (t + c0) \<and> (\<forall>u. from_ms < u \<longrightarrow> u < t \<longrightarrow> \<not> fires s (u + c0)))
    \<and> (r = None \<longrightarrow> (\<forall>u. from_ms < u \<longrightarrow> (u + c0) div ms_day \<le> (from_ms + c0) div ms_day + 1830 \<longrightarrow> \<not> fires s (u + c0)))"
proof -
  let ?z = "normalizeTimeZone known zones resolved tz ''UTC''"
  let ?D = "day_fires off ?z from_ms (zonedParts off ?z from_ms) s"
  let ?L = "from_ms + c0"
  have r: "r = first_some ?D [0..<Suc SEARCH_DAYS]"
    using assms(3,4) by (auto simp: nextCronDate_def Let_def split: if_splits)
  note day = day_fires_fixed[of off ?z c0 s from_ms, OF assms(1,2) parse_spec_ok[OF assms(3)]]
  have days: "\<exists>k. u div ms_day = ?L div ms_day + int k" if "?L < u" for u
    using zdiv_mono1[of ?L u ms_day] that by (intro exI[of _ "nat (u div ms_day - ?L div ms_day)"]) (simp add: ms_day_def)
  have upto: "first_some ?D [0..<n] = None \<Longrightarrow> ?L < u + c0 \<Longrightarrow> fires s (u + c0) \<Longrightarrow> ?L div ms_day + int n \<le> (u + c0) div ms_day" for n u
  proof -
    assume none: "first_some ?D [0..<n] = None" and u: "?L < u + c0" "fires s (u + c0)"
    obtain k where k: "(u + c0) div ms_day = ?L div ms_day + int k" using days[OF u(1)] by blast
    have "\<not> k < n" using none day(2)[OF _ u(2) k] u(1) by (auto simp: first_some_None)
    then show "?L div ms_day + int n \<le> (u + c0) div ms_day" using k by simp
  qed
  show ?thesis
  proof (intro conjI allI impI)
    fix t assume "r = Some t"
    then obtain us k vs where k: "[0..<Suc SEARCH_DAYS] = us @ k # vs" "?D k = Some t" "\<forall>j\<in>set us. ?D j = None"
      using first_some_Some[of ?D _ t] r by metis
    have "length us < Suc SEARCH_DAYS" using arg_cong[OF k(1), of length] by simp
    then have "length us = k" using nth_append_length[of us k vs] by (simp add: k(1)[symmetric] del: upt_Suc)
    then have "us = [0..<k]"
      using arg_cong[OF k(1), of "take k"] \<open>length us < Suc SEARCH_DAYS\<close> by (simp add: take_upt del: upt_Suc)
    note t = day(1)[OF k(2)]
    show "from_ms < t" "fires s (t + c0)" using t by simp_all
    show "\<not> fires s (u + c0)" if u: "from_ms < u" "u < t" for u
    proof
      assume f: "fires s (u + c0)"
      have "first_some ?D [0..<k] = None" using k(3) \<open>us = [0..<k]\<close> by (simp add: first_some_None)
      then have "?L div ms_day + int k \<le> (u + c0) div ms_day" using upto f u(1) by simp
      moreover have "(u + c0) div ms_day \<le> (t + c0) div ms_day" using u(2) by (intro zdiv_mono1) (simp_all add: ms_day_def)
      ultimately have "(u + c0) div ms_day = ?L div ms_day + int k" using t by simp
      then show False using t f u by fastforce
    qed
  next
    fix u assume "r = None" "from_ms < u" "(u + c0) div ms_day \<le> (from_ms + c0) div ms_day + 1830"
    then show "\<not> fires s (u + c0)" using upto[of "Suc SEARCH_DAYS" u] r by (auto simp: SEARCH_DAYS_def)
  qed
qed

definition every_morning :: string where
  "every_morning = ''30 8 * * *''"

lemma every_morning_parsed:
  "\<exists>s. parseCron every_morning = ret s \<and> minutes s = [30] \<and> hours s = [8] \<and> set (daysOfMonth s) = {1..31} \<and> set (months s) = {1..12}
     \<and> {0..6} \<subseteq> set (daysOfWeek s) \<and> \<not> domRestricted s"
proof -
  have words: "words_between (trim every_morning) = [''30'', ''8'', ''*'', ''*'', ''*'']" by code_simp
  have last: "and_then m (expand_items fd []) = m" for m :: "(cron_error, nat list) run" and fd
  proof (cases m)
    case (Some r)
    then show ?thesis by (cases r) simp_all
  qed simp
  have star: "expandField fd ''*'' = map_option Inr (step_loop 1 (f_max fd) (f_min fd) [])" for fd
    by (simp add: expandField_def expand_item_def item_step_def item_bounds_def trim_def is_space_def code_def Let_def comp_def last del: expand_items.simps(1))
  have num: "expandField fd s = map_option Inr (step_loop 1 n n [])"
    if "trim s = s" "split_on (CHR '','') s = [s]" "split_on (CHR ''/'') s = [s]" "s \<noteq> []" "s \<noteq> ''*''" "CHR ''-'' \<notin> set s"
      "parseNumber fd s = ret n" for fd s n
    using that by (simp add: expandField_def expand_item_def item_step_def item_bounds_def Let_def comp_def last del: expand_items.simps(1))
  have one: "steps_of 1 a b = {a..b}" for a b by (auto simp: steps_of_def)
  have loop: "\<exists>ys. step_loop 1 b a [] = Some ys \<and> set ys = {a..b}" for a b using step_loop_ends[of 1 b a "[]"] one by simp
  have single: "step_loop 1 n n [] = Some [n]" for n by (subst step_loop.simps, subst step_loop.simps) simp
  obtain ds where ds: "step_loop 1 31 1 [] = Some ds" "set ds = {1..31}" using loop by blast
  obtain ms where ms: "step_loop 1 12 1 [] = Some ms" "set ms = {1..12}" using loop by blast
  obtain ws where ws: "step_loop 1 7 0 [] = Some ws" "set ws = {0..7}" using loop by blast
  have t30: "trim ''30'' = ''30''" "split_on (CHR '','') ''30'' = [''30'']" "split_on (CHR ''/'') ''30'' = [''30'']" "CHR ''-'' \<notin> set ''30''"
      "parseNumber (FIELDS ! 0) ''30'' = ret 30" by code_simp+
  have t8: "trim ''8'' = ''8''" "split_on (CHR '','') ''8'' = [''8'']" "split_on (CHR ''/'') ''8'' = [''8'']" "CHR ''-'' \<notin> set ''8''"
      "parseNumber (FIELDS ! 1) ''8'' = ret 8" by code_simp+
  have "expandField (FIELDS ! 0) ''30'' = ret [30]" using num[OF t30(1-3) _ _ t30(4,5)] single by simp
  moreover have "expandField (FIELDS ! 1) ''8'' = ret [8]" using num[OF t8(1-3) _ _ t8(4,5)] single by simp
  ultimately have "expand_fields (zip FIELDS [''30'', ''8'', ''*'', ''*'', ''*'']) = ret [[30], [8], ds, ms, ws]"
    using ds(1) ms(1) ws(1) by (simp add: FIELDS_def star)
  then show ?thesis using ds(2) ms(2) ws(2) unfolding parseCron_def Let_def words by auto
qed


theorem cron_next_exact_witness:
  "\<exists>t s. nextCronDate (\<lambda>_. True) [] id (\<lambda>_ _. 19800000) every_morning 0 ''UTC'' = ret (Some t) \<and> parseCron every_morning = ret s
     \<and> 0 < t \<and> fires s (t + 19800000)"
proof -
  let ?off = "\<lambda>_ _. 19800000 :: int" and ?z = "normalizeTimeZone (\<lambda>_. True) [] id ''UTC'' ''UTC''"
  obtain s where s: "parseCron every_morning = ret s" "minutes s = [30]" "hours s = [8]" "set (daysOfMonth s) = {1..31}" "set (months s) = {1..12}"
      "{0..6} \<subseteq> set (daysOfWeek s)" "\<not> domRestricted s" using every_morning_parsed by blast
  have valid: "isValidTimeZone (\<lambda>_. True) ''UTC''" by code_simp
  let ?r = "first_some (day_fires ?off ?z 0 (zonedParts ?off ?z 0) s) [0..<Suc SEARCH_DAYS]"
  have run: "nextCronDate (\<lambda>_. True) [] id ?off every_morning 0 ''UTC'' = ret ?r"
    using s(1) valid by (simp add: nextCronDate_def Let_def)
  note ex = cron_next_exact[of ?off "\<lambda>_. True" "[]" id "''UTC''" 19800000 every_morning s 0 ?r, OF _ _ s(1) run]
  have "fires s (slot 0 8 30)"
  proof (rule slot_fires[OF parse_spec_ok[OF s(1)]])
    have "civil_of 0 = (1970, 1, 1)" "calendarWeekday (1970, 1, 1) = 4" by code_simp+
    moreover have "(4::nat) \<in> set (daysOfWeek s)" using s(6) by (rule subsetD) simp
    ultimately show "dayMatches s (civil_of 0)" using s(4,5,7) by (simp add: dayMatches_def)
  qed (simp_all add: s)
  then have f: "fires s (10800000 + 19800000)" by (simp add: slot_def ms_day_def)
  have "(10800000 + 19800000) div ms_day \<le> (0 + 19800000) div ms_day + 1830" "(19800000 :: int) mod 1000 = 0" by (simp_all add: ms_day_def)
  note ex = ex[OF refl this(2)] and day = this(1)
  have "?r \<noteq> None"
  proof
    assume "?r = None"
    then have "\<not> fires s (10800000 + 19800000)" using conjunct2[OF ex] day by (metis zero_less_numeral)
    then show False using f by blast
  qed
  then obtain t where "?r = Some t" by blast
  then show ?thesis using conjunct1[OF ex] s(1) run by metis
qed

end
