(* ===== verification/AuditPayload.thy ===== *)
theory AuditPayload
  imports SensitiveFields "HOL-Library.Multiset" "HOL-Library.List_Lexorder" "HOL-Library.Char_ord"
begin

text \<open>
  What reaches the audit trail: \<open>src/utils/auditPayload.js\<close>. A value of the program is an \<open>aval\<close>: JSON
  values, and what the driver adds to them (dates with their ISO text, object ids, decimals and other
  values stored as text, binary data), \<open>undefined\<close> and non-finite numbers. Documents that convert
  themselves (\<open>toObject\<close>) are taken converted; the path helpers are left out. The ellipsis is its three UTF-8 bytes.
\<close>

section \<open>Values\<close>

datatype aval =
    A_undefined
  | A_null
  | A_bool bool
  | A_num "rat option"
  | A_str string
  | A_date "string option"
  | A_text string
  | A_binary
  | A_arr "aval list"
  | A_obj "(string \<times> aval) list"

definition REDACTED :: string where
  "REDACTED = ''[REDACTED]''"

definition TRUNCATED :: string where
  "TRUNCATED = ''[truncated]''"

definition ellipsis :: string where
  "ellipsis = [char_of (226 :: nat), char_of (128 :: nat), char_of (166 :: nat)]"

definition SENSITIVE_EXACT :: "string list" where
  "SENSITIVE_EXACT = [''password'', ''passwd'', ''secret'', ''token'', ''authorization'', ''cookie'', ''set-cookie'', ''apikey'', ''api_key'',
     ''x-api-key'', ''privatekey'', ''private_key'', ''mfacode'', ''otp'', ''totp'', ''fingerprint'', ''recoverycode'', ''recoverycodes'',
     ''signingsecret'', ''webhooktoken'', ''refreshtoken'', ''accesstoken'', ''sessiontoken'', ''clientsecret'', ''mfasecret'']"

definition SENSITIVE_SUFFIXES :: "string list" where
  "SENSITIVE_SUFFIXES = [''password'', ''secret'', ''hash'', ''token'', ''apikey'']"

definition isSensitiveKey :: "string \<Rightarrow> bool" where
  "isSensitiveKey key \<longleftrightarrow> key \<noteq> []
     \<and> (to_lower key \<in> set SENSITIVE_EXACT \<or> list_ex (\<lambda>s. ends_with s (to_lower key)) SENSITIVE_SUFFIXES)"

definition truncateString :: "string \<Rightarrow> string" where
  "truncateString s = (if 4000 < length s then take 4000 s @ ellipsis @ TRUNCATED else s)"

text \<open>\<open>out[key] = v\<close> on a plain object: an existing property keeps its place, \<open>__proto__\<close> makes none.\<close>

definition set_own :: "string \<Rightarrow> json \<Rightarrow> (string \<times> json) list \<Rightarrow> (string \<times> json) list" where
  "set_own k v ps = (if k = ''__proto__'' then ps else alist_set k v ps)"

text \<open>\<open>None\<close> is a dropped value. The counter counts assignments, as the code does.\<close>

fun serialise :: "bool \<Rightarrow> bool \<Rightarrow> nat \<Rightarrow> aval \<Rightarrow> json option"
  and serialise_items :: "bool \<Rightarrow> bool \<Rightarrow> nat \<Rightarrow> nat \<Rightarrow> aval list \<Rightarrow> json list"
  and serialise_entries :: "bool \<Rightarrow> bool \<Rightarrow> nat \<Rightarrow> nat \<Rightarrow> (string \<times> aval) list \<Rightarrow> (string \<times> json) list \<Rightarrow> (string \<times> json) list" where
  "serialise redact limits depth A_undefined = None"
| "serialise redact limits depth A_null = Some JNull"
| "serialise redact limits depth (A_bool b) = Some (JBool b)"
| "serialise redact limits depth (A_num q) = Some (case q of Some n \<Rightarrow> JNum n | None \<Rightarrow> JNull)"
| "serialise redact limits depth (A_str s) = Some (JStr (if limits then truncateString s else s))"
| "serialise redact limits depth (A_date d) = Some (case d of Some t \<Rightarrow> JStr t | None \<Rightarrow> JNull)"
| "serialise redact limits depth (A_text s) = Some (JStr s)"
| "serialise redact limits depth A_binary = Some (JStr ''[binary]'')"
| "serialise redact limits depth (A_arr xs) =
     (if limits \<and> 8 \<le> depth then Some (JStr TRUNCATED)
      else Some (JArr (serialise_items redact limits depth 0 xs @ (if limits \<and> 200 < length xs then [JStr TRUNCATED] else []))))"
| "serialise redact limits depth (A_obj ps) =
     (if limits \<and> 8 \<le> depth then Some (JStr TRUNCATED)
      else Some (JObj (serialise_entries redact limits depth 0 ps [])))"
| "serialise_items redact limits depth i [] = []"
| "serialise_items redact limits depth i (x # xs) =
     (if limits \<and> 200 \<le> i then []
      else (case serialise redact limits (Suc depth) x of Some v \<Rightarrow> v | None \<Rightarrow> JNull) # serialise_items redact limits depth (Suc i) xs)"
| "serialise_entries redact limits depth n [] ps = ps"
| "serialise_entries redact limits depth n ((k, v) # rest) ps =
     (if limits \<and> 200 \<le> n then set_own TRUNCATED (JBool True) ps
      else if redact \<and> isSensitiveKey k then
        (if v = A_undefined then serialise_entries redact limits depth n rest ps
         else serialise_entries redact limits depth (Suc n) rest (set_own k (JStr REDACTED) ps))
      else
        (case serialise redact limits (Suc depth) v of
           None \<Rightarrow> serialise_entries redact limits depth n rest ps
         | Some w \<Rightarrow> serialise_entries redact limits depth (Suc n) rest (set_own k w ps)))"

definition toAuditValue :: "aval \<Rightarrow> json option" where
  "toAuditValue v = serialise True True 0 v"

section \<open>The trail holds no credential, and its rows are bounded\<close>

lemma set_set_own: "set (set_own k v ps) \<subseteq> insert (k, v) (set ps)"
  by (induction k v ps rule: alist_set.induct) (auto simp: set_own_def split: if_splits)

lemma length_set_own: "length (set_own k v ps) \<le> Suc (length ps)"
  by (induction k v ps rule: alist_set.induct) (auto simp: set_own_def split: if_splits)

lemma distinct_set_own: "distinct (map fst ps) \<Longrightarrow> distinct (map fst (set_own k v ps))"
  by (simp add: set_own_def distinct_alist_set)

lemma TRUNCATED_not_sensitive: "\<not> isSensitiveKey TRUNCATED"
  by code_simp

text \<open>What a stored payload may look like \<open>d\<close> levels above its floor.\<close>

fun clean :: "nat \<Rightarrow> json \<Rightarrow> bool" where
  "clean d (JArr xs) = (0 < d \<and> length xs \<le> 201 \<and> list_all (clean (d - 1)) xs)"
| "clean d (JObj ps) = (0 < d \<and> length ps \<le> 201 \<and> distinct (map fst ps)
     \<and> list_all (\<lambda>(k, v). (if isSensitiveKey k then v = JStr REDACTED else clean (d - 1) v)) ps)"
| "clean d v = True"

definition clean_entry :: "nat \<Rightarrow> string \<times> json \<Rightarrow> bool" where
  "clean_entry d = (\<lambda>(k, v). if isSensitiveKey k then v = JStr REDACTED else clean d v)"

lemma clean_obj: "clean d (JObj ps) = (0 < d \<and> length ps \<le> 201 \<and> distinct (map fst ps) \<and> list_all (clean_entry (d - 1)) ps)"
  by (simp add: clean_entry_def)

lemma clean_set_own: "list_all (clean_entry d) ps \<Longrightarrow> clean_entry d (k, v) \<Longrightarrow> list_all (clean_entry d) (set_own k v ps)"
  using set_set_own[of k v ps] by (auto simp: list_all_iff)

lemma serialise_clean:
  "r \<Longrightarrow> l \<Longrightarrow> depth \<le> 8 \<Longrightarrow> pred_option (clean (8 - depth)) (serialise r l depth v)"
  "r \<Longrightarrow> l \<Longrightarrow> depth < 8 \<Longrightarrow> i \<le> 200 \<Longrightarrow> list_all (clean (7 - depth)) (serialise_items r l depth i xs)
     \<and> length (serialise_items r l depth i xs) \<le> 200 - i"
  "r \<Longrightarrow> l \<Longrightarrow> depth < 8 \<Longrightarrow> n \<le> 200 \<Longrightarrow> length ps \<le> n \<Longrightarrow> distinct (map fst ps) \<Longrightarrow> list_all (clean_entry (7 - depth)) ps
     \<Longrightarrow> length (serialise_entries r l depth n es ps) \<le> 201 \<and> distinct (map fst (serialise_entries r l depth n es ps))
       \<and> list_all (clean_entry (7 - depth)) (serialise_entries r l depth n es ps)"
proof (induction r l depth v and r l depth i xs and r l depth n es ps rule: serialise_serialise_items_serialise_entries.induct)
  case (9 r l depth xs)
  then show ?case by (auto simp: list_all_iff split: if_splits)
next
  case (10 r l depth ps)
  then show ?case by (auto simp: clean_obj simp del: clean.simps(2))
next
  case (12 r l depth i x xs)
  show ?case
  proof (cases "200 \<le> i")
    case False
    have "pred_option (clean (8 - Suc depth)) (serialise r l (Suc depth) x)"
      using 12 False by simp
    then have "clean (7 - depth) (case serialise r l (Suc depth) x of Some v \<Rightarrow> v | None \<Rightarrow> JNull)"
      by (auto split: option.splits)
    then show ?thesis using 12 False by auto
  qed (use 12 in simp)
next
  case (14 r l depth n k v rest ps)
  show ?case
  proof (cases "200 \<le> n")
    case True
    have "clean_entry (7 - depth) (TRUNCATED, JBool True)"
      by (simp add: clean_entry_def TRUNCATED_not_sensitive)
    moreover have "length (set_own TRUNCATED (JBool True) ps) \<le> 201"
      using length_set_own[of TRUNCATED "JBool True" ps] 14 by linarith
    ultimately show ?thesis using True 14 by (simp add: clean_set_own distinct_set_own)
  next
    case False
    note [simp] = 14(4,5)
    show ?thesis
    proof (cases "isSensitiveKey k")
      case True
      have "clean_entry (7 - depth) (k, JStr REDACTED)"
        using True by (simp add: clean_entry_def)
      moreover have "length (set_own k (JStr REDACTED) ps) \<le> Suc n"
        using length_set_own[of k "JStr REDACTED" ps] 14 by linarith
      ultimately show ?thesis
        using True False 14 by (cases "v = A_undefined") (simp_all add: clean_set_own distinct_set_own)
    next
      case sens: False
      show ?thesis
      proof (cases "serialise r l (Suc depth) v")
        case None
        then show ?thesis using False sens 14 by simp
      next
        case (Some w)
        have "pred_option (clean (8 - Suc depth)) (serialise r l (Suc depth) v)"
          using 14 False sens by simp
        then have "clean_entry (7 - depth) (k, w)"
          using Some sens by (simp add: clean_entry_def)
        moreover have "length (set_own k w ps) \<le> Suc n"
          using length_set_own[of k w ps] 14 by linarith
        ultimately show ?thesis
          using Some False sens 14 by (simp add: clean_set_own distinct_set_own)
      qed
    qed
  qed
qed (simp_all split: option.splits)

text \<open>
  C34. What is stored in the audit trail holds no value of a credential-like key, at any depth, whatever
  the payload; it is nested at most eight levels deep, and no object or array has more than 200 entries
  and the truncation mark.
\<close>

theorem audit_payload_clean: "pred_option (clean 8) (toAuditValue v)"
  unfolding toAuditValue_def using serialise_clean(1)[of True True 0 v] by simp

section \<open>Canonical text\<close>

text \<open>The order in which an object lists its keys: array indices ascending, then the rest as inserted.\<close>

definition index_key :: "string \<Rightarrow> bool" where
  "index_key k \<longleftrightarrow> k = show_nat (dec_value k) \<and> dec_value k < 4294967295"

definition own_order :: "(string \<times> json) list \<Rightarrow> (string \<times> json) list" where
  "own_order ps = sort_key (\<lambda>p. dec_value (fst p)) (filter (\<lambda>p. index_key (fst p)) ps) @ filter (\<lambda>p. \<not> index_key (fst p)) ps"

fun sortKeys :: "json \<Rightarrow> json" where
  "sortKeys (JArr xs) = JArr (map sortKeys xs)"
| "sortKeys (JObj ps) = JObj (own_order (sort_key fst (map (\<lambda>(k, v). (k, sortKeys v)) ps)))"
| "sortKeys v = v"

definition escape_char :: "char \<Rightarrow> string" where
  "escape_char c =
     (if code c = 34 then [CHR 0x5C, CHR 0x22]
      else if code c = 92 then [CHR 0x5C, CHR 0x5C]
      else if code c = 8 then CHR 0x5C # ''b''
      else if code c = 9 then CHR 0x5C # ''t''
      else if code c = 10 then CHR 0x5C # ''n''
      else if code c = 12 then CHR 0x5C # ''f''
      else if code c = 13 then CHR 0x5C # ''r''
      else if code c < 32 then CHR 0x5C # ''u00'' @ [digit_char (code c div 16), digit_char (code c mod 16)]
      else [c])"

definition quote :: "string \<Rightarrow> string" where
  "quote s = CHR 0x22 # concat (map escape_char s) @ [CHR 0x22]"

text \<open>\<open>JSON.stringify\<close>; the text of a number is the argument \<open>nt\<close> (\<open>Number::toString\<close>).\<close>

fun stringify :: "(rat \<Rightarrow> string) \<Rightarrow> json \<Rightarrow> string" where
  "stringify nt JNull = ''null''"
| "stringify nt (JBool b) = (if b then ''true'' else ''false'')"
| "stringify nt (JNum n) = nt n"
| "stringify nt (JStr s) = quote s"
| "stringify nt (JArr xs) = ''['' @ join_with '','' (map (stringify nt) xs) @ '']''"
| "stringify nt (JObj ps) = [CHR 0x7B] @ join_with '','' (map (\<lambda>(k, v). quote k @ '':'' @ stringify nt v) ps) @ [CHR 0x7D]"

definition canonicalJson :: "(rat \<Rightarrow> string) \<Rightarrow> aval \<Rightarrow> string" where
  "canonicalJson nt v = stringify nt (sortKeys (case serialise False False 0 v of Some w \<Rightarrow> w | None \<Rightarrow> JNull))"

section \<open>The canonical text does not depend on the order of keys\<close>

text \<open>Two values that differ in the order of properties only, at any level.\<close>

inductive reordered :: "aval \<Rightarrow> aval \<Rightarrow> bool" where
  reordered_refl: "reordered v v"
| reordered_arr: "list_all2 reordered xs ys \<Longrightarrow> reordered (A_arr xs) (A_arr ys)"
| reordered_obj: "list_all2 (\<lambda>p q. fst p = fst q \<and> reordered (snd p) (snd q)) ps qs \<Longrightarrow> mset qs = mset rs \<Longrightarrow> distinct (map fst ps)
    \<Longrightarrow> reordered (A_obj ps) (A_obj rs)"

definition kept_entry :: "nat \<Rightarrow> string \<times> aval \<Rightarrow> (string \<times> json) option" where
  "kept_entry depth = (\<lambda>(k, v). if k = ''__proto__'' then None else map_option (Pair k) (serialise False False (Suc depth) v))"

lemma alist_set_new: "k \<notin> fst ` set ps \<Longrightarrow> alist_set k v ps = ps @ [(k, v)]"
  by (induction k v ps rule: alist_set.induct) auto

lemma serialise_entries_plain:
  "distinct (map fst ps @ map fst es) \<Longrightarrow> serialise_entries False False depth n es ps = ps @ List.map_filter (kept_entry depth) es"
proof (induction es arbitrary: n ps)
  case Nil
  then show ?case by (simp add: List.map_filter_def)
next
  case (Cons p es)
  obtain k v where p: "p = (k, v)" by (cases p)
  show ?case
  proof (cases "serialise False False (Suc depth) v")
    case None
    then have "kept_entry depth (k, v) = None" by (simp add: kept_entry_def)
    then show ?thesis using Cons p None by (simp add: List.map_filter_def)
  next
    case (Some w)
    show ?thesis
    proof (cases "k = ''__proto__''")
      case True
      then show ?thesis using Cons p Some by (simp add: List.map_filter_def kept_entry_def set_own_def)
    next
      case False
      then have "set_own k w ps = ps @ [(k, w)]"
        using Cons.prems p by (simp add: set_own_def alist_set_new)
      moreover have "kept_entry depth (k, v) = Some (k, w)"
        using False Some by (simp add: kept_entry_def)
      moreover have "distinct (map fst (ps @ [(k, w)]) @ map fst es)"
        using Cons.prems p by simp
      ultimately show ?thesis using Cons.IH[of "ps @ [(k, w)]"] p Some by (simp add: List.map_filter_def)
    qed
  qed
qed

lemma serialise_obj_plain: "distinct (map fst ps) \<Longrightarrow> serialise False False depth (A_obj ps) = Some (JObj (List.map_filter (kept_entry depth) ps))"
  using serialise_entries_plain[of "[]" ps depth 0] by simp

lemma serialise_items_plain:
  "serialise_items False False depth i xs = map (\<lambda>x. case serialise False False (Suc depth) x of Some v \<Rightarrow> v | None \<Rightarrow> JNull) xs"
  by (induction xs arbitrary: i) auto

lemma kept_entry_key: "kept_entry depth p = Some q \<Longrightarrow> fst q = fst p"
  by (auto simp: kept_entry_def split: prod.splits if_splits)

lemma mset_map_filter: "mset xs = mset ys \<Longrightarrow> mset (List.map_filter f xs) = mset (List.map_filter f ys)"
  by (simp add: List.map_filter_def)

lemma keys_map_filter: "k \<in> fst ` set (List.map_filter (kept_entry depth) ps) \<Longrightarrow> k \<in> fst ` set ps"
  by (induction ps) (auto simp: map_filter_simps dest: kept_entry_key split: option.splits)

lemma distinct_map_filter: "distinct (map fst ps) \<Longrightarrow> distinct (map fst (List.map_filter (kept_entry depth) ps))"
proof (induction ps)
  case (Cons p ps)
  show ?case
  proof (cases "kept_entry depth p")
    case None
    then show ?thesis using Cons by (simp add: map_filter_simps)
  next
    case (Some q)
    have "fst q \<notin> fst ` set (List.map_filter (kept_entry depth) ps)"
    proof
      assume "fst q \<in> fst ` set (List.map_filter (kept_entry depth) ps)"
      from keys_map_filter[OF this] show False using Cons.prems by (simp add: kept_entry_key[OF Some])
    qed
    then show ?thesis using Cons Some by (simp add: map_filter_simps)
  qed
qed (simp add: map_filter_simps)

lemma sort_pairs_eq: "mset xs = mset ys \<Longrightarrow> distinct (map fst xs) \<Longrightarrow> sort_key fst xs = sort_key fst (ys :: (string \<times> 'a) list)"
  by (rule sort_key_inj_key_eq) (auto simp: distinct_map)

abbreviation sort_entry :: "string \<times> json \<Rightarrow> string \<times> json" where
  "sort_entry \<equiv> (\<lambda>(k, v). (k, sortKeys v))"

lemma keys_sort_entry: "map fst (map sort_entry ps) = map fst ps"
  by (induction ps) auto

lemma items_reordered:
  "list_all2 (\<lambda>x y. sortKeys (f x) = sortKeys (f y)) xs ys \<Longrightarrow> sortKeys (JArr (map f xs)) = sortKeys (JArr (map f ys))"
  by (induction rule: list_all2_induct) simp_all

lemma kept_entry_reordered:
  "fst p = fst q \<Longrightarrow> map_option sortKeys (serialise False False (Suc depth) (snd p)) = map_option sortKeys (serialise False False (Suc depth) (snd q))
   \<Longrightarrow> map_option sort_entry (kept_entry depth p) = map_option sort_entry (kept_entry depth q)"
  by (cases p; cases q; cases "serialise False False (Suc depth) (snd p)"; cases "serialise False False (Suc depth) (snd q)")
     (auto simp: kept_entry_def)

lemma map_filter_reordered:
  "list_all2 (\<lambda>p q. map_option g (f p) = map_option g (f q)) ps qs \<Longrightarrow> map g (List.map_filter f ps) = map g (List.map_filter f qs)"
  proof (induction rule: list_all2_induct)
  case (Cons p ps q qs)
  then show ?case by (cases "f p"; cases "f q") (simp_all add: map_filter_simps)
qed (simp add: map_filter_simps)

lemma serialise_reordered:
  "reordered v w \<Longrightarrow> map_option sortKeys (serialise False False depth v) = map_option sortKeys (serialise False False depth w)"
proof (induction v w arbitrary: depth rule: reordered.induct)
  case (reordered_arr xs ys)
  have "list_all2 (\<lambda>x y. sortKeys (case serialise False False (Suc depth) x of Some v \<Rightarrow> v | None \<Rightarrow> JNull)
      = sortKeys (case serialise False False (Suc depth) y of Some v \<Rightarrow> v | None \<Rightarrow> JNull)) xs ys"
    using reordered_arr
  proof (rule list_all2_mono)
    fix x y
    assume "reordered x y \<and> (\<forall>d. map_option sortKeys (serialise False False d x) = map_option sortKeys (serialise False False d y))"
    then have "map_option sortKeys (serialise False False (Suc depth) x) = map_option sortKeys (serialise False False (Suc depth) y)" by blast
    then show "sortKeys (case serialise False False (Suc depth) x of Some v \<Rightarrow> v | None \<Rightarrow> JNull)
      = sortKeys (case serialise False False (Suc depth) y of Some v \<Rightarrow> v | None \<Rightarrow> JNull)"
      by (auto split: option.splits)
  qed
  then show ?case
    using items_reordered[of "\<lambda>x. case serialise False False (Suc depth) x of Some v \<Rightarrow> v | None \<Rightarrow> JNull" xs ys]
    by (simp add: serialise_items_plain)
next
  case (reordered_obj ps qs rs)
  let ?F = "List.map_filter (kept_entry depth)"
  have k: "map fst ps = map fst qs"
    using reordered_obj.IH(1) by (induction rule: list_all2_induct) simp_all
  have dq: "distinct (map fst qs)" using reordered_obj.hyps(2) by (simp only: k)
  have dr: "distinct (map fst rs)"
    using dq mset_eq_imp_distinct_iff[OF arg_cong[where f = "image_mset fst", OF reordered_obj.hyps(1), folded mset_map]] by (rule iffD1[rotated])
  have "list_all2 (\<lambda>p q. map_option sort_entry (kept_entry depth p) = map_option sort_entry (kept_entry depth q)) ps qs"
    using reordered_obj.IH(1) by (rule list_all2_mono) (use kept_entry_reordered in blast)
  then have m: "map sort_entry (?F ps) = map sort_entry (?F qs)" by (rule map_filter_reordered)
  have "mset (map sort_entry (?F qs)) = mset (map sort_entry (?F rs))"
    by (rule arg_cong[where f = "image_mset sort_entry", OF mset_map_filter[OF reordered_obj.hyps(1)], folded mset_map])
  moreover have "distinct (map fst (map sort_entry (?F qs)))"
    by (simp only: keys_sort_entry distinct_map_filter[OF dq])
  ultimately have "sort_key fst (map sort_entry (?F qs)) = sort_key fst (map sort_entry (?F rs))" by (rule sort_pairs_eq)
  then show ?case
    unfolding serialise_obj_plain[OF reordered_obj.hyps(2)] serialise_obj_plain[OF dr] option.map sortKeys.simps m by simp
qed (rule refl)

text \<open>
  The canonical text of a value is the same for every order of its properties, at every level: what
  is hashed does not depend on the order in which a document came back from the store.
\<close>

theorem canonical_order_free:
  assumes "reordered v w"
  shows "canonicalJson nt v = canonicalJson nt w"
proof -
  have "sortKeys (case serialise False False 0 v of Some j \<Rightarrow> j | None \<Rightarrow> JNull)
      = sortKeys (case serialise False False 0 w of Some j \<Rightarrow> j | None \<Rightarrow> JNull)"
    using serialise_reordered[OF assms, of 0] by (auto split: option.splits)
  then show ?thesis by (simp add: canonicalJson_def)
qed

theorem canonical_order_free_witness:
  "canonicalJson (\<lambda>n. ''1'') (A_obj [(''b'', A_bool True), (''a'', A_null)]) = canonicalJson (\<lambda>n. ''1'') (A_obj [(''a'', A_null), (''b'', A_bool True)])"
proof (rule canonical_order_free, rule reordered_obj)
  show "list_all2 (\<lambda>p q. fst p = fst q \<and> reordered (snd p) (snd q)) [(''b'', A_bool True), (''a'', A_null)] [(''b'', A_bool True), (''a'', A_null)]"
    by (simp add: reordered_refl)
qed simp_all

end
