(* ===== verification/CanonicalText.thy ===== *)
theory CanonicalText
  imports AuditPayload
begin

text \<open>
  The canonical text determines the value: \<open>JSON.stringify\<close> as \<open>src/utils/auditPayload.js\<close> uses it is
  injective, so what is hashed for the audit chain binds every property that is covered.
\<close>

section \<open>Strings\<close>

text \<open>The character an escaped text starts with, and what follows it.\<close>

definition unescape :: "string \<Rightarrow> (char \<times> string) option" where
  "unescape s =
     (case s of
        [] \<Rightarrow> None
      | c # t \<Rightarrow>
          if code c = 34 then None
          else if code c \<noteq> 92 then Some (c, t)
          else (case t of
                  [] \<Rightarrow> None
                | e # u \<Rightarrow>
                    if code e = 34 \<or> code e = 92 then Some (e, u)
                    else if e = CHR ''b'' then Some (char_of (8 :: nat), u)
                    else if e = CHR ''t'' then Some (char_of (9 :: nat), u)
                    else if e = CHR ''n'' then Some (char_of (10 :: nat), u)
                    else if e = CHR ''f'' then Some (char_of (12 :: nat), u)
                    else if e = CHR ''r'' then Some (char_of (13 :: nat), u)
                    else Some (char_of (hex_value (take 2 (drop 2 u))), drop 4 u)))"

lemma char_of_code [simp]: "char_of (code c) = c"
  by (simp add: code_def)

lemma char_eq_code: "c = d \<longleftrightarrow> code c = code d"
  by (metis char_of_code)

lemma code_lit: "code (CHR ''b'') = 98" "code (CHR ''t'') = 116" "code (CHR ''n'') = 110" "code (CHR ''f'') = 102" "code (CHR ''r'') = 114"
  "code (CHR ''u'') = 117" "code (CHR 0x5C) = 92" "code (CHR 0x22) = 34"
  by (simp_all add: code_def)

lemma unescape_plain: "code c \<noteq> 34 \<Longrightarrow> code c \<noteq> 92 \<Longrightarrow> unescape (c # x) = Some (c, x)"
  by (simp add: unescape_def)

lemma unescape_backslash: "unescape (CHR 0x5C # e # u) =
   (if code e = 34 \<or> code e = 92 then Some (e, u)
    else if e = CHR ''b'' then Some (char_of (8 :: nat), u)
    else if e = CHR ''t'' then Some (char_of (9 :: nat), u)
    else if e = CHR ''n'' then Some (char_of (10 :: nat), u)
    else if e = CHR ''f'' then Some (char_of (12 :: nat), u)
    else if e = CHR ''r'' then Some (char_of (13 :: nat), u)
    else Some (char_of (hex_value (take 2 (drop 2 u))), drop 4 u))"
  by (simp add: unescape_def code_lit)

lemma hex_pair: "a < 16 \<Longrightarrow> b < 16 \<Longrightarrow> hex_value [digit_char a, digit_char b] = 16 * a + b"
  by (simp add: hex_value_def hex_digit_digit_char)

lemma escape_special:
  "escape_char (char_of (34 :: nat)) = [CHR 0x5C, CHR 0x22]" "escape_char (char_of (92 :: nat)) = [CHR 0x5C, CHR 0x5C]"
  "escape_char (char_of (8 :: nat)) = CHR 0x5C # ''b''" "escape_char (char_of (9 :: nat)) = CHR 0x5C # ''t''"
  "escape_char (char_of (10 :: nat)) = CHR 0x5C # ''n''" "escape_char (char_of (12 :: nat)) = CHR 0x5C # ''f''"
  "escape_char (char_of (13 :: nat)) = CHR 0x5C # ''r''"
  by code_simp+

lemma char_of_lit: "char_of (34 :: nat) = CHR 0x22" "char_of (92 :: nat) = CHR 0x5C"
  by code_simp+

lemma unescape_special:
  "unescape (CHR 0x5C # CHR 0x22 # u) = Some (char_of (34 :: nat), u)" "unescape (CHR 0x5C # CHR 0x5C # u) = Some (char_of (92 :: nat), u)"
  "unescape (CHR 0x5C # CHR ''b'' # u) = Some (char_of (8 :: nat), u)" "unescape (CHR 0x5C # CHR ''t'' # u) = Some (char_of (9 :: nat), u)"
  "unescape (CHR 0x5C # CHR ''n'' # u) = Some (char_of (10 :: nat), u)" "unescape (CHR 0x5C # CHR ''f'' # u) = Some (char_of (12 :: nat), u)"
  "unescape (CHR 0x5C # CHR ''r'' # u) = Some (char_of (13 :: nat), u)"
  by (simp_all add: unescape_backslash code_lit char_of_lit)

lemma of_code: "code c = n \<Longrightarrow> c = char_of n"
  by auto

lemma unescape_escape: "unescape (escape_char c @ x) = Some (c, x)"
proof -
  consider "code c = 34" | "code c = 92" | "code c = 8" | "code c = 9" | "code c = 10" | "code c = 12" | "code c = 13"
    | "code c < 32" "code c \<notin> {8, 9, 10, 12, 13}" | "32 \<le> code c" "code c \<noteq> 34" "code c \<noteq> 92"
    by (cases "code c = 34"; cases "code c = 92"; cases "code c < 32"; cases "code c \<in> {8, 9, 10, 12, 13}") auto
  then show ?thesis
  proof cases
    case 8
    then have e: "escape_char c = CHR 0x5C # ''u00'' @ [digit_char (code c div 16), digit_char (code c mod 16)]"
      by (simp add: escape_char_def)
    have "hex_value [digit_char (code c div 16), digit_char (code c mod 16)] = code c"
      using 8 by (subst hex_pair) simp_all
    then show ?thesis by (simp add: e unescape_backslash code_lit)
  next
    case 9
    then show ?thesis by (simp add: escape_char_def unescape_plain)
  qed (drule of_code, simp only: escape_special append.simps unescape_special)+
qed

lemma unescape_quote: "unescape (CHR 0x22 # x) = None"
  by (simp add: unescape_def code_lit)

lemma escaped_inj:
  "concat (map escape_char s) @ CHR 0x22 # x = concat (map escape_char t) @ CHR 0x22 # y \<Longrightarrow> s = t \<and> x = y"
proof (induction s arbitrary: t)
  case Nil
  show ?case
  proof (cases t)
    case Nil
    then show ?thesis using Nil.prems by simp
  next
    case (Cons d t')
    have "unescape (concat (map escape_char t) @ CHR 0x22 # y) = Some (d, concat (map escape_char t') @ CHR 0x22 # y)"
      by (simp add: Cons unescape_escape)
    then show ?thesis unfolding Nil[symmetric] by (simp add: unescape_quote)
  qed
next
  case (Cons c s)
  have u: "unescape (concat (map escape_char (c # s)) @ CHR 0x22 # x) = Some (c, concat (map escape_char s) @ CHR 0x22 # x)"
    by (simp add: unescape_escape)
  show ?case
  proof (cases t)
    case Nil
    then show ?thesis using u Cons.prems by (simp add: unescape_quote)
  next
    case (Cons d t')
    have "unescape (concat (map escape_char t) @ CHR 0x22 # y) = Some (d, concat (map escape_char t') @ CHR 0x22 # y)"
      by (simp add: Cons unescape_escape)
    then have "c = d \<and> concat (map escape_char s) @ CHR 0x22 # x = concat (map escape_char t') @ CHR 0x22 # y"
      using u Cons.prems by simp
    then show ?thesis using Cons.IH Cons by blast
  qed
qed

lemma quote_inj: "quote s @ x = quote t @ y \<Longrightarrow> s = t \<and> x = y"
  using escaped_inj[of s x t y] by (simp add: quote_def)

section \<open>Values\<close>

text \<open>
  \<open>Number::toString\<close> is a parameter: it gives different numbers different texts, made of digits and the
  signs of a decimal number.
\<close>

definition number_char :: "char \<Rightarrow> bool" where
  "number_char c \<longleftrightarrow> is_digit c \<or> c = CHR ''-'' \<or> c = CHR ''+'' \<or> c = CHR ''.'' \<or> c = CHR ''e''"

definition number_text :: "(rat \<Rightarrow> string) \<Rightarrow> bool" where
  "number_text nt \<longleftrightarrow> inj nt \<and> (\<forall>q. nt q \<noteq> [] \<and> list_all number_char (nt q))"

definition stops :: "string \<Rightarrow> bool" where
  "stops s \<longleftrightarrow> (case s of [] \<Rightarrow> True | c # t \<Rightarrow> \<not> number_char c)"

lemma stops_simps [simp]: "stops []" "stops (CHR '','' # t)" "stops (CHR '']'' # t)" "stops (CHR 0x7D # t)"
  by (simp_all add: stops_def number_char_def is_digit_def code_def)

lemma number_text_cut:
  "list_all number_char a \<Longrightarrow> list_all number_char b \<Longrightarrow> stops x \<Longrightarrow> stops y \<Longrightarrow> a @ x = b @ y \<Longrightarrow> a = b \<and> x = y"
proof (induction a arbitrary: b)
  case Nil
  then show ?case by (cases b) (auto simp: stops_def)
next
  case (Cons c a)
  then show ?case by (cases b) (auto simp: stops_def)
qed

definition tail_text :: "('a \<Rightarrow> string) \<Rightarrow> 'a list \<Rightarrow> string" where
  "tail_text f xs = concat (map (\<lambda>x. CHR '','' # f x) xs)"

lemma join_tail: "join_with '','' (map f (x # xs)) = f x @ tail_text f xs"
  by (induction xs arbitrary: x) (simp_all add: tail_text_def)

lemma join_map_tail: "join_with '','' (map f xs) = (case xs of [] \<Rightarrow> [] | x # xs' \<Rightarrow> f x @ tail_text f xs')"
proof (cases xs)
  case (Cons a as)
  then show ?thesis using join_tail[of f a as] by (simp only: list.case)
qed simp

lemma head_differs: "u \<noteq> [] \<Longrightarrow> hd u \<noteq> c \<Longrightarrow> u @ v \<noteq> c # w"
  by (cases u) auto

lemma tail_text_Cons: "tail_text f (x # xs) = CHR '','' # f x @ tail_text f xs"
  by (simp add: tail_text_def)

lemma tail_text_Nil: "tail_text f [] = []"
  by (simp add: tail_text_def)

definition cut_free :: "('a \<Rightarrow> string) \<Rightarrow> 'a \<Rightarrow> bool" where
  "cut_free f a \<longleftrightarrow> (\<forall>b x y. stops x \<longrightarrow> stops y \<longrightarrow> f a @ x = f b @ y \<longrightarrow> a = b \<and> x = y)"

lemma tail_text_inj:
  assumes "list_all (cut_free f) xs" and "close = CHR '']'' \<or> close = CHR 0x7D"
  shows "tail_text f xs @ close # x = tail_text f ys @ close # y \<Longrightarrow> xs = ys \<and> x = y"
  using assms(1)
proof (induction xs arbitrary: ys)
  case Nil
  then show ?case using assms(2) by (cases ys) (auto simp: tail_text_Cons tail_text_Nil)
next
  case (Cons a xs)
  show ?case
  proof (cases ys)
    case Nil
    then show ?thesis using Cons.prems assms(2) by (auto simp: tail_text_Cons tail_text_Nil)
  next
    case ys: (Cons b ys')
    have s: "stops (tail_text f zs @ close # z)" for zs z
      using assms(2) by (cases zs) (auto simp: tail_text_Cons tail_text_Nil)
    have "f a @ tail_text f xs @ close # x = f b @ tail_text f ys' @ close # y"
      using Cons.prems(1) by (simp add: ys tail_text_Cons)
    then have "a = b \<and> tail_text f xs @ close # x = tail_text f ys' @ close # y"
      using Cons.prems(2) s unfolding list.pred_inject(2) cut_free_def by blast
    then show ?thesis using Cons.IH[of ys'] Cons.prems(2) ys by simp
  qed
qed

lemma list_text_inj:
  assumes "list_all (cut_free f) xs" and "close = CHR '']'' \<or> close = CHR 0x7D"
    and first: "\<And>a. f a \<noteq> [] \<and> hd (f a) \<noteq> close"
    and eq: "join_with '','' (map f xs) @ close # x = join_with '','' (map f ys) @ close # y"
  shows "xs = ys \<and> x = y"
proof (cases xs)
  case Nil
  show ?thesis
  proof (cases ys)
    case ys: (Cons b ys')
    have "f b @ tail_text f ys' @ close # y \<noteq> close # x"
      using first[of b] by (intro head_differs) simp_all
    moreover have "f b @ tail_text f ys' @ close # y = close # x"
      using eq unfolding ys Nil join_tail by simp
    ultimately show ?thesis by contradiction
  qed (use eq Nil in simp)
next
  case (Cons a xs')
  show ?thesis
  proof (cases ys)
    case Nil
    have "f a @ tail_text f xs' @ close # x \<noteq> close # y"
      using first[of a] by (intro head_differs) simp_all
    moreover have "f a @ tail_text f xs' @ close # x = close # y"
      using eq unfolding Cons Nil join_tail by simp
    ultimately show ?thesis by contradiction
  next
    case ys: (Cons b ys')
    have s: "stops (tail_text f zs @ close # z)" for zs z
      using assms(2) by (cases zs) (auto simp: tail_text_Cons tail_text_Nil)
    have "f a @ tail_text f xs' @ close # x = f b @ tail_text f ys' @ close # y"
      using eq by (simp only: Cons ys join_tail append_assoc)
    then have "a = b \<and> tail_text f xs' @ close # x = tail_text f ys' @ close # y"
      using assms(1) s unfolding Cons list.pred_inject(2) cut_free_def by blast
    then show ?thesis using tail_text_inj[of f xs' close x ys' y] assms(1,2) Cons ys by simp
  qed
qed

fun json_kind :: "json \<Rightarrow> nat" where
  "json_kind JNull = 0"
| "json_kind (JBool b) = (if b then 1 else 2)"
| "json_kind (JNum n) = 3"
| "json_kind (JStr s) = 4"
| "json_kind (JArr xs) = 5"
| "json_kind (JObj ps) = 6"

definition kind_of_char :: "char \<Rightarrow> nat" where
  "kind_of_char c = (if number_char c then 3 else if c = CHR ''n'' then 0 else if c = CHR ''t'' then 1 else if c = CHR ''f'' then 2
     else if c = CHR 0x22 then 4 else if c = CHR ''['' then 5 else if c = CHR 0x7B then 6 else 7)"

lemma kind_of_lit: "kind_of_char (CHR ''n'') = 0" "kind_of_char (CHR ''t'') = 1" "kind_of_char (CHR ''f'') = 2"
  "kind_of_char (CHR 0x22) = 4" "kind_of_char (CHR ''['') = 5" "kind_of_char (CHR 0x7B) = 6" "kind_of_char (CHR '']'') = 7"
  "kind_of_char (CHR 0x7D) = 7"
  by code_simp+

lemma stringify_kind:
  assumes "number_text nt"
  shows "stringify nt v \<noteq> [] \<and> kind_of_char (hd (stringify nt v)) = json_kind v"
proof (cases v)
  case (JNum n)
  have "nt n \<noteq> [] \<and> list_all number_char (nt n)" using assms by (simp add: number_text_def)
  then have "nt n \<noteq> [] \<and> number_char (hd (nt n))" by (cases "nt n") auto
  then show ?thesis using JNum by (simp add: kind_of_char_def)
qed (simp_all add: kind_of_lit quote_def)

definition entry_text :: "(rat \<Rightarrow> string) \<Rightarrow> string \<times> json \<Rightarrow> string" where
  "entry_text nt = (\<lambda>(k, v). quote k @ '':'' @ stringify nt v)"

lemma entry_cut_free: "cut_free (stringify nt) (snd p) \<Longrightarrow> cut_free (entry_text nt) p"
  unfolding cut_free_def
proof (intro allI impI)
  fix q x y
  assume f: "\<forall>b x y. stops x \<longrightarrow> stops y \<longrightarrow> stringify nt (snd p) @ x = stringify nt b @ y \<longrightarrow> snd p = b \<and> x = y"
    and s: "stops x" "stops y" and e: "entry_text nt p @ x = entry_text nt q @ y"
  have "quote (fst p) @ '':'' @ stringify nt (snd p) @ x = quote (fst q) @ '':'' @ stringify nt (snd q) @ y"
    using e by (simp add: entry_text_def case_prod_beta)
  then have "fst p = fst q \<and> '':'' @ stringify nt (snd p) @ x = '':'' @ stringify nt (snd q) @ y" by (rule quote_inj)
  then have "fst p = fst q \<and> snd p = snd q \<and> x = y" using f s by simp
  then show "p = q \<and> x = y" by (simp add: prod_eq_iff)
qed

lemma stringify_cut_free:
  assumes nt: "number_text nt"
  shows "cut_free (stringify nt) v"
proof (induction v)
  case (JNum n)
  show ?case unfolding cut_free_def
  proof (intro allI impI)
    fix w x y
    assume s: "stops x" "stops y" and e: "stringify nt (JNum n) @ x = stringify nt w @ y"
    have "json_kind w = json_kind (JNum n)"
      using stringify_kind[OF nt, of "JNum n"] stringify_kind[OF nt, of w] e by (metis hd_append2)
    then obtain m where w: "w = JNum m" by (cases w) (auto split: if_splits)
    have "nt n = nt m \<and> x = y"
      using number_text_cut[of "nt n" "nt m" x y] nt s e by (simp add: w number_text_def)
    then show "JNum n = w \<and> x = y" using nt by (simp add: w number_text_def inj_eq)
  qed
next
  case (JStr s)
  show ?case unfolding cut_free_def
  proof (intro allI impI)
    fix w x y
    assume e: "stringify nt (JStr s) @ x = stringify nt w @ y"
    have "json_kind w = json_kind (JStr s)"
      using stringify_kind[OF nt, of "JStr s"] stringify_kind[OF nt, of w] e by (metis hd_append2)
    then obtain u where w: "w = JStr u" by (cases w) (auto split: if_splits)
    show "JStr s = w \<and> x = y" using quote_inj[of s x u y] e by (simp add: w)
  qed
next
  case (JArr xs)
  show ?case unfolding cut_free_def
  proof (intro allI impI)
    fix w x y
    assume e: "stringify nt (JArr xs) @ x = stringify nt w @ y"
    have "json_kind w = json_kind (JArr xs)"
      using stringify_kind[OF nt, of "JArr xs"] stringify_kind[OF nt, of w] e by (metis hd_append2)
    then obtain ys where w: "w = JArr ys" by (cases w) (auto split: if_splits)
    have "xs = ys \<and> x = y"
    proof (rule list_text_inj)
      show "list_all (cut_free (stringify nt)) xs" using JArr by (simp add: list_all_iff)
      show "stringify nt a \<noteq> [] \<and> hd (stringify nt a) \<noteq> CHR '']''" for a
        using stringify_kind[OF nt, of a] kind_of_lit(7) by (cases a) (auto split: if_splits)
    qed (use e w in simp_all)
    then show "JArr xs = w \<and> x = y" by (simp add: w)
  qed
next
  case (JObj ps)
  show ?case unfolding cut_free_def
  proof (intro allI impI)
    fix w x y
    assume e: "stringify nt (JObj ps) @ x = stringify nt w @ y"
    have "json_kind w = json_kind (JObj ps)"
      using stringify_kind[OF nt, of "JObj ps"] stringify_kind[OF nt, of w] e by (metis hd_append2)
    then obtain qs where w: "w = JObj qs" by (cases w) (auto split: if_splits)
    have "ps = qs \<and> x = y"
    proof (rule list_text_inj)
      show "list_all (cut_free (entry_text nt)) ps"
        unfolding list_all_iff using JObj entry_cut_free by (metis snds.intros prod.collapse)
      show "entry_text nt a \<noteq> [] \<and> hd (entry_text nt a) \<noteq> CHR 0x7D" for a
        by (cases a) (simp add: entry_text_def quote_def)
    qed (use e w in \<open>simp_all add: entry_text_def[abs_def]\<close>)
    then show "JObj ps = w \<and> x = y" by (simp add: w)
  qed
next
  case JNull
  show ?case unfolding cut_free_def
  proof (intro allI impI)
    fix w x y
    assume e: "stringify nt JNull @ x = stringify nt w @ y"
    have "json_kind w = json_kind JNull"
      using stringify_kind[OF nt, of JNull] stringify_kind[OF nt, of w] e by (metis hd_append2)
    then have "w = JNull" by (cases w) (auto split: if_splits)
    then show "JNull = w \<and> x = y" using e by simp
  qed
next
  case (JBool b)
  show ?case unfolding cut_free_def
  proof (intro allI impI)
    fix w x y
    assume e: "stringify nt (JBool b) @ x = stringify nt w @ y"
    have "json_kind w = json_kind (JBool b)"
      using stringify_kind[OF nt, of "JBool b"] stringify_kind[OF nt, of w] e by (metis hd_append2)
    then have "w = JBool b" by (cases w) (auto split: if_splits)
    then show "JBool b = w \<and> x = y" using e by simp
  qed
qed

definition plain_json :: "aval \<Rightarrow> json" where
  "plain_json v = (case serialise False False 0 v of Some w \<Rightarrow> w | None \<Rightarrow> JNull)"

lemma canonical_inj:
  assumes "number_text nt" and "canonicalJson nt v = canonicalJson nt w"
  shows "sortKeys (plain_json v) = sortKeys (plain_json w)"
proof -
  have "stringify nt (sortKeys (plain_json v)) @ [] = stringify nt (sortKeys (plain_json w)) @ []"
    using assms(2) by (simp add: canonicalJson_def plain_json_def)
  then show ?thesis
    using stringify_cut_free[OF assms(1)] stops_simps(1) unfolding cut_free_def by blast
qed

text \<open>
  The canonical text determines the value: two values with the same canonical text are serialised to
  the same JSON, up to the order of properties. What is hashed therefore binds every covered property.
\<close>

theorem canonical_text_binds:
  assumes "number_text nt" and "canonicalJson nt v = canonicalJson nt w"
  shows "sortKeys (plain_json v) = sortKeys (plain_json w)"
  by (rule canonical_inj[OF assms])

text \<open>A number text for the examples: numerator and denominator.\<close>

definition ratio_text :: "rat \<Rightarrow> string" where
  "ratio_text q = (case quotient_of q of (a, b) \<Rightarrow> (if a < 0 then ''-'' else ''+'') @ show_nat (nat \<bar>a\<bar>) @ ''e'' @ show_nat (nat b))"

lemma show_nat_cut: "show_nat a @ CHR ''e'' # x = show_nat b @ CHR ''e'' # y \<Longrightarrow> a = b \<and> x = y"
proof -
  assume e: "show_nat a @ CHR ''e'' # x = show_nat b @ CHR ''e'' # y"
  have n: "takeWhile is_digit (show_nat n @ CHR ''e'' # z) = show_nat n" for n z
    using show_nat_digits[of n] by (subst takeWhile_append2) (simp_all add: is_digit_def code_def)
  have "show_nat a = show_nat b" using n[of a x] n[of b y] e by simp
  then show "a = b \<and> x = y" using e show_nat_inj by auto
qed

lemma number_text_ratio: "number_text ratio_text"
  unfolding number_text_def
proof (intro conjI allI injI)
  fix p q
  assume e: "ratio_text p = ratio_text q"
  obtain a b c d where pq: "quotient_of p = (a, b)" "quotient_of q = (c, d)" by (metis surj_pair)
  have pos: "0 < b" "0 < d" using quotient_of_denom_pos pq by blast+
  have "(a < 0 \<longleftrightarrow> c < 0) \<and> show_nat (nat \<bar>a\<bar>) @ CHR ''e'' # show_nat (nat b) = show_nat (nat \<bar>c\<bar>) @ CHR ''e'' # show_nat (nat d)"
    using e by (simp add: ratio_text_def pq split: if_splits)
  then have "(a < 0 \<longleftrightarrow> c < 0) \<and> nat \<bar>a\<bar> = nat \<bar>c\<bar> \<and> nat b = nat d"
    using show_nat_cut show_nat_inj by blast
  then have "a = c \<and> b = d" using pos by auto
  then show "p = q" using pq by (metis quotient_of_inject)
next
  fix q
  show "ratio_text q \<noteq> []" by (simp add: ratio_text_def split: prod.splits)
  have d: "list_all number_char (show_nat n)" for n
    using show_nat_digits[of n] by (auto simp: list_all_iff number_char_def)
  show "list_all number_char (ratio_text q)"
    by (simp add: ratio_text_def d number_char_def split: prod.splits)
qed

theorem canonical_text_binds_witness:
  "sortKeys (plain_json (A_obj [(''b'', A_num (Some 1)), (''a'', A_str ''x'')])) = sortKeys (plain_json (A_obj [(''a'', A_str ''x''), (''b'', A_num (Some 1))]))"
proof (rule canonical_text_binds[OF number_text_ratio])
  show "canonicalJson ratio_text (A_obj [(''b'', A_num (Some 1)), (''a'', A_str ''x'')])
      = canonicalJson ratio_text (A_obj [(''a'', A_str ''x''), (''b'', A_num (Some 1))])"
    unfolding canonicalJson_def
    by (rule arg_cong[where f = "stringify ratio_text"]) code_simp
qed

end
