(* ===== verification/IsoText.thy ===== *)
theory IsoText
  imports Calendar
begin

text \<open>
  \<open>Date.prototype.toISOString\<close> over the calendar: an instant is its milliseconds since the epoch.
\<close>

definition pad_start :: "nat \<Rightarrow> string \<Rightarrow> string" where
  "pad_start w s = replicate (w - length s) (CHR ''0'') @ s"

definition pad_int :: "nat \<Rightarrow> int \<Rightarrow> string" where
  "pad_int w n = pad_start w (show_nat (nat n))"

definition iso_year :: "int \<Rightarrow> string" where
  "iso_year y = (if 0 \<le> y \<and> y \<le> 9999 then pad_int 4 y else if y < 0 then ''-'' @ pad_int 6 (- y) else ''+'' @ pad_int 6 y)"

definition toISOString :: "int \<Rightarrow> string" where
  "toISOString t =
     (case civil_of (t div 86400000) of (y, m, d) \<Rightarrow>
        let r = t mod 86400000 in
        iso_year y @ ''-'' @ pad_int 2 m @ ''-'' @ pad_int 2 d @ ''T'' @ pad_int 2 (r div 3600000) @ '':'' @ pad_int 2 (r div 60000 mod 60)
          @ '':'' @ pad_int 2 (r div 1000 mod 60) @ ''.'' @ pad_int 3 (r mod 1000) @ ''Z'')"

end
