(* ===== verification/AuditChain.thy ===== *)
theory AuditChain
  imports CanonicalText IsoText
begin

text \<open>
  The hash chain of the audit trail: sealing and checking (\<open>src/utils/auditChain.js\<close>), verification
  (\<open>src/services/auditChain.service.js\<close>) and the repository that appends rows
  (\<open>src/repositories/auditLog.repository.js\<close>). The digests of \<open>node:crypto\<close> and \<open>Number::toString\<close> are
  parameters, collected in \<open>primitives\<close>.
\<close>

section \<open>Rows\<close>

text \<open>What a row may hold under \<open>seq\<close>: nothing, a number, or a value of another type.\<close>

datatype seq_value = No_seq | Seq_num int | Seq_other

record audit_row =
  row_id :: string
  row_at :: int
  row_props :: "(string \<times> aval) list"
  row_seq :: seq_value
  row_prevHash :: "string option"
  row_alg :: "string option"
  row_keyId :: "string option"
  row_hash :: "string option"

record primitives =
  p_sha :: "string \<Rightarrow> string"
  p_hmac :: "string \<Rightarrow> string \<Rightarrow> string"
  p_nt :: "rat \<Rightarrow> string"

type_synonym head = "int \<times> string option"

definition GENESIS_HASH :: string where
  "GENESIS_HASH = replicate 64 (CHR ''0'')"

definition CHAIN_FIELDS :: "string list" where
  "CHAIN_FIELDS = [''_id'', ''seq'', ''prevHash'', ''occurredAt'', ''category'', ''severity'', ''actorType'', ''actorId'', ''actorDisplay'',
     ''tenantId'', ''module'', ''action'', ''resourceType'', ''resourceId'', ''before'', ''after'', ''metadata'', ''reason'', ''ip'',
     ''userAgent'', ''requestId'', ''result'', ''errorCode'']"

definition text_or_undefined :: "string option \<Rightarrow> aval" where
  "text_or_undefined t = (case t of Some s \<Rightarrow> A_str s | None \<Rightarrow> A_undefined)"

definition seq_aval :: "seq_value \<Rightarrow> aval" where
  "seq_aval q = (case q of No_seq \<Rightarrow> A_undefined | Seq_num n \<Rightarrow> A_num (Some (of_int n)) | Seq_other \<Rightarrow> A_null)"

definition row_field :: "audit_row \<Rightarrow> string \<Rightarrow> aval" where
  "row_field r f =
     (if f = ''_id'' then A_text (row_id r)
      else if f = ''seq'' then seq_aval (row_seq r)
      else if f = ''prevHash'' then text_or_undefined (row_prevHash r)
      else if f = ''occurredAt'' then A_date (Some (toISOString (row_at r)))
      else (case map_of (row_props r) f of Some v \<Rightarrow> v | None \<Rightarrow> A_undefined))"

section \<open>Sealing and checking\<close>

definition keyIdFor :: "primitives \<Rightarrow> string \<Rightarrow> string" where
  "keyIdFor P key = take 12 (p_sha P key)"

definition signingKeys :: "primitives \<Rightarrow> string \<Rightarrow> string list \<Rightarrow> (string \<times> string) option \<times> (string \<times> string) list" where
  "signingKeys P current previous =
     (if current \<noteq> [] then Some (keyIdFor P current, current) else None,
      foldl (\<lambda>byId key. if key \<noteq> [] then alist_set (keyIdFor P key) key byId else byId) [] (current # previous))"

definition chainContent :: "primitives \<Rightarrow> audit_row \<Rightarrow> string" where
  "chainContent P r =
     canonicalJson (p_nt P) (A_obj (map (\<lambda>f. (f, if row_field r f = A_undefined then A_null else row_field r f)) CHAIN_FIELDS))"

definition hashContent :: "primitives \<Rightarrow> string \<Rightarrow> string option \<Rightarrow> string" where
  "hashContent P content key = (case key of Some k \<Rightarrow> if k \<noteq> [] then p_hmac P k content else p_sha P content | None \<Rightarrow> p_sha P content)"

definition seal :: "primitives \<Rightarrow> (string \<times> string) option \<Rightarrow> audit_row \<Rightarrow> head \<Rightarrow> audit_row \<times> head" where
  "seal P sk target hh =
     (let q = fst hh + 1;
          t = target\<lparr>row_seq := Seq_num q, row_prevHash := snd hh,
                row_alg := Some (case sk of Some _ \<Rightarrow> ''hmac-sha256'' | None \<Rightarrow> ''sha256''), row_keyId := map_option fst sk\<rparr>;
          h = hashContent P (chainContent P t) (map_option snd sk)
      in (t\<lparr>row_hash := Some h\<rparr>, (q, Some h)))"

datatype row_status = Row_ok | Row_mismatch | Row_unverifiable

definition row_key :: "(string \<times> string) list \<Rightarrow> audit_row \<Rightarrow> string option" where
  "row_key keysById r = Option.bind (row_keyId r) (map_of keysById)"

definition checkRow :: "primitives \<Rightarrow> (string \<times> string) list \<Rightarrow> audit_row \<Rightarrow> row_status" where
  "checkRow P keysById r =
     (if row_alg r = Some ''hmac-sha256'' then
        (case row_key keysById r of
           None \<Rightarrow> Row_unverifiable
         | Some key \<Rightarrow>
             if key = [] then Row_unverifiable
             else if Some (hashContent P (chainContent P r) (Some key)) = row_hash r then Row_ok else Row_mismatch)
      else if Some (hashContent P (chainContent P r) None) = row_hash r then Row_ok else Row_mismatch)"

section \<open>The store\<close>

definition seq_number :: "audit_row \<Rightarrow> int" where
  "seq_number r = (case row_seq r of Seq_num n \<Rightarrow> n | _ \<Rightarrow> 0)"

definition has_number :: "audit_row \<Rightarrow> bool" where
  "has_number r \<longleftrightarrow> (case row_seq r of Seq_num n \<Rightarrow> True | _ \<Rightarrow> False)"

definition findChainHead :: "audit_row list \<Rightarrow> head" where
  "findChainHead store =
     (case sort_key (\<lambda>r. - seq_number r) (filter has_number store) of
        r # _ \<Rightarrow> (seq_number r, row_hash r)
      | [] \<Rightarrow> (0, Some GENESIS_HASH))"

definition streamChain :: "audit_row list \<Rightarrow> audit_row list" where
  "streamChain store = sort_key seq_number (filter (\<lambda>r. has_number r \<and> 1 \<le> seq_number r) store)"

definition unchained_since :: "int option \<Rightarrow> audit_row list \<Rightarrow> audit_row list" where
  "unchained_since since store = filter (\<lambda>r. row_seq r = No_seq \<and> (case since of Some t \<Rightarrow> t \<le> row_at r | None \<Rightarrow> True)) store"

definition countUnchainedSince :: "int option \<Rightarrow> audit_row list \<Rightarrow> nat" where
  "countUnchainedSince since store = length (unchained_since since store)"

definition findUnchainedSince :: "int option \<Rightarrow> nat \<Rightarrow> audit_row list \<Rightarrow> audit_row list" where
  "findUnchainedSince since limit store = take limit (sort_key row_at (unchained_since since store))"

definition retentionPurge :: "int \<Rightarrow> audit_row list \<Rightarrow> audit_row list" where
  "retentionPurge before store = filter (\<lambda>r. \<not> row_at r < before) store"

section \<open>Verification\<close>

datatype chain_fault = Genesis_mismatch | Seq_gap | Prev_hash_mismatch | Hash_mismatch | Expected_head_mismatch | Expected_head_missing
  | Unchained_record

type_synonym chain_error = "chain_fault \<times> int option \<times> string option"

record walk =
  w_errors :: "chain_error list"
  w_errorCount :: nat
  w_checked :: nat
  w_unverifiable :: nat
  w_first :: "audit_row option"
  w_previous :: "audit_row option"
  w_headSeen :: bool

record chain_report =
  cr_ok :: bool
  cr_checked :: nat
  cr_firstSeq :: "int option"
  cr_lastSeq :: "int option"
  cr_head :: "head option"
  cr_anchored :: bool
  cr_legacyUnchained :: nat
  cr_unverifiable :: nat
  cr_errorCount :: nat
  cr_errors :: "chain_error list"

definition report :: "bool \<Rightarrow> chain_error \<Rightarrow> walk \<Rightarrow> walk" where
  "report b e w =
     (if b then w\<lparr>w_errorCount := Suc (w_errorCount w), w_errors := (if length (w_errors w) < 100 then w_errors w @ [e] else w_errors w)\<rparr>
      else w)"

definition row_error :: "chain_fault \<Rightarrow> audit_row \<Rightarrow> chain_error" where
  "row_error f r = (f, Some (seq_number r), Some (row_id r))"

definition link_errors :: "audit_row \<Rightarrow> walk \<Rightarrow> walk" where
  "link_errors r w =
     (case w_previous w of
        None \<Rightarrow> report (seq_number r = 1 \<and> row_prevHash r \<noteq> Some GENESIS_HASH) (row_error Genesis_mismatch r) (w\<lparr>w_first := Some r\<rparr>)
      | Some p \<Rightarrow> report (row_prevHash r \<noteq> row_hash p) (row_error Prev_hash_mismatch r)
                   (report (seq_number r \<noteq> seq_number p + 1) (row_error Seq_gap r) w))"

definition content_errors :: "primitives \<Rightarrow> (string \<times> string) list \<Rightarrow> audit_row \<Rightarrow> walk \<Rightarrow> walk" where
  "content_errors P keysById r w =
     (case checkRow P keysById r of
        Row_ok \<Rightarrow> w
      | Row_mismatch \<Rightarrow> report True (row_error Hash_mismatch r) w
      | Row_unverifiable \<Rightarrow> w\<lparr>w_unverifiable := Suc (w_unverifiable w)\<rparr>)"

definition head_errors :: "head option \<Rightarrow> audit_row \<Rightarrow> walk \<Rightarrow> walk" where
  "head_errors expectHead r w =
     (case expectHead of
        None \<Rightarrow> w
      | Some h \<Rightarrow> if seq_number r = fst h
                  then report (row_hash r \<noteq> snd h) (row_error Expected_head_mismatch r) (w\<lparr>w_headSeen := True\<rparr>)
                  else w)"

definition verify_row :: "primitives \<Rightarrow> (string \<times> string) list \<Rightarrow> head option \<Rightarrow> walk \<Rightarrow> audit_row \<Rightarrow> walk" where
  "verify_row P keysById expectHead w r =
     (head_errors expectHead r (content_errors P keysById r (link_errors r (w\<lparr>w_checked := Suc (w_checked w)\<rparr>))))\<lparr>w_previous := Some r\<rparr>"

definition walk_start :: walk where
  "walk_start = \<lparr>w_errors = [], w_errorCount = 0, w_checked = 0, w_unverifiable = 0, w_first = None, w_previous = None, w_headSeen = False\<rparr>"

definition verifyAuditChain :: "primitives \<Rightarrow> (string \<times> string) list \<Rightarrow> head option \<Rightarrow> audit_row list \<Rightarrow> chain_report" where
  "verifyAuditChain P keysById expectHead store =
     (let w = foldl (verify_row P keysById expectHead) walk_start (streamChain store);
          w = (case expectHead of
                 Some h \<Rightarrow> report (\<not> w_headSeen w) (Expected_head_missing, Some (fst h), None) w
               | None \<Rightarrow> w);
          all_unchained = countUnchainedSince None store;
          strays = (case w_first w of Some f \<Rightarrow> countUnchainedSince (Some (row_at f)) store | None \<Rightarrow> 0);
          sample = (case w_first w of Some f \<Rightarrow> findUnchainedSince (Some (row_at f)) 20 store | None \<Rightarrow> []);
          w = foldl (\<lambda>w r. report True (Unchained_record, None, Some (row_id r)) w) w sample;
          n = w_errorCount w + (strays - length sample)
      in \<lparr>cr_ok = (n = 0), cr_checked = w_checked w, cr_firstSeq = map_option seq_number (w_first w),
          cr_lastSeq = map_option seq_number (w_previous w),
          cr_head = map_option (\<lambda>r. (seq_number r, row_hash r)) (w_previous w),
          cr_anchored = (case w_first w of Some f \<Rightarrow> seq_number f \<noteq> 1 | None \<Rightarrow> False),
          cr_legacyUnchained = all_unchained - strays, cr_unverifiable = w_unverifiable w, cr_errorCount = n, cr_errors = w_errors w\<rparr>)"

section \<open>Appending rows\<close>

text \<open>
  Several processes append to one store. Each has its cached head and at most one event in hand (inserts
  are queued inside a process) with the number of attempts made. The unique index refuses a number that
  is taken; any other failure ends the insert and leaves the cached head.
\<close>

record audit_event =
  ev_at :: "int option"
  ev_props :: "(string \<times> aval) list"

record writer =
  wr_head :: "head option"
  wr_job :: "(audit_event \<times> nat) option"

record chain_state =
  cs_store :: "audit_row list"
  cs_writers :: "nat \<Rightarrow> writer"

definition MAX_CHAIN_ATTEMPTS :: nat where
  "MAX_CHAIN_ATTEMPTS = 10"

definition new_document :: "string \<Rightarrow> int \<Rightarrow> audit_event \<Rightarrow> audit_row" where
  "new_document oid now ev =
     \<lparr>row_id = oid, row_at = (case ev_at ev of Some t \<Rightarrow> t | None \<Rightarrow> now), row_props = ev_props ev, row_seq = No_seq,
      row_prevHash = None, row_alg = None, row_keyId = None, row_hash = None\<rparr>"

definition seq_taken :: "audit_row \<Rightarrow> audit_row list \<Rightarrow> bool" where
  "seq_taken r store \<longleftrightarrow> list_ex (\<lambda>s. has_number s \<and> seq_number s = seq_number r) store"

definition set_writer :: "nat \<Rightarrow> writer \<Rightarrow> chain_state \<Rightarrow> chain_state" where
  "set_writer p w st = st\<lparr>cs_writers := (cs_writers st)(p := w)\<rparr>"

definition save_attempt :: "primitives \<Rightarrow> (string \<times> string) option \<Rightarrow> nat \<Rightarrow> string \<Rightarrow> int \<Rightarrow> audit_event \<Rightarrow> nat \<Rightarrow> head \<Rightarrow> chain_state \<Rightarrow> chain_state" where
  "save_attempt P sk p oid now ev n hh st =
     (case seal P sk (new_document oid now ev) hh of (r, next_head) \<Rightarrow>
        if seq_taken r (cs_store st)
        then set_writer p \<lparr>wr_head = None, wr_job = (if Suc n < MAX_CHAIN_ATTEMPTS then Some (ev, Suc n) else None)\<rparr> st
        else set_writer p \<lparr>wr_head = Some next_head, wr_job = None\<rparr> (st\<lparr>cs_store := cs_store st @ [r]\<rparr>))"

inductive chain_step :: "primitives \<Rightarrow> (nat \<Rightarrow> (string \<times> string) option) \<Rightarrow> chain_state \<Rightarrow> chain_state \<Rightarrow> bool"
  for P :: primitives and sk :: "nat \<Rightarrow> (string \<times> string) option" where
  take_event: "wr_job (cs_writers st p) = None \<Longrightarrow> chain_step P sk st (set_writer p ((cs_writers st p)\<lparr>wr_job := Some (ev, 0)\<rparr>) st)"
| read_head: "wr_job (cs_writers st p) = Some j \<Longrightarrow> wr_head (cs_writers st p) = None
    \<Longrightarrow> chain_step P sk st (set_writer p ((cs_writers st p)\<lparr>wr_head := Some (findChainHead (cs_store st))\<rparr>) st)"
| save_row: "wr_job (cs_writers st p) = Some (ev, n) \<Longrightarrow> wr_head (cs_writers st p) = Some hh
    \<Longrightarrow> chain_step P sk st (save_attempt P (sk p) p oid now ev n hh st)"
| save_fails: "wr_job (cs_writers st p) = Some j \<Longrightarrow> wr_head (cs_writers st p) = Some hh
    \<Longrightarrow> chain_step P sk st (set_writer p ((cs_writers st p)\<lparr>wr_job := None\<rparr>) st)"
| forget_head: "chain_step P sk st (set_writer p ((cs_writers st p)\<lparr>wr_head := None\<rparr>) st)"

text \<open>Processes start without a cached head, over the rows written before the chain existed.\<close>

definition legacy_only :: "chain_state \<Rightarrow> bool" where
  "legacy_only st \<longleftrightarrow> list_all (\<lambda>r. row_seq r = No_seq) (cs_store st) \<and> (\<forall>p. cs_writers st p = \<lparr>wr_head = None, wr_job = None\<rparr>)"

section \<open>What an unremarkable report means\<close>

text \<open>A row follows its predecessor (the first one only its own number), and matches its hash.\<close>

definition follows :: "audit_row option \<Rightarrow> audit_row \<Rightarrow> bool" where
  "follows prev r \<longleftrightarrow>
     (case prev of
        None \<Rightarrow> seq_number r = 1 \<longrightarrow> row_prevHash r = Some GENESIS_HASH
      | Some p \<Rightarrow> seq_number r = seq_number p + 1 \<and> row_prevHash r = row_hash p)"

definition agrees_with_head :: "head option \<Rightarrow> audit_row \<Rightarrow> bool" where
  "agrees_with_head ex r \<longleftrightarrow> (case ex of None \<Rightarrow> True | Some h \<Rightarrow> seq_number r = fst h \<longrightarrow> row_hash r = snd h)"

definition row_fine :: "primitives \<Rightarrow> (string \<times> string) list \<Rightarrow> head option \<Rightarrow> audit_row option \<Rightarrow> audit_row \<Rightarrow> bool" where
  "row_fine P kb ex prev r \<longleftrightarrow> follows prev r \<and> checkRow P kb r = Row_ok \<and> agrees_with_head ex r"

fun last_of :: "audit_row option \<Rightarrow> audit_row list \<Rightarrow> audit_row option" where
  "last_of p [] = p"
| "last_of p (r # rs) = last_of (Some r) rs"

fun chain_fine :: "primitives \<Rightarrow> (string \<times> string) list \<Rightarrow> head option \<Rightarrow> audit_row option \<Rightarrow> audit_row list \<Rightarrow> bool" where
  "chain_fine P kb ex p [] = True"
| "chain_fine P kb ex p (r # rs) = (row_fine P kb ex p r \<and> chain_fine P kb ex (Some r) rs)"

lemma chain_fine_append: "chain_fine P kb ex p (xs @ ys) \<longleftrightarrow> chain_fine P kb ex p xs \<and> chain_fine P kb ex (last_of p xs) ys"
  by (induction xs arbitrary: p) simp_all

lemma last_of_append [simp]: "last_of p (xs @ ys) = last_of (last_of p xs) ys"
  by (induction xs arbitrary: p) simp_all

lemma report_simps [simp]:
  "w_errorCount (report b e w) = (if b then Suc (w_errorCount w) else w_errorCount w)" "w_checked (report b e w) = w_checked w"
  "w_unverifiable (report b e w) = w_unverifiable w" "w_first (report b e w) = w_first w" "w_previous (report b e w) = w_previous w"
  "w_headSeen (report b e w) = w_headSeen w"
  by (simp_all add: report_def)

lemma verify_row_first: "w_first (verify_row P kb ex w r) = (case w_previous w of None \<Rightarrow> Some r | Some p \<Rightarrow> w_first w)"
  by (simp add: verify_row_def head_errors_def content_errors_def link_errors_def split: option.splits row_status.splits)

lemma verify_row_previous: "w_previous (verify_row P kb ex w r) = Some r"
  by (simp add: verify_row_def)

lemma verify_row_checked: "w_checked (verify_row P kb ex w r) = Suc (w_checked w)"
  by (simp add: verify_row_def head_errors_def content_errors_def link_errors_def split: option.splits row_status.splits)

lemma verify_row_seen: "w_headSeen (verify_row P kb ex w r) = (w_headSeen w \<or> (case ex of None \<Rightarrow> False | Some h \<Rightarrow> seq_number r = fst h))"
  by (simp add: verify_row_def head_errors_def content_errors_def link_errors_def split: option.splits row_status.splits)

lemma verify_row_clean:
  "w_errorCount (verify_row P kb ex w r) = 0 \<and> w_unverifiable (verify_row P kb ex w r) = 0
   \<longleftrightarrow> w_errorCount w = 0 \<and> w_unverifiable w = 0 \<and> row_fine P kb ex (w_previous w) r"
  by (simp add: verify_row_def head_errors_def content_errors_def link_errors_def row_fine_def follows_def agrees_with_head_def
      split: option.splits row_status.splits)

lemma walk_clean:
  "w_errorCount (foldl (verify_row P kb ex) w rs) = 0 \<and> w_unverifiable (foldl (verify_row P kb ex) w rs) = 0
   \<longleftrightarrow> w_errorCount w = 0 \<and> w_unverifiable w = 0 \<and> chain_fine P kb ex (w_previous w) rs"
proof (induction rs arbitrary: w)
  case (Cons r rs)
  show ?case
    using Cons.IH[of "verify_row P kb ex w r"] verify_row_clean[of P kb ex w r]
    by (auto simp: verify_row_previous)
qed simp

lemma walk_previous: "w_previous (foldl (verify_row P kb ex) w rs) = last_of (w_previous w) rs"
  by (induction rs arbitrary: w) (simp_all add: verify_row_previous)

lemma walk_checked: "w_checked (foldl (verify_row P kb ex) w rs) = w_checked w + length rs"
  by (induction rs arbitrary: w) (simp_all add: verify_row_checked)

lemma walk_first_some: "w_previous w = Some p \<Longrightarrow> w_first (foldl (verify_row P kb ex) w rs) = w_first w"
  by (induction rs arbitrary: w p) (simp_all add: verify_row_first verify_row_previous)

lemma walk_first: "w_first (foldl (verify_row P kb ex) walk_start rs) = (case rs of [] \<Rightarrow> None | r # _ \<Rightarrow> Some r)"
proof (cases rs)
  case (Cons r rs')
  then show ?thesis
    using walk_first_some[of "verify_row P kb ex walk_start r" r P kb ex rs']
    by (simp add: verify_row_previous verify_row_first) (simp add: walk_start_def)
qed (simp add: walk_start_def)

lemma walk_seen:
  "w_headSeen (foldl (verify_row P kb (Some h)) w rs) = (w_headSeen w \<or> (\<exists>r\<in>set rs. seq_number r = fst h))"
  by (induction rs arbitrary: w) (auto simp: verify_row_seen)

lemma report_strays: "w_errorCount (foldl (\<lambda>w r. report True (f r) w) w rs) = w_errorCount w + length rs
  \<and> w_checked (foldl (\<lambda>w r. report True (f r) w) w rs) = w_checked w
  \<and> w_unverifiable (foldl (\<lambda>w r. report True (f r) w) w rs) = w_unverifiable w
  \<and> w_first (foldl (\<lambda>w r. report True (f r) w) w rs) = w_first w
  \<and> w_previous (foldl (\<lambda>w r. report True (f r) w) w rs) = w_previous w"
  by (induction rs arbitrary: w) simp_all

definition strays_of :: "audit_row list \<Rightarrow> nat" where
  "strays_of store = (case streamChain store of [] \<Rightarrow> 0 | f # _ \<Rightarrow> countUnchainedSince (Some (row_at f)) store)"

lemma sample_le: "length (findUnchainedSince since n store) \<le> countUnchainedSince since store"
  by (simp add: findUnchainedSince_def countUnchainedSince_def)

lemma verify_fields:
  fixes P kb ex store
  defines "w \<equiv> foldl (verify_row P kb ex) walk_start (streamChain store)"
  shows "cr_errorCount (verifyAuditChain P kb ex store)
      = w_errorCount w + (case ex of Some h \<Rightarrow> if w_headSeen w then 0 else 1 | None \<Rightarrow> 0) + strays_of store"
    and "cr_unverifiable (verifyAuditChain P kb ex store) = w_unverifiable w"
    and "cr_checked (verifyAuditChain P kb ex store) = length (streamChain store)"
    and "cr_ok (verifyAuditChain P kb ex store) = (cr_errorCount (verifyAuditChain P kb ex store) = 0)"
    and "cr_anchored (verifyAuditChain P kb ex store) = (case streamChain store of [] \<Rightarrow> False | r # _ \<Rightarrow> seq_number r \<noteq> 1)"
proof -
  have f: "w_first w = (case streamChain store of [] \<Rightarrow> None | r # _ \<Rightarrow> Some r)"
    unfolding w_def by (rule walk_first)
  have c: "w_checked w = length (streamChain store)"
    unfolding w_def walk_checked by (simp add: walk_start_def)
  show "cr_errorCount (verifyAuditChain P kb ex store)
      = w_errorCount w + (case ex of Some h \<Rightarrow> if w_headSeen w then 0 else 1 | None \<Rightarrow> 0) + strays_of store"
    unfolding verifyAuditChain_def w_def[symmetric] Let_def strays_of_def
    using f sample_le[of _ 20 store]
    by (cases "streamChain store"; cases ex) (simp_all add: report_strays)
  show "cr_unverifiable (verifyAuditChain P kb ex store) = w_unverifiable w"
    unfolding verifyAuditChain_def w_def[symmetric] Let_def by (cases ex) (simp_all add: report_strays)
  show "cr_checked (verifyAuditChain P kb ex store) = length (streamChain store)"
    unfolding verifyAuditChain_def w_def[symmetric] Let_def using c by (cases ex) (simp_all add: report_strays)
  show "cr_ok (verifyAuditChain P kb ex store) = (cr_errorCount (verifyAuditChain P kb ex store) = 0)"
    unfolding verifyAuditChain_def Let_def by simp
  show "cr_anchored (verifyAuditChain P kb ex store) = (case streamChain store of [] \<Rightarrow> False | r # _ \<Rightarrow> seq_number r \<noteq> 1)"
    unfolding verifyAuditChain_def w_def[symmetric] Let_def using f by (cases ex; cases "streamChain store") (simp_all add: report_strays)
qed

lemma verify_clean_iff:
  "cr_errorCount (verifyAuditChain P kb ex store) = 0 \<and> cr_unverifiable (verifyAuditChain P kb ex store) = 0
   \<longleftrightarrow> chain_fine P kb ex None (streamChain store) \<and> strays_of store = 0
       \<and> (case ex of None \<Rightarrow> True | Some h \<Rightarrow> \<exists>r\<in>set (streamChain store). seq_number r = fst h)"
proof -
  have s: "w_errorCount walk_start = 0" "w_unverifiable walk_start = 0" "w_previous walk_start = None" "\<not> w_headSeen walk_start"
    by (simp_all add: walk_start_def)
  show ?thesis
    using walk_clean[of P kb ex walk_start "streamChain store"] walk_seen[of P kb _ walk_start "streamChain store"] s
    by (cases ex) (auto simp: verify_fields)
qed

section \<open>Concurrent writers grow one chain\<close>

definition known_key :: "(string \<times> string) list \<Rightarrow> (string \<times> string) option \<Rightarrow> bool" where
  "known_key kb sk \<longleftrightarrow> (case sk of None \<Rightarrow> True | Some (i, k) \<Rightarrow> map_of kb i = Some k \<and> k \<noteq> [])"

abbreviation genesis :: head where
  "genesis \<equiv> (0, Some GENESIS_HASH)"

definition next_of :: "primitives \<Rightarrow> (string \<times> string) list \<Rightarrow> head \<Rightarrow> audit_row \<Rightarrow> bool" where
  "next_of P kb h r \<longleftrightarrow> row_seq r = Seq_num (fst h + 1) \<and> row_prevHash r = snd h \<and> checkRow P kb r = Row_ok"

fun grown :: "primitives \<Rightarrow> (string \<times> string) list \<Rightarrow> head \<Rightarrow> audit_row list \<Rightarrow> bool" where
  "grown P kb h [] = True"
| "grown P kb h (r # rs) = (next_of P kb h r \<and> grown P kb (seq_number r, row_hash r) rs)"

fun end_head :: "head \<Rightarrow> audit_row list \<Rightarrow> head" where
  "end_head h [] = h"
| "end_head h (r # rs) = end_head (seq_number r, row_hash r) rs"

lemma grown_append: "grown P kb h (xs @ ys) \<longleftrightarrow> grown P kb h xs \<and> grown P kb (end_head h xs) ys"
  by (induction xs arbitrary: h) simp_all

lemma end_head_append [simp]: "end_head h (xs @ ys) = end_head (end_head h xs) ys"
  by (induction xs arbitrary: h) simp_all

lemma next_of_seq: "next_of P kb h r \<Longrightarrow> seq_number r = fst h + 1 \<and> has_number r"
  by (simp add: next_of_def seq_number_def has_number_def)

lemma end_head_seq: "grown P kb h rs \<Longrightarrow> fst (end_head h rs) = fst h + int (length rs)"
  by (induction rs arbitrary: h) (auto dest: next_of_seq)

lemma grown_range: "grown P kb h rs \<Longrightarrow> r \<in> set rs \<Longrightarrow> fst h < seq_number r \<and> seq_number r \<le> fst h + int (length rs) \<and> has_number r"
proof (induction rs arbitrary: h)
  case (Cons a rs)
  have "next_of P kb h a" using Cons.prems(1) by simp
  then have n: "seq_number a = fst h + 1 \<and> has_number a" by (rule next_of_seq)
  show ?case
  proof (cases "r = a")
    case False
    then have "r \<in> set rs" using Cons.prems(2) by simp
    then show ?thesis using Cons.IH[of "(seq_number a, row_hash a)"] Cons.prems(1) n by fastforce
  qed (use n in simp)
qed simp

lemma grown_sorted: "grown P kb h rs \<Longrightarrow> sorted (map seq_number rs) \<and> distinct (map seq_number rs)"
proof (induction rs arbitrary: h)
  case (Cons a rs)
  have g: "grown P kb (seq_number a, row_hash a) rs" using Cons.prems by simp
  have "\<forall>r\<in>set rs. seq_number a < seq_number r" using grown_range[OF g] by simp
  then show ?case using Cons.IH[OF g] by (auto simp: less_le)
qed simp

lemma grown_nth: "grown P kb h rs \<Longrightarrow> i < length rs \<Longrightarrow> seq_number (rs ! i) = fst h + int i + 1"
proof (induction rs arbitrary: h i)
  case (Cons a rs)
  then show ?case
    using Cons.IH[of "(seq_number a, row_hash a)" "i - 1"] next_of_seq[of P kb h a] by (cases i) auto
qed simp

lemma grown_fine: "grown P kb h rs \<Longrightarrow> (case p of None \<Rightarrow> h = genesis | Some q \<Rightarrow> h = (seq_number q, row_hash q)) \<Longrightarrow> chain_fine P kb None p rs"
proof (induction rs arbitrary: h p)
  case (Cons a rs)
  have n: "next_of P kb h a" and g: "grown P kb (seq_number a, row_hash a) rs" using Cons.prems(1) by simp_all
  have "row_fine P kb None p a"
    using n next_of_seq[OF n] Cons.prems(2)
    by (cases p) (auto simp: row_fine_def follows_def agrees_with_head_def next_of_def)
  moreover have "chain_fine P kb None (Some a) rs" using Cons.IH[OF g] by simp
  ultimately show ?case by simp
qed simp

lemma sort_key_grown: "grown P kb h rs \<Longrightarrow> sort_key seq_number rs = rs"
  using grown_sorted[of P kb h rs] by (intro sort_key_inj_key_eq) (simp_all add: distinct_map)

lemma sort_key_grown_rev: "grown P kb h rs \<Longrightarrow> sort_key (\<lambda>r. - seq_number r) rs = rev rs"
proof (rule sort_key_inj_key_eq)
  assume g: "grown P kb h rs"
  show "inj_on (\<lambda>r. - seq_number r) (set rs)"
    using grown_sorted[OF g] by (auto simp: distinct_map inj_on_def)
  have "sorted_wrt (\<lambda>a b. seq_number a \<le> seq_number b) rs" using grown_sorted[OF g] by (simp add: sorted_map)
  then show "sorted (map (\<lambda>r. - seq_number r) (rev rs))" by (simp add: sorted_map sorted_wrt_rev)
qed simp

lemma end_head_rev: "end_head h rs = (case rev rs of [] \<Rightarrow> h | r # _ \<Rightarrow> (seq_number r, row_hash r))"
  by (cases rs rule: rev_cases) simp_all

lemma findChainHead_grown: "grown P kb genesis (filter has_number store) \<Longrightarrow> findChainHead store = end_head genesis (filter has_number store)"
  by (simp add: findChainHead_def sort_key_grown_rev end_head_rev)

lemma streamChain_grown: "grown P kb genesis (filter has_number store) \<Longrightarrow> streamChain store = filter has_number store"
proof -
  assume g: "grown P kb genesis (filter has_number store)"
  have "1 \<le> seq_number r" if "r \<in> set store" "has_number r" for r
    using grown_range[OF g, of r] that by simp
  then have "filter (\<lambda>r. has_number r \<and> 1 \<le> seq_number r) store = filter has_number store"
    by (metis (mono_tags, lifting) filter_cong)
  then show ?thesis using sort_key_grown[OF g] by (simp add: streamChain_def)
qed

lemma row_field_hash: "row_field (r\<lparr>row_hash := h\<rparr>) = row_field r"
  by (rule ext) (simp add: row_field_def)

lemma chainContent_hash [simp]: "chainContent P (r\<lparr>row_hash := h\<rparr>) = chainContent P r"
  unfolding chainContent_def row_field_hash by (rule refl)

lemma seal_next:
  assumes k: "known_key kb sk" and s: "seal P sk t h = (r, h')"
  shows "next_of P kb h r \<and> h' = (seq_number r, row_hash r)"
proof (cases sk)
  case None
  then show ?thesis using s by (auto simp: seal_def Let_def next_of_def checkRow_def seq_number_def hashContent_def)
next
  case (Some ik)
  obtain i key where ik: "ik = (i, key)" by (cases ik)
  show ?thesis
    using s k by (auto simp: Some ik seal_def Let_def next_of_def checkRow_def row_key_def seq_number_def known_key_def)
qed

definition chain_inv :: "primitives \<Rightarrow> (string \<times> string) list \<Rightarrow> chain_state \<Rightarrow> bool" where
  "chain_inv P kb st \<longleftrightarrow> grown P kb genesis (filter has_number (cs_store st))
     \<and> (\<forall>p h. wr_head (cs_writers st p) = Some h \<longrightarrow> (\<exists>xs ys. filter has_number (cs_store st) = xs @ ys \<and> h = end_head genesis xs))"

lemma chain_inv_writer:
  "chain_inv P kb st \<Longrightarrow> (\<And>h. wr_head w = Some h \<Longrightarrow> \<exists>xs ys. filter has_number (cs_store st) = xs @ ys \<and> h = end_head genesis xs)
   \<Longrightarrow> chain_inv P kb (set_writer p w st)"
  by (auto simp: chain_inv_def set_writer_def)

lemma chain_inv_head:
  "chain_inv P kb st \<Longrightarrow> wr_head (cs_writers st p) = Some h \<Longrightarrow> \<exists>xs ys. filter has_number (cs_store st) = xs @ ys \<and> h = end_head genesis xs"
  unfolding chain_inv_def by blast

lemma free_head_is_last:
  assumes g: "grown P kb genesis (filter has_number store)" and c: "filter has_number store = xs @ ys"
    and n: "next_of P kb (end_head genesis xs) r" and free: "\<not> seq_taken r store"
  shows "ys = []"
proof (rule ccontr)
  assume "ys \<noteq> []"
  then obtain y zs where ys: "ys = y # zs" by (cases ys) auto
  have "next_of P kb (end_head genesis xs) y" using g by (simp add: c ys grown_append)
  then have "seq_number y = seq_number r" using n by (metis next_of_seq)
  moreover have "y \<in> set (filter has_number store)" by (simp add: c ys)
  ultimately show False using free by (auto simp: seq_taken_def list_ex_iff)
qed

lemma chain_inv_save:
  assumes i: "chain_inv P kb st" and k: "known_key kb sk" and h: "wr_head (cs_writers st p) = Some h"
  shows "chain_inv P kb (save_attempt P sk p oid now ev n h st)"
proof -
  define r h' where "r = fst (seal P sk (new_document oid now ev) h)" and "h' = snd (seal P sk (new_document oid now ev) h)"
  then have s: "seal P sk (new_document oid now ev) h = (r, h')" by simp
  have nx: "next_of P kb h r" and h': "h' = (seq_number r, row_hash r)" using seal_next[OF k s] by simp_all
  show ?thesis
  proof (cases "seq_taken r (cs_store st)")
    case True
    have "chain_inv P kb (set_writer p \<lparr>wr_head = None, wr_job = j\<rparr> st)" for j
      by (rule chain_inv_writer[OF i]) simp
    then show ?thesis using True by (simp add: save_attempt_def s)
  next
    case False
    let ?C = "filter has_number (cs_store st)"
    have g: "grown P kb genesis ?C" using i by (simp add: chain_inv_def)
    obtain xs ys where c: "?C = xs @ ys" "h = end_head genesis xs" using i h unfolding chain_inv_def by blast
    have "ys = []" using free_head_is_last[OF g c(1)] nx c(2) False by simp
    then have hd: "h = end_head genesis ?C" using c by simp
    have st': "filter has_number (cs_store st @ [r]) = ?C @ [r]" using next_of_seq[OF nx] by simp
    have upd: "cs_store (st\<lparr>cs_store := cs_store st @ [r]\<rparr>) = cs_store st @ [r]" "cs_writers (st\<lparr>cs_store := cs_store st @ [r]\<rparr>) = cs_writers st"
      by simp_all
    have "chain_inv P kb (st\<lparr>cs_store := cs_store st @ [r]\<rparr>)"
      unfolding chain_inv_def upd st'
    proof (intro conjI allI impI)
      show "grown P kb genesis (?C @ [r])" using g nx hd by (simp add: grown_append)
    next
      fix q h0
      assume "wr_head (cs_writers st q) = Some h0"
      then obtain as bs where "?C = as @ bs" "h0 = end_head genesis as" using i unfolding chain_inv_def by blast
      then show "\<exists>xs ys. ?C @ [r] = xs @ ys \<and> h0 = end_head genesis xs" by (intro exI[of _ as] exI[of _ "bs @ [r]"]) simp
    qed
    then have "chain_inv P kb (set_writer p \<lparr>wr_head = Some h', wr_job = None\<rparr> (st\<lparr>cs_store := cs_store st @ [r]\<rparr>))"
    proof (rule chain_inv_writer)
      fix h0
      assume "wr_head \<lparr>wr_head = Some h', wr_job = None\<rparr> = Some h0"
      then show "\<exists>xs ys. filter has_number (cs_store (st\<lparr>cs_store := cs_store st @ [r]\<rparr>)) = xs @ ys \<and> h0 = end_head genesis xs"
        using st' h' by (intro exI[of _ "?C @ [r]"] exI[of _ "[]"]) simp
    qed
    then show ?thesis using False by (simp add: save_attempt_def s)
  qed
qed

lemma chain_inv_step: "chain_step P sk st st' \<Longrightarrow> (\<And>p. known_key kb (sk p)) \<Longrightarrow> chain_inv P kb st \<Longrightarrow> chain_inv P kb st'"
proof (induction rule: chain_step.induct)
  case (read_head st p j)
  have g: "grown P kb genesis (filter has_number (cs_store st))" using read_head.prems(2) by (simp add: chain_inv_def)
  show ?case
  proof (rule chain_inv_writer[OF read_head.prems(2)])
    fix h
    assume "wr_head ((cs_writers st p)\<lparr>wr_head := Some (findChainHead (cs_store st))\<rparr>) = Some h"
    then have "h = end_head genesis (filter has_number (cs_store st))" using findChainHead_grown[OF g] by simp
    then show "\<exists>xs ys. filter has_number (cs_store st) = xs @ ys \<and> h = end_head genesis xs"
      by (intro exI[of _ "filter has_number (cs_store st)"] exI[of _ "[]"]) simp
  qed
next
  case (save_row st p ev n h oid now)
  then show ?case by (simp add: chain_inv_save)
next
  case (take_event st p ev)
  show ?case by (rule chain_inv_writer[OF take_event.prems(2)]) (use chain_inv_head[OF take_event.prems(2)] in simp)
next
  case (save_fails st p j h)
  show ?case by (rule chain_inv_writer[OF save_fails.prems(2)]) (use chain_inv_head[OF save_fails.prems(2)] in simp)
next
  case (forget_head st p)
  show ?case by (rule chain_inv_writer[OF forget_head.prems(2)]) simp
qed

lemma chain_inv_reachable:
  assumes "(chain_step P sk)\<^sup>*\<^sup>* st0 st" and "\<And>p. known_key kb (sk p)" and "legacy_only st0"
  shows "chain_inv P kb st"
  using assms(1)
proof (induction rule: rtranclp_induct)
  case base
  have "filter has_number (cs_store st0) = []"
    using assms(3) by (auto simp: legacy_only_def list_all_iff filter_empty_conv has_number_def)
  then show ?case using assms(3) by (simp add: chain_inv_def legacy_only_def)
qed (use chain_inv_step assms(2) in blast)

text \<open>
  C4. However the inserts of several processes interleave, with cached heads, lost races, retries, other
  failures and forgotten caches, the rows they leave verify: no fault of the chain, no row that cannot
  be checked, nothing missing at the start. The report counts one error for each row without a number
  that is dated at or after the first row of the chain, and no other.
\<close>

theorem chain_inserts_verify:
  assumes "(chain_step P sk)\<^sup>*\<^sup>* st0 st" and "legacy_only st0" and "\<And>p. known_key kb (sk p)"
  shows "cr_errorCount (verifyAuditChain P kb None (cs_store st)) = strays_of (cs_store st)
    \<and> cr_unverifiable (verifyAuditChain P kb None (cs_store st)) = 0
    \<and> cr_checked (verifyAuditChain P kb None (cs_store st)) = length (filter has_number (cs_store st))
    \<and> \<not> cr_anchored (verifyAuditChain P kb None (cs_store st))"
proof -
  have g: "grown P kb genesis (filter has_number (cs_store st))"
    using chain_inv_reachable[OF assms(1,3,2)] by (simp add: chain_inv_def)
  have s: "streamChain (cs_store st) = filter has_number (cs_store st)" by (rule streamChain_grown[OF g])
  have "chain_fine P kb None None (streamChain (cs_store st))" unfolding s by (rule grown_fine[OF g]) simp
  then have w: "w_errorCount (foldl (verify_row P kb None) walk_start (streamChain (cs_store st))) = 0
      \<and> w_unverifiable (foldl (verify_row P kb None) walk_start (streamChain (cs_store st))) = 0"
    unfolding walk_clean by (simp add: walk_start_def)
  have a: "\<not> (case streamChain (cs_store st) of [] \<Rightarrow> False | r # _ \<Rightarrow> seq_number r \<noteq> 1)"
    using g unfolding s by (cases "filter has_number (cs_store st)") (auto dest: next_of_seq)
  show ?thesis using w a s by (simp add: verify_fields)
qed

text \<open>One insert by one process, for the examples.\<close>

definition plain_primitives :: primitives where
  "plain_primitives = \<lparr>p_sha = (\<lambda>s. s), p_hmac = (\<lambda>k s. k @ s), p_nt = ratio_text\<rparr>"

definition empty_state :: chain_state where
  "empty_state = \<lparr>cs_store = [], cs_writers = (\<lambda>p. \<lparr>wr_head = None, wr_job = None\<rparr>)\<rparr>"

definition login_event :: audit_event where
  "login_event = \<lparr>ev_at = None, ev_props = [(''action'', A_str ''login'')]\<rparr>"

definition after_one :: chain_state where
  "after_one = save_attempt plain_primitives None 0 ''a1'' 5 login_event 0 genesis empty_state"

lemma after_one_reached: "(chain_step plain_primitives (\<lambda>p. None))\<^sup>*\<^sup>* empty_state after_one"
proof -
  let ?R = "chain_step plain_primitives (\<lambda>p. None)"
  let ?s1 = "set_writer 0 ((cs_writers empty_state 0)\<lparr>wr_job := Some (login_event, 0)\<rparr>) empty_state"
  let ?s2 = "set_writer 0 ((cs_writers ?s1 0)\<lparr>wr_head := Some (findChainHead (cs_store ?s1))\<rparr>) ?s1"
  let ?s3 = "save_attempt plain_primitives None 0 ''a1'' 5 login_event 0 genesis ?s2"
  have 1: "?R empty_state ?s1" by (rule chain_step.take_event) (simp add: empty_state_def)
  have 2: "?R ?s1 ?s2" by (rule chain_step.read_head) (simp_all add: set_writer_def empty_state_def)
  have 3: "?R ?s2 ?s3"
    by (rule chain_step.save_row[where sk = "\<lambda>p. None"]) (simp_all add: set_writer_def empty_state_def findChainHead_def)
  have "?s3 = after_one"
    by (simp add: after_one_def save_attempt_def set_writer_def empty_state_def seq_taken_def seal_def Let_def)
  moreover have "?R\<^sup>*\<^sup>* empty_state ?s1" using 1 by (rule r_into_rtranclp)
  then have "?R\<^sup>*\<^sup>* empty_state ?s2" using 2 by (rule rtranclp.rtrancl_into_rtrancl)
  then have "?R\<^sup>*\<^sup>* empty_state ?s3" using 3 by (rule rtranclp.rtrancl_into_rtrancl)
  ultimately show ?thesis by (simp only:)
qed

theorem chain_inserts_verify_witness:
  "cr_errorCount (verifyAuditChain plain_primitives [] None (cs_store after_one)) = strays_of (cs_store after_one)
   \<and> cr_unverifiable (verifyAuditChain plain_primitives [] None (cs_store after_one)) = 0
   \<and> cr_checked (verifyAuditChain plain_primitives [] None (cs_store after_one)) = length (filter has_number (cs_store after_one))
   \<and> \<not> cr_anchored (verifyAuditChain plain_primitives [] None (cs_store after_one))"
  by (rule chain_inserts_verify[OF after_one_reached]) (simp_all add: legacy_only_def empty_state_def known_key_def)

section \<open>Tampering below a recorded head shows\<close>

definition covered_value :: "audit_row \<Rightarrow> string \<Rightarrow> json" where
  "covered_value r f =
     (case serialise False False 1 (if row_field r f = A_undefined then A_null else row_field r f) of Some w \<Rightarrow> w | None \<Rightarrow> JNull)"

text \<open>Two rows agree on every covered field, up to the order of keys inside its value.\<close>

definition same_covered :: "audit_row \<Rightarrow> audit_row \<Rightarrow> bool" where
  "same_covered r s \<longleftrightarrow> list_all (\<lambda>f. sortKeys (covered_value r f) = sortKeys (covered_value s f)) CHAIN_FIELDS"

text \<open>The digests that the keys can produce for two lists of rows never coincide on different contents.\<close>

definition no_collision :: "primitives \<Rightarrow> (string \<times> string) list \<Rightarrow> audit_row list \<Rightarrow> audit_row list \<Rightarrow> bool" where
  "no_collision P kb as bs \<longleftrightarrow>
     (\<forall>a\<in>set as. \<forall>b\<in>set bs. \<forall>k\<in>insert None (Some ` snd ` set kb). \<forall>l\<in>insert None (Some ` snd ` set kb).
        hashContent P (chainContent P a) k = hashContent P (chainContent P b) l \<longrightarrow> chainContent P a = chainContent P b)"

lemma serialise_some: "v \<noteq> A_undefined \<Longrightarrow> \<exists>w. serialise r l d v = Some w"
  by (cases v) (auto split: option.splits)

lemma index_key_digits: "index_key k \<Longrightarrow> list_all is_digit k"
  using show_nat_digits[of "dec_value k"] by (simp add: index_key_def list_all_iff)

lemma sorted_fields_eq:
  assumes "sortKeys (JObj (map (\<lambda>f. (f, a f)) fs)) = sortKeys (JObj (map (\<lambda>f. (f, b f)) fs))" and "f \<in> set fs"
    and "list_all (\<lambda>f. \<not> index_key f) fs" and "distinct fs"
  shows "sortKeys (a f) = sortKeys (b f)"
proof -
  let ?A = "map (\<lambda>f. (f, sortKeys (a f))) fs" and ?B = "map (\<lambda>f. (f, sortKeys (b f))) fs"
  have n: "own_order (sort_key fst xs) = sort_key fst xs" if "\<forall>p\<in>set xs. \<not> index_key (fst p)" for xs :: "(string \<times> json) list"
    using that by (simp add: own_order_def filter_empty_conv filter_id_conv)
  have "\<forall>p\<in>set ?A. \<not> index_key (fst p)" "\<forall>p\<in>set ?B. \<not> index_key (fst p)" using assms(3) by (simp_all add: list_all_iff)
  then have A: "own_order (sort_key fst ?A) = sort_key fst ?A" and B: "own_order (sort_key fst ?B) = sort_key fst ?B" using n by blast+
  have "own_order (sort_key fst ?A) = own_order (sort_key fst ?B)"
    using assms(1) by (simp only: sortKeys.simps list.map_comp comp_def prod.case json.inject)
  then have "sort_key fst ?A = sort_key fst ?B" unfolding A B .
  then have "set (sort_key fst ?A) = set (sort_key fst ?B)" by (rule arg_cong)
  then have eq: "set ?A = set ?B" unfolding set_sort .
  have "(f, sortKeys (a f)) \<in> set ?A" using assms(2) by simp
  then have "(f, sortKeys (a f)) \<in> set ?B" unfolding eq .
  then show ?thesis by auto
qed

lemma content_binds:
  assumes "number_text (p_nt P)" and "chainContent P r = chainContent P s"
  shows "same_covered r s"
proof -
  let ?v = "\<lambda>r f. if row_field r f = A_undefined then A_null else row_field r f"
  have d: "distinct CHAIN_FIELDS" "list_all (\<lambda>f. \<not> index_key f) CHAIN_FIELDS" "''__proto__'' \<notin> set CHAIN_FIELDS"
  proof -
    have "list_all (\<lambda>f. \<not> list_all is_digit f) CHAIN_FIELDS" by code_simp
    then show "list_all (\<lambda>f. \<not> index_key f) CHAIN_FIELDS" using index_key_digits by (auto simp: list_all_iff)
  qed code_simp+
  have j: "plain_json (A_obj (map (\<lambda>f. (f, ?v r f)) CHAIN_FIELDS)) = JObj (map (\<lambda>f. (f, covered_value r f)) CHAIN_FIELDS)" for r
  proof -
    have "List.map_filter (kept_entry 0) (map (\<lambda>f. (f, ?v r f)) fs) = map (\<lambda>f. (f, covered_value r f)) fs"
      if "''__proto__'' \<notin> set fs" for fs
      using that
    proof (induction fs)
      case (Cons f fs)
      have "?v r f \<noteq> A_undefined" by simp
      then obtain w where "serialise False False 1 (?v r f) = Some w" using serialise_some by blast
      moreover have "f \<noteq> ''__proto__''" using Cons.prems by auto
      ultimately have "kept_entry 0 (f, ?v r f) = Some (f, covered_value r f)"
        unfolding kept_entry_def covered_value_def by (simp del: if_split)
      then show ?case using Cons by (simp add: map_filter_simps)
    qed (simp add: map_filter_simps)
    moreover have "distinct (map fst (map (\<lambda>f. (f, ?v r f)) CHAIN_FIELDS))" using d(1) by (simp add: comp_def)
    ultimately show ?thesis unfolding plain_json_def by (simp only: serialise_obj_plain d(3) option.case not_False_eq_True)
  qed
  have "sortKeys (plain_json (A_obj (map (\<lambda>f. (f, ?v r f)) CHAIN_FIELDS))) = sortKeys (plain_json (A_obj (map (\<lambda>f. (f, ?v s f)) CHAIN_FIELDS)))"
    by (rule canonical_inj[OF assms(1)]) (use assms(2) in \<open>simp add: chainContent_def\<close>)
  then show ?thesis
    unfolding j same_covered_def list_all_iff using sorted_fields_eq d(1,2) by blast
qed

lemma same_covered_prev:
  assumes "same_covered r s"
  shows "row_prevHash r = row_prevHash s"
proof -
  have m: "''prevHash'' \<in> set CHAIN_FIELDS" by code_simp
  have v: "sortKeys (covered_value r ''prevHash'') = (case row_prevHash r of Some h \<Rightarrow> JStr h | None \<Rightarrow> JNull)" for r
    by (cases "row_prevHash r") (simp_all add: covered_value_def row_field_def text_or_undefined_def)
  have "sortKeys (covered_value r ''prevHash'') = sortKeys (covered_value s ''prevHash'')"
    using assms m by (simp add: same_covered_def list_all_iff)
  then show ?thesis unfolding v by (auto split: option.splits)
qed

lemma row_digest:
  assumes "checkRow P kb r = Row_ok"
  shows "\<exists>k\<in>insert None (Some ` snd ` set kb). row_hash r = Some (hashContent P (chainContent P r) k)"
proof (cases "row_alg r = Some ''hmac-sha256''")
  case True
  obtain key where k: "row_key kb r = Some key" "row_hash r = Some (hashContent P (chainContent P r) (Some key))"
    using assms True by (auto simp: checkRow_def split: option.splits if_splits)
  have "Some key \<in> Some ` snd ` set kb"
    using k(1) by (force simp: row_key_def Option.bind_eq_Some_conv dest: map_of_SomeD)
  then show ?thesis using k(2) by blast
next
  case False
  then have "row_hash r = Some (hashContent P (chainContent P r) None)" using assms by (auto simp: checkRow_def split: if_splits)
  then show ?thesis by blast
qed

lemma same_hash_same_content:
  assumes "no_collision P kb as bs" "a \<in> set as" "b \<in> set bs" "checkRow P kb a = Row_ok" "checkRow P kb b = Row_ok" "row_hash a = row_hash b"
  shows "chainContent P a = chainContent P b"
proof -
  obtain k l where k: "k \<in> insert None (Some ` snd ` set kb)" "row_hash a = Some (hashContent P (chainContent P a) k)"
    and l: "l \<in> insert None (Some ` snd ` set kb)" "row_hash b = Some (hashContent P (chainContent P b) l)"
    using row_digest[OF assms(4)] row_digest[OF assms(5)] by blast
  have "hashContent P (chainContent P a) k = hashContent P (chainContent P b) l" using assms(6) k(2) l(2) by simp
  then show ?thesis using assms(1,2,3) k(1) l(1) unfolding no_collision_def by blast
qed

lemma grown_checks: "grown P kb h rs \<Longrightarrow> r \<in> set rs \<Longrightarrow> checkRow P kb r = Row_ok"
  by (induction rs arbitrary: h) (auto simp: next_of_def)

text \<open>Comparing from the recorded head backwards: two chains that end in the same hash.\<close>

lemma chains_agree:
  assumes nt: "number_text (p_nt P)" and c: "grown P kb genesis (rev as)" and f: "chain_fine P kb None None (rev bs)"
    and nc: "no_collision P kb as bs" and "bs \<noteq> []" "as \<noteq> []" and "row_hash (hd as) = row_hash (hd bs)"
    and "seq_number (hd as) = seq_number (hd bs)" and pos: "list_all (\<lambda>b. 1 \<le> seq_number b) bs"
  shows "length bs \<le> length as \<and> list_all2 same_covered (take (length bs) as) bs"
  using c f nc assms(5-9)
proof (induction bs arbitrary: as)
  case (Cons b bs)
  obtain a as' where as: "as = a # as'" using Cons.prems(5) by (cases as) auto
  have ca: "checkRow P kb a = Row_ok" using grown_checks[OF Cons.prems(1), of a] by (simp add: as)
  have cb: "checkRow P kb b = Row_ok" using Cons.prems(2) by (simp add: chain_fine_append row_fine_def)
  have same: "same_covered a b"
    using content_binds[OF nt] same_hash_same_content[OF Cons.prems(3) _ _ ca cb] Cons.prems(6) as by simp
  have p: "row_prevHash a = row_prevHash b" by (rule same_covered_prev[OF same])
  have na: "next_of P kb (end_head genesis (rev as')) a" using Cons.prems(1) by (simp add: as grown_append)
  show ?case
  proof (cases bs)
    case Nil
    then show ?thesis using same as by simp
  next
    case bs: (Cons b' bs')
    have fb: "follows (Some b') b" using Cons.prems(2) by (simp add: bs chain_fine_append row_fine_def)
    have "2 \<le> seq_number a" using fb Cons.prems(7,8) as bs by (simp add: follows_def)
    then have "as' \<noteq> []" using next_of_seq[OF na] by (cases as') auto
    then obtain a' as'' where as': "as' = a' # as''" by (cases as') auto
    have ha: "seq_number a = seq_number a' + 1 \<and> row_prevHash a = row_hash a'"
      using na next_of_seq[OF na] by (simp add: as' next_of_def)
    have "length bs \<le> length as' \<and> list_all2 same_covered (take (length bs) as') bs"
    proof (rule Cons.IH)
      show "grown P kb genesis (rev as')" using Cons.prems(1) by (simp add: as grown_append)
      show "chain_fine P kb None None (rev bs)" using Cons.prems(2) by (simp add: chain_fine_append)
      show "no_collision P kb as' bs" using Cons.prems(3) by (simp add: as no_collision_def)
      show "row_hash (hd as') = row_hash (hd bs)" using ha fb p by (simp add: as' bs follows_def)
      show "seq_number (hd as') = seq_number (hd bs)" using ha fb Cons.prems(7) by (simp add: as as' bs follows_def)
    qed (use Cons.prems(8) \<open>as' \<noteq> []\<close> bs in simp_all)
    then show ?thesis using same as by simp
  qed
qed simp

lemma fine_seq: "chain_fine P kb ex p (x # xs) \<Longrightarrow> i \<le> length xs \<Longrightarrow> seq_number ((x # xs) ! i) = seq_number x + int i"
proof (induction xs arbitrary: p x i)
  case (Cons y ys)
  have "seq_number y = seq_number x + 1" using Cons.prems(1) by (simp add: row_fine_def follows_def)
  then show ?case using Cons.IH[of "Some x" y "i - 1"] Cons.prems by (cases i) simp_all
qed simp

lemma fine_later: "chain_fine P kb ex p (xs @ r # ys) \<Longrightarrow> y \<in> set ys \<Longrightarrow> seq_number r < seq_number y"
proof -
  assume f: "chain_fine P kb ex p (xs @ r # ys)" and y: "y \<in> set ys"
  obtain i where i: "i < length ys" "y = ys ! i" using y by (metis in_set_conv_nth)
  have "seq_number ((r # ys) ! Suc i) = seq_number r + int (Suc i)"
    by (rule fine_seq[of P kb ex "last_of p xs"]) (use f i in \<open>simp_all add: chain_fine_append\<close>)
  then show ?thesis using i by simp
qed

lemma fine_earlier: "chain_fine P kb ex p (xs @ r # ys) \<Longrightarrow> x \<in> set xs \<Longrightarrow> seq_number x < seq_number r"
proof -
  assume f: "chain_fine P kb ex p (xs @ r # ys)" and x: "x \<in> set xs"
  obtain as bs where xs: "xs = as @ x # bs" using x by (meson split_list)
  show ?thesis by (rule fine_later[of P kb ex p as x "bs @ r # ys"]) (use f xs in simp_all)
qed

lemma fine_weaken: "chain_fine P kb ex p rs \<Longrightarrow> chain_fine P kb None p rs"
  by (induction rs arbitrary: p) (auto simp: row_fine_def agrees_with_head_def)

lemma fine_agrees: "chain_fine P kb ex p rs \<Longrightarrow> r \<in> set rs \<Longrightarrow> agrees_with_head ex r"
  by (induction rs arbitrary: p) (auto simp: row_fine_def)

definition rows_upto :: "int \<Rightarrow> audit_row list \<Rightarrow> audit_row list" where
  "rows_upto n rs = filter (\<lambda>r. seq_number r \<le> n) rs"

lemma rows_upto_split:
  assumes f: "chain_fine P kb ex p (xs @ r # ys)"
  shows "rows_upto (seq_number r) (xs @ r # ys) = xs @ [r]"
proof -
  have "filter (\<lambda>a. seq_number a \<le> seq_number r) xs = xs" using fine_earlier[OF f] by (simp add: filter_id_conv less_imp_le)
  moreover have "filter (\<lambda>a. seq_number a \<le> seq_number r) ys = []" using fine_later[OF f] by (fastforce simp: filter_empty_conv)
  ultimately show ?thesis by (simp add: rows_upto_def)
qed

text \<open>
  C3. A head recorded from the chain as it was written pins everything below it. When a later
  verification against the recorded head reports no error and no row it could not check, the rows it saw
  up to that head are the rows that were written, the newest ones of them without a gap, each with the
  covered values it was sealed with; unless the report says \<open>anchored\<close>, they are all of them. Digests
  are assumed not to collide on the rows at hand.
\<close>

theorem chain_tamper_evident:
  assumes nt: "number_text (p_nt P)" and c: "grown P kb genesis C" and m: "m < length C"
    and ok: "cr_ok (verifyAuditChain P kb (Some (seq_number (C ! m), row_hash (C ! m))) store)"
    and uv: "cr_unverifiable (verifyAuditChain P kb (Some (seq_number (C ! m), row_hash (C ! m))) store) = 0"
    and nc: "no_collision P kb C (streamChain store)"
  shows "(let T = rows_upto (seq_number (C ! m)) (streamChain store) in
      T \<noteq> [] \<and> length T \<le> Suc m \<and> list_all2 same_covered (drop (Suc m - length T) (take (Suc m) C)) T
      \<and> (cr_anchored (verifyAuditChain P kb (Some (seq_number (C ! m), row_hash (C ! m))) store) \<or> length T = Suc m))"
proof -
  let ?ex = "Some (seq_number (C ! m), row_hash (C ! m))"
  have e: "cr_errorCount (verifyAuditChain P kb ?ex store) = 0" using ok by (simp add: verify_fields(4))
  have f: "chain_fine P kb ?ex None (streamChain store)" and ex: "\<exists>r\<in>set (streamChain store). seq_number r = seq_number (C ! m)"
    using verify_clean_iff[of P kb ?ex store] e uv by auto
  obtain xs r ys where s: "streamChain store = xs @ r # ys" and r: "seq_number r = seq_number (C ! m)"
    using ex by (meson split_list)
  have T: "rows_upto (seq_number (C ! m)) (streamChain store) = xs @ [r]"
    using rows_upto_split[of P kb ?ex None xs r ys] f r by (simp add: s)
  have h: "row_hash r = row_hash (C ! m)" using fine_agrees[OF f, of r] r by (simp add: s agrees_with_head_def)
  have sm: "seq_number (C ! m) = int m + 1" using grown_nth[OF c m] by simp
  have tk: "take (Suc m) C = take m C @ [C ! m]" by (rule take_Suc_conv_app_nth[OF m])
  have agree: "length (r # rev xs) \<le> length (C ! m # rev (take m C)) \<and> list_all2 same_covered (take (length (r # rev xs)) (C ! m # rev (take m C))) (r # rev xs)"
  proof (rule chains_agree[OF nt])
    have "C = take (Suc m) C @ drop (Suc m) C" by simp
    then show "grown P kb genesis (rev (C ! m # rev (take m C)))"
      using c grown_append[of P kb genesis "take (Suc m) C" "drop (Suc m) C"] by (simp add: tk)
    show "chain_fine P kb None None (rev (r # rev xs))"
      using fine_weaken[OF f] by (simp add: s chain_fine_append)
    have "set (C ! m # rev (take m C)) \<subseteq> set C" "set (r # rev xs) \<subseteq> set (streamChain store)"
      using m by (auto simp: s dest: in_set_takeD)
    then show "no_collision P kb (C ! m # rev (take m C)) (r # rev xs)" using nc unfolding no_collision_def by blast
    show "list_all (\<lambda>b. 1 \<le> seq_number b) (r # rev xs)"
    proof -
      have "\<forall>b\<in>set (streamChain store). 1 \<le> seq_number b" by (simp add: streamChain_def)
      then show ?thesis by (simp add: s list_all_iff)
    qed
  qed (use h r in simp_all)
  have len: "Suc (length xs) \<le> Suc m" using agree m by simp
  have l2: "list_all2 same_covered (rev (take (Suc (length xs)) (rev (take (Suc m) C)))) (xs @ [r])"
    using conjunct2[OF agree] list_all2_rev[of same_covered "rev (take (Suc (length xs)) (rev (take (Suc m) C)))" "xs @ [r]"]
    by (simp add: tk)
  have dr: "rev (take (Suc (length xs)) (rev (take (Suc m) C))) = drop (Suc m - Suc (length xs)) (take (Suc m) C)"
    using m by (simp add: take_rev del: take_Suc_Cons)
  have full: "length (xs @ [r]) = Suc m" if na: "\<not> cr_anchored (verifyAuditChain P kb ?ex store)"
  proof -
    have "seq_number (hd (xs @ r # ys)) = 1"
      using na by (cases xs) (simp_all add: verify_fields(5) s)
    moreover have "seq_number r = seq_number (hd (xs @ r # ys)) + int (length xs)"
      using fine_seq[of P kb ?ex None "hd (xs @ r # ys)" "tl (xs @ r # ys)" "length xs"] f
      by (cases xs) (simp_all add: s nth_append)
    ultimately show ?thesis using r sm by simp
  qed
  show ?thesis unfolding T Let_def using len l2 dr full by auto
qed

lemma after_one_grown: "grown plain_primitives [] genesis (filter has_number (cs_store after_one))"
  using chain_inv_reachable[OF after_one_reached, of "[]"] by (simp add: chain_inv_def legacy_only_def empty_state_def known_key_def)

definition first_row :: audit_row where
  "first_row = fst (seal plain_primitives None (new_document ''a1'' 5 login_event) genesis)"

lemma after_one_store: "cs_store after_one = [first_row]" "filter has_number (cs_store after_one) = [first_row]"
  "streamChain (cs_store after_one) = [first_row]" "countUnchainedSince since (cs_store after_one) = 0"
  by (simp_all add: after_one_def save_attempt_def empty_state_def seq_taken_def set_writer_def first_row_def seal_def Let_def has_number_def
      streamChain_def seq_number_def countUnchainedSince_def unchained_since_def)

lemma first_row_report:
  "cr_errorCount (verifyAuditChain plain_primitives [] (Some (seq_number first_row, row_hash first_row)) (cs_store after_one)) = 0
   \<and> cr_unverifiable (verifyAuditChain plain_primitives [] (Some (seq_number first_row, row_hash first_row)) (cs_store after_one)) = 0"
proof -
  have "next_of plain_primitives [] genesis first_row" using after_one_grown unfolding after_one_store(2) by simp
  then have "chain_fine plain_primitives [] (Some (seq_number first_row, row_hash first_row)) None [first_row]"
    by (simp add: row_fine_def follows_def agrees_with_head_def next_of_def)
  moreover have "strays_of (cs_store after_one) = 0" unfolding strays_of_def after_one_store(3) by (simp only: list.case after_one_store(4))
  ultimately show ?thesis unfolding verify_clean_iff after_one_store(3) by simp
qed

theorem chain_tamper_evident_witness:
  "(let T = rows_upto (seq_number ([first_row] ! 0)) (streamChain (cs_store after_one)) in
      T \<noteq> [] \<and> length T \<le> Suc 0 \<and> list_all2 same_covered (drop (Suc 0 - length T) (take (Suc 0) [first_row])) T
      \<and> (cr_anchored (verifyAuditChain plain_primitives [] (Some (seq_number ([first_row] ! 0), row_hash ([first_row] ! 0))) (cs_store after_one))
        \<or> length T = Suc 0))"
proof (rule chain_tamper_evident)
  show "number_text (p_nt plain_primitives)" by (simp add: plain_primitives_def number_text_ratio)
  show "grown plain_primitives [] genesis [first_row]" using after_one_grown unfolding after_one_store(2) .
  show "no_collision plain_primitives [] [first_row] (streamChain (cs_store after_one))" unfolding after_one_store(3) by (simp add: no_collision_def)
qed (use first_row_report in \<open>simp_all add: verify_fields(4)\<close>)

section \<open>What verification does not see\<close>

text \<open>The purge removes rows by their time. When times follow the numbers, what is left verifies.\<close>

lemma fine_suffix: "chain_fine P kb None p (xs @ ys) \<Longrightarrow> list_all (\<lambda>r. seq_number r \<noteq> 1) ys \<Longrightarrow> chain_fine P kb None None ys"
  by (cases ys) (auto simp: chain_fine_append row_fine_def follows_def)

lemma filter_sorted_suffix:
  "sorted (map f xs) \<Longrightarrow> \<exists>ys. xs = ys @ filter (\<lambda>x. \<not> f x < (t :: int)) xs"
proof (induction xs)
  case (Cons x xs)
  show ?case
  proof (cases "f x < t")
    case True
    obtain ys where ys: "xs = ys @ filter (\<lambda>x. \<not> f x < t) xs" using Cons by auto
    then have "x # xs = (x # ys) @ filter (\<lambda>x. \<not> f x < t) (x # xs)" using True by simp
    then show ?thesis by blast
  next
    case False
    then have "filter (\<lambda>x. \<not> f x < t) (x # xs) = x # xs" using Cons.prems by (auto simp: filter_id_conv)
    then show ?thesis by (metis append_Nil)
  qed
qed simp

lemma filter_purge: "filter has_number (retentionPurge t store) = filter (\<lambda>r. \<not> row_at r < t) (filter has_number store)"
  by (simp add: retentionPurge_def conj_commute)

text \<open>
  The retention purge keeps the chain verifiable when the times of the rows follow their numbers: no
  link is broken and every remaining row is checked. (The purge compares times only; rows of processes
  whose clocks disagree can leave a gap at the boundary.)
\<close>

theorem purge_keeps_chain:
  assumes g: "grown P kb genesis (filter has_number store)" and s: "sorted (map row_at (filter has_number store))"
  shows "cr_errorCount (verifyAuditChain P kb None (retentionPurge t store)) = strays_of (retentionPurge t store)
    \<and> cr_unverifiable (verifyAuditChain P kb None (retentionPurge t store)) = 0"
proof -
  let ?C = "filter has_number store" and ?D = "filter has_number (retentionPurge t store)"
  obtain xs where c: "?C = xs @ ?D" using filter_sorted_suffix[OF s, of t] by (auto simp: filter_purge)
  have gd: "grown P kb (end_head genesis xs) ?D" using g c by (metis grown_append)
  have str: "streamChain (retentionPurge t store) = ?D"
  proof -
    have "1 \<le> seq_number r" if "r \<in> set ?D" for r using grown_range[OF g, of r] that c by (metis Un_iff add.commute set_append zless_add1_eq order_refl zero_less_one add_0 fst_conv int_one_le_iff_zero_less)
    then have "filter (\<lambda>r. has_number r \<and> 1 \<le> seq_number r) (retentionPurge t store) = ?D" by (auto intro: filter_cong)
    then show ?thesis using sort_key_grown[OF gd] by (simp add: streamChain_def)
  qed
  have "chain_fine P kb None None ?D"
  proof (cases xs)
    case Nil
    then show ?thesis using grown_fine[OF g, of None] c by simp
  next
    case (Cons x xs')
    have "chain_fine P kb None None (xs @ ?D)" using grown_fine[OF g, of None] c by simp
    moreover have "list_all (\<lambda>r. seq_number r \<noteq> 1) ?D"
      using grown_range[OF gd] end_head_seq[of P kb genesis xs] g c Cons grown_append[of P kb genesis xs ?D]
      by (fastforce simp: list_all_iff)
    ultimately show ?thesis by (rule fine_suffix)
  qed
  then have "w_errorCount (foldl (verify_row P kb None) walk_start ?D) = 0 \<and> w_unverifiable (foldl (verify_row P kb None) walk_start ?D) = 0"
    unfolding walk_clean by (simp add: walk_start_def)
  then show ?thesis by (simp add: verify_fields str)
qed

theorem purge_keeps_chain_witness:
  "cr_errorCount (verifyAuditChain plain_primitives [] None (retentionPurge 9 (cs_store after_one))) = strays_of (retentionPurge 9 (cs_store after_one))
   \<and> cr_unverifiable (verifyAuditChain plain_primitives [] None (retentionPurge 9 (cs_store after_one))) = 0"
  by (rule purge_keeps_chain[OF after_one_grown]) (simp add: after_one_store)

text \<open>
  A property outside \<open>CHAIN_FIELDS\<close> is not covered. \<open>impersonatedBy\<close>, the operator behind a support
  session, is stored on the row and is not in the list.
\<close>

lemma uncovered_property: "f \<notin> set CHAIN_FIELDS \<Longrightarrow> chainContent P (r\<lparr>row_props := alist_set f v (row_props r)\<rparr>) = chainContent P r"
proof -
  assume f: "f \<notin> set CHAIN_FIELDS"
  have "row_field (r\<lparr>row_props := alist_set f v (row_props r)\<rparr>) g = row_field r g" if "g \<in> set CHAIN_FIELDS" for g
    using f that by (auto simp: row_field_def)
  then have "map (\<lambda>g. (g, if row_field (r\<lparr>row_props := alist_set f v (row_props r)\<rparr>) g = A_undefined then A_null
      else row_field (r\<lparr>row_props := alist_set f v (row_props r)\<rparr>) g)) CHAIN_FIELDS
    = map (\<lambda>g. (g, if row_field r g = A_undefined then A_null else row_field r g)) CHAIN_FIELDS"
    by (intro list.map_cong0) (simp del: if_split)
  then show ?thesis unfolding chainContent_def by (simp only:)
qed

lemma impersonation_uncovered: "chainContent P (r\<lparr>row_props := alist_set ''impersonatedBy'' v (row_props r)\<rparr>) = chainContent P r"
  by (rule uncovered_property) (simp add: CHAIN_FIELDS_def)

text \<open>A row whose number is of another type is in neither query of the verification.\<close>

lemma odd_row_invisible: "row_seq r = Seq_other \<Longrightarrow> verifyAuditChain P kb ex (store @ [r]) = verifyAuditChain P kb ex store"
proof -
  assume r: "row_seq r = Seq_other"
  have a: "streamChain (store @ [r]) = streamChain store" using r by (simp add: streamChain_def has_number_def)
  have b: "unchained_since since (store @ [r]) = unchained_since since store" for since using r by (simp add: unchained_since_def)
  show ?thesis unfolding verifyAuditChain_def countUnchainedSince_def findUnchainedSince_def a b by (rule refl)
qed

text \<open>A chain written without a key verifies under every configured key set: resealing it needs no key.\<close>

lemma unkeyed_chain_verifies:
  assumes "(chain_step P (\<lambda>p. None))\<^sup>*\<^sup>* st0 st" and "legacy_only st0"
  shows "cr_errorCount (verifyAuditChain P kb None (cs_store st)) = strays_of (cs_store st)"
proof -
  have g: "grown P kb genesis (filter has_number (cs_store st))"
    using chain_inv_reachable[OF assms(1) _ assms(2), of kb] by (simp add: chain_inv_def known_key_def)
  have "chain_fine P kb None None (filter has_number (cs_store st))" by (rule grown_fine[OF g]) simp
  then have "w_errorCount (foldl (verify_row P kb None) walk_start (filter has_number (cs_store st))) = 0
      \<and> w_unverifiable (foldl (verify_row P kb None) walk_start (filter has_number (cs_store st))) = 0"
    unfolding walk_clean by (simp add: walk_start_def)
  then show ?thesis by (simp add: verify_fields streamChain_grown[OF g])
qed

end
