(* ===== verification/TarArchive.thy ===== *)
theory TarArchive
  imports Prelude
begin

text \<open>
  The tar writer and extractor of tenant archives: \<open>src/utils/tarArchive.js\<close>. Bytes are characters; gzip
  is outside, so an archive is the chunks the decompressor hands over. A path is its list of segments
  below the root of the file system, whose files and directories are the state the extractor changes.
\<close>

section \<open>Names and headers\<close>

datatype tar_code = ARCHIVE_ENTRY_UNSAFE | ARCHIVE_ENTRY_TOO_LARGE | ARCHIVE_EMPTY | ARCHIVE_ENTRY_DUPLICATE | ARCHIVE_SOURCE_CHANGED
  | ARCHIVE_TOO_LARGE | ARCHIVE_CORRUPT | File_system_error

definition BLOCK :: nat where
  "BLOCK = 512"

definition NAME_MAX :: nat where
  "NAME_MAX = 100"

definition SIZE_MAX :: nat where
  "SIZE_MAX = 8 * 1024 * 1024 * 1024 - 1"

definition tar_char :: "char \<Rightarrow> bool" where
  "tar_char c \<longleftrightarrow> is_alnum c \<or> c = CHR ''.'' \<or> c = CHR ''_'' \<or> c = CHR ''-''"

definition SAFE_NAME :: "string \<Rightarrow> bool" where
  "SAFE_NAME s \<longleftrightarrow> list_all (\<lambda>p. p \<noteq> [] \<and> list_all tar_char p) (split_on (CHR ''/'') s)"

definition safe_name :: "string \<Rightarrow> bool" where
  "safe_name s \<longleftrightarrow> s \<noteq> [] \<and> length s \<le> NAME_MAX \<and> SAFE_NAME s \<and> \<not> list_ex (\<lambda>p. p = ''.'' \<or> p = ''..'') (split_on (CHR ''/'') s)"

definition assertSafeName :: "string \<Rightarrow> (tar_code, string) res" where
  "assertSafeName s = (if safe_name s then Inr s else Inl ARCHIVE_ENTRY_UNSAFE)"

definition octal_text :: "int \<Rightarrow> string" where
  "octal_text n = (if n < 0 then CHR ''-'' # to_base 8 (nat (- n)) else to_base 8 (nat n))"

definition pad_zero :: "nat \<Rightarrow> string \<Rightarrow> string" where
  "pad_zero w s = replicate (w - length s) (CHR ''0'') @ s"

definition octal :: "int \<Rightarrow> nat \<Rightarrow> (tar_code, string) res" where
  "octal v w = (if w - 1 < length (octal_text v) then Inl ARCHIVE_ENTRY_TOO_LARGE else Inr (pad_zero (w - 1) (octal_text v) @ [CHR 0x00]))"

definition writeString :: "string \<Rightarrow> nat \<Rightarrow> nat \<Rightarrow> string \<Rightarrow> string" where
  "writeString v off w buf = take off buf @ take w v @ drop (off + length (take w v)) buf"

definition byte_sum :: "string \<Rightarrow> nat" where
  "byte_sum buf = sum_list (map code buf)"

definition header_fields :: "string \<Rightarrow> string \<Rightarrow> string \<Rightarrow> string" where
  "header_fields name size_text mtime_text =
     writeString ''analivo'' 297 32
       (writeString ''analivo'' 265 32
         (writeString ''00'' 263 2
           (writeString (''ustar'' @ [CHR 0x00]) 257 6
             (writeString ''0'' 156 1
               (writeString (replicate 8 (CHR 0x20)) 148 8
                 (writeString mtime_text 136 12
                   (writeString size_text 124 12
                     (writeString (pad_zero 7 ''0'' @ [CHR 0x00]) 116 8
                       (writeString (pad_zero 7 ''0'' @ [CHR 0x00]) 108 8
                         (writeString (pad_zero 7 ''644'' @ [CHR 0x00]) 100 8
                           (writeString name 0 100 (replicate BLOCK (CHR 0x00)))))))))))))"

definition checksum_text :: "nat \<Rightarrow> string" where
  "checksum_text s = pad_zero 6 (to_base 8 s) @ [CHR 0x00, CHR 0x20]"

definition buildHeader :: "string \<Rightarrow> nat \<Rightarrow> int \<Rightarrow> (tar_code, string) res" where
  "buildHeader name sz mtime =
     (if \<not> safe_name name then Inl ARCHIVE_ENTRY_UNSAFE
      else if SIZE_MAX < sz then Inl ARCHIVE_ENTRY_TOO_LARGE
      else case octal (int sz) 12 of
        Inl e \<Rightarrow> Inl e
      | Inr size_text \<Rightarrow>
          (case octal mtime 12 of
             Inl e \<Rightarrow> Inl e
           | Inr mtime_text \<Rightarrow>
               let header = header_fields name size_text mtime_text
               in Inr (writeString (checksum_text (byte_sum header)) 148 8 header)))"

definition padding :: "nat \<Rightarrow> string" where
  "padding sz = (if sz mod BLOCK = 0 then [] else replicate (BLOCK - sz mod BLOCK) (CHR 0x00))"

section \<open>Writing\<close>

text \<open>
  A source file: its size and time as \<open>stat\<close> reports them, and the chunks reading it gives; \<open>None\<close> is
  anything but a regular file.
\<close>

record source =
  src_size :: nat
  src_mtime :: int
  src_chunks :: "string list"

type_synonym tar_entry = "string \<times> source option"

fun check_names :: "string list \<Rightarrow> tar_entry list \<Rightarrow> tar_code option" where
  "check_names seen [] = None"
| "check_names seen ((name, s) # es) =
     (if \<not> safe_name name then Some ARCHIVE_ENTRY_UNSAFE
      else if name \<in> set seen then Some ARCHIVE_ENTRY_DUPLICATE
      else check_names (name # seen) es)"

fun blocks :: "tar_entry list \<Rightarrow> (tar_code, string) res" where
  "blocks [] = Inr (replicate (BLOCK * 2) (CHR 0x00))"
| "blocks ((name, None) # es) = Inl ARCHIVE_ENTRY_UNSAFE"
| "blocks ((name, Some s) # es) =
     (case buildHeader name (src_size s) (src_mtime s) of
        Inl e \<Rightarrow> Inl e
      | Inr header \<Rightarrow>
          if length (concat (src_chunks s)) \<noteq> src_size s then Inl ARCHIVE_SOURCE_CHANGED
          else (case blocks es of
                  Inl e \<Rightarrow> Inl e
                | Inr rest \<Rightarrow> Inr (header @ concat (src_chunks s) @ padding (src_size s) @ rest)))"

definition writeTarGz :: "tar_entry list \<Rightarrow> (tar_code, string) res" where
  "writeTarGz es =
     (if es = [] then Inl ARCHIVE_EMPTY
      else case check_names [] es of Some e \<Rightarrow> Inl e | None \<Rightarrow> blocks es)"

section \<open>Reading headers\<close>

definition readString :: "string \<Rightarrow> nat \<Rightarrow> nat \<Rightarrow> string" where
  "readString buf off w = takeWhile (\<lambda>c. c \<noteq> CHR 0x00) (take w (drop off buf))"

definition is_octal :: "char \<Rightarrow> bool" where
  "is_octal c \<longleftrightarrow> 48 \<le> code c \<and> code c \<le> 55"

definition octal_value :: "string \<Rightarrow> nat" where
  "octal_value s = foldl (\<lambda>acc c. 8 * acc + digit_value c) 0 s"

definition readOctal :: "string \<Rightarrow> nat \<Rightarrow> nat \<Rightarrow> nat option" where
  "readOctal buf off w = (let text = trim (readString buf off w) in if list_all is_octal text then Some (octal_value text) else None)"

definition checked_sum :: "string \<Rightarrow> nat" where
  "checked_sum header = sum_list (map (\<lambda>(i, c). if 148 \<le> i \<and> i < 156 then 32 else code c) (zip [0..<length header] header))"

definition verifyChecksum :: "string \<Rightarrow> bool" where
  "verifyChecksum header \<longleftrightarrow> readOctal header 148 8 = Some (checked_sum header)"

section \<open>The file system\<close>

type_synonym path = "string list"

record fs =
  fs_files :: "(path \<times> string) list"
  fs_dirs :: "path list"

fun paths_to :: "path \<Rightarrow> path list" where
  "paths_to [] = []"
| "paths_to (s # ss) = [s] # map ((#) s) (paths_to ss)"

definition is_file :: "fs \<Rightarrow> path \<Rightarrow> bool" where
  "is_file d p \<longleftrightarrow> p \<in> fst ` set (fs_files d)"

text \<open>\<open>mkdir\<close> with \<open>recursive\<close>: every missing directory on the way; a file on the way is an error.\<close>

definition mkdir_p :: "path \<Rightarrow> fs \<Rightarrow> fs option" where
  "mkdir_p p d =
     (if list_ex (is_file d) (paths_to p) then None
      else Some (d\<lparr>fs_dirs := fs_dirs d @ filter (\<lambda>q. q \<notin> set (fs_dirs d)) (paths_to p)\<rparr>))"

text \<open>\<open>open\<close> with \<open>wx\<close>: a new, empty file; anything there already is an error.\<close>

definition open_wx :: "path \<Rightarrow> fs \<Rightarrow> fs option" where
  "open_wx p d = (if is_file d p \<or> p \<in> set (fs_dirs d) then None else Some (d\<lparr>fs_files := fs_files d @ [(p, [])]\<rparr>))"

definition append_file :: "path \<Rightarrow> string \<Rightarrow> fs \<Rightarrow> fs" where
  "append_file p s d = d\<lparr>fs_files := map (\<lambda>(q, c). if q = p then (q, c @ s) else (q, c)) (fs_files d)\<rparr>"

text \<open>\<open>path.resolve(dest, name)\<close> for an absolute root.\<close>

definition resolve_segment :: "path \<Rightarrow> string \<Rightarrow> path" where
  "resolve_segment acc s = (if s = [] \<or> s = ''.'' then acc else if s = ''..'' then butlast acc else acc @ [s])"

definition path_resolve :: "path \<Rightarrow> string \<Rightarrow> path" where
  "path_resolve dest name = foldl resolve_segment (if take 1 name = ''/'' then [] else dest) (split_on (CHR ''/'') name)"

definition below :: "path \<Rightarrow> path \<Rightarrow> bool" where
  "below dest p \<longleftrightarrow> length dest < length p \<and> take (length dest) p = dest"

section \<open>Extraction\<close>

record tar_member =
  mb_handle :: "path option"
  mb_remaining :: nat
  mb_pad :: nat

record extractor =
  ex_buffer :: string
  ex_current :: "tar_member option"
  ex_finished :: bool
  ex_names :: "string list"
  ex_fs :: fs

text \<open>The state is \<open>data\<close> exactly while a member is current.\<close>

datatype flow = More extractor | Wait extractor | Stop tar_code extractor

definition pad_of :: "nat \<Rightarrow> nat" where
  "pad_of sz = (BLOCK - sz mod BLOCK) mod BLOCK"

definition clean_name :: "string \<Rightarrow> string" where
  "clean_name header =
     (let prefix = readString header 345 155;
          name = (if prefix \<noteq> [] then prefix @ ''/'' else []) @ readString header 0 100
      in if ends_with ''/'' name then butlast name else name)"

definition type_char :: "string \<Rightarrow> char" where
  "type_char header = (if header ! 156 = CHR 0x00 then CHR ''0'' else header ! 156)"

definition start_member :: "path option \<Rightarrow> nat \<Rightarrow> extractor \<Rightarrow> extractor" where
  "start_member h sz st = st\<lparr>ex_current := Some \<lparr>mb_handle = h, mb_remaining = sz, mb_pad = pad_of sz\<rparr>\<rparr>"

definition open_member :: "nat \<Rightarrow> path \<Rightarrow> string \<Rightarrow> nat \<Rightarrow> extractor \<Rightarrow> flow" where
  "open_member maxEntries dest name sz st =
     (if \<not> safe_name name then Stop ARCHIVE_ENTRY_UNSAFE st
      else if maxEntries \<le> length (ex_names st) then Stop ARCHIVE_TOO_LARGE st
      else let target = path_resolve dest name in
        if \<not> below dest target then Stop ARCHIVE_ENTRY_UNSAFE st
        else case mkdir_p (butlast target) (ex_fs st) of
          None \<Rightarrow> Stop File_system_error st
        | Some d \<Rightarrow>
            (case open_wx target d of
               None \<Rightarrow> Stop File_system_error (st\<lparr>ex_fs := d\<rparr>)
             | Some d' \<Rightarrow> More (start_member (Some target) sz (st\<lparr>ex_fs := d', ex_names := ex_names st @ [name]\<rparr>))))"

definition make_directory :: "path \<Rightarrow> string \<Rightarrow> extractor \<Rightarrow> flow" where
  "make_directory dest name st =
     (if \<not> safe_name name then Stop ARCHIVE_ENTRY_UNSAFE st
      else case mkdir_p (dest @ split_on (CHR ''/'') name) (ex_fs st) of
        None \<Rightarrow> Stop File_system_error st
      | Some d \<Rightarrow> More (st\<lparr>ex_fs := d\<rparr>))"

definition header_step :: "nat \<Rightarrow> path \<Rightarrow> extractor \<Rightarrow> flow" where
  "header_step maxEntries dest st =
     (if length (ex_buffer st) < BLOCK then Wait st
      else
        let header = take BLOCK (ex_buffer st);
            st = st\<lparr>ex_buffer := drop BLOCK (ex_buffer st)\<rparr>
        in
        if list_all (\<lambda>c. c = CHR 0x00) header then Wait (st\<lparr>ex_finished := True\<rparr>)
        else if \<not> verifyChecksum header then Stop ARCHIVE_CORRUPT st
        else case readOctal header 124 12 of
          None \<Rightarrow> Stop ARCHIVE_CORRUPT st
        | Some sz \<Rightarrow>
            let name = clean_name header; type = type_char header in
            if type = CHR ''5'' then make_directory dest name st
            else if type = CHR ''x'' \<or> type = CHR ''g'' then
              (if 1024 * 1024 < sz then Stop ARCHIVE_CORRUPT st else More (start_member None sz st))
            else if type \<noteq> CHR ''0'' \<and> type \<noteq> CHR ''7'' then Stop ARCHIVE_ENTRY_UNSAFE st
            else open_member maxEntries dest name sz st)"

definition write_chunk :: "tar_member \<Rightarrow> string \<Rightarrow> fs \<Rightarrow> fs" where
  "write_chunk m s d = (case mb_handle m of Some p \<Rightarrow> append_file p s d | None \<Rightarrow> d)"

definition pad_step :: "tar_member \<Rightarrow> extractor \<Rightarrow> flow" where
  "pad_step m st =
     (if length (ex_buffer st) < mb_pad m then Wait (st\<lparr>ex_current := Some m\<rparr>)
      else More (st\<lparr>ex_buffer := drop (mb_pad m) (ex_buffer st), ex_current := None\<rparr>))"

definition data_step :: "tar_member \<Rightarrow> extractor \<Rightarrow> flow" where
  "data_step m st =
     (if 0 < mb_remaining m then
        (if ex_buffer st = [] then Wait st
         else
           let n = min (mb_remaining m) (length (ex_buffer st));
               m' = m\<lparr>mb_remaining := mb_remaining m - n\<rparr>;
               st' = st\<lparr>ex_buffer := drop n (ex_buffer st), ex_current := Some m', ex_fs := write_chunk m (take n (ex_buffer st)) (ex_fs st)\<rparr>
           in if 0 < mb_remaining m' then Wait st' else pad_step m' st')
      else pad_step m st)"

definition tar_step :: "nat \<Rightarrow> path \<Rightarrow> extractor \<Rightarrow> flow" where
  "tar_step maxEntries dest st = (case ex_current st of None \<Rightarrow> header_step maxEntries dest st | Some m \<Rightarrow> data_step m st)"

definition tar_measure :: "extractor \<Rightarrow> nat" where
  "tar_measure st = 2 * length (ex_buffer st) + (case ex_current st of None \<Rightarrow> 0 | Some m \<Rightarrow> 1)"

lemma pad_step_more: "pad_step m st = More st' \<Longrightarrow> length (ex_buffer st') \<le> length (ex_buffer st) \<and> ex_current st' = None"
  by (auto simp: pad_step_def split: if_splits)

lemma data_step_more:
  assumes "data_step m st = More st'"
  shows "length (ex_buffer st') \<le> length (ex_buffer st) \<and> ex_current st' = None"
proof (cases "0 < mb_remaining m")
  case True
  define n where "n = min (mb_remaining m) (length (ex_buffer st))"
  define m' where "m' = m\<lparr>mb_remaining := mb_remaining m - n\<rparr>"
  define s' where "s' = st\<lparr>ex_buffer := drop n (ex_buffer st), ex_current := Some m', ex_fs := write_chunk m (take n (ex_buffer st)) (ex_fs st)\<rparr>"
  have "pad_step m' s' = More st'"
    using assms True unfolding data_step_def Let_def n_def[symmetric] m'_def[symmetric] s'_def[symmetric] by (auto split: if_splits)
  from pad_step_more[OF this] show ?thesis by (auto simp: s'_def)
next
  case False
  then show ?thesis using assms pad_step_more by (simp add: data_step_def)
qed

lemma open_member_more:
  "open_member k dest name sz st = More st' \<Longrightarrow> ex_buffer st' = ex_buffer st"
  by (auto simp: open_member_def start_member_def Let_def split: if_splits option.splits)

lemma header_step_more:
  assumes "header_step k dest st = More st'"
  shows "BLOCK \<le> length (ex_buffer st) \<and> ex_buffer st' = drop BLOCK (ex_buffer st)"
proof -
  have b: "\<not> length (ex_buffer st) < BLOCK" using assms by (auto simp: header_step_def)
  show ?thesis
    using assms b unfolding header_step_def Let_def
    by (auto simp: start_member_def make_directory_def dest: open_member_more split: if_splits option.splits)
qed

lemma tar_step_decreases: "tar_step k dest st = More st' \<Longrightarrow> tar_measure st' < tar_measure st"
  using header_step_more[of k dest st st'] data_step_more[of _ st st']
  by (auto simp: tar_step_def tar_measure_def BLOCK_def split: option.splits) force

function run_loop :: "nat \<Rightarrow> path \<Rightarrow> extractor \<Rightarrow> flow" where
  "run_loop k dest st = (case tar_step k dest st of More st' \<Rightarrow> run_loop k dest st' | Wait st' \<Rightarrow> Wait st' | Stop e st' \<Rightarrow> Stop e st')"
  by pat_completeness auto
termination by (relation "measure (\<lambda>(k, dest, st). tar_measure st)") (auto dest: tar_step_decreases)

declare run_loop.simps [simp del]

text \<open>The loop over the chunks; \<open>inflated\<close> counts the bytes so far.\<close>

fun feed_all :: "nat \<Rightarrow> nat \<Rightarrow> path \<Rightarrow> nat \<Rightarrow> extractor \<Rightarrow> string list \<Rightarrow> flow" where
  "feed_all maxEntries maxTotalBytes dest inflated st [] = Wait st"
| "feed_all maxEntries maxTotalBytes dest inflated st (c # cs) =
     (if maxTotalBytes < inflated + length c then Stop ARCHIVE_TOO_LARGE st
      else if ex_finished st then feed_all maxEntries maxTotalBytes dest (inflated + length c) st cs
      else case run_loop maxEntries dest (st\<lparr>ex_buffer := ex_buffer st @ c\<rparr>) of
        Wait st' \<Rightarrow> feed_all maxEntries maxTotalBytes dest (inflated + length c) st' cs
      | r \<Rightarrow> r)"

definition start_extractor :: "fs \<Rightarrow> extractor" where
  "start_extractor d = \<lparr>ex_buffer = [], ex_current = None, ex_finished = False, ex_names = [], ex_fs = d\<rparr>"

definition tar_outcome :: "flow \<Rightarrow> (tar_code, string list) res \<times> fs" where
  "tar_outcome r =
     (case r of
        Stop e st \<Rightarrow> (Inl e, ex_fs st)
      | More st \<Rightarrow> (Inl ARCHIVE_CORRUPT, ex_fs st)
      | Wait st \<Rightarrow> (if ex_finished st \<and> ex_current st = None then Inr (ex_names st) else Inl ARCHIVE_CORRUPT, ex_fs st))"

definition extractTarGz :: "nat \<Rightarrow> nat \<Rightarrow> path \<Rightarrow> fs \<Rightarrow> string list \<Rightarrow> (tar_code, string list) res \<times> fs" where
  "extractTarGz maxEntries maxTotalBytes dest d chunks =
     (case mkdir_p dest d of
        None \<Rightarrow> (Inl File_system_error, d)
      | Some d' \<Rightarrow> tar_outcome (feed_all maxEntries maxTotalBytes dest 0 (start_extractor d') chunks))"

section \<open>The result does not depend on the chunks\<close>

abbreviation with_more :: "extractor \<Rightarrow> string \<Rightarrow> extractor" where
  "with_more st c \<equiv> st\<lparr>ex_buffer := ex_buffer st @ c\<rparr>"

fun flow_more :: "string \<Rightarrow> flow \<Rightarrow> flow" where
  "flow_more c (More st) = More (with_more st c)"
| "flow_more c (Wait st) = Wait (with_more st c)"
| "flow_more c (Stop e st) = Stop e (with_more st c)"

lemma open_member_append: "open_member k dest name sz (with_more st c) = flow_more c (open_member k dest name sz st)"
  by (simp add: open_member_def start_member_def Let_def split: option.splits)

lemma make_directory_append: "make_directory dest name (with_more st c) = flow_more c (make_directory dest name st)"
  by (simp add: make_directory_def split: option.splits)

lemma header_step_append:
  assumes "BLOCK \<le> length (ex_buffer st)"
  shows "header_step k dest (with_more st c) = flow_more c (header_step k dest st)"
proof -
  let ?s = "st\<lparr>ex_buffer := drop BLOCK (ex_buffer st)\<rparr>"
  have e: "(with_more st c)\<lparr>ex_buffer := drop BLOCK (ex_buffer (with_more st c))\<rparr> = with_more ?s c"
    "take BLOCK (ex_buffer (with_more st c)) = take BLOCK (ex_buffer st)" using assms by simp_all
  show ?thesis
    unfolding header_step_def Let_def e open_member_append make_directory_append
    using assms by (simp add: start_member_def split: option.splits)
qed

lemma pad_step_append: "mb_pad m \<le> length (ex_buffer st) \<Longrightarrow> pad_step m (with_more st c) = flow_more c (pad_step m st)"
  by (simp add: pad_step_def)

lemma data_step_append:
  assumes "data_step m st = More st'"
  shows "data_step m (with_more st c) = More (with_more st' c)"
proof (cases "0 < mb_remaining m")
  case True
  define n where "n = min (mb_remaining m) (length (ex_buffer st))"
  define m' where "m' = m\<lparr>mb_remaining := mb_remaining m - n\<rparr>"
  define s' where "s' = st\<lparr>ex_buffer := drop n (ex_buffer st), ex_current := Some m', ex_fs := write_chunk m (take n (ex_buffer st)) (ex_fs st)\<rparr>"
  have p: "pad_step m' s' = More st'" and r: "mb_remaining m' = 0" and b: "ex_buffer st \<noteq> []"
    using assms True unfolding data_step_def Let_def n_def[symmetric] m'_def[symmetric] s'_def[symmetric] by (auto split: if_splits)
  have n: "n = mb_remaining m" "n \<le> length (ex_buffer st)" using r by (simp_all add: m'_def n_def)
  have l: "mb_pad m' \<le> length (ex_buffer s')" using p by (auto simp: pad_step_def split: if_splits)
  have s: "s'\<lparr>ex_buffer := ex_buffer s' @ c\<rparr>
      = (with_more st c)\<lparr>ex_buffer := drop n (ex_buffer (with_more st c)), ex_current := Some m',
           ex_fs := write_chunk m (take n (ex_buffer (with_more st c))) (ex_fs (with_more st c))\<rparr>"
    using n(2) by (simp add: s'_def)
  have "min (mb_remaining m) (length (ex_buffer (with_more st c))) = n" using n by simp
  then have "data_step m (with_more st c) = pad_step m' (with_more s' c)"
    using True b r unfolding data_step_def Let_def s by (simp add: m'_def)
  then show ?thesis using pad_step_append[OF l, of c] p by simp
next
  case False
  then have p: "pad_step m st = More st'" using assms by (simp add: data_step_def)
  then have "mb_pad m \<le> length (ex_buffer st)" by (auto simp: pad_step_def split: if_splits)
  then show ?thesis using pad_step_append[of m st c] p False by (simp add: data_step_def)
qed

lemma data_step_not_stop: "data_step m st \<noteq> Stop e s"
  by (simp add: data_step_def pad_step_def Let_def)

lemma tar_step_append:
  assumes "\<And>s. tar_step k dest st \<noteq> Wait s"
  shows "tar_step k dest (with_more st c) = flow_more c (tar_step k dest st)"
proof (cases "ex_current st")
  case None
  have "\<not> length (ex_buffer st) < BLOCK" using assms[of st] None by (auto simp: tar_step_def header_step_def)
  then have "BLOCK \<le> length (ex_buffer st)" by simp
  then show ?thesis using None header_step_append by (simp add: tar_step_def)
next
  case (Some m)
  have d: "tar_step k dest s = data_step m s" if "ex_current s = Some m" for s using that by (simp add: tar_step_def)
  have "data_step m st \<noteq> Wait s" "data_step m st \<noteq> Stop e s" for e s
    using assms[of s] data_step_not_stop d[OF Some] by simp_all
  then obtain s where "data_step m st = More s" by (cases "data_step m st") auto
  then show ?thesis using Some data_step_append[of m st s c] d[of st] d[of "with_more st c"] by simp
qed

lemma append_file_twice: "append_file p t (append_file p s d) = append_file p (s @ t) d"
  by (simp add: append_file_def comp_def case_prod_beta)

lemma write_chunk_twice: "mb_handle m' = mb_handle m \<Longrightarrow> write_chunk m' t (write_chunk m s d) = write_chunk m (s @ t) d"
  by (simp add: write_chunk_def append_file_twice split: option.splits)

lemma open_member_not_wait: "open_member k dest name sz st \<noteq> Wait s"
  by (simp add: open_member_def Let_def split: option.splits)

lemma make_directory_not_wait: "make_directory dest name st \<noteq> Wait s"
  by (simp add: make_directory_def split: option.splits)

lemma header_step_wait:
  assumes "header_step k dest st = Wait st'"
  shows "length (ex_buffer st) < BLOCK \<and> st' = st \<or> BLOCK \<le> length (ex_buffer st) \<and> ex_finished st'"
proof (cases "length (ex_buffer st) < BLOCK")
  case False
  then show ?thesis
    using assms open_member_not_wait make_directory_not_wait unfolding header_step_def Let_def
    by (auto split: if_splits option.splits)
qed (use assms in \<open>simp add: header_step_def\<close>)

text \<open>Where a step waits with the data it has, more data continues as if it had all come at once.\<close>

lemma data_step_wait:
  assumes c: "ex_current st = Some m" and w: "data_step m st = Wait st'"
  shows "tar_step k dest (with_more st c) = tar_step k dest (with_more st' c) \<and> ex_finished st' = ex_finished st"
proof (cases "0 < mb_remaining m \<and> ex_buffer st \<noteq> []")
  case False
  have "st' = st"
  proof (cases "0 < mb_remaining m")
    case True
    then show ?thesis using w False by (simp add: data_step_def)
  next
    case False
    then have "st' = st\<lparr>ex_current := Some m\<rparr>" using w by (auto simp: data_step_def pad_step_def split: if_splits)
    then show ?thesis using c by simp
  qed
  then show ?thesis by simp
next
  case True
  define n where "n = min (mb_remaining m) (length (ex_buffer st))"
  define m' where "m' = m\<lparr>mb_remaining := mb_remaining m - n\<rparr>"
  define s' where "s' = st\<lparr>ex_buffer := drop n (ex_buffer st), ex_current := Some m', ex_fs := write_chunk m (take n (ex_buffer st)) (ex_fs st)\<rparr>"
  have e: "data_step m st = (if 0 < mb_remaining m' then Wait s' else pad_step m' s')"
    using True unfolding data_step_def Let_def n_def[symmetric] m'_def[symmetric] s'_def[symmetric] by simp
  have "st' = s'"
    using w unfolding e by (auto simp: pad_step_def s'_def split: if_splits)
  have cur: "tar_step k dest (with_more s' c) = data_step m' (with_more s' c)" by (simp add: tar_step_def s'_def)
  have start: "tar_step k dest (with_more st c) = data_step m (with_more st c)" using c by (simp add: tar_step_def)
  show ?thesis
  proof (cases "0 < mb_remaining m'")
    case False
    then have n: "n = mb_remaining m" "n \<le> length (ex_buffer st)" by (simp_all add: m'_def n_def)
    have l: "min (mb_remaining m) (length (ex_buffer (with_more st c))) = n" using n by simp
    have s: "(with_more st c)\<lparr>ex_buffer := drop n (ex_buffer (with_more st c)), ex_current := Some m',
           ex_fs := write_chunk m (take n (ex_buffer (with_more st c))) (ex_fs (with_more st c))\<rparr>
        = s'\<lparr>ex_buffer := ex_buffer s' @ c\<rparr>"
      using n(2) by (simp add: s'_def)
    have "data_step m (with_more st c) = pad_step m' (with_more s' c)"
      using True False unfolding data_step_def Let_def l m'_def[symmetric] s by simp
    moreover have "data_step m' (with_more s' c) = pad_step m' (with_more s' c)" using False by (simp add: data_step_def)
    ultimately show ?thesis using \<open>st' = s'\<close> cur start by (simp add: s'_def)
  next
    case rem: True
    then have n: "n = length (ex_buffer st)" and lt: "length (ex_buffer st) < mb_remaining m" by (simp_all add: m'_def n_def)
    have s'e: "s' = st\<lparr>ex_buffer := [], ex_current := Some m', ex_fs := write_chunk m (ex_buffer st) (ex_fs st)\<rparr>" using n by (simp add: s'_def)
    show ?thesis
    proof (cases "c = []")
      case True
      then have "data_step m' (with_more s' c) = Wait s'" using rem by (simp add: data_step_def s'e)
      moreover have "data_step m (with_more st c) = Wait s'" using True e rem by simp
      ultimately show ?thesis using \<open>st' = s'\<close> cur start by (simp add: s'e)
    next
      case cne: False
      define j where "j = min (mb_remaining m - n) (length c)"
      have j: "min (mb_remaining m) (length (ex_buffer (with_more st c))) = n + j" "min (mb_remaining m') (length (ex_buffer (with_more s' c))) = j"
        using n lt by (simp_all add: j_def m'_def s'e)
      have w2: "write_chunk (m\<lparr>mb_remaining := x\<rparr>) u (write_chunk m v d) = write_chunk m (v @ u) d" for x u v d
        by (rule write_chunk_twice) simp
      have "data_step m (with_more st c) = data_step m' (with_more s' c)"
        using True rem cne unfolding data_step_def j Let_def by (simp add: s'e n w2 m'_def)
      then show ?thesis using \<open>st' = s'\<close> cur start by (simp add: s'e)
    qed
  qed
qed

lemma tar_step_wait:
  assumes "tar_step k dest st = Wait st'" and "\<not> ex_finished st'"
  shows "tar_step k dest (with_more st c) = tar_step k dest (with_more st' c)"
proof (cases "ex_current st")
  case None
  then show ?thesis using assms header_step_wait[of k dest st st'] by (auto simp: tar_step_def)
next
  case (Some m)
  then show ?thesis using assms data_step_wait[OF Some] by (simp add: tar_step_def)
qed

lemma tar_step_end:
  assumes "tar_step k dest st = Wait st'" and "ex_finished st'" and "\<not> ex_finished st"
  shows "tar_step k dest (with_more st c) = Wait (with_more st' c)"
proof (cases "ex_current st")
  case None
  then have h: "header_step k dest st = Wait st'" using assms by (simp add: tar_step_def)
  then have "BLOCK \<le> length (ex_buffer st)" using header_step_wait[OF h] assms by auto
  then show ?thesis using header_step_append[of st k dest c] h None by (simp add: tar_step_def)
next
  case (Some m)
  then show ?thesis using assms data_step_wait[OF Some, of st' k dest "[]"] by (simp add: tar_step_def)
qed

lemma open_member_finished: "open_member k dest name sz st = More st' \<Longrightarrow> ex_finished st' = ex_finished st"
  by (auto simp: open_member_def start_member_def Let_def split: if_splits option.splits)

lemma tar_step_unfinished:
  assumes "tar_step k dest st = More st'"
  shows "ex_finished st' = ex_finished st"
proof (cases "ex_current st")
  case None
  then have "header_step k dest st = More st'" using assms by (simp add: tar_step_def)
  then show ?thesis
    unfolding header_step_def Let_def
    by (auto simp: start_member_def make_directory_def dest: open_member_finished split: if_splits option.splits)
next
  case (Some m)
  then show ?thesis using assms by (auto simp: tar_step_def data_step_def pad_step_def Let_def split: if_splits)
qed

lemma run_loop_append:
  "\<not> ex_finished st \<Longrightarrow>
    (case run_loop k dest st of
       Stop e s \<Rightarrow> run_loop k dest (with_more st c) = Stop e (with_more s c)
     | Wait s \<Rightarrow> if ex_finished s then run_loop k dest (with_more st c) = Wait (with_more s c)
                 else run_loop k dest (with_more st c) = run_loop k dest (with_more s c)
     | More s \<Rightarrow> False)"
proof (induction k dest st rule: run_loop.induct)
  case (1 k dest st)
  show ?case
  proof (cases "tar_step k dest st")
    case (More s)
    have u: "\<not> ex_finished s" using tar_step_unfinished[OF More] "1.prems" by simp
    have a: "tar_step k dest (with_more st c) = More (with_more s c)" using tar_step_append[of k dest st c] More by simp
    have r: "run_loop k dest st = run_loop k dest s" "run_loop k dest (with_more st c) = run_loop k dest (with_more s c)"
      using More a run_loop.simps[of k dest st] run_loop.simps[of k dest "with_more st c"] by simp_all
    show ?thesis unfolding r by (rule "1.IH"[OF More u])
  next
    case (Stop e s)
    then have "tar_step k dest (with_more st c) = Stop e (with_more s c)" using tar_step_append[of k dest st c] by simp
    then show ?thesis using Stop run_loop.simps[of k dest st] run_loop.simps[of k dest "with_more st c"] by simp
  next
    case (Wait s)
    show ?thesis
    proof (cases "ex_finished s")
      case True
      have "tar_step k dest (with_more st c) = Wait (with_more s c)" by (rule tar_step_end[OF Wait True "1.prems"])
      then show ?thesis using Wait True run_loop.simps[of k dest st] run_loop.simps[of k dest "with_more st c"] by simp
    next
      case False
      have "run_loop k dest (with_more st c) = run_loop k dest (with_more s c)"
        using tar_step_wait[OF Wait False, of c] run_loop.simps[of k dest "with_more st c"] run_loop.simps[of k dest "with_more s c"] by simp
      then show ?thesis using Wait False run_loop.simps[of k dest st] by simp
    qed
  qed
qed

lemma tar_outcome_more: "tar_outcome (flow_more c r) = tar_outcome r"
  by (cases r) (simp_all add: tar_outcome_def)

lemma feed_finished: "ex_finished st \<Longrightarrow> n + length (concat cs) \<le> mx \<Longrightarrow> feed_all k mx dest n st cs = Wait st"
  by (induction cs arbitrary: n) simp_all

lemma feed_all_concat:
  "\<not> ex_finished st \<Longrightarrow> run_loop k dest st = Wait st \<Longrightarrow> n + length (concat cs) \<le> mx
   \<Longrightarrow> tar_outcome (feed_all k mx dest n st cs) = tar_outcome (run_loop k dest (with_more st (concat cs)))"
proof (induction cs arbitrary: st n)
  case (Cons c cs)
  have l: "\<not> mx < n + length c" "n + length c + length (concat cs) \<le> mx" using Cons.prems(3) by simp_all
  have u: "\<not> ex_finished (with_more st c)" using Cons.prems(1) by simp
  note a = run_loop_append[OF u, of k dest "concat cs"]
  have w: "with_more (with_more st c) (concat cs) = with_more st (concat (c # cs))" by simp
  show ?case
  proof (cases "run_loop k dest (with_more st c)")
    case (More s)
    then show ?thesis using a by simp
  next
    case (Stop e s)
    then show ?thesis using a l Cons.prems(1) tar_outcome_more[of "concat cs" "Stop e s"] unfolding w by simp
  next
    case (Wait s)
    show ?thesis
    proof (cases "ex_finished s")
      case True
      then show ?thesis
        using a l Wait Cons.prems(1) feed_finished[OF True l(2)] tar_outcome_more[of "concat cs" "Wait s"] unfolding w by simp
    next
      case False
      have q: "run_loop k dest s = Wait s"
        using run_loop_append[OF u, of k dest "[]"] Wait False by simp
      have "tar_outcome (feed_all k mx dest (n + length c) s cs) = tar_outcome (run_loop k dest (with_more s (concat cs)))"
        by (rule Cons.IH[OF False q l(2)])
      then show ?thesis using a l Wait Cons.prems(1) False unfolding w by simp
    qed
  qed
qed simp

lemma run_start: "run_loop k dest (start_extractor d) = Wait (start_extractor d)"
  by (subst run_loop.simps) (simp add: tar_step_def header_step_def start_extractor_def BLOCK_def)

lemma extract_concat:
  "length (concat cs) \<le> mx \<Longrightarrow> mkdir_p dest d = Some d'
   \<Longrightarrow> extractTarGz k mx dest d cs = tar_outcome (run_loop k dest (with_more (start_extractor d') (concat cs)))"
  using feed_all_concat[of "start_extractor d'" k dest 0 cs mx] run_start by (simp add: extractTarGz_def start_extractor_def)

text \<open>
  C39. How the decompressor cuts the archive into chunks makes no difference: within the size limit, the
  result and the files are those of the same bytes in one piece. This holds for every input, valid or not.
\<close>

theorem tar_chunks_irrelevant:
  assumes "concat cs = concat ds" and "length (concat cs) \<le> maxTotalBytes"
  shows "extractTarGz maxEntries maxTotalBytes dest d cs = extractTarGz maxEntries maxTotalBytes dest d ds"
proof (cases "mkdir_p dest d")
  case None
  then show ?thesis by (simp add: extractTarGz_def)
next
  case (Some d')
  show ?thesis using extract_concat[OF _ Some, of cs] extract_concat[OF _ Some, of ds] assms by simp
qed

theorem tar_chunks_irrelevant_witness:
  "extractTarGz 3 100 [''r''] \<lparr>fs_files = [], fs_dirs = []\<rparr> [''ab'', ''c''] = extractTarGz 3 100 [''r''] \<lparr>fs_files = [], fs_dirs = []\<rparr> [''a'', ''bc'']"
  by (rule tar_chunks_irrelevant) simp_all

section \<open>Headers read back\<close>

definition slice :: "nat \<Rightarrow> nat \<Rightarrow> string \<Rightarrow> string" where
  "slice off w buf = take w (drop off buf)"

lemma writeString_short: "length v \<le> w \<Longrightarrow> writeString v off w buf = take off buf @ v @ drop (off + length v) buf"
  by (simp add: writeString_def)

lemma length_writeString: "length v \<le> w \<Longrightarrow> off + w \<le> length buf \<Longrightarrow> length (writeString v off w buf) = length buf"
  by (simp add: writeString_short)

lemma slice_before: "length v \<le> w \<Longrightarrow> off + w \<le> length buf \<Longrightarrow> a + n \<le> off \<Longrightarrow> slice a n (writeString v off w buf) = slice a n buf"
  unfolding writeString_short slice_def take_drop by (simp add: take_append min_absorb1)

lemma slice_after:
  assumes "length v \<le> w" "off + w \<le> length buf" "off + w \<le> a"
  shows "slice a n (writeString v off w buf) = slice a n buf"
proof -
  have "drop a (writeString v off w buf) = drop a buf"
    using assms by (simp add: writeString_short)
  then show ?thesis by (simp add: slice_def)
qed

lemma slice_here:
  assumes "length v \<le> w" "off + w \<le> length buf"
  shows "slice off w (writeString v off w buf) = v @ slice (off + length v) (w - length v) buf"
  using assms by (simp add: writeString_short slice_def)

lemma slice_zeros: "a + n \<le> m \<Longrightarrow> slice a n (replicate m c) = replicate n c"
  by (simp add: slice_def)

lemma slice_none [simp]: "slice a 0 s = []"
  by (simp add: slice_def)

lemma slice_prefix: "length x = n \<Longrightarrow> slice 0 n (x @ y) = x"
  by (simp add: slice_def)

lemma length_octal: "octal v 12 = Inr s \<Longrightarrow> length s = 12"
  by (auto simp: octal_def pad_zero_def split: if_splits)

lemma length_pad7: "length (pad_zero 7 ''0'') = 7" "length (pad_zero 7 ''644'') = 7"
  by (simp_all add: pad_zero_def)

text \<open>A header as the sequence of its writes: each field is in its place, whatever is written elsewhere.\<close>

definition put :: "string \<times> nat \<times> nat \<Rightarrow> string \<Rightarrow> string" where
  "put = (\<lambda>(v, off, w). writeString v off w)"

definition fits :: "nat \<Rightarrow> string \<times> nat \<times> nat \<Rightarrow> bool" where
  "fits m = (\<lambda>(v, off, w). length v \<le> w \<and> off + w \<le> m)"

definition apart :: "nat \<Rightarrow> nat \<Rightarrow> string \<times> nat \<times> nat \<Rightarrow> bool" where
  "apart a n = (\<lambda>(v, off, w). a + n \<le> off \<or> off + w \<le> a)"

lemma puts_length: "list_all (fits (length buf)) ws \<Longrightarrow> length (fold put ws buf) = length buf"
  by (induction ws arbitrary: buf) (auto simp: put_def fits_def length_writeString)

lemma puts_apart: "list_all (fits (length buf)) ws \<Longrightarrow> list_all (apart a n) ws \<Longrightarrow> slice a n (fold put ws buf) = slice a n buf"
proof (induction ws arbitrary: buf)
  case (Cons x ws)
  obtain v off w where x: "x = (v, off, w)" by (cases x)
  have f: "length v \<le> w" "off + w \<le> length buf" using Cons.prems(1) by (simp_all add: x fits_def)
  have "slice a n (put x buf) = slice a n buf"
    using Cons.prems(2) slice_before[OF f] slice_after[OF f] by (auto simp: x put_def apart_def)
  moreover have "length (put x buf) = length buf" using f by (simp add: x put_def length_writeString)
  ultimately show ?case using Cons by simp
qed simp

lemma puts_field:
  assumes "list_all (fits (length buf)) (ws @ (v, off, w) # us)" and "list_all (apart off w) (ws @ us)"
  shows "slice off w (fold put (ws @ (v, off, w) # us) buf) = v @ slice (off + length v) (w - length v) buf"
proof -
  have f: "length v \<le> w" "off + w \<le> length buf" using assms(1) by (simp_all add: fits_def)
  have l: "length (fold put ws buf) = length buf" using assms(1) by (simp add: puts_length)
  have lv: "length (writeString v off w (fold put ws buf)) = length buf" using f l by (simp add: length_writeString)
  have "slice off w (fold put us (writeString v off w (fold put ws buf))) = slice off w (writeString v off w (fold put ws buf))"
    using assms lv by (intro puts_apart) simp_all
  also have "\<dots> = v @ slice (off + length v) (w - length v) (fold put ws buf)" using f l by (simp add: slice_here)
  also have "slice (off + length v) (w - length v) (fold put ws buf) = slice (off + length v) (w - length v) buf"
  proof (rule puts_apart)
    have "apart (off + length v) (w - length v) x" if "apart off w x" for x using that f by (cases x) (auto simp: apart_def)
    then show "list_all (apart (off + length v) (w - length v)) ws" using assms(2) by (simp add: list_all_iff)
  qed (use assms(1) in simp)
  finally show ?thesis by (simp add: put_def)
qed

lemma fields_shape:
  assumes "length name \<le> 100" "length st = 12" "length mt = 12"
  shows "length (header_fields name st mt) = 512"
    and "slice 0 100 (header_fields name st mt) = name @ replicate (100 - length name) (CHR 0x00)"
    and "slice 124 12 (header_fields name st mt) = st"
    and "slice 148 8 (header_fields name st mt) = replicate 8 (CHR 0x20)"
    and "slice 156 1 (header_fields name st mt) = ''0''"
    and "slice 345 155 (header_fields name st mt) = replicate 155 (CHR 0x00)"
proof -
  let ?z = "replicate 512 (CHR 0x00)"
  let ?m = "[(pad_zero 7 ''644'' @ [CHR 0x00], 100, 8), (pad_zero 7 ''0'' @ [CHR 0x00], 108, 8), (pad_zero 7 ''0'' @ [CHR 0x00], 116, 8)] :: (string \<times> nat \<times> nat) list"
  let ?e = "[(''ustar'' @ [CHR 0x00], 257, 6), (''00'', 263, 2), (''analivo'', 265, 32), (''analivo'', 297, 32)] :: (string \<times> nat \<times> nat) list"
  let ?w = "(name, 0, 100) # ?m @ (st, 124, 12) # (mt, 136, 12) # (replicate 8 (CHR 0x20), 148, 8) # (''0'', 156, 1) # ?e"
  have h: "header_fields name st mt = fold put ?w ?z" by (simp add: header_fields_def put_def BLOCK_def)
  have f: "list_all (fits (length ?z)) ?w" using assms by (simp add: fits_def length_pad7)
  show "length (header_fields name st mt) = 512" unfolding h using puts_length[OF f] by simp
  have "slice 0 100 (fold put ([] @ (name, 0, 100) # tl ?w) ?z) = name @ slice (0 + length name) (100 - length name) ?z"
    using f by (intro puts_field) (simp_all add: apart_def)
  then show "slice 0 100 (header_fields name st mt) = name @ replicate (100 - length name) (CHR 0x00)"
    unfolding h using assms by (simp add: slice_zeros)
  have "slice 124 12 (fold put (((name, 0, 100) # ?m) @ (st, 124, 12) # (mt, 136, 12) # (replicate 8 (CHR 0x20), 148, 8) # (''0'', 156, 1) # ?e) ?z)
      = st @ slice (124 + length st) (12 - length st) ?z"
    using f by (intro puts_field) (simp_all add: apart_def)
  then show "slice 124 12 (header_fields name st mt) = st" unfolding h using assms by simp
  have "slice 148 8 (fold put (((name, 0, 100) # ?m @ [(st, 124, 12), (mt, 136, 12)]) @ (replicate 8 (CHR 0x20), 148, 8) # (''0'', 156, 1) # ?e) ?z)
      = replicate 8 (CHR 0x20) @ slice (148 + length (replicate 8 (CHR 0x20))) (8 - length (replicate 8 (CHR 0x20))) ?z"
    using f by (intro puts_field) (simp_all add: apart_def)
  then show "slice 148 8 (header_fields name st mt) = replicate 8 (CHR 0x20)" unfolding h by simp
  have "slice 156 1 (fold put (((name, 0, 100) # ?m @ [(st, 124, 12), (mt, 136, 12), (replicate 8 (CHR 0x20), 148, 8)]) @ (''0'', 156, 1) # ?e) ?z)
      = ''0'' @ slice (156 + length ''0'') (1 - length ''0'') ?z"
    using f by (intro puts_field) (simp_all add: apart_def)
  then show "slice 156 1 (header_fields name st mt) = ''0''" unfolding h by simp
  have "slice 345 155 (fold put ?w ?z) = slice 345 155 ?z" by (rule puts_apart[OF f]) (simp add: apart_def)
  then show "slice 345 155 (header_fields name st mt) = replicate 155 (CHR 0x00)" unfolding h by (simp add: slice_zeros)
qed

lemma pad_zero_length: "length s \<le> w \<Longrightarrow> length (pad_zero w s) = w"
  by (simp add: pad_zero_def)

lemma code_bound: "code c < 256"
  by (cases c) (simp add: code_def)

lemma byte_sum_bound: "byte_sum s \<le> 255 * length s"
proof (induction s)
  case (Cons c s)
  then show ?case using code_bound[of c] by (simp add: byte_sum_def)
qed (simp add: byte_sum_def)

lemma octal_digit: "d < 8 \<Longrightarrow> is_octal (digit_char d) \<and> digit_value (digit_char d) = d"
  by (simp add: code_digit_char is_octal_def digit_value_def)

lemma to_base8_digits: "list_all is_octal (to_base 8 n)"
proof (induction n rule: less_induct)
  case (less n)
  have "8 \<le> n \<Longrightarrow> list_all is_octal (to_base 8 (n div 8))" by (rule less) simp
  then show ?case
    using octal_digit[of n] octal_digit[of "n mod 8"] by (subst to_base.simps) auto
qed

lemma octal_value_snoc: "octal_value (s @ [c]) = 8 * octal_value s + digit_value c"
  by (simp add: octal_value_def)

lemma octal_value_to_base: "octal_value (to_base 8 n) = n"
proof (induction n rule: less_induct)
  case (less n)
  then show ?case
    using octal_digit[of n] octal_digit[of "n mod 8"]
    by (subst to_base.simps) (auto simp: octal_value_snoc octal_value_snoc[of "[]", simplified] octal_value_def[of "[]"])
qed

lemma octal_value_padded: "octal_value (replicate n (CHR ''0'') @ s) = octal_value s"
  by (induction n) (simp_all add: octal_value_def digit_value_def code_def)

lemma octal_no_nul: "is_octal c \<Longrightarrow> c \<noteq> CHR 0x00"
  by (auto simp: is_octal_def code_def)

lemma octal_not_space: "is_octal c \<Longrightarrow> \<not> is_space c"
  by (auto simp: is_octal_def is_space_def)

text \<open>Padded octal digits up to a NUL read back as the number, whatever follows.\<close>

lemma readOctal_field:
  assumes "slice off w buf = pad_zero k (to_base 8 n) @ CHR 0x00 # rest"
  shows "readOctal buf off w = Some n"
proof -
  let ?t = "pad_zero k (to_base 8 n)"
  have d: "list_all is_octal ?t"
    using to_base8_digits[of n] by (auto simp: pad_zero_def list_all_iff is_octal_def code_def)
  have "takeWhile (\<lambda>c. c \<noteq> CHR 0x00) (?t @ CHR 0x00 # rest) = ?t"
    using d octal_no_nul by (subst takeWhile_append2) (auto simp: list_all_iff)
  then have s: "readString buf off w = ?t" using assms by (simp add: readString_def slice_def)
  have "trim ?t = ?t" by (rule trim_no_space) (use d octal_not_space in \<open>auto simp: list_all_iff\<close>)
  then show ?thesis using d by (simp add: readOctal_def s pad_zero_def octal_value_padded octal_value_to_base)
qed

definition sum_from :: "nat \<Rightarrow> string \<Rightarrow> nat" where
  "sum_from i s = sum_list (map (\<lambda>(i, c). if 148 \<le> i \<and> i < 156 then 32 else code c) (zip [i..<i + length s] s))"

lemma sum_from_Nil [simp]: "sum_from i [] = 0"
  by (simp add: sum_from_def)

lemma sum_from_Cons [simp]: "sum_from i (c # s) = (if 148 \<le> i \<and> i < 156 then 32 else code c) + sum_from (Suc i) s"
  by (simp add: sum_from_def upt_conv_Cons del: upt_Suc)

lemma sum_from_append: "sum_from i (s @ u) = sum_from i s + sum_from (i + length s) u"
  by (induction s arbitrary: i) simp_all

lemma sum_from_outside: "i + length s \<le> 148 \<or> 156 \<le> i \<Longrightarrow> sum_from i s = byte_sum s"
  by (induction s arbitrary: i) (auto simp: byte_sum_def)

lemma sum_from_inside: "148 \<le> i \<Longrightarrow> i + length s \<le> 156 \<Longrightarrow> sum_from i s = 32 * length s"
  by (induction s arbitrary: i) auto

lemma checked_sum_parts: "length a = 148 \<Longrightarrow> length b = 8 \<Longrightarrow> checked_sum (a @ b @ c) = byte_sum a + 256 + byte_sum c"
proof -
  assume l: "length a = 148" "length b = 8"
  have "checked_sum (a @ b @ c) = sum_from 0 (a @ b @ c)" by (simp add: checked_sum_def sum_from_def)
  also have "\<dots> = sum_from 0 a + (sum_from 148 b + sum_from 156 c)" using l by (simp add: sum_from_append)
  also have "\<dots> = byte_sum a + 256 + byte_sum c" using l by (simp add: sum_from_outside sum_from_inside)
  finally show ?thesis .
qed

lemma byte_sum_parts: "byte_sum (a @ replicate 8 (CHR 0x20) @ c) = byte_sum a + 256 + byte_sum c"
  by (simp add: byte_sum_def sum_list_replicate code_def)

lemma slices_cover: "156 \<le> length buf \<Longrightarrow> buf = take 148 buf @ slice 148 8 buf @ drop 156 buf"
proof -
  have "buf = take 148 buf @ take 8 (drop 148 buf) @ drop 8 (drop 148 buf)" by (metis append_take_drop_id)
  moreover have "drop 8 (drop 148 buf) = drop 156 buf" by simp
  ultimately show ?thesis by (simp only: slice_def)
qed

lemma size_octal: "sz \<le> SIZE_MAX \<Longrightarrow> octal (int sz) 12 = Inr (pad_zero 11 (to_base 8 sz) @ [CHR 0x00])"
proof -
  assume "sz \<le> SIZE_MAX"
  then have "sz < 8 ^ 11" by (simp add: SIZE_MAX_def)
  then have "length (to_base 8 sz) \<le> 11" by (intro length_to_base) simp_all
  then show ?thesis by (simp add: octal_def octal_text_def)
qed

text \<open>A header as it is built: its length, its checksum, and the fields the extractor reads from it.\<close>

lemma header_shape:
  assumes h: "buildHeader name sz mtime = Inr h"
  shows "length h = 512" "verifyChecksum h" "readOctal h 124 12 = Some sz" "type_char h = CHR ''0''"
    and "readString h 345 155 = []" "slice 0 100 h = name @ replicate (100 - length name) (CHR 0x00)" "safe_name name" "sz \<le> SIZE_MAX"
proof -
  have ok: "safe_name name" "sz \<le> SIZE_MAX" using h by (auto simp: buildHeader_def split: if_splits)
  then show "safe_name name" "sz \<le> SIZE_MAX" by simp_all
  have nl: "length name \<le> 100" using ok(1) by (simp add: safe_name_def NAME_MAX_def)
  let ?st = "pad_zero 11 (to_base 8 sz) @ [CHR 0x00]"
  have so: "octal (int sz) 12 = Inr ?st" by (rule size_octal[OF ok(2)])
  obtain mt where mt: "octal mtime 12 = Inr mt" using h ok so by (cases "octal mtime 12") (simp_all add: buildHeader_def)
  define F where "F = header_fields name ?st mt"
  define ck where "ck = checksum_text (byte_sum F)"
  have hF: "h = writeString ck 148 8 F" using h ok so mt by (simp add: buildHeader_def Let_def F_def ck_def)
  note f = fields_shape[OF nl length_octal[OF so] length_octal[OF mt], folded F_def]
  have "byte_sum F < 8 ^ 6" using byte_sum_bound[of F] f(1) by simp
  then have "length (to_base 8 (byte_sum F)) \<le> 6" by (intro length_to_base) simp_all
  then have lck: "length ck = 8" by (simp add: ck_def checksum_text_def pad_zero_length)
  show len: "length h = 512" unfolding hF using f(1) lck by (simp add: length_writeString)
  have s148: "slice 148 8 h = ck" unfolding hF using f(1) lck by (subst slice_here) (simp_all add: slice_def)
  have parts: "h = take 148 F @ ck @ drop 156 F" unfolding hF using lck by (simp add: writeString_short)
  have "F = take 148 F @ replicate 8 (CHR 0x20) @ drop 156 F" using slices_cover[of F] f(1,4) by simp
  then have "byte_sum F = byte_sum (take 148 F) + 256 + byte_sum (drop 156 F)" by (metis byte_sum_parts)
  then have "checked_sum h = byte_sum F" using f(1) lck by (simp add: parts checked_sum_parts)
  moreover have "readOctal h 148 8 = Some (byte_sum F)"
    by (rule readOctal_field[where k = 6 and rest = "[CHR 0x20]"]) (simp add: s148 ck_def checksum_text_def)
  ultimately show "verifyChecksum h" by (simp add: verifyChecksum_def)
  have "slice 124 12 h = ?st" unfolding hF using f(1,3) lck by (simp add: slice_before)
  then show "readOctal h 124 12 = Some sz" by (intro readOctal_field[where k = 11 and rest = "[]"]) simp
  have "slice 156 1 h = ''0''" unfolding hF using f(1,5) lck by (simp add: slice_after)
  moreover have "drop 156 h = h ! 156 # drop 157 h" using len Cons_nth_drop_Suc[of 156 h] by simp
  ultimately have "h ! 156 = CHR ''0''" by (simp add: slice_def)
  then show "type_char h = CHR ''0''" by (simp add: type_char_def)
  have "slice 345 155 h = replicate 155 (CHR 0x00)" unfolding hF using f(1,6) lck by (simp add: slice_after)
  then show "readString h 345 155 = []" by (simp add: readString_def slice_def)
  show "slice 0 100 h = name @ replicate (100 - length name) (CHR 0x00)" unfolding hF using f(1,2) lck by (simp add: slice_before)
qed

section \<open>Where files go\<close>

definition segments :: "string \<Rightarrow> path" where
  "segments name = split_on (CHR ''/'') name"

lemma safe_segments: "safe_name name \<Longrightarrow> s \<in> set (segments name) \<Longrightarrow> s \<noteq> [] \<and> s \<noteq> ''.'' \<and> s \<noteq> ''..'' \<and> CHR ''/'' \<notin> set s"
  by (auto simp: safe_name_def SAFE_NAME_def segments_def list_all_iff list_ex_iff dest: split_on_no_sep)

lemma resolve_safe: "\<forall>s\<in>set ss. s \<noteq> [] \<and> s \<noteq> ''.'' \<and> s \<noteq> ''..'' \<Longrightarrow> foldl resolve_segment acc ss = acc @ ss"
  by (induction ss arbitrary: acc) (simp_all add: resolve_segment_def)

lemma safe_not_absolute: "safe_name name \<Longrightarrow> take 1 name \<noteq> ''/''"
proof
  assume s: "safe_name name" and a: "take 1 name = ''/''"
  then obtain r where "name = CHR ''/'' # r" by (cases name) auto
  then have "[] \<in> set (segments name)" by (simp add: segments_def)
  then show False using safe_segments[OF s] by blast
qed

lemma path_resolve_safe: "safe_name name \<Longrightarrow> path_resolve dest name = dest @ segments name"
  using safe_not_absolute[of name] safe_segments[of name] resolve_safe[of "segments name" dest]
  by (simp add: path_resolve_def segments_def)

lemma segments_not_Nil [simp]: "segments name \<noteq> []"
  by (simp add: segments_def)

lemma segments_inj: "segments a = segments b \<Longrightarrow> a = b"
  unfolding segments_def by (metis join_split_on)

lemma below_segments [simp]: "below dest (dest @ p) \<longleftrightarrow> p \<noteq> []"
  by (auto simp: below_def)

lemma below_iff: "below dest p \<longleftrightarrow> (\<exists>q. q \<noteq> [] \<and> p = dest @ q)"
  by (auto simp: below_def) (metis append_take_drop_id drop_eq_Nil linorder_not_less)

lemma paths_to_iff: "p \<in> set (paths_to q) \<longleftrightarrow> p \<noteq> [] \<and> (\<exists>r. q = p @ r)"
proof (induction q arbitrary: p)
  case (Cons s ss)
  then show ?case by (cases p) (auto simp: image_iff)
qed auto

text \<open>
  What extraction may change: the files and directories that were there stay, and everything new is below
  the destination under the segments of a safe name, or is a directory on the way to the destination.
\<close>

definition safe_path :: "path \<Rightarrow> path \<Rightarrow> bool" where
  "safe_path dest p \<longleftrightarrow> (\<exists>q. q \<noteq> [] \<and> p = dest @ q \<and> list_all (\<lambda>s. s \<noteq> [] \<and> s \<noteq> ''.'' \<and> s \<noteq> ''..'' \<and> CHR ''/'' \<notin> set s) q)"

definition stays_inside :: "path \<Rightarrow> fs \<Rightarrow> fs \<Rightarrow> bool" where
  "stays_inside dest d d' \<longleftrightarrow>
     (\<exists>new. fs_files d' = fs_files d @ new \<and> list_all (\<lambda>(p, c). \<not> is_file d p \<and> safe_path dest p) new)
     \<and> (\<exists>new. fs_dirs d' = fs_dirs d @ new \<and> list_all (\<lambda>p. safe_path dest p \<or> p \<in> set (paths_to dest)) new)"

lemma stays_refl: "stays_inside dest d d"
  by (simp add: stays_inside_def)

abbreviation new_file :: "path \<Rightarrow> fs \<Rightarrow> path \<times> string \<Rightarrow> bool" where
  "new_file dest d \<equiv> (\<lambda>(p, c). \<not> is_file d p \<and> safe_path dest p)"

abbreviation new_dir :: "path \<Rightarrow> path \<Rightarrow> bool" where
  "new_dir dest \<equiv> (\<lambda>p. safe_path dest p \<or> p \<in> set (paths_to dest))"

lemma stays_intro:
  "fs_files d' = fs_files d @ a \<Longrightarrow> list_all (new_file dest d) a \<Longrightarrow> fs_dirs d' = fs_dirs d @ b \<Longrightarrow> list_all (new_dir dest) b \<Longrightarrow> stays_inside dest d d'"
  by (simp add: stays_inside_def)

lemma stays_mkdir:
  assumes "stays_inside dest d d1" and "mkdir_p p d1 = Some d2" and "\<forall>q\<in>set (paths_to p). safe_path dest q \<or> q \<in> set (paths_to dest)"
  shows "stays_inside dest d d2"
proof -
  have d2: "d2 = d1\<lparr>fs_dirs := fs_dirs d1 @ filter (\<lambda>q. q \<notin> set (fs_dirs d1)) (paths_to p)\<rparr>"
    using assms(2) by (simp add: mkdir_p_def split: if_splits)
  obtain a b where n: "fs_files d1 = fs_files d @ a" "list_all (new_file dest d) a" "fs_dirs d1 = fs_dirs d @ b" "list_all (new_dir dest) b"
    using assms(1) unfolding stays_inside_def by blast
  show ?thesis
  proof (rule stays_intro[OF _ n(2)])
    show "fs_files d2 = fs_files d @ a" using n(1) by (simp add: d2)
    show "fs_dirs d2 = fs_dirs d @ (b @ filter (\<lambda>q. q \<notin> set (fs_dirs d1)) (paths_to p))" using n(3) by (simp add: d2)
    show "list_all (new_dir dest) (b @ filter (\<lambda>q. q \<notin> set (fs_dirs d1)) (paths_to p))" using n(4) assms(3) by (auto simp: list_all_iff)
  qed
qed

lemma stays_open:
  assumes "stays_inside dest d d1" and "open_wx p d1 = Some d2" and "safe_path dest p"
  shows "stays_inside dest d d2 \<and> \<not> is_file d p"
proof -
  have d2: "d2 = d1\<lparr>fs_files := fs_files d1 @ [(p, [])]\<rparr>" and nf: "\<not> is_file d1 p"
    using assms(2) by (simp_all add: open_wx_def split: if_splits)
  obtain a b where n: "fs_files d1 = fs_files d @ a" "list_all (new_file dest d) a" "fs_dirs d1 = fs_dirs d @ b" "list_all (new_dir dest) b"
    using assms(1) unfolding stays_inside_def by blast
  have old: "\<not> is_file d p" using nf n(1) by (auto simp: is_file_def)
  have "stays_inside dest d d2"
  proof (rule stays_intro[OF _ _ _ n(4)])
    show "fs_files d2 = fs_files d @ (a @ [(p, [])])" using n(1) by (simp add: d2)
    show "list_all (new_file dest d) (a @ [(p, [])])" using n(2) assms(3) old by simp
    show "fs_dirs d2 = fs_dirs d @ b" using n(3) by (simp add: d2)
  qed
  then show ?thesis using old by simp
qed

lemma stays_append:
  assumes "stays_inside dest d d1" and "\<not> is_file d p"
  shows "stays_inside dest d (append_file p s d1)"
proof -
  let ?g = "\<lambda>(q, c). if q = p then (q, c @ s) else (q, c)"
  obtain a b where n: "fs_files d1 = fs_files d @ a" "list_all (new_file dest d) a" "fs_dirs d1 = fs_dirs d @ b" "list_all (new_dir dest) b"
    using assms(1) unfolding stays_inside_def by blast
  have old: "map ?g (fs_files d) = fs_files d"
    using assms(2) by (intro map_idI) (auto simp: is_file_def image_iff)
  show ?thesis
  proof (rule stays_intro[OF _ _ _ n(4)])
    show "fs_files (append_file p s d1) = fs_files d @ map ?g a" using old by (simp add: append_file_def n(1))
    show "list_all (new_file dest d) (map ?g a)" using n(2) by (induction a) (auto split: if_splits)
    show "fs_dirs (append_file p s d1) = fs_dirs d @ b" using n(3) by (simp add: append_file_def)
  qed
qed

definition extract_inv :: "nat \<Rightarrow> path \<Rightarrow> fs \<Rightarrow> extractor \<Rightarrow> bool" where
  "extract_inv k dest d st \<longleftrightarrow> stays_inside dest d (ex_fs st) \<and> length (ex_names st) \<le> k \<and> list_all safe_name (ex_names st)
     \<and> (case ex_current st of None \<Rightarrow> True | Some m \<Rightarrow> (case mb_handle m of None \<Rightarrow> True | Some p \<Rightarrow> \<not> is_file d p))"

definition flow_state :: "flow \<Rightarrow> extractor" where
  "flow_state r = (case r of More st \<Rightarrow> st | Wait st \<Rightarrow> st | Stop e st \<Rightarrow> st)"

lemma safe_path_segments: "safe_name name \<Longrightarrow> safe_path dest (dest @ segments name)"
  using safe_segments[of name] unfolding safe_path_def list_all_iff by (intro exI[of _ "segments name"]) simp

lemma paths_to_safe:
  assumes "safe_name name" and "segments name = a @ b"
  shows "\<forall>q\<in>set (paths_to (dest @ a)). safe_path dest q \<or> q \<in> set (paths_to dest)"
proof
  fix q
  assume "q \<in> set (paths_to (dest @ a))"
  then obtain r where q: "q \<noteq> []" "dest @ a = q @ r" by (auto simp: paths_to_iff)
  then consider u where "dest = q @ u" | u where "q = dest @ u" "a = u @ r" "u \<noteq> []"
    by (metis append_eq_append_conv2 append_Nil2)
  then show "safe_path dest q \<or> q \<in> set (paths_to dest)"
  proof cases
    case 1
    then show ?thesis using q(1) by (auto simp: paths_to_iff)
  next
    case 2
    have "\<forall>s\<in>set u. s \<noteq> [] \<and> s \<noteq> ''.'' \<and> s \<noteq> ''..'' \<and> CHR ''/'' \<notin> set s"
      using safe_segments[OF assms(1)] assms(2) 2(2) by auto
    then show ?thesis using 2 unfolding safe_path_def list_all_iff by blast
  qed
qed

lemma inv_open_member:
  assumes "extract_inv k dest d st"
  shows "extract_inv k dest d (flow_state (open_member k dest name sz st))"
proof (cases "safe_name name \<and> \<not> k \<le> length (ex_names st)")
  case False
  then show ?thesis using assms by (auto simp: open_member_def flow_state_def)
next
  case ok: True
  let ?t = "dest @ segments name"
  have t: "path_resolve dest name = ?t" using ok path_resolve_safe by simp
  have st: "stays_inside dest d (ex_fs st)" using assms by (simp add: extract_inv_def)
  have bl: "butlast ?t = dest @ butlast (segments name)" by (simp add: butlast_append)
  have sp: "\<forall>q\<in>set (paths_to (butlast ?t)). safe_path dest q \<or> q \<in> set (paths_to dest)"
    unfolding bl using ok paths_to_safe[of name "butlast (segments name)" "[last (segments name)]"] by simp
  show ?thesis
  proof (cases "mkdir_p (butlast ?t) (ex_fs st)")
    case None
    then show ?thesis using ok t assms by (simp add: open_member_def flow_state_def)
  next
    case (Some d1)
    have s1: "stays_inside dest d d1" by (rule stays_mkdir[OF st Some sp])
    show ?thesis
    proof (cases "open_wx ?t d1")
      case None
      then show ?thesis using ok t assms s1 Some by (simp add: open_member_def flow_state_def extract_inv_def)
    next
      case o: (Some d2)
      have "stays_inside dest d d2 \<and> \<not> is_file d ?t" by (rule stays_open[OF s1 o safe_path_segments]) (use ok in simp)
      then show ?thesis using ok t assms Some o by (simp add: open_member_def flow_state_def extract_inv_def start_member_def)
    qed
  qed
qed

lemma inv_make_directory:
  assumes "extract_inv k dest d st"
  shows "extract_inv k dest d (flow_state (make_directory dest name st))"
proof (cases "safe_name name")
  case True
  have st: "stays_inside dest d (ex_fs st)" using assms by (simp add: extract_inv_def)
  have sp: "\<forall>q\<in>set (paths_to (dest @ split_on (CHR ''/'') name)). safe_path dest q \<or> q \<in> set (paths_to dest)"
    using paths_to_safe[OF True, of "segments name" "[]"] by (simp add: segments_def)
  show ?thesis
  proof (cases "mkdir_p (dest @ split_on (CHR ''/'') name) (ex_fs st)")
    case (Some d1)
    then show ?thesis using stays_mkdir[OF st Some sp] assms True by (simp add: make_directory_def flow_state_def extract_inv_def)
  qed (use assms True in \<open>simp add: make_directory_def flow_state_def\<close>)
qed (use assms in \<open>simp add: make_directory_def flow_state_def\<close>)

lemma inv_header_step:
  assumes i: "extract_inv k dest d st" and c: "ex_current st = None"
  shows "extract_inv k dest d (flow_state (header_step k dest st))"
proof (cases "length (ex_buffer st) < BLOCK")
  case False
  define s where "s = st\<lparr>ex_buffer := drop BLOCK (ex_buffer st)\<rparr>"
  have s: "extract_inv k dest d s" "extract_inv k dest d (s\<lparr>ex_finished := True\<rparr>)" "extract_inv k dest d (start_member None sz s)" for sz
    using i c by (simp_all add: extract_inv_def s_def start_member_def)
  have f: "flow_state (Wait x) = x" "flow_state (More x) = x" "flow_state (Stop e x) = x" for x e
    by (simp_all add: flow_state_def)
  show ?thesis
    unfolding header_step_def Let_def s_def[symmetric] using False s inv_open_member[OF s(1)] inv_make_directory[OF s(1)]
    by (simp add: f split: option.splits)
qed (use i in \<open>simp add: header_step_def flow_state_def\<close>)

lemma inv_pad_step: "extract_inv k dest d st \<Longrightarrow> ex_current st = Some m \<Longrightarrow> extract_inv k dest d (flow_state (pad_step m st))"
  by (auto simp: pad_step_def flow_state_def extract_inv_def)

lemma inv_data_step:
  assumes i: "extract_inv k dest d st" and c: "ex_current st = Some m"
  shows "extract_inv k dest d (flow_state (data_step m st))"
proof (cases "0 < mb_remaining m \<and> ex_buffer st \<noteq> []")
  case True
  define n where "n = min (mb_remaining m) (length (ex_buffer st))"
  define m' where "m' = m\<lparr>mb_remaining := mb_remaining m - n\<rparr>"
  define s' where "s' = st\<lparr>ex_buffer := drop n (ex_buffer st), ex_current := Some m', ex_fs := write_chunk m (take n (ex_buffer st)) (ex_fs st)\<rparr>"
  have e: "data_step m st = (if 0 < mb_remaining m' then Wait s' else pad_step m' s')"
    using True unfolding data_step_def Let_def n_def[symmetric] m'_def[symmetric] s'_def[symmetric] by simp
  have "stays_inside dest d (write_chunk m (take n (ex_buffer st)) (ex_fs st))"
    using i c by (auto simp: extract_inv_def write_chunk_def stays_append split: option.splits)
  then have "extract_inv k dest d s'" using i c by (simp add: extract_inv_def s'_def m'_def)
  moreover have "ex_current s' = Some m'" by (simp add: s'_def)
  ultimately show ?thesis using inv_pad_step unfolding e by (simp add: flow_state_def)
next
  case False
  then show ?thesis using i c inv_pad_step by (auto simp: data_step_def flow_state_def)
qed

lemma inv_tar_step: "extract_inv k dest d st \<Longrightarrow> extract_inv k dest d (flow_state (tar_step k dest st))"
  using inv_header_step inv_data_step by (cases "ex_current st") (simp_all add: tar_step_def)

lemma inv_run_loop: "extract_inv k dest d st \<Longrightarrow> extract_inv k dest d (flow_state (run_loop k dest st))"
proof (induction k dest st rule: run_loop.induct)
  case (1 k dest st)
  have s: "extract_inv k dest d (flow_state (tar_step k dest st))" by (rule inv_tar_step[OF "1.prems"])
  show ?case
    using "1.IH" s by (subst run_loop.simps) (auto simp: flow_state_def split: flow.splits)
qed

lemma inv_feed_all: "extract_inv k dest d st \<Longrightarrow> extract_inv k dest d (flow_state (feed_all k mx dest n st cs))"
proof (induction cs arbitrary: n st)
  case (Cons c cs)
  have "extract_inv k dest d (with_more st c)" using Cons.prems by (simp add: extract_inv_def)
  note r = inv_run_loop[OF this]
  show ?case
  proof (cases "mx < n + length c \<or> ex_finished st")
    case True
    then show ?thesis using Cons by (cases "mx < n + length c") (simp_all add: flow_state_def)
  next
    case False
    then show ?thesis using r Cons.IH by (cases "run_loop k dest (with_more st c)") (simp_all add: flow_state_def)
  qed
qed (simp add: flow_state_def)

text \<open>
  C16. Whatever bytes an archive has, extraction stays in its place. Every file that was there keeps its
  content; every new file and directory is below the destination, under segments that are neither empty
  nor dots nor hold a separator (or is a directory on the way to the destination); and a successful
  extraction lists at most \<open>maxEntries\<close> names, all of them safe.
\<close>

theorem tar_extraction_confined:
  "stays_inside dest d (snd (extractTarGz maxEntries maxTotalBytes dest d chunks))
   \<and> (case fst (extractTarGz maxEntries maxTotalBytes dest d chunks) of
        Inl e \<Rightarrow> True
      | Inr names \<Rightarrow> length names \<le> maxEntries \<and> list_all safe_name names)"
proof (cases "mkdir_p dest d")
  case None
  then show ?thesis by (simp add: extractTarGz_def stays_refl)
next
  case (Some d')
  have "stays_inside dest d d'" by (rule stays_mkdir[OF stays_refl Some]) simp
  then have "extract_inv maxEntries dest d (start_extractor d')" by (simp add: extract_inv_def start_extractor_def)
  from inv_feed_all[OF this, of maxTotalBytes 0 chunks] show ?thesis
    by (auto simp: extractTarGz_def Some tar_outcome_def extract_inv_def flow_state_def split: flow.splits)
qed

section \<open>What is written is read back\<close>

definition nested :: "string \<Rightarrow> string \<Rightarrow> bool" where
  "nested a b \<longleftrightarrow> (\<exists>q. q \<noteq> [] \<and> segments b = segments a @ q)"

definition tree_ok :: "path \<Rightarrow> string list \<Rightarrow> fs \<Rightarrow> bool" where
  "tree_ok dest names d \<longleftrightarrow>
     (\<forall>p. below dest p \<longrightarrow> is_file d p \<longrightarrow> (\<exists>n\<in>set names. p = dest @ segments n))
     \<and> (\<forall>p\<in>set (fs_dirs d). below dest p \<longrightarrow> (\<exists>n\<in>set names. \<exists>q. q \<noteq> [] \<and> dest @ segments n = p @ q))
     \<and> (\<forall>p\<in>set (paths_to dest). \<not> is_file d p)"

lemma tree_mkdir:
  assumes t: "tree_ok dest names d" and nn: "\<forall>n\<in>set names. \<not> nested n name"
  shows "\<exists>d1. mkdir_p (dest @ butlast (segments name)) d = Some d1 \<and> fs_files d1 = fs_files d
    \<and> set (fs_dirs d1) = set (fs_dirs d) \<union> set (paths_to (dest @ butlast (segments name)))"
proof -
  have "\<not> is_file d p" if p: "p \<in> set (paths_to (dest @ butlast (segments name)))" for p
  proof (cases "below dest p")
    case True
    obtain q where q: "p = dest @ q" "q \<noteq> []" using True by (auto simp: below_iff)
    obtain r where "dest @ butlast (segments name) = p @ r" using p by (auto simp: paths_to_iff)
    then have "butlast (segments name) = q @ r" using q(1) by simp
    then have s: "segments name = q @ (r @ [last (segments name)])" by (metis append_assoc append_butlast_last_id segments_not_Nil)
    have "q \<noteq> segments n" if n: "n \<in> set names" for n
    proof
      assume "q = segments n"
      then have "nested n name" using s unfolding nested_def by blast
      then show False using nn n by blast
    qed
    then show ?thesis using t True q(1) unfolding tree_ok_def by blast
  next
    case False
    obtain r where r: "dest @ butlast (segments name) = p @ r" "p \<noteq> []" using p by (auto simp: paths_to_iff)
    have "\<exists>u. dest = p @ u" using r False by (auto simp: append_eq_append_conv2 below_iff)
    then have "p \<in> set (paths_to dest)" using r(2) by (simp add: paths_to_iff)
    then show ?thesis using t unfolding tree_ok_def by blast
  qed
  then have "\<not> list_ex (is_file d) (paths_to (dest @ butlast (segments name)))" by (auto simp: list_ex_iff)
  then show ?thesis by (auto simp: mkdir_p_def)
qed

lemma tree_open:
  assumes t: "tree_ok dest names d" and d1: "fs_files d1 = fs_files d" "set (fs_dirs d1) = set (fs_dirs d) \<union> set (paths_to (dest @ butlast (segments name)))"
    and new: "name \<notin> set names" and nn: "\<forall>n\<in>set names. \<not> nested name n"
  shows "\<not> is_file d1 (dest @ segments name)" and "dest @ segments name \<notin> set (fs_dirs d1)"
proof -
  have b: "below dest (dest @ segments name)" by simp
  show "\<not> is_file d1 (dest @ segments name)"
  proof
    assume "is_file d1 (dest @ segments name)"
    then have "is_file d (dest @ segments name)" by (simp add: is_file_def d1(1))
    then obtain n where "n \<in> set names" "dest @ segments name = dest @ segments n" using t b unfolding tree_ok_def by blast
    then show False using new segments_inj by auto
  qed
  show "dest @ segments name \<notin> set (fs_dirs d1)"
  proof
    assume "dest @ segments name \<in> set (fs_dirs d1)"
    then consider "dest @ segments name \<in> set (fs_dirs d)" | "dest @ segments name \<in> set (paths_to (dest @ butlast (segments name)))"
      using d1(2) by blast
    then show False
    proof cases
      case 1
      then obtain n q where "n \<in> set names" "q \<noteq> []" "dest @ segments n = (dest @ segments name) @ q"
        using t b unfolding tree_ok_def by blast
      then show False using nn unfolding nested_def by auto
    next
      case 2
      then obtain r where "butlast (segments name) = segments name @ r" by (auto simp: paths_to_iff)
      then have "length (butlast (segments name)) = length (segments name) + length r" by (metis length_append)
      moreover have "0 < length (segments name)" by (metis length_greater_0_conv segments_not_Nil)
      ultimately show False unfolding length_butlast by linarith
    qed
  qed
qed

lemma tree_next:
  assumes t: "tree_ok dest names d" and d1: "fs_files d2 = fs_files d @ [(dest @ segments name, c)]"
    "set (fs_dirs d2) = set (fs_dirs d) \<union> set (paths_to (dest @ butlast (segments name)))"
  shows "tree_ok dest (name # names) d2"
  unfolding tree_ok_def
proof (intro conjI allI impI ballI)
  fix p
  assume "below dest p" "is_file d2 p"
  then have "is_file d p \<or> p = dest @ segments name" by (auto simp: is_file_def d1(1))
  then show "\<exists>n\<in>set (name # names). p = dest @ segments n" using t \<open>below dest p\<close> unfolding tree_ok_def by auto
next
  fix p
  assume "p \<in> set (fs_dirs d2)" "below dest p"
  then consider "p \<in> set (fs_dirs d)" | "p \<in> set (paths_to (dest @ butlast (segments name)))" using d1(2) by blast
  then show "\<exists>n\<in>set (name # names). \<exists>q. q \<noteq> [] \<and> dest @ segments n = p @ q"
  proof cases
    case 1
    then show ?thesis using t \<open>below dest p\<close> unfolding tree_ok_def by auto
  next
    case 2
    then obtain r where r: "dest @ butlast (segments name) = p @ r" by (auto simp: paths_to_iff)
    have "dest @ segments name = (dest @ butlast (segments name)) @ [last (segments name)]" by simp
    then have "dest @ segments name = p @ (r @ [last (segments name)])" unfolding r by simp
    then show ?thesis by (metis list.set_intros(1) snoc_eq_iff_butlast)
  qed
next
  fix p
  assume "p \<in> set (paths_to dest)"
  moreover have "p \<noteq> dest @ segments name" if "p \<in> set (paths_to dest)"
    using that by (auto simp: paths_to_iff)
  ultimately show "\<not> is_file d2 p" using t unfolding tree_ok_def by (auto simp: is_file_def d1(1))
qed

lemma safe_name_chars: "safe_name name \<Longrightarrow> c \<in> set name \<Longrightarrow> c \<noteq> CHR 0x00"
proof -
  assume s: "safe_name name" and c: "c \<in> set name"
  have k: "list_all tar_char p" if "p \<in> set (split_on (CHR ''/'') name)" for p
    using s that by (simp add: safe_name_def SAFE_NAME_def list_all_iff)
  have j: "set (join_with ''/'' ps) \<subseteq> insert (CHR ''/'') (\<Union> (set ` set ps))" for ps
    by (induction ps rule: induct_list012) auto
  have "set name \<subseteq> insert (CHR ''/'') (\<Union> (set ` set (split_on (CHR ''/'') name)))"
    using j[of "split_on (CHR ''/'') name"] by (simp add: join_split_on)
  then have "c = CHR ''/'' \<or> tar_char c" using c k by (fastforce simp: list_all_iff)
  then show ?thesis by (auto simp: tar_char_def is_alnum_def is_digit_def is_upper_def is_lower_def code_def)
qed

lemma split_on_snoc: "split_on c (s @ [c]) = split_on c s @ [[]]"
proof (induction s)
  case (Cons x xs)
  then show ?case by (cases "split_on c xs") auto
qed simp

lemma safe_no_slash: "safe_name name \<Longrightarrow> \<not> ends_with ''/'' name"
proof
  assume s: "safe_name name" and e: "ends_with ''/'' name"
  then obtain u where "name = u @ [CHR ''/'']" by (auto simp: ends_with_iff)
  then have "[] \<in> set (segments name)" by (simp add: segments_def split_on_snoc)
  then show False using safe_segments[OF s] by blast
qed

lemma clean_name_built:
  assumes h: "buildHeader name sz mtime = Inr h"
  shows "clean_name h = name"
proof -
  note s = header_shape[OF h]
  have "takeWhile (\<lambda>c. c \<noteq> CHR 0x00) (name @ replicate (100 - length name) (CHR 0x00)) = name"
    using safe_name_chars[OF s(7)] by (subst takeWhile_append2) (auto simp: takeWhile_eq_Nil_iff hd_replicate)
  then have "readString h 0 100 = name" using s(6) by (simp add: readString_def slice_def)
  then show ?thesis using s(5) safe_no_slash[OF s(7)] by (simp add: clean_name_def)
qed

lemma built_not_zero:
  assumes h: "buildHeader name sz mtime = Inr h"
  shows "\<not> list_all (\<lambda>c. c = CHR 0x00) h"
proof
  assume z: "list_all (\<lambda>c. c = CHR 0x00) h"
  note s = header_shape[OF h]
  obtain c u where n: "name = c # u" using s(7) by (cases name) (auto simp: safe_name_def)
  have "c \<in> set (slice 0 100 h)" using s(6) n by simp
  then have "c \<in> set h" unfolding slice_def by (metis in_set_takeD drop0)
  then show False using z safe_name_chars[OF s(7), of c] n by (simp add: list_all_iff)
qed

lemma padding_length: "length (padding sz) = pad_of sz"
proof (cases "sz mod BLOCK = 0")
  case False
  then have "BLOCK - sz mod BLOCK < BLOCK" by (simp add: BLOCK_def)
  then show ?thesis using False by (simp add: padding_def pad_of_def)
qed (simp add: padding_def pad_of_def)

lemma data_whole:
  assumes c: "ex_current st = Some m" and m: "m = \<lparr>mb_handle = Some p, mb_remaining = length content, mb_pad = length pad\<rparr>"
    and b: "ex_buffer st = content @ pad @ rest"
    and f: "fs_files (ex_fs st) = fs @ [(p, [])]" and nf: "p \<notin> fst ` set fs"
  shows "\<exists>d. data_step m st = More (st\<lparr>ex_buffer := rest, ex_current := None, ex_fs := d\<rparr>)
    \<and> fs_files d = fs @ [(p, content)] \<and> fs_dirs d = fs_dirs (ex_fs st)"
proof (cases "content = []")
  case True
  then show ?thesis using b f by (intro exI[of _ "ex_fs st"]) (simp add: m data_step_def pad_step_def)
next
  case False
  have "map (\<lambda>(q, c). if q = p then (q, c @ content) else (q, c)) fs = fs"
    using nf by (intro map_idI) (auto simp: image_iff)
  then have "fs_files (append_file p content (ex_fs st)) = fs @ [(p, content)]" by (simp add: append_file_def f)
  moreover have "fs_dirs (append_file p content (ex_fs st)) = fs_dirs (ex_fs st)" by (simp add: append_file_def)
  moreover have "data_step m st = More (st\<lparr>ex_buffer := rest, ex_current := None, ex_fs := append_file p content (ex_fs st)\<rparr>)"
    using False b by (simp add: m data_step_def pad_step_def Let_def write_chunk_def)
  ultimately show ?thesis by blast
qed

lemma run_loop_more: "tar_step k dest st = More st' \<Longrightarrow> run_loop k dest st = run_loop k dest st'"
  by (subst run_loop.simps) simp

lemma entry_read:
  assumes h: "buildHeader name (length content) mtime = Inr h"
    and st: "ex_current st = None" "ex_buffer st = h @ content @ padding (length content) @ rest" "length (ex_names st) < k"
    and t: "tree_ok dest names (ex_fs st)" and new: "name \<notin> set names" and nn: "\<forall>n\<in>set names. \<not> nested name n \<and> \<not> nested n name"
  shows "\<exists>d. run_loop k dest st = run_loop k dest (st\<lparr>ex_buffer := rest, ex_fs := d, ex_names := ex_names st @ [name]\<rparr>)
    \<and> fs_files d = fs_files (ex_fs st) @ [(dest @ segments name, content)] \<and> tree_ok dest (name # names) d"
proof -
  note s = header_shape[OF h]
  let ?t = "dest @ segments name"
  obtain d1 where d1: "mkdir_p (dest @ butlast (segments name)) (ex_fs st) = Some d1" "fs_files d1 = fs_files (ex_fs st)"
    "set (fs_dirs d1) = set (fs_dirs (ex_fs st)) \<union> set (paths_to (dest @ butlast (segments name)))"
    using tree_mkdir[OF t, of name] nn by blast
  note o = tree_open[OF t d1(2,3) new] 
  have nf: "\<not> is_file d1 ?t" "?t \<notin> set (fs_dirs d1)" using o nn by blast+
  define d2 where "d2 = d1\<lparr>fs_files := fs_files d1 @ [(?t, [])]\<rparr>"
  define s1 where "s1 = st\<lparr>ex_buffer := content @ padding (length content) @ rest\<rparr>"
  define m where "m = \<lparr>mb_handle = Some ?t, mb_remaining = length content, mb_pad = pad_of (length content)\<rparr>"
  define s2 where "s2 = s1\<lparr>ex_fs := d2, ex_names := ex_names st @ [name], ex_current := Some m\<rparr>"
  have bl: "butlast ?t = dest @ butlast (segments name)" by (simp add: butlast_append)
  have om: "open_member k dest name (length content) s1 = More s2"
    using s(7) st(3) nf d1(1)
    by (simp add: open_member_def path_resolve_safe bl open_wx_def start_member_def s1_def s2_def d2_def m_def Let_def)
  have tb: "take BLOCK (ex_buffer st) = h" "drop BLOCK (ex_buffer st) = content @ padding (length content) @ rest" "\<not> length (ex_buffer st) < BLOCK"
    using s(1) st(2) by (simp_all add: BLOCK_def)
  have "header_step k dest st = More s2"
    unfolding header_step_def tb Let_def s1_def[symmetric]
    using built_not_zero[OF h] s(2,3,4) clean_name_built[OF h] om tb(3) by simp
  then have "tar_step k dest st = More s2" using st(1) by (simp add: tar_step_def)
  then have r1: "run_loop k dest st = run_loop k dest s2" by (rule run_loop_more)
  obtain d where d: "data_step m s2 = More (s2\<lparr>ex_buffer := rest, ex_current := None, ex_fs := d\<rparr>)"
    "fs_files d = fs_files d1 @ [(?t, content)]" "fs_dirs d = fs_dirs (ex_fs s2)"
  proof -
    have "\<exists>d. data_step m s2 = More (s2\<lparr>ex_buffer := rest, ex_current := None, ex_fs := d\<rparr>)
        \<and> fs_files d = fs_files d1 @ [(?t, content)] \<and> fs_dirs d = fs_dirs (ex_fs s2)"
      by (rule data_whole[where pad = "padding (length content)" and p = ?t])
        (use nf in \<open>simp_all add: s2_def m_def padding_length s1_def d2_def is_file_def\<close>)
    then show ?thesis using that by blast
  qed
  have "tar_step k dest s2 = More (s2\<lparr>ex_buffer := rest, ex_current := None, ex_fs := d\<rparr>)" using d(1) by (simp add: tar_step_def s2_def)
  then have "run_loop k dest s2 = run_loop k dest (s2\<lparr>ex_buffer := rest, ex_current := None, ex_fs := d\<rparr>)" by (rule run_loop_more)
  moreover have "s2\<lparr>ex_buffer := rest, ex_current := None, ex_fs := d\<rparr> = st\<lparr>ex_buffer := rest, ex_fs := d, ex_names := ex_names st @ [name]\<rparr>"
    using st(1) by (simp add: s2_def s1_def)
  moreover have "tree_ok dest (name # names) d"
    using tree_next[OF t, of d name content] d(2,3) d1(2,3) by (simp add: s2_def d2_def)
  ultimately show ?thesis using r1 d(2) d1(2) by auto
qed

definition file_of :: "path \<Rightarrow> tar_entry \<Rightarrow> path \<times> string" where
  "file_of dest e = (dest @ segments (fst e), case snd e of Some s \<Rightarrow> concat (src_chunks s) | None \<Rightarrow> [])"

text \<open>No member is a directory on the way to another.\<close>

definition flat_names :: "string list \<Rightarrow> bool" where
  "flat_names names \<longleftrightarrow> (\<forall>a\<in>set names. \<forall>b\<in>set names. \<not> nested a b)"

lemma end_block: "ex_current st = None \<Longrightarrow> ex_buffer st = replicate (BLOCK * 2) (CHR 0x00)
   \<Longrightarrow> run_loop k dest st = Wait (st\<lparr>ex_buffer := replicate BLOCK (CHR 0x00), ex_finished := True\<rparr>)"
  by (subst run_loop.simps) (simp add: tar_step_def header_step_def Let_def BLOCK_def list_all_iff)

lemma blocks_read:
  "blocks es = Inr bytes \<Longrightarrow> ex_current st = None \<Longrightarrow> ex_buffer st = bytes \<Longrightarrow> length (ex_names st) + length es \<le> k
   \<Longrightarrow> tree_ok dest names (ex_fs st) \<Longrightarrow> distinct (names @ map fst es) \<Longrightarrow> flat_names (names @ map fst es)
   \<Longrightarrow> \<exists>d b. run_loop k dest st = Wait (st\<lparr>ex_buffer := b, ex_fs := d, ex_names := ex_names st @ map fst es, ex_finished := True\<rparr>)
         \<and> fs_files d = fs_files (ex_fs st) @ map (file_of dest) es"
proof (induction es arbitrary: bytes st names)
  case Nil
  then show ?case using end_block[of st k dest] by (intro exI[of _ "ex_fs st"] exI[of _ "replicate BLOCK (CHR 0x00)"]) simp
next
  case (Cons e es)
  obtain name src where e: "e = (name, src)" by (cases e)
  obtain s where s: "src = Some s" using Cons.prems(1) e by (cases src) auto
  obtain h where h: "buildHeader name (src_size s) (src_mtime s) = Inr h" using Cons.prems(1) by (cases "buildHeader name (src_size s) (src_mtime s)") (simp_all add: e s)
  have l: "length (concat (src_chunks s)) = src_size s" using Cons.prems(1) h by (simp add: e s split: if_splits)
  obtain rest where r: "blocks es = Inr rest" using Cons.prems(1) h l by (cases "blocks es") (simp_all add: e s)
  have b: "bytes = h @ concat (src_chunks s) @ padding (src_size s) @ rest" using Cons.prems(1) h l r by (simp add: e s)
  have nn: "name \<notin> set names" "\<forall>n\<in>set names. \<not> nested name n \<and> \<not> nested n name"
    using Cons.prems(6,7) by (auto simp: e flat_names_def)
  obtain d where d: "run_loop k dest st = run_loop k dest (st\<lparr>ex_buffer := rest, ex_fs := d, ex_names := ex_names st @ [name]\<rparr>)"
    "fs_files d = fs_files (ex_fs st) @ [(dest @ segments name, concat (src_chunks s))]" "tree_ok dest (name # names) d"
    using entry_read[of name "concat (src_chunks s)" "src_mtime s" h st rest k dest names] h l b nn Cons.prems(2,3,4,5) by auto
  define st' where "st' = st\<lparr>ex_buffer := rest, ex_fs := d, ex_names := ex_names st @ [name]\<rparr>"
  have "\<exists>d' b. run_loop k dest st' = Wait (st'\<lparr>ex_buffer := b, ex_fs := d', ex_names := ex_names st' @ map fst es, ex_finished := True\<rparr>)
         \<and> fs_files d' = fs_files (ex_fs st') @ map (file_of dest) es"
  proof (rule Cons.IH[OF r, of st' "name # names"])
    show "distinct ((name # names) @ map fst es)" using Cons.prems(6) e by auto
    show "flat_names ((name # names) @ map fst es)" using Cons.prems(7) e by (simp add: flat_names_def)
  qed (use Cons.prems d(3) e in \<open>simp_all add: st'_def\<close>)
  then obtain d' b where f: "run_loop k dest st' = Wait (st'\<lparr>ex_buffer := b, ex_fs := d', ex_names := ex_names st' @ map fst es, ex_finished := True\<rparr>)"
    "fs_files d' = fs_files (ex_fs st') @ map (file_of dest) es" by blast
  have "run_loop k dest st = Wait (st\<lparr>ex_buffer := b, ex_fs := d', ex_names := ex_names st @ map fst (e # es), ex_finished := True\<rparr>)"
    using d(1) f(1) by (simp add: st'_def e)
  moreover have "fs_files d' = fs_files (ex_fs st) @ map (file_of dest) (e # es)"
    using f(2) d(2) by (simp add: st'_def e s file_of_def)
  ultimately show ?case by blast
qed

lemma check_names_distinct: "check_names seen es = None \<Longrightarrow> distinct (map fst es) \<and> set seen \<inter> set (map fst es) = {}"
  by (induction seen es rule: check_names.induct) (auto split: if_splits)

text \<open>
  C17. What is written is read back. An archive that the writer produced from its sources, however it is
  cut into chunks, extracts into a destination that holds nothing yet to exactly those names in order,
  each file with the bytes of its source, and no other file, provided the limits allow it and no name is
  a directory on the way to another.
\<close>

theorem tar_roundtrip:
  assumes w: "writeTarGz es = Inr bytes" and c: "concat chunks = bytes" and lim: "length bytes \<le> maxTotalBytes" "length es \<le> maxEntries"
    and flat: "flat_names (map fst es)" and mk: "mkdir_p dest d = Some d0"
    and fresh: "list_all (\<lambda>p. \<not> below dest p) (map fst (fs_files d) @ fs_dirs d)"
  shows "fst (extractTarGz maxEntries maxTotalBytes dest d chunks) = Inr (map fst es)
    \<and> fs_files (snd (extractTarGz maxEntries maxTotalBytes dest d chunks)) = fs_files d @ map (file_of dest) es"
proof -
  have b: "blocks es = Inr bytes" and n: "check_names [] es = None"
    using w by (auto simp: writeTarGz_def split: if_splits option.splits)
  have d0: "d0 = d\<lparr>fs_dirs := fs_dirs d @ filter (\<lambda>q. q \<notin> set (fs_dirs d)) (paths_to dest)\<rparr>" and nf: "\<not> list_ex (is_file d) (paths_to dest)"
    using mk by (simp_all add: mkdir_p_def split: if_splits)
  have nb: "\<not> below dest p" if "p \<in> set (paths_to dest)" for p using that by (auto simp: paths_to_iff below_def)
  have t: "tree_ok dest [] d0"
    using fresh nf nb unfolding tree_ok_def by (auto simp: d0 is_file_def list_all_iff list_ex_iff)
  define st where "st = with_more (start_extractor d0) bytes"
  have "\<exists>d b. run_loop maxEntries dest st = Wait (st\<lparr>ex_buffer := b, ex_fs := d, ex_names := ex_names st @ map fst es, ex_finished := True\<rparr>)
         \<and> fs_files d = fs_files (ex_fs st) @ map (file_of dest) es"
    by (rule blocks_read[OF b, of st maxEntries dest "[]"])
      (use t lim flat check_names_distinct[OF n] in \<open>simp_all add: st_def start_extractor_def\<close>)
  then obtain d1 b1 where r: "run_loop maxEntries dest st = Wait (st\<lparr>ex_buffer := b1, ex_fs := d1, ex_names := ex_names st @ map fst es, ex_finished := True\<rparr>)"
    "fs_files d1 = fs_files (ex_fs st) @ map (file_of dest) es" by blast
  have e: "extractTarGz maxEntries maxTotalBytes dest d chunks = tar_outcome (run_loop maxEntries dest st)"
    using extract_concat[of chunks maxTotalBytes dest d d0 maxEntries] c lim mk by (simp add: st_def)
  show ?thesis unfolding e r(1) using r(2) by (simp add: tar_outcome_def st_def start_extractor_def d0)
qed

definition one_entry :: "tar_entry list" where
  "one_entry = [(''data/a.json'', Some \<lparr>src_size = 2, src_mtime = 0, src_chunks = [''[]'']\<rparr>)]"

lemma one_entry_written: "writeTarGz one_entry = Inr (projr (writeTarGz one_entry))"
proof -
  have "safe_name ''data/a.json''" "octal 2 12 = Inr (pad_zero 11 ''2'' @ [CHR 0x00])" "octal 0 12 = Inr (pad_zero 11 ''0'' @ [CHR 0x00])"
    by code_simp+
  then show ?thesis by (simp add: writeTarGz_def one_entry_def buildHeader_def SIZE_MAX_def Let_def)
qed

theorem tar_roundtrip_witness:
  "fst (extractTarGz 3 (length (projr (writeTarGz one_entry))) [''tmp''] \<lparr>fs_files = [], fs_dirs = []\<rparr> [projr (writeTarGz one_entry)])
     = Inr (map fst one_entry)
   \<and> fs_files (snd (extractTarGz 3 (length (projr (writeTarGz one_entry))) [''tmp''] \<lparr>fs_files = [], fs_dirs = []\<rparr> [projr (writeTarGz one_entry)]))
     = fs_files \<lparr>fs_files = [], fs_dirs = []\<rparr> @ map (file_of [''tmp'']) one_entry"
proof (rule tar_roundtrip[OF one_entry_written])
  show "mkdir_p [''tmp''] \<lparr>fs_files = [], fs_dirs = []\<rparr> = Some \<lparr>fs_files = [], fs_dirs = [[''tmp'']]\<rparr>"
    by (simp add: mkdir_p_def is_file_def)
  show "flat_names (map fst one_entry)" by (simp add: flat_names_def one_entry_def nested_def)
qed (simp_all add: one_entry_def)

end
