(* ===== verification/Rbac.thy ===== *)
theory Rbac
  imports Prelude "HOL-Library.List_Lexorder" "HOL-Library.Char_ord"
begin

text \<open>
  Dynamic roles and permissions: \<open>src/services/permission.service.js\<close>, \<open>src/services/role.service.js\<close> and
  their repositories. The state is the collections they use; a row is live while it is not soft-deleted.
  An operation gives an error, or its answer, the new state and the caches it invalidates. Security
  events, paginated lists and attribution columns are left out.
\<close>

section \<open>Collections\<close>

record module_row =
  mo_id :: nat
  mo_key :: string
  mo_name :: string
  mo_parent :: "string option"
  mo_live :: bool

record permission_row =
  pe_id :: nat
  pe_module_id :: nat
  pe_module :: string
  pe_action :: string
  pe_key :: string
  pe_system :: bool
  pe_live :: bool

record role_row =
  ro_id :: nat
  ro_tenant :: "string option"
  ro_name :: string
  ro_description :: string
  ro_system :: bool
  ro_live :: bool

text \<open>A grant of a role to an admin (\<open>AdminRole\<close>) or to a user of a tenant (\<open>UserRole\<close>).\<close>

record grant_row =
  gr_admin :: bool
  gr_actor :: string
  gr_tenant :: "string option"
  gr_role :: nat
  gr_resource :: "(string \<times> string) option"
  gr_expires :: "int option"
  gr_live :: bool

datatype admin_type = Super_type | Platform_type | Support_type | Auditor_type

datatype admin_status = Pending_admin | Active_admin | Suspended_admin | Locked_admin

record admin_row =
  ad_id :: string
  ad_email :: string
  ad_type :: admin_type
  ad_status :: admin_status
  ad_scope :: "string option"
  ad_password :: bool
  ad_name :: string

record rbac =
  db_modules :: "module_row list"
  db_permissions :: "permission_row list"
  db_roles :: "role_row list"
  db_joins :: "(nat \<times> nat) list"
  db_grants :: "grant_row list"
  db_admins :: "admin_row list"
  db_next :: nat

datatype rbac_error = Bad_request | Not_found | Conflict_error | Forbidden_error | Validation_error | Duplicate_key

datatype invalidation = All_scopes | Scope_of "string option"

type_synonym 'a reply = "(rbac_error, 'a \<times> rbac \<times> invalidation list) res"

definition CANONICAL_ACTIONS :: "string list" where
  "CANONICAL_ACTIONS = [''view'', ''create'', ''update'', ''delete'', ''export'', ''approve'', ''suspend'', ''restore'', ''assign'', ''configure'', ''evaluate'', ''override'', ''archive'']"

text \<open>\<open>String(x ?? '').trim()\<close>.\<close>

definition arg_text :: "string option \<Rightarrow> string" where
  "arg_text x = (case x of Some s \<Rightarrow> trim s | None \<Rightarrow> [])"

section \<open>Repositories\<close>

definition findModuleByKey :: "string \<Rightarrow> rbac \<Rightarrow> module_row option" where
  "findModuleByKey key db = List.find (\<lambda>m. mo_live m \<and> mo_key m = to_lower key) (db_modules db)"

definition findPermissionByKey :: "string \<Rightarrow> rbac \<Rightarrow> permission_row option" where
  "findPermissionByKey key db = List.find (\<lambda>p. pe_live p \<and> pe_key p = to_lower key) (db_permissions db)"

definition insert_module :: "module_row \<Rightarrow> rbac \<Rightarrow> (rbac_error, module_row \<times> rbac) res" where
  "insert_module m db =
     (if mo_name m = [] then Inl Validation_error
      else if list_ex (\<lambda>x. mo_live x \<and> mo_key x = mo_key m) (db_modules db) then Inl Duplicate_key
      else let m = m\<lparr>mo_id := db_next db\<rparr>
           in Inr (m, db\<lparr>db_modules := db_modules db @ [m], db_next := Suc (db_next db)\<rparr>))"

definition permission_clash :: "permission_row \<Rightarrow> permission_row \<Rightarrow> bool" where
  "permission_clash p q \<longleftrightarrow> pe_live q \<and> (pe_key q = pe_key p \<or> pe_module q = pe_module p \<and> pe_action q = pe_action p)"

definition insert_permission :: "permission_row \<Rightarrow> rbac \<Rightarrow> (rbac_error, permission_row \<times> rbac) res" where
  "insert_permission p db =
     (if list_ex (permission_clash p) (db_permissions db) then Inl Duplicate_key
      else let p = p\<lparr>pe_id := db_next db\<rparr>
           in Inr (p, db\<lparr>db_permissions := db_permissions db @ [p], db_next := Suc (db_next db)\<rparr>))"

text \<open>
  \<open>insertMany(\<dots>, { ordered: false })\<close> writes every row it can: a row that meets a duplicate key is left
  out, the others are stored, and the call raises the error in the end. The flag says whether it raises;
  the collections are those after the call in both cases. The look-up of the keys that exist reads the
  collections \<open>db0\<close>, the insert meets \<open>db\<close>: another request may have written in between.
\<close>

fun insert_permissions :: "permission_row list \<Rightarrow> rbac \<Rightarrow> bool \<times> rbac" where
  "insert_permissions [] db = (False, db)"
| "insert_permissions (p # ps) db =
     (case insert_permission p db of
        Inl e \<Rightarrow> (True, snd (insert_permissions ps db))
      | Inr (p', db') \<Rightarrow> insert_permissions ps db')"

definition repo_bulkCreate :: "permission_row list \<Rightarrow> rbac \<Rightarrow> rbac \<Rightarrow> (rbac_error, nat) res \<times> rbac" where
  "repo_bulkCreate items db0 db =
     (let fresh = filter (\<lambda>i. \<not> list_ex (\<lambda>p. pe_live p \<and> pe_key p = pe_key i) (db_permissions db0)) items in
      if fresh = [] then (Inr 0, db)
      else case insert_permissions fresh db of
        (raised, db') \<Rightarrow> (if raised then Inl Duplicate_key else Inr (length fresh), db'))"

definition repo_deletePermission :: "nat \<Rightarrow> rbac \<Rightarrow> rbac" where
  "repo_deletePermission i db = db\<lparr>db_permissions := map (\<lambda>p. if pe_id p = i \<and> pe_live p then p\<lparr>pe_live := False\<rparr> else p) (db_permissions db)\<rparr>"

definition listActions :: "string \<Rightarrow> rbac \<Rightarrow> string list" where
  "listActions key db = sort (remdups (map pe_action (filter (\<lambda>p. pe_live p \<and> pe_module p = to_lower key) (db_permissions db))))"

section \<open>Which grants count\<close>

text \<open>\<open>adminGrantTenantFilter\<close>: platform grants, and those of the scope of a confined admin.\<close>

definition adminGrantTenantFilter :: "string option \<Rightarrow> string option list" where
  "adminGrantTenantFilter scope = (case scope of Some s \<Rightarrow> if s \<noteq> [] then [None, Some s] else [None] | None \<Rightarrow> [None])"

definition grant_of :: "bool \<Rightarrow> string \<Rightarrow> string option \<Rightarrow> grant_row \<Rightarrow> bool" where
  "grant_of is_admin actorId tenantId g \<longleftrightarrow> gr_live g \<and> gr_admin g = is_admin \<and> gr_actor g = actorId
     \<and> (if is_admin then gr_tenant g \<in> set (adminGrantTenantFilter tenantId) else gr_tenant g = tenantId)"

definition unexpired :: "int \<Rightarrow> grant_row \<Rightarrow> bool" where
  "unexpired now g \<longleftrightarrow> (case gr_expires g of None \<Rightarrow> True | Some t \<Rightarrow> now < t)"

definition held_roles :: "int \<Rightarrow> bool \<Rightarrow> string \<Rightarrow> string option \<Rightarrow> rbac \<Rightarrow> nat list" where
  "held_roles now is_admin actorId tenantId db = map gr_role (filter (\<lambda>g. grant_of is_admin actorId tenantId g \<and> unexpired now g) (db_grants db))"

text \<open>A JavaScript \<open>Set\<close> of strings is the list of its elements in insertion order.\<close>

definition resolvePermissionsForActor :: "int \<Rightarrow> bool \<Rightarrow> string \<Rightarrow> string option \<Rightarrow> rbac \<Rightarrow> string list" where
  "resolvePermissionsForActor now is_admin actorId tenantId db =
     (let roleIds = held_roles now is_admin actorId tenantId db;
          permissionIds = map snd (filter (\<lambda>j. fst j \<in> set roleIds) (db_joins db))
      in remdups (map pe_key (filter (\<lambda>p. pe_live p \<and> pe_id p \<in> set permissionIds) (db_permissions db))))"

definition resolveRolesForActor :: "int \<Rightarrow> bool \<Rightarrow> string \<Rightarrow> string option \<Rightarrow> rbac \<Rightarrow> string list" where
  "resolveRolesForActor now is_admin actorId tenantId db =
     remdups (map ro_name (filter (\<lambda>r. ro_live r \<and> ro_id r \<in> set (held_roles now is_admin actorId tenantId db)) (db_roles db)))"

text \<open>The batch for the members view: the sorted role names of each user.\<close>

definition resolveRolesForUsers :: "string option \<Rightarrow> string list \<Rightarrow> rbac \<Rightarrow> string \<Rightarrow> string list" where
  "resolveRolesForUsers tenantId userIds db u =
     (if u \<in> set userIds then
        sort (remdups (concat (map (\<lambda>g. map ro_name (filter (\<lambda>r. ro_live r \<and> ro_id r = gr_role g) (db_roles db)))
          (filter (\<lambda>g. gr_live g \<and> \<not> gr_admin g \<and> gr_tenant g = tenantId \<and> gr_actor g = u) (db_grants db)))))
      else [])"

definition findEarliestGrantExpiry :: "int \<Rightarrow> bool \<Rightarrow> string \<Rightarrow> string option \<Rightarrow> rbac \<Rightarrow> int option" where
  "findEarliestGrantExpiry now is_admin actorId tenantId db =
     (let es = List.map_filter gr_expires (filter (\<lambda>g. grant_of is_admin actorId tenantId g) (db_grants db))
      in case sort (filter (\<lambda>t. now < t) es) of [] \<Rightarrow> None | t # _ \<Rightarrow> Some t)"

section \<open>Permission service\<close>

definition module_segment :: "string \<Rightarrow> bool" where
  "module_segment s \<longleftrightarrow> list_all (\<lambda>p. p \<noteq> [] \<and> list_all (\<lambda>c. is_digit c \<or> is_lower c) p) (split_on (CHR ''_'') s)"

definition module_key_ok :: "string \<Rightarrow> bool" where
  "module_key_ok s \<longleftrightarrow> list_all module_segment (split_on (CHR ''.'') s)"

definition createModule :: "string option \<Rightarrow> string option \<Rightarrow> rbac \<Rightarrow> module_row reply" where
  "createModule key name db =
     (let moduleKey = to_lower (arg_text key) in
      if \<not> module_key_ok moduleKey then Inl Bad_request
      else if findModuleByKey moduleKey db \<noteq> None then Inl Conflict_error
      else
        let parentKey = (if CHR ''.'' \<in> set moduleKey then Some (takeWhile (\<lambda>c. c \<noteq> CHR ''.'') moduleKey) else None) in
        if (case parentKey of Some k \<Rightarrow> findModuleByKey k db = None | None \<Rightarrow> False) then Inl Bad_request
        else case insert_module \<lparr>mo_id = 0, mo_key = moduleKey, mo_name = arg_text name, mo_parent = parentKey, mo_live = True\<rparr> db of
          Inl e \<Rightarrow> Inl e
        | Inr (m, db') \<Rightarrow> Inr (m, db', [All_scopes]))"

definition getModuleActions :: "string option \<Rightarrow> rbac \<Rightarrow> (rbac_error, string list) res" where
  "getModuleActions moduleKey db =
     (let key = to_lower (arg_text moduleKey) in if findModuleByKey key db = None then Inl Not_found else Inr (listActions key db))"

definition validateKey :: "string option \<Rightarrow> string option \<Rightarrow> (rbac_error, string \<times> string) res" where
  "validateKey m a =
     (let moduleKey = to_lower (arg_text m); actionKey = to_lower (arg_text a) in
      if moduleKey = [] \<or> actionKey = [] then Inl Bad_request
      else if actionKey \<notin> set CANONICAL_ACTIONS then Inl Bad_request
      else Inr (moduleKey, actionKey))"

definition composed_key :: "string \<Rightarrow> string \<Rightarrow> string" where
  "composed_key m a = m @ ''.'' @ a"

definition permission_for :: "nat \<Rightarrow> string \<Rightarrow> string \<Rightarrow> permission_row" where
  "permission_for mid m a =
     \<lparr>pe_id = 0, pe_module_id = mid, pe_module = m, pe_action = a, pe_key = composed_key m a, pe_system = False, pe_live = True\<rparr>"

definition createPermission :: "string option \<Rightarrow> string option \<Rightarrow> rbac \<Rightarrow> permission_row reply" where
  "createPermission m a db =
     (case validateKey m a of
        Inl e \<Rightarrow> Inl e
      | Inr (moduleKey, actionKey) \<Rightarrow>
          (case findModuleByKey moduleKey db of
             None \<Rightarrow> Inl Not_found
           | Some md \<Rightarrow>
               if findPermissionByKey (composed_key moduleKey actionKey) db \<noteq> None then Inl Conflict_error
               else case insert_permission (permission_for (mo_id md) moduleKey actionKey) db of
                 Inl e \<Rightarrow> Inl e
               | Inr (p, db') \<Rightarrow> Inr (p, db', [All_scopes])))"

fun bulk_rows :: "rbac \<Rightarrow> string list \<Rightarrow> (string option \<times> string option) list \<Rightarrow> (rbac_error, permission_row list) res" where
  "bulk_rows db seen [] = Inr []"
| "bulk_rows db seen ((m, a) # items) =
     (case validateKey m a of
        Inl e \<Rightarrow> Inl e
      | Inr (moduleKey, actionKey) \<Rightarrow>
          if composed_key moduleKey actionKey \<in> set seen then bulk_rows db seen items
          else (case findModuleByKey moduleKey db of
                  None \<Rightarrow> Inl Not_found
                | Some md \<Rightarrow>
                    (case bulk_rows db (composed_key moduleKey actionKey # seen) items of
                       Inl e \<Rightarrow> Inl e
                     | Inr rows \<Rightarrow> Inr (permission_for (mo_id md) moduleKey actionKey # rows))))"

text \<open>The batch gives its answer and, refused or not, the collections it leaves: \<open>db0\<close> are those it reads,
  \<open>db\<close> those its insert meets.\<close>

definition bulkCreatePermissions ::
    "(string option \<times> string option) list \<Rightarrow> rbac \<Rightarrow> rbac \<Rightarrow> (rbac_error, (nat \<times> nat) \<times> invalidation list) res \<times> rbac" where
  "bulkCreatePermissions items db0 db =
     (if items = [] then (Inl Bad_request, db)
      else case bulk_rows db0 [] items of
        Inl e \<Rightarrow> (Inl e, db)
      | Inr rows \<Rightarrow>
          (case repo_bulkCreate rows db0 db of
             (Inl e, db') \<Rightarrow> (Inl e, db')
           | (Inr created, db') \<Rightarrow> (Inr ((created, length rows - created), [All_scopes]), db')))"

definition deletePermission :: "string \<Rightarrow> rbac \<Rightarrow> unit reply" where
  "deletePermission key db =
     (case findPermissionByKey key db of
        None \<Rightarrow> Inl Not_found
      | Some p \<Rightarrow> if pe_system p then Inl Conflict_error else Inr ((), repo_deletePermission (pe_id p) db, [All_scopes]))"

text \<open>The guards of \<open>resolveActorPermissions\<close> and \<open>resolveActorRoles\<close>, before the cache is asked.\<close>

definition actor_ok :: "bool \<Rightarrow> string \<Rightarrow> string option \<Rightarrow> bool" where
  "actor_ok is_admin actorId tenantId \<longleftrightarrow> actorId \<noteq> [] \<and> (is_admin \<or> (case tenantId of Some t \<Rightarrow> t \<noteq> [] | None \<Rightarrow> False))"

section \<open>Role service\<close>

definition PLATFORM_ROLE_NAMES :: "string list" where
  "PLATFORM_ROLE_NAMES = [''super_admin'', ''platform_admin'', ''support_operator'', ''auditor'']"

definition LEGACY_PLATFORM_ROLE_NAMES :: "string list" where
  "LEGACY_PLATFORM_ROLE_NAMES = [''super'', ''platform'', ''support'']"

definition RESERVED_PLATFORM_ROLE_NAMES :: "string list" where
  "RESERVED_PLATFORM_ROLE_NAMES = PLATFORM_ROLE_NAMES @ LEGACY_PLATFORM_ROLE_NAMES"

definition isBuiltInPlatformRole :: "role_row \<Rightarrow> bool" where
  "isBuiltInPlatformRole r \<longleftrightarrow> ro_tenant r = None \<and> ro_system r \<and> ro_name r \<in> set PLATFORM_ROLE_NAMES"

definition findRole :: "nat \<Rightarrow> rbac \<Rightarrow> role_row option" where
  "findRole i db = List.find (\<lambda>r. ro_live r \<and> ro_id r = i) (db_roles db)"

definition findByName :: "string option \<Rightarrow> string \<Rightarrow> rbac \<Rightarrow> role_row option" where
  "findByName tenantId name db = List.find (\<lambda>r. ro_live r \<and> ro_tenant r = tenantId \<and> ro_name r = name) (db_roles db)"

definition role_name_taken :: "nat \<Rightarrow> string option \<Rightarrow> string \<Rightarrow> rbac \<Rightarrow> bool" where
  "role_name_taken i tenantId name db \<longleftrightarrow> list_ex (\<lambda>r. ro_live r \<and> ro_id r \<noteq> i \<and> ro_tenant r = tenantId \<and> ro_name r = name) (db_roles db)"

definition role_create :: "string option \<Rightarrow> string option \<Rightarrow> string \<Rightarrow> rbac \<Rightarrow> role_row reply" where
  "role_create name tenantId description db =
     (let normalized = arg_text name in
      if normalized = [] then Inl Bad_request
      else if tenantId = None \<and> normalized \<in> set RESERVED_PLATFORM_ROLE_NAMES then Inl Conflict_error
      else if findByName tenantId normalized db \<noteq> None then Inl Conflict_error
      else if tenantId = Some [] then Inl Validation_error
      else let r = \<lparr>ro_id = db_next db, ro_tenant = tenantId, ro_name = normalized, ro_description = description, ro_system = False, ro_live = True\<rparr>
           in Inr (r, db\<lparr>db_roles := db_roles db @ [r], db_next := Suc (db_next db)\<rparr>, [Scope_of tenantId]))"

definition role_update :: "nat \<Rightarrow> string option \<Rightarrow> string option \<Rightarrow> rbac \<Rightarrow> role_row reply" where
  "role_update i name description db =
     (case findRole i db of
        None \<Rightarrow> Inl Not_found
      | Some r \<Rightarrow>
          if ro_system r then Inl Conflict_error
          else if name = None \<and> description = None then Inl Bad_request
          else
            let r' = r\<lparr>ro_name := (case name of Some n \<Rightarrow> trim n | None \<Rightarrow> ro_name r),
                       ro_description := (case description of Some d \<Rightarrow> d | None \<Rightarrow> ro_description r)\<rparr>
            in if ro_name r' = [] then Inl Validation_error
               else if role_name_taken i (ro_tenant r) (ro_name r') db then Inl Duplicate_key
               else Inr (r', db\<lparr>db_roles := map (\<lambda>x. if ro_live x \<and> ro_id x = i then r' else x) (db_roles db)\<rparr>, [Scope_of (ro_tenant r)]))"

definition countAssignments :: "nat \<Rightarrow> rbac \<Rightarrow> nat" where
  "countAssignments i db = length (filter (\<lambda>g. gr_live g \<and> gr_role g = i) (db_grants db))"

definition clearPermissions :: "nat \<Rightarrow> rbac \<Rightarrow> rbac" where
  "clearPermissions i db = db\<lparr>db_joins := filter (\<lambda>j. fst j \<noteq> i) (db_joins db)\<rparr>"

definition soft_delete_role :: "nat \<Rightarrow> rbac \<Rightarrow> rbac" where
  "soft_delete_role i db = db\<lparr>db_roles := map (\<lambda>x. if ro_live x \<and> ro_id x = i then x\<lparr>ro_live := False\<rparr> else x) (db_roles db)\<rparr>"

definition role_remove :: "nat \<Rightarrow> rbac \<Rightarrow> unit reply" where
  "role_remove i db =
     (case findRole i db of
        None \<Rightarrow> Inl Not_found
      | Some r \<Rightarrow>
          if ro_system r then Inl Conflict_error
          else if 0 < countAssignments i db then Inl Conflict_error
          else Inr ((), clearPermissions i (soft_delete_role i db), [Scope_of (ro_tenant r)]))"

definition is_object_id :: "string \<Rightarrow> bool" where
  "is_object_id s \<longleftrightarrow> length s = 24 \<and> list_all (\<lambda>c. hex_digit c \<noteq> None) s"

definition may_edit_permissions :: "role_row \<Rightarrow> string option \<Rightarrow> rbac \<Rightarrow> bool" where
  "may_edit_permissions r by db \<longleftrightarrow>
     (case by of
        Some b \<Rightarrow> if ro_tenant r = None \<and> is_object_id b
                  then list_ex (\<lambda>a. ad_id a = to_lower b \<and> ad_status a = Active_admin \<and> ad_type a = Super_type) (db_admins db) else True
      | None \<Rightarrow> True)"

definition addPermission :: "nat \<Rightarrow> string \<Rightarrow> string option \<Rightarrow> rbac \<Rightarrow> bool reply" where
  "addPermission i key by db =
     (case findRole i db of
        None \<Rightarrow> Inl Not_found
      | Some r \<Rightarrow>
          (case findPermissionByKey key db of
             None \<Rightarrow> Inl Not_found
           | Some p \<Rightarrow>
               if isBuiltInPlatformRole r then Inl Conflict_error
               else if \<not> may_edit_permissions r by db then Inl Forbidden_error
               else if (i, pe_id p) \<in> set (db_joins db) then Inr (False, db, [Scope_of (ro_tenant r)])
               else Inr (True, db\<lparr>db_joins := db_joins db @ [(i, pe_id p)]\<rparr>, [Scope_of (ro_tenant r)])))"

definition removePermission :: "nat \<Rightarrow> string \<Rightarrow> string option \<Rightarrow> rbac \<Rightarrow> nat reply" where
  "removePermission i key by db =
     (case findRole i db of
        None \<Rightarrow> Inl Not_found
      | Some r \<Rightarrow>
          (case findPermissionByKey key db of
             None \<Rightarrow> Inl Not_found
           | Some p \<Rightarrow>
               if isBuiltInPlatformRole r then Inl Conflict_error
               else if ro_tenant r = None \<and> \<not> may_edit_permissions r by db then Inl Forbidden_error
               else Inr (if (i, pe_id p) \<in> set (db_joins db) then 1 else 0,
                         db\<lparr>db_joins := remove1 (i, pe_id p) (db_joins db)\<rparr>, [Scope_of (ro_tenant r)])))"

definition role_permissions :: "nat \<Rightarrow> rbac \<Rightarrow> (rbac_error, permission_row list) res" where
  "role_permissions i db =
     (if findRole i db = None then Inl Not_found
      else Inr (List.map_filter (\<lambda>j. List.find (\<lambda>p. pe_live p \<and> pe_id p = snd j) (db_permissions db))
                 (filter (\<lambda>j. fst j = i) (db_joins db))))"

section \<open>Requests\<close>

text \<open>The operations that change the collections, as one request type.\<close>

datatype rbac_request =
    Create_module "string option" "string option"
  | Create_permission "string option" "string option"
  | Bulk_create "(string option \<times> string option) list"
  | Delete_permission string
  | Create_role "string option" "string option" string
  | Update_role nat "string option" "string option"
  | Remove_role nat
  | Add_permission nat string "string option"
  | Remove_permission nat string "string option"

definition effect_of :: "'a reply \<Rightarrow> (rbac_error, rbac \<times> invalidation list) res" where
  "effect_of r = (case r of Inl e \<Rightarrow> Inl e | Inr (a, db, ivs) \<Rightarrow> Inr (db, ivs))"

text \<open>A batch with no other request between its reads and its insert; a refusal then leaves the
  collections as they are (\<open>bulk_create_exact\<close> below).\<close>

definition bulk_effect :: "(rbac_error, (nat \<times> nat) \<times> invalidation list) res \<times> rbac \<Rightarrow> (rbac_error, rbac \<times> invalidation list) res" where
  "bulk_effect r = (case r of (Inl e, db) \<Rightarrow> Inl e | (Inr (n, ivs), db) \<Rightarrow> Inr (db, ivs))"

fun handle_rbac :: "rbac_request \<Rightarrow> rbac \<Rightarrow> (rbac_error, rbac \<times> invalidation list) res" where
  "handle_rbac (Create_module k n) db = effect_of (createModule k n db)"
| "handle_rbac (Create_permission m a) db = effect_of (createPermission m a db)"
| "handle_rbac (Bulk_create items) db = bulk_effect (bulkCreatePermissions items db db)"
| "handle_rbac (Delete_permission k) db = effect_of (deletePermission k db)"
| "handle_rbac (Create_role n t d) db = effect_of (role_create n t d db)"
| "handle_rbac (Update_role i n d) db = effect_of (role_update i n d db)"
| "handle_rbac (Remove_role i) db = effect_of (role_remove i db)"
| "handle_rbac (Add_permission i k b) db = effect_of (addPermission i k b db)"
| "handle_rbac (Remove_permission i k b) db = effect_of (removePermission i k b db)"

lemma effect_of_Inr: "effect_of r = Inr (db, ivs) \<longleftrightarrow> (\<exists>a. r = Inr (a, db, ivs))"
  by (auto simp: effect_of_def split: sum.splits)

lemma bulk_effect_Inr: "bulk_effect r = Inr (db, ivs) \<longleftrightarrow> (\<exists>n. r = (Inr (n, ivs), db))"
  by (cases r) (auto simp: bulk_effect_def split: sum.splits)

section \<open>Well-formed collections\<close>

definition modules_wf :: "rbac \<Rightarrow> bool" where
  "modules_wf db \<longleftrightarrow> distinct (map mo_id (db_modules db)) \<and> distinct (map mo_key (filter mo_live (db_modules db)))
     \<and> (\<forall>m\<in>set (db_modules db). mo_id m < db_next db \<and> mo_name m \<noteq> [] \<and> module_key_ok (mo_key m) \<and> to_lower (mo_key m) = mo_key m)"

definition permission_ok :: "rbac \<Rightarrow> permission_row \<Rightarrow> bool" where
  "permission_ok db p \<longleftrightarrow> pe_id p < db_next db \<and> pe_key p = composed_key (pe_module p) (pe_action p) \<and> pe_action p \<in> set CANONICAL_ACTIONS
     \<and> (\<exists>m\<in>set (db_modules db). mo_id m = pe_module_id p \<and> mo_key m = pe_module p)"

definition permissions_wf :: "rbac \<Rightarrow> bool" where
  "permissions_wf db \<longleftrightarrow> distinct (map pe_id (db_permissions db)) \<and> distinct (map pe_key (filter pe_live (db_permissions db)))
     \<and> (\<forall>p\<in>set (db_permissions db). permission_ok db p)"

definition roles_wf :: "rbac \<Rightarrow> bool" where
  "roles_wf db \<longleftrightarrow> distinct (map ro_id (db_roles db)) \<and> distinct (map (\<lambda>r. (ro_tenant r, ro_name r)) (filter ro_live (db_roles db)))
     \<and> (\<forall>r\<in>set (db_roles db). ro_id r < db_next db \<and> ro_name r \<noteq> [] \<and> ro_tenant r \<noteq> Some [])"

definition joins_wf :: "rbac \<Rightarrow> bool" where
  "joins_wf db \<longleftrightarrow> distinct (db_joins db)
     \<and> (\<forall>(r, p)\<in>set (db_joins db). r \<in> ro_id ` set (db_roles db) \<and> p \<in> pe_id ` set (db_permissions db))"

text \<open>A live grant names a live role: of the tenant for a user, of the platform for an admin.\<close>

definition grant_ok :: "role_row list \<Rightarrow> grant_row \<Rightarrow> bool" where
  "grant_ok roles g \<longleftrightarrow> gr_live g \<longrightarrow> (\<exists>r\<in>set roles. ro_live r \<and> ro_id r = gr_role g
     \<and> (if gr_admin g then ro_tenant r = None else gr_tenant g \<noteq> None \<and> ro_tenant r = gr_tenant g))"

definition rbac_wf :: "rbac \<Rightarrow> bool" where
  "rbac_wf db \<longleftrightarrow> modules_wf db \<and> permissions_wf db \<and> roles_wf db \<and> joins_wf db \<and> (\<forall>g\<in>set (db_grants db). grant_ok (db_roles db) g)"

lemma wf_permission_insert:
  assumes w: "rbac_wf db" and i: "insert_permission (permission_for mid m a) db = Inr (p, db')" and a: "a \<in> set CANONICAL_ACTIONS"
    and md: "\<exists>x\<in>set (db_modules db). mo_id x = mid \<and> mo_key x = m"
  shows "rbac_wf db' \<and> db' = db\<lparr>db_permissions := db_permissions db @ [p], db_next := Suc (db_next db)\<rparr>
    \<and> p = (permission_for mid m a)\<lparr>pe_id := db_next db\<rparr>"
proof -
  have c: "\<not> list_ex (permission_clash (permission_for mid m a)) (db_permissions db)"
    and p: "p = (permission_for mid m a)\<lparr>pe_id := db_next db\<rparr>"
    and db': "db' = db\<lparr>db_permissions := db_permissions db @ [p], db_next := Suc (db_next db)\<rparr>"
    using i by (auto simp: insert_permission_def Let_def split: if_splits)
  have new: "pe_key p \<notin> pe_key ` set (filter pe_live (db_permissions db))"
    using c by (auto simp: list_ex_iff permission_clash_def p)
  have id: "pe_id p \<notin> pe_id ` set (db_permissions db)"
    using w by (auto simp: rbac_wf_def permissions_wf_def permission_ok_def p)
  have "modules_wf db'" using w by (auto simp: rbac_wf_def modules_wf_def db' less_SucI)
  moreover have "permissions_wf db'"
    using w new id a md by (auto simp: rbac_wf_def permissions_wf_def permission_ok_def db' p permission_for_def less_SucI)
  moreover have "roles_wf db'" using w by (auto simp: rbac_wf_def roles_wf_def db' less_SucI)
  moreover have "joins_wf db'" using w by (auto simp: rbac_wf_def joins_wf_def db')
  ultimately show ?thesis using w p db' by (simp add: rbac_wf_def)
qed

lemma findModule_Some: "findModuleByKey k db = Some m \<Longrightarrow> m \<in> set (db_modules db) \<and> mo_live m \<and> mo_key m = to_lower k"
  by (auto simp: findModuleByKey_def find_Some_iff)

lemma findPermission_Some: "findPermissionByKey k db = Some p \<Longrightarrow> p \<in> set (db_permissions db) \<and> pe_live p \<and> pe_key p = to_lower k"
  by (auto simp: findPermissionByKey_def find_Some_iff)

lemma findRole_Some: "findRole i db = Some r \<Longrightarrow> r \<in> set (db_roles db) \<and> ro_live r \<and> ro_id r = i"
  by (auto simp: findRole_def find_Some_iff)

lemma validateKey_Inr: "validateKey m a = Inr (k, b) \<Longrightarrow> k \<noteq> [] \<and> to_lower k = k \<and> b \<in> set CANONICAL_ACTIONS"
  by (auto simp: validateKey_def Let_def split: if_splits)

lemma wf_createModule:
  assumes w: "rbac_wf db" and c: "createModule k n db = Inr (m, db', ivs)"
  shows "rbac_wf db'"
proof -
  define mk where "mk = to_lower (arg_text k)"
  define par where "par = (if CHR ''.'' \<in> set mk then Some (takeWhile (\<lambda>c. c \<noteq> CHR ''.'') mk) else None)"
  have ok: "module_key_ok mk" and ins: "insert_module \<lparr>mo_id = 0, mo_key = mk, mo_name = arg_text n, mo_parent = par, mo_live = True\<rparr> db = Inr (m, db')"
    using c unfolding createModule_def Let_def mk_def[symmetric] par_def[symmetric] by (auto split: if_splits sum.splits)
  have m: "m = \<lparr>mo_id = db_next db, mo_key = mk, mo_name = arg_text n, mo_parent = par, mo_live = True\<rparr>"
    and db': "db' = db\<lparr>db_modules := db_modules db @ [m], db_next := Suc (db_next db)\<rparr>"
    and nn: "arg_text n \<noteq> []" and new: "\<not> list_ex (\<lambda>x. mo_live x \<and> mo_key x = mk) (db_modules db)"
    using ins by (auto simp: insert_module_def Let_def split: if_splits)
  have lower: "to_lower mk = mk" by (simp add: mk_def)
  have "modules_wf db'"
    using w ok nn new lower by (auto simp: rbac_wf_def modules_wf_def db' m list_ex_iff less_SucI)
  moreover have "permissions_wf db'"
    using w by (auto simp: rbac_wf_def permissions_wf_def permission_ok_def db' less_SucI)
  moreover have "roles_wf db'" using w by (auto simp: rbac_wf_def roles_wf_def db' less_SucI)
  moreover have "joins_wf db'" using w by (auto simp: rbac_wf_def joins_wf_def db')
  ultimately show ?thesis using w by (simp add: rbac_wf_def db')
qed

lemma wf_createPermission:
  assumes w: "rbac_wf db" and c: "createPermission m a db = Inr (p, db', ivs)"
  shows "rbac_wf db'"
proof -
  obtain k b where v: "validateKey m a = Inr (k, b)" using c by (cases "validateKey m a") (auto simp: createPermission_def)
  obtain md where f: "findModuleByKey k db = Some md" using c v by (cases "findModuleByKey k db") (auto simp: createPermission_def)
  have i: "insert_permission (permission_for (mo_id md) k b) db = Inr (p, db')"
    using c v f by (auto simp: createPermission_def split: if_splits sum.splits)
  show ?thesis using wf_permission_insert[OF w i] validateKey_Inr[OF v] findModule_Some[OF f] by auto
qed

text \<open>What a batch asks for: rows of canonical keys under live modules, each key once.\<close>

lemma bulk_rows_ok:
  "bulk_rows db seen items = Inr rows \<Longrightarrow>
     distinct (map pe_key rows) \<and> set seen \<inter> pe_key ` set rows = {}
     \<and> (\<forall>p\<in>set rows. \<exists>md. findModuleByKey (pe_module p) db = Some md \<and> mo_key md = pe_module p \<and> pe_action p \<in> set CANONICAL_ACTIONS
          \<and> p = permission_for (mo_id md) (pe_module p) (pe_action p))"
proof (induction db seen items arbitrary: rows rule: bulk_rows.induct)
  case (2 db seen m a items)
  obtain k b where v: "validateKey m a = Inr (k, b)" using "2.prems" by (cases "validateKey m a") auto
  show ?case
  proof (cases "composed_key k b \<in> set seen")
    case True
    then show ?thesis using "2.IH"(1)[OF v refl True] "2.prems" v by simp
  next
    case False
    obtain md where f: "findModuleByKey k db = Some md" using "2.prems" v False by (cases "findModuleByKey k db") auto
    obtain rest where r: "bulk_rows db (composed_key k b # seen) items = Inr rest" and rows: "rows = permission_for (mo_id md) k b # rest"
      using "2.prems" v False f by (auto split: sum.splits)
    have ih: "distinct (map pe_key rest) \<and> set (composed_key k b # seen) \<inter> pe_key ` set rest = {}
     \<and> (\<forall>p\<in>set rest. \<exists>md. findModuleByKey (pe_module p) db = Some md \<and> mo_key md = pe_module p \<and> pe_action p \<in> set CANONICAL_ACTIONS
          \<and> p = permission_for (mo_id md) (pe_module p) (pe_action p))"
      by (rule "2.IH"(2)[OF v refl False f r])
    have "mo_key md = k" using findModule_Some[OF f] validateKey_Inr[OF v] by simp
    then show ?thesis using ih False f validateKey_Inr[OF v] by (auto simp: rows permission_for_def)
  qed
qed simp

lemma wf_insert_permissions:
  "rbac_wf db \<Longrightarrow>
   \<forall>p\<in>set ps. pe_action p \<in> set CANONICAL_ACTIONS \<and> (\<exists>md\<in>set (db_modules db). mo_key md = pe_module p
     \<and> p = permission_for (mo_id md) (pe_module p) (pe_action p)) \<Longrightarrow> rbac_wf (snd (insert_permissions ps db))"
proof (induction ps db rule: insert_permissions.induct)
  case (2 p ps db)
  show ?case
  proof (cases "insert_permission p db")
    case (Inl e)
    then show ?thesis using "2.IH"(1)[OF Inl] "2.prems" by simp
  next
    case (Inr r)
    obtain p' db1 where i: "insert_permission p db = Inr (p', db1)" using Inr by (cases r) simp
    obtain md where md: "md \<in> set (db_modules db)" "mo_key md = pe_module p" "p = permission_for (mo_id md) (pe_module p) (pe_action p)"
      using "2.prems"(2) by auto
    have a: "pe_action p \<in> set CANONICAL_ACTIONS" using "2.prems"(2) by simp
    have i': "insert_permission (permission_for (mo_id md) (pe_module p) (pe_action p)) db = Inr (p', db1)" using i md(3) by simp
    have "\<exists>x\<in>set (db_modules db). mo_id x = mo_id md \<and> mo_key x = pe_module p" using md(1,2) by blast
    from wf_permission_insert[OF "2.prems"(1) i' a this] have w: "rbac_wf db1 \<and> db_modules db1 = db_modules db" by auto
    have "rbac_wf (snd (insert_permissions ps db1))"
      by (rule "2.IH"(2)[OF i refl]) (use w "2.prems"(2) in simp_all)
    then show ?thesis using i by simp
  qed
qed simp

lemma wf_bulkCreate:
  assumes w: "rbac_wf db" and c: "bulkCreatePermissions items db db = (Inr (n, ivs), db')"
  shows "rbac_wf db'"
proof -
  obtain rows where r: "bulk_rows db [] items = Inr rows" using c by (cases "bulk_rows db [] items") (auto simp: bulkCreatePermissions_def split: if_splits)
  have b: "db' = snd (repo_bulkCreate rows db db)" using c r by (auto simp: bulkCreatePermissions_def split: if_splits sum.splits prod.splits)
  define fresh where "fresh = filter (\<lambda>i. \<not> list_ex (\<lambda>p. pe_live p \<and> pe_key p = pe_key i) (db_permissions db)) rows"
  have ok: "\<forall>p\<in>set fresh. pe_action p \<in> set CANONICAL_ACTIONS \<and> (\<exists>md\<in>set (db_modules db). mo_key md = pe_module p
     \<and> p = permission_for (mo_id md) (pe_module p) (pe_action p))"
    using bulk_rows_ok[OF r] findModule_Some unfolding fresh_def by fastforce
  show ?thesis
    using wf_insert_permissions[OF w ok] w unfolding b repo_bulkCreate_def fresh_def[symmetric] Let_def
    by (simp add: case_prod_unfold)
qed

definition retire :: "nat \<Rightarrow> permission_row \<Rightarrow> permission_row" where
  "retire i q = (if pe_id q = i \<and> pe_live q then q\<lparr>pe_live := False\<rparr> else q)"

lemma retire_same [simp]: "pe_id (retire i q) = pe_id q" "pe_key (retire i q) = pe_key q" "pe_module (retire i q) = pe_module q"
  "pe_action (retire i q) = pe_action q" "pe_module_id (retire i q) = pe_module_id q" "pe_live (retire i q) \<longleftrightarrow> pe_live q \<and> pe_id q \<noteq> i"
  by (auto simp: retire_def)

lemma repo_delete_retire: "repo_deletePermission i db = db\<lparr>db_permissions := map (retire i) (db_permissions db)\<rparr>"
  by (simp add: repo_deletePermission_def retire_def[abs_def])

lemma retire_keys: "map pe_key (filter pe_live (map (retire i) qs)) = map pe_key (filter (\<lambda>q. pe_id q \<noteq> i) (filter pe_live qs))"
  by (induction qs) auto

lemma wf_deletePermission:
  assumes w: "rbac_wf db" and c: "deletePermission k db = Inr (u, db', ivs)"
  shows "rbac_wf db'"
proof -
  obtain p where "findPermissionByKey k db = Some p" using c by (cases "findPermissionByKey k db") (auto simp: deletePermission_def)
  then have db': "db' = db\<lparr>db_permissions := map (retire (pe_id p)) (db_permissions db)\<rparr>"
    using c by (simp add: deletePermission_def repo_delete_retire split: if_splits)
  have rows: "db_permissions db' = map (retire (pe_id p)) (db_permissions db)" by (simp add: db')
  have pw: "permissions_wf db" using w by (simp add: rbac_wf_def)
  have "permissions_wf db'"
    unfolding permissions_wf_def
  proof (intro conjI ballI)
    show "distinct (map pe_id (db_permissions db'))" using pw by (simp add: permissions_wf_def db' comp_def)
    show "distinct (map pe_key (filter pe_live (db_permissions db')))"
      unfolding rows retire_keys by (rule distinct_map_filter) (use pw in \<open>simp add: permissions_wf_def\<close>)
    fix q
    assume "q \<in> set (db_permissions db')"
    then obtain r where "r \<in> set (db_permissions db)" "q = retire (pe_id p) r" by (auto simp: db')
    then show "permission_ok db' q" using pw by (simp add: permissions_wf_def permission_ok_def db')
  qed
  moreover have "pe_id ` set (db_permissions db') = pe_id ` set (db_permissions db)" by (simp add: db' image_image)
  then have "joins_wf db'" using w by (simp add: rbac_wf_def joins_wf_def db')
  ultimately show ?thesis using w by (simp add: rbac_wf_def modules_wf_def roles_wf_def db')
qed

lemma wf_role_create:
  assumes w: "rbac_wf db" and c: "role_create n t d db = Inr (r, db', ivs)"
  shows "rbac_wf db'"
proof -
  have nm: "arg_text n \<noteq> []" "t \<noteq> Some []" "findByName t (arg_text n) db = None"
    and r: "r = \<lparr>ro_id = db_next db, ro_tenant = t, ro_name = arg_text n, ro_description = d, ro_system = False, ro_live = True\<rparr>"
    and db': "db' = db\<lparr>db_roles := db_roles db @ [r], db_next := Suc (db_next db)\<rparr>"
    using c by (auto simp: role_create_def Let_def split: if_splits)
  have new: "\<forall>x\<in>set (db_roles db). ro_live x \<longrightarrow> ro_tenant x = t \<longrightarrow> ro_name x \<noteq> arg_text n"
    using nm(3) by (auto simp: findByName_def find_None_iff)
  have "roles_wf db'" using w nm(1,2) new by (auto simp: rbac_wf_def roles_wf_def db' r less_SucI)
  moreover have "modules_wf db'" using w by (auto simp: rbac_wf_def modules_wf_def db' less_SucI)
  moreover have "permissions_wf db'" using w by (auto simp: rbac_wf_def permissions_wf_def permission_ok_def db' less_SucI)
  moreover have "joins_wf db'" using w by (auto simp: rbac_wf_def joins_wf_def db')
  moreover have "\<forall>g\<in>set (db_grants db'). grant_ok (db_roles db') g"
    using w by (fastforce simp: rbac_wf_def grant_ok_def db')
  ultimately show ?thesis by (simp add: rbac_wf_def)
qed

text \<open>Replacing one row by another of a fresh key keeps the keys apart.\<close>

lemma distinct_map_replace:
  assumes "distinct (map k xs)" "distinct (map idf xs)" "\<forall>y\<in>set xs. idf y \<noteq> i \<longrightarrow> k y \<noteq> k x'"
  shows "distinct (map (\<lambda>y. k (if idf y = i then x' else y)) xs)"
proof -
  have "inj_on (\<lambda>y. k (if idf y = i then x' else y)) (set xs)"
  proof (rule inj_onI)
    fix x y
    assume xy: "x \<in> set xs" "y \<in> set xs" "k (if idf x = i then x' else x) = k (if idf y = i then x' else y)"
    have ij: "inj_on k (set xs)" "inj_on idf (set xs)" using assms(1,2) by (simp_all add: distinct_map)
    consider "idf x = i" "idf y = i" | "idf x = i" "idf y \<noteq> i" | "idf x \<noteq> i" "idf y = i" | "idf x \<noteq> i" "idf y \<noteq> i" by blast
    then show "x = y"
    proof cases
      case 1
      then show ?thesis using inj_onD[OF ij(2) _ xy(1,2)] by simp
    next
      case 2
      then have "k y = k x'" using xy(3) by simp
      then show ?thesis using assms(3) 2(2) xy(2) by blast
    next
      case 3
      then have "k x = k x'" using xy(3) by simp
      then show ?thesis using assms(3) 3(1) xy(1) by blast
    next
      case 4
      then have "k x = k y" using xy(3) by simp
      then show ?thesis using inj_onD[OF ij(1) _ xy(1,2)] by blast
    qed
  qed
  then show ?thesis using assms(1) by (simp add: distinct_map)
qed

abbreviation role_label :: "role_row \<Rightarrow> string option \<times> string" where
  "role_label r \<equiv> (ro_tenant r, ro_name r)"

definition put_role :: "role_row \<Rightarrow> role_row list \<Rightarrow> role_row list" where
  "put_role r' rs = map (\<lambda>x. if ro_id x = ro_id r' then r' else x) rs"

lemma put_role_ids [simp]: "map ro_id (put_role r' rs) = map ro_id rs"
  by (auto simp: put_role_def)

text \<open>Renaming a live role in place: the labels stay apart and every live grant still finds its role.\<close>

lemma put_role_wf:
  assumes ids: "distinct (map ro_id rs)" and labels: "distinct (map role_label (filter ro_live rs))"
    and r: "r \<in> set rs" "ro_live r" and r': "ro_id r' = ro_id r" "ro_tenant r' = ro_tenant r" "ro_live r'"
    and fresh: "\<forall>x\<in>set rs. ro_live x \<longrightarrow> ro_id x \<noteq> ro_id r \<longrightarrow> role_label x \<noteq> role_label r'"
  shows "distinct (map role_label (filter ro_live (put_role r' rs)))"
    and "grant_ok rs g \<Longrightarrow> grant_ok (put_role r' rs) g"
proof -
  have one: "x = r" if "x \<in> set rs" "ro_id x = ro_id r" for x
    using inj_onD[of ro_id "set rs" x r] ids that r(1) by (simp add: distinct_map)
  have live: "ro_live (if ro_id x = ro_id r' then r' else x) = ro_live x" if "x \<in> set rs" for x
    using one[OF that] r(2) r' by auto
  have "filter ro_live (put_role r' rs) = map (\<lambda>x. if ro_id x = ro_id r' then r' else x) (filter ro_live rs)"
  proof -
    have "filter (\<lambda>x. ro_live (if ro_id x = ro_id r' then r' else x)) rs = filter ro_live rs"
      by (rule filter_cong[OF refl]) (rule live)
    then show ?thesis unfolding put_role_def filter_map comp_def by (rule arg_cong)
  qed
  moreover have "distinct (map (\<lambda>x. role_label (if ro_id x = ro_id r' then r' else x)) (filter ro_live rs))"
  proof (rule distinct_map_replace[OF labels])
    show "distinct (map ro_id (filter ro_live rs))" by (rule distinct_map_filter[OF ids])
    show "\<forall>y\<in>set (filter ro_live rs). ro_id y \<noteq> ro_id r' \<longrightarrow> role_label y \<noteq> role_label r'" using fresh r'(1) by simp
  qed
  ultimately show "distinct (map role_label (filter ro_live (put_role r' rs)))" by (simp add: comp_def)
  assume g: "grant_ok rs g"
  show "grant_ok (put_role r' rs) g"
    unfolding grant_ok_def
  proof
    assume "gr_live g"
    then obtain x where x: "x \<in> set rs" "ro_live x \<and> ro_id x = gr_role g
        \<and> (if gr_admin g then ro_tenant x = None else gr_tenant g \<noteq> None \<and> ro_tenant x = gr_tenant g)"
      using g unfolding grant_ok_def by blast
    let ?y = "if ro_id x = ro_id r' then r' else x"
    have "?y \<in> set (put_role r' rs)" using x(1) unfolding put_role_def by (simp del: if_split)
    moreover have "ro_live ?y \<and> ro_id ?y = gr_role g
        \<and> (if gr_admin g then ro_tenant ?y = None else gr_tenant g \<noteq> None \<and> ro_tenant ?y = gr_tenant g)"
      using one[OF x(1)] x(2) r' by auto
    ultimately show "\<exists>r\<in>set (put_role r' rs). ro_live r \<and> ro_id r = gr_role g
        \<and> (if gr_admin g then ro_tenant r = None else gr_tenant g \<noteq> None \<and> ro_tenant r = gr_tenant g)" by blast
  qed
qed

lemma put_role_live:
  assumes "distinct (map ro_id rs)" "r \<in> set rs" "ro_live r" "ro_id r' = ro_id r"
  shows "map (\<lambda>x. if ro_live x \<and> ro_id x = ro_id r then r' else x) rs = put_role r' rs"
  unfolding put_role_def
proof (rule map_cong[OF refl])
  fix x
  assume x: "x \<in> set rs"
  have "x = r" if "ro_id x = ro_id r" using inj_onD[of ro_id "set rs" x r] assms(1,2) x that by (simp add: distinct_map)
  then show "(if ro_live x \<and> ro_id x = ro_id r then r' else x) = (if ro_id x = ro_id r' then r' else x)"
    using assms(3,4) by auto
qed

lemma wf_role_update:
  assumes w: "rbac_wf db" and c: "role_update i n d db = Inr (r, db', ivs)"
  shows "rbac_wf db'"
proof -
  obtain r0 where f: "findRole i db = Some r0" using c by (cases "findRole i db") (auto simp: role_update_def)
  define r' where "r' = r0\<lparr>ro_name := (case n of Some n \<Rightarrow> trim n | None \<Rightarrow> ro_name r0), ro_description := (case d of Some d \<Rightarrow> d | None \<Rightarrow> ro_description r0)\<rparr>"
  have e: "role_update i n d db = (if ro_system r0 then Inl Conflict_error else if n = None \<and> d = None then Inl Bad_request
      else if ro_name r' = [] then Inl Validation_error
      else if role_name_taken i (ro_tenant r0) (ro_name r') db then Inl Duplicate_key
      else Inr (r', db\<lparr>db_roles := map (\<lambda>x. if ro_live x \<and> ro_id x = i then r' else x) (db_roles db)\<rparr>, [Scope_of (ro_tenant r0)]))"
    by (simp only: role_update_def f option.case Let_def r'_def)
  have nm: "ro_name r' \<noteq> []" "\<not> role_name_taken i (ro_tenant r0) (ro_name r') db"
    and db0: "db' = db\<lparr>db_roles := map (\<lambda>x. if ro_live x \<and> ro_id x = i then r' else x) (db_roles db)\<rparr>"
    using c unfolding e by (auto split: if_splits)
  have r0: "r0 \<in> set (db_roles db)" "ro_live r0" "ro_id r0 = i" using findRole_Some[OF f] by simp_all
  have r': "ro_id r' = ro_id r0" "ro_tenant r' = ro_tenant r0" "ro_live r'" using r0(2) by (simp_all add: r'_def)
  have rw: "roles_wf db" using w by (simp add: rbac_wf_def)
  then have ids: "distinct (map ro_id (db_roles db))" and labels: "distinct (map role_label (filter ro_live (db_roles db)))"
    by (simp_all add: roles_wf_def)
  have db': "db' = db\<lparr>db_roles := put_role r' (db_roles db)\<rparr>"
    using put_role_live[OF ids r0(1,2) r'(1)] by (simp only: db0 r0(3))
  have fresh: "\<forall>x\<in>set (db_roles db). ro_live x \<longrightarrow> ro_id x \<noteq> ro_id r0 \<longrightarrow> role_label x \<noteq> role_label r'"
    using nm(2) r0(3) r'(2) by (auto simp: role_name_taken_def list_ex_iff)
  note pw = put_role_wf[OF ids labels r0(1,2) r' fresh]
  have "\<forall>x\<in>set (put_role r' (db_roles db)). ro_id x < db_next db \<and> ro_name x \<noteq> [] \<and> ro_tenant x \<noteq> Some []"
    using rw r0(1) r' nm(1) by (auto simp: put_role_def roles_wf_def)
  then have "roles_wf db'" using pw(1) ids by (simp add: roles_wf_def db')
  moreover have "ro_id ` set (put_role r' (db_roles db)) = ro_id ` set (db_roles db)"
    by (metis list.set_map put_role_ids)
  then have "joins_wf db'" using w by (simp add: rbac_wf_def joins_wf_def db')
  ultimately show ?thesis
    using w pw(2) by (simp add: rbac_wf_def modules_wf_def permissions_wf_def permission_ok_def db')
qed

lemma wf_role_remove:
  assumes w: "rbac_wf db" and c: "role_remove i db = Inr (u, db', ivs)"
  shows "rbac_wf db'"
proof -
  obtain r0 where f: "findRole i db = Some r0" using c by (cases "findRole i db") (auto simp: role_remove_def)
  have free: "countAssignments i db = 0" and db': "db' = clearPermissions i (soft_delete_role i db)"
    using c f by (auto simp: role_remove_def split: if_splits)
  let ?g = "\<lambda>x. if ro_live x \<and> ro_id x = i then x\<lparr>ro_live := False\<rparr> else x"
  have roles: "db_roles db' = map ?g (db_roles db)" by (simp add: db' clearPermissions_def soft_delete_role_def)
  have same: "ro_id (?g x) = ro_id x" "role_label (?g x) = role_label x" "ro_live (?g x) \<longleftrightarrow> ro_live x \<and> ro_id x \<noteq> i" for x
    by auto
  have mids: "map ro_id (db_roles db') = map ro_id (db_roles db)" unfolding roles by simp
  have labels: "map role_label (filter ro_live (map ?g rs)) = map role_label (filter (\<lambda>x. ro_id x \<noteq> i) (filter ro_live rs))" for rs
    by (induction rs) auto
  have rw: "roles_wf db" using w by (simp add: rbac_wf_def)
  have "roles_wf db'"
    unfolding roles_wf_def
  proof (intro conjI)
    show "distinct (map ro_id (db_roles db'))" using rw unfolding mids by (simp add: roles_wf_def)
    show "distinct (map role_label (filter ro_live (db_roles db')))"
      unfolding roles labels by (rule distinct_map_filter) (use rw in \<open>simp add: roles_wf_def\<close>)
    show "\<forall>r\<in>set (db_roles db'). ro_id r < db_next db' \<and> ro_name r \<noteq> [] \<and> ro_tenant r \<noteq> Some []"
      using rw by (auto simp: roles_wf_def db' clearPermissions_def soft_delete_role_def)
  qed
  moreover have "ro_id ` set (db_roles db') = ro_id ` set (db_roles db)" using mids by (metis list.set_map)
  then have "joins_wf db'" using w by (auto simp: rbac_wf_def joins_wf_def db' clearPermissions_def soft_delete_role_def)
  moreover have "grant_ok (db_roles db') g" if g: "g \<in> set (db_grants db)" for g
    unfolding grant_ok_def
  proof
    assume l: "gr_live g"
    have ok: "grant_ok (db_roles db) g" using w g by (simp add: rbac_wf_def)
    then obtain x where x: "x \<in> set (db_roles db)" "ro_live x \<and> ro_id x = gr_role g
        \<and> (if gr_admin g then ro_tenant x = None else gr_tenant g \<noteq> None \<and> ro_tenant x = gr_tenant g)"
      using l unfolding grant_ok_def by blast
    have "gr_role g \<noteq> i" using free g l by (auto simp: countAssignments_def filter_empty_conv)
    then have "?g x = x" using x(2) by simp
    then have "x \<in> set (db_roles db')" using x(1) unfolding roles by force
    then show "\<exists>r\<in>set (db_roles db'). ro_live r \<and> ro_id r = gr_role g
        \<and> (if gr_admin g then ro_tenant r = None else gr_tenant g \<noteq> None \<and> ro_tenant r = gr_tenant g)" using x(2) by blast
  qed
  ultimately show ?thesis
    using w by (simp add: rbac_wf_def modules_wf_def permissions_wf_def permission_ok_def db' clearPermissions_def soft_delete_role_def)
qed

lemma wf_addPermission:
  assumes w: "rbac_wf db" and c: "addPermission i k b db = Inr (u, db', ivs)"
  shows "rbac_wf db'"
proof -
  obtain r where f: "findRole i db = Some r" using c by (cases "findRole i db") (auto simp: addPermission_def)
  obtain p where g: "findPermissionByKey k db = Some p" using c f by (cases "findPermissionByKey k db") (auto simp: addPermission_def)
  have "db' = db \<or> (i, pe_id p) \<notin> set (db_joins db) \<and> db' = db\<lparr>db_joins := db_joins db @ [(i, pe_id p)]\<rparr>"
    using c f g by (auto simp: addPermission_def split: if_splits)
  then show ?thesis
  proof
    assume "db' = db"
    then show ?thesis using w by simp
  next
    assume d: "(i, pe_id p) \<notin> set (db_joins db) \<and> db' = db\<lparr>db_joins := db_joins db @ [(i, pe_id p)]\<rparr>"
    have "joins_wf db'" using w d findRole_Some[OF f] findPermission_Some[OF g] by (auto simp: rbac_wf_def joins_wf_def)
    then show ?thesis using w d by (simp add: rbac_wf_def modules_wf_def permissions_wf_def permission_ok_def roles_wf_def)
  qed
qed

lemma wf_removePermission:
  assumes w: "rbac_wf db" and c: "removePermission i k b db = Inr (u, db', ivs)"
  shows "rbac_wf db'"
proof -
  obtain r where f: "findRole i db = Some r" using c by (cases "findRole i db") (auto simp: removePermission_def)
  obtain p where g: "findPermissionByKey k db = Some p" using c f by (cases "findPermissionByKey k db") (auto simp: removePermission_def)
  have db': "db' = db\<lparr>db_joins := remove1 (i, pe_id p) (db_joins db)\<rparr>"
    using c f g by (auto simp: removePermission_def split: if_splits)
  have "joins_wf db'" using w set_remove1_subset[of "(i, pe_id p)" "db_joins db"] by (fastforce simp: rbac_wf_def joins_wf_def db')
  then show ?thesis using w by (simp add: rbac_wf_def modules_wf_def permissions_wf_def permission_ok_def roles_wf_def db')
qed

lemmas rbac_wf_rules = wf_createModule wf_createPermission wf_bulkCreate wf_deletePermission wf_role_create
  wf_role_update wf_role_remove wf_addPermission wf_removePermission

section \<open>A batch of permissions\<close>

text \<open>What is wrong with one item of a batch, and the key it asks for.\<close>

definition item_error :: "rbac \<Rightarrow> string option \<times> string option \<Rightarrow> rbac_error option" where
  "item_error db i = (case validateKey (fst i) (snd i) of Inl e \<Rightarrow> Some e
     | Inr (k, b) \<Rightarrow> if findModuleByKey k db = None then Some Not_found else None)"

definition item_key :: "string option \<times> string option \<Rightarrow> string" where
  "item_key i = composed_key (to_lower (arg_text (fst i))) (to_lower (arg_text (snd i)))"

lemma validate_item: "validateKey m a = Inr (k, b) \<Longrightarrow> item_key (m, a) = composed_key k b"
  by (auto simp: validateKey_def item_key_def Let_def split: if_splits)

text \<open>An action has no dot, so a composed key gives back its module and its action.\<close>

lemma action_no_dot: "a \<in> set CANONICAL_ACTIONS \<Longrightarrow> CHR ''.'' \<notin> set a"
proof -
  have "list_all (\<lambda>s. CHR ''.'' \<notin> set s) CANONICAL_ACTIONS" by code_simp
  then show "a \<in> set CANONICAL_ACTIONS \<Longrightarrow> CHR ''.'' \<notin> set a" unfolding list_all_iff by (rule bspec)
qed

lemma composed_key_eq:
  assumes "composed_key m a = composed_key m' a'" "CHR ''.'' \<notin> set a" "CHR ''.'' \<notin> set a'"
  shows "m = m' \<and> a = a'"
proof -
  have r: "takeWhile (\<lambda>c. c \<noteq> CHR ''.'') (rev (composed_key m a)) = rev a" if "CHR ''.'' \<notin> set a" for m a
  proof -
    have "takeWhile (\<lambda>c. c \<noteq> CHR ''.'') (rev a @ CHR ''.'' # rev m) = rev a"
      using that by (subst takeWhile_append2) auto
    then show ?thesis by (simp add: composed_key_def)
  qed
  have "a = a'" using r[OF assms(2), of m] r[OF assms(3), of m'] assms(1) by simp
  then show ?thesis using assms(1) by (simp add: composed_key_def)
qed

definition seen_ok :: "rbac \<Rightarrow> string list \<Rightarrow> bool" where
  "seen_ok db seen \<longleftrightarrow> (\<forall>k\<in>set seen. \<exists>m a. k = composed_key m a \<and> a \<in> set CANONICAL_ACTIONS \<and> findModuleByKey m db \<noteq> None)"

lemma bulk_rows_exact:
  "seen_ok db seen \<Longrightarrow>
   (case bulk_rows db seen items of
      Inl e \<Rightarrow> (\<exists>es. List.map_filter (item_error db) items = e # es)
    | Inr rows \<Rightarrow> List.map_filter (item_error db) items = [] \<and> pe_key ` set rows = item_key ` set items - set seen)"
proof (induction db seen items rule: bulk_rows.induct)
  case (1 db seen)
  then show ?case by (simp add: map_filter_simps)
next
  case (2 db seen m a items)
  show ?case
  proof (cases "validateKey m a")
    case (Inl e)
    then show ?thesis by (simp add: map_filter_simps item_error_def)
  next
    case (Inr ka)
    obtain k b where ka: "ka = (k, b)" by (cases ka)
    have v: "validateKey m a = Inr (k, b)" using Inr ka by simp
    have b: "b \<in> set CANONICAL_ACTIONS" using validateKey_Inr[OF v] by simp
    have key: "item_key (m, a) = composed_key k b" by (rule validate_item[OF v])
    show ?thesis
    proof (cases "composed_key k b \<in> set seen")
      case True
      obtain k' b' where kb: "composed_key k b = composed_key k' b'" "b' \<in> set CANONICAL_ACTIONS" "findModuleByKey k' db \<noteq> None"
        using "2.prems" True unfolding seen_ok_def by blast
      have "k = k'" using composed_key_eq[OF kb(1) action_no_dot[OF b] action_no_dot[OF kb(2)]] by simp
      then have "item_error db (m, a) = None" using v kb(3) by (simp add: item_error_def)
      then show ?thesis using "2.IH"(1)[OF v refl True "2.prems"] v True key
        by (auto simp: map_filter_simps split: sum.splits)
    next
      case False
      show ?thesis
      proof (cases "findModuleByKey k db")
        case None
        then show ?thesis using v False by (simp add: map_filter_simps item_error_def)
      next
        case (Some md)
        have ok: "seen_ok db (composed_key k b # seen)" using "2.prems" b Some unfolding seen_ok_def by auto
        have none: "item_error db (m, a) = None" using v Some by (simp add: item_error_def)
        have pk: "pe_key (permission_for (mo_id md) k b) = composed_key k b" by (simp add: permission_for_def)
        show ?thesis using "2.IH"(2)[OF v refl False Some ok] v False Some none key pk
          by (auto simp: map_filter_simps split: sum.splits)
      qed
    qed
  qed
qed

lemma key_in_use: "list_ex (\<lambda>p. pe_live p \<and> pe_key p = v) ps \<longleftrightarrow> v \<in> pe_key ` set (filter pe_live ps)"
  by (induction ps) auto

lemma find_key_None: "findPermissionByKey k db = None \<longleftrightarrow> to_lower k \<notin> pe_key ` set (filter pe_live (db_permissions db))"
  unfolding findPermissionByKey_def find_None_iff image_iff set_filter by (auto; metis)

lemma to_lower_append [simp]: "to_lower (xs @ ys) = to_lower xs @ to_lower ys"
  by (simp add: to_lower_def)

lemma item_key_lower [simp]: "to_lower (item_key i) = item_key i"
proof -
  have "to_lower ''.'' = ''.''" by code_simp
  then show ?thesis unfolding item_key_def composed_key_def to_lower_append by simp
qed

text \<open>When every stored row has the key of its module and action, a row clashes exactly when its key is in
  use, and the unordered insert stores exactly the rows whose keys are free.\<close>

definition keyed :: "permission_row list \<Rightarrow> bool" where
  "keyed ps \<longleftrightarrow> (\<forall>p\<in>set ps. pe_key p = composed_key (pe_module p) (pe_action p))"

definition live_keys :: "rbac \<Rightarrow> string set" where
  "live_keys db = pe_key ` set (filter pe_live (db_permissions db))"

lemma insert_permission_keyed:
  assumes k: "keyed (db_permissions db)" and p: "pe_key p = composed_key (pe_module p) (pe_action p)"
  shows "insert_permission p db = (if pe_key p \<in> live_keys db then Inl Duplicate_key
    else Inr (p\<lparr>pe_id := db_next db\<rparr>, db\<lparr>db_permissions := db_permissions db @ [p\<lparr>pe_id := db_next db\<rparr>], db_next := Suc (db_next db)\<rparr>))"
proof -
  have clash: "permission_clash p q \<longleftrightarrow> pe_live q \<and> pe_key q = pe_key p" if q: "q \<in> set (db_permissions db)" for q
  proof -
    have "pe_key q = composed_key (pe_module q) (pe_action q)" using k q by (simp add: keyed_def)
    then show ?thesis using p by (auto simp: permission_clash_def)
  qed
  have "list_ex (permission_clash p) (db_permissions db) \<longleftrightarrow> list_ex (\<lambda>q. pe_live q \<and> pe_key q = pe_key p) (db_permissions db)"
    using clash by (auto simp: list_ex_iff)
  also have "\<dots> \<longleftrightarrow> pe_key p \<in> live_keys db" unfolding live_keys_def by (rule key_in_use)
  finally show ?thesis by (simp add: insert_permission_def Let_def)
qed

lemma insert_permissions_exact:
  "keyed (db_permissions db) \<Longrightarrow> keyed ps \<Longrightarrow> distinct (map pe_key ps) \<Longrightarrow> \<forall>p\<in>set ps. pe_live p \<Longrightarrow>
   \<exists>new n. insert_permissions ps db = (list_ex (\<lambda>p. pe_key p \<in> live_keys db) ps, db\<lparr>db_permissions := db_permissions db @ new, db_next := n\<rparr>)
     \<and> map pe_key new = filter (\<lambda>k. k \<notin> live_keys db) (map pe_key ps) \<and> (\<forall>p\<in>set new. pe_live p)"
proof (induction ps arbitrary: db)
  case Nil
  have "db\<lparr>db_permissions := db_permissions db @ [], db_next := db_next db\<rparr> = db" by simp
  then have "insert_permissions [] db = (list_ex (\<lambda>p. pe_key p \<in> live_keys db) [], db\<lparr>db_permissions := db_permissions db @ [], db_next := db_next db\<rparr>)"
    by simp
  then show ?case by (intro exI[of _ "[]"] exI[of _ "db_next db"]) simp
next
  case (Cons p ps)
  have pk: "pe_key p = composed_key (pe_module p) (pe_action p)" and kps: "keyed ps" using Cons.prems(2) by (simp_all add: keyed_def)
  note i = insert_permission_keyed[OF Cons.prems(1) pk]
  show ?case
  proof (cases "pe_key p \<in> live_keys db")
    case True
    obtain new n where nn: "insert_permissions ps db = (list_ex (\<lambda>p. pe_key p \<in> live_keys db) ps, db\<lparr>db_permissions := db_permissions db @ new, db_next := n\<rparr>)"
      "map pe_key new = filter (\<lambda>k. k \<notin> live_keys db) (map pe_key ps)" "\<forall>p\<in>set new. pe_live p"
      using Cons.IH[OF Cons.prems(1) kps] Cons.prems(3,4) by auto
    have "insert_permissions (p # ps) db = (list_ex (\<lambda>p. pe_key p \<in> live_keys db) (p # ps), db\<lparr>db_permissions := db_permissions db @ new, db_next := n\<rparr>)"
      using i True nn(1) by simp
    then show ?thesis using nn(2,3) True by auto
  next
    case False
    define p1 where "p1 = p\<lparr>pe_id := db_next db\<rparr>"
    define db1 where "db1 = db\<lparr>db_permissions := db_permissions db @ [p1], db_next := Suc (db_next db)\<rparr>"
    have p1: "pe_key p1 = pe_key p" "pe_live p1" "pe_module p1 = pe_module p" "pe_action p1 = pe_action p"
      using Cons.prems(4) by (simp_all add: p1_def)
    have ins: "insert_permission p db = Inr (p1, db1)" using i False by (simp add: p1_def db1_def)
    have k1: "keyed (db_permissions db1)" using Cons.prems(1) pk p1 by (simp add: keyed_def db1_def)
    have l1: "live_keys db1 = insert (pe_key p) (live_keys db)" using p1 by (simp add: live_keys_def db1_def)
    obtain new n where nn: "insert_permissions ps db1 = (list_ex (\<lambda>p. pe_key p \<in> live_keys db1) ps, db1\<lparr>db_permissions := db_permissions db1 @ new, db_next := n\<rparr>)"
      "map pe_key new = filter (\<lambda>k. k \<notin> live_keys db1) (map pe_key ps)" "\<forall>p\<in>set new. pe_live p"
      using Cons.IH[OF k1 kps] Cons.prems(3,4) by auto
    have away: "pe_key q \<noteq> pe_key p" if "q \<in> set ps" for q
      using Cons.prems(3) imageI[OF that, of pe_key] by auto
    have e: "list_ex (\<lambda>p. pe_key p \<in> live_keys db1) ps \<longleftrightarrow> list_ex (\<lambda>p. pe_key p \<in> live_keys db) (p # ps)"
      using away False l1 by (auto simp: list_ex_iff)
    have f: "filter (\<lambda>k. k \<notin> live_keys db1) (map pe_key ps) = filter (\<lambda>k. k \<notin> live_keys db) (map pe_key ps)"
      using away l1 by (intro filter_cong) auto
    have "insert_permissions (p # ps) db = (list_ex (\<lambda>p. pe_key p \<in> live_keys db) (p # ps), db\<lparr>db_permissions := db_permissions db @ (p1 # new), db_next := n\<rparr>)"
      using ins nn(1) e by (simp add: db1_def)
    moreover have "map pe_key (p1 # new) = filter (\<lambda>k. k \<notin> live_keys db) (map pe_key (p # ps))" using nn(2) f False p1 by simp
    moreover have "\<forall>q\<in>set (p1 # new). pe_live q" using nn(3) p1 by simp
    ultimately show ?thesis by blast
  qed
qed

text \<open>The keys a batch has to add, by what it read, and what the collections look like after its insert: new
  rows behind the old ones, and exactly the missing keys added.\<close>

definition missing_keys :: "(string option \<times> string option) list \<Rightarrow> rbac \<Rightarrow> string set" where
  "missing_keys items db0 = {k \<in> item_key ` set items. findPermissionByKey k db0 = None}"

definition keys_added :: "string set \<Rightarrow> rbac \<Rightarrow> rbac \<Rightarrow> bool" where
  "keys_added ks db db' \<longleftrightarrow>
     (\<exists>new n. db' = db\<lparr>db_permissions := db_permissions db @ new, db_next := n\<rparr>)
     \<and> {k. findPermissionByKey k db' \<noteq> None} = {k. findPermissionByKey k db \<noteq> None} \<union> {k. to_lower k \<in> ks}"

lemma item_key_image: "k \<in> item_key ` set items \<Longrightarrow> to_lower k = k"
  by auto

lemma missing_keys_eq: "missing_keys items db0 = item_key ` set items - live_keys db0"
proof -
  have "k \<in> item_key ` set items \<and> findPermissionByKey k db0 = None \<longleftrightarrow> k \<in> item_key ` set items \<and> k \<notin> live_keys db0" for k
    using item_key_image[of k items] unfolding live_keys_def
    by (cases "k \<in> item_key ` set items") (simp_all only: find_key_None simp_thms)
  then show ?thesis unfolding missing_keys_def by (intro set_eqI) (simp only: mem_Collect_eq Diff_iff)
qed

lemma repo_bulk_exact:
  assumes k: "keyed (db_permissions db)" and r: "bulk_rows db0 [] items = Inr rows"
  shows "\<exists>db'. repo_bulkCreate rows db0 db
      = (if missing_keys items db0 \<inter> live_keys db \<noteq> {} then Inl Duplicate_key else Inr (card (missing_keys items db0)), db')
    \<and> keys_added (missing_keys items db0) db db' \<and> length rows = card (item_key ` set items)"
proof -
  let ?K = "item_key ` set items"
  define fresh where "fresh = filter (\<lambda>i. \<not> list_ex (\<lambda>p. pe_live p \<and> pe_key p = pe_key i) (db_permissions db0)) rows"
  have keys: "pe_key ` set rows = ?K" using bulk_rows_exact[of db0 "[]" items] r by (simp add: seen_ok_def)
  have dist: "distinct (map pe_key rows)" using bulk_rows_ok[OF r] by blast
  have fkeys: "pe_key ` set fresh = missing_keys items db0"
  proof -
    have "fresh = filter (\<lambda>i. pe_key i \<notin> live_keys db0) rows" unfolding fresh_def key_in_use live_keys_def ..
    then show ?thesis unfolding keys[symmetric] missing_keys_eq by auto
  qed
  have dfresh: "distinct (map pe_key fresh)" unfolding fresh_def by (rule distinct_map_filter[OF dist])
  have shape: "\<exists>m. p = permission_for m (pe_module p) (pe_action p)" if "p \<in> set rows" for p
    using bulk_rows_ok[OF r] that by blast
  have rowok: "pe_live p \<and> pe_key p = composed_key (pe_module p) (pe_action p)" if p: "p \<in> set rows" for p
  proof -
    obtain m where "p = permission_for m (pe_module p) (pe_action p)" using shape[OF p] by blast
    then have "pe_live p = pe_live (permission_for m (pe_module p) (pe_action p))" "pe_key p = pe_key (permission_for m (pe_module p) (pe_action p))"
      by (simp_all only:)
    then show ?thesis by (simp add: permission_for_def)
  qed
  have fok: "keyed fresh" "\<forall>p\<in>set fresh. pe_live p" using rowok by (auto simp: keyed_def fresh_def)
  obtain new n where ins: "insert_permissions fresh db = (list_ex (\<lambda>p. pe_key p \<in> live_keys db) fresh, db\<lparr>db_permissions := db_permissions db @ new, db_next := n\<rparr>)"
    and new: "map pe_key new = filter (\<lambda>k. k \<notin> live_keys db) (map pe_key fresh)" "\<forall>p\<in>set new. pe_live p"
    using insert_permissions_exact[OF k fok(1) dfresh fok(2)] by blast
  define db' where "db' = db\<lparr>db_permissions := db_permissions db @ new, db_next := n\<rparr>"
  have lr: "length rows = card ?K" using distinct_card[OF dist] keys by simp
  have lf: "length fresh = card (missing_keys items db0)" using distinct_card[OF dfresh] fkeys by simp
  have dup: "list_ex (\<lambda>p. pe_key p \<in> live_keys db) fresh \<longleftrightarrow> missing_keys items db0 \<inter> live_keys db \<noteq> {}"
    unfolding fkeys[symmetric] by (auto simp: list_ex_iff)
  have "live_keys db' = live_keys db \<union> pe_key ` set new" using new(2) by (auto simp: db'_def live_keys_def)
  also have "pe_key ` set new = missing_keys items db0 - live_keys db"
    unfolding set_map[symmetric] new(1) fkeys[symmetric] by auto
  finally have live': "live_keys db' = live_keys db \<union> missing_keys items db0" by blast
  have found: "{k. findPermissionByKey k db' \<noteq> None} = {k. findPermissionByKey k db \<noteq> None} \<union> {k. to_lower k \<in> missing_keys items db0}"
    unfolding find_key_None live_keys_def[symmetric] live' by blast
  have shape': "\<exists>new n. db' = db\<lparr>db_permissions := db_permissions db @ new, db_next := n\<rparr>" unfolding db'_def by blast
  have c: "keys_added (missing_keys items db0) db db'" unfolding keys_added_def using shape' found by blast
  have "repo_bulkCreate rows db0 db
      = (if missing_keys items db0 \<inter> live_keys db \<noteq> {} then Inl Duplicate_key else Inr (card (missing_keys items db0)), db')"
  proof (cases "fresh = []")
    case True
    have "new = []" "n = db_next db" using ins True new(1) by (auto dest: arg_cong[of _ _ db_next])
    then have "db' = db" by (simp add: db'_def)
    moreover have "missing_keys items db0 = {}" using fkeys True by simp
    ultimately show ?thesis using True unfolding repo_bulkCreate_def fresh_def[symmetric] by simp
  next
    case False
    then show ?thesis using ins lf dup unfolding repo_bulkCreate_def fresh_def[symmetric] db'_def[symmetric] by simp
  qed
  then show ?thesis using c lr by blast
qed

lemma rbac_wf_keyed: "rbac_wf db \<Longrightarrow> keyed (db_permissions db)"
  by (simp add: rbac_wf_def permissions_wf_def permission_ok_def keyed_def)

lemma bulkCreate_refused:
  assumes "List.map_filter (item_error db0) items = e # es"
  shows "bulkCreatePermissions items db0 db = (Inl e, db)"
proof -
  have "items \<noteq> []" using assms by (auto simp: map_filter_simps)
  moreover have "bulk_rows db0 [] items = Inl e"
    using bulk_rows_exact[of db0 "[]" items] assms by (cases "bulk_rows db0 [] items") (auto simp: seen_ok_def)
  ultimately show ?thesis by (simp add: bulkCreatePermissions_def)
qed

lemma bulkCreate_written:
  assumes k: "keyed (db_permissions db)" and i: "items \<noteq> []" and n: "List.map_filter (item_error db0) items = []"
  shows "\<exists>db'. bulkCreatePermissions items db0 db
      = (if missing_keys items db0 \<inter> live_keys db \<noteq> {} then Inl Duplicate_key
         else Inr ((card (missing_keys items db0), card (item_key ` set items) - card (missing_keys items db0)), [All_scopes]), db')
    \<and> keys_added (missing_keys items db0) db db'"
proof -
  obtain rows where r: "bulk_rows db0 [] items = Inr rows"
    using bulk_rows_exact[of db0 "[]" items] n by (cases "bulk_rows db0 [] items") (auto simp: seen_ok_def)
  obtain db' where b: "repo_bulkCreate rows db0 db
      = (if missing_keys items db0 \<inter> live_keys db \<noteq> {} then Inl Duplicate_key else Inr (card (missing_keys items db0)), db')"
    and a: "keys_added (missing_keys items db0) db db'" and l: "length rows = card (item_key ` set items)"
    using repo_bulk_exact[OF k r] by blast
  show ?thesis using a i r l b
    by (intro exI[of _ db']) (simp add: bulkCreatePermissions_def)
qed

section \<open>Taking a permission away\<close>

lemma held_frame: "db_grants db' = db_grants db \<Longrightarrow> held_roles now adm a t db' = held_roles now adm a t db"
  by (simp add: held_roles_def)

lemma resolve_set:
  "set (resolvePermissionsForActor now adm a t db) =
     {pe_key p |p r. p \<in> set (db_permissions db) \<and> pe_live p \<and> r \<in> set (held_roles now adm a t db) \<and> (r, pe_id p) \<in> set (db_joins db)}"
  by (force simp: resolvePermissionsForActor_def Let_def)

lemma delete_shape:
  assumes "deletePermission k db = Inr (u, db', ivs)"
  shows "\<exists>p. findPermissionByKey k db = Some p \<and> \<not> pe_system p \<and> ivs = [All_scopes]
    \<and> db' = db\<lparr>db_permissions := map (retire (pe_id p)) (db_permissions db)\<rparr>"
proof -
  obtain p where "findPermissionByKey k db = Some p" using assms by (cases "findPermissionByKey k db") (auto simp: deletePermission_def)
  then show ?thesis using assms by (simp add: deletePermission_def repo_delete_retire split: if_splits)
qed

lemma live_key_unique:
  assumes w: "rbac_wf db" and p: "p \<in> set (db_permissions db)" "pe_live p" and q: "q \<in> set (db_permissions db)" "pe_live q"
  shows "pe_key q = pe_key p \<longleftrightarrow> pe_id q = pe_id p"
proof -
  have k: "inj_on pe_key (set (filter pe_live (db_permissions db)))" and i: "inj_on pe_id (set (db_permissions db))"
    using w by (simp_all add: rbac_wf_def permissions_wf_def distinct_map)
  show ?thesis using inj_onD[OF k, of q p] inj_onD[OF i, of q p] p q by auto
qed

lemma delete_resolution:
  assumes w: "rbac_wf db" and d: "deletePermission k db = Inr (u, db', ivs)"
  shows "set (resolvePermissionsForActor now adm a t db') = set (resolvePermissionsForActor now adm a t db) - {to_lower k}"
proof -
  obtain p where p: "findPermissionByKey k db = Some p" and db': "db' = db\<lparr>db_permissions := map (retire (pe_id p)) (db_permissions db)\<rparr>"
    using delete_shape[OF d] by blast
  have pk: "p \<in> set (db_permissions db)" "pe_live p" "pe_key p = to_lower k" using findPermission_Some[OF p] by simp_all
  have h: "held_roles now adm a t db' = held_roles now adm a t db" by (rule held_frame) (simp add: db')
  note u = live_key_unique[OF w pk(1,2), unfolded pk(3)]
  show ?thesis
  proof (intro set_eqI iffI)
    fix x
    assume "x \<in> set (resolvePermissionsForActor now adm a t db')"
    then obtain q r where q: "x = pe_key q" "q \<in> set (db_permissions db)" "pe_live q" "pe_id q \<noteq> pe_id p"
      "r \<in> set (held_roles now adm a t db)" "(r, pe_id q) \<in> set (db_joins db)"
      unfolding resolve_set h by (auto simp: db')
    then show "x \<in> set (resolvePermissionsForActor now adm a t db) - {to_lower k}"
      using u[OF q(2,3)] q unfolding resolve_set by (intro DiffI) (blast, simp)
  next
    fix x
    assume "x \<in> set (resolvePermissionsForActor now adm a t db) - {to_lower k}"
    then obtain q r where q: "x = pe_key q" "q \<in> set (db_permissions db)" "pe_live q" "x \<noteq> to_lower k"
      "r \<in> set (held_roles now adm a t db)" "(r, pe_id q) \<in> set (db_joins db)"
      unfolding resolve_set by blast
    then have "pe_id q \<noteq> pe_id p" using u[OF q(2,3)] by simp
    then have s: "retire (pe_id p) q = q" by (simp add: retire_def)
    have "q \<in> set (db_permissions db')" using q(2) s unfolding db' by (metis image_eqI list.set_map rbac.select_convs(2) rbac.surjective rbac.update_convs(2))
    moreover have "(r, pe_id q) \<in> set (db_joins db')" using q(6) by (simp add: db')
    ultimately show "x \<in> set (resolvePermissionsForActor now adm a t db')" using q(1,3,5) unfolding resolve_set h by blast
  qed
qed

lemma missing_in_use: "(\<exists>k\<in>missing_keys items db0. findPermissionByKey k db \<noteq> None) \<longleftrightarrow> missing_keys items db0 \<inter> live_keys db \<noteq> {}"
proof -
  have "findPermissionByKey k db \<noteq> None \<longleftrightarrow> k \<in> live_keys db" if "k \<in> missing_keys items db0" for k
  proof -
    have "to_lower k = k" using that item_key_image[of k items] unfolding missing_keys_def by blast
    then show ?thesis unfolding find_key_None live_keys_def by simp
  qed
  then show ?thesis by blast
qed

lemma item_error_not_duplicate: "Duplicate_key \<notin> set (List.map_filter (item_error db) items)"
proof -
  have "item_error db i \<noteq> Some Duplicate_key" for i
  proof (cases "validateKey (fst i) (snd i)")
    case (Inl e)
    then have "e = Bad_request" unfolding validateKey_def Let_def by (simp split: if_splits)
    then show ?thesis using Inl by (simp add: item_error_def)
  qed (simp add: item_error_def case_prod_unfold)
  then show ?thesis by (induction items) (auto simp: map_filter_simps split: option.split)
qed

lemma bulkCreate_alone:
  assumes k: "keyed (db_permissions db)"
  shows "case bulkCreatePermissions items db db of
        (Inl e, db') \<Rightarrow> db' = db \<and> e \<noteq> Duplicate_key
      | (Inr n, db') \<Rightarrow> {k. findPermissionByKey k db' \<noteq> None} = {k. findPermissionByKey k db \<noteq> None} \<union> {k. to_lower k \<in> item_key ` set items}"
proof (cases "List.map_filter (item_error db) items")
  case (Cons e es)
  have "e \<noteq> Duplicate_key" using item_error_not_duplicate[of db items] Cons by auto
  then show ?thesis using bulkCreate_refused[OF Cons, of db] by simp
next
  case Nil
  show ?thesis
  proof (cases "items = []")
    case True
    then show ?thesis by (simp add: bulkCreatePermissions_def)
  next
    case False
    have none: "missing_keys items db \<inter> live_keys db = {}" unfolding missing_keys_eq by blast
    obtain db' where b: "bulkCreatePermissions items db db
        = (Inr ((card (missing_keys items db), card (item_key ` set items) - card (missing_keys items db)), [All_scopes]), db')"
      and a: "keys_added (missing_keys items db) db db'"
      using bulkCreate_written[OF k False Nil] none by auto
    have "{k. findPermissionByKey k db \<noteq> None} \<union> {k. to_lower k \<in> missing_keys items db}
        = {k. findPermissionByKey k db \<noteq> None} \<union> {k. to_lower k \<in> item_key ` set items}"
      unfolding missing_keys_eq find_key_None live_keys_def[symmetric] by blast
    then show ?thesis using a unfolding b keys_added_def by simp
  qed
qed

section \<open>The properties\<close>

text \<open>One module, one permission, and a role of the tenant that holds it, granted to one user.\<close>

definition demo_rbac :: rbac where
  "demo_rbac = \<lparr>db_modules = [\<lparr>mo_id = 0, mo_key = ''iam'', mo_name = ''IAM'', mo_parent = None, mo_live = True\<rparr>],
     db_permissions = [(permission_for 0 ''iam'' ''view'')\<lparr>pe_id := 1\<rparr>],
     db_roles = [\<lparr>ro_id = 2, ro_tenant = Some ''t1'', ro_name = ''reader'', ro_description = [], ro_system = False, ro_live = True\<rparr>],
     db_joins = [(2, 1)],
     db_grants = [\<lparr>gr_admin = False, gr_actor = ''u1'', gr_tenant = Some ''t1'', gr_role = 2, gr_resource = None, gr_expires = Some 50, gr_live = True\<rparr>],
     db_admins = [], db_next = 3\<rparr>"

lemma demo_rbac_wf: "rbac_wf demo_rbac"
  by code_simp

text \<open>C21. Whatever request the permission and role services accept, the collections stay well formed: live module
  keys, permission keys and role labels are unique, a permission has the key of its module and a canonical
  action, joins name existing rows and every live grant names a live role of the right tenant.\<close>

theorem rbac_ops_wf:
  assumes "rbac_wf db" and "handle_rbac q db = Inr (db', ivs)"
  shows "rbac_wf db'"
  using assms by (cases q) (auto simp: effect_of_Inr bulk_effect_Inr elim: rbac_wf_rules)

theorem rbac_ops_wf_witness:
  "\<exists>db' ivs. handle_rbac (Create_permission (Some '' IAM '') (Some ''update'')) demo_rbac = Inr (db', ivs)
     \<and> rbac_wf db' \<and> map pe_key (db_permissions db') = [''iam.view'', ''iam.update'']"
proof -
  let ?r = "handle_rbac (Create_permission (Some '' IAM '') (Some ''update'')) demo_rbac"
  have e: "?r = Inr (projr ?r)" "map pe_key (db_permissions (fst (projr ?r))) = [''iam.view'', ''iam.update'']" by code_simp+
  show ?thesis using e rbac_ops_wf[OF demo_rbac_wf, of _ "fst (projr ?r)" "snd (projr ?r)"] by (metis prod.collapse)
qed

text \<open>C36. What a batch of permissions leaves behind, whatever other requests wrote between its reads (\<open>db0\<close>)
  and its insert (\<open>db\<close>). A batch that is empty or has a bad item is refused with the error of its first bad
  item before anything is written: the collections are those it met. Otherwise exactly the keys it read as
  missing are there afterwards beside the old ones, behind the old rows. It then fails with a duplicate key
  exactly when another request added one of those keys in between - and its other rows stay stored - and else
  counts the keys it created and skipped. With no request in between it never fails once its items are good,
  and every key it asks for exists.\<close>

theorem bulk_create_exact:
  assumes "rbac_wf db"
  shows "(case List.map_filter (item_error db0) items of
      e # es \<Rightarrow> bulkCreatePermissions items db0 db = (Inl e, db)
    | [] \<Rightarrow> if items = [] then bulkCreatePermissions items db0 db = (Inl Bad_request, db)
        else \<exists>db'. keys_added (missing_keys items db0) db db'
          \<and> bulkCreatePermissions items db0 db
            = (if \<exists>k\<in>missing_keys items db0. findPermissionByKey k db \<noteq> None then Inl Duplicate_key
               else Inr ((card (missing_keys items db0), card (item_key ` set items) - card (missing_keys items db0)), [All_scopes]), db'))
    \<and> (case bulkCreatePermissions items db db of
        (Inl e, db') \<Rightarrow> db' = db \<and> e \<noteq> Duplicate_key
      | (Inr n, db') \<Rightarrow> {k. findPermissionByKey k db' \<noteq> None} = {k. findPermissionByKey k db \<noteq> None} \<union> {k. to_lower k \<in> item_key ` set items})"
proof (rule conjI, goal_cases)
  case 1
  have d: "(\<exists>k\<in>missing_keys items db0. findPermissionByKey k db \<noteq> None) \<longleftrightarrow> missing_keys items db0 \<inter> live_keys db \<noteq> {}"
    by (rule missing_in_use)
  show ?case
  proof (cases "List.map_filter (item_error db0) items")
    case (Cons e es)
    then show ?thesis using bulkCreate_refused[OF Cons, of db] by simp
  next
    case Nil
    show ?thesis
    proof (cases "items = []")
      case True
      then show ?thesis by (simp add: bulkCreatePermissions_def)
    next
      case False
      from bulkCreate_written[OF rbac_wf_keyed[OF assms] False Nil] show ?thesis
        unfolding d Nil list.case using False by (simp only: if_False) blast
    qed
  qed
next
  case 2
  show ?case by (rule bulkCreate_alone[OF rbac_wf_keyed[OF assms]])
qed

theorem bulk_create_exact_witness:
  "bulkCreatePermissions [(Some ''iam'', Some ''view''), (Some ''iam'', Some ''fly''), (Some ''hr'', Some ''view'')] demo_rbac demo_rbac
     = (Inl Bad_request, demo_rbac)
   \<and> (\<exists>db'. bulkCreatePermissions [(Some ''iam'', Some ''view''), (Some ''iam'', Some ''export''), (Some ''IAM'', Some ''export'')]
           (demo_rbac\<lparr>db_permissions := []\<rparr>) demo_rbac = (Inl Duplicate_key, db')
        \<and> keys_added {''iam.view'', ''iam.export''} demo_rbac db' \<and> map pe_key (db_permissions db') = [''iam.view'', ''iam.export''])"
proof -
  let ?i = "[(Some ''iam'', Some ''view''), (Some ''iam'', Some ''export''), (Some ''IAM'', Some ''export'')]"
  let ?j = "[(Some ''iam'', Some ''view''), (Some ''iam'', Some ''fly''), (Some ''hr'', Some ''view'')]"
  let ?z = "demo_rbac\<lparr>db_permissions := []\<rparr>"
  have j: "List.map_filter (item_error demo_rbac) ?j = [Bad_request, Not_found]" by code_simp
  have i: "List.map_filter (item_error ?z) ?i = []" by code_simp
  have m: "missing_keys ?i ?z = {''iam.view'', ''iam.export''}"
    unfolding missing_keys_eq live_keys_def by code_simp
  have f: "\<exists>k\<in>missing_keys ?i ?z. findPermissionByKey k demo_rbac \<noteq> None"
    unfolding m by (rule bexI[of _ "''iam.view''"]) code_simp+
  note J = conjunct1[OF bulk_create_exact[OF demo_rbac_wf, of ?j demo_rbac], unfolded j list.case]
  note I = conjunct1[OF bulk_create_exact[OF demo_rbac_wf, of ?i ?z], unfolded i list.case if_P[OF f] if_not_P[OF list.distinct(2)]]
  obtain db' where db': "keys_added (missing_keys ?i ?z) demo_rbac db'"
    "bulkCreatePermissions ?i ?z demo_rbac = (Inl Duplicate_key, db')" using I by blast
  have "map pe_key (db_permissions (snd (bulkCreatePermissions ?i ?z demo_rbac))) = [''iam.view'', ''iam.export'']" by code_simp
  then have "map pe_key (db_permissions db') = [''iam.view'', ''iam.export'']" unfolding db'(2) snd_conv .
  then show ?thesis using J db' unfolding m by (intro conjI exI[of _ db'])
qed

text \<open>Deleting a permission takes that key, and nothing else, from every actor of every tenant: the role
  joins stay behind, yet no resolution finds the key any more.\<close>

theorem deleted_permission_exact:
  assumes "rbac_wf db" and "deletePermission k db = Inr (u, db', ivs)"
  shows "set (resolvePermissionsForActor now adm a t db') = set (resolvePermissionsForActor now adm a t db) - {to_lower k}
    \<and> db_joins db' = db_joins db \<and> ivs = [All_scopes]"
  using delete_resolution[OF assms] delete_shape[OF assms(2)] by auto

theorem deleted_permission_exact_witness:
  "\<exists>db'. deletePermission ''IAM.view'' demo_rbac = Inr ((), db', [All_scopes])
     \<and> resolvePermissionsForActor 49 False ''u1'' (Some ''t1'') demo_rbac = [''iam.view'']
     \<and> resolvePermissionsForActor 50 False ''u1'' (Some ''t1'') demo_rbac = []
     \<and> set (resolvePermissionsForActor 49 False ''u1'' (Some ''t1'') db') = {}"
proof -
  let ?r = "deletePermission ''IAM.view'' demo_rbac"
  have e: "?r = Inr ((), fst (snd (projr ?r)), [All_scopes])"
    "resolvePermissionsForActor 49 False ''u1'' (Some ''t1'') demo_rbac = [''iam.view'']"
    "resolvePermissionsForActor 50 False ''u1'' (Some ''t1'') demo_rbac = []" "to_lower ''IAM.view'' = ''iam.view''"
    by code_simp+
  have "set (resolvePermissionsForActor 49 False ''u1'' (Some ''t1'') (fst (snd (projr ?r))))
      = set (resolvePermissionsForActor 49 False ''u1'' (Some ''t1'') demo_rbac) - {to_lower ''IAM.view''}"
    using deleted_permission_exact[OF demo_rbac_wf e(1)] by blast
  then have "set (resolvePermissionsForActor 49 False ''u1'' (Some ''t1'') (fst (snd (projr ?r)))) = {}"
    unfolding e(2,4) by simp
  then show ?thesis using e(1-3) by blast
qed

end
