(* ===== verification/AdminService.thy ===== *)
theory AdminService
  imports Rbac
begin

text \<open>
  Platform administrators: \<open>src/services/admin.service.js\<close>, \<open>src/repositories/admin.repository.js\<close>. A request
  is a job: the document it read, the checks it still has to pass, its write and the recount after a guarded
  write; each is one step, so requests interleave between any two of them. Invitations by email, security
  events and paginated lists are left out; hashing is not part of the model.
\<close>

section \<open>Types and the role catalogue\<close>

datatype admin_error = Admin_bad_request | Admin_not_found | Admin_conflict | Admin_forbidden | Last_super_admin | Role_above_admin_type

definition ADMIN_TYPES :: "(string \<times> admin_type) list" where
  "ADMIN_TYPES = [(''super'', Super_type), (''platform'', Platform_type), (''support'', Support_type), (''auditor'', Auditor_type)]"

fun ADMIN_TYPE_RANK :: "admin_type \<Rightarrow> nat" where
  "ADMIN_TYPE_RANK Auditor_type = 1"
| "ADMIN_TYPE_RANK Support_type = 2"
| "ADMIN_TYPE_RANK Platform_type = 3"
| "ADMIN_TYPE_RANK Super_type = 4"

definition findPlatformRole :: "string \<Rightarrow> admin_type option" where
  "findPlatformRole name = map_of [(''super_admin'', Super_type), (''platform_admin'', Platform_type),
     (''support_operator'', Support_type), (''auditor'', Auditor_type)] name"

section \<open>Repository\<close>

definition findAdmin :: "string \<Rightarrow> rbac \<Rightarrow> admin_row option" where
  "findAdmin i db = List.find (\<lambda>a. ad_id a = to_lower i) (db_admins db)"

definition active_super :: "admin_row \<Rightarrow> bool" where
  "active_super a \<longleftrightarrow> ad_type a = Super_type \<and> ad_status a = Active_admin"

definition countActiveSupers :: "rbac \<Rightarrow> nat" where
  "countActiveSupers db = length (filter active_super (db_admins db))"

record admin_set =
  st_type :: "admin_type option"
  st_status :: "admin_status option"
  st_scope :: "string option option"
  st_name :: "string option"

definition or_else :: "'a option \<Rightarrow> 'a \<Rightarrow> 'a" where
  "or_else x d = (case x of Some v \<Rightarrow> v | None \<Rightarrow> d)"

definition apply_set :: "admin_set \<Rightarrow> admin_row \<Rightarrow> admin_row" where
  "apply_set s a = a\<lparr>ad_type := or_else (st_type s) (ad_type a), ad_status := or_else (st_status s) (ad_status a),
     ad_scope := or_else (st_scope s) (ad_scope a), ad_name := or_else (st_name s) (ad_name a)\<rparr>"

definition admin_repo_update :: "string \<Rightarrow> admin_set \<Rightarrow> rbac \<Rightarrow> rbac" where
  "admin_repo_update i s db = db\<lparr>db_admins := map (\<lambda>a. if ad_id a = to_lower i then apply_set s a else a) (db_admins db)\<rparr>"

definition row_matches :: "admin_type option \<Rightarrow> admin_status option \<Rightarrow> admin_row \<Rightarrow> bool" where
  "row_matches t st a \<longleftrightarrow> or_else t (ad_type a) = ad_type a \<and> or_else st (ad_status a) = ad_status a"

definition updateIfMatch :: "string \<Rightarrow> admin_type option \<Rightarrow> admin_status option \<Rightarrow> admin_set \<Rightarrow> rbac \<Rightarrow> rbac option" where
  "updateIfMatch i t st s db =
     (case findAdmin i db of Some a \<Rightarrow> if row_matches t st a then Some (admin_repo_update i s db) else None | None \<Rightarrow> None)"

section \<open>Who may do it\<close>

definition isRequestActor :: "string option \<Rightarrow> bool" where
  "isRequestActor by = (case by of Some b \<Rightarrow> is_object_id b | None \<Rightarrow> False)"

definition is_active_super :: "string option \<Rightarrow> rbac \<Rightarrow> bool" where
  "is_active_super by db = (case by of Some b \<Rightarrow> (case findAdmin b db of Some a \<Rightarrow> active_super a | None \<Rightarrow> False) | None \<Rightarrow> False)"

definition assertMayChangePrivileges :: "string option \<Rightarrow> string option \<Rightarrow> rbac \<Rightarrow> admin_error option" where
  "assertMayChangePrivileges by target db =
     (if \<not> isRequestActor by then None
      else if target \<noteq> None \<and> by = target then Some Admin_forbidden
      else if is_active_super by db then None else Some Admin_forbidden)"

definition assertMayManageAdmin :: "string option \<Rightarrow> admin_row \<Rightarrow> rbac \<Rightarrow> admin_error option" where
  "assertMayManageAdmin by target db =
     (if \<not> isRequestActor by \<or> ad_type target \<noteq> Super_type \<or> by = Some (ad_id target) \<or> is_active_super by db
      then None else Some Admin_forbidden)"

definition assertScopeTenantExists :: "(string \<Rightarrow> bool) \<Rightarrow> string option \<Rightarrow> string option \<Rightarrow> admin_error option" where
  "assertScopeTenantExists tenants scope by =
     (if \<not> isRequestActor by then None
      else case scope of Some t \<Rightarrow> if is_object_id t \<and> tenants t then None else Some Admin_bad_request | None \<Rightarrow> Some Admin_bad_request)"

definition assertNotLastActiveSuper ::
  "string \<Rightarrow> admin_type option \<Rightarrow> admin_status option \<Rightarrow> string option \<Rightarrow> rbac \<Rightarrow> admin_error option" where
  "assertNotLastActiveSuper i type status actorId db =
     (case findAdmin i db of
        None \<Rightarrow> Some Admin_not_found
      | Some target \<Rightarrow>
          let stays = or_else status (ad_status target) = Active_admin \<and> or_else type (ad_type target) = Super_type in
          if \<not> stays \<and> \<not> active_super target then None
          else if \<not> stays \<and> countActiveSupers db \<le> 1 then Some Last_super_admin
          else if actorId = Some i \<and> active_super target \<and> countActiveSupers db \<le> 1 then Some Last_super_admin
          else None)"

section \<open>Updates, suspensions and restorations as jobs\<close>

record admin_patch =
  pt_type :: "string option"
  pt_scope :: "string option option"
  pt_name :: "string option"

text \<open>\<open>patch.tenantScope || null\<close>.\<close>

definition or_null :: "string option \<Rightarrow> string option" where
  "or_null s = (case s of Some t \<Rightarrow> if t = [] then None else Some t | None \<Rightarrow> None)"

definition update_set :: "admin_patch \<Rightarrow> (admin_error, admin_set) res" where
  "update_set p =
     (if (case pt_type p of Some t \<Rightarrow> map_of ADMIN_TYPES t = None | None \<Rightarrow> False) then Inl Admin_bad_request
      else if pt_type p = None \<and> pt_scope p = None \<and> pt_name p = None then Inl Admin_bad_request
      else Inr \<lparr>st_type = Option.bind (pt_type p) (map_of ADMIN_TYPES), st_status = None,
                st_scope = map_option or_null (pt_scope p), st_name = pt_name p\<rparr>)"

datatype job_kind = Update_job | Suspend_job | Restore_job

record admin_job =
  jb_kind :: job_kind
  jb_id :: string
  jb_by :: "string option"
  jb_row :: admin_row
  jb_set :: admin_set

datatype admin_check = Manage_check | Last_super_check | Privilege_check | Scope_check

definition scope_set :: "admin_set \<Rightarrow> string option" where
  "scope_set s = (case st_scope s of Some t \<Rightarrow> t | None \<Rightarrow> None)"

definition start_update :: "string \<Rightarrow> admin_patch \<Rightarrow> string option \<Rightarrow> rbac \<Rightarrow> (admin_error, admin_job \<times> admin_check list) res" where
  "start_update i patch by db =
     (case findAdmin i db of
        None \<Rightarrow> Inl Admin_not_found
      | Some a \<Rightarrow>
          (case update_set patch of
             Inl e \<Rightarrow> Inl e
           | Inr s \<Rightarrow> Inr (\<lparr>jb_kind = Update_job, jb_id = i, jb_by = by, jb_row = a, jb_set = s\<rparr>,
               [Manage_check, Last_super_check]
               @ (if st_type s \<noteq> None \<or> st_scope s \<noteq> None then [Privilege_check] else [])
               @ (if scope_set s \<noteq> None then [Scope_check] else []))))"

definition status_set :: "admin_status \<Rightarrow> admin_set" where
  "status_set st = \<lparr>st_type = None, st_status = Some st, st_scope = None, st_name = None\<rparr>"

definition start_suspend :: "string \<Rightarrow> string option \<Rightarrow> rbac \<Rightarrow> (admin_error, admin_job \<times> admin_check list) res" where
  "start_suspend i by db =
     (case findAdmin i db of
        None \<Rightarrow> Inl Admin_not_found
      | Some a \<Rightarrow> Inr (\<lparr>jb_kind = Suspend_job, jb_id = i, jb_by = by, jb_row = a, jb_set = status_set Suspended_admin\<rparr>,
                     [Manage_check, Last_super_check]))"

definition start_restore :: "string \<Rightarrow> string option \<Rightarrow> rbac \<Rightarrow> (admin_error, admin_job \<times> admin_check list) res" where
  "start_restore i by db =
     (case findAdmin i db of
        None \<Rightarrow> Inl Admin_not_found
      | Some a \<Rightarrow> Inr (\<lparr>jb_kind = Restore_job, jb_id = i, jb_by = by, jb_row = a, jb_set = status_set Active_admin\<rparr>, [Manage_check]))"

definition run_check :: "(string \<Rightarrow> bool) \<Rightarrow> admin_check \<Rightarrow> admin_job \<Rightarrow> rbac \<Rightarrow> admin_error option" where
  "run_check tenants c j db =
     (case c of
        Manage_check \<Rightarrow> assertMayManageAdmin (jb_by j) (jb_row j) db
      | Last_super_check \<Rightarrow> assertNotLastActiveSuper (jb_id j) (st_type (jb_set j)) (st_status (jb_set j)) (jb_by j) db
      | Privilege_check \<Rightarrow> assertMayChangePrivileges (jb_by j) (Some (jb_id j)) db
      | Scope_check \<Rightarrow> assertScopeTenantExists tenants (scope_set (jb_set j)) (jb_by j))"

text \<open>Whether the job writes through \<open>changeSuperSafely\<close>: it takes a document read as an active super away.\<close>

definition guarded_job :: "admin_job \<Rightarrow> bool" where
  "guarded_job j \<longleftrightarrow> active_super (jb_row j) \<and> (case jb_kind j of
     Update_job \<Rightarrow> st_type (jb_set j) \<noteq> None \<and> st_type (jb_set j) \<noteq> Some Super_type
   | Suspend_job \<Rightarrow> True | Restore_job \<Rightarrow> False)"

definition skips_write :: "admin_job \<Rightarrow> bool" where
  "skips_write j \<longleftrightarrow> jb_kind j = Suspend_job \<and> ad_status (jb_row j) = Suspended_admin"

text \<open>The write: nothing, a plain update, or the compare-and-set of \<open>changeSuperSafely\<close>.\<close>

definition admin_write :: "admin_job \<Rightarrow> rbac \<Rightarrow> (admin_error, rbac) res" where
  "admin_write j db =
     (if guarded_job j then
        (case updateIfMatch (ad_id (jb_row j)) (Some Super_type) (Some Active_admin) (jb_set j) db of
           Some db' \<Rightarrow> Inr db' | None \<Rightarrow> Inl Admin_conflict)
      else if skips_write j then Inr db
      else Inr (admin_repo_update (jb_id j) (jb_set j) db))"

definition undo_set :: "admin_job \<Rightarrow> admin_set" where
  "undo_set j = \<lparr>st_type = map_option (\<lambda>_. ad_type (jb_row j)) (st_type (jb_set j)),
     st_status = map_option (\<lambda>_. ad_status (jb_row j)) (st_status (jb_set j)),
     st_scope = map_option (\<lambda>_. ad_scope (jb_row j)) (st_scope (jb_set j)),
     st_name = map_option (\<lambda>_. ad_name (jb_row j)) (st_name (jb_set j))\<rparr>"

text \<open>The recount after a guarded write: with no active super left the write is undone and refused.\<close>

definition admin_recount :: "admin_job \<Rightarrow> rbac \<Rightarrow> rbac \<times> admin_error option" where
  "admin_recount j db =
     (if countActiveSupers db < 1 then
        ((case updateIfMatch (ad_id (jb_row j)) (st_type (jb_set j)) (st_status (jb_set j)) (undo_set j) db of
            Some db' \<Rightarrow> db' | None \<Rightarrow> db), Some Last_super_admin)
      else (db, None))"

section \<open>Role grants\<close>

definition isSuperAdminRole :: "role_row \<Rightarrow> bool" where
  "isSuperAdminRole r \<longleftrightarrow> ro_tenant r = None \<and> (ro_name r = ''super_admin'' \<or> ro_name r = ''super'' \<and> ro_system r)"

definition superAdminRoleIds :: "rbac \<Rightarrow> nat list" where
  "superAdminRoleIds db = map ro_id (filter isSuperAdminRole
     (List.map_filter (\<lambda>n. findByName None n db) [''super_admin'', ''super'']))"

definition truthy_text :: "string option \<Rightarrow> bool" where
  "truthy_text s \<longleftrightarrow> or_null s \<noteq> None"

definition role_above :: "admin_type \<Rightarrow> role_row \<Rightarrow> bool" where
  "role_above t r \<longleftrightarrow> isBuiltInPlatformRole r \<and> (case findPlatformRole (ro_name r) of
     Some d \<Rightarrow> ADMIN_TYPE_RANK t < ADMIN_TYPE_RANK d | None \<Rightarrow> False)"

definition assertGrantable :: "admin_row \<Rightarrow> role_row \<Rightarrow> string option \<Rightarrow> admin_error option" where
  "assertGrantable a r tenantId =
     (if ro_tenant r \<noteq> None then Some Admin_bad_request
      else if ro_name r \<in> set LEGACY_PLATFORM_ROLE_NAMES \<and> ro_system r \<and> findPlatformRole (ro_name r) = None then Some Admin_conflict
      else if role_above (ad_type a) r then Some Role_above_admin_type
      else if truthy_text tenantId \<and> tenantId \<noteq> Some (or_else (ad_scope a) []) then Some Admin_bad_request
      else None)"

definition same_grant :: "string \<Rightarrow> nat \<Rightarrow> string option \<Rightarrow> grant_row \<Rightarrow> bool" where
  "same_grant adminId roleId tenantId g \<longleftrightarrow> gr_admin g \<and> gr_actor g = adminId \<and> gr_role g = roleId \<and> gr_tenant g = tenantId"

definition repo_assignRole :: "string \<Rightarrow> nat \<Rightarrow> string option \<Rightarrow> int option \<Rightarrow> rbac \<Rightarrow> rbac" where
  "repo_assignRole adminId roleId tenantId expires db =
     (if list_ex (same_grant adminId roleId tenantId) (db_grants db) then db
      else db\<lparr>db_grants := db_grants db @ [\<lparr>gr_admin = True, gr_actor = adminId, gr_tenant = tenantId, gr_role = roleId,
             gr_resource = None, gr_expires = expires, gr_live = True\<rparr>]\<rparr>)"

definition repo_revokeRole :: "string \<Rightarrow> nat \<Rightarrow> string option \<Rightarrow> rbac \<Rightarrow> rbac \<times> nat" where
  "repo_revokeRole adminId roleId tenantId db =
     (case List.extract (same_grant adminId roleId tenantId) (db_grants db) of
        Some (xs, _, ys) \<Rightarrow> (db\<lparr>db_grants := xs @ ys\<rparr>, 1) | None \<Rightarrow> (db, 0))"

definition grant_invalidations :: "string option \<Rightarrow> invalidation list" where
  "grant_invalidations tenantId = Scope_of tenantId # (if truthy_text tenantId then [Scope_of None] else [])"

text \<open>\<open>expiresAt\<close> is absent, not a date, or an instant.\<close>

definition assignRole ::
  "int \<Rightarrow> string \<Rightarrow> nat \<Rightarrow> string option \<Rightarrow> string option \<Rightarrow> int option option \<Rightarrow> rbac
     \<Rightarrow> (admin_error, rbac \<times> invalidation list) res" where
  "assignRole now adminId roleId tenantId by expiresAt db =
     (case findAdmin adminId db of
        None \<Rightarrow> Inl Admin_not_found
      | Some a \<Rightarrow>
          (case findRole roleId db of
             None \<Rightarrow> Inl Admin_not_found
           | Some r \<Rightarrow>
               (case assertMayChangePrivileges by (Some adminId) db of
                  Some e \<Rightarrow> Inl e
                | None \<Rightarrow>
                    (case assertGrantable a r tenantId of
                       Some e \<Rightarrow> Inl e
                     | None \<Rightarrow>
                         if (case expiresAt of Some None \<Rightarrow> True | Some (Some t) \<Rightarrow> t \<le> now | None \<Rightarrow> False) then Inl Admin_bad_request
                         else Inr (repo_assignRole adminId roleId tenantId (Option.bind expiresAt id) db, grant_invalidations tenantId)))))"

definition platform_grants :: "string \<Rightarrow> rbac \<Rightarrow> grant_row list" where
  "platform_grants adminId db = filter (\<lambda>g. gr_live g \<and> gr_admin g \<and> gr_actor g = adminId \<and> gr_tenant g = None) (db_grants db)"

definition countActiveSupersHoldingRoles :: "int \<Rightarrow> nat list \<Rightarrow> rbac \<Rightarrow> nat" where
  "countActiveSupersHoldingRoles now roleIds db =
     length (filter (\<lambda>a. active_super a \<and> list_ex (\<lambda>g. gr_admin g \<and> gr_role g \<in> set roleIds \<and> gr_tenant g = None
        \<and> unexpired now g \<and> to_lower (gr_actor g) = ad_id a) (db_grants db)) (db_admins db))"

definition revokeRole ::
  "int \<Rightarrow> string \<Rightarrow> nat \<Rightarrow> string option \<Rightarrow> string option \<Rightarrow> rbac \<Rightarrow> (admin_error, nat \<times> rbac \<times> invalidation list) res" where
  "revokeRole now adminId roleId tenantId by db =
     (case findAdmin adminId db of
        None \<Rightarrow> Inl Admin_not_found
      | Some a \<Rightarrow>
          (case findRole roleId db of
             None \<Rightarrow> Inl Admin_not_found
           | Some r \<Rightarrow>
               (case assertMayChangePrivileges by (Some adminId) db of
                  Some e \<Rightarrow> Inl e
                | None \<Rightarrow>
                    let guards = \<not> truthy_text tenantId \<and> active_super a \<and> isSuperAdminRole r;
                        ids = superAdminRoleIds db; grants = platform_grants adminId db;
                        holdsThis = list_ex (\<lambda>g. gr_role g = roleId) grants;
                        holdsOther = list_ex (\<lambda>g. gr_role g \<noteq> roleId \<and> gr_role g \<in> set ids) grants;
                        (db', removed) = repo_revokeRole adminId roleId tenantId db
                    in if guards \<and> holdsThis \<and> \<not> holdsOther \<and> countActiveSupersHoldingRoles now ids db \<le> 1 then Inl Last_super_admin
                       else if guards \<and> 0 < removed \<and> countActiveSupersHoldingRoles now ids db' < 1 then Inl Last_super_admin
                       else Inr (removed, db', grant_invalidations tenantId))))"

text \<open>Lowering a type revokes the built-in roles above it.\<close>

definition grant_above :: "admin_type \<Rightarrow> rbac \<Rightarrow> grant_row \<Rightarrow> bool" where
  "grant_above t db g = (case findRole (gr_role g) db of Some r \<Rightarrow> role_above t r | None \<Rightarrow> False)"

definition revokeRolesAboveType :: "string \<Rightarrow> admin_type \<Rightarrow> rbac \<Rightarrow> rbac \<times> invalidation list" where
  "revokeRolesAboveType adminId t db =
     (let gone = filter (\<lambda>g. gr_live g \<and> gr_admin g \<and> gr_actor g = adminId \<and> grant_above t db g) (db_grants db)
      in (db\<lparr>db_grants := filter (\<lambda>g. g \<notin> set gone) (db_grants db)\<rparr>, map (\<lambda>g. Scope_of (gr_tenant g)) gone))"

definition lowers_type :: "admin_job \<Rightarrow> bool" where
  "lowers_type j = (case st_type (jb_set j) of Some t \<Rightarrow> ADMIN_TYPE_RANK t < ADMIN_TYPE_RANK (ad_type (jb_row j)) | None \<Rightarrow> False)"

definition finish_job :: "admin_job \<Rightarrow> rbac \<Rightarrow> rbac \<times> invalidation list" where
  "finish_job j db =
     (case jb_kind j of
        Update_job \<Rightarrow>
          (let (db', ivs) = (if lowers_type j then revokeRolesAboveType (jb_id j) (or_else (st_type (jb_set j)) (ad_type (jb_row j))) db else (db, []))
           in (db', ivs @ [Scope_of (ad_scope (jb_row j))]
                 @ (if scope_set (jb_set j) \<noteq> None then [Scope_of (scope_set (jb_set j))] else []) @ [Scope_of None]))
      | Suspend_job \<Rightarrow> (db, if skips_write j then [] else [Scope_of (ad_scope (jb_row j))])
      | Restore_job \<Rightarrow> (db, [Scope_of (ad_scope (jb_row j))]))"

section \<open>A job run to its end\<close>

fun run_checks :: "(string \<Rightarrow> bool) \<Rightarrow> admin_check list \<Rightarrow> admin_job \<Rightarrow> rbac \<Rightarrow> admin_error option" where
  "run_checks tenants [] j db = None"
| "run_checks tenants (c # cs) j db = (case run_check tenants c j db of Some e \<Rightarrow> Some e | None \<Rightarrow> run_checks tenants cs j db)"

definition run_job :: "(string \<Rightarrow> bool) \<Rightarrow> (admin_error, admin_job \<times> admin_check list) res \<Rightarrow> rbac \<Rightarrow> rbac \<times> (admin_error, invalidation list) res" where
  "run_job tenants started db =
     (case started of
        Inl e \<Rightarrow> (db, Inl e)
      | Inr (j, cs) \<Rightarrow>
          (case run_checks tenants cs j db of
             Some e \<Rightarrow> (db, Inl e)
           | None \<Rightarrow>
               (case admin_write j db of
                  Inl e \<Rightarrow> (db, Inl e)
                | Inr db1 \<Rightarrow>
                    (case (if guarded_job j then admin_recount j db1 else (db1, None)) of
                       (db2, Some e) \<Rightarrow> (db2, Inl e)
                     | (db2, None) \<Rightarrow> (case finish_job j db2 of (db3, ivs) \<Rightarrow> (db3, Inr ivs))))))"

definition admin_update :: "(string \<Rightarrow> bool) \<Rightarrow> string \<Rightarrow> admin_patch \<Rightarrow> string option \<Rightarrow> rbac \<Rightarrow> rbac \<times> (admin_error, invalidation list) res" where
  "admin_update tenants i patch by db = run_job tenants (start_update i patch by db) db"

definition admin_suspend :: "string \<Rightarrow> string option \<Rightarrow> rbac \<Rightarrow> rbac \<times> (admin_error, invalidation list) res" where
  "admin_suspend i by db = run_job (\<lambda>_. True) (start_suspend i by db) db"

definition admin_restore :: "string \<Rightarrow> string option \<Rightarrow> rbac \<Rightarrow> rbac \<times> (admin_error, invalidation list) res" where
  "admin_restore i by db = run_job (\<lambda>_. True) (start_restore i by db) db"

definition admin_create ::
  "string option \<Rightarrow> nat option \<Rightarrow> string \<Rightarrow> string \<Rightarrow> string option \<Rightarrow> admin_status \<Rightarrow> string option \<Rightarrow> (string \<Rightarrow> bool) \<Rightarrow> string \<Rightarrow> rbac
     \<Rightarrow> (admin_error, rbac) res" where
  "admin_create email passwordLength typeName name tenantScope status by tenants newId db =
     (let normalizedEmail = to_lower (arg_text email) in
      if normalizedEmail = [] then Inl Admin_bad_request
      else if (case passwordLength of Some n \<Rightarrow> n < 8 | None \<Rightarrow> True) then Inl Admin_bad_request
      else (case map_of ADMIN_TYPES typeName of
          None \<Rightarrow> Inl Admin_bad_request
        | Some t \<Rightarrow>
            if status \<noteq> Pending_admin \<and> status \<noteq> Active_admin then Inl Admin_bad_request
            else (case (if t = Super_type \<or> truthy_text tenantScope then assertMayChangePrivileges by None db else None) of
                Some e \<Rightarrow> Inl e
              | None \<Rightarrow>
                  (case (if truthy_text tenantScope then assertScopeTenantExists tenants tenantScope by else None) of
                     Some e \<Rightarrow> Inl e
                   | None \<Rightarrow>
                       if list_ex (\<lambda>a. ad_email a = normalizedEmail) (db_admins db) then Inl Admin_conflict
                       else Inr (db\<lparr>db_admins := db_admins db @ [\<lparr>ad_id = newId, ad_email = normalizedEmail, ad_type = t, ad_status = status,
                              ad_scope = or_null tenantScope, ad_password = True, ad_name = name\<rparr>]\<rparr>)))))"

section \<open>Interleaved requests\<close>

datatype admin_call = Checking admin_job "admin_check list" | Recounting admin_job | Finishing admin_job

record admin_world =
  aw_db :: rbac
  aw_calls :: "nat \<Rightarrow> admin_call option"

definition set_call :: "nat \<Rightarrow> admin_call option \<Rightarrow> admin_world \<Rightarrow> admin_world" where
  "set_call c x w = w\<lparr>aw_calls := (aw_calls w)(c := x)\<rparr>"

definition job_started :: "(admin_error, admin_job \<times> admin_check list) res \<Rightarrow> rbac \<Rightarrow> bool" where
  "job_started r db \<longleftrightarrow> (\<exists>i patch by. r = start_update i patch by db) \<or> (\<exists>i by. r = start_suspend i by db) \<or> (\<exists>i by. r = start_restore i by db)"

inductive admin_step :: "(string \<Rightarrow> bool) \<Rightarrow> nat \<Rightarrow> admin_world \<Rightarrow> admin_world \<Rightarrow> bool" for tenants :: "string \<Rightarrow> bool" where
  begin_job: "aw_calls w c = None \<Longrightarrow> job_started (Inr (j, cs)) (aw_db w)
    \<Longrightarrow> admin_step tenants c w (set_call c (Some (Checking j cs)) w)"
| check_ok: "aw_calls w c = Some (Checking j (k # ks)) \<Longrightarrow> run_check tenants k j (aw_db w) = None
    \<Longrightarrow> admin_step tenants c w (set_call c (Some (Checking j ks)) w)"
| check_fails: "aw_calls w c = Some (Checking j (k # ks)) \<Longrightarrow> run_check tenants k j (aw_db w) = Some e
    \<Longrightarrow> admin_step tenants c w (set_call c None w)"
| write_refused: "aw_calls w c = Some (Checking j []) \<Longrightarrow> admin_write j (aw_db w) = Inl e
    \<Longrightarrow> admin_step tenants c w (set_call c None w)"
| write_done: "aw_calls w c = Some (Checking j []) \<Longrightarrow> admin_write j (aw_db w) = Inr db'
    \<Longrightarrow> admin_step tenants c w (set_call c (Some (if guarded_job j then Recounting j else Finishing j)) (w\<lparr>aw_db := db'\<rparr>))"
| recount_done: "aw_calls w c = Some (Recounting j) \<Longrightarrow> admin_recount j (aw_db w) = (db', e)
    \<Longrightarrow> admin_step tenants c w (set_call c (if e = None then Some (Finishing j) else None) (w\<lparr>aw_db := db'\<rparr>))"
| finish_done: "aw_calls w c = Some (Finishing j) \<Longrightarrow> finish_job j (aw_db w) = (db', ivs)
    \<Longrightarrow> admin_step tenants c w (set_call c None (w\<lparr>aw_db := db'\<rparr>))"
| create_admin: "admin_create email len ty name scope st by tenants newId (aw_db w) = Inr db' \<Longrightarrow> newId \<notin> ad_id ` set (db_admins (aw_db w))
    \<Longrightarrow> admin_step tenants c w (w\<lparr>aw_db := db'\<rparr>)"
| grant_role: "assignRole now i r t by x (aw_db w) = Inr (db', ivs) \<Longrightarrow> admin_step tenants c w (w\<lparr>aw_db := db'\<rparr>)"
| revoke_role: "revokeRole now i r t by (aw_db w) = Inr (n, db', ivs) \<Longrightarrow> admin_step tenants c w (w\<lparr>aw_db := db'\<rparr>)"

text \<open>
  A job that read no active super writes without a guard. Its write overtakes the guards when it comes late:
  the row is no longer as it was read and the write takes an active super away, or the write sets the type or
  the status of a row whose guarded write still waits for its recount.
\<close>

definition overtakes :: "admin_job \<Rightarrow> admin_world \<Rightarrow> bool" where
  "overtakes j w \<longleftrightarrow> \<not> guarded_job j \<and> \<not> skips_write j \<and>
     ((\<exists>a\<in>set (db_admins (aw_db w)). ad_id a = to_lower (jb_id j)
         \<and> (ad_type a \<noteq> ad_type (jb_row j) \<or> ad_status a \<noteq> ad_status (jb_row j))
         \<and> active_super a \<and> \<not> active_super (apply_set (jb_set j) a))
      \<or> (st_type (jb_set j) \<noteq> None \<or> st_status (jb_set j) \<noteq> None)
         \<and> (\<exists>c' j'. aw_calls w c' = Some (Recounting j') \<and> ad_id (jb_row j') = to_lower (jb_id j)))"

definition overtaken :: "nat \<Rightarrow> admin_world \<Rightarrow> admin_world \<Rightarrow> bool" where
  "overtaken c w w' \<longleftrightarrow> (\<exists>j. aw_calls w c = Some (Checking j []) \<and> aw_calls w' c \<noteq> aw_calls w c \<and> overtakes j w)"

definition all_idle :: "admin_world \<Rightarrow> bool" where
  "all_idle w \<longleftrightarrow> (\<forall>c. aw_calls w c = None) \<and> distinct (map ad_id (db_admins (aw_db w)))"

text \<open>The worlds that any interleaving reaches, each with the history whether a late write overtook the guards.\<close>

inductive admin_reach :: "(string \<Rightarrow> bool) \<Rightarrow> admin_world \<Rightarrow> bool \<Rightarrow> admin_world \<Rightarrow> bool" for tenants :: "string \<Rightarrow> bool" and w0 :: admin_world where
  reach_start: "admin_reach tenants w0 False w0"
| reach_step: "admin_reach tenants w0 late w \<Longrightarrow> admin_step tenants c w w' \<Longrightarrow> late' = (late \<or> overtaken c w w') \<Longrightarrow> admin_reach tenants w0 late' w'"

section \<open>The last super administrator\<close>

definition set_fits :: "job_kind \<Rightarrow> admin_set \<Rightarrow> bool" where
  "set_fits k s \<longleftrightarrow> (case k of Update_job \<Rightarrow> st_status s = None | Suspend_job \<Rightarrow> s = status_set Suspended_admin | Restore_job \<Rightarrow> s = status_set Active_admin)"

definition job_ok :: "admin_job \<Rightarrow> bool" where
  "job_ok j \<longleftrightarrow> ad_id (jb_row j) = to_lower (jb_id j) \<and> set_fits (jb_kind j) (jb_set j)"

fun job_of :: "admin_call \<Rightarrow> admin_job" where
  "job_of (Checking j ks) = j" | "job_of (Recounting j) = j" | "job_of (Finishing j) = j"

text \<open>What a guarded write leaves: its row is no active super, and undoing it makes it one again.\<close>

definition taken :: "admin_job \<Rightarrow> rbac \<Rightarrow> bool" where
  "taken j db \<longleftrightarrow> (\<exists>a\<in>set (db_admins db). ad_id a = ad_id (jb_row j)
     \<and> ad_type a = or_else (st_type (jb_set j)) Super_type \<and> ad_status a = or_else (st_status (jb_set j)) Active_admin)"

definition has_super :: "rbac \<Rightarrow> bool" where
  "has_super db \<longleftrightarrow> (\<exists>a\<in>set (db_admins db). active_super a)"

definition recounting :: "admin_world \<Rightarrow> (nat \<times> admin_job) set" where
  "recounting w = {(c, j). aw_calls w c = Some (Recounting j)}"

definition super_inv :: "rbac \<Rightarrow> (nat \<times> admin_job) set \<Rightarrow> bool" where
  "super_inv db R \<longleftrightarrow> distinct (map ad_id (db_admins db)) \<and> (\<forall>(c, j)\<in>R. job_ok j \<and> guarded_job j \<and> taken j db)
     \<and> inj_on (\<lambda>(c, j). ad_id (jb_row j)) R \<and> (has_super db \<or> R \<noteq> {})"

definition admin_inv :: "admin_world \<Rightarrow> bool" where
  "admin_inv w \<longleftrightarrow> (\<forall>c x. aw_calls w c = Some x \<longrightarrow> job_ok (job_of x)) \<and> super_inv (aw_db w) (recounting w)"

lemma findAdmin_Some: "findAdmin i db = Some a \<Longrightarrow> a \<in> set (db_admins db) \<and> ad_id a = to_lower i"
  by (auto simp: findAdmin_def find_Some_iff)

lemma apply_set_id [simp]: "ad_id (apply_set s a) = ad_id a"
  by (simp add: apply_set_def)

lemma apply_set_fields: "ad_type (apply_set s a) = or_else (st_type s) (ad_type a)" "ad_status (apply_set s a) = or_else (st_status s) (ad_status a)"
  by (simp_all add: apply_set_def)

lemma repo_update_ids [simp]: "map ad_id (db_admins (admin_repo_update i s db)) = map ad_id (db_admins db)"
  by (auto simp: admin_repo_update_def)

lemma repo_update_mem: "a \<in> set (db_admins (admin_repo_update i s db)) \<longleftrightarrow>
    (\<exists>b\<in>set (db_admins db). a = (if ad_id b = to_lower i then apply_set s b else b))"
  by (auto simp: admin_repo_update_def)

lemma one_row: "distinct (map ad_id (db_admins db)) \<Longrightarrow> a \<in> set (db_admins db) \<Longrightarrow> b \<in> set (db_admins db) \<Longrightarrow> ad_id a = ad_id b \<Longrightarrow> a = b"
  by (auto simp: distinct_map inj_on_def)

lemma countActiveSupers_pos: "0 < countActiveSupers db \<longleftrightarrow> has_super db"
  by (auto simp: countActiveSupers_def has_super_def filter_empty_conv length_greater_0_conv)

lemma guarded_not_super:
  assumes "job_ok j" "guarded_job j"
  shows "or_else (st_type (jb_set j)) Super_type \<noteq> Super_type \<or> or_else (st_status (jb_set j)) Active_admin \<noteq> Active_admin"
  using assms by (cases "jb_kind j") (auto simp: job_ok_def set_fits_def guarded_job_def or_else_def status_set_def)

lemma taken_not_super: "distinct (map ad_id (db_admins db)) \<Longrightarrow> job_ok j \<Longrightarrow> guarded_job j \<Longrightarrow> taken j db \<Longrightarrow>
    a \<in> set (db_admins db) \<Longrightarrow> ad_id a = ad_id (jb_row j) \<Longrightarrow> \<not> active_super a"
  using guarded_not_super[of j] one_row[of db a] unfolding taken_def active_super_def by metis

lemma untouched: "a \<in> set (db_admins db) \<Longrightarrow> ad_id a \<noteq> to_lower i \<Longrightarrow> a \<in> set (db_admins (admin_repo_update i s db))"
  unfolding repo_update_mem by (rule bexI[of _ a]) simp_all

lemma taken_other: "taken j db \<Longrightarrow> ad_id (jb_row j) \<noteq> to_lower i \<Longrightarrow> taken j (admin_repo_update i s db)"
  unfolding taken_def using untouched by metis

lemma taken_unset:
  assumes "taken j db" and "st_type s = None" and "st_status s = None"
  shows "taken j (admin_repo_update i s db)"
proof -
  obtain a where a: "a \<in> set (db_admins db)" "ad_id a = ad_id (jb_row j)" "ad_type a = or_else (st_type (jb_set j)) Super_type"
    "ad_status a = or_else (st_status (jb_set j)) Active_admin" using assms(1) unfolding taken_def by blast
  let ?b = "if ad_id a = to_lower i then apply_set s a else a"
  have "?b \<in> set (db_admins (admin_repo_update i s db))" unfolding repo_update_mem by (rule bexI[OF refl a(1)])
  moreover have "ad_id ?b = ad_id a" "ad_type ?b = ad_type a" "ad_status ?b = ad_status a"
    using assms(2,3) by (simp_all add: apply_set_fields or_else_def)
  ultimately show ?thesis using a(2-4) unfolding taken_def by (intro bexI[of _ ?b]) (simp_all only: simp_thms)
qed

lemma super_inv_plain:
  assumes inv: "super_inv db R" and apart: "\<forall>(c, j)\<in>R. ad_id (jb_row j) \<noteq> to_lower i \<or> st_type s = None \<and> st_status s = None"
    and keeps: "\<forall>a\<in>set (db_admins db). ad_id a = to_lower i \<longrightarrow> active_super a \<longrightarrow> active_super (apply_set s a)"
  shows "super_inv (admin_repo_update i s db) R"
proof -
  have "has_super (admin_repo_update i s db)" if "has_super db"
  proof -
    obtain a where a: "a \<in> set (db_admins db)" "active_super a" using \<open>has_super db\<close> by (auto simp: has_super_def)
    let ?b = "if ad_id a = to_lower i then apply_set s a else a"
    have "active_super ?b" using keeps a by simp
    moreover have "?b \<in> set (db_admins (admin_repo_update i s db))" unfolding repo_update_mem by (rule bexI[OF refl a(1)])
    ultimately show ?thesis unfolding has_super_def by (rule bexI)
  qed
  moreover have "\<forall>(c, j)\<in>R. job_ok j \<and> guarded_job j \<and> taken j (admin_repo_update i s db)"
    using inv apart taken_other[of _ db i s] taken_unset[of _ db s i] unfolding super_inv_def by blast
  ultimately show ?thesis using inv by (auto simp: super_inv_def)
qed

lemma match_taken:
  assumes "updateIfMatch (ad_id (jb_row j)) (Some Super_type) (Some Active_admin) (jb_set j) db = Some db'" "job_ok j"
  shows "db' = admin_repo_update (ad_id (jb_row j)) (jb_set j) db \<and> taken j db'
    \<and> (\<exists>a\<in>set (db_admins db). ad_id a = ad_id (jb_row j) \<and> active_super a)"
proof -
  obtain a where a: "findAdmin (ad_id (jb_row j)) db = Some a" "row_matches (Some Super_type) (Some Active_admin) a"
    and db': "db' = admin_repo_update (ad_id (jb_row j)) (jb_set j) db"
    using assms(1) by (auto simp: updateIfMatch_def split: option.splits if_splits)
  have low: "to_lower (ad_id (jb_row j)) = ad_id (jb_row j)" using assms(2) by (simp add: job_ok_def)
  have m: "a \<in> set (db_admins db)" "ad_id a = ad_id (jb_row j)" using findAdmin_Some[OF a(1)] low by simp_all
  have ty: "ad_type a = Super_type" "ad_status a = Active_admin" using a(2) by (simp_all add: row_matches_def or_else_def)
  have "apply_set (jb_set j) a \<in> set (db_admins db')"
    unfolding db' repo_update_mem by (rule bexI[OF _ m(1)]) (simp add: m(2) low)
  then have "taken j db'" unfolding taken_def using m(2) ty by (intro bexI) (simp_all add: apply_set_fields)
  then show ?thesis using db' m ty by (auto simp: active_super_def)
qed

lemma super_inv_guard:
  assumes inv: "super_inv db R" and j: "job_ok j" "guarded_job j"
    and u: "updateIfMatch (ad_id (jb_row j)) (Some Super_type) (Some Active_admin) (jb_set j) db = Some db'"
  shows "super_inv db' (insert (c, j) R)"
proof -
  have db': "db' = admin_repo_update (ad_id (jb_row j)) (jb_set j) db" and tk: "taken j db'"
    and ex: "\<exists>a\<in>set (db_admins db). ad_id a = ad_id (jb_row j) \<and> active_super a" using match_taken[OF u j(1)] by blast+
  have low: "to_lower (ad_id (jb_row j)) = ad_id (jb_row j)" using j(1) by (simp add: job_ok_def)
  have dist: "distinct (map ad_id (db_admins db))" using inv by (simp add: super_inv_def)
  have apart: "ad_id (jb_row j') \<noteq> ad_id (jb_row j)" if "(c', j') \<in> R" for c' j'
    using inv that taken_not_super[OF dist] ex unfolding super_inv_def by fastforce
  have "\<forall>(c', j')\<in>insert (c, j) R. job_ok j' \<and> guarded_job j' \<and> taken j' db'"
    using inv j tk apart taken_other[of _ db "ad_id (jb_row j)" "jb_set j"] low unfolding super_inv_def db' by fastforce
  moreover have "inj_on (\<lambda>(c, j). ad_id (jb_row j)) (insert (c, j) R)"
    using inv apart unfolding super_inv_def by (subst inj_on_insert) fastforce
  ultimately show ?thesis using dist by (simp add: super_inv_def db')
qed

lemma super_inv_recount:
  assumes inv: "super_inv db R" and r: "(c, j) \<in> R" and rc: "admin_recount j db = (db', e)"
  shows "super_inv db' (R - {(c, j)})"
proof -
  have j: "job_ok j" "guarded_job j" "taken j db" and dist: "distinct (map ad_id (db_admins db))"
    using inv r by (auto simp: super_inv_def)
  have inj: "inj_on (\<lambda>(c, j). ad_id (jb_row j)) (R - {(c, j)})" using inv by (auto simp: super_inv_def intro: inj_on_diff)
  have apart: "ad_id (jb_row j') \<noteq> ad_id (jb_row j)" if "(c', j') \<in> R - {(c, j)}" for c' j'
  proof
    assume eq: "ad_id (jb_row j') = ad_id (jb_row j)"
    have i: "inj_on (\<lambda>(c, j). ad_id (jb_row j)) R" using inv by (simp add: super_inv_def)
    have "(c', j') = (c, j)" by (rule inj_onD[OF i]) (use that r eq in auto)
    then show False using that by simp
  qed
  show ?thesis
  proof (cases "countActiveSupers db < 1")
    case False
    then have "db' = db" "has_super db" using rc countActiveSupers_pos[of db] by (auto simp: admin_recount_def)
    then show ?thesis using inv inj by (auto simp: super_inv_def)
  next
    case True
    have low: "to_lower (ad_id (jb_row j)) = ad_id (jb_row j)" using j(1) by (simp add: job_ok_def)
    obtain a where a: "a \<in> set (db_admins db)" "ad_id a = ad_id (jb_row j)"
      "ad_type a = or_else (st_type (jb_set j)) Super_type" "ad_status a = or_else (st_status (jb_set j)) Active_admin"
      using j(3) unfolding taken_def by blast
    obtain b where b: "findAdmin (ad_id (jb_row j)) db = Some b"
    proof (cases "findAdmin (ad_id (jb_row j)) db")
      case None
      then show ?thesis using a(1,2) low by (auto simp: findAdmin_def find_None_iff)
    qed auto
    have "b = a" using findAdmin_Some[OF b] one_row[OF dist _ a(1)] a(2) low by simp
    then have "row_matches (st_type (jb_set j)) (st_status (jb_set j)) b"
      using a(3,4) by (simp add: row_matches_def or_else_def split: option.splits)
    then have db': "db' = admin_repo_update (ad_id (jb_row j)) (undo_set j) db"
      using rc True b by (simp add: admin_recount_def updateIfMatch_def)
    have "apply_set (undo_set j) a \<in> set (db_admins db')"
      unfolding db' repo_update_mem by (rule bexI[OF _ a(1)]) (simp add: a(2) low)
    moreover have "active_super (apply_set (undo_set j) a)"
      using j(2) a(3,4) by (auto simp: active_super_def apply_set_fields undo_set_def or_else_def guarded_job_def split: option.splits)
    ultimately have "has_super db'" by (auto simp: has_super_def)
    moreover have "\<forall>(c', j')\<in>R - {(c, j)}. job_ok j' \<and> guarded_job j' \<and> taken j' db'"
      using inv apart taken_other[of _ db "ad_id (jb_row j)" "undo_set j"] low unfolding super_inv_def db' by fastforce
    ultimately show ?thesis using inj dist by (simp add: super_inv_def db')
  qed
qed

lemma super_inv_same: "super_inv db R \<Longrightarrow> db_admins db' = db_admins db \<Longrightarrow> super_inv db' R"
  by (simp add: super_inv_def taken_def has_super_def)

lemma super_inv_create: "super_inv db R \<Longrightarrow> db_admins db' = db_admins db @ [a] \<Longrightarrow> ad_id a \<notin> ad_id ` set (db_admins db) \<Longrightarrow> super_inv db' R"
  unfolding super_inv_def taken_def has_super_def by fastforce

lemma recounting_set_call:
  "recounting (set_call c x w) = (recounting w - {c} \<times> UNIV) \<union> (case x of Some (Recounting j) \<Rightarrow> {(c, j)} | _ \<Rightarrow> {})"
  by (auto simp: recounting_def set_call_def split: option.splits admin_call.splits if_splits)

lemma recounting_db [simp]: "recounting (w\<lparr>aw_db := db\<rparr>) = recounting w"
  by (simp add: recounting_def)

lemma set_call_sel [simp]: "aw_db (set_call c x w) = aw_db w" "aw_calls (set_call c x w) = (aw_calls w)(c := x)"
  by (simp_all add: set_call_def)


lemma start_update_ok: "start_update i patch by db = Inr (j, cs) \<Longrightarrow> job_ok j"
proof (cases "findAdmin i db")
  case (Some a)
  then show "start_update i patch by db = Inr (j, cs) \<Longrightarrow> job_ok j"
    using findAdmin_Some[OF Some] by (auto simp: start_update_def update_set_def job_ok_def set_fits_def split: sum.splits if_splits)
qed (simp add: start_update_def)

lemma start_status_ok: "start_suspend i by db = Inr (j, cs) \<Longrightarrow> job_ok j" "start_restore i by db = Inr (j, cs) \<Longrightarrow> job_ok j"
  using findAdmin_Some[of i db] by (auto simp: start_suspend_def start_restore_def job_ok_def set_fits_def split: option.splits)

lemma started_ok: "job_started (Inr (j, cs)) db \<Longrightarrow> job_ok j"
  unfolding job_started_def using start_update_ok start_status_ok by metis

lemma plain_keeps_super:
  assumes "job_ok j" "\<not> guarded_job j" "ad_type a = ad_type (jb_row j)" "ad_status a = ad_status (jb_row j)" "active_super a"
  shows "active_super (apply_set (jb_set j) a) \<or> skips_write j"
  using assms by (cases "jb_kind j")
    (auto simp: job_ok_def set_fits_def guarded_job_def active_super_def apply_set_fields or_else_def status_set_def split: option.splits)

lemma revoke_admins: "revokeRole now i r t by db = Inr (n, db', ivs) \<Longrightarrow> db_admins db' = db_admins db"
  by (auto simp: revokeRole_def Let_def repo_revokeRole_def split: option.splits prod.splits if_splits)

lemma assign_admins: "assignRole now i r t by x db = Inr (db', ivs) \<Longrightarrow> db_admins db' = db_admins db"
  by (auto simp: assignRole_def repo_assignRole_def split: option.splits if_splits)

lemma finish_admins: "finish_job j db = (db', ivs) \<Longrightarrow> db_admins db' = db_admins db"
  by (auto simp: finish_job_def revokeRolesAboveType_def Let_def split: job_kind.splits if_splits prod.splits)

lemma create_admins:
  "admin_create email len ty name scope st by tenants newId db = Inr db' \<Longrightarrow> \<exists>a. db_admins db' = db_admins db @ [a] \<and> ad_id a = newId"
  by (auto simp: admin_create_def Let_def split: option.splits if_splits)

lemma admin_inv_set:
  assumes "admin_inv w" "\<forall>j. aw_calls w c \<noteq> Some (Recounting j)" "\<forall>j. y \<noteq> Some (Recounting j)"
    and "\<forall>x. y = Some x \<longrightarrow> job_ok (job_of x)" "super_inv db' (recounting w)"
  shows "admin_inv (set_call c y (w\<lparr>aw_db := db'\<rparr>))"
proof -
  have "recounting (set_call c y (w\<lparr>aw_db := db'\<rparr>)) = recounting w"
    using assms(2,3) by (auto simp: recounting_def set_call_def split: if_splits)
  then show ?thesis using assms by (auto simp: admin_inv_def)
qed

lemma admin_inv_call:
  "admin_inv w \<Longrightarrow> \<forall>j. aw_calls w c \<noteq> Some (Recounting j) \<Longrightarrow> \<forall>j. y \<noteq> Some (Recounting j)
    \<Longrightarrow> \<forall>x. y = Some x \<longrightarrow> job_ok (job_of x) \<Longrightarrow> admin_inv (set_call c y w)"
  using admin_inv_set[of w c y "aw_db w"] by (simp add: admin_inv_def)

lemma call_job: "admin_inv w \<Longrightarrow> aw_calls w c = Some x \<Longrightarrow> job_ok (job_of x)"
  by (simp add: admin_inv_def)

lemma admin_inv_write:
  assumes call: "aw_calls w c = Some (Checking j [])" and wr: "admin_write j (aw_db w) = Inr db'" and late: "\<not> overtakes j w" and inv: "admin_inv w"
  shows "admin_inv (set_call c (Some (if guarded_job j then Recounting j else Finishing j)) (w\<lparr>aw_db := db'\<rparr>))"
proof -
  have j: "job_ok j" using call_job[OF inv call] by simp
  have si: "super_inv (aw_db w) (recounting w)" using inv by (simp add: admin_inv_def)
  have quiet: "\<forall>j. aw_calls w c \<noteq> Some (Recounting j)" using call by simp
  show ?thesis
  proof (cases "guarded_job j")
    case True
    then have "updateIfMatch (ad_id (jb_row j)) (Some Super_type) (Some Active_admin) (jb_set j) (aw_db w) = Some db'"
      using wr by (simp add: admin_write_def split: option.splits)
    then have "super_inv db' (insert (c, j) (recounting w))" by (rule super_inv_guard[OF si j True])
    moreover have "recounting (set_call c (Some (Recounting j)) (w\<lparr>aw_db := db'\<rparr>)) = insert (c, j) (recounting w)"
      using quiet by (auto simp: recounting_def set_call_def split: if_splits)
    ultimately show ?thesis using True inv j by (auto simp: admin_inv_def)
  next
    case plain: False
    have "super_inv db' (recounting w)"
    proof (cases "skips_write j")
      case True
      then show ?thesis using wr plain si by (simp add: admin_write_def)
    next
      case False
      then have db': "db' = admin_repo_update (jb_id j) (jb_set j) (aw_db w)" using wr plain by (simp add: admin_write_def)
      have nl: "\<not> (\<exists>a\<in>set (db_admins (aw_db w)). ad_id a = to_lower (jb_id j)
            \<and> (ad_type a \<noteq> ad_type (jb_row j) \<or> ad_status a \<noteq> ad_status (jb_row j))
            \<and> active_super a \<and> \<not> active_super (apply_set (jb_set j) a))"
          "\<not> ((st_type (jb_set j) \<noteq> None \<or> st_status (jb_set j) \<noteq> None)
            \<and> (\<exists>c' j'. aw_calls w c' = Some (Recounting j') \<and> ad_id (jb_row j') = to_lower (jb_id j)))"
        using late plain False unfolding overtakes_def by blast+
      have "\<forall>(c', j')\<in>recounting w. ad_id (jb_row j') \<noteq> to_lower (jb_id j) \<or> st_type (jb_set j) = None \<and> st_status (jb_set j) = None"
        using nl(2) unfolding recounting_def by blast
      moreover have "active_super (apply_set (jb_set j) a)"
        if "a \<in> set (db_admins (aw_db w))" "ad_id a = to_lower (jb_id j)" "active_super a" for a
        using nl(1) that plain_keeps_super[OF j plain _ _ that(3)] False by blast
      ultimately show ?thesis unfolding db' by (intro super_inv_plain[OF si]) auto
    qed
    then show ?thesis using plain quiet j inv by (simp add: admin_inv_set)
  qed
qed

lemma admin_inv_recount:
  assumes call: "aw_calls w c = Some (Recounting j)" and rc: "admin_recount j (aw_db w) = (db', e)" and inv: "admin_inv w"
  shows "admin_inv (set_call c (if e = None then Some (Finishing j) else None) (w\<lparr>aw_db := db'\<rparr>))"
proof -
  have si: "super_inv (aw_db w) (recounting w)" and r: "(c, j) \<in> recounting w" using inv call by (simp_all add: admin_inv_def recounting_def)
  have "recounting (set_call c (if e = None then Some (Finishing j) else None) (w\<lparr>aw_db := db'\<rparr>)) = recounting w - {(c, j)}"
    using call by (auto simp: recounting_def set_call_def split: if_splits)
  then show ?thesis using super_inv_recount[OF si r rc] call_job[OF inv call] inv by (auto simp: admin_inv_def)
qed

lemma admin_inv_db:
  "admin_inv w \<Longrightarrow> super_inv db' (recounting w) \<Longrightarrow> admin_inv (w\<lparr>aw_db := db'\<rparr>)"
  by (simp add: admin_inv_def)

lemma admin_inv_step: "admin_step tenants c w w' \<Longrightarrow> \<not> overtaken c w w' \<Longrightarrow> admin_inv w \<Longrightarrow> admin_inv w'"
proof (induction rule: admin_step.induct)
  case (begin_job w c j cs)
  then show ?case using started_ok by (intro admin_inv_call) auto
next
  case (check_ok w c j k ks)
  then show ?case using call_job[OF check_ok.prems(2) check_ok.hyps(1)] by (intro admin_inv_call) auto
next
  case (write_done w c j db')
  then have "\<not> overtakes j w" by (cases "guarded_job j") (auto simp: overtaken_def)
  then show ?case using write_done by (intro admin_inv_write)
next
  case (recount_done w c j db' e)
  then show ?case by (intro admin_inv_recount)
next
  case (finish_done w c j db' ivs)
  then show ?case using super_inv_same[OF _ finish_admins] by (intro admin_inv_set) (auto simp: admin_inv_def)
next
  case (create_admin email len ty name scope st "by" newId w db' c)
  obtain a where "db_admins db' = db_admins (aw_db w) @ [a]" "ad_id a = newId" using create_admins[OF create_admin.hyps(1)] by blast
  then show ?case using create_admin super_inv_create by (intro admin_inv_db) (auto simp: admin_inv_def)
next
  case (grant_role now i r t "by" x w db' ivs c)
  then show ?case using super_inv_same[OF _ assign_admins] by (intro admin_inv_db) (auto simp: admin_inv_def)
next
  case (revoke_role now i r t "by" w n db' ivs c)
  then show ?case using super_inv_same[OF _ revoke_admins] by (intro admin_inv_db) (auto simp: admin_inv_def)
qed (auto intro: admin_inv_call)

lemma admin_inv_reach: "admin_reach tenants w0 late w \<Longrightarrow> all_idle w0 \<Longrightarrow> has_super (aw_db w0) \<Longrightarrow> late \<or> admin_inv w"
proof (induction rule: admin_reach.induct)
  case reach_start
  then have "recounting w0 = {}" by (simp add: all_idle_def recounting_def)
  then show ?case using reach_start by (simp add: admin_inv_def super_inv_def all_idle_def)
next
  case (reach_step late w c w' late')
  then show ?case using admin_inv_step by blast
qed

section \<open>The type ceiling\<close>

text \<open>No administrator holds a built-in role above their type. Grants name administrators by their stored id.\<close>

definition ceiling_ok :: "rbac \<Rightarrow> bool" where
  "ceiling_ok db \<longleftrightarrow> (\<forall>g\<in>set (db_grants db). gr_admin g \<longrightarrow> gr_live g \<longrightarrow>
     (\<forall>a\<in>set (db_admins db). ad_id a = gr_actor g \<longrightarrow> \<not> grant_above (ad_type a) db g))"

lemma grant_above_mono: "grant_above t db g \<Longrightarrow> ADMIN_TYPE_RANK t' \<le> ADMIN_TYPE_RANK t \<Longrightarrow> grant_above t' db g"
  by (auto simp: grant_above_def role_above_def split: option.splits)

lemma grant_above_roles: "db_roles db' = db_roles db \<Longrightarrow> grant_above t db' g = grant_above t db g"
  by (simp add: grant_above_def findRole_def)

definition lower_ids :: "rbac \<Rightarrow> bool" where
  "lower_ids db \<longleftrightarrow> distinct (map ad_id (db_admins db)) \<and> (\<forall>a\<in>set (db_admins db). to_lower (ad_id a) = ad_id a)"

lemma lower_ids_distinct: "lower_ids db \<Longrightarrow> distinct (map ad_id (db_admins db))"
  by (simp add: lower_ids_def)

lemma lower_ids_same:
  assumes "lower_ids db" and "map ad_id (db_admins db') = map ad_id (db_admins db)"
  shows "lower_ids db'"
proof -
  have e: "ad_id ` set (db_admins db') = ad_id ` set (db_admins db)" using arg_cong[OF assms(2), of set] by simp
  have "to_lower (ad_id a) = ad_id a" if "a \<in> set (db_admins db')" for a
  proof -
    have "ad_id a \<in> ad_id ` set (db_admins db)" using e that by blast
    then show ?thesis using assms(1) by (auto simp: lower_ids_def)
  qed
  then show ?thesis using assms by (simp add: lower_ids_def)
qed

lemma ceiling_assign:
  assumes c: "ceiling_ok db" and l: "lower_ids db"
    and a: "assignRole now i r t by x db = Inr (db', ivs)"
  shows "ceiling_ok db'"
proof -
  obtain a0 where a0: "findAdmin i db = Some a0" using a by (cases "findAdmin i db") (auto simp: assignRole_def)
  obtain r0 where r0: "findRole r db = Some r0" using a a0 by (cases "findRole r db") (auto simp: assignRole_def)
  have ok: "assertGrantable a0 r0 t = None" and db': "db' = repo_assignRole i r t (Option.bind x id) db"
    using a a0 r0 by (auto simp: assignRole_def split: option.splits if_splits)
  have na: "\<not> role_above (ad_type a0) r0" using ok by (auto simp: assertGrantable_def split: if_splits)
  have same: "db_admins db' = db_admins db" "db_roles db' = db_roles db" by (simp_all add: db' repo_assignRole_def)
  have "\<not> grant_above (ad_type b) db g"
    if "g \<in> set (db_grants db')" "gr_admin g" "gr_live g" "b \<in> set (db_admins db)" "ad_id b = gr_actor g" for g b
  proof (cases "g \<in> set (db_grants db)")
    case True
    then show ?thesis using c that by (simp add: ceiling_ok_def)
  next
    case False
    then have g: "gr_actor g = i" "gr_role g = r" using that(1) by (auto simp: db' repo_assignRole_def split: if_splits)
    have "to_lower (ad_id b) = ad_id b" using l that(4) by (simp add: lower_ids_def)
    then have "b = a0" using findAdmin_Some[OF a0] g(1) that(4,5) one_row[OF lower_ids_distinct[OF l], of b a0] by simp
    then show ?thesis using na r0 g(2) by (simp add: grant_above_def)
  qed
  then show ?thesis unfolding ceiling_ok_def same using grant_above_roles[OF same(2)] by simp
qed

lemma ceiling_fewer:
  "ceiling_ok db \<Longrightarrow> set (db_grants db') \<subseteq> set (db_grants db) \<Longrightarrow> db_admins db' = db_admins db \<Longrightarrow> db_roles db' = db_roles db \<Longrightarrow> ceiling_ok db'"
  using grant_above_roles[of db' db] unfolding ceiling_ok_def by fastforce

lemma revoke_grants:
  assumes "revokeRole now i r t by db = Inr (n, db', ivs)"
  shows "set (db_grants db') \<subseteq> set (db_grants db) \<and> db_roles db' = db_roles db"
proof -
  have "set (db_grants (fst (repo_revokeRole i r t db))) \<subseteq> set (db_grants db) \<and> db_roles (fst (repo_revokeRole i r t db)) = db_roles db"
    by (auto simp: repo_revokeRole_def extract_Some_iff split: option.splits)
  then show ?thesis using assms by (auto simp: revokeRole_def Let_def split: option.splits prod.splits if_splits)
qed

text \<open>A job run to its end leaves the row it names with its patch, or the document as it was.\<close>

lemma ceiling_new_types:
  assumes c: "ceiling_ok db" and g: "db_grants db' = db_grants db" "db_roles db' = db_roles db"
    and up: "\<forall>a'\<in>set (db_admins db'). \<exists>a\<in>set (db_admins db). ad_id a = ad_id a' \<and> ADMIN_TYPE_RANK (ad_type a) \<le> ADMIN_TYPE_RANK (ad_type a')"
  shows "ceiling_ok db'"
  unfolding ceiling_ok_def g(1)
proof (intro ballI impI)
  fix gg a'
  assume gg: "gg \<in> set (db_grants db)" "gr_admin gg" "gr_live gg" "a' \<in> set (db_admins db')" "ad_id a' = gr_actor gg"
  obtain a where a: "a \<in> set (db_admins db)" "ad_id a = ad_id a'" "ADMIN_TYPE_RANK (ad_type a) \<le> ADMIN_TYPE_RANK (ad_type a')"
    using up gg(4) by blast
  have "\<not> grant_above (ad_type a) db gg" using c gg a(1,2) by (simp add: ceiling_ok_def)
  then show "\<not> grant_above (ad_type a') db' gg"
    using grant_above_mono[of "ad_type a'" db gg "ad_type a"] a(3) grant_above_roles[OF g(2)] by blast
qed

lemma undo_apply: "apply_set (undo_set j) (apply_set (jb_set j) (jb_row j)) = jb_row j"
  by (cases "st_type (jb_set j)"; cases "st_status (jb_set j)"; cases "st_scope (jb_set j)"; cases "st_name (jb_set j)")
    (simp_all add: apply_set_def undo_set_def or_else_def)

lemma repo_update_undo:
  assumes "distinct (map ad_id (db_admins db))" "jb_row j \<in> set (db_admins db)" "ad_id (jb_row j) = to_lower i"
  shows "admin_repo_update i (undo_set j) (admin_repo_update i (jb_set j) db) = db"
proof -
  have "map ((\<lambda>a. if ad_id a = to_lower i then apply_set (undo_set j) a else a) \<circ> (\<lambda>a. if ad_id a = to_lower i then apply_set (jb_set j) a else a)) (db_admins db) = db_admins db"
  proof (rule map_idI)
    fix a
    assume a: "a \<in> set (db_admins db)"
    show "((\<lambda>a. if ad_id a = to_lower i then apply_set (undo_set j) a else a) \<circ> (\<lambda>a. if ad_id a = to_lower i then apply_set (jb_set j) a else a)) a = a"
      using one_row[OF assms(1) a assms(2)] assms(3) undo_apply[of j] by (cases "ad_id a = to_lower i") auto
  qed
  then show ?thesis by (simp add: admin_repo_update_def)
qed

text \<open>A job that runs to its end leaves the collection as it was, or applies its write and then its clean-up.\<close>

lemma run_job_shape:
  assumes d: "distinct (map ad_id (db_admins db))" and r: "run_job tenants (Inr (j, cs)) db = (db', res)"
    and j: "jb_row j \<in> set (db_admins db)" "ad_id (jb_row j) = to_lower (jb_id j)"
  shows "db' = db \<or> db' = fst (finish_job j db) \<and> skips_write j \<or> db' = fst (finish_job j (admin_repo_update (jb_id j) (jb_set j) db))"
proof (cases "guarded_job j")
  case g: True
  have low: "to_lower (ad_id (jb_row j)) = to_lower (jb_id j)" using j(2) by simp
  have upd: "admin_repo_update (ad_id (jb_row j)) s x = admin_repo_update (jb_id j) s x" for s x by (simp add: admin_repo_update_def low)
  let ?db1 = "admin_repo_update (jb_id j) (jb_set j) db"
  have u: "updateIfMatch (ad_id (jb_row j)) a b s x \<in> {None, Some (admin_repo_update (jb_id j) s x)}" for a b s x
    by (simp add: updateIfMatch_def upd split: option.splits)
  have w: "admin_write j db = Inl Admin_conflict \<or> admin_write j db = Inr ?db1"
    using u[of "Some Super_type" "Some Active_admin" "jb_set j" db] g by (auto simp: admin_write_def)
  have rc: "admin_recount j ?db1 \<in> {(?db1, Some Last_super_admin), (db, Some Last_super_admin), (?db1, None)}"
    using u[of "st_type (jb_set j)" "st_status (jb_set j)" "undo_set j" ?db1] repo_update_undo[OF d j]
    by (auto simp: admin_recount_def split: option.splits)
  show ?thesis
  proof (cases "updateIfMatch (ad_id (jb_row j)) (st_type (jb_set j)) (st_status (jb_set j)) (undo_set j) ?db1")
    case None
    have "apply_set (jb_set j) (jb_row j) \<in> set (db_admins ?db1)" unfolding repo_update_mem by (rule bexI[OF _ j(1)]) (simp add: j(2))
    then have "\<exists>b. findAdmin (ad_id (jb_row j)) ?db1 = Some b"
      using low j(2) by (cases "findAdmin (ad_id (jb_row j)) ?db1") (auto simp: findAdmin_def find_None_iff)
    then obtain b where b: "findAdmin (ad_id (jb_row j)) ?db1 = Some b" by blast
    have "distinct (map ad_id (db_admins ?db1))" using d by simp
    then have "b = apply_set (jb_set j) (jb_row j)"
      using one_row[of ?db1 b] findAdmin_Some[OF b] \<open>apply_set (jb_set j) (jb_row j) \<in> set (db_admins ?db1)\<close> low j(2) by simp
    then have "row_matches (st_type (jb_set j)) (st_status (jb_set j)) b"
      by (simp add: row_matches_def apply_set_fields or_else_def split: option.splits)
    then show ?thesis using None b by (simp add: updateIfMatch_def)
  next
    case (Some x)
    then have "admin_recount j ?db1 \<in> {(db, Some Last_super_admin), (?db1, None)}"
      using u[of "st_type (jb_set j)" "st_status (jb_set j)" "undo_set j" ?db1] repo_update_undo[OF d j]
      by (auto simp: admin_recount_def)
    then show ?thesis using r w g by (auto simp: run_job_def split: option.splits sum.splits prod.splits)
  qed
next
  case False
  then show ?thesis using r by (auto simp: run_job_def admin_write_def split: option.splits prod.splits if_splits)
qed

lemma update_rows:
  "(\<And>b. b \<in> set (db_admins db) \<Longrightarrow> P (if ad_id b = to_lower i then apply_set s b else b)) \<Longrightarrow>
   \<forall>a'\<in>set (db_admins (admin_repo_update i s db)). P a'"
  unfolding Ball_def repo_update_mem by blast

lemma ceiling_revoked:
  assumes c: "ceiling_ok db" and g: "db_grants db' = filter (\<lambda>g. \<not> (g \<in> set (db_grants db) \<and> gr_live g \<and> gr_admin g \<and> gr_actor g = i \<and> grant_above t db g)) (db_grants db)"
    and same: "db_roles db' = db_roles db"
    and up: "\<forall>a'\<in>set (db_admins db'). if ad_id a' = i then ad_type a' = t else a' \<in> set (db_admins db)"
  shows "ceiling_ok db'"
  using c up grant_above_roles[OF same] unfolding ceiling_ok_def g by (auto split: if_splits)

text \<open>An update that lowers a type finds the administrator whatever the case of the id it is given, but looks for
  their grants under the id as given.\<close>

definition lowers_by_other_case :: "string \<Rightarrow> admin_patch \<Rightarrow> rbac \<Rightarrow> bool" where
  "lowers_by_other_case i patch db \<longleftrightarrow> to_lower i \<noteq> i
     \<and> (case findAdmin i db of None \<Rightarrow> False
        | Some a \<Rightarrow> (case Option.bind (pt_type patch) (map_of ADMIN_TYPES) of None \<Rightarrow> False
            | Some t \<Rightarrow> ADMIN_TYPE_RANK t < ADMIN_TYPE_RANK (ad_type a)))"

lemma start_lowers:
  assumes "start_update i patch by db = Inr (j, cs)" and "lowers_type j" and "\<not> lowers_by_other_case i patch db"
  shows "to_lower i = i"
proof -
  obtain a where a: "findAdmin i db = Some a" using assms(1) by (cases "findAdmin i db") (auto simp: start_update_def)
  obtain s where s: "update_set patch = Inr s" using assms(1) a by (cases "update_set patch") (auto simp: start_update_def)
  have j: "jb_row j = a" "jb_set j = s" using assms(1) a s by (auto simp: start_update_def)
  have "st_type s = Option.bind (pt_type patch) (map_of ADMIN_TYPES)" using s by (auto simp: update_set_def split: if_splits)
  then show ?thesis using assms(2,3) a j unfolding lowers_type_def lowers_by_other_case_def by (auto split: option.splits)
qed

lemma ceiling_update:
  assumes c: "ceiling_ok db" and d: "distinct (map ad_id (db_admins db))" and i: "\<not> lowers_by_other_case i patch db"
    and u: "admin_update tenants i patch by db = (db', res)"
  shows "ceiling_ok db'"
proof (cases "start_update i patch by db")
  case (Inl e)
  then show ?thesis using u c by (simp add: admin_update_def run_job_def)
next
  case (Inr jc)
  obtain j cs where jc: "jc = (j, cs)" by (cases jc)
  have s: "start_update i patch by db = Inr (j, cs)" using Inr jc by simp
  have shape: "jb_id j = i" "jb_kind j = Update_job" "jb_row j \<in> set (db_admins db)" "ad_id (jb_row j) = to_lower i"
    using s findAdmin_Some[of i db] by (auto simp: start_update_def split: option.splits sum.splits)
  have ok: "job_ok j" by (rule start_update_ok[OF s])
  let ?db1 = "admin_repo_update i (jb_set j) db"
  have nt: "ad_type (if ad_id a = to_lower i then apply_set (jb_set j) a else a)
      = (if ad_id a = to_lower i then or_else (st_type (jb_set j)) (ad_type (jb_row j)) else ad_type a)"
    if "a \<in> set (db_admins db)" for a
    using one_row[OF d that shape(3)] shape(4) by (simp add: apply_set_fields)
  consider "db' = db" | "db' = fst (finish_job j ?db1)"
    using run_job_shape[OF d _ shape(3), of tenants cs db' res] u s shape(1,2,4)
    by (auto simp: admin_update_def skips_write_def)
  then show ?thesis
  proof cases
    case 1
    then show ?thesis using c by simp
  next
    case 2
    have same1: "db_grants ?db1 = db_grants db" "db_roles ?db1 = db_roles db" by (simp_all add: admin_repo_update_def)
    show ?thesis
    proof (cases "lowers_type j")
      case True
      have low: "to_lower i = i" by (rule start_lowers[OF s True i])
      obtain t where t: "st_type (jb_set j) = Some t" using True by (auto simp: lowers_type_def split: option.splits)
      have fin: "db' = ?db1\<lparr>db_grants := filter (\<lambda>g. \<not> (g \<in> set (db_grants db) \<and> gr_live g \<and> gr_admin g \<and> gr_actor g = i \<and> grant_above t db g)) (db_grants db)\<rparr>"
        using 2 True t shape(1,2) grant_above_roles[OF same1(2)]
        by (simp add: finish_job_def revokeRolesAboveType_def Let_def or_else_def same1(1))
      have "\<forall>a'\<in>set (db_admins ?db1). if ad_id a' = i then ad_type a' = t else a' \<in> set (db_admins db)"
      proof
        fix a'
        assume "a' \<in> set (db_admins ?db1)"
        then obtain b where b: "b \<in> set (db_admins db)" "a' = (if ad_id b = to_lower i then apply_set (jb_set j) b else b)"
          unfolding repo_update_mem by blast
        then show "if ad_id a' = i then ad_type a' = t else a' \<in> set (db_admins db)"
          using nt[OF b(1)] low t by (auto simp: or_else_def split: if_splits)
      qed
      then show ?thesis by (intro ceiling_revoked[OF c, of db' i t]) (simp_all add: fin same1)
    next
      case False
      have rank: "ADMIN_TYPE_RANK (ad_type a) \<le> ADMIN_TYPE_RANK (ad_type (if ad_id a = to_lower i then apply_set (jb_set j) a else a))" if "a \<in> set (db_admins db)" for a
        using nt[OF that] False one_row[OF d that shape(3)] shape(4) by (auto simp: lowers_type_def or_else_def split: option.splits)
      have up: "\<forall>a'\<in>set (db_admins ?db1). \<exists>a\<in>set (db_admins db). ad_id a = ad_id a' \<and> ADMIN_TYPE_RANK (ad_type a) \<le> ADMIN_TYPE_RANK (ad_type a')"
      proof (rule update_rows)
        fix b
        assume b: "b \<in> set (db_admins db)"
        show "\<exists>a\<in>set (db_admins db). ad_id a = ad_id (if ad_id b = to_lower i then apply_set (jb_set j) b else b)
            \<and> ADMIN_TYPE_RANK (ad_type a) \<le> ADMIN_TYPE_RANK (ad_type (if ad_id b = to_lower i then apply_set (jb_set j) b else b))"
          using rank[OF b] b by (intro bexI[of _ b]) (auto simp del: if_split split: if_splits)
      qed
      have "db' = ?db1" using 2 False shape(2) by (simp add: finish_job_def)
      then show ?thesis using ceiling_new_types[OF c same1 up] by simp
    qed
  qed
qed

lemma ceiling_status:
  assumes c: "ceiling_ok db" and d: "distinct (map ad_id (db_admins db))"
    and s: "r = start_suspend i by db \<or> r = start_restore i by db" and u: "run_job tenants r db = (db', res)"
  shows "ceiling_ok db'"
proof (cases r)
  case (Inl e)
  then show ?thesis using u c by (simp add: run_job_def)
next
  case (Inr jc)
  obtain j cs where jc: "r = Inr (j, cs)" using Inr by (cases jc) simp
  have shape: "jb_row j \<in> set (db_admins db)" "ad_id (jb_row j) = to_lower (jb_id j)" "jb_kind j \<noteq> Update_job" "st_type (jb_set j) = None"
    using s jc findAdmin_Some[of i db] by (auto simp: start_suspend_def start_restore_def status_set_def split: option.splits)
  have fin: "fst (finish_job j x) = x" for x using shape(3) by (cases "jb_kind j") (simp_all add: finish_job_def)
  consider "db' = db" | "db' = admin_repo_update (jb_id j) (jb_set j) db"
    using run_job_shape[OF d u[unfolded jc] shape(1,2)] fin by auto
  then show ?thesis
  proof cases
    case 2
    have "\<forall>a'\<in>set (db_admins db'). \<exists>a\<in>set (db_admins db). ad_id a = ad_id a' \<and> ADMIN_TYPE_RANK (ad_type a) \<le> ADMIN_TYPE_RANK (ad_type a')"
      unfolding 2 by (rule update_rows) (use shape(4) in \<open>auto simp: apply_set_fields or_else_def\<close>)
    then show ?thesis by (intro ceiling_new_types[OF c]) (simp_all add: 2 admin_repo_update_def)
  qed (use c in simp)
qed

lemma ids_kept:
  assumes d: "distinct (map ad_id (db_admins db))" and s: "job_started r db" and u: "run_job tenants r db = (db', res)"
  shows "map ad_id (db_admins db') = map ad_id (db_admins db)"
proof (cases r)
  case (Inl e)
  then show ?thesis using u by (simp add: run_job_def)
next
  case (Inr jc)
  obtain j cs where jc: "r = Inr (j, cs)" using Inr by (cases jc) simp
  have ok: "job_ok j" by (rule started_ok[of j cs db]) (use s jc in simp)
  have row: "jb_row j \<in> set (db_admins db)"
    using s jc findAdmin_Some
    by (auto simp: job_started_def start_update_def start_suspend_def start_restore_def split: option.splits sum.splits)
  have f: "db_admins (fst (finish_job j x)) = db_admins x" for x using finish_admins[of j x] by (cases "finish_job j x") simp
  show ?thesis using run_job_shape[OF d u[unfolded jc] row] ok f by (auto simp: job_ok_def)
qed

lemma ids_fst: "distinct (map ad_id (db_admins db)) \<Longrightarrow> job_started r db \<Longrightarrow> map ad_id (db_admins (fst (run_job tenants r db))) = map ad_id (db_admins db)"
  using ids_kept[of db r tenants] by (cases "run_job tenants r db") simp

lemma started_all: "job_started (start_update i patch by db) db" "job_started (start_suspend i by db) db" "job_started (start_restore i by db) db"
  unfolding job_started_def by blast+

section \<open>Requests\<close>

datatype admin_request =
    Ask_update string admin_patch
  | Ask_suspend string
  | Ask_restore string
  | Ask_create "string option" "nat option" string string "string option" admin_status string
  | Ask_assign string nat "string option" "int option option"
  | Ask_revoke string nat "string option"

definition kept :: "rbac \<Rightarrow> (admin_error, rbac \<times> invalidation list) res \<Rightarrow> rbac \<times> (admin_error, invalidation list) res" where
  "kept db r = (case r of Inl e \<Rightarrow> (db, Inl e) | Inr (db', ivs) \<Rightarrow> (db', Inr ivs))"

text \<open>A request of the admin \<open>by\<close>, run without interruption; a new administrator gets the given id.\<close>

fun handle_admin :: "int \<Rightarrow> (string \<Rightarrow> bool) \<Rightarrow> string option \<Rightarrow> admin_request \<Rightarrow> rbac \<Rightarrow> rbac \<times> (admin_error, invalidation list) res" where
  "handle_admin now tenants by (Ask_update i patch) db = admin_update tenants i patch by db"
| "handle_admin now tenants by (Ask_suspend i) db = admin_suspend i by db"
| "handle_admin now tenants by (Ask_restore i) db = admin_restore i by db"
| "handle_admin now tenants by (Ask_create em len ty name scope st newId) db =
     kept db (case admin_create em len ty name scope st by tenants newId db of Inl e \<Rightarrow> Inl e | Inr db' \<Rightarrow> Inr (db', []))"
| "handle_admin now tenants by (Ask_assign i r t x) db = kept db (assignRole now i r t by x db)"
| "handle_admin now tenants by (Ask_revoke i r t) db =
     kept db (case revokeRole now i r t by db of Inl e \<Rightarrow> Inl e | Inr (n, p) \<Rightarrow> Inr p)"

text \<open>The id the database makes for a new administrator is fresh and in lower case.\<close>

fun fresh_id :: "rbac \<Rightarrow> admin_request \<Rightarrow> bool" where
  "fresh_id db (Ask_create em len ty name scope st newId) \<longleftrightarrow>
     newId \<notin> ad_id ` set (db_admins db) \<and> newId \<notin> gr_actor ` set (db_grants db) \<and> to_lower newId = newId"
| "fresh_id db _ \<longleftrightarrow> True"

lemma create_ceiling:
  assumes "ceiling_ok db" "admin_create em len ty name scope st by tenants newId db = Inr db'" "newId \<notin> gr_actor ` set (db_grants db)"
  shows "ceiling_ok db'"
proof -
  obtain a where a: "db' = db\<lparr>db_admins := db_admins db @ [a]\<rparr>" "ad_id a = newId"
    using assms(2) by (auto simp: admin_create_def Let_def split: option.splits if_splits)
  then show ?thesis using assms(1,3) by (auto simp: ceiling_ok_def grant_above_def findRole_def)
qed

section \<open>The properties\<close>

text \<open>Two super administrators, a suspended one, and a support operator without roles.\<close>

definition hex_text :: "char \<Rightarrow> string" where
  "hex_text c = replicate 24 c"

definition demo_admin :: "char \<Rightarrow> admin_type \<Rightarrow> admin_status \<Rightarrow> admin_row" where
  "demo_admin c t st = \<lparr>ad_id = hex_text c, ad_email = [c], ad_type = t, ad_status = st, ad_scope = None, ad_password = True, ad_name = []\<rparr>"

definition demo_platform :: rbac where
  "demo_platform = \<lparr>db_modules = [], db_permissions = [],
     db_roles = [\<lparr>ro_id = 0, ro_tenant = None, ro_name = ''super_admin'', ro_description = [], ro_system = True, ro_live = True\<rparr>,
                 \<lparr>ro_id = 1, ro_tenant = None, ro_name = ''platform_admin'', ro_description = [], ro_system = True, ro_live = True\<rparr>],
     db_joins = [],
     db_grants = [\<lparr>gr_admin = True, gr_actor = hex_text (CHR ''a''), gr_tenant = None, gr_role = 0, gr_resource = None, gr_expires = None, gr_live = True\<rparr>,
                  \<lparr>gr_admin = True, gr_actor = hex_text (CHR ''b''), gr_tenant = None, gr_role = 1, gr_resource = None, gr_expires = None, gr_live = True\<rparr>],
     db_admins = [demo_admin (CHR ''a'') Super_type Active_admin, demo_admin (CHR ''b'') Super_type Active_admin,
                  demo_admin (CHR ''c'') Super_type Suspended_admin],
     db_next = 2\<rparr>"

definition demo_admin_world :: admin_world where
  "demo_admin_world = \<lparr>aw_db = demo_platform, aw_calls = Map.empty\<rparr>"

lemma demo_idle: "all_idle demo_admin_world" "has_super (aw_db demo_admin_world)"
proof -
  have "distinct (map ad_id (db_admins demo_platform))" "list_ex active_super (db_admins demo_platform)" by code_simp+
  then show "all_idle demo_admin_world" "has_super (aw_db demo_admin_world)"
    by (simp_all add: all_idle_def demo_admin_world_def has_super_def list_ex_iff)
qed

text \<open>C11. However demotions, suspensions, restorations, creations and role grants interleave, the platform keeps an
  active super administrator: whenever no guarded write waits for its recount there is one, and a guarded write
  that waits holds a row its undo makes an active super again. The only way to lose it is a late write: a request
  that read the row when it was no active super, so that it writes without a guard, and writes after the row became
  one, or sets the type or status of a row whose guarded write still waits for its recount. That this happens is
  shown by \<open>stale_update_locks_out\<close> below.\<close>

theorem last_super_survives:
  assumes "admin_reach tenants w0 late w" and "all_idle w0" and "has_super (aw_db w0)"
  shows "late \<or> (if recounting w = {} then 0 < countActiveSupers (aw_db w)
      else \<forall>(c, j)\<in>recounting w. active_super (apply_set (undo_set j) (apply_set (jb_set j) (jb_row j))) \<and> taken j (aw_db w))"
proof (cases late)
  case False
  have inv: "super_inv (aw_db w) (recounting w)" using admin_inv_reach[OF assms] False by (simp add: admin_inv_def)
  have "active_super (apply_set (undo_set j) (apply_set (jb_set j) (jb_row j)))" if "guarded_job j" for j
    using that unfolding undo_apply guarded_job_def by simp
  then show ?thesis using inv countActiveSupers_pos[of "aw_db w"] by (auto simp: super_inv_def)
qed simp

definition demo_demotion :: "char \<Rightarrow> admin_job" where
  "demo_demotion c = \<lparr>jb_kind = Update_job, jb_id = hex_text c, jb_by = None, jb_row = demo_admin c Super_type Active_admin,
     jb_set = \<lparr>st_type = Some Platform_type, st_status = None, st_scope = None, st_name = None\<rparr>\<rparr>"

definition demo_patch :: admin_patch where
  "demo_patch = \<lparr>pt_type = Some ''platform'', pt_scope = None, pt_name = None\<rparr>"

lemma demo_start:
  "start_update (hex_text (CHR ''a'')) demo_patch None demo_platform = Inr (demo_demotion (CHR ''a''), [Manage_check, Last_super_check, Privilege_check])"
  by code_simp

text \<open>Both supers are demoted at once: both pass the checks and the writes, and the first recount undoes its own.\<close>

definition demo_after :: "rbac" where
  "demo_after = (case admin_write (demo_demotion (CHR ''a'')) demo_platform of Inr db \<Rightarrow> db | Inl _ \<Rightarrow> demo_platform)"

lemma demo_write: "admin_write (demo_demotion (CHR ''a'')) demo_platform = Inr demo_after" "guarded_job (demo_demotion (CHR ''a''))"
  by code_simp+

lemma demo_checks: "run_check (\<lambda>_. False) Manage_check (demo_demotion (CHR ''a'')) demo_platform = None"
  "run_check (\<lambda>_. False) Last_super_check (demo_demotion (CHR ''a'')) demo_platform = None"
  "run_check (\<lambda>_. False) Privilege_check (demo_demotion (CHR ''a'')) demo_platform = None"
  by code_simp+

lemma demo_admin_reach:
  "admin_reach (\<lambda>_. False) demo_admin_world False (set_call 0 (Some (Recounting (demo_demotion (CHR ''a'')))) (demo_admin_world\<lparr>aw_db := demo_after\<rparr>))"
proof -
  let ?j = "demo_demotion (CHR ''a'')"
  let ?w = "\<lambda>ks. set_call 0 (Some (Checking ?j ks)) demo_admin_world"
  let ?R = "admin_reach (\<lambda>_. False) demo_admin_world False"
  have again: "set_call 0 x (?w ks) = set_call 0 x demo_admin_world" for x ks by (simp add: set_call_def)
  have calls: "aw_calls (?w ks) 0 = Some (Checking ?j ks)" "aw_db (?w ks) = demo_platform" for ks by (simp_all add: demo_admin_world_def)
  have quiet: "\<not> overtaken 0 (?w ks) x" for ks x using demo_write(2) by (auto simp: overtaken_def overtakes_def)
  have s: "job_started (Inr (?j, [Manage_check, Last_super_check, Privilege_check])) (aw_db demo_admin_world)"
    unfolding job_started_def demo_admin_world_def using demo_start by (metis admin_world.select_convs(1))
  have "admin_step (\<lambda>_. False) 0 demo_admin_world (?w [Manage_check, Last_super_check, Privilege_check])"
    by (rule begin_job[OF _ s]) (simp add: demo_admin_world_def)
  then have r0: "?R (?w [Manage_check, Last_super_check, Privilege_check])"
    by (rule reach_step[OF reach_start]) (simp add: overtaken_def demo_admin_world_def)
  have more: "?R y" if "?R (?w ks)" "admin_step (\<lambda>_. False) 0 (?w ks) y" for ks y
    by (rule reach_step[OF that]) (simp add: quiet)
  have ok: "admin_step (\<lambda>_. False) 0 (?w (k # ks)) (?w ks)" if "run_check (\<lambda>_. False) k ?j demo_platform = None" for k ks
    using check_ok[OF calls(1), of "\<lambda>_. False" k ks] that unfolding calls again by blast
  have r1: "?R (?w [Last_super_check, Privilege_check])" by (rule more[OF r0 ok]) (rule demo_checks)
  have r2: "?R (?w [Privilege_check])" by (rule more[OF r1 ok]) (rule demo_checks)
  have r3: "?R (?w [])" by (rule more[OF r2 ok]) (rule demo_checks)
  have "admin_step (\<lambda>_. False) 0 (?w []) (set_call 0 (Some (if guarded_job ?j then Recounting ?j else Finishing ?j)) ((?w [])\<lparr>aw_db := demo_after\<rparr>))"
    by (rule write_done) (simp_all only: calls demo_write(1))
  then have "?R (set_call 0 (Some (if guarded_job ?j then Recounting ?j else Finishing ?j)) ((?w [])\<lparr>aw_db := demo_after\<rparr>))"
    by (rule more[OF r3])
  then show ?thesis using demo_write(2) by (simp add: set_call_def)
qed

theorem last_super_survives_witness:
  "taken (demo_demotion (CHR ''a'')) demo_after \<and> countActiveSupers demo_after = 1"
proof -
  let ?w = "set_call 0 (Some (Recounting (demo_demotion (CHR ''a'')))) (demo_admin_world\<lparr>aw_db := demo_after\<rparr>)"
  have "(0, demo_demotion (CHR ''a'')) \<in> recounting ?w" by (simp add: recounting_def)
  then have m: "(0, demo_demotion (CHR ''a'')) \<in> recounting ?w" .
  then have "recounting ?w \<noteq> {}" by blast
  then have "\<forall>(c, j)\<in>recounting ?w. active_super (apply_set (undo_set j) (apply_set (jb_set j) (jb_row j))) \<and> taken j (aw_db ?w)"
    using last_super_survives[OF demo_admin_reach demo_idle] by (simp only: if_False simp_thms)
  then have "taken (demo_demotion (CHR ''a'')) (aw_db ?w)" using m by blast
  moreover have "countActiveSupers demo_after = 1" by code_simp
  ultimately show ?thesis by simp
qed

text \<open>C25. Whatever an administrator asks for, in whatever case they write the ids, no administrator ends up with a
  live grant of a built-in role above their type: grants above it are refused, and lowering a type revokes
  them. There is one exception: an update that lowers a type and names its administrator in another case than the
  stored id lowers the type and revokes nothing (\<open>lowered_by_other_case_keeps_roles\<close> below). Stored ids
  stay distinct and in lower case.\<close>

theorem type_ceiling_kept:
  assumes "ceiling_ok db" and "lower_ids db" and "fresh_id db q"
  shows "(ceiling_ok (fst (handle_admin now tenants by q db))
        \<or> (\<exists>i patch. q = Ask_update i patch \<and> lowers_by_other_case i patch db))
    \<and> lower_ids (fst (handle_admin now tenants by q db))"
proof (cases q)
  case (Ask_update i patch)
  have "ceiling_ok (fst (admin_update tenants i patch by db)) \<or> lowers_by_other_case i patch db"
    using ceiling_update[OF assms(1) lower_ids_distinct[OF assms(2)], of i patch tenants "by"] by (cases "admin_update tenants i patch by db") auto
  then show ?thesis using lower_ids_same[OF assms(2) ids_fst[OF lower_ids_distinct[OF assms(2)] started_all(1)]] Ask_update
    by (simp add: admin_update_def)
next
  case (Ask_suspend i)
  have "ceiling_ok (fst (admin_suspend i by db))"
    using ceiling_status[OF assms(1) lower_ids_distinct[OF assms(2)], of "start_suspend i by db" i "by" "\<lambda>_. True"]
    by (cases "admin_suspend i by db") (simp add: admin_suspend_def)
  then show ?thesis using lower_ids_same[OF assms(2) ids_fst[OF lower_ids_distinct[OF assms(2)] started_all(2)]] Ask_suspend
    by (simp add: admin_suspend_def)
next
  case (Ask_restore i)
  have "ceiling_ok (fst (admin_restore i by db))"
    using ceiling_status[OF assms(1) lower_ids_distinct[OF assms(2)], of "start_restore i by db" i "by" "\<lambda>_. True"]
    by (cases "admin_restore i by db") (simp add: admin_restore_def)
  then show ?thesis using lower_ids_same[OF assms(2) ids_fst[OF lower_ids_distinct[OF assms(2)] started_all(3)]] Ask_restore
    by (simp add: admin_restore_def)
next
  case (Ask_create em len ty name scope st newId)
  then show ?thesis
    using create_ceiling[OF assms(1), of em len ty name scope st "by" tenants newId] create_admins[of em len ty name scope st "by" tenants newId db] assms
    by (auto simp: kept_def lower_ids_def split: sum.splits)
next
  case (Ask_assign i r t x)
  then show ?thesis using ceiling_assign[OF assms(1,2)] assign_admins assms by (auto simp: kept_def lower_ids_def split: sum.splits)
next
  case (Ask_revoke i r t)
  then show ?thesis using ceiling_fewer[OF assms(1)] revoke_grants revoke_admins assms by (fastforce simp: kept_def lower_ids_def split: sum.splits)
qed

theorem type_ceiling_kept_witness:
  "ceiling_ok (fst (handle_admin 0 (\<lambda>_. False) (Some (hex_text (CHR ''a''))) (Ask_update (hex_text (CHR ''b'')) \<lparr>pt_type = Some ''support'', pt_scope = None, pt_name = None\<rparr>) demo_platform))
   \<and> map gr_role (db_grants (fst (handle_admin 0 (\<lambda>_. False) (Some (hex_text (CHR ''a''))) (Ask_update (hex_text (CHR ''b'')) \<lparr>pt_type = Some ''support'', pt_scope = None, pt_name = None\<rparr>) demo_platform))) = [0]"
proof -
  let ?p = "\<lparr>pt_type = Some ''support'', pt_scope = None, pt_name = None\<rparr>"
  let ?q = "Ask_update (hex_text (CHR ''b'')) ?p"
  have "ceiling_ok demo_platform" "lower_ids demo_platform" "fresh_id demo_platform ?q" by code_simp+
  from type_ceiling_kept[OF this]
  have "ceiling_ok (fst (handle_admin 0 (\<lambda>_. False) (Some (hex_text (CHR ''a''))) ?q demo_platform)) \<or> lowers_by_other_case (hex_text (CHR ''b'')) ?p demo_platform"
    unfolding admin_request.inject by blast
  moreover have "\<not> lowers_by_other_case (hex_text (CHR ''b'')) ?p demo_platform" by code_simp
  moreover have "map gr_role (db_grants (fst (handle_admin 0 (\<lambda>_. False) (Some (hex_text (CHR ''a''))) ?q demo_platform))) = [0]" by code_simp
  ultimately show ?thesis by blast
qed

section \<open>What the guards miss\<close>

text \<open>
  An id is compared as text with the acting id: a super administrator who writes their own id in upper case is
  not recognised, and may change their own privileges.
\<close>

lemma self_change_by_case:
  "assertMayChangePrivileges (Some (hex_text (CHR ''a''))) (Some (hex_text (CHR ''a''))) demo_platform = Some Admin_forbidden"
  "assertMayChangePrivileges (Some (hex_text (CHR ''a''))) (Some (hex_text (CHR ''A''))) demo_platform = None"
  "findAdmin (hex_text (CHR ''A'')) demo_platform = findAdmin (hex_text (CHR ''a'')) demo_platform"
  by code_simp+

text \<open>
  Lowering a type finds the administrator in any case of the id and the grants only in the case given: the type
  falls to support operator and the role of a platform administrator stays.
\<close>

lemma lowered_by_other_case_keeps_roles:
  "(let db = fst (handle_admin 0 (\<lambda>_. False) (Some (hex_text (CHR ''a'')))
       (Ask_update (hex_text (CHR ''B'')) \<lparr>pt_type = Some ''support'', pt_scope = None, pt_name = None\<rparr>) demo_platform)
    in ceiling_ok demo_platform \<and> lower_ids demo_platform \<and> \<not> ceiling_ok db \<and> map ad_type (db_admins db) ! 1 = Support_type)"
  by code_simp

text \<open>\<open>restore\<close> makes any administrator active, also one who is still invited and has no password; the
  last-super check then counts them.\<close>

definition invited_platform :: rbac where
  "invited_platform = demo_platform\<lparr>db_admins := [demo_admin (CHR ''a'') Super_type Active_admin, (demo_admin (CHR ''d'') Super_type Pending_admin)\<lparr>ad_password := False\<rparr>]\<rparr>"

lemma restored_invitation_counts:
  "list_all (\<lambda>a. active_super a \<longrightarrow> \<not> ad_password a)
     (db_admins (fst (admin_suspend (hex_text (CHR ''a'')) None (fst (admin_restore (hex_text (CHR ''d'')) None invited_platform)))))"
  by code_simp

text \<open>
  An update decides by the document it read whether its write is guarded. When the row was a suspended super
  then and is restored before the write, the write takes the last active super away.
\<close>

definition stale_job :: admin_job where
  "stale_job = \<lparr>jb_kind = Update_job, jb_id = hex_text (CHR ''c''), jb_by = None, jb_row = demo_admin (CHR ''c'') Super_type Suspended_admin,
     jb_set = \<lparr>st_type = Some Platform_type, st_status = None, st_scope = None, st_name = None\<rparr>\<rparr>"

lemma stale_update_locks_out:
  "start_update (hex_text (CHR ''c'')) demo_patch None demo_platform = Inr (stale_job, [Manage_check, Last_super_check, Privilege_check])"
  "run_checks (\<lambda>_. False) [Manage_check, Last_super_check, Privilege_check] stale_job demo_platform = None"
  "(let db1 = fst (admin_restore (hex_text (CHR ''c'')) None demo_platform);
        db2 = fst (admin_suspend (hex_text (CHR ''b'')) None (fst (admin_suspend (hex_text (CHR ''a'')) None db1)))
    in countActiveSupers db2 = 1 \<and> (case admin_write stale_job db2 of Inr db3 \<Rightarrow> countActiveSupers db3 = 0 | Inl _ \<Rightarrow> False))"
  by code_simp+

end
