(* ===== verification/RbacScope.thy ===== *)
theory RbacScope
  imports AdminService
begin

text \<open>
  Who is concerned by a change of roles, permissions or grants: the actor whose effective set is resolved
  (\<open>src/services/permission.service.js\<close>, \<open>role.service.js\<close>), the version counters its cached entry depends on
  (\<open>src/services/rbac.cache.service.js\<close>), and the counters an operation bumps.
\<close>

section \<open>Requests for an effective set\<close>

datatype rb_kind = Perms | Roles

record rb_request =
  rq_kind :: rb_kind
  rq_admin :: bool
  rq_actor :: string
  rq_tenant :: "string option"

definition live_resolution :: "rb_request \<Rightarrow> int \<Rightarrow> rbac \<Rightarrow> string list" where
  "live_resolution r now db = sort (case rq_kind r of
     Perms \<Rightarrow> resolvePermissionsForActor now (rq_admin r) (rq_actor r) (rq_tenant r) db
   | Roles \<Rightarrow> resolveRolesForActor now (rq_admin r) (rq_actor r) (rq_tenant r) db)"

definition earliest_expiry :: "rb_request \<Rightarrow> int \<Rightarrow> rbac \<Rightarrow> int option" where
  "earliest_expiry r now db = findEarliestGrantExpiry now (rq_admin r) (rq_actor r) (rq_tenant r) db"

section \<open>Version counters\<close>

definition PLATFORM_SCOPE :: string where
  "PLATFORM_SCOPE = ''platform''"

definition scopeLabel :: "string option \<Rightarrow> string" where
  "scopeLabel tenantId = or_else tenantId PLATFORM_SCOPE"

definition GLOBAL_VERSION_KEY :: string where
  "GLOBAL_VERSION_KEY = ''rbac:ver:global''"

definition scopeVersionKey :: "string \<Rightarrow> string" where
  "scopeVersionKey scope = ''rbac:ver:'' @ scope"

definition dependsOnPlatform :: "rb_request \<Rightarrow> bool" where
  "dependsOnPlatform r \<longleftrightarrow> rq_admin r \<and> scopeLabel (rq_tenant r) \<noteq> PLATFORM_SCOPE"

text \<open>The counters a request reads, in order.\<close>

definition counters :: "rb_request \<Rightarrow> string list" where
  "counters r = [GLOBAL_VERSION_KEY, scopeVersionKey (scopeLabel (rq_tenant r))]
     @ (if dependsOnPlatform r then [scopeVersionKey PLATFORM_SCOPE] else [])"

text \<open>The counter \<open>invalidateAll\<close> and \<open>invalidateScope\<close> increment.\<close>

definition bumped_key :: "invalidation \<Rightarrow> string" where
  "bumped_key iv = (case iv of All_scopes \<Rightarrow> GLOBAL_VERSION_KEY | Scope_of t \<Rightarrow> scopeVersionKey (scopeLabel t))"

definition concerns :: "invalidation list \<Rightarrow> rb_request \<Rightarrow> bool" where
  "concerns ivs r \<longleftrightarrow> list_ex (\<lambda>iv. bumped_key iv \<in> set (counters r)) ivs"

section \<open>What a resolution depends on\<close>

definition actor_grants :: "rb_request \<Rightarrow> rbac \<Rightarrow> grant_row list" where
  "actor_grants r db = filter (grant_of (rq_admin r) (rq_actor r) (rq_tenant r)) (db_grants db)"

lemma held_actor_grants: "held_roles now (rq_admin r) (rq_actor r) (rq_tenant r) db = map gr_role (filter (unexpired now) (actor_grants r db))"
  by (simp add: held_roles_def actor_grants_def conj_commute)

lemma earliest_actor_grants:
  "earliest_expiry r now db = (case sort (filter (\<lambda>t. now < t) (List.map_filter gr_expires (actor_grants r db))) of [] \<Rightarrow> None | t # _ \<Rightarrow> Some t)"
  by (simp add: earliest_expiry_def findEarliestGrantExpiry_def actor_grants_def Let_def)

definition same_view :: "rb_request \<Rightarrow> rbac \<Rightarrow> rbac \<Rightarrow> bool" where
  "same_view r db db' \<longleftrightarrow> (\<forall>now. live_resolution r now db' = live_resolution r now db \<and> earliest_expiry r now db' = earliest_expiry r now db)"

lemma same_viewI:
  assumes g: "actor_grants r db' = actor_grants r db" and p: "db_permissions db' = db_permissions db"
    and j: "\<And>i x. i \<in> gr_role ` set (actor_grants r db) \<Longrightarrow> (i, x) \<in> set (db_joins db') \<longleftrightarrow> (i, x) \<in> set (db_joins db)"
    and ro: "\<And>H. H \<subseteq> gr_role ` set (actor_grants r db) \<Longrightarrow>
      map ro_name (filter (\<lambda>x. ro_live x \<and> ro_id x \<in> H) (db_roles db')) = map ro_name (filter (\<lambda>x. ro_live x \<and> ro_id x \<in> H) (db_roles db))"
  shows "same_view r db db'"
  unfolding same_view_def
proof (intro allI conjI)
  fix now
  let ?h = "map gr_role (filter (unexpired now) (actor_grants r db))"
  have sub: "set ?h \<subseteq> gr_role ` set (actor_grants r db)" by auto
  have "set (map snd (filter (\<lambda>j. fst j \<in> set ?h) (db_joins db'))) = set (map snd (filter (\<lambda>j. fst j \<in> set ?h) (db_joins db)))"
    using j sub by (force simp: image_iff)
  then have "resolvePermissionsForActor now (rq_admin r) (rq_actor r) (rq_tenant r) db' = resolvePermissionsForActor now (rq_admin r) (rq_actor r) (rq_tenant r) db"
    unfolding resolvePermissionsForActor_def Let_def held_actor_grants g p by simp
  moreover have "resolveRolesForActor now (rq_admin r) (rq_actor r) (rq_tenant r) db' = resolveRolesForActor now (rq_admin r) (rq_actor r) (rq_tenant r) db"
    unfolding resolveRolesForActor_def held_actor_grants g ro[OF sub] ..
  ultimately show "live_resolution r now db' = live_resolution r now db" by (simp add: live_resolution_def split: rb_kind.split)
  show "earliest_expiry r now db' = earliest_expiry r now db" unfolding earliest_actor_grants g ..
qed

lemma same_view_grants:
  "actor_grants r db' = actor_grants r db \<Longrightarrow> db_permissions db' = db_permissions db \<Longrightarrow> db_joins db' = db_joins db \<Longrightarrow> db_roles db' = db_roles db
     \<Longrightarrow> same_view r db db'"
  by (rule same_viewI) simp_all

text \<open>An actor who holds a role is concerned by the invalidation of the role's scope.\<close>

lemma holder_concerned:
  assumes w: "rbac_wf db" and f: "findRole i db = Some x" and h: "i \<in> gr_role ` set (actor_grants r db)"
  shows "concerns [Scope_of (ro_tenant x)] r"
proof -
  obtain g where g: "g \<in> set (db_grants db)" "grant_of (rq_admin r) (rq_actor r) (rq_tenant r) g" "gr_role g = i"
    using h by (auto simp: actor_grants_def)
  have "grant_ok (db_roles db) g" using w g(1) by (simp add: rbac_wf_def)
  then obtain y where y: "y \<in> set (db_roles db)" "ro_id y = i"
    "if gr_admin g then ro_tenant y = None else gr_tenant g \<noteq> None \<and> ro_tenant y = gr_tenant g"
    using g(2,3) unfolding grant_ok_def grant_of_def by blast
  have "distinct (map ro_id (db_roles db))" using w by (simp add: rbac_wf_def roles_wf_def)
  then have "y = x" using y(1,2) findRole_Some[OF f] by (auto simp: distinct_map inj_on_def)
  then have "ro_tenant x = (if rq_admin r then None else rq_tenant r)" using y(3) g(2) by (auto simp: grant_of_def split: if_splits)
  then show ?thesis by (auto simp: concerns_def bumped_key_def counters_def dependsOnPlatform_def scopeLabel_def or_else_def)
qed

section \<open>The operations of the role and permission services\<close>

lemma role_create_same:
  assumes w: "rbac_wf db" and c: "role_create n t d db = Inr (x, db', ivs)"
  shows "same_view r db db'"
proof -
  have x: "ro_id x = db_next db" and db': "db' = db\<lparr>db_roles := db_roles db @ [x], db_next := Suc (db_next db)\<rparr>"
    using c by (auto simp: role_create_def Let_def split: if_splits)
  have "ro_id x \<notin> gr_role ` set (actor_grants r db)"
  proof
    assume "ro_id x \<in> gr_role ` set (actor_grants r db)"
    then obtain g where g: "g \<in> set (db_grants db)" "gr_live g" "gr_role g = db_next db" by (auto simp: actor_grants_def grant_of_def x)
    then obtain y where "y \<in> set (db_roles db)" "ro_id y = db_next db" using w unfolding rbac_wf_def grant_ok_def by metis
    then show False using w by (auto simp: rbac_wf_def roles_wf_def)
  qed
  then show ?thesis by (intro same_viewI) (auto simp: db' actor_grants_def)
qed

lemma put_role_names: "i \<notin> H \<Longrightarrow> ro_id x = i \<Longrightarrow>
    map ro_name (filter (\<lambda>y. ro_live y \<and> ro_id y \<in> H) (map (\<lambda>y. if ro_live y \<and> ro_id y = i then x else y) rs))
      = map ro_name (filter (\<lambda>y. ro_live y \<and> ro_id y \<in> H) rs)"
  by (induction rs) auto

lemma role_update_same:
  assumes w: "rbac_wf db" and c: "role_update i n d db = Inr (x, db', ivs)" and nc: "\<not> concerns ivs r"
  shows "same_view r db db'"
proof -
  obtain r0 where f: "findRole i db = Some r0" using c by (cases "findRole i db") (auto simp: role_update_def)
  have sh: "ivs = [Scope_of (ro_tenant r0)] \<and> ro_id x = i \<and> db' = db\<lparr>db_roles := map (\<lambda>y. if ro_live y \<and> ro_id y = i then x else y) (db_roles db)\<rparr>"
    using c f findRole_Some[OF f] by (auto simp: role_update_def Let_def split: if_splits)
  have "i \<notin> gr_role ` set (actor_grants r db)" using holder_concerned[OF w f] nc sh by blast
  then show ?thesis using sh put_role_names[of i _ x] by (intro same_viewI) (auto simp: actor_grants_def)
qed

lemma role_remove_same:
  assumes c: "role_remove i db = Inr (u, db', ivs)"
  shows "same_view r db db'"
proof -
  have free: "countAssignments i db = 0" and db': "db' = clearPermissions i (soft_delete_role i db)"
    using c by (auto simp: role_remove_def split: option.splits if_splits)
  have "i \<notin> gr_role ` set (actor_grants r db)"
    using free by (auto simp: countAssignments_def filter_empty_conv actor_grants_def grant_of_def)
  moreover have "i \<notin> H \<Longrightarrow> map ro_name (filter (\<lambda>y. ro_live y \<and> ro_id y \<in> H) (map (\<lambda>y. if ro_live y \<and> ro_id y = i then y\<lparr>ro_live := False\<rparr> else y) rs))
      = map ro_name (filter (\<lambda>y. ro_live y \<and> ro_id y \<in> H) rs)" for H rs
    by (induction rs) auto
  ultimately show ?thesis
    by (intro same_viewI) (auto simp: db' clearPermissions_def soft_delete_role_def actor_grants_def)
qed

lemma joins_same:
  assumes "\<And>a x. a \<noteq> i \<Longrightarrow> (a, x) \<in> set (db_joins db') \<longleftrightarrow> (a, x) \<in> set (db_joins db)" "i \<notin> gr_role ` set (actor_grants r db)"
    and "db' = db\<lparr>db_joins := js\<rparr>"
  shows "same_view r db db'"
proof (rule same_viewI)
  fix a x
  assume "a \<in> gr_role ` set (actor_grants r db)"
  then have "a \<noteq> i" using assms(2) by blast
  then show "(a, x) \<in> set (db_joins db') \<longleftrightarrow> (a, x) \<in> set (db_joins db)" by (rule assms(1))
qed (simp_all add: assms(3) actor_grants_def)

lemma addPermission_same:
  assumes w: "rbac_wf db" and c: "addPermission i k b db = Inr (u, db', ivs)" and nc: "\<not> concerns ivs r"
  shows "same_view r db db'"
proof -
  obtain x where f: "findRole i db = Some x" using c by (cases "findRole i db") (auto simp: addPermission_def)
  obtain p where g: "findPermissionByKey k db = Some p" using c f by (cases "findPermissionByKey k db") (auto simp: addPermission_def)
  have sh: "ivs = [Scope_of (ro_tenant x)] \<and> (db' = db \<or> db' = db\<lparr>db_joins := db_joins db @ [(i, pe_id p)]\<rparr>)"
    using c f g by (auto simp: addPermission_def split: if_splits)
  then have "i \<notin> gr_role ` set (actor_grants r db)" using holder_concerned[OF w f] nc by blast
  moreover have "same_view r db db" by (simp add: same_view_def)
  ultimately show ?thesis using sh by (auto intro: joins_same[where i = i and js = "db_joins db @ [(i, pe_id p)]"])
qed

lemma removePermission_same:
  assumes w: "rbac_wf db" and c: "removePermission i k b db = Inr (u, db', ivs)" and nc: "\<not> concerns ivs r"
  shows "same_view r db db'"
proof -
  obtain x where f: "findRole i db = Some x" using c by (cases "findRole i db") (auto simp: removePermission_def)
  obtain p where g: "findPermissionByKey k db = Some p" using c f by (cases "findPermissionByKey k db") (auto simp: removePermission_def)
  have sh: "ivs = [Scope_of (ro_tenant x)]" and db': "db' = db\<lparr>db_joins := remove1 (i, pe_id p) (db_joins db)\<rparr>"
    using c f g by (auto simp: removePermission_def split: if_splits)
  then have "i \<notin> gr_role ` set (actor_grants r db)" using holder_concerned[OF w f] nc by blast
  then show ?thesis by (intro joins_same[OF _ _ db', where i = i]) (simp_all add: db')
qed

lemma all_concerns [simp]: "concerns [All_scopes] r"
  by (simp add: concerns_def bumped_key_def counters_def)

lemma catalogue_concerns:
  "createModule k n db = Inr (m, db', ivs) \<Longrightarrow> ivs = [All_scopes]" "createPermission m' a db = Inr (p, db', ivs) \<Longrightarrow> ivs = [All_scopes]"
  "bulkCreatePermissions items db db = (Inr (cs, ivs), db') \<Longrightarrow> ivs = [All_scopes]" "deletePermission k' db = Inr (u, db', ivs) \<Longrightarrow> ivs = [All_scopes]"
  by (auto simp: createModule_def createPermission_def bulkCreatePermissions_def deletePermission_def Let_def split: if_splits sum.splits option.splits prod.splits)

lemma rbac_request_same:
  assumes w: "rbac_wf db" and q: "handle_rbac q db = Inr (db', ivs)" and nc: "\<not> concerns ivs r"
  shows "same_view r db db'"
proof (cases q)
  case (Create_role n t d)
  then show ?thesis using q role_create_same[OF w] by (auto simp: effect_of_Inr bulk_effect_Inr)
next
  case (Update_role i n d)
  then show ?thesis using q role_update_same[OF w _ nc] by (auto simp: effect_of_Inr bulk_effect_Inr)
next
  case (Remove_role i)
  then show ?thesis using q role_remove_same by (auto simp: effect_of_Inr bulk_effect_Inr)
next
  case (Add_permission i k b)
  then show ?thesis using q addPermission_same[OF w _ nc] by (auto simp: effect_of_Inr bulk_effect_Inr)
next
  case (Remove_permission i k b)
  then show ?thesis using q removePermission_same[OF w _ nc] by (auto simp: effect_of_Inr bulk_effect_Inr)
qed (use q nc in \<open>auto simp: effect_of_Inr bulk_effect_Inr dest!: catalogue_concerns\<close>)

section \<open>The operations on administrators\<close>

lemma admins_only_same: "db_grants db' = db_grants db \<Longrightarrow> db_permissions db' = db_permissions db \<Longrightarrow> db_joins db' = db_joins db \<Longrightarrow> db_roles db' = db_roles db
    \<Longrightarrow> same_view r db db'"
  by (rule same_view_grants) (simp_all add: actor_grants_def)

text \<open>Every administrator is concerned by the platform scope.\<close>

lemma admin_concerned: "rq_admin r \<Longrightarrow> Scope_of None \<in> set ivs \<Longrightarrow> concerns ivs r"
  by (force simp: concerns_def list_ex_iff bumped_key_def counters_def dependsOnPlatform_def scopeLabel_def or_else_def)

lemma grant_concerned:
  "grant_of (rq_admin r) (rq_actor r) (rq_tenant r) g \<Longrightarrow> gr_admin g \<Longrightarrow> concerns (grant_invalidations (gr_tenant g)) r"
  by (rule admin_concerned)
    (auto simp: grant_of_def grant_invalidations_def adminGrantTenantFilter_def truthy_text_def or_null_def split: option.splits if_splits)

lemma assign_same:
  assumes a: "assignRole now i x t by e db = Inr (db', ivs)" and nc: "\<not> concerns ivs r"
  shows "same_view r db db'"
proof -
  have ivs: "ivs = grant_invalidations t" and db': "\<exists>ex. db' = repo_assignRole i x t ex db"
    using a by (auto simp: assignRole_def split: option.splits if_splits)
  obtain ex where "db' = repo_assignRole i x t ex db" using db' by blast
  moreover define g where "g = \<lparr>gr_admin = True, gr_actor = i, gr_tenant = t, gr_role = x, gr_resource = None, gr_expires = ex, gr_live = True\<rparr>"
  ultimately have sh: "db' = db \<or> db' = db\<lparr>db_grants := db_grants db @ [g]\<rparr>" by (auto simp: repo_assignRole_def)
  have "\<not> grant_of (rq_admin r) (rq_actor r) (rq_tenant r) g" using grant_concerned[of r g] nc ivs by (auto simp: g_def)
  then have "actor_grants r db' = actor_grants r db" using sh by (auto simp: actor_grants_def)
  then show ?thesis using sh by (intro same_view_grants) auto
qed

lemma revoke_same:
  assumes a: "revokeRole now i x t by db = Inr (n, db', ivs)" and nc: "\<not> concerns ivs r"
  shows "same_view r db db'"
proof -
  have ivs: "ivs = grant_invalidations t" and db': "db' = fst (repo_revokeRole i x t db)"
    using a by (auto simp: revokeRole_def Let_def split: option.splits if_splits prod.splits)
  show ?thesis
  proof (cases "List.extract (same_grant i x t) (db_grants db)")
    case None
    then have "db' = db" using db' by (simp add: repo_revokeRole_def)
    then show ?thesis by (simp add: same_view_def)
  next
    case (Some q)
    obtain xs g ys where q: "q = (xs, g, ys)" by (cases q)
    have g: "db_grants db = xs @ g # ys" "same_grant i x t g" using Some q by (auto simp: extract_Some_iff)
    have "\<not> grant_of (rq_admin r) (rq_actor r) (rq_tenant r) g"
      using grant_concerned[of r g] g(2) nc ivs by (auto simp: same_grant_def)
    then show ?thesis using db' Some q g(1) by (intro same_view_grants) (simp_all add: repo_revokeRole_def actor_grants_def)
  qed
qed

lemma revoke_above_same: "\<not> rq_admin r \<Longrightarrow> same_view r db (fst (revokeRolesAboveType i t db))"
proof (rule same_view_grants)
  assume u: "\<not> rq_admin r"
  show "actor_grants r (fst (revokeRolesAboveType i t db)) = actor_grants r db"
    using u by (auto simp: revokeRolesAboveType_def Let_def actor_grants_def grant_of_def intro!: filter_cong)
qed (simp_all add: revokeRolesAboveType_def Let_def)

lemma repo_update_same: "same_view r db (admin_repo_update i s db)"
  by (rule admins_only_same) (simp_all add: admin_repo_update_def)

lemma same_view_trans: "same_view r a b \<Longrightarrow> same_view r b c \<Longrightarrow> same_view r a c"
  by (simp add: same_view_def)

lemma finish_same:
  assumes f: "finish_job j db = (db', ivs)" and nc: "\<not> concerns ivs r"
  shows "same_view r db db'"
proof (cases "jb_kind j = Update_job \<and> lowers_type j")
  case True
  then have db': "db' = fst (revokeRolesAboveType (jb_id j) (or_else (st_type (jb_set j)) (ad_type (jb_row j))) db)" and "Scope_of None \<in> set ivs"
    using f by (auto simp: finish_job_def split: prod.splits)
  then have "\<not> rq_admin r" using nc admin_concerned by blast
  then show ?thesis unfolding db' by (rule revoke_above_same)
next
  case False
  then have "db' = db" using f by (cases "jb_kind j") (auto simp: finish_job_def)
  then show ?thesis by (simp add: same_view_def)
qed

lemma job_same:
  assumes u: "run_job tenants s db = (db', Inr ivs)" and nc: "\<not> concerns ivs r"
  shows "same_view r db db'"
proof -
  obtain j cs where s: "s = Inr (j, cs)" using u by (cases s) (auto simp: run_job_def)
  obtain db1 where w: "admin_write j db = Inr db1" using u s by (auto simp: run_job_def split: option.splits sum.splits)
  have v1: "same_view r db db1"
    using w repo_update_same[of r db] by (auto simp: admin_write_def updateIfMatch_def same_view_def split: if_splits option.splits)
  obtain db2 where db2: "(if guarded_job j then admin_recount j db1 else (db1, None)) = (db2, None)" and f: "finish_job j db2 = (db', ivs)"
    using u s w by (auto simp: run_job_def split: option.splits prod.splits)
  have "db2 = db1" using db2 by (auto simp: admin_recount_def split: if_splits)
  then show ?thesis using same_view_trans[OF v1] finish_same[OF f nc] by simp
qed

lemma admin_request_same:
  assumes q: "handle_admin now tenants by q db = (db', Inr ivs)" and nc: "\<not> concerns ivs r"
  shows "same_view r db db'"
proof (cases q)
  case (Ask_create em len ty name scope st newId)
  then have "\<exists>a. db' = db\<lparr>db_admins := db_admins db @ [a]\<rparr>"
    using q by (auto simp: kept_def admin_create_def Let_def split: sum.splits option.splits if_splits)
  then show ?thesis by (auto intro: admins_only_same)
next
  case (Ask_assign i x t e)
  then show ?thesis using q assign_same[OF _ nc] by (auto simp: kept_def split: sum.splits)
next
  case (Ask_revoke i x t)
  then show ?thesis using q revoke_same[OF _ nc] by (auto simp: kept_def split: sum.splits)
qed (use q job_same[OF _ nc] in \<open>simp_all add: admin_update_def admin_suspend_def admin_restore_def\<close>)

section \<open>The collections stay well formed\<close>

lemma wf_same_tables:
  assumes "rbac_wf db" "db_modules db' = db_modules db" "db_permissions db' = db_permissions db" "db_roles db' = db_roles db"
    "db_joins db' = db_joins db" "db_next db' = db_next db" "\<forall>g\<in>set (db_grants db'). grant_ok (db_roles db) g"
  shows "rbac_wf db'"
  using assms by (simp add: rbac_wf_def modules_wf_def permissions_wf_def permission_ok_def roles_wf_def joins_wf_def)

lemma wf_assign:
  assumes w: "rbac_wf db" and a: "assignRole now i x t by e db = Inr (db', ivs)"
  shows "rbac_wf db'"
proof -
  obtain a0 where a0: "findAdmin i db = Some a0" using a by (cases "findAdmin i db") (auto simp: assignRole_def)
  obtain r0 where r0: "findRole x db = Some r0" using a a0 by (cases "findRole x db") (auto simp: assignRole_def)
  have ok: "assertGrantable a0 r0 t = None" and db': "\<exists>ex. db' = repo_assignRole i x t ex db"
    using a a0 r0 by (auto simp: assignRole_def split: option.splits if_splits)
  have p: "ro_tenant r0 = None" using ok by (auto simp: assertGrantable_def split: if_splits)
  obtain ex where db': "db' = repo_assignRole i x t ex db" using db' by blast
  have "\<forall>g\<in>set (db_grants db'). grant_ok (db_roles db) g"
    using w findRole_Some[OF r0] p by (auto simp: db' repo_assignRole_def rbac_wf_def grant_ok_def)
  then show ?thesis by (intro wf_same_tables[OF w]) (simp_all add: db' repo_assignRole_def)
qed

definition fewer_grants :: "rbac \<Rightarrow> rbac \<Rightarrow> bool" where
  "fewer_grants db db' \<longleftrightarrow> db_modules db' = db_modules db \<and> db_permissions db' = db_permissions db \<and> db_roles db' = db_roles db
     \<and> db_joins db' = db_joins db \<and> db_next db' = db_next db \<and> set (db_grants db') \<subseteq> set (db_grants db)"

lemma wf_fewer: "rbac_wf db \<Longrightarrow> fewer_grants db db' \<Longrightarrow> rbac_wf db'"
  by (rule wf_same_tables) (auto simp: fewer_grants_def rbac_wf_def)

lemma fewer_refl: "fewer_grants db db"
  by (simp add: fewer_grants_def)

lemma fewer_trans: "fewer_grants a b \<Longrightarrow> fewer_grants b c \<Longrightarrow> fewer_grants a c"
  unfolding fewer_grants_def by auto

lemma fewer_update: "fewer_grants db (admin_repo_update i s db)"
  by (simp add: fewer_grants_def admin_repo_update_def)

lemma fewer_match: "updateIfMatch i a b s db = Some db' \<Longrightarrow> fewer_grants db db'"
  using fewer_update by (auto simp: updateIfMatch_def split: option.splits if_splits)

lemma fewer_job: "run_job tenants s db = (db', res) \<Longrightarrow> fewer_grants db db'"
proof -
  have fin: "fewer_grants x (fst (finish_job j x))" for j x
    by (auto simp: fewer_grants_def finish_job_def revokeRolesAboveType_def Let_def split: job_kind.split prod.splits)
  have wr: "admin_write j db = Inr x \<Longrightarrow> fewer_grants db x" for j x
    using fewer_match fewer_update fewer_refl by (auto simp: admin_write_def split: if_splits option.splits)
  have rc: "fewer_grants x (fst (admin_recount j x))" for j x
    using fewer_match fewer_refl by (auto simp: admin_recount_def split: option.splits)
  assume r: "run_job tenants s db = (db', res)"
  show "fewer_grants db db'"
  proof (cases s)
    case (Inl e)
    then show ?thesis using r fewer_refl by (simp add: run_job_def)
  next
    case (Inr jc)
    obtain j cs where s: "s = Inr (j, cs)" using Inr by (cases jc) simp
    show ?thesis
    proof (cases "admin_write j db")
      case (Inl e)
      then show ?thesis using r s fewer_refl by (auto simp: run_job_def split: option.splits)
    next
      case (Inr x)
      define y where "y = fst (if guarded_job j then admin_recount j x else (x, None))"
      have y: "fewer_grants db y" using fewer_trans[OF wr[OF Inr]] rc fewer_refl by (simp add: y_def)
      have "db' = db \<or> db' = y \<or> db' = fst (finish_job j y)"
        using r s Inr by (auto simp: run_job_def y_def split: option.splits prod.splits)
      then show ?thesis using y fewer_trans[OF y fin] fewer_refl by auto
    qed
  qed
qed

lemma admin_request_wf:
  assumes w: "rbac_wf db"
  shows "rbac_wf (fst (handle_admin now tenants by q db))"
proof (cases q)
  case (Ask_create em len ty name scope st newId)
  have "fewer_grants db db'" if "admin_create em len ty name scope st by tenants newId db = Inr db'" for db'
    using that by (auto simp: fewer_grants_def admin_create_def Let_def split: option.splits if_splits)
  then show ?thesis using Ask_create wf_fewer[OF w] w by (auto simp: kept_def split: sum.splits)
next
  case (Ask_assign i x t e)
  then show ?thesis using wf_assign[OF w] w by (auto simp: kept_def split: sum.splits)
next
  case (Ask_revoke i x t)
  have "fewer_grants db (fst (repo_revokeRole i x t db))"
    by (auto simp: fewer_grants_def repo_revokeRole_def extract_Some_iff split: option.splits)
  then have "fewer_grants db db'" if "revokeRole now i x t by db = Inr (n, db', ivs)" for n db' ivs
    using that by (auto simp: revokeRole_def Let_def split: option.splits prod.splits if_splits)
  then show ?thesis using Ask_revoke wf_fewer[OF w] w by (auto simp: kept_def split: sum.splits)
qed (use wf_fewer[OF w fewer_job] in \<open>simp_all add: admin_update_def admin_suspend_def admin_restore_def prod_eq_iff\<close>)

lemma mutation_same:
  assumes "rbac_wf db" and "handle_rbac q db = Inr (db', ivs) \<or> handle_admin now tenants by p db = (db', Inr ivs)" and "\<not> concerns ivs r"
  shows "same_view r db db'"
  using assms(2) rbac_request_same[OF assms(1) _ assms(3)] admin_request_same[OF _ assms(3)] by blast

lemma rbac_request_wf: "rbac_wf db \<Longrightarrow> handle_rbac q db = Inr (db', ivs) \<Longrightarrow> rbac_wf db'"
  by (cases q) (auto simp: effect_of_Inr bulk_effect_Inr elim: rbac_wf_rules)

section \<open>The property\<close>

text \<open>C24. An accepted request of the role, permission or administrator service changes the effective permissions and
  roles, and the next grant expiry, only of actors whose version counters its invalidations increment.\<close>

theorem mutations_within_scope:
  assumes "rbac_wf db" and "handle_rbac q db = Inr (db', ivs) \<or> handle_admin now tenants by p db = (db', Inr ivs)"
    and "\<not> concerns ivs r"
  shows "live_resolution r t db' = live_resolution r t db \<and> earliest_expiry r t db' = earliest_expiry r t db"
  using mutation_same[OF assms] by (simp add: same_view_def)

theorem mutations_within_scope_witness:
  "\<exists>db'. handle_rbac (Remove_permission 2 ''iam.view'' None) demo_rbac = Inr (db', [Scope_of (Some ''t1'')])
     \<and> live_resolution \<lparr>rq_kind = Perms, rq_admin = False, rq_actor = ''u1'', rq_tenant = Some ''t2''\<rparr> 0 db'
        = live_resolution \<lparr>rq_kind = Perms, rq_admin = False, rq_actor = ''u1'', rq_tenant = Some ''t2''\<rparr> 0 demo_rbac
     \<and> live_resolution \<lparr>rq_kind = Perms, rq_admin = False, rq_actor = ''u1'', rq_tenant = Some ''t1''\<rparr> 0 db' = []"
proof -
  let ?h = "handle_rbac (Remove_permission 2 ''iam.view'' None) demo_rbac"
  let ?r = "\<lparr>rq_kind = Perms, rq_admin = False, rq_actor = ''u1'', rq_tenant = Some ''t2''\<rparr>"
  have e: "?h = Inr (fst (projr ?h), [Scope_of (Some ''t1'')])" "\<not> concerns [Scope_of (Some ''t1'')] ?r"
    "live_resolution \<lparr>rq_kind = Perms, rq_admin = False, rq_actor = ''u1'', rq_tenant = Some ''t1''\<rparr> 0 (fst (projr ?h)) = []" by code_simp+
  have "live_resolution ?r 0 (fst (projr ?h)) = live_resolution ?r 0 demo_rbac"
    using mutations_within_scope[OF demo_rbac_wf disjI1[OF e(1)] e(2)] by blast
  then show ?thesis using e(1,3) by blast
qed

end
