(* ===== verification/RbacCache.thy ===== *)
theory RbacCache
  imports RbacScope MemoryCache
begin

text \<open>
  \<open>src/services/rbac.cache.service.js\<close> over the in-memory driver. A resolution reads its version counters one
  by one, looks its key up, and on a miss reads the next grant expiry, then the live set, then stores it; each
  read or write is one step, between which other requests, committed changes, their invalidations and the
  clock may come. A cached value is the envelope \<open>{ v, exp }\<close>.
\<close>

section \<open>Keys and envelopes\<close>

definition RBAC_CACHE_TTL_SEC :: int where
  "RBAC_CACHE_TTL_SEC = 60"

record envelope =
  en_v :: "string list"
  en_exp :: "int option"

definition version_text :: "int \<Rightarrow> string" where
  "version_text v = (if v < 0 then CHR ''-'' # show_nat (nat (- v)) else show_nat (nat v))"

definition kind_text :: "rb_kind \<Rightarrow> string" where
  "kind_text k = (case k of Perms \<Rightarrow> ''perms'' | Roles \<Rightarrow> ''roles'')"

definition actor_type :: "bool \<Rightarrow> string" where
  "actor_type a = (if a then ''admin'' else ''user'')"

text \<open>\<open>vs\<close> are the versions of the counters: global, scope and, for a scoped admin, platform.\<close>

definition scope_version_text :: "int list \<Rightarrow> string" where
  "scope_version_text vs = version_text (vs ! 1) @ (if length vs = 3 then CHR ''.'' # version_text (vs ! 2) else [])"

definition actorKey :: "rb_request \<Rightarrow> int list \<Rightarrow> string" where
  "actorKey r vs = join_with '':'' [''rbac'', scopeLabel (rq_tenant r), scope_version_text vs, version_text (vs ! 0),
     kind_text (rq_kind r), actor_type (rq_admin r), rq_actor r]"

text \<open>\<open>Number(version) || 0\<close>.\<close>

definition version_of :: "envelope cached option \<Rightarrow> int" where
  "version_of x = (case x of Some (CNum n) \<Rightarrow> n | _ \<Rightarrow> 0)"

text \<open>A cached envelope whose deadline has not passed.\<close>

definition usable :: "int \<Rightarrow> envelope cached option \<Rightarrow> string list option" where
  "usable now x = (case x of
     Some (CData e) \<Rightarrow> (case en_exp e of None \<Rightarrow> Some (en_v e) | Some t \<Rightarrow> if now < t then Some (en_v e) else None)
   | _ \<Rightarrow> None)"

definition ttl_sec :: "int \<Rightarrow> int option \<Rightarrow> int" where
  "ttl_sec now ex = (case ex of None \<Rightarrow> RBAC_CACHE_TTL_SEC | Some t \<Rightarrow> min RBAC_CACHE_TTL_SEC ((t - now) div 1000))"

definition store_result :: "int \<Rightarrow> string \<Rightarrow> envelope \<Rightarrow> envelope cache \<Rightarrow> envelope cache" where
  "store_result now key e c =
     (if 1 \<le> ttl_sec now (en_exp e)
      then (case cache_set now key (CData e) (Some (ttl_sec now (en_exp e))) c of Inr c' \<Rightarrow> c' | Inl _ \<Rightarrow> c) else c)"

section \<open>Interleaved resolutions\<close>

datatype rb_call =
    Reading rb_request "int list"
  | Missed rb_request "int list"
  | Expiry_read rb_request "int list" "int option"
  | Resolved rb_request "int list" envelope
  | Answered rb_request "string list"

record rb_world =
  rw_db :: rbac
  rw_cache :: "envelope cache"
  rw_now :: int
  rw_pending :: "invalidation list"
  rw_calls :: "nat \<Rightarrow> rb_call option"

definition put_call :: "nat \<Rightarrow> rb_call option \<Rightarrow> rb_world \<Rightarrow> rb_world" where
  "put_call c x w = w\<lparr>rw_calls := (rw_calls w)(c := x)\<rparr>"

text \<open>Ids without colon; no tenant has the name of the platform scope.\<close>

definition request_ok :: "rb_request \<Rightarrow> bool" where
  "request_ok r \<longleftrightarrow> actor_ok (rq_admin r) (rq_actor r) (rq_tenant r) \<and> CHR '':'' \<notin> set (rq_actor r)
     \<and> (case rq_tenant r of None \<Rightarrow> True | Some t \<Rightarrow> t \<noteq> [] \<and> CHR '':'' \<notin> set t \<and> t \<noteq> PLATFORM_SCOPE)"

inductive rb_step :: "rb_world \<Rightarrow> rb_world \<Rightarrow> bool" where
  ask: "rw_calls w c = None \<Longrightarrow> request_ok r \<Longrightarrow> rb_step w (put_call c (Some (Reading r [])) w)"
| read_version: "rw_calls w c = Some (Reading r vs) \<Longrightarrow> length vs < length (counters r)
    \<Longrightarrow> cache_get (rw_now w) (counters r ! length vs) (rw_cache w) = Inr (c', x)
    \<Longrightarrow> rb_step w (put_call c (Some (Reading r (vs @ [version_of x]))) (w\<lparr>rw_cache := c'\<rparr>))"
| versions_fail: "rw_calls w c = Some (Reading r vs) \<Longrightarrow> length vs < length (counters r)
    \<Longrightarrow> rb_step w (put_call c (Some (Reading r (if length vs < 2 then [0, 0] else vs @ [0]))) w)"
| look_up: "rw_calls w c = Some (Reading r vs) \<Longrightarrow> length vs = length (counters r)
    \<Longrightarrow> cache_get (rw_now w) (actorKey r vs) (rw_cache w) = Inr (c', x)
    \<Longrightarrow> rb_step w (put_call c (Some (case usable (rw_now w) x of Some v \<Rightarrow> Answered r v | None \<Rightarrow> Missed r vs)) (w\<lparr>rw_cache := c'\<rparr>))"
| look_up_fails: "rw_calls w c = Some (Reading r vs) \<Longrightarrow> length vs = length (counters r)
    \<Longrightarrow> rb_step w (put_call c (Some (Answered r (live_resolution r (rw_now w) (rw_db w)))) w)"
| read_expiry: "rw_calls w c = Some (Missed r vs)
    \<Longrightarrow> rb_step w (put_call c (Some (Expiry_read r vs (earliest_expiry r (rw_now w) (rw_db w)))) w)"
| run_fn: "rw_calls w c = Some (Expiry_read r vs e)
    \<Longrightarrow> rb_step w (put_call c (Some (Resolved r vs \<lparr>en_v = live_resolution r (rw_now w) (rw_db w), en_exp = e\<rparr>)) w)"
| store_value: "rw_calls w c = Some (Resolved r vs e)
    \<Longrightarrow> rb_step w (put_call c (Some (Answered r (en_v e))) (w\<lparr>rw_cache := store_result (rw_now w) (actorKey r vs) e (rw_cache w)\<rparr>))"
| store_fails: "rw_calls w c = Some (Resolved r vs e) \<Longrightarrow> rb_step w (put_call c (Some (Answered r (en_v e))) w)"
| return_value: "rw_calls w c = Some (Answered r v) \<Longrightarrow> rb_step w (put_call c None w)"
| change: "handle_rbac q (rw_db w) = Inr (db', ivs) \<Longrightarrow> rb_step w (w\<lparr>rw_db := db', rw_pending := rw_pending w @ ivs\<rparr>)"
| change_admin: "handle_admin t tenants by q (rw_db w) = (db', Inr ivs) \<Longrightarrow> rb_step w (w\<lparr>rw_db := db', rw_pending := rw_pending w @ ivs\<rparr>)"
| invalidate: "rw_pending w = xs @ iv # ys \<Longrightarrow> cache_increment (bumped_key iv) 1 (rw_cache w) = Inr (c', n)
    \<Longrightarrow> rb_step w (w\<lparr>rw_cache := c', rw_pending := xs @ ys\<rparr>)"
| tick: "rw_now w \<le> t \<Longrightarrow> rb_step w (w\<lparr>rw_now := t\<rparr>)"

inductive rb_reach :: "rb_world \<Rightarrow> rb_world \<Rightarrow> bool" for w0 :: rb_world where
  rb_start: "rb_reach w0 w0"
| rb_next: "rb_reach w0 w \<Longrightarrow> rb_step w w' \<Longrightarrow> rb_reach w0 w'"

text \<open>At the start the cache is empty, nothing is pending and nobody asks.\<close>

definition fresh_world :: "rb_world \<Rightarrow> bool" where
  "fresh_world w \<longleftrightarrow> store (rw_cache w) = [] \<and> rw_pending w = [] \<and> (\<forall>c. rw_calls w c = None) \<and> rbac_wf (rw_db w)"

text \<open>The versions a call has read are current: no invalidation of its counters came since, and none is pending.\<close>

definition raw :: "envelope cache \<Rightarrow> string \<Rightarrow> envelope cache_entry option" where
  "raw c k = map_of (store c) (applyPrefix c k)"

definition counter :: "envelope cache \<Rightarrow> string \<Rightarrow> int" where
  "counter c k = version_of (map_option cvalue (raw c k))"

definition current :: "rb_world \<Rightarrow> rb_request \<Rightarrow> int list \<Rightarrow> bool" where
  "current w r vs \<longleftrightarrow> map (counter (rw_cache w)) (counters r) = vs \<and> \<not> concerns (rw_pending w) r"

section \<open>Keys do not collide\<close>

lemma version_text_chars: "c \<in> set (version_text v) \<Longrightarrow> is_digit c \<or> c = CHR ''-''"
  using show_nat_digits by (auto simp: version_text_def split: if_splits)

lemma version_text_colon: "CHR '':'' \<notin> set (version_text v)" "CHR ''.'' \<notin> set (version_text v)"
proof -
  have "\<not> is_digit (CHR '':'')" "\<not> is_digit (CHR ''.'')" by code_simp+
  then show "CHR '':'' \<notin> set (version_text v)" "CHR ''.'' \<notin> set (version_text v)" using version_text_chars by blast+
qed

lemma version_text_inj: "version_text v = version_text u \<Longrightarrow> v = u"
proof -
  assume e: "version_text v = version_text u"
  have d: "\<not> is_digit (CHR ''-'')" by code_simp
  have nh: "show_nat n \<noteq> CHR ''-'' # s" for n s using show_nat_no_char[OF d, of n] by auto
  show "v = u"
  proof (cases "v < 0"; cases "u < 0")
    assume "v < 0" "u < 0"
    then have "nat (- v) = nat (- u)" using e show_nat_inj by (simp add: version_text_def)
    then show ?thesis using \<open>v < 0\<close> \<open>u < 0\<close> by simp
  next
    assume "\<not> v < 0" "\<not> u < 0"
    then have "nat v = nat u" using e show_nat_inj by (simp add: version_text_def)
    then show ?thesis using \<open>\<not> v < 0\<close> \<open>\<not> u < 0\<close> by simp
  qed (use e nh nh[symmetric] in \<open>auto simp: version_text_def\<close>)
qed

lemma scope_version_inj:
  assumes "scope_version_text vs = scope_version_text us" "length vs = length us" "length vs = 2 \<or> length vs = 3"
  shows "vs ! 1 = us ! 1 \<and> (length vs = 3 \<longrightarrow> vs ! 2 = us ! 2)"
proof (cases "length vs = 3")
  case True
  have "split_on (CHR ''.'') (version_text a @ CHR ''.'' # version_text b) = [version_text a, version_text b]" for a b
    by (simp add: split_on_append_sep split_on_absent version_text_colon)
  moreover have "version_text (vs ! 1) @ CHR ''.'' # version_text (vs ! 2) = version_text (us ! 1) @ CHR ''.'' # version_text (us ! 2)"
    using assms(1,2) True by (simp add: scope_version_text_def)
  ultimately have "[version_text (vs ! 1), version_text (vs ! 2)] = [version_text (us ! 1), version_text (us ! 2)]" by metis
  then show ?thesis using version_text_inj by simp
next
  case False
  then show ?thesis using assms version_text_inj by (simp add: scope_version_text_def)
qed

lemma counters_length: "length (counters r) = (if dependsOnPlatform r then 3 else 2)"
  by (simp add: counters_def)

lemma label_inj: "request_ok r \<Longrightarrow> request_ok s \<Longrightarrow> scopeLabel (rq_tenant r) = scopeLabel (rq_tenant s) \<Longrightarrow> rq_tenant r = rq_tenant s"
  by (auto simp: request_ok_def scopeLabel_def or_else_def split: option.splits)

lemma label_no_colon: "request_ok r \<Longrightarrow> CHR '':'' \<notin> set (scopeLabel (rq_tenant r))"
proof -
  have p: "CHR '':'' \<notin> set PLATFORM_SCOPE" by code_simp
  show "request_ok r \<Longrightarrow> CHR '':'' \<notin> set (scopeLabel (rq_tenant r))"
    using p by (auto simp: request_ok_def scopeLabel_def or_else_def split: option.splits)
qed

lemma kind_text_inj: "kind_text k = kind_text l \<Longrightarrow> k = l"
proof -
  have "kind_text Perms \<noteq> kind_text Roles" by code_simp
  then show "kind_text k = kind_text l \<Longrightarrow> k = l" by (cases k; cases l) auto
qed

lemma actor_type_inj: "actor_type a = actor_type b \<Longrightarrow> a = b"
proof -
  have "actor_type True \<noteq> actor_type False" by code_simp
  then show "actor_type a = actor_type b \<Longrightarrow> a = b" by (cases a; cases b) auto
qed

abbreviation key_parts :: "rb_request \<Rightarrow> int list \<Rightarrow> string list" where
  "key_parts r vs \<equiv> [''rbac'', scopeLabel (rq_tenant r), scope_version_text vs, version_text (vs ! 0),
     kind_text (rq_kind r), actor_type (rq_admin r), rq_actor r]"

lemma key_parts_no_colon:
  assumes "request_ok r"
  shows "list_all (\<lambda>p. CHR '':'' \<notin> set p) (key_parts r vs)"
proof -
  have k: "CHR '':'' \<notin> set ''rbac''" "CHR '':'' \<noteq> CHR ''.''" "CHR '':'' \<notin> set (kind_text Perms)" "CHR '':'' \<notin> set (kind_text Roles)"
    "CHR '':'' \<notin> set (actor_type True)" "CHR '':'' \<notin> set (actor_type False)" by code_simp+
  have kind: "CHR '':'' \<notin> set (kind_text (rq_kind r))" using k(3,4) by (cases "rq_kind r") simp_all
  have ty: "CHR '':'' \<notin> set (actor_type (rq_admin r))" using k(5,6) by (cases "rq_admin r") simp_all
  have s: "CHR '':'' \<notin> set (scope_version_text vs)" using version_text_colon k(2) by (simp add: scope_version_text_def)
  have i: "CHR '':'' \<notin> set (rq_actor r)" using assms by (simp add: request_ok_def)
  show ?thesis by (simp only: list.pred_inject k(1) kind ty s i label_no_colon[OF assms] version_text_colon(1) simp_thms)
qed

lemma actorKey_split:
  assumes "request_ok r"
  shows "split_on (CHR '':'') (actorKey r vs) = key_parts r vs"
  unfolding actorKey_def
proof (rule split_join[OF list.distinct(2)])
  have all: "\<forall>p\<in>set (key_parts r vs). CHR '':'' \<notin> set p" using key_parts_no_colon[OF assms] unfolding list_all_iff .
  fix p
  assume "p \<in> set (key_parts r vs)"
  with all show "CHR '':'' \<notin> set p" by (rule bspec)
qed

lemma actorKey_inj:
  assumes r: "request_ok r" "length vs = length (counters r)" and s: "request_ok s" "length us = length (counters s)"
    and e: "actorKey r vs = actorKey s us"
  shows "r = s \<and> vs = us"
proof -
  have p: "scopeLabel (rq_tenant r) = scopeLabel (rq_tenant s)" "scope_version_text vs = scope_version_text us"
    "version_text (vs ! 0) = version_text (us ! 0)" "kind_text (rq_kind r) = kind_text (rq_kind s)"
    "actor_type (rq_admin r) = actor_type (rq_admin s)" "rq_actor r = rq_actor s"
    using actorKey_split[OF r(1), of vs] actorKey_split[OF s(1), of us] e by simp_all
  have rs: "r = s"
    using label_inj[OF r(1) s(1) p(1)] kind_text_inj[OF p(4)] actor_type_inj[OF p(5)] p(6) by (intro rb_request.equality) simp_all
  have len: "length vs = length us" "length vs = 2 \<or> length vs = 3" using r(2) s(2) rs by (simp_all add: counters_length)
  have "vs ! 0 = us ! 0" using version_text_inj[OF p(3)] .
  moreover have "vs ! 1 = us ! 1 \<and> (length vs = 3 \<longrightarrow> vs ! 2 = us ! 2)" by (rule scope_version_inj[OF p(2) len])
  ultimately have "vs = us" using len by (intro nth_equalityI) (auto simp: less_Suc_eq numeral_2_eq_2 numeral_3_eq_3)
  then show ?thesis using rs by blast
qed

lemma counter_key_parts: "request_ok r \<Longrightarrow> k \<in> set (counters r) \<Longrightarrow> length (split_on (CHR '':'') k) = 3"
proof -
  have two: "scopeVersionKey s = ''rbac'' @ CHR '':'' # ''ver'' @ CHR '':'' # s" for s by (simp add: scopeVersionKey_def)
  have n: "CHR '':'' \<notin> set ''rbac''" "CHR '':'' \<notin> set ''ver''" "CHR '':'' \<notin> set PLATFORM_SCOPE" by code_simp+
  have three: "CHR '':'' \<notin> set s \<Longrightarrow> length (split_on (CHR '':'') (scopeVersionKey s)) = 3" for s
    unfolding two split_on_append_sep[OF n(1)] split_on_append_sep[OF n(2)] by (simp add: split_on_absent)
  have g: "length (split_on (CHR '':'') GLOBAL_VERSION_KEY) = 3" by code_simp
  show "request_ok r \<Longrightarrow> k \<in> set (counters r) \<Longrightarrow> length (split_on (CHR '':'') k) = 3"
    using three[OF label_no_colon[of r]] three[OF n(3)] g by (auto simp: counters_def split: if_splits)
qed

lemma actorKey_not_counter: "request_ok r \<Longrightarrow> request_ok s \<Longrightarrow> actorKey r vs \<notin> set (counters s)"
proof
  assume "request_ok r" "request_ok s" "actorKey r vs \<in> set (counters s)"
  then have "length (split_on (CHR '':'') (actorKey r vs)) = 3" using counter_key_parts by blast
  then show False using actorKey_split[OF \<open>request_ok r\<close>, of vs] by simp
qed

lemma keys_not_Nil [simp]: "actorKey r vs \<noteq> []" "k \<in> set (counters r) \<Longrightarrow> k \<noteq> []" "bumped_key iv \<noteq> []"
proof -
  have g: "GLOBAL_VERSION_KEY \<noteq> []" by code_simp
  have s: "scopeVersionKey x \<noteq> []" for x by (simp add: scopeVersionKey_def)
  show "actorKey r vs \<noteq> []" by (simp add: actorKey_def)
  show "k \<in> set (counters r) \<Longrightarrow> k \<noteq> []" using g s s[symmetric] by (auto simp: counters_def split: if_splits)
  show "bumped_key iv \<noteq> []" using g s by (auto simp: bumped_key_def split: invalidation.split)
qed

section \<open>The driver on counters and envelopes\<close>

definition permanent :: "envelope cache \<Rightarrow> string \<Rightarrow> bool" where
  "permanent c k \<longleftrightarrow> (\<forall>e. raw c k = Some e \<longrightarrow> expiresAt e = None \<and> (\<exists>n\<ge>0. cvalue e = CNum n))"

lemma get_effect:
  assumes "cache_get now k c = Inr (c', x)"
  shows "x = live c now k" and "raw c' k' = (if k' = k \<and> live c now k = None then None else raw c k')"
  using assms
  by (auto simp: cache_get_def Let_def live_def raw_def store_purge split: if_splits option.splits)

lemma set_effect:
  assumes "cache_set now k v ttl c = Inr c'"
  shows "raw c' k' = (if k' = k then Some \<lparr>cvalue = v, expiresAt = expiry now ttl\<rparr> else raw c k')"
  using assms by (auto simp: cache_set_def raw_def put_def split: if_splits)

lemma incr_effect:
  assumes "cache_increment k 1 c = Inr (c', n)"
  shows "raw c' k' = (if k' = k then Some \<lparr>cvalue = CNum (counter c k + 1), expiresAt = (case raw c k of Some e \<Rightarrow> expiresAt e | None \<Rightarrow> None)\<rparr> else raw c k')"
proof -
  have "k \<noteq> []" using assms by (auto simp: cache_increment_def)
  then show ?thesis using assms
    by (cases "raw c k") (auto simp: cache_increment_def Let_def raw_def put_def counter_def version_of_def split: option.splits cached.splits)
qed

lemma permanent_live: "permanent c k \<Longrightarrow> live c now k = map_option cvalue (raw c k)"
  by (auto simp: permanent_def live_def raw_def isExpired_def split: option.splits)

lemma permanent_nonneg: "permanent c k \<Longrightarrow> 0 \<le> counter c k"
  by (cases "raw c k") (auto simp: permanent_def counter_def version_of_def)

lemma permanent_get: "cache_get now k c = Inr (c', x) \<Longrightarrow> permanent c k' \<Longrightarrow> raw c' k' = raw c k'"
  using get_effect(2)[of now k c c' x k'] permanent_live[of c k' now] by auto

lemma permanent_incr:
  assumes "cache_increment k 1 c = Inr (c', n)" "permanent c k'"
  shows "permanent c' k' \<and> counter c' k' = (if k' = k then counter c k + 1 else counter c k')"
  using incr_effect[OF assms(1), of k'] assms(2) permanent_nonneg[OF assms(2)]
  by (auto simp: permanent_def counter_def version_of_def split: option.splits)

section \<open>The invariant\<close>

definition seen :: "rb_world \<Rightarrow> rb_request \<Rightarrow> int list \<Rightarrow> bool" where
  "seen w r vs \<longleftrightarrow> request_ok r \<and> length vs \<le> length (counters r) \<and> (\<forall>i<length vs. vs ! i \<le> counter (rw_cache w) (counters r ! i))"

definition fresh :: "rb_world \<Rightarrow> rb_request \<Rightarrow> envelope \<Rightarrow> bool" where
  "fresh w r e \<longleftrightarrow> (\<exists>s t. s \<le> t \<and> t \<le> rw_now w \<and> en_v e = live_resolution r t (rw_db w) \<and> en_exp e = earliest_expiry r s (rw_db w))"

definition full :: "rb_request \<Rightarrow> int list \<Rightarrow> bool" where
  "full r vs \<longleftrightarrow> length vs = length (counters r)"

fun call_fine :: "rb_world \<Rightarrow> rb_call \<Rightarrow> bool" where
  "call_fine w (Reading r vs) \<longleftrightarrow> seen w r vs"
| "call_fine w (Missed r vs) \<longleftrightarrow> seen w r vs \<and> full r vs"
| "call_fine w (Expiry_read r vs e) \<longleftrightarrow> seen w r vs \<and> full r vs \<and> (current w r vs \<longrightarrow> (\<exists>s\<le>rw_now w. e = earliest_expiry r s (rw_db w)))"
| "call_fine w (Resolved r vs e) \<longleftrightarrow> seen w r vs \<and> full r vs \<and> (current w r vs \<longrightarrow> fresh w r e)"
| "call_fine w (Answered r v) \<longleftrightarrow> True"

definition entries_fine :: "rb_world \<Rightarrow> bool" where
  "entries_fine w \<longleftrightarrow> (\<forall>r vs e env. request_ok r \<longrightarrow> full r vs \<longrightarrow> raw (rw_cache w) (actorKey r vs) = Some e \<longrightarrow> cvalue e = CData env
     \<longrightarrow> seen w r vs \<and> (current w r vs \<longrightarrow> fresh w r env))"

definition counters_fine :: "rb_world \<Rightarrow> bool" where
  "counters_fine w \<longleftrightarrow> (\<forall>r k. request_ok r \<longrightarrow> k \<in> set (counters r) \<longrightarrow> permanent (rw_cache w) k)"

definition calls_fine :: "rb_world \<Rightarrow> bool" where
  "calls_fine w \<longleftrightarrow> (\<forall>c x. rw_calls w c = Some x \<longrightarrow> call_fine w x)"

definition rb_inv :: "rb_world \<Rightarrow> bool" where
  "rb_inv w \<longleftrightarrow> rbac_wf (rw_db w) \<and> counters_fine w \<and> entries_fine w \<and> calls_fine w"

text \<open>How one state follows another for the requests that have read their versions.\<close>

definition follows :: "rb_world \<Rightarrow> rb_world \<Rightarrow> bool" where
  "follows w w' \<longleftrightarrow> rw_now w \<le> rw_now w'
     \<and> (\<forall>r k. request_ok r \<longrightarrow> k \<in> set (counters r) \<longrightarrow> counter (rw_cache w) k \<le> counter (rw_cache w') k)
     \<and> (\<forall>r vs. seen w r vs \<longrightarrow> full r vs \<longrightarrow> current w' r vs \<longrightarrow> current w r vs \<and> same_view r (rw_db w) (rw_db w'))"

lemma follows_seen: "follows w w' \<Longrightarrow> seen w r vs \<Longrightarrow> seen w' r vs"
  unfolding follows_def seen_def by (meson dual_order.strict_trans1 nth_mem order_trans)

lemma follows_fresh: "follows w w' \<Longrightarrow> seen w r vs \<Longrightarrow> full r vs \<Longrightarrow> (current w r vs \<longrightarrow> fresh w r e) \<Longrightarrow> current w' r vs \<Longrightarrow> fresh w' r e"
  unfolding follows_def fresh_def same_view_def by (metis order_trans)

lemma follows_call: "follows w w' \<Longrightarrow> call_fine w x \<Longrightarrow> call_fine w' x"
proof (cases x)
  case (Expiry_read r vs e)
  assume f: "follows w w'" and c: "call_fine w x"
  have "\<exists>s\<le>rw_now w'. e = earliest_expiry r s (rw_db w')" if "current w' r vs"
    using f c that unfolding Expiry_read follows_def same_view_def call_fine.simps by (metis order_trans)
  then show ?thesis using c follows_seen[OF f] by (simp add: Expiry_read)
next
  case (Resolved r vs e)
  assume f: "follows w w'" and c: "call_fine w x"
  then show ?thesis using follows_fresh[OF f, of r vs e] follows_seen[OF f] by (simp add: Resolved)
qed (use follows_seen in auto)

lemma entries_follow:
  assumes f: "follows w w'" and e: "entries_fine w"
    and old: "\<And>r vs e env. request_ok r \<Longrightarrow> full r vs \<Longrightarrow> raw (rw_cache w') (actorKey r vs) = Some e \<Longrightarrow> cvalue e = CData env
      \<Longrightarrow> raw (rw_cache w) (actorKey r vs) = Some e \<or> seen w' r vs \<and> (current w' r vs \<longrightarrow> fresh w' r env)"
  shows "entries_fine w'"
  unfolding entries_fine_def
proof (intro allI impI)
  fix r vs e env
  assume a: "request_ok r" "full r vs" "raw (rw_cache w') (actorKey r vs) = Some e" "cvalue e = CData env"
  from old[OF a] show "seen w' r vs \<and> (current w' r vs \<longrightarrow> fresh w' r env)"
  proof
    assume "raw (rw_cache w) (actorKey r vs) = Some e"
    then have "seen w r vs \<and> (current w r vs \<longrightarrow> fresh w r env)" using e a unfolding entries_fine_def by blast
    then show ?thesis using follows_seen[OF f] follows_fresh[OF f _ a(2)] by blast
  qed
qed

lemma rb_inv_follow:
  assumes inv: "rb_inv w" and f: "follows w w'" and wf: "rbac_wf (rw_db w')" and cf: "counters_fine w'"
    and old: "\<And>r vs e env. request_ok r \<Longrightarrow> full r vs \<Longrightarrow> raw (rw_cache w') (actorKey r vs) = Some e \<Longrightarrow> cvalue e = CData env
      \<Longrightarrow> raw (rw_cache w) (actorKey r vs) = Some e \<or> seen w' r vs \<and> (current w' r vs \<longrightarrow> fresh w' r env)"
    and calls: "\<And>c x. rw_calls w' c = Some x \<Longrightarrow> rw_calls w c = Some x \<or> call_fine w' x"
  shows "rb_inv w'"
  using inv wf cf entries_follow[OF f _ old] calls follows_call[OF f] unfolding rb_inv_def calls_fine_def by blast

section \<open>The steps keep the invariant\<close>

lemma rb_inv_quiet:
  assumes inv: "rb_inv w" and n: "rw_now w \<le> rw_now w'" and db: "rw_db w' = rw_db w" and p: "rw_pending w' = rw_pending w"
    and k: "\<And>r k. request_ok r \<Longrightarrow> k \<in> set (counters r) \<Longrightarrow> raw (rw_cache w') k = raw (rw_cache w) k"
    and old: "follows w w' \<Longrightarrow> (\<And>r vs e env. request_ok r \<Longrightarrow> full r vs \<Longrightarrow> raw (rw_cache w') (actorKey r vs) = Some e \<Longrightarrow> cvalue e = CData env
      \<Longrightarrow> raw (rw_cache w) (actorKey r vs) = Some e \<or> seen w' r vs \<and> (current w' r vs \<longrightarrow> fresh w' r env))"
    and calls: "follows w w' \<Longrightarrow> (\<And>c x. rw_calls w' c = Some x \<Longrightarrow> rw_calls w c = Some x \<or> call_fine w' x)"
  shows "rb_inv w'"
proof -
  have c: "request_ok r \<Longrightarrow> k \<in> set (counters r) \<Longrightarrow> counter (rw_cache w') k = counter (rw_cache w) k" for r k
    using k by (simp add: counter_def)
  have cur: "request_ok r \<Longrightarrow> current w' r vs \<longleftrightarrow> current w r vs" for r vs using c p by (simp add: current_def cong: map_cong)
  have f: "follows w w'" using n c cur by (auto simp: follows_def same_view_def db seen_def)
  have "counters_fine w'" using inv k by (simp add: rb_inv_def counters_fine_def permanent_def)
  moreover have "rbac_wf (rw_db w')" using inv db by (simp add: rb_inv_def)
  ultimately show ?thesis using rb_inv_follow[OF inv f _ _ old[OF f] calls[OF f]] by blast
qed

lemma rb_inv_call:
  assumes "rb_inv w" "\<And>y. x = Some y \<Longrightarrow> call_fine w y"
  shows "rb_inv (put_call c x w)"
proof -
  have "call_fine (put_call c x w) y = call_fine w y" for y
    by (cases y) (simp_all add: put_call_def seen_def current_def fresh_def)
  then show ?thesis using assms
    by (auto simp: rb_inv_def put_call_def counters_fine_def entries_fine_def calls_fine_def seen_def current_def fresh_def)
qed

lemma inv_call: "rb_inv w \<Longrightarrow> rw_calls w c = Some x \<Longrightarrow> call_fine w x"
  by (simp add: rb_inv_def calls_fine_def)

lemma inv_permanent: "rb_inv w \<Longrightarrow> request_ok r \<Longrightarrow> k \<in> set (counters r) \<Longrightarrow> permanent (rw_cache w) k"
  by (auto simp: rb_inv_def counters_fine_def)

lemma rb_inv_get:
  assumes inv: "rb_inv w" and g: "cache_get (rw_now w) k (rw_cache w) = Inr (c', x)"
  shows "rb_inv (w\<lparr>rw_cache := c'\<rparr>)"
    and "request_ok r \<Longrightarrow> k' \<in> set (counters r) \<Longrightarrow> counter c' k' = counter (rw_cache w) k'"
proof -
  have s: "request_ok r \<Longrightarrow> k' \<in> set (counters r) \<Longrightarrow> raw c' k' = raw (rw_cache w) k'" for r k'
    using permanent_get[OF g] inv_permanent[OF inv] by blast
  then show "request_ok r \<Longrightarrow> k' \<in> set (counters r) \<Longrightarrow> counter c' k' = counter (rw_cache w) k'" by (simp add: counter_def)
  show "rb_inv (w\<lparr>rw_cache := c'\<rparr>)"
    using s get_effect(2)[OF g] by (intro rb_inv_quiet[OF inv]) (auto split: if_splits)
qed

lemma seen_calls [simp]: "seen (put_call c x w) r vs = seen w r vs" "current (put_call c x w) r vs = current w r vs"
  by (simp_all add: put_call_def seen_def current_def)

lemma seen_zero: "rb_inv w \<Longrightarrow> seen w r vs \<Longrightarrow> length vs < length (counters r) \<Longrightarrow> seen w r (if length vs < 2 then [0, 0] else vs @ [0])"
  using permanent_nonneg[OF inv_permanent, of w r] nth_mem[of _ "counters r"]
  by (auto simp: seen_def nth_append less_Suc_eq counters_length numeral_2_eq_2 numeral_3_eq_3 split: if_splits)

lemma seen_read:
  assumes inv: "rb_inv w" and s: "seen w r vs" and l: "length vs < length (counters r)"
    and g: "cache_get (rw_now w) (counters r ! length vs) (rw_cache w) = Inr (c', x)"
  shows "seen (w\<lparr>rw_cache := c'\<rparr>) r (vs @ [version_of x])"
proof -
  have ok: "request_ok r" using s by (simp add: seen_def)
  have m: "i < length (counters r) \<Longrightarrow> counter c' (counters r ! i) = counter (rw_cache w) (counters r ! i)" for i
    using rb_inv_get(2)[OF inv g ok] by simp
  have "version_of x = counter (rw_cache w) (counters r ! length vs)"
    using get_effect(1)[OF g] permanent_live[OF inv_permanent[OF inv ok nth_mem[OF l]]] by (simp add: counter_def)
  then show ?thesis using s l m by (auto simp: seen_def nth_append less_Suc_eq)
qed

lemma store_raw:
  "raw (store_result now k e c) k' = raw c k' \<or> k' = k \<and> (\<exists>x. raw (store_result now k e c) k' = Some x \<and> cvalue x = CData e)"
  using set_effect[of now k "CData e" "Some (ttl_sec now (en_exp e))" c] by (auto simp: store_result_def split: sum.splits)

lemma rb_inv_store:
  assumes inv: "rb_inv w" and c: "call_fine w (Resolved r vs e)"
  shows "rb_inv (w\<lparr>rw_cache := store_result (rw_now w) (actorKey r vs) e (rw_cache w)\<rparr>)"
proof (rule rb_inv_quiet[OF inv])
  let ?w = "w\<lparr>rw_cache := store_result (rw_now w) (actorKey r vs) e (rw_cache w)\<rparr>"
  have ok: "request_ok r" "full r vs" using c by (simp_all add: seen_def)
  show "request_ok s \<Longrightarrow> k \<in> set (counters s) \<Longrightarrow> raw (rw_cache ?w) k = raw (rw_cache w) k" for s k
    using store_raw[of "rw_now w" "actorKey r vs" e "rw_cache w" k] actorKey_not_counter[OF ok(1)] by auto
  fix s us x env
  assume f: "follows w ?w" and a: "request_ok s" "full s us" "raw (rw_cache ?w) (actorKey s us) = Some x" "cvalue x = CData env"
  show "raw (rw_cache w) (actorKey s us) = Some x \<or> seen ?w s us \<and> (current ?w s us \<longrightarrow> fresh ?w s env)"
  proof (cases "raw (rw_cache w) (actorKey s us) = Some x")
    case False
    then have k: "actorKey s us = actorKey r vs" "env = e" using store_raw[of "rw_now w" "actorKey r vs" e "rw_cache w" "actorKey s us"] a(3,4) by auto
    have "s = r \<and> us = vs" using actorKey_inj[OF a(1) _ ok(1) _ k(1)] a(2) ok(2) by (simp add: full_def)
    then show ?thesis using follows_call[OF f c] k(2) by simp
  qed blast
qed simp_all

lemma concerns_append: "concerns (xs @ ys) r \<longleftrightarrow> concerns xs r \<or> concerns ys r"
  by (simp add: concerns_def)

lemma rb_inv_change:
  assumes inv: "rb_inv w" and q: "handle_rbac q (rw_db w) = Inr (db', ivs) \<or> handle_admin t tenants by p (rw_db w) = (db', Inr ivs)"
  shows "rb_inv (w\<lparr>rw_db := db', rw_pending := rw_pending w @ ivs\<rparr>)"
proof -
  let ?w = "w\<lparr>rw_db := db', rw_pending := rw_pending w @ ivs\<rparr>"
  have wf: "rbac_wf (rw_db w)" using inv by (simp add: rb_inv_def)
  have "rbac_wf db'" using q rbac_request_wf[OF wf] admin_request_wf[OF wf, of t tenants "by" p] by auto
  moreover have "counters_fine ?w" using inv by (simp add: rb_inv_def counters_fine_def)
  moreover have "follows w ?w"
    using mutation_same[OF wf q] by (auto simp: follows_def current_def concerns_append)
  ultimately show ?thesis by (intro rb_inv_follow[OF inv]) simp_all
qed

lemma seen_current_bump:
  assumes s: "seen w r vs" "full r vs" and m: "map g (counters r) = vs" and b: "k \<in> set (counters r)" "g k = counter (rw_cache w) k + 1"
  shows False
proof -
  obtain i where i: "i < length (counters r)" "counters r ! i = k" using b(1) by (auto simp: in_set_conv_nth)
  have "vs ! i \<le> counter (rw_cache w) k" using s i by (auto simp: seen_def full_def)
  moreover have "vs ! i = g k" using m i by auto
  ultimately show False using b(2) by simp
qed

lemma rb_inv_bump:
  assumes inv: "rb_inv w" and p: "rw_pending w = xs @ iv # ys" and g: "cache_increment (bumped_key iv) 1 (rw_cache w) = Inr (c', n)"
  shows "rb_inv (w\<lparr>rw_cache := c', rw_pending := xs @ ys\<rparr>)"
proof (rule rb_inv_follow[OF inv])
  let ?w = "w\<lparr>rw_cache := c', rw_pending := xs @ ys\<rparr>"
  have c: "request_ok r \<Longrightarrow> k \<in> set (counters r) \<Longrightarrow> permanent c' k \<and> counter c' k = (if k = bumped_key iv then counter (rw_cache w) k + 1 else counter (rw_cache w) k)" for r k
    using permanent_incr[OF g inv_permanent[OF inv]] incr_effect[OF g, of k] by (fastforce simp: counter_def)
  then show "counters_fine ?w" by (simp add: counters_fine_def)
  show "rbac_wf (rw_db ?w)" using inv by (simp add: rb_inv_def)
  show "follows w ?w"
    unfolding follows_def
  proof (intro conjI allI impI)
    show "rw_now w \<le> rw_now ?w" by simp
    show "request_ok r \<Longrightarrow> k \<in> set (counters r) \<Longrightarrow> counter (rw_cache w) k \<le> counter (rw_cache ?w) k" for r k using c by simp
    fix r vs
    assume s: "seen w r vs" "full r vs" and cu: "current ?w r vs"
    have ok: "request_ok r" using s by (simp add: seen_def)
    have nb: "bumped_key iv \<notin> set (counters r)"
      using seen_current_bump[OF s, of "counter c'" "bumped_key iv"] c[OF ok] cu by (auto simp: current_def)
    then have "map (counter c') (counters r) = map (counter (rw_cache w)) (counters r)" using c[OF ok] by auto
    moreover have "map (counter c') (counters r) = vs" using cu by (simp add: current_def)
    ultimately have "map (counter (rw_cache w)) (counters r) = vs" by (rule trans[OF sym])
    then show "current w r vs" using cu nb p unfolding current_def concerns_def by simp
    show "same_view r (rw_db w) (rw_db ?w)" by (simp add: same_view_def)
  qed
  fix r vs e env
  assume "raw (rw_cache ?w) (actorKey r vs) = Some e" "cvalue e = CData env"
  then show "raw (rw_cache w) (actorKey r vs) = Some e \<or> seen ?w r vs \<and> (current ?w r vs \<longrightarrow> fresh ?w r env)"
    using incr_effect[OF g, of "actorKey r vs"] by (auto split: if_splits)
qed simp

lemma rb_inv_step:
  assumes "rb_step w w'" and inv: "rb_inv w"
  shows "rb_inv w'"
  using assms(1)
proof cases
  case (ask c r)
  then show ?thesis by (auto intro!: rb_inv_call[OF inv] simp: seen_def)
next
  case (read_version c r vs c' x)
  have "seen (w\<lparr>rw_cache := c'\<rparr>) r (vs @ [version_of x])"
    using seen_read[OF inv _ read_version(3,4)] inv_call[OF inv read_version(2)] by simp
  then show ?thesis unfolding read_version(1) by (intro rb_inv_call[OF rb_inv_get(1)[OF inv read_version(4)]]) auto
next
  case (versions_fail c r vs)
  then show ?thesis using seen_zero[OF inv _ versions_fail(3)] inv_call[OF inv versions_fail(2)] by (auto intro!: rb_inv_call[OF inv])
next
  case (look_up c r vs c' x)
  have s: "seen w r vs" using inv_call[OF inv look_up(2)] by simp
  then have ok: "request_ok r" by (simp add: seen_def)
  have "i < length (counters r) \<Longrightarrow> counter c' (counters r ! i) = counter (rw_cache w) (counters r ! i)" for i
    using rb_inv_get(2)[OF inv look_up(4) ok] by simp
  then have "seen (w\<lparr>rw_cache := c'\<rparr>) r vs" using s look_up(3) by (simp add: seen_def)
  then show ?thesis unfolding look_up(1)
    by (intro rb_inv_call[OF rb_inv_get(1)[OF inv look_up(4)]]) (auto simp: full_def look_up(3) split: option.splits)
next
  case (look_up_fails c r vs)
  then show ?thesis by (auto intro!: rb_inv_call[OF inv])
next
  case (read_expiry c r vs)
  then show ?thesis using inv_call[OF inv read_expiry(2)] by (auto intro!: rb_inv_call[OF inv])
next
  case (run_fn c r vs e)
  have "call_fine w (Resolved r vs \<lparr>en_v = live_resolution r (rw_now w) (rw_db w), en_exp = e\<rparr>)"
    using inv_call[OF inv run_fn(2)] by (auto simp: fresh_def)
  then show ?thesis unfolding run_fn(1) by (intro rb_inv_call[OF inv]) (auto simp del: call_fine.simps)
next
  case (store_value c r vs e)
  show ?thesis unfolding store_value(1)
    by (intro rb_inv_call[OF rb_inv_store[OF inv inv_call[OF inv store_value(2)]]]) simp
next
  case (store_fails c r vs e)
  then show ?thesis by (auto intro!: rb_inv_call[OF inv])
next
  case (return_value c r v)
  then show ?thesis by (auto intro!: rb_inv_call[OF inv])
next
  case (change q db' ivs)
  then show ?thesis using rb_inv_change[OF inv] by blast
next
  case (change_admin t tenants "by" q db' ivs)
  then show ?thesis using rb_inv_change[OF inv] by blast
next
  case (invalidate xs iv ys c' n)
  then show ?thesis using rb_inv_bump[OF inv] by blast
next
  case (tick t)
  then show ?thesis by (auto intro!: rb_inv_quiet[OF inv])
qed

lemma rb_inv_fresh: "fresh_world w \<Longrightarrow> rb_inv w"
  by (simp add: fresh_world_def rb_inv_def counters_fine_def entries_fine_def calls_fine_def permanent_def raw_def)

lemma rb_inv_reach: "rb_reach w0 w \<Longrightarrow> fresh_world w0 \<Longrightarrow> rb_inv w"
  by (induction rule: rb_reach.induct) (auto intro: rb_inv_fresh rb_inv_step)

section \<open>An unexpired entry is the live answer\<close>

lemma unexpired_between:
  assumes "s \<le> t" "t \<le> n" "case earliest_expiry r s db of None \<Rightarrow> True | Some e \<Rightarrow> n < e"
  shows "filter (unexpired t) (actor_grants r db) = filter (unexpired n) (actor_grants r db)"
proof (rule filter_cong[OF refl])
  let ?ts = "filter (\<lambda>t. s < t) (List.map_filter gr_expires (actor_grants r db))"
  fix g
  assume g: "g \<in> set (actor_grants r db)"
  have "n < x" if x: "gr_expires g = Some x" "s < x" for x
  proof -
    have m: "x \<in> set ?ts" using g x by (force simp: List.map_filter_def)
    then have sm: "x \<in> set (sort ?ts)" unfolding set_sort .
    then obtain e es where e: "sort ?ts = e # es" by (cases "sort ?ts") (simp only: list.set empty_iff)
    have "x \<in> set (e # es)" using sm unfolding e .
    moreover have "sorted (e # es)" using sorted_sort[of ?ts] unfolding e .
    ultimately have "e \<le> x" by auto
    moreover have "n < e" using assms(3) e by (simp add: earliest_actor_grants)
    ultimately show ?thesis by simp
  qed
  then show "unexpired t g = unexpired n g" using assms(1,2) by (fastforce simp: unexpired_def split: option.splits)
qed

lemma live_between:
  assumes "s \<le> t" "t \<le> n" "case earliest_expiry r s db of None \<Rightarrow> True | Some e \<Rightarrow> n < e"
  shows "live_resolution r t db = live_resolution r n db"
  using unexpired_between[OF assms]
  by (simp add: live_resolution_def resolvePermissionsForActor_def resolveRolesForActor_def held_actor_grants split: rb_kind.split)

lemma usable_Some: "usable now x = Some v \<longleftrightarrow> (\<exists>e. x = Some (CData e) \<and> v = en_v e \<and> (case en_exp e of None \<Rightarrow> True | Some t \<Rightarrow> now < t))"
proof (cases x)
  case (Some y)
  then show ?thesis by (cases y) (auto simp: usable_def split: option.split)
qed (simp add: usable_def)

lemma fresh_live:
  assumes "fresh w r e" "case en_exp e of None \<Rightarrow> True | Some t \<Rightarrow> rw_now w < t"
  shows "en_v e = live_resolution r (rw_now w) (rw_db w)"
  using assms live_between unfolding fresh_def by (metis (no_types, lifting))

section \<open>A run\<close>

definition demo_db :: rbac where
  "demo_db = demo_rbac\<lparr>db_grants := map (\<lambda>g. g\<lparr>gr_expires := Some 50000\<rparr>) (db_grants demo_rbac)\<rparr>"

definition demo_request :: rb_request where
  "demo_request = \<lparr>rq_kind = Perms, rq_admin = False, rq_actor = ''u1'', rq_tenant = Some ''t1''\<rparr>"

definition demo_rc :: "envelope cache" where
  "demo_rc = createMemoryCache None None"

definition demo_world :: rb_world where
  "demo_world = \<lparr>rw_db = demo_db, rw_cache = demo_rc, rw_now = 0, rw_pending = [], rw_calls = (\<lambda>_. None)\<rparr>"

definition demo_envelope :: envelope where
  "demo_envelope = \<lparr>en_v = [''iam.view''], en_exp = Some 50000\<rparr>"

definition demo_filled :: "envelope cache" where
  "demo_filled = store_result 0 (actorKey demo_request [0, 0]) demo_envelope demo_rc"

lemma demo_facts:
  "length (counters demo_request) = 2"
  "cache_get 0 (counters demo_request ! 0) demo_rc = Inr (demo_rc, None)"
  "cache_get 0 (counters demo_request ! Suc 0) demo_rc = Inr (demo_rc, None)"
  "cache_get 0 (actorKey demo_request [0, 0]) demo_rc = Inr (demo_rc, None)"
  "earliest_expiry demo_request 0 demo_db = Some 50000" "live_resolution demo_request 0 demo_db = [''iam.view'']"
  "cache_get 10000 (actorKey demo_request [0, 0]) demo_filled = Inr (demo_filled, Some (CData demo_envelope))"
  "usable 10000 (Some (CData demo_envelope)) = Some [''iam.view'']"
  "request_ok demo_request" "map (counter demo_filled) (counters demo_request) = [0, 0]" "rbac_wf demo_db" "store demo_rc = []"
  by code_simp+

abbreviation demo_at :: "rb_call \<Rightarrow> rb_world" where
  "demo_at x \<equiv> put_call 0 (Some x) demo_world"

lemma demo_move:
  assumes "rb_reach demo_world w" "rb_step w w'" "w' = v"
  shows "rb_reach demo_world v"
  using rb_next[OF assms(1,2)] assms(3) by simp

lemma demo_cached_run: "rb_reach demo_world (put_call 0 (Some (Answered demo_request [''iam.view''])) (demo_world\<lparr>rw_cache := demo_filled, rw_now := 10000\<rparr>))"
proof -
  have at: "rw_calls (demo_at x) 0 = Some x" "rw_now (demo_at x) = 0" "rw_cache (demo_at x) = demo_rc" "rw_db (demo_at x) = demo_db"
    "put_call 0 (Some y) (demo_at x) = demo_at y" "put_call 0 (Some y) (demo_at x\<lparr>rw_cache := demo_rc\<rparr>) = demo_at y" for x y
    by (simp_all add: put_call_def demo_world_def)
  have "rw_calls demo_world 0 = None" by (simp add: demo_world_def)
  from rb_next[OF rb_start ask[OF this demo_facts(9)]] have s: "rb_reach demo_world (demo_at (Reading demo_request []))" .
  have "rb_reach demo_world (demo_at (Reading demo_request [0]))"
    by (rule demo_move[OF s read_version[OF at(1), where c' = demo_rc and x = None]]) (simp_all add: at demo_facts version_of_def)
  then have "rb_reach demo_world (demo_at (Reading demo_request [0, 0]))"
    by (rule demo_move[OF _ read_version[OF at(1), where c' = demo_rc and x = None]]) (simp_all add: at demo_facts version_of_def)
  then have "rb_reach demo_world (demo_at (Missed demo_request [0, 0]))"
    by (rule demo_move[OF _ look_up[OF at(1), where c' = demo_rc and x = None]]) (simp_all add: at demo_facts usable_def)
  then have "rb_reach demo_world (demo_at (Expiry_read demo_request [0, 0] (Some 50000)))"
    by (rule demo_move[OF _ read_expiry[OF at(1)]]) (simp add: at demo_facts)
  then have "rb_reach demo_world (demo_at (Resolved demo_request [0, 0] demo_envelope))"
    by (rule demo_move[OF _ run_fn[OF at(1)]]) (simp add: at demo_facts demo_envelope_def)
  then have "rb_reach demo_world (put_call 0 (Some (Answered demo_request [''iam.view''])) (demo_world\<lparr>rw_cache := demo_filled\<rparr>))"
    by (rule demo_move[OF _ store_value[OF at(1)]]) (simp add: at demo_filled_def, simp add: put_call_def demo_world_def demo_envelope_def)
  then show ?thesis
    by (rule demo_move[OF _ tick[of _ 10000]]) (simp_all add: put_call_def demo_world_def)
qed

section \<open>The property\<close>

text \<open>C12. The cache is transparent: whatever requests, changes, invalidations, driver failures and clock ticks came
  before, a request that reads its counters, with none of their invalidations still to come, and then hits the
  cache returns exactly what the database gives at that moment, expired grants included.\<close>

theorem rbac_cache_transparent:
  assumes "rb_reach w0 w" and "fresh_world w0" and "request_ok r" and "full r vs" and "current w r vs"
    and "cache_get (rw_now w) (actorKey r vs) (rw_cache w) = Inr (c', x)" and "usable (rw_now w) x = Some v"
  shows "v = live_resolution r (rw_now w) (rw_db w)"
proof -
  have inv: "rb_inv w" by (rule rb_inv_reach[OF assms(1,2)])
  obtain e where e: "x = Some (CData e)" "v = en_v e" "case en_exp e of None \<Rightarrow> True | Some t \<Rightarrow> rw_now w < t"
    using assms(7) usable_Some by blast
  obtain y where y: "raw (rw_cache w) (actorKey r vs) = Some y" "cvalue y = CData e"
    using get_effect(1)[OF assms(6)] e(1) by (auto simp: live_def raw_def split: option.splits if_splits)
  have "fresh w r e" using inv assms(3-5) y unfolding rb_inv_def entries_fine_def by blast
  then show ?thesis using fresh_live e(2,3) by blast
qed

theorem rbac_cache_transparent_witness:
  "\<exists>w. rb_reach demo_world w \<and> rw_now w = 10000 \<and> cache_get 10000 (actorKey demo_request [0, 0]) (rw_cache w) = Inr (demo_filled, Some (CData demo_envelope))
     \<and> en_v demo_envelope = live_resolution demo_request 10000 (rw_db w)"
proof -
  let ?w = "put_call 0 (Some (Answered demo_request [''iam.view''])) (demo_world\<lparr>rw_cache := demo_filled, rw_now := 10000\<rparr>)"
  have f: "rw_now ?w = 10000" "rw_cache ?w = demo_filled" "rw_pending ?w = []" by (simp_all add: put_call_def demo_world_def)
  have "fresh_world demo_world" using demo_facts(11,12) by (simp add: fresh_world_def demo_world_def)
  moreover have "full demo_request [0, 0]" using demo_facts(1) by (simp add: full_def)
  moreover have "current ?w demo_request [0, 0]" unfolding current_def f demo_facts(10) by (simp add: concerns_def)
  ultimately have "[''iam.view''] = live_resolution demo_request 10000 (rw_db ?w)"
    using rbac_cache_transparent[OF demo_cached_run _ demo_facts(9), of "[0, 0]"] demo_facts(7,8) unfolding f by blast
  then show ?thesis using demo_cached_run f demo_facts(7) unfolding demo_envelope_def by auto
qed

end
