(* ===== verification/UsageQuota.thy ===== *)
theory UsageQuota
  imports Prelude IsoText
begin

text \<open>
  Usage accounting: the counters (\<open>src/models/UsageCounter.js\<close>, \<open>src/repositories/usageCounter.repository.js\<close>), the
  ledger of reservations (\<open>src/models/UsageReservation.js\<close>, \<open>src/repositories/usageReservation.repository.js\<close>) and the
  service over them (\<open>src/services/usage.service.js\<close>), each call run on its own. The effective entitlement of a
  tenant and the counted resources are arguments. A metric that is missing or unknown is \<open>None\<close>.
\<close>

section \<open>Metrics and periods\<close>

datatype usage_metric = Members | Connectors | Dashboards | Reports | Alerts | ScheduledReports | StoredRows | ApiCallsPerDay | AiQuestionsPerDay

definition USAGE_METRICS :: "usage_metric list" where
  "USAGE_METRICS = [Members, Connectors, Dashboards, Reports, Alerts, ScheduledReports, StoredRows, ApiCallsPerDay, AiQuestionsPerDay]"

datatype usage_period = Current_count | Per_day

definition periodOf :: "usage_metric \<Rightarrow> usage_period" where
  "periodOf m = (if m = ApiCallsPerDay \<or> m = AiQuestionsPerDay then Per_day else Current_count)"

definition DAY_MS :: int where
  "DAY_MS = 24 * 60 * 60 * 1000"

definition periodKeyFor :: "usage_metric \<Rightarrow> int \<Rightarrow> string" where
  "periodKeyFor m t = (case periodOf m of Per_day \<Rightarrow> take 10 (toISOString t) | Current_count \<Rightarrow> ''current'')"

text \<open>\<open>Date.UTC\<close> of the next day is the next multiple of a day.\<close>

definition periodEndFor :: "usage_metric \<Rightarrow> int \<Rightarrow> int option" where
  "periodEndFor m t = (case periodOf m of Per_day \<Rightarrow> Some ((t div DAY_MS + 1) * DAY_MS) | Current_count \<Rightarrow> None)"

definition meteredExpiry :: "int \<Rightarrow> usage_metric \<Rightarrow> int \<Rightarrow> int option" where
  "meteredExpiry retentionDays m now = map_option (\<lambda>e. e + retentionDays * DAY_MS) (periodEndFor m now)"

definition RECONCILED_METRICS :: "usage_metric list" where
  "RECONCILED_METRICS = [Members, Connectors, Dashboards, Reports, ScheduledReports, Alerts, StoredRows]"

section \<open>Counters\<close>

record counter_row =
  cr_value :: int
  cr_last :: "int option"
  cr_reconciled :: "int option"
  cr_expires :: "int option"

type_synonym counter_key = "string \<times> usage_metric \<times> string"
type_synonym usage_counters = "counter_key \<Rightarrow> counter_row option"

datatype usage_error = Usage_bad_request | Write_blocked | Quota_exceeded int int int int | Repository_error

definition row_value :: "counter_row option \<Rightarrow> int" where
  "row_value x = (case x of None \<Rightarrow> 0 | Some r \<Rightarrow> cr_value r)"

text \<open>\<open>$inc\<close> with an upsert: an absent row starts from the delta.\<close>

definition bump :: "int \<Rightarrow> counter_key \<Rightarrow> int \<Rightarrow> int option \<Rightarrow> usage_counters \<Rightarrow> usage_counters" where
  "bump now k delta expiresAt cs = cs(k \<mapsto> (case cs k of
     None \<Rightarrow> \<lparr>cr_value = delta, cr_last = Some now, cr_reconciled = None, cr_expires = expiresAt\<rparr>
   | Some r \<Rightarrow> r\<lparr>cr_value := cr_value r + delta, cr_last := Some now\<rparr>))"

definition incrementOrCreate :: "int \<Rightarrow> counter_key \<Rightarrow> int \<Rightarrow> usage_counters \<Rightarrow> (usage_error, usage_counters \<times> int) res" where
  "incrementOrCreate now k delta cs =
     (if delta = 0 then Inl Repository_error else let cs' = bump now k delta None cs in Inr (cs', row_value (cs' k)))"

definition incrementSilently :: "int \<Rightarrow> counter_key \<Rightarrow> int \<Rightarrow> int option \<Rightarrow> usage_counters \<Rightarrow> (usage_error, usage_counters \<times> int) res" where
  "incrementSilently now k delta expiresAt cs =
     (if delta \<le> 0 then Inl Repository_error else let cs' = bump now k delta expiresAt cs in Inr (cs', row_value (cs' k)))"

text \<open>One conditional upsert: \<open>None\<close> is the duplicate key error, which says that the row exists and has no room.\<close>

definition tryIncrement :: "int \<Rightarrow> counter_key \<Rightarrow> int \<Rightarrow> int \<Rightarrow> int option \<Rightarrow> usage_counters \<Rightarrow> usage_counters option" where
  "tryIncrement now k delta mx expiresAt cs =
     (case cs k of Some r \<Rightarrow> if cr_value r \<le> mx - delta then Some (bump now k delta expiresAt cs) else None
      | None \<Rightarrow> Some (bump now k delta expiresAt cs))"

text \<open>The loop of at most five attempts, when nobody else writes in between.\<close>

fun attempts :: "nat \<Rightarrow> int \<Rightarrow> counter_key \<Rightarrow> int \<Rightarrow> int \<Rightarrow> int option \<Rightarrow> usage_counters \<Rightarrow> usage_counters \<times> bool \<times> int" where
  "attempts 0 now k delta mx expiresAt cs = (cs, False, row_value (cs k))"
| "attempts (Suc n) now k delta mx expiresAt cs =
     (case tryIncrement now k delta mx expiresAt cs of
        Some cs' \<Rightarrow> (cs', True, row_value (cs' k))
      | None \<Rightarrow> (case cs k of
           None \<Rightarrow> (cs, False, 0)
         | Some r \<Rightarrow> if mx - delta < cr_value r then (cs, False, cr_value r) else attempts n now k delta mx expiresAt cs))"

definition incrementWithinLimit ::
  "int \<Rightarrow> counter_key \<Rightarrow> int \<Rightarrow> int \<Rightarrow> int option \<Rightarrow> usage_counters \<Rightarrow> (usage_error, usage_counters \<times> bool \<times> int) res" where
  "incrementWithinLimit now k delta mx expiresAt cs =
     (if delta \<le> 0 \<or> mx < 0 then Inl Repository_error
      else if mx < delta then Inr (cs, False, row_value (cs k))
      else Inr (attempts 5 now k delta mx expiresAt cs))"

definition decrementClamped :: "int \<Rightarrow> counter_key \<Rightarrow> int \<Rightarrow> usage_counters \<Rightarrow> (usage_error, usage_counters \<times> int) res" where
  "decrementClamped now k delta cs =
     (if delta \<le> 0 then Inl Repository_error
      else case cs k of
        None \<Rightarrow> Inr (cs, 0)
      | Some r \<Rightarrow> let v = max 0 (cr_value r - delta) in Inr (cs(k \<mapsto> r\<lparr>cr_value := v, cr_last := Some now\<rparr>), v))"

text \<open>\<open>expected\<close> is what the caller read; \<open>None\<close> means the row did not exist.\<close>

definition compareAndSet :: "int \<Rightarrow> counter_key \<Rightarrow> counter_row option \<Rightarrow> int \<Rightarrow> usage_counters \<Rightarrow> (usage_error, usage_counters \<times> bool) res" where
  "compareAndSet now k expected v cs =
     (if v < 0 then Inl Repository_error
      else case expected of
        None \<Rightarrow> (case cs k of
            None \<Rightarrow> Inr (cs(k \<mapsto> \<lparr>cr_value = v, cr_last = None, cr_reconciled = Some now, cr_expires = None\<rparr>), True)
          | Some r \<Rightarrow> Inr (cs, False))
      | Some x \<Rightarrow> (case cs k of
            None \<Rightarrow> Inr (cs, False)
          | Some r \<Rightarrow> if cr_value r = cr_value x \<and> cr_last r = cr_last x
              then Inr (cs(k \<mapsto> r\<lparr>cr_value := v, cr_reconciled := Some now\<rparr>), True) else Inr (cs, False)))"

definition setToActual :: "int \<Rightarrow> counter_key \<Rightarrow> int \<Rightarrow> usage_counters \<Rightarrow> (usage_error, usage_counters) res" where
  "setToActual now k v cs =
     (if v < 0 then Inl Repository_error
      else Inr (cs(k \<mapsto> (case cs k of
        None \<Rightarrow> \<lparr>cr_value = v, cr_last = None, cr_reconciled = Some now, cr_expires = None\<rparr>
      | Some r \<Rightarrow> r\<lparr>cr_value := v, cr_reconciled := Some now\<rparr>))))"

definition getUsageMap :: "string \<Rightarrow> string \<Rightarrow> usage_counters \<Rightarrow> (usage_metric \<times> int) list" where
  "getUsageMap t p cs = map (\<lambda>m. (m, row_value (cs (t, m, p)))) USAGE_METRICS"

section \<open>The ledger of reservations\<close>

record reservation =
  rv_reserved :: int
  rv_remaining :: int
  rv_settled :: "int option"
  rv_voided :: "int option"
  rv_stale :: int
  rv_updated :: int
  rv_expires :: int

type_synonym ledger = "((string \<times> usage_metric \<times> string) \<times> reservation) list"

definition lingerUntil :: "int \<Rightarrow> int \<Rightarrow> int" where
  "lingerUntil now lingerMs = now + max 0 lingerMs"

definition ledger_create :: "int \<Rightarrow> string \<times> usage_metric \<times> string \<Rightarrow> int \<Rightarrow> int \<Rightarrow> int \<Rightarrow> ledger \<Rightarrow> (usage_error, ledger) res" where
  "ledger_create now k amount staleAt expiresAt led =
     (if snd (snd k) = [] \<or> amount \<le> 0 \<or> map_of led k \<noteq> None then Inl Repository_error
      else Inr (led @ [(k, \<lparr>rv_reserved = amount, rv_remaining = amount, rv_settled = None, rv_voided = None,
        rv_stale = staleAt, rv_updated = now, rv_expires = expiresAt\<rparr>)]))"

definition ledger_draw :: "int \<Rightarrow> string \<times> usage_metric \<times> string \<Rightarrow> int \<Rightarrow> ledger \<Rightarrow> ledger \<times> int" where
  "ledger_draw now k mx led =
     (if snd (snd k) = [] \<or> mx \<le> 0 then (led, 0)
      else case map_of led k of
        Some r \<Rightarrow> if rv_settled r = None \<and> 0 < rv_remaining r
          then (alist_set k (r\<lparr>rv_remaining := max 0 (rv_remaining r - mx), rv_updated := now\<rparr>) led, min (rv_remaining r) mx) else (led, 0)
      | None \<Rightarrow> (led, 0))"

definition ledger_giveBack :: "int \<Rightarrow> string \<times> usage_metric \<times> string \<Rightarrow> int \<Rightarrow> ledger \<Rightarrow> ledger \<times> bool" where
  "ledger_giveBack now k amount led =
     (if snd (snd k) = [] \<or> amount \<le> 0 then (led, True)
      else case map_of led k of
        Some r \<Rightarrow> if rv_settled r = None then (alist_set k (r\<lparr>rv_remaining := rv_remaining r + amount, rv_updated := now\<rparr>) led, True) else (led, False)
      | None \<Rightarrow> (led, False))"

definition ledger_settle :: "int \<Rightarrow> int \<Rightarrow> string \<times> usage_metric \<times> string \<Rightarrow> ledger \<Rightarrow> ledger \<times> int" where
  "ledger_settle now lingerMs k led =
     (if snd (snd k) = [] then (led, 0)
      else case map_of led k of
        Some r \<Rightarrow> if rv_settled r = None
          then (alist_set k (r\<lparr>rv_remaining := 0, rv_settled := Some now, rv_updated := now, rv_expires := lingerUntil now lingerMs\<rparr>) led, max 0 (rv_remaining r))
          else (led, 0)
      | None \<Rightarrow> (led, 0))"

definition void_one :: "int \<Rightarrow> int \<Rightarrow> string \<Rightarrow> (string \<times> usage_metric \<times> string) \<times> reservation \<Rightarrow> (string \<times> usage_metric \<times> string) \<times> reservation" where
  "void_one now lingerMs t e = (case e of (k, r) \<Rightarrow>
     if fst k = t \<and> rv_settled r = None \<and> rv_stale r \<le> now
     then (k, r\<lparr>rv_remaining := 0, rv_settled := Some now, rv_voided := Some now, rv_expires := lingerUntil now lingerMs\<rparr>) else (k, r))"

definition voidStale :: "int \<Rightarrow> int \<Rightarrow> string \<Rightarrow> ledger \<Rightarrow> ledger" where
  "voidStale now lingerMs t led = map (void_one now lingerMs t) led"

definition outstanding :: "int \<Rightarrow> string \<Rightarrow> usage_metric \<Rightarrow> ledger \<Rightarrow> int" where
  "outstanding now t m led = sum_list (map (\<lambda>(k, r). if fst k = t \<and> fst (snd k) = m \<and> rv_settled r = None \<and> now < rv_stale r then rv_remaining r else 0) led)"

definition last_changed :: "string \<Rightarrow> usage_metric \<Rightarrow> ledger \<Rightarrow> int option" where
  "last_changed t m led = (case map (rv_updated \<circ> snd) (filter (\<lambda>(k, r). fst k = t \<and> fst (snd k) = m) led) of [] \<Rightarrow> None | u # us \<Rightarrow> Some (fold max us u))"

section \<open>The service\<close>

record usage_limit =
  lm_max :: int
  lm_hard :: bool

text \<open>What \<open>entitlementService.resolveEffective\<close> returns of use here.\<close>

record entitlement =
  en_blocked :: bool
  en_limit :: "usage_metric \<Rightarrow> usage_limit option"

record usage_settings =
  meteredRetentionDays :: int
  reservationTtlHours :: int
  reconcileSettleMs :: int

definition quota_error :: "usage_metric \<Rightarrow> int \<Rightarrow> int \<Rightarrow> int \<Rightarrow> usage_error" where
  "quota_error m limit current requested = Quota_exceeded (if periodOf m \<noteq> Current_count then 429 else 409) limit current requested"

text \<open>How a resolved entitlement decides about a metric.\<close>

datatype decision = Blocked | Unbounded | Bounded int

definition decide :: "entitlement \<Rightarrow> usage_metric \<Rightarrow> decision" where
  "decide e m = (if en_blocked e then Blocked
     else case en_limit e m of None \<Rightarrow> Unbounded | Some l \<Rightarrow> if lm_hard l then Bounded (lm_max l) else Unbounded)"

definition incrementUnbounded :: "int \<Rightarrow> counter_key \<Rightarrow> int \<Rightarrow> int option \<Rightarrow> usage_counters \<Rightarrow> (usage_error, usage_counters \<times> int) res" where
  "incrementUnbounded now k delta expiresAt cs =
     (if snd (snd k) = ''current'' then incrementOrCreate now k delta cs else incrementSilently now k delta expiresAt cs)"

text \<open>The answer is the new value and whether a soft limit is passed.\<close>

definition checkAndConsume ::
  "usage_settings \<Rightarrow> entitlement \<Rightarrow> int \<Rightarrow> string \<Rightarrow> usage_metric option \<Rightarrow> int \<Rightarrow> usage_counters \<Rightarrow> (usage_error, usage_counters \<times> int \<times> bool) res" where
  "checkAndConsume st e now t metric requested cs =
     (if t = [] then Inl Usage_bad_request
      else case metric of None \<Rightarrow> Inl Usage_bad_request
      | Some m \<Rightarrow>
        if requested \<le> 0 then Inl Usage_bad_request
        else let k = (t, m, periodKeyFor m now); expiresAt = meteredExpiry (meteredRetentionDays st) m now in
          (case decide e m of
             Blocked \<Rightarrow> Inl Write_blocked
           | Bounded mx \<Rightarrow>
               rbind (incrementWithinLimit now k requested mx expiresAt cs) (\<lambda>(cs', ok, v).
                 if ok then Inr (cs', v, False) else Inl (quota_error m mx v requested))
           | Unbounded \<Rightarrow>
               rbind (incrementUnbounded now k requested expiresAt cs) (\<lambda>(cs', v).
                 Inr (cs', v, case en_limit e m of Some l \<Rightarrow> lm_max l < v | None \<Rightarrow> False))))"

text \<open>\<open>release\<close> never throws: what cannot be given back is ignored.\<close>

definition usage_release :: "int \<Rightarrow> string \<Rightarrow> usage_metric \<Rightarrow> int \<Rightarrow> usage_counters \<Rightarrow> usage_counters" where
  "usage_release now t m requested cs =
     (if t = [] \<or> periodOf m \<noteq> Current_count \<or> requested \<le> 0 then cs
      else case decrementClamped now (t, m, ''current'') requested cs of Inr (cs', v) \<Rightarrow> cs' | Inl e \<Rightarrow> cs)"

definition assertCapacity :: "entitlement \<Rightarrow> int \<Rightarrow> string \<Rightarrow> usage_metric option \<Rightarrow> int \<Rightarrow> usage_counters \<Rightarrow> (usage_error, int) res" where
  "assertCapacity e now t metric requested cs =
     (if t = [] then Inl Usage_bad_request
      else case metric of None \<Rightarrow> Inl Usage_bad_request
      | Some m \<Rightarrow>
        if requested < 0 then Inl Usage_bad_request
        else if en_blocked e then Inl Write_blocked
        else let current = row_value (cs (t, m, periodKeyFor m now)) in
          (case en_limit e m of
             Some l \<Rightarrow> if lm_hard l \<and> lm_max l < current + requested then Inl (quota_error m (lm_max l) current requested) else Inr current
           | None \<Rightarrow> Inr current))"

text \<open>Value, what remains under a limit, and whether a soft limit is passed.\<close>

definition meterApiCall :: "usage_settings \<Rightarrow> entitlement \<Rightarrow> int \<Rightarrow> string \<Rightarrow> usage_counters \<Rightarrow> (usage_error, usage_counters \<times> int \<times> int option \<times> bool) res" where
  "meterApiCall st e now t cs =
     (if t = [] then Inl Usage_bad_request
      else let m = ApiCallsPerDay; k = (t, m, periodKeyFor m now); expiresAt = meteredExpiry (meteredRetentionDays st) m now in
        (case en_limit e m of
           Some l \<Rightarrow>
             if lm_hard l then rbind (incrementWithinLimit now k 1 (lm_max l) expiresAt cs) (\<lambda>(cs', ok, v).
               if ok then Inr (cs', v, Some (max 0 (lm_max l - v)), False) else Inl (quota_error m (lm_max l) v 1))
             else rbind (incrementSilently now k 1 expiresAt cs) (\<lambda>(cs', v). Inr (cs', v, Some (max 0 (lm_max l - v)), lm_max l < v))
         | None \<Rightarrow> rbind (incrementSilently now k 1 expiresAt cs) (\<lambda>(cs', v). Inr (cs', v, None, False))))"

definition adjustStoredRows :: "int \<Rightarrow> string \<Rightarrow> int \<Rightarrow> usage_counters \<Rightarrow> (usage_error, usage_counters) res" where
  "adjustStoredRows now t delta cs =
     (if t = [] then Inl Usage_bad_request
      else if delta = 0 then Inr cs
      else if delta < 0 then Inr (usage_release now t StoredRows (- delta) cs)
      else rbind (incrementOrCreate now (t, StoredRows, ''current'') delta cs) (\<lambda>(cs', v). Inr cs'))"

definition incrementCumulative :: "int \<Rightarrow> string \<Rightarrow> usage_metric option \<Rightarrow> string \<Rightarrow> int \<Rightarrow> usage_counters \<Rightarrow> (usage_error, usage_counters \<times> int) res" where
  "incrementCumulative now t metric period delta cs =
     (if t = [] then Inl Usage_bad_request
      else case metric of None \<Rightarrow> Inl Usage_bad_request
      | Some m \<Rightarrow> if period = [] \<or> delta = 0 then Inl Usage_bad_request else incrementOrCreate now (t, m, period) delta cs)"

section \<open>Reconciliation\<close>

datatype recon_action = No_action | Would_correct | Skipped_recent_activity | Corrected | Skipped_concurrent_change

record recon_entry =
  re_metric :: usage_metric
  re_recorded :: int
  re_actual :: int
  re_action :: recon_action

definition reservationLingerMs :: "usage_settings \<Rightarrow> int" where
  "reservationLingerMs st = max (2 * reconcileSettleMs st) (10 * 60 * 1000)"

definition recent :: "int \<Rightarrow> int \<Rightarrow> int option \<Rightarrow> bool" where
  "recent settleMs now since = (case since of None \<Rightarrow> False | Some t \<Rightarrow> 0 < settleMs \<and> now - t < settleMs)"

text \<open>One metric: \<open>row\<close> was read at the start, \<open>held\<close> is the count plus the open reservations.\<close>

definition reconcile_metric ::
  "usage_settings \<Rightarrow> bool \<Rightarrow> int \<Rightarrow> string \<Rightarrow> int option \<Rightarrow> counter_row option \<Rightarrow> int \<Rightarrow> usage_metric \<Rightarrow> usage_counters \<Rightarrow> (usage_error, usage_counters \<times> recon_entry) res" where
  "reconcile_metric st dryRun now t changed row held m cs =
     (let entry = \<lparr>re_metric = m, re_recorded = row_value row, re_actual = held, re_action = No_action\<rparr> in
      if held - row_value row = 0 then Inr (cs, entry)
      else if dryRun then Inr (cs, entry\<lparr>re_action := Would_correct\<rparr>)
      else if (case row of Some r \<Rightarrow> recent (reconcileSettleMs st) now (cr_last r) | None \<Rightarrow> False) \<or> recent (reconcileSettleMs st) now changed
      then Inr (cs, entry\<lparr>re_action := Skipped_recent_activity\<rparr>)
      else rbind (compareAndSet now (t, m, ''current'') row held cs) (\<lambda>(cs', written).
        Inr (cs', entry\<lparr>re_action := (if written then Corrected else Skipped_concurrent_change)\<rparr>)))"

fun reconcile_all ::
  "(usage_metric \<Rightarrow> usage_counters \<Rightarrow> (usage_error, usage_counters \<times> recon_entry) res) \<Rightarrow> usage_metric list \<Rightarrow> usage_counters \<Rightarrow> (usage_error, usage_counters \<times> recon_entry list) res" where
  "reconcile_all f [] cs = Inr (cs, [])"
| "reconcile_all f (m # ms) cs = rbind (f m cs) (\<lambda>(cs', e). rbind (reconcile_all f ms cs') (\<lambda>(cs'', es). Inr (cs'', e # es)))"

text \<open>\<open>actual\<close> is \<open>countResources\<close>; \<open>others\<close> is what other requests do to the counters between the reads and the writes.\<close>

definition reconcile ::
  "usage_settings \<Rightarrow> bool \<Rightarrow> int \<Rightarrow> string \<Rightarrow> (usage_metric \<Rightarrow> int) \<Rightarrow> (usage_counters \<Rightarrow> usage_counters) \<Rightarrow> usage_counters \<Rightarrow> ledger
     \<Rightarrow> (usage_error, usage_counters \<times> ledger \<times> recon_entry list) res" where
  "reconcile st dryRun now t actual others cs led =
     (if t = [] then Inl Usage_bad_request
      else let led' = (if dryRun then led else voidStale now (reservationLingerMs st) t led) in
        rbind (reconcile_all (\<lambda>m. reconcile_metric st dryRun now t (last_changed t m led') (cs (t, m, ''current'')) (actual m + outstanding now t m led') m)
          RECONCILED_METRICS (others cs)) (\<lambda>(cs', es). Inr (cs', led', es)))"

definition drifted :: "recon_entry list \<Rightarrow> nat" where
  "drifted es = length (filter (\<lambda>e. re_actual e - re_recorded e \<noteq> 0) es)"

section \<open>What a reconciliation does\<close>

lemma row_value_simps [simp]: "row_value None = 0" "row_value (Some r) = cr_value r"
  by (simp_all add: row_value_def)

text \<open>The row is still what was read, for the compare-and-set.\<close>

definition untouched :: "counter_row option \<Rightarrow> counter_row option \<Rightarrow> bool" where
  "untouched row row' \<longleftrightarrow> (case row of None \<Rightarrow> row' = None
     | Some r \<Rightarrow> (case row' of None \<Rightarrow> False | Some r' \<Rightarrow> cr_value r' = cr_value r \<and> cr_last r' = cr_last r))"

lemma compareAndSet_cases:
  "compareAndSet now k row v cs = Inr (cs', written) \<Longrightarrow> 0 \<le> v \<and> written = untouched row (cs k)
     \<and> (\<forall>k'. k' \<noteq> k \<longrightarrow> cs' k' = cs k') \<and> (if written then row_value (cs' k) = v else cs' = cs)"
  by (auto simp: compareAndSet_def untouched_def split: option.splits if_splits)

definition active :: "usage_settings \<Rightarrow> int \<Rightarrow> int option \<Rightarrow> counter_row option \<Rightarrow> bool" where
  "active st now changed row \<longleftrightarrow> (case row of Some r \<Rightarrow> recent (reconcileSettleMs st) now (cr_last r) | None \<Rightarrow> False) \<or> recent (reconcileSettleMs st) now changed"

lemma reconcile_metric_effect:
  assumes "reconcile_metric st dry now t changed row v m cs = Inr (cs', e)"
  shows "(\<forall>k. k \<noteq> (t, m, ''current'') \<longrightarrow> cs' k = cs k) \<and> (dry \<longrightarrow> cs' = cs)
    \<and> (\<not> dry \<longrightarrow> row_value (cs' (t, m, ''current''))
         = (if \<not> active st now changed row \<and> untouched row (cs (t, m, ''current'')) then v else row_value (cs (t, m, ''current''))))"
proof (cases "v = row_value row")
  case True
  then have "cs' = cs" using assms by (simp add: reconcile_metric_def Let_def)
  moreover have "untouched row (cs k) \<Longrightarrow> row_value (cs k) = row_value row" for k by (auto simp: untouched_def split: option.splits)
  ultimately show ?thesis using True by auto
next
  case False
  show ?thesis
  proof (cases "dry \<or> active st now changed row")
    case True
    then have "cs' = cs" using assms False by (auto simp: reconcile_metric_def Let_def active_def split: if_splits)
    then show ?thesis using True by auto
  next
    case idle: False
    then have "\<exists>w. compareAndSet now (t, m, ''current'') row v cs = Inr (cs', w)"
      using assms False unfolding reconcile_metric_def active_def Let_def by (auto simp: rbind_Inr_iff)
    then show ?thesis using compareAndSet_cases idle by (fastforce split: if_splits)
  qed
qed

lemma reconcile_all_effect:
  assumes step: "\<And>m cs cs' e. f m cs = Inr (cs', e) \<Longrightarrow> (\<forall>k. k \<noteq> key m \<longrightarrow> cs' k = cs k) \<and> P m (cs (key m)) (cs' (key m))" and inj: "inj key"
  shows "reconcile_all f ms cs = Inr (cs', es) \<Longrightarrow> distinct ms \<Longrightarrow> (\<forall>k. k \<notin> key ` set ms \<longrightarrow> cs' k = cs k) \<and> (\<forall>m\<in>set ms. P m (cs (key m)) (cs' (key m)))"
proof (induction ms arbitrary: cs es)
  case (Cons m ms)
  obtain cs1 e es1 where h: "f m cs = Inr (cs1, e)" "reconcile_all f ms cs1 = Inr (cs', es1)" using Cons.prems by (auto simp: rbind_Inr_iff)
  have s: "(\<forall>k. k \<noteq> key m \<longrightarrow> cs1 k = cs k) \<and> P m (cs (key m)) (cs1 (key m))" by (rule step[OF h(1)])
  have i: "(\<forall>k. k \<notin> key ` set ms \<longrightarrow> cs' k = cs1 k) \<and> (\<forall>m\<in>set ms. P m (cs1 (key m)) (cs' (key m)))" using Cons.IH[OF h(2)] Cons.prems(2) by simp
  have n: "key m \<notin> key ` set ms" using Cons.prems(2) inj by (auto dest: injD)
  have "cs1 (key x) = cs (key x)" if "x \<in> set ms" for x using s n that by (metis imageI)
  moreover have "cs' (key m) = cs1 (key m)" using i n by blast
  moreover have "cs' k = cs k" if "k \<notin> key ` set (m # ms)" for k
  proof -
    have "k \<noteq> key m" "k \<notin> key ` set ms" using that by auto
    then show ?thesis using s i by metis
  qed
  ultimately show ?case using s i by simp
qed simp

section \<open>The properties\<close>

text \<open>C23. A reconciliation sets each idle counter that nobody changed meanwhile to the resources counted plus the
  open reservations, leaves every other counter as the concurrent requests left it, and a dry run writes nothing.\<close>

theorem reconcile_exact:
  assumes "reconcile st dryRun now t actual others cs led = Inr (cs', led', es)" and "m \<in> set RECONCILED_METRICS"
  shows "row_value (cs' (t, m, ''current''))
      = (if \<not> dryRun \<and> \<not> active st now (last_changed t m led') (cs (t, m, ''current'')) \<and> untouched (cs (t, m, ''current'')) (others cs (t, m, ''current''))
         then actual m + outstanding now t m led' else row_value (others cs (t, m, ''current'')))
    \<and> (dryRun \<longrightarrow> cs' = others cs \<and> led' = led)
    \<and> (\<forall>k. k \<notin> (\<lambda>m. (t, m, ''current'')) ` set RECONCILED_METRICS \<longrightarrow> cs' k = others cs k)"
proof -
  let ?f = "\<lambda>m. reconcile_metric st dryRun now t (last_changed t m led') (cs (t, m, ''current'')) (actual m + outstanding now t m led') m"
  let ?P = "\<lambda>m x y. (dryRun \<longrightarrow> y = x) \<and> (\<not> dryRun \<longrightarrow> row_value y = (if \<not> active st now (last_changed t m led') (cs (t, m, ''current'')) \<and> untouched (cs (t, m, ''current'')) x
      then actual m + outstanding now t m led' else row_value x))"
  have l: "dryRun \<longrightarrow> led' = led" and r: "reconcile_all ?f RECONCILED_METRICS (others cs) = Inr (cs', es)"
    using assms(1) by (auto simp: reconcile_def Let_def rbind_Inr_iff split: if_splits)
  have both: "(\<forall>k. k \<notin> (\<lambda>m. (t, m, ''current'')) ` set RECONCILED_METRICS \<longrightarrow> cs' k = others cs k)
      \<and> (\<forall>m\<in>set RECONCILED_METRICS. ?P m (others cs (t, m, ''current'')) (cs' (t, m, ''current'')))"
  proof (rule reconcile_all_effect[OF _ _ r])
    show "distinct RECONCILED_METRICS" by code_simp
    show "inj (\<lambda>m. (t, m, ''current''))" by (simp add: inj_on_def)
    show "?f m cs1 = Inr (cs2, e) \<Longrightarrow> (\<forall>k. k \<noteq> (t, m, ''current'') \<longrightarrow> cs2 k = cs1 k) \<and> ?P m (cs1 (t, m, ''current'')) (cs2 (t, m, ''current''))" for m cs1 cs2 e
      using reconcile_metric_effect[of st dryRun now t _ _ _ m cs1 cs2 e] by blast
  qed
  have b: "?P m (others cs (t, m, ''current'')) (cs' (t, m, ''current''))" by (rule bspec[OF conjunct2[OF both] assms(2)])
  have c: "cs' = others cs" if "dryRun"
  proof (rule ext)
    fix k
    show "cs' k = others cs k"
    proof (cases "k \<in> (\<lambda>m. (t, m, ''current'')) ` set RECONCILED_METRICS")
      case True
      then obtain x where "k = (t, x, ''current'')" "x \<in> set RECONCILED_METRICS" by blast
      then show ?thesis using bspec[OF conjunct2[OF both], of x] that by simp
    next
      case False
      show ?thesis by (rule mp[OF spec[OF conjunct1[OF both], of k] False])
    qed
  qed
  show ?thesis
  proof (intro conjI impI)
    show "dryRun \<Longrightarrow> cs' = others cs" "dryRun \<Longrightarrow> led' = led" using c l by blast+
    show "\<forall>k. k \<notin> (\<lambda>m. (t, m, ''current'')) ` set RECONCILED_METRICS \<longrightarrow> cs' k = others cs k" by (rule conjunct1[OF both])
    show "row_value (cs' (t, m, ''current''))
      = (if \<not> dryRun \<and> \<not> active st now (last_changed t m led') (cs (t, m, ''current'')) \<and> untouched (cs (t, m, ''current'')) (others cs (t, m, ''current''))
         then actual m + outstanding now t m led' else row_value (others cs (t, m, ''current'')))"
      using b by (cases dryRun) simp_all
  qed
qed

definition demo_settings :: usage_settings where
  "demo_settings = \<lparr>meteredRetentionDays = 90, reservationTtlHours = 24, reconcileSettleMs = 120000\<rparr>"

definition demo_ledger :: ledger where
  "demo_ledger = [((''t1'', StoredRows, ''j''), \<lparr>rv_reserved = 4, rv_remaining = 3, rv_settled = None, rv_voided = None, rv_stale = 900000, rv_updated = 0, rv_expires = 990000\<rparr>),
     ((''t1'', StoredRows, ''k''), \<lparr>rv_reserved = 5, rv_remaining = 5, rv_settled = None, rv_voided = None, rv_stale = 100000, rv_updated = 0, rv_expires = 990000\<rparr>)]"

text \<open>Ten rows are stored, one reservation of three is open and one of five was lost: a counter of 18 becomes 13.\<close>

theorem reconcile_exact_witness:
  "\<exists>cs' led' es. reconcile demo_settings False 500000 ''t1'' (\<lambda>m. if m = StoredRows then 10 else 0) (\<lambda>cs. cs)
       [(''t1'', StoredRows, ''current'') \<mapsto> \<lparr>cr_value = 18, cr_last = Some 1000, cr_reconciled = None, cr_expires = None\<rparr>] demo_ledger = Inr (cs', led', es)
     \<and> row_value (cs' (''t1'', StoredRows, ''current'')) = 13"
proof -
  let ?cs = "[(''t1'', StoredRows, ''current'') \<mapsto> \<lparr>cr_value = 18, cr_last = Some 1000, cr_reconciled = None, cr_expires = None\<rparr>] :: usage_counters"
  let ?a = "\<lambda>m. if m = StoredRows then 10 else (0::int)"
  let ?r = "reconcile demo_settings False 500000 ''t1'' ?a (\<lambda>cs. cs) ?cs demo_ledger"
  have e: "isl ?r = False" "outstanding 500000 ''t1'' StoredRows (fst (snd (projr ?r))) = 3" "StoredRows \<in> set RECONCILED_METRICS"
    "active demo_settings 500000 (last_changed ''t1'' StoredRows (fst (snd (projr ?r)))) (?cs (''t1'', StoredRows, ''current'')) = False"
    "untouched (?cs (''t1'', StoredRows, ''current'')) (?cs (''t1'', StoredRows, ''current'')) = True" by code_simp+
  obtain cs' led' es where r: "?r = Inr (cs', led', es)" using e(1) by (cases ?r) auto
  have "row_value (cs' (''t1'', StoredRows, ''current'')) = 13"
    using reconcile_exact[OF r e(3)] e(2,4,5) unfolding r by simp
  then show ?thesis using r by blast
qed

end
