(* ===== verification/UsageJobs.thy ===== *)
theory UsageJobs
  imports UsageQuota
begin

text \<open>
  Usage accounting under concurrency: the requests of \<open>src/services/usage.service.js\<close> as jobs whose database calls
  are single steps that interleave freely, with the collections they count. A job is what a request still has to
  do; the stored rows of a connector are the row ids of \<open>src/repositories/connectorRow.repository.js\<close>.
\<close>

section \<open>Jobs\<close>

text \<open>
  What a request that consumes quota does next: create resources after the metrics already consumed and those
  still to come (\<open>withQuota\<close>), record a reservation (\<open>reserve\<close>), or write a batch of rows (\<open>createStoredRowsSink\<close>).
\<close>

datatype usage_cont =
    To_create "usage_metric list" "usage_metric list"
  | To_reserve string
  | To_write string "string list" "string option" "string list" int

datatype usage_job =
    Entitling string usage_metric int usage_cont
  | Bumping string usage_metric int usage_cont
  | Trying string usage_metric int int nat usage_cont
  | Rereading string usage_metric int int nat usage_cont
  | Creating string "usage_metric list" int
  | Reserving string usage_metric string int
  | Releasing string "(usage_metric \<times> int) list" "(string \<times> string list) option"
  | Looking string string "string list" "string option"
  | Drawing string string "string list" "string option" "string list"
  | Refunding string string "string option" "string list" int bool
  | Writing string string "string list" "string option" "string list" int
  | Adjusting string int
  | Undoing string "string option" int int
  | Settling string usage_metric string
  | Purging string string

text \<open>The quota is taken.\<close>

fun resume :: "string \<Rightarrow> usage_metric \<Rightarrow> int \<Rightarrow> usage_cont \<Rightarrow> usage_job" where
  "resume t m n (To_create ds []) = Creating t (ds @ [m]) n"
| "resume t m n (To_create ds (x # xs)) = Entitling t x n (To_create (ds @ [m]) xs)"
| "resume t m n (To_reserve key) = Reserving t m key n"
| "resume t m n (To_write c batch key known drawn) = Writing t c batch key known drawn"

text \<open>The quota is refused; \<open>q\<close> tells the quota error from the other errors.\<close>

fun refuse :: "string \<Rightarrow> bool \<Rightarrow> int \<Rightarrow> usage_cont \<Rightarrow> usage_job" where
  "refuse t q n (To_create ds xs) = Releasing t (map (\<lambda>m. (m, n)) ds) None"
| "refuse t q n (To_reserve key) = Releasing t [] None"
| "refuse t q n (To_write c batch key known drawn) = Refunding t c key known drawn q"

section \<open>The collections\<close>

type_synonym stored_rows = "(string \<times> string \<times> string) list"

definition new_ids :: "string \<Rightarrow> string \<Rightarrow> string list \<Rightarrow> stored_rows \<Rightarrow> string list" where
  "new_ids t c ids rows = filter (\<lambda>i. (t, c, i) \<notin> set rows) (remdups ids)"

definition upsertRows :: "string \<Rightarrow> string \<Rightarrow> string list \<Rightarrow> stored_rows \<Rightarrow> stored_rows \<times> int" where
  "upsertRows t c ids rows = (rows @ map (\<lambda>i. (t, c, i)) (new_ids t c ids rows), int (length (new_ids t c ids rows)))"

definition findExistingSourceRowIds :: "string \<Rightarrow> string \<Rightarrow> string list \<Rightarrow> stored_rows \<Rightarrow> string list" where
  "findExistingSourceRowIds t c ids rows = filter (\<lambda>i. (t, c, i) \<in> set rows) (remdups ids)"

definition deleteForConnector :: "string \<Rightarrow> string \<Rightarrow> stored_rows \<Rightarrow> stored_rows \<times> int" where
  "deleteForConnector t c rows = (filter (\<lambda>(t', c', i). \<not> (t' = t \<and> c' = c)) rows, int (length (filter (\<lambda>(t', c', i). t' = t \<and> c' = c) rows)))"

definition fresh_rows :: "string list \<Rightarrow> string list \<Rightarrow> int" where
  "fresh_rows batch known = max 0 (int (length (remdups batch)) - int (length known))"

text \<open>A sink without a reservation draws nothing.\<close>

definition credit_draw :: "int \<Rightarrow> string \<Rightarrow> string option \<Rightarrow> int \<Rightarrow> ledger \<Rightarrow> ledger \<times> int" where
  "credit_draw now t key mx led = (case key of None \<Rightarrow> (led, 0) | Some k \<Rightarrow> ledger_draw now (t, StoredRows, k) mx led)"

definition credit_giveBack :: "int \<Rightarrow> string \<Rightarrow> string option \<Rightarrow> int \<Rightarrow> ledger \<Rightarrow> ledger \<times> bool" where
  "credit_giveBack now t key amount led =
     (if amount \<le> 0 then (led, True) else case key of None \<Rightarrow> (led, False) | Some k \<Rightarrow> ledger_giveBack now (t, StoredRows, k) amount led)"

record usage_world =
  uw_counters :: usage_counters
  uw_ledger :: ledger
  uw_rows :: stored_rows
  uw_resources :: "string \<times> usage_metric \<Rightarrow> int"
  uw_jobs :: "usage_job list"
  uw_now :: int
  uw_lost :: "string \<times> usage_metric \<Rightarrow> int"
  uw_hidden :: "string \<times> usage_metric \<Rightarrow> int"
  uw_forced :: "string \<times> usage_metric \<Rightarrow> int"
  uw_clamped :: "string \<times> usage_metric \<Rightarrow> int"

text \<open>
  The last four are history, which no code reads: capacity that crashes, failed releases and voided reservations
  left on the counter; rows stored beyond the capacity taken for them; rows counted after they were stored,
  past any limit; and what releases could not take because a counter stops at zero.
\<close>

definition charge :: "string \<Rightarrow> usage_metric \<Rightarrow> int \<Rightarrow> (string \<times> usage_metric \<Rightarrow> int) \<Rightarrow> string \<times> usage_metric \<Rightarrow> int" where
  "charge t m n g = g((t, m) := g (t, m) + n)"

text \<open>Capacity a job holds on the counters and that no collection shows yet.\<close>

fun cont_held :: "int \<Rightarrow> usage_cont \<Rightarrow> usage_metric \<Rightarrow> int" where
  "cont_held n (To_create ds xs) m = n * int (count_list ds m)"
| "cont_held n (To_reserve key) m = 0"
| "cont_held n (To_write c batch key known drawn) m = (if m = StoredRows then drawn else 0)"

fun held :: "usage_job \<Rightarrow> string \<Rightarrow> usage_metric \<Rightarrow> int" where
  "held (Entitling u x n k) t m = (if u = t then cont_held n k m else 0)"
| "held (Bumping u x n k) t m = (if u = t then cont_held n k m else 0)"
| "held (Trying u x n mx i k) t m = (if u = t then cont_held n k m else 0)"
| "held (Rereading u x n mx i k) t m = (if u = t then cont_held n k m else 0)"
| "held (Creating u ms n) t m = (if u = t then n * int (count_list ms m) else 0)"
| "held (Reserving u x key n) t m = (if u = t \<and> x = m then n else 0)"
| "held (Releasing u xs after) t m = (if u = t then sum_list (map (\<lambda>(x, n). if x = m then n else 0) xs) else 0)"
| "held (Looking u c batch key) t m = 0"
| "held (Drawing u c batch key known) t m = 0"
| "held (Refunding u c key known drawn q) t m = (if u = t \<and> m = StoredRows then drawn else 0)"
| "held (Writing u c batch key known drawn) t m = (if u = t \<and> m = StoredRows then fresh_rows batch known else 0)"
| "held (Adjusting u d) t m = 0"
| "held (Undoing u key back rest) t m = (if u = t \<and> m = StoredRows then back + rest else 0)"
| "held (Settling u x key) t m = 0"
| "held (Purging u c) t m = (if u = t \<and> m = Connectors then 1 else 0)"

fun batch_on :: "string \<Rightarrow> string \<Rightarrow> usage_job \<Rightarrow> bool" where
  "batch_on t c (Entitling u x n (To_write c' batch key known drawn)) = (u = t \<and> c' = c)"
| "batch_on t c (Bumping u x n (To_write c' batch key known drawn)) = (u = t \<and> c' = c)"
| "batch_on t c (Trying u x n mx i (To_write c' batch key known drawn)) = (u = t \<and> c' = c)"
| "batch_on t c (Rereading u x n mx i (To_write c' batch key known drawn)) = (u = t \<and> c' = c)"
| "batch_on t c (Drawing u c' batch key known) = (u = t \<and> c' = c)"
| "batch_on t c (Refunding u c' key known drawn q) = (u = t \<and> c' = c)"
| "batch_on t c (Releasing u xs (Some (c', known))) = (u = t \<and> c' = c)"
| "batch_on t c (Writing u c' batch key known drawn) = (u = t \<and> c' = c)"
| "batch_on t c j = False"

text \<open>Open reservations of a tenant.\<close>

definition open_part :: "string \<Rightarrow> usage_metric \<Rightarrow> (string \<times> usage_metric \<times> string) \<times> reservation \<Rightarrow> int" where
  "open_part t m e = (case e of (k, r) \<Rightarrow> if fst k = t \<and> fst (snd k) = m \<and> rv_settled r = None then rv_remaining r else 0)"

definition open_total :: "string \<Rightarrow> usage_metric \<Rightarrow> ledger \<Rightarrow> int" where
  "open_total t m led = sum_list (map (open_part t m) led)"

definition jobs_to :: "usage_job list \<Rightarrow> usage_world \<Rightarrow> usage_world" where
  "jobs_to js w = w\<lparr>uw_jobs := js\<rparr>"

definition counted :: "string \<Rightarrow> usage_metric \<Rightarrow> usage_world \<Rightarrow> int" where
  "counted t m w = row_value (uw_counters w (t, m, ''current''))"

definition resources :: "string \<Rightarrow> usage_metric \<Rightarrow> usage_world \<Rightarrow> int" where
  "resources t m w = (if m = StoredRows then int (length (filter (\<lambda>(u, c, i). u = t) (uw_rows w))) else uw_resources w (t, m))"

section \<open>Steps\<close>

definition unwritten :: "string list \<Rightarrow> string list \<Rightarrow> int \<Rightarrow> int" where
  "unwritten batch known partial = max 0 (fresh_rows batch known - partial)"

definition back_to_reservation :: "string list \<Rightarrow> string list \<Rightarrow> int \<Rightarrow> int \<Rightarrow> int" where
  "back_to_reservation batch known drawn partial = min (unwritten batch known partial) (max 0 (drawn - partial))"

text \<open>What a release leaves undone because the counter stops at zero.\<close>

definition clamped_part :: "string \<Rightarrow> usage_metric \<Rightarrow> int \<Rightarrow> usage_counters \<Rightarrow> usage_counters \<Rightarrow> int" where
  "clamped_part t m n cs cs' =
     (if periodOf m = Current_count then n - (row_value (cs (t, m, ''current'')) - row_value (cs' (t, m, ''current''))) else 0)"

text \<open>
  \<open>E\<close> gives the entitlements a tenant may be resolved to. In an \<open>orderly\<close> run a connector's rows are deleted only
  when no batch for it is in flight, and a failed bulk write reports what it inserted; other runs know no such
  order. A database call that fails has had no effect, except the bulk write. Reconciliation is no step: a run is
  what happens between two of them.
\<close>

inductive usage_step :: "(string \<Rightarrow> entitlement set) \<Rightarrow> bool \<Rightarrow> usage_settings \<Rightarrow> usage_world \<Rightarrow> usage_world \<Rightarrow> bool"
  for E orderly st where
  start_create: "0 < n \<Longrightarrow> t \<noteq> [] \<Longrightarrow> StoredRows \<notin> set (m # ms)
    \<Longrightarrow> usage_step E orderly st w (jobs_to (uw_jobs w @ [Entitling t m n (To_create [] ms)]) w)"
| start_reserve: "0 < n \<Longrightarrow> t \<noteq> [] \<Longrightarrow> key \<noteq> [] \<Longrightarrow> periodOf m = Current_count
    \<Longrightarrow> usage_step E orderly st w (jobs_to (uw_jobs w @ [Entitling t m n (To_reserve key)]) w)"
| start_batch: "t \<noteq> [] \<Longrightarrow> batch \<noteq> [] \<Longrightarrow> key \<noteq> Some [] \<Longrightarrow> usage_step E orderly st w (jobs_to (uw_jobs w @ [Looking t c batch key]) w)"
| start_settle: "t \<noteq> [] \<Longrightarrow> usage_step E orderly st w (jobs_to (uw_jobs w @ [Settling t m key]) w)"
| resolve: "uw_jobs w = xs @ Entitling t m n k # ys \<Longrightarrow> e \<in> E t
    \<Longrightarrow> usage_step E orderly st w (jobs_to (xs @ (case decide e m of Blocked \<Rightarrow> refuse t False n k | Unbounded \<Rightarrow> Bumping t m n k | Bounded mx \<Rightarrow> Trying t m n mx 0 k) # ys) w)"
| bump_counter: "uw_jobs w = xs @ Bumping t m n k # ys
    \<Longrightarrow> usage_step E orderly st w (jobs_to (xs @ resume t m n k # ys)
         (w\<lparr>uw_counters := bump (uw_now w) (t, m, periodKeyFor m (uw_now w)) n (meteredExpiry (meteredRetentionDays st) m (uw_now w)) (uw_counters w)\<rparr>))"
| too_many: "uw_jobs w = xs @ Trying t m n mx i k # ys \<Longrightarrow> mx < n \<Longrightarrow> usage_step E orderly st w (jobs_to (xs @ refuse t True n k # ys) w)"
| try_ok: "uw_jobs w = xs @ Trying t m n mx i k # ys \<Longrightarrow> n \<le> mx
    \<Longrightarrow> tryIncrement (uw_now w) (t, m, periodKeyFor m (uw_now w)) n mx (meteredExpiry (meteredRetentionDays st) m (uw_now w)) (uw_counters w) = Some cs'
    \<Longrightarrow> usage_step E orderly st w (jobs_to (xs @ resume t m n k # ys) (w\<lparr>uw_counters := cs'\<rparr>))"
| try_duplicate: "uw_jobs w = xs @ Trying t m n mx i k # ys \<Longrightarrow> n \<le> mx \<Longrightarrow> uw_counters w (t, m, periodKeyFor m (uw_now w)) \<noteq> None
    \<Longrightarrow> usage_step E orderly st w (jobs_to (xs @ Rereading t m n mx i k # ys) w)"
| reread: "uw_jobs w = xs @ Rereading t m n mx i k # ys
    \<Longrightarrow> usage_step E orderly st w (jobs_to (xs @ (case uw_counters w (t, m, periodKeyFor m (uw_now w)) of
           None \<Rightarrow> refuse t True n k
         | Some r \<Rightarrow> if mx - n < cr_value r \<or> i = 4 then refuse t True n k else Trying t m n mx (Suc i) k) # ys) w)"
| consume_error: "uw_jobs w = xs @ j # ys \<Longrightarrow> (\<exists>mx i. j \<in> {Entitling t m n k, Bumping t m n k, Trying t m n mx i k, Rereading t m n mx i k})
    \<Longrightarrow> usage_step E orderly st w (jobs_to (xs @ refuse t False n k # ys) w)"
| create_ok: "uw_jobs w = xs @ Creating t ms n # ys
    \<Longrightarrow> usage_step E orderly st w (jobs_to (xs @ Releasing t [] None # ys)
         (w\<lparr>uw_resources := (\<lambda>(u, m). uw_resources w (u, m) + (if u = t then n * int (count_list ms m) else 0))\<rparr>))"
| create_fails: "uw_jobs w = xs @ Creating t ms n # ys
    \<Longrightarrow> usage_step E orderly st w (jobs_to (xs @ Releasing t (map (\<lambda>m. (m, n)) ms) None # ys) w)"
| record_reservation: "uw_jobs w = xs @ Reserving t m key n # ys
    \<Longrightarrow> ledger_create (uw_now w) (t, m, key) n (uw_now w + reservationTtlHours st * 3600000) (uw_now w + reservationTtlHours st * 3600000 + 7 * DAY_MS) (uw_ledger w) = Inr led'
    \<Longrightarrow> usage_step E orderly st w (jobs_to (xs @ Releasing t [] None # ys) (w\<lparr>uw_ledger := led'\<rparr>))"
| reservation_fails: "uw_jobs w = xs @ Reserving t m key n # ys \<Longrightarrow> usage_step E orderly st w (jobs_to (xs @ Releasing t [(m, n)] None # ys) w)"
| release_one: "uw_jobs w = xs @ Releasing t ((m, n) # rs) after # ys
    \<Longrightarrow> cs' = usage_release (uw_now w) t m n (uw_counters w)
    \<Longrightarrow> usage_step E orderly st w (jobs_to (xs @ Releasing t rs after # ys)
         (w\<lparr>uw_counters := cs', uw_clamped := charge t m (clamped_part t m n (uw_counters w) cs') (uw_clamped w)\<rparr>))"
| release_error: "uw_jobs w = xs @ Releasing t ((m, n) # rs) after # ys
    \<Longrightarrow> usage_step E orderly st w (jobs_to (xs @ Releasing t rs after # ys) (w\<lparr>uw_lost := charge t m n (uw_lost w)\<rparr>))"
| refresh_known: "uw_jobs w = xs @ Releasing t [] (Some (c, known)) # ys \<Longrightarrow> set part \<subseteq> set known \<Longrightarrow> upsertRows t c part (uw_rows w) = (rows', u)
    \<Longrightarrow> usage_step E orderly st w (jobs_to (xs @ Releasing t [] None # ys) (w\<lparr>uw_rows := rows', uw_hidden := charge t StoredRows u (uw_hidden w)\<rparr>))"
| look: "uw_jobs w = xs @ Looking t c batch key # ys \<Longrightarrow> known = findExistingSourceRowIds t c batch (uw_rows w)
    \<Longrightarrow> usage_step E orderly st w (jobs_to (xs @ (if 0 < fresh_rows batch known then Drawing t c batch key known else Writing t c batch key known 0) # ys) w)"
| draw: "uw_jobs w = xs @ Drawing t c batch key known # ys \<Longrightarrow> credit_draw (uw_now w) t key (fresh_rows batch known) (uw_ledger w) = (led', d)
    \<Longrightarrow> usage_step E orderly st w (jobs_to (xs @ (if d < fresh_rows batch known
           then Entitling t StoredRows (fresh_rows batch known - d) (To_write c batch key known d) else Writing t c batch key known d) # ys) (w\<lparr>uw_ledger := led'\<rparr>))"
| refund: "uw_jobs w = xs @ Refunding t c key known drawn q # ys \<Longrightarrow> credit_giveBack (uw_now w) t key drawn (uw_ledger w) = (led', kept)
    \<Longrightarrow> usage_step E orderly st w (jobs_to (xs @ Releasing t (if kept then [] else [(StoredRows, drawn)]) (if q \<and> known \<noteq> [] then Some (c, known) else None) # ys)
         (w\<lparr>uw_ledger := led'\<rparr>))"
| refund_error: "uw_jobs w = xs @ Refunding t c key known drawn q # ys
    \<Longrightarrow> usage_step E orderly st w (jobs_to (xs @ Releasing t [(StoredRows, drawn)] (if q \<and> known \<noteq> [] then Some (c, known) else None) # ys) w)"
| upsert_ok: "uw_jobs w = xs @ Writing t c batch key known drawn # ys \<Longrightarrow> upsertRows t c batch (uw_rows w) = (rows', u)
    \<Longrightarrow> usage_step E orderly st w (jobs_to (xs @ (if fresh_rows batch known < u then Adjusting t (u - fresh_rows batch known)
           else Releasing t [(StoredRows, fresh_rows batch known - u)] None) # ys)
         (w\<lparr>uw_rows := rows', uw_hidden := charge t StoredRows (max 0 (u - fresh_rows batch known)) (uw_hidden w)\<rparr>))"
| adjust: "uw_jobs w = xs @ Adjusting t d # ys
    \<Longrightarrow> usage_step E orderly st w (jobs_to (xs @ Releasing t [] None # ys)
         (w\<lparr>uw_counters := bump (uw_now w) (t, StoredRows, ''current'') d None (uw_counters w), uw_forced := charge t StoredRows d (uw_forced w)\<rparr>))"
| adjust_error: "uw_jobs w = xs @ Adjusting t d # ys \<Longrightarrow> usage_step E orderly st w (jobs_to (xs @ Releasing t [] None # ys) w)"
| upsert_fails: "uw_jobs w = xs @ Writing t c batch key known drawn # ys \<Longrightarrow> set part \<subseteq> set batch \<Longrightarrow> upsertRows t c part (uw_rows w) = (rows', u)
    \<Longrightarrow> partial = u \<or> \<not> orderly \<and> partial = 0
    \<Longrightarrow> usage_step E orderly st w (jobs_to (xs @ Undoing t key (back_to_reservation batch known drawn partial)
           (unwritten batch known partial - back_to_reservation batch known drawn partial) # ys)
         (w\<lparr>uw_rows := rows', uw_hidden := charge t StoredRows (u - min (fresh_rows batch known) partial) (uw_hidden w)\<rparr>))"
| undo: "uw_jobs w = xs @ Undoing t key back rest # ys \<Longrightarrow> credit_giveBack (uw_now w) t key back (uw_ledger w) = (led', kept)
    \<Longrightarrow> usage_step E orderly st w (jobs_to (xs @ Releasing t ((if kept then [] else [(StoredRows, back)]) @ [(StoredRows, rest)]) None # ys) (w\<lparr>uw_ledger := led'\<rparr>))"
| undo_error: "uw_jobs w = xs @ Undoing t key back rest # ys
    \<Longrightarrow> usage_step E orderly st w (jobs_to (xs @ Releasing t [(StoredRows, back), (StoredRows, rest)] None # ys) w)"
| settle: "uw_jobs w = xs @ Settling t m key # ys \<Longrightarrow> ledger_settle (uw_now w) (reservationLingerMs st) (t, m, key) (uw_ledger w) = (led', left)
    \<Longrightarrow> usage_step E orderly st w (jobs_to (xs @ Releasing t [(m, left)] None # ys) (w\<lparr>uw_ledger := led'\<rparr>))"
| remove_resource: "m \<noteq> StoredRows \<Longrightarrow> 0 < n \<Longrightarrow> n \<le> uw_resources w (t, m) \<Longrightarrow> t \<noteq> []
    \<Longrightarrow> usage_step E orderly st w (jobs_to (uw_jobs w @ [Releasing t [(m, n)] None]) (w\<lparr>uw_resources := (uw_resources w)((t, m) := uw_resources w (t, m) - n)\<rparr>))"
| remove_connector: "1 \<le> uw_resources w (t, Connectors) \<Longrightarrow> t \<noteq> []
    \<Longrightarrow> usage_step E orderly st w (jobs_to (uw_jobs w @ [Purging t c]) (w\<lparr>uw_resources := (uw_resources w)((t, Connectors) := uw_resources w (t, Connectors) - 1)\<rparr>))"
| purge_rows: "uw_jobs w = xs @ Purging t c # ys \<Longrightarrow> (orderly \<longrightarrow> \<not> list_ex (batch_on t c) (uw_jobs w)) \<Longrightarrow> deleteForConnector t c (uw_rows w) = (rows', n)
    \<Longrightarrow> usage_step E orderly st w (jobs_to (xs @ Releasing t [(Connectors, 1), (StoredRows, n)] None # ys) (w\<lparr>uw_rows := rows'\<rparr>))"
| void_stale: "led' = voidStale (uw_now w) (reservationLingerMs st) t (uw_ledger w)
    \<Longrightarrow> usage_step E orderly st w (w\<lparr>uw_ledger := led', uw_lost := (\<lambda>(u, m). uw_lost w (u, m) + open_total u m (uw_ledger w) - open_total u m led')\<rparr>)"
| ledger_ttl: "uw_ledger w = es @ (k, r) # bs \<Longrightarrow> rv_expires r \<le> uw_now w
    \<Longrightarrow> usage_step E orderly st w (w\<lparr>uw_ledger := es @ bs, uw_lost := (\<lambda>(u, m). uw_lost w (u, m) + open_part u m (k, r))\<rparr>)"
| crash: "uw_jobs w = xs @ j # ys
    \<Longrightarrow> usage_step E orderly st w (jobs_to (xs @ ys) (w\<lparr>uw_lost := (\<lambda>(u, m). uw_lost w (u, m) + held j u m)\<rparr>))"
| tick: "uw_now w \<le> now' \<Longrightarrow> usage_step E orderly st w (w\<lparr>uw_now := now'\<rparr>)"

inductive usage_reach :: "(string \<Rightarrow> entitlement set) \<Rightarrow> bool \<Rightarrow> usage_settings \<Rightarrow> usage_world \<Rightarrow> usage_world \<Rightarrow> bool"
  for E orderly st w0 where
  usage_start: "usage_reach E orderly st w0 w0"
| usage_next: "usage_reach E orderly st w0 w \<Longrightarrow> usage_step E orderly st w w' \<Longrightarrow> usage_reach E orderly st w0 w'"

section \<open>Effects of the single calls\<close>

lemma bump_value: "row_value (bump now k n ex cs k') = row_value (cs k') + (if k' = k then n else 0)"
  by (auto simp: bump_def split: option.split)

lemma tryIncrement_Some: "tryIncrement now k n mx ex cs = Some cs' \<Longrightarrow> cs' = bump now k n ex cs \<and> (cs k = None \<or> row_value (cs k) \<le> mx - n)"
  by (auto simp: tryIncrement_def split: option.splits if_splits)

lemma release_value:
  "row_value (usage_release now t m n cs (u, x, ''current''))
     = (if u = t \<and> x = m \<and> t \<noteq> [] \<and> periodOf m = Current_count \<and> 0 < n \<and> cs (t, m, ''current'') \<noteq> None
        then max 0 (row_value (cs (u, x, ''current'')) - n) else row_value (cs (u, x, ''current'')))"
  by (auto simp: usage_release_def decrementClamped_def Let_def split: option.split)

lemma periodKeyFor_current: "periodOf m = Current_count \<Longrightarrow> periodKeyFor m t = ''current''"
  by (simp add: periodKeyFor_def)

definition ledger_ok :: "ledger \<Rightarrow> bool" where
  "ledger_ok led \<longleftrightarrow> distinct (map fst led) \<and> (\<forall>(k, r)\<in>set led. 0 \<le> rv_remaining r)"

lemma ledger_ok_Cons: "ledger_ok (e # led) \<Longrightarrow> ledger_ok led"
  by (simp add: ledger_ok_def)

lemma remaining_set: "\<forall>e\<in>set led. 0 \<le> rv_remaining (snd e) \<Longrightarrow> 0 \<le> rv_remaining r \<Longrightarrow> \<forall>e\<in>set (alist_set k r led). 0 \<le> rv_remaining (snd e)"
  by (induction k r led rule: alist_set.induct) simp_all

lemma ledger_ok_set: "ledger_ok led \<Longrightarrow> 0 \<le> rv_remaining r \<Longrightarrow> ledger_ok (alist_set k r led)"
  using remaining_set[of led r k] distinct_alist_set[of led k r] unfolding ledger_ok_def case_prod_beta by blast

lemma ledger_get: "ledger_ok led \<Longrightarrow> map_of led k = Some r \<Longrightarrow> 0 \<le> rv_remaining r"
  by (auto simp: ledger_ok_def dest: map_of_SomeD)

lemma open_total_set:
  "map_of led k = Some r \<Longrightarrow> distinct (map fst led) \<Longrightarrow> open_total t m (alist_set k r' led) = open_total t m led - open_part t m (k, r) + open_part t m (k, r')"
proof (induction led)
  case (Cons e led)
  show ?case
  proof (cases "fst e = k")
    case True
    then show ?thesis using Cons.prems by (cases e) (simp add: open_total_def)
  next
    case False
    then have "map_of led k = Some r" "distinct (map fst led)" using Cons.prems by (cases e; simp)+
    then show ?thesis using Cons.IH False by (cases e) (simp add: open_total_def)
  qed
qed simp

lemma draw_cases:
  "ledger_draw now k mx led = (led', d) \<Longrightarrow> led' = led \<and> d = 0
     \<or> (\<exists>r. map_of led k = Some r \<and> rv_settled r = None \<and> 0 < rv_remaining r \<and> d = min (rv_remaining r) mx
          \<and> led' = alist_set k (r\<lparr>rv_remaining := max 0 (rv_remaining r - mx), rv_updated := now\<rparr>) led)"
  by (cases "map_of led k") (auto simp: ledger_draw_def split: if_split_asm)

lemma giveBack_cases:
  "ledger_giveBack now k n led = (led', kept) \<Longrightarrow> led' = led \<and> (snd (snd k) = [] \<or> n \<le> 0 \<or> \<not> kept)
     \<or> kept \<and> (\<exists>r. map_of led k = Some r \<and> rv_settled r = None \<and> led' = alist_set k (r\<lparr>rv_remaining := rv_remaining r + n, rv_updated := now\<rparr>) led)"
  by (cases "map_of led k") (auto simp: ledger_giveBack_def split: if_split_asm)

lemma settle_cases:
  "ledger_settle now l k led = (led', left) \<Longrightarrow> led' = led \<and> left = 0
     \<or> (\<exists>r. map_of led k = Some r \<and> rv_settled r = None \<and> left = max 0 (rv_remaining r)
          \<and> led' = alist_set k (r\<lparr>rv_remaining := 0, rv_settled := Some now, rv_updated := now, rv_expires := lingerUntil now l\<rparr>) led)"
  by (cases "map_of led k") (auto simp: ledger_settle_def split: if_split_asm)

lemma draw_effect:
  assumes "ledger_ok led" "ledger_draw now (t, m, k) mx led = (led', d)" "0 < mx"
  shows "ledger_ok led' \<and> 0 \<le> d \<and> d \<le> mx \<and> open_total u x led' = open_total u x led - (if u = t \<and> x = m then d else 0)"
proof (cases "led' = led \<and> d = 0")
  case False
  then obtain r where r: "map_of led (t, m, k) = Some r" "rv_settled r = None" "0 < rv_remaining r"
    and e: "led' = alist_set (t, m, k) (r\<lparr>rv_remaining := max 0 (rv_remaining r - mx), rv_updated := now\<rparr>) led" "d = min (rv_remaining r) mx"
    using draw_cases[OF assms(2)] by blast
  have "open_total u x led' = open_total u x led - open_part u x ((t, m, k), r) + open_part u x ((t, m, k), r\<lparr>rv_remaining := max 0 (rv_remaining r - mx), rv_updated := now\<rparr>)"
    unfolding e(1) using r(1) assms(1) by (intro open_total_set) (auto simp: ledger_ok_def)
  then show ?thesis using r e assms(1,3) by (auto simp: open_part_def intro: ledger_ok_set)
qed (use assms in simp)

lemma giveBack_effect:
  assumes "ledger_ok led" "ledger_giveBack now (t, m, k) n led = (led', kept)" "0 \<le> n" "k \<noteq> []"
  shows "ledger_ok led' \<and> open_total u x led' = open_total u x led + (if kept \<and> u = t \<and> x = m then n else 0)"
proof (cases "led' = led \<and> (n \<le> 0 \<or> \<not> kept)")
  case False
  then obtain r where r: "map_of led (t, m, k) = Some r" "rv_settled r = None" "kept"
    and e: "led' = alist_set (t, m, k) (r\<lparr>rv_remaining := rv_remaining r + n, rv_updated := now\<rparr>) led"
    using giveBack_cases[OF assms(2)] assms(4) unfolding snd_conv by blast
  have "open_total u x led' = open_total u x led - open_part u x ((t, m, k), r) + open_part u x ((t, m, k), r\<lparr>rv_remaining := rv_remaining r + n, rv_updated := now\<rparr>)"
    unfolding e using r(1) assms(1) by (intro open_total_set) (auto simp: ledger_ok_def)
  then show ?thesis using r e assms(1,3) ledger_get[OF assms(1) r(1)] by (auto simp: open_part_def intro: ledger_ok_set)
qed (use assms in auto)

lemma settle_effect:
  assumes "ledger_ok led" "ledger_settle now l (t, m, k) led = (led', left)"
  shows "ledger_ok led' \<and> 0 \<le> left \<and> open_total u x led' = open_total u x led - (if u = t \<and> x = m then left else 0)"
proof (cases "led' = led \<and> left = 0")
  case False
  then obtain r where r: "map_of led (t, m, k) = Some r" "rv_settled r = None"
    and e: "led' = alist_set (t, m, k) (r\<lparr>rv_remaining := 0, rv_settled := Some now, rv_updated := now, rv_expires := lingerUntil now l\<rparr>) led" "left = max 0 (rv_remaining r)"
    using settle_cases[OF assms(2)] by blast
  have "open_total u x led' = open_total u x led - open_part u x ((t, m, k), r)
      + open_part u x ((t, m, k), r\<lparr>rv_remaining := 0, rv_settled := Some now, rv_updated := now, rv_expires := lingerUntil now l\<rparr>)"
    unfolding e(1) using r(1) assms(1) by (intro open_total_set) (auto simp: ledger_ok_def)
  then show ?thesis using r e assms(1) ledger_get[OF assms(1) r(1)] by (auto simp: open_part_def intro: ledger_ok_set)
qed (use assms in auto)

lemma create_effect:
  assumes "ledger_ok led" "ledger_create now (t, m, k) n s x led = Inr led'"
  shows "ledger_ok led' \<and> open_total u y led' = open_total u y led + (if u = t \<and> y = m then n else 0)"
proof -
  have "0 < n" "map_of led (t, m, k) = None" and e: "led' = led @ [((t, m, k), \<lparr>rv_reserved = n, rv_remaining = n, rv_settled = None, rv_voided = None,
        rv_stale = s, rv_updated = now, rv_expires = x\<rparr>)]"
    using assms(2) by (auto simp: ledger_create_def split: if_splits)
  then show ?thesis using assms(1) by (auto simp: ledger_ok_def open_total_def open_part_def map_of_eq_None_iff)
qed

lemma void_effect: "ledger_ok led \<Longrightarrow> ledger_ok (voidStale now l t led) \<and> open_total u m (voidStale now l t led) \<le> open_total u m led"
proof (induction led)
  case (Cons e led)
  have i: "ledger_ok (voidStale now l t led) \<and> open_total u m (voidStale now l t led) \<le> open_total u m led" by (rule Cons.IH[OF ledger_ok_Cons[OF Cons.prems]])
  have k: "fst (void_one now l t a) = fst a" for a by (cases a) (simp add: void_one_def)
  have "map fst (voidStale now l t xs) = map fst xs" for xs by (induction xs) (simp_all add: voidStale_def k)
  moreover have "open_part u m (void_one now l t e) \<le> open_part u m e" using Cons.prems by (cases e) (auto simp: void_one_def open_part_def ledger_ok_def)
  moreover have "0 \<le> rv_remaining (snd (void_one now l t e))" using Cons.prems by (cases e) (auto simp: void_one_def ledger_ok_def)
  moreover have e: "voidStale now l t (e # led) = void_one now l t e # voidStale now l t led" by (simp add: voidStale_def)
  moreover have "fst e \<notin> set (map fst led)" using Cons.prems by (simp add: ledger_ok_def)
  ultimately have "ledger_ok (void_one now l t e # voidStale now l t led)" using i k[of e] by (cases "void_one now l t e") (simp add: ledger_ok_def)
  then show ?case using i \<open>open_part u m (void_one now l t e) \<le> open_part u m e\<close> unfolding e by (simp add: open_total_def)
qed (simp add: voidStale_def open_total_def ledger_ok_def)

lemma open_nonneg: "ledger_ok led \<Longrightarrow> 0 \<le> open_total t m led"
  by (induction led) (auto simp: ledger_ok_def open_total_def open_part_def)

section \<open>Rows\<close>

definition rows_of :: "string \<Rightarrow> stored_rows \<Rightarrow> int" where
  "rows_of t rows = int (length (filter (\<lambda>(u, c, i). u = t) rows))"

lemma upsert_effect:
  assumes "upsertRows t c ids rows = (rows', n)"
  shows "set rows \<subseteq> set rows' \<and> 0 \<le> n \<and> rows_of u rows' = rows_of u rows + (if u = t then n else 0) \<and> (distinct rows \<longrightarrow> distinct rows')"
proof -
  have e: "rows' = rows @ map (\<lambda>i. (t, c, i)) (new_ids t c ids rows)" "n = int (length (new_ids t c ids rows))" using assms by (auto simp: upsertRows_def)
  have d: "distinct (map (\<lambda>i. (t, c, i)) (new_ids t c ids rows))" by (simp add: new_ids_def distinct_map inj_on_def)
  have "filter (\<lambda>(u', c', i). u' = u) (map (\<lambda>i. (t, c, i)) (new_ids t c ids rows)) = (if u = t then map (\<lambda>i. (t, c, i)) (new_ids t c ids rows) else [])"
    by (auto simp: filter_map comp_def)
  moreover have "set rows \<inter> set (map (\<lambda>i. (t, c, i)) (new_ids t c ids rows)) = {}" by (auto simp: new_ids_def)
  ultimately show ?thesis using d by (auto simp: e rows_of_def)
qed

lemma delete_effect:
  assumes "deleteForConnector t c rows = (rows', n)"
  shows "0 \<le> n \<and> rows_of u rows' = rows_of u rows - (if u = t then n else 0) \<and> (distinct rows \<longrightarrow> distinct rows')
    \<and> (\<forall>t' c' i. (t', c', i) \<in> set rows \<longrightarrow> (t', c') \<noteq> (t, c) \<longrightarrow> (t', c', i) \<in> set rows')"
proof -
  have e: "rows' = filter (\<lambda>(t', c', i). \<not> (t' = t \<and> c' = c)) rows" "n = int (length (filter (\<lambda>(t', c', i). t' = t \<and> c' = c) rows))"
    using assms by (auto simp: deleteForConnector_def)
  have "rows_of u (filter (\<lambda>(t', c', i). \<not> (t' = t \<and> c' = c)) rs) = rows_of u rs - (if u = t then int (length (filter (\<lambda>(t', c', i). t' = t \<and> c' = c) rs)) else 0)" for rs
    by (induction rs) (auto simp: rows_of_def)
  then show ?thesis unfolding e by auto
qed

definition known_ok :: "stored_rows \<Rightarrow> string \<Rightarrow> string \<Rightarrow> string list \<Rightarrow> bool" where
  "known_ok rows t c known \<longleftrightarrow> (\<forall>i\<in>set known. (t, c, i) \<in> set rows)"

lemma new_bound:
  assumes "known_ok rows t c known" "distinct known" "set known \<subseteq> set batch" "set part \<subseteq> set batch" "upsertRows t c part rows = (rows', n)"
  shows "n \<le> fresh_rows batch known"
proof -
  have n: "n = int (card (set (new_ids t c part rows)))" using assms(5) distinct_card[of "new_ids t c part rows"] by (simp add: upsertRows_def new_ids_def)
  have "set (new_ids t c part rows) \<subseteq> set batch - set known" using assms(1,4) by (auto simp: new_ids_def known_ok_def)
  then have "card (set (new_ids t c part rows)) \<le> card (set batch - set known)" by (intro card_mono) auto
  also have "\<dots> = length (remdups batch) - length known"
    using assms(2,3) by (simp add: card_Diff_subset distinct_card length_remdups_card_conv)
  finally show ?thesis using n by (simp add: fresh_rows_def)
qed

lemma refresh_none: "known_ok rows t c known \<Longrightarrow> upsertRows t c known rows = (rows, 0)"
  by (auto simp: upsertRows_def new_ids_def known_ok_def filter_empty_conv)

section \<open>The invariant\<close>

fun cont_fits :: "string \<Rightarrow> usage_metric \<Rightarrow> int \<Rightarrow> usage_cont \<Rightarrow> bool" where
  "cont_fits t m n (To_create ds xs) = (StoredRows \<notin> set (m # ds @ xs))"
| "cont_fits t m n (To_reserve key) = True"
| "cont_fits t m n (To_write c batch key known drawn) =
     (m = StoredRows \<and> 0 \<le> drawn \<and> n = fresh_rows batch known - drawn \<and> key \<noteq> Some [])"

fun job_fits :: "usage_job \<Rightarrow> bool" where
  "job_fits (Entitling t m n k) = (t \<noteq> [] \<and> 0 < n \<and> cont_fits t m n k)"
| "job_fits (Bumping t m n k) = (t \<noteq> [] \<and> 0 < n \<and> cont_fits t m n k)"
| "job_fits (Trying t m n mx i k) = (t \<noteq> [] \<and> 0 < n \<and> cont_fits t m n k)"
| "job_fits (Rereading t m n mx i k) = (t \<noteq> [] \<and> 0 < n \<and> cont_fits t m n k)"
| "job_fits (Creating t ms n) = (t \<noteq> [] \<and> 0 < n \<and> StoredRows \<notin> set ms)"
| "job_fits (Reserving t m key n) = (t \<noteq> [] \<and> 0 < n)"
| "job_fits (Releasing t xs after) = (t \<noteq> [] \<and> (\<forall>(m, n)\<in>set xs. 0 \<le> n))"
| "job_fits (Looking t c batch key) = (t \<noteq> [] \<and> key \<noteq> Some [])"
| "job_fits (Drawing t c batch key known) = (t \<noteq> [] \<and> key \<noteq> Some [] \<and> 0 < fresh_rows batch known)"
| "job_fits (Refunding t c key known drawn q) = (t \<noteq> [] \<and> key \<noteq> Some [] \<and> 0 \<le> drawn)"
| "job_fits (Writing t c batch key known drawn) = (t \<noteq> [] \<and> key \<noteq> Some [] \<and> 0 \<le> drawn \<and> drawn \<le> fresh_rows batch known)"
| "job_fits (Adjusting t d) = (t \<noteq> [] \<and> 0 < d)"
| "job_fits (Undoing t key back rest) = (t \<noteq> [] \<and> key \<noteq> Some [] \<and> 0 \<le> back \<and> 0 \<le> rest)"
| "job_fits (Settling t m key) = (t \<noteq> [])"
| "job_fits (Purging t c) = (t \<noteq> [])"

lemma fresh_nonneg: "0 \<le> fresh_rows batch known"
  by (simp add: fresh_rows_def)

lemma cont_held_nonneg: "0 < n \<Longrightarrow> cont_fits t m n k \<Longrightarrow> 0 \<le> cont_held n k x"
  by (cases k) auto

lemma listed_nonneg: "\<forall>(m, n)\<in>set xs. 0 \<le> n \<Longrightarrow> (0::int) \<le> sum_list (map (\<lambda>(x, n). if x = m then n else 0) xs)"
  by (induction xs) auto

lemma held_nonneg: "job_fits j \<Longrightarrow> 0 \<le> held j t m"
  by (cases j) (auto simp: fresh_nonneg listed_nonneg intro: cont_held_nonneg)

text \<open>The history of a counter: what it shows beyond the resources, less the rows it does not show.\<close>

definition books :: "string \<Rightarrow> usage_metric \<Rightarrow> usage_world \<Rightarrow> int" where
  "books t m w = uw_lost w (t, m) + uw_clamped w (t, m) - (uw_hidden w (t, m) - uw_forced w (t, m))"

definition books_ok :: "usage_world \<Rightarrow> bool" where
  "books_ok w \<longleftrightarrow> (\<forall>x. 0 \<le> uw_lost w x \<and> 0 \<le> uw_clamped w x \<and> 0 \<le> uw_hidden w x \<and> 0 \<le> uw_forced w x)
     \<and> (\<forall>t m. m \<noteq> StoredRows \<longrightarrow> uw_hidden w (t, m) = 0 \<and> uw_forced w (t, m) = 0)"

definition in_use :: "string \<Rightarrow> usage_metric \<Rightarrow> usage_world \<Rightarrow> int" where
  "in_use t m w = resources t m w + open_total t m (uw_ledger w) + sum_list (map (\<lambda>j. held j t m) (uw_jobs w)) + books t m w"

definition usage_fine :: "usage_world \<Rightarrow> bool" where
  "usage_fine w \<longleftrightarrow> ledger_ok (uw_ledger w) \<and> distinct (uw_rows w) \<and> (\<forall>x. 0 \<le> uw_resources w x) \<and> books_ok w
     \<and> list_all job_fits (uw_jobs w) \<and> (\<forall>t m. periodOf m = Current_count \<longrightarrow> 0 \<le> counted t m w)"

definition usage_inv :: "usage_world \<Rightarrow> bool" where
  "usage_inv w \<longleftrightarrow> usage_fine w \<and> (\<forall>t m. periodOf m = Current_count \<longrightarrow> counted t m w = in_use t m w)"

lemma resume_held: "0 < n \<Longrightarrow> cont_fits t m n k \<Longrightarrow> held (resume t m n k) u x = (if u = t then cont_held n k x + (if x = m then n else 0) else 0)"
  by (induction t m n k rule: resume.induct) (auto simp: algebra_simps)

lemma refuse_held: "held (refuse t q n k) u x = (if u = t then cont_held n k x else 0)"
proof (induction t q n k rule: refuse.induct)
  case (1 t q n ds xs)
  have "sum_list (map ((\<lambda>(y, n). if y = x then n else 0) \<circ> (\<lambda>m. (m, n))) ds) = n * int (count_list ds x)" by (induction ds) (auto simp: algebra_simps)
  then show ?case by simp
qed simp_all

lemma resume_fits: "t \<noteq> [] \<Longrightarrow> 0 < n \<Longrightarrow> cont_fits t m n k \<Longrightarrow> job_fits (resume t m n k)"
  by (induction t m n k rule: resume.induct) auto

lemma refuse_fits: "t \<noteq> [] \<Longrightarrow> 0 < n \<Longrightarrow> cont_fits t m n k \<Longrightarrow> job_fits (refuse t q n k)"
  by (induction t q n k rule: refuse.induct) auto

lemma resources_rows: "resources t m w = (if m = StoredRows then rows_of t (uw_rows w) else uw_resources w (t, m))"
  by (simp add: resources_def rows_of_def)

lemma charge_at: "charge t m n g (u, x) = g (u, x) + (if u = t \<and> x = m then n else 0)"
  by (simp add: charge_def)

lemma charge_zero [simp]: "charge t m 0 g = g"
  by (simp add: charge_def)

lemma charge_nonneg: "\<forall>x. 0 \<le> g x \<Longrightarrow> 0 \<le> n \<Longrightarrow> 0 \<le> charge t m n g x"
  by (cases x) (simp add: charge_def)

lemma charge_other: "x \<noteq> m \<Longrightarrow> charge t m n g (u, x) = g (u, x)"
  by (simp add: charge_def)

lemmas books_charged = books_ok_def charge_nonneg charge_other

section \<open>The steps keep the invariant\<close>

lemma jobs_to_simps [simp]:
  "uw_jobs (jobs_to js w) = js" "uw_counters (jobs_to js w) = uw_counters w" "uw_ledger (jobs_to js w) = uw_ledger w" "uw_rows (jobs_to js w) = uw_rows w"
  "uw_resources (jobs_to js w) = uw_resources w" "uw_now (jobs_to js w) = uw_now w" "uw_lost (jobs_to js w) = uw_lost w"
  "uw_hidden (jobs_to js w) = uw_hidden w" "uw_forced (jobs_to js w) = uw_forced w" "uw_clamped (jobs_to js w) = uw_clamped w"
  by (simp_all add: jobs_to_def)

abbreviation moved :: "string \<Rightarrow> usage_metric \<Rightarrow> usage_world \<Rightarrow> usage_world \<Rightarrow> int" where
  "moved u x w w' \<equiv> resources u x w' - resources u x w + (open_total u x (uw_ledger w') - open_total u x (uw_ledger w)) + (books u x w' - books u x w)"

lemma inv_replace:
  assumes inv: "usage_inv w" and js: "uw_jobs w = xs @ j # ys" and js': "uw_jobs w' = xs @ j' # ys" and ok: "job_fits j'"
    and books: "books_ok w'" and rows: "distinct (uw_rows w')" and led: "ledger_ok (uw_ledger w')"
    and res: "\<And>x. 0 \<le> uw_resources w' x"
    and pos: "\<And>u x. periodOf x = Current_count \<Longrightarrow> 0 \<le> counted u x w'"
    and bal: "\<And>u x. periodOf x = Current_count \<Longrightarrow> counted u x w' - counted u x w = moved u x w w' + held j' u x - held j u x"
  shows "usage_inv w'"
proof -
  have "usage_fine w'" using inv ok books rows led res pos js by (simp add: usage_inv_def usage_fine_def js')
  moreover have "counted u x w' = in_use u x w'" if "periodOf x = Current_count" for u x
    using inv bal[OF that, of u] that js js' by (simp add: usage_inv_def in_use_def)
  ultimately show ?thesis by (simp add: usage_inv_def)
qed

lemma inv_add:
  assumes inv: "usage_inv w" and js': "uw_jobs w' = uw_jobs w @ [j]" and ok: "job_fits j" and res: "\<And>x. 0 \<le> uw_resources w' x"
    and same: "uw_lost w' = uw_lost w" "uw_hidden w' = uw_hidden w" "uw_forced w' = uw_forced w" "uw_clamped w' = uw_clamped w"
      "uw_rows w' = uw_rows w" "uw_ledger w' = uw_ledger w" "uw_counters w' = uw_counters w"
    and bal: "\<And>u x. periodOf x = Current_count \<Longrightarrow> resources u x w' + held j u x = resources u x w"
  shows "usage_inv w'"
proof -
  have f: "usage_fine w" and e: "\<And>u x. periodOf x = Current_count \<Longrightarrow> counted u x w = in_use u x w" using inv by (simp_all add: usage_inv_def)
  have c: "counted u x w' = counted u x w" "books u x w' = books u x w" "books_ok w' = books_ok w" for u x
    by (simp_all add: counted_def books_def books_ok_def same)
  have "usage_fine w'" using f ok res by (simp add: usage_fine_def c js' same)
  moreover have "counted u x w' = in_use u x w'" if "periodOf x = Current_count" for u x
    using e[OF that, of u] bal[OF that, of u] by (simp add: c in_use_def js' same)
  ultimately show ?thesis by (simp add: usage_inv_def)
qed

lemma inv_world:
  assumes inv: "usage_inv w" and ok: "list_all job_fits (uw_jobs w')" "books_ok w'" "ledger_ok (uw_ledger w')"
    and same: "uw_counters w' = uw_counters w" "uw_rows w' = uw_rows w" "uw_resources w' = uw_resources w"
    and bal: "\<And>u x. in_use u x w' = in_use u x w"
  shows "usage_inv w'"
proof -
  have c: "counted u x w' = counted u x w" for u x by (simp add: counted_def same)
  have f: "usage_fine w" and e: "\<And>u x. periodOf x = Current_count \<Longrightarrow> counted u x w = in_use u x w" using inv by (simp_all add: usage_inv_def)
  have "usage_fine w'" using f ok by (simp add: usage_fine_def c same)
  then show ?thesis using e by (simp add: usage_inv_def c bal)
qed

lemma inv_parts:
  assumes "usage_inv w" "uw_jobs w = xs @ j # ys"
  shows "job_fits j" "ledger_ok (uw_ledger w)" "distinct (uw_rows w)" "0 \<le> uw_resources w x" "usage_fine w" "books_ok w"
    "periodOf m = Current_count \<Longrightarrow> 0 \<le> counted t m w"
  using assms by (cases x; simp add: usage_inv_def usage_fine_def)+

lemmas same_books = counted_def resources_def books_def books_ok_def

lemma inv_shift:
  assumes inv: "usage_inv w" and js: "uw_jobs w = xs @ j # ys" and ok: "job_fits j'"
    and bal: "\<And>u x. periodOf x = Current_count \<Longrightarrow> held j' u x = held j u x"
  shows "usage_inv (jobs_to (xs @ j' # ys) w)"
  using inv_parts[OF inv js] ok bal by (intro inv_replace[OF inv js jobs_to_simps(1)]) (simp_all add: same_books)

lemma all_held_nonneg:
  assumes "usage_fine w" "set zs \<subseteq> set (uw_jobs w)"
  shows "0 \<le> sum_list (map (\<lambda>j. held j t m) zs)"
proof (rule sum_list_nonneg)
  fix v
  assume "v \<in> set (map (\<lambda>j. held j t m) zs)"
  then obtain j where "j \<in> set zs" "v = held j t m" by auto
  then show "0 \<le> v" using assms held_nonneg[of j t m] by (auto simp: usage_fine_def list_all_iff)
qed

lemma clamped_nonneg:
  assumes "0 \<le> n" "t \<noteq> []"
  shows "0 \<le> clamped_part t m n cs (usage_release now t m n cs)"
  using assms by (simp add: clamped_part_def release_value max_def)

lemma inv_release:
  assumes inv: "usage_inv w" and js: "uw_jobs w = xs @ Releasing t ((m, n) # rs) after # ys" and cs: "cs' = usage_release (uw_now w) t m n (uw_counters w)"
  shows "usage_inv (jobs_to (xs @ Releasing t rs after # ys)
    (w\<lparr>uw_counters := cs', uw_clamped := charge t m (clamped_part t m n (uw_counters w) cs') (uw_clamped w)\<rparr>))" (is "usage_inv ?w")
proof -
  have n: "0 \<le> n" "t \<noteq> []" "\<forall>(m, n)\<in>set rs. 0 \<le> n" using inv_parts(1)[OF inv js] by auto
  show ?thesis
  proof (rule inv_replace[OF inv js jobs_to_simps(1)])
    show "job_fits (Releasing t rs after)" using n by simp
    show "books_ok ?w" using inv_parts(6)[OF inv js] clamped_nonneg[OF n(1,2)] by (simp add: books_charged cs)
    fix u x
    assume x: "periodOf x = Current_count"
    show "0 \<le> counted u x ?w" using inv_parts(7)[OF inv js x, of u] by (simp add: counted_def cs release_value)
    show "counted u x ?w - counted u x w = moved u x w ?w + held (Releasing t rs after) u x - held (Releasing t ((m, n) # rs) after) u x"
    proof (cases "u = t \<and> x = m")
      case True
      then show ?thesis using x by (simp add: counted_def resources_def books_def charge_at clamped_part_def)
    next
      case False
      then have "row_value (cs' (u, x, ''current'')) = row_value (uw_counters w (u, x, ''current''))" unfolding cs release_value by auto
      then show ?thesis using False by (auto simp: counted_def resources_def books_def charge_at)
    qed
  qed (use inv_parts[OF inv js] in simp_all)
qed

lemma bump_counted:
  "periodOf x = Current_count \<Longrightarrow> row_value (bump now (t, m, periodKeyFor m s) n ex cs (u, x, ''current'')) = row_value (cs (u, x, ''current'')) + (if u = t \<and> x = m then n else 0)"
  unfolding bump_value by (auto simp: periodKeyFor_current)

lemma inv_bump:
  assumes inv: "usage_inv w" and js: "uw_jobs w = xs @ j # ys" and j: "\<And>u x. held j u x = (if u = t then cont_held n k x else 0)" "t \<noteq> []" "0 < n" "cont_fits t m n k"
  shows "usage_inv (jobs_to (xs @ resume t m n k # ys) (w\<lparr>uw_counters := bump now (t, m, periodKeyFor m s) n ex (uw_counters w)\<rparr>))"
  using inv_parts[OF inv js] j resume_fits[OF j(2-4)] resume_held[OF j(3,4)]
  by (intro inv_replace[OF inv js jobs_to_simps(1)]) (simp_all add: same_books bump_counted)

lemma inv_refuse:
  assumes inv: "usage_inv w" and js: "uw_jobs w = xs @ j # ys" and j: "\<And>u x. held j u x = (if u = t then cont_held n k x else 0)" "t \<noteq> []" "0 < n" "cont_fits t m n k"
  shows "usage_inv (jobs_to (xs @ refuse t q n k # ys) w)"
  using refuse_fits[OF j(2-4)] j(1) by (intro inv_shift[OF inv js]) (simp_all add: refuse_held)

lemma credit_back:
  assumes "ledger_ok led" "credit_giveBack now t key n led = (led', kept)" "0 \<le> n" "key \<noteq> Some []"
  shows "ledger_ok led' \<and> open_total u x led' = open_total u x led + (if kept \<and> u = t \<and> x = StoredRows then n else 0)"
proof (cases "n \<le> 0")
  case True
  then show ?thesis using assms by (auto simp: credit_giveBack_def)
next
  case False
  then show ?thesis
    using assms giveBack_effect[of led now t StoredRows "the key" n led' kept u x] by (cases key) (auto simp: credit_giveBack_def)
qed

lemma inv_back:
  assumes inv: "usage_inv w" and js: "uw_jobs w = xs @ j # ys" and b: "credit_giveBack now t key n (uw_ledger w) = (led', kept)" "0 \<le> n" "key \<noteq> Some []"
    and ok: "job_fits (Releasing t ((if kept then [] else [(StoredRows, n)]) @ rs) after)"
    and h: "\<And>u x. held j u x = (if u = t \<and> x = StoredRows then n else 0) + held (Releasing t rs after) u x"
  shows "usage_inv (jobs_to (xs @ Releasing t ((if kept then [] else [(StoredRows, n)]) @ rs) after # ys) (w\<lparr>uw_ledger := led'\<rparr>))"
  using inv_parts[OF inv js] ok h credit_back[OF inv_parts(2)[OF inv js] b]
  by (intro inv_replace[OF inv js jobs_to_simps(1)]) (auto simp: same_books)

lemma credit_draw_effect:
  assumes "ledger_ok led" "credit_draw now t key mx led = (led', d)" "0 < mx"
  shows "ledger_ok led' \<and> 0 \<le> d \<and> d \<le> mx \<and> open_total u x led' = open_total u x led - (if u = t \<and> x = StoredRows then d else 0)"
proof (cases key)
  case None
  then show ?thesis using assms by (simp add: credit_draw_def)
next
  case (Some k)
  then show ?thesis using draw_effect[OF assms(1) _ assms(3), of now t StoredRows k led' d u x] assms(2) by (simp add: credit_draw_def)
qed

lemma inv_draw:
  assumes inv: "usage_inv w" and js: "uw_jobs w = xs @ Drawing t c batch key known # ys"
    and d: "credit_draw (uw_now w) t key (fresh_rows batch known) (uw_ledger w) = (led', d)"
  shows "usage_inv (jobs_to (xs @ (if d < fresh_rows batch known
      then Entitling t StoredRows (fresh_rows batch known - d) (To_write c batch key known d) else Writing t c batch key known d) # ys) (w\<lparr>uw_ledger := led'\<rparr>))"
proof -
  have ok: "job_fits (Drawing t c batch key known)" by (rule inv_parts(1)[OF inv js])
  have e: "ledger_ok led' \<and> 0 \<le> d \<and> d \<le> fresh_rows batch known \<and> open_total u x led' = open_total u x (uw_ledger w) - (if u = t \<and> x = StoredRows then d else 0)" for u x
    using credit_draw_effect[OF inv_parts(2)[OF inv js] d] ok by simp
  show ?thesis
    using inv_parts[OF inv js] ok e by (intro inv_replace[OF inv js jobs_to_simps(1)]) (auto simp: same_books)
qed

text \<open>A bulk write: the rows it adds are those the job held, or hidden ones.\<close>

lemma inv_upsert:
  assumes inv: "usage_inv w" and js: "uw_jobs w = xs @ j # ys" and u: "upsertRows t c ids (uw_rows w) = (rows', n)"
    and ok: "job_fits j'" and g: "0 \<le> g" and h: "\<And>u x. held j u x - held j' u x = (if u = t \<and> x = StoredRows then n - g else 0)"
  shows "usage_inv (jobs_to (xs @ j' # ys) (w\<lparr>uw_rows := rows', uw_hidden := charge t StoredRows g (uw_hidden w)\<rparr>))" (is "usage_inv ?w")
proof -
  have e: "rows_of u rows' = rows_of u (uw_rows w) + (if u = t then n else 0) \<and> distinct rows'" for u
    using upsert_effect[OF u] inv_parts(3)[OF inv js] by blast
  have bal: "moved u x w ?w = held j u x - held j' u x" for u x
    unfolding h using e by (simp add: resources_rows books_def charge_at)
  show ?thesis
  proof (rule inv_replace[OF inv js jobs_to_simps(1) ok])
    show "books_ok ?w" using inv_parts(6)[OF inv js] g by (simp add: books_charged)
  qed (use inv_parts[OF inv js] e bal in \<open>simp_all add: counted_def\<close>)
qed

lemma inv_purge:
  assumes inv: "usage_inv w" and js: "uw_jobs w = xs @ Purging t c # ys" and d: "deleteForConnector t c (uw_rows w) = (rows', n)"
  shows "usage_inv (jobs_to (xs @ Releasing t [(Connectors, 1), (StoredRows, n)] None # ys) (w\<lparr>uw_rows := rows'\<rparr>))" (is "usage_inv ?w")
proof (rule inv_replace[OF inv js jobs_to_simps(1)])
  have e: "0 \<le> n \<and> rows_of u rows' = rows_of u (uw_rows w) - (if u = t then n else 0) \<and> (distinct (uw_rows w) \<longrightarrow> distinct rows')" for u
    using delete_effect[OF d] by blast
  show "job_fits (Releasing t [(Connectors, 1), (StoredRows, n)] None)" using e inv_parts(1)[OF inv js] by simp
  show "distinct (uw_rows ?w)" using e inv_parts(3)[OF inv js] by simp
  show "counted u x ?w - counted u x w = moved u x w ?w + held (Releasing t [(Connectors, 1), (StoredRows, n)] None) u x - held (Purging t c) u x" for u x
    using e[of u] by (auto simp: counted_def resources_rows books_def)
  show "books_ok ?w" using inv_parts(6)[OF inv js] by (simp add: books_ok_def)
  show "0 \<le> counted u x ?w" if "periodOf x = Current_count" for u x using inv_parts(7)[OF inv js that] by (simp add: counted_def)
qed (use inv_parts[OF inv js] in simp_all)

lemma inv_create:
  assumes inv: "usage_inv w" and js: "uw_jobs w = xs @ Creating t ms n # ys"
  shows "usage_inv (jobs_to (xs @ Releasing t [] None # ys) (w\<lparr>uw_resources := (\<lambda>(u, m). uw_resources w (u, m) + (if u = t then n * int (count_list ms m) else 0))\<rparr>))"
proof -
  have ok: "job_fits (Creating t ms n)" by (rule inv_parts(1)[OF inv js])
  then have "count_list ms StoredRows = 0" by (simp add: count_list_0_iff)
  then show ?thesis
    using inv_parts[OF inv js] ok by (intro inv_replace[OF inv js jobs_to_simps(1)]) (auto simp: same_books split: prod.split)
qed

lemma inv_adjust:
  assumes inv: "usage_inv w" and js: "uw_jobs w = xs @ Adjusting t d # ys"
  shows "usage_inv (jobs_to (xs @ Releasing t [] None # ys)
    (w\<lparr>uw_counters := bump (uw_now w) (t, StoredRows, ''current'') d None (uw_counters w), uw_forced := charge t StoredRows d (uw_forced w)\<rparr>))" (is "usage_inv ?w")
proof (rule inv_replace[OF inv js jobs_to_simps(1)])
  have d: "t \<noteq> []" "0 < d" using inv_parts(1)[OF inv js] by simp_all
  then show "job_fits (Releasing t [] None)" by simp
  show "books_ok ?w" using inv_parts(6)[OF inv js] d by (simp add: books_charged)
  show "0 \<le> counted u x ?w" if "periodOf x = Current_count" for u x using inv_parts(7)[OF inv js that, of u] d by (simp add: counted_def bump_value)
  show "counted u x ?w - counted u x w = moved u x w ?w + held (Releasing t [] None) u x - held (Adjusting t d) u x" for u x
    by (simp add: counted_def bump_value resources_def books_def charge_at)
qed (use inv_parts[OF inv js] in simp_all)

lemma usage_inv_step:
  assumes "usage_step E orderly st w w'" and inv: "usage_inv w"
  shows "usage_inv w'"
  using assms(1)
proof cases
  case (start_create n t m ms)
  from this(2-) show ?thesis using inv unfolding start_create(1) by (intro inv_add[OF inv jobs_to_simps(1)]) (auto simp: resources_def usage_inv_def usage_fine_def)
next
  case (start_reserve n t key m)
  from this(2-) show ?thesis using inv unfolding start_reserve(1) by (intro inv_add[OF inv jobs_to_simps(1)]) (auto simp: resources_def usage_inv_def usage_fine_def)
next
  case (start_batch t batch key c)
  from this(2-) show ?thesis using inv unfolding start_batch(1) by (intro inv_add[OF inv jobs_to_simps(1)]) (auto simp: resources_def usage_inv_def usage_fine_def)
next
  case (start_settle t m key)
  from this(2-) show ?thesis using inv unfolding start_settle(1) by (intro inv_add[OF inv jobs_to_simps(1)]) (auto simp: resources_def usage_inv_def usage_fine_def)
next
  case (resolve xs t m n k ys e)
  show ?thesis using inv_refuse[OF inv resolve(2), where m = m and k = k and n = n and t = t] inv_shift[OF inv resolve(2)] inv_parts(1)[OF inv resolve(2)] unfolding resolve(1) by (auto split: decision.split)
next
  case (bump_counter xs t m n k ys)
  show ?thesis unfolding bump_counter(1) using inv_parts(1)[OF inv bump_counter(2)] by (intro inv_bump[OF inv bump_counter(2)]) simp_all
next
  case (too_many xs t m n mx i k ys)
  show ?thesis unfolding too_many(1) using inv_parts(1)[OF inv too_many(2)] by (intro inv_refuse[OF inv too_many(2), where m = m and k = k and n = n and t = t]) simp_all
next
  case (try_ok xs t m n mx i k ys cs')
  show ?thesis unfolding try_ok(1) using tryIncrement_Some[OF try_ok(4)] inv_parts(1)[OF inv try_ok(2)] by (auto intro: inv_bump[OF inv try_ok(2)])
next
  case (try_duplicate xs t m n mx i k ys)
  show ?thesis unfolding try_duplicate(1) using inv_parts(1)[OF inv try_duplicate(2)] by (intro inv_shift[OF inv try_duplicate(2)]) simp_all
next
  case (reread xs t m n mx i k ys)
  show ?thesis using inv_refuse[OF inv reread(2), where m = m and k = k and n = n and t = t] inv_shift[OF inv reread(2)] inv_parts(1)[OF inv reread(2)] unfolding reread(1) by (auto split: option.split)
next
  case (consume_error xs j ys t m n k)
  then show ?thesis using inv_refuse[OF inv consume_error(2), where m = m and k = k and n = n and t = t and q = False] inv_parts(1)[OF inv consume_error(2)] by auto
next
  case (create_ok xs t ms n ys)
  show ?thesis unfolding create_ok(1) by (rule inv_create[OF inv create_ok(2)])
next
  case (create_fails xs t ms n ys)
  have "held (Releasing t (map (\<lambda>m. (m, n)) ms) None) u x = held (Creating t ms n) u x" for u x using refuse_held[of t False n "To_create ms []" u x] by simp
  then show ?thesis unfolding create_fails(1) using inv_parts(1)[OF inv create_fails(2)] by (intro inv_shift[OF inv create_fails(2)]) auto
next
  case (record_reservation xs t m key n ys led')
  show ?thesis unfolding record_reservation(1)
    using create_effect[OF inv_parts(2)[OF inv record_reservation(2)] record_reservation(3)] inv_parts[OF inv record_reservation(2)]
    by (intro inv_replace[OF inv record_reservation(2) jobs_to_simps(1)]) (auto simp: same_books)
next
  case (reservation_fails xs t m key n ys)
  show ?thesis unfolding reservation_fails(1) using inv_parts(1)[OF inv reservation_fails(2)] by (intro inv_shift[OF inv reservation_fails(2)]) auto
next
  case (release_one xs t m n rs after ys cs')
  show ?thesis unfolding release_one(1) by (rule inv_release[OF inv release_one(2,3)])
next
  case (release_error xs t m n rs after ys)
  have "0 \<le> n" "t \<noteq> []" "\<forall>(m, n)\<in>set rs. 0 \<le> n" using inv_parts(1)[OF inv release_error(2)] by auto
  then show ?thesis unfolding release_error(1) using inv_parts[OF inv release_error(2)]
    by (intro inv_replace[OF inv release_error(2) jobs_to_simps(1)]) (auto simp: counted_def resources_def books_def books_charged charge_at)
next
  case (refresh_known xs t c known ys part rows' u)
  show ?thesis unfolding refresh_known(1) using inv_parts(1)[OF inv refresh_known(2)] upsert_effect[OF refresh_known(4)]
    by (intro inv_upsert[OF inv refresh_known(2,4)]) auto
next
  case (look xs t c batch key ys known)
  show ?thesis unfolding look(1) using inv_parts(1)[OF inv look(2)] fresh_nonneg[of batch known] by (intro inv_shift[OF inv look(2)]) auto
next
  case (draw xs t c batch key known ys led' d)
  show ?thesis unfolding draw(1) by (rule inv_draw[OF inv draw(2,3)])
next
  case (refund xs t c key known drawn q ys led' kept)
  have "job_fits (Refunding t c key known drawn q)" by (rule inv_parts(1)[OF inv refund(2)])
  then show ?thesis unfolding refund(1)
    using inv_back[OF inv refund(2,3), of "[]" "if q \<and> known \<noteq> [] then Some (c, known) else None"] by simp
next
  case (refund_error xs t c key known drawn q ys)
  show ?thesis unfolding refund_error(1) using inv_parts(1)[OF inv refund_error(2)] by (intro inv_shift[OF inv refund_error(2)]) auto
next
  case (upsert_ok xs t c batch key known drawn ys rows' u)
  have ok: "job_fits (Writing t c batch key known drawn)" by (rule inv_parts(1)[OF inv upsert_ok(2)])
  then show ?thesis unfolding upsert_ok(1) using upsert_effect[OF upsert_ok(3)] by (intro inv_upsert[OF inv upsert_ok(2,3)]) auto
next
  case (adjust xs t d ys)
  show ?thesis unfolding adjust(1) by (rule inv_adjust[OF inv adjust(2)])
next
  case (adjust_error xs t d ys)
  show ?thesis unfolding adjust_error(1) using inv_parts(1)[OF inv adjust_error(2)] by (intro inv_shift[OF inv adjust_error(2)]) auto
next
  case (upsert_fails xs t c batch key known drawn ys part rows' u partial)
  have ok: "job_fits (Writing t c batch key known drawn)" by (rule inv_parts(1)[OF inv upsert_fails(2)])
  then show ?thesis unfolding upsert_fails(1) using upsert_effect[OF upsert_fails(4)] upsert_fails(5) fresh_nonneg[of batch known]
    by (intro inv_upsert[OF inv upsert_fails(2,4)]) (auto simp: unwritten_def back_to_reservation_def)
next
  case (undo xs t key bk rest ys led' kept)
  have "job_fits (Undoing t key bk rest)" by (rule inv_parts(1)[OF inv undo(2)])
  then show ?thesis unfolding undo(1) using inv_back[OF inv undo(2,3), of "[(StoredRows, rest)]" None] by auto
next
  case (undo_error xs t key bk rest ys)
  show ?thesis unfolding undo_error(1) using inv_parts(1)[OF inv undo_error(2)] by (intro inv_shift[OF inv undo_error(2)]) auto
next
  case (settle xs t m key ys led' left)
  show ?thesis unfolding settle(1)
    using settle_effect[OF inv_parts(2)[OF inv settle(2)] settle(3)] inv_parts[OF inv settle(2)]
    by (intro inv_replace[OF inv settle(2) jobs_to_simps(1)]) (auto simp: same_books)
next
  case (remove_resource m n t)
  from this(2-) show ?thesis using inv unfolding remove_resource(1) by (intro inv_add[OF inv jobs_to_simps(1)]) (auto simp: resources_def usage_inv_def usage_fine_def)
next
  case (remove_connector t c)
  from this(2-) show ?thesis using inv unfolding remove_connector(1) by (intro inv_add[OF inv jobs_to_simps(1)]) (auto simp: resources_def usage_inv_def usage_fine_def)
next
  case (purge_rows xs t c ys rows' n)
  show ?thesis unfolding purge_rows(1) by (rule inv_purge[OF inv purge_rows(2,4)])
next
  case (void_stale led' t)
  have f: "usage_fine w" using inv by (simp add: usage_inv_def)
  have e: "ledger_ok led' \<and> open_total u m led' \<le> open_total u m (uw_ledger w)" for u m
    using void_effect f unfolding void_stale(2) usage_fine_def by blast
  have "0 \<le> uw_lost w (u, m)" for u m using f by (simp add: usage_fine_def books_ok_def)
  then have "open_total u m led' \<le> uw_lost w (u, m) + open_total u m (uw_ledger w)" for u m using e[of u m] add_increasing by blast
  then show ?thesis using f e unfolding void_stale(1)
    by (intro inv_world[OF inv]) (simp_all add: usage_fine_def books_ok_def in_use_def resources_def books_def)
next
  case (ledger_ttl es k r bs)
  have f: "usage_fine w" using inv by (simp add: usage_inv_def)
  then have l: "ledger_ok (es @ (k, r) # bs)" unfolding ledger_ttl(2)[symmetric] by (simp add: usage_fine_def)
  then have p: "0 \<le> open_part u m (k, r)" for u m by (simp add: ledger_ok_def open_part_def)
  have "ledger_ok (es @ bs)" using l by (auto simp: ledger_ok_def)
  then show ?thesis using f p unfolding ledger_ttl(1)
    by (intro inv_world[OF inv]) (simp_all add: usage_fine_def books_ok_def in_use_def resources_def books_def ledger_ttl(2) open_total_def)
next
  case (crash xs j ys)
  have f: "usage_fine w" using inv by (simp add: usage_inv_def)
  have "0 \<le> held j u m" for u m using held_nonneg[OF inv_parts(1)[OF inv crash(2)]] .
  then show ?thesis using f unfolding crash(1)
    by (intro inv_world[OF inv]) (simp_all add: usage_fine_def books_ok_def in_use_def resources_def books_def crash(2))
next
  case (tick now')
  have f: "usage_fine w" using inv by (simp add: usage_inv_def)
  show ?thesis using f unfolding tick(1)
    by (intro inv_world[OF inv]) (simp_all add: usage_fine_def books_ok_def in_use_def resources_def books_def)
qed

lemma usage_inv_reach: "usage_reach E orderly st w0 w \<Longrightarrow> usage_inv w0 \<Longrightarrow> usage_inv w"
  by (induction rule: usage_reach.induct) (auto intro: usage_inv_step)

section \<open>Orderly runs\<close>

text \<open>In an orderly run a batch knows only rows that are stored: nothing is hidden, forced or clamped.\<close>

fun cont_known :: "stored_rows \<Rightarrow> string \<Rightarrow> usage_cont \<Rightarrow> bool" where
  "cont_known rows t (To_write c batch key known drawn) = (known_ok rows t c known \<and> distinct known \<and> set known \<subseteq> set batch)"
| "cont_known rows t k = True"

fun job_known :: "stored_rows \<Rightarrow> usage_job \<Rightarrow> bool" where
  "job_known rows (Entitling t m n k) = cont_known rows t k"
| "job_known rows (Bumping t m n k) = cont_known rows t k"
| "job_known rows (Trying t m n mx i k) = cont_known rows t k"
| "job_known rows (Rereading t m n mx i k) = cont_known rows t k"
| "job_known rows (Releasing t xs (Some (c, known))) = known_ok rows t c known"
| "job_known rows (Drawing t c batch key known) = (known_ok rows t c known \<and> distinct known \<and> set known \<subseteq> set batch)"
| "job_known rows (Refunding t c key known drawn q) = known_ok rows t c known"
| "job_known rows (Writing t c batch key known drawn) = (known_ok rows t c known \<and> distinct known \<and> set known \<subseteq> set batch)"
| "job_known rows (Adjusting t d) = False"
| "job_known rows j = True"

definition quiet :: "usage_world \<Rightarrow> bool" where
  "quiet w \<longleftrightarrow> (\<forall>x. uw_hidden w x = 0 \<and> uw_forced w x = 0 \<and> uw_clamped w x = 0) \<and> list_all (job_known (uw_rows w)) (uw_jobs w)"

lemma known_mono: "set rows \<subseteq> set rows' \<Longrightarrow> known_ok rows t c known \<Longrightarrow> known_ok rows' t c known"
  by (auto simp: known_ok_def)

lemma job_known_mono: "set rows \<subseteq> set rows' \<Longrightarrow> job_known rows j \<Longrightarrow> job_known rows' j"
proof -
  assume s: "set rows \<subseteq> set rows'" and j: "job_known rows j"
  have "cont_known rows t k \<Longrightarrow> cont_known rows' t k" for t k using known_mono[OF s] by (cases k) auto
  then show "job_known rows' j" using j known_mono[OF s] by (induction rows j rule: job_known.induct) auto
qed

lemma resume_known: "cont_known rows t k \<Longrightarrow> job_known rows (resume t m n k)"
  by (induction t m n k rule: resume.induct) auto

lemma refuse_known: "cont_known rows t k \<Longrightarrow> job_known rows (refuse t q n k)"
  by (induction t q n k rule: refuse.induct) auto

lemma kept_elsewhere:
  assumes "\<forall>t' c' i. (t', c', i) \<in> set rows \<longrightarrow> (t', c') \<noteq> (t, c) \<longrightarrow> (t', c', i) \<in> set rows'" "\<not> batch_on t c j" "job_known rows j"
  shows "job_known rows' j"
proof -
  have k: "known_ok rows u d known \<Longrightarrow> (u, d) \<noteq> (t, c) \<Longrightarrow> known_ok rows' u d known" for u d known
    using assms(1) by (auto simp: known_ok_def)
  have "cont_known rows u s \<Longrightarrow> \<not> batch_on t c (Entitling u m n s) \<Longrightarrow> cont_known rows' u s" for u m n s
    using k by (cases s) auto
  moreover have "batch_on t c (Entitling u m n s) = batch_on t c (Bumping u m n s)" "batch_on t c (Entitling u m n s) = batch_on t c (Trying u m n mx i s)"
    "batch_on t c (Entitling u m n s) = batch_on t c (Rereading u m n mx i s)" for u m n mx i s by (cases s; simp)+
  ultimately show ?thesis using assms(2,3) k by (induction rows j rule: job_known.induct) (auto split: option.splits)
qed

lemma quiet_job: "quiet w \<Longrightarrow> uw_jobs w = xs @ j # ys \<Longrightarrow> job_known (uw_rows w) j"
  by (simp add: quiet_def)

lemma quiet_replace:
  assumes "quiet w" "uw_jobs w = xs @ j # ys" "uw_jobs w' = xs @ j' # ys" "job_known (uw_rows w') j'" "set (uw_rows w) \<subseteq> set (uw_rows w')"
    and "uw_hidden w' = uw_hidden w" "uw_forced w' = uw_forced w" "uw_clamped w' = uw_clamped w"
  shows "quiet w'"
  using assms job_known_mono[OF assms(5)] by (auto simp: quiet_def list_all_iff)

lemma quiet_shift: "quiet w \<Longrightarrow> uw_jobs w = xs @ j # ys \<Longrightarrow> job_known (uw_rows w) j' \<Longrightarrow> quiet (jobs_to (xs @ j' # ys) w)"
  by (rule quiet_replace[where j' = j']) simp_all

lemma quiet_add: "quiet w \<Longrightarrow> job_known (uw_rows w) j \<Longrightarrow> uw_jobs w' = uw_jobs w @ [j] \<Longrightarrow> uw_rows w' = uw_rows w \<Longrightarrow> uw_hidden w' = uw_hidden w
    \<Longrightarrow> uw_forced w' = uw_forced w \<Longrightarrow> uw_clamped w' = uw_clamped w \<Longrightarrow> quiet w'"
  by (simp add: quiet_def)

lemma quiet_release:
  assumes inv: "usage_inv w" and q: "quiet w" and js: "uw_jobs w = xs @ Releasing t ((m, n) # rs) after # ys"
  shows "clamped_part t m n (uw_counters w) (usage_release (uw_now w) t m n (uw_counters w)) = 0"
proof (cases "periodOf m = Current_count")
  case c: True
  have f: "usage_fine w" and e: "counted t m w = in_use t m w" using inv c by (simp_all add: usage_inv_def)
  have ok: "0 \<le> n" "t \<noteq> []" "\<forall>(m, n)\<in>set rs. 0 \<le> n" using inv_parts(1)[OF inv js] by auto
  have "0 \<le> books t m w" using q f by (simp add: books_def quiet_def usage_fine_def books_ok_def)
  moreover have "0 \<le> resources t m w" "0 \<le> open_total t m (uw_ledger w)" using f by (simp_all add: resources_def usage_fine_def open_nonneg)
  moreover have "0 \<le> sum_list (map (\<lambda>j. held j t m) xs)" "0 \<le> sum_list (map (\<lambda>j. held j t m) ys)"
    using all_held_nonneg[OF f] js by auto
  moreover have "n \<le> held (Releasing t ((m, n) # rs) after) t m" using listed_nonneg[OF ok(3), of m] by simp
  ultimately have le: "n \<le> row_value (uw_counters w (t, m, ''current''))" using e unfolding in_use_def js counted_def by simp
  show ?thesis
  proof (cases "0 < n")
    case True
    then have "uw_counters w (t, m, ''current'') \<noteq> None" using le by (cases "uw_counters w (t, m, ''current'')") simp_all
    then show ?thesis using True le ok(2) c by (simp add: clamped_part_def release_value)
  next
    case False
    then show ?thesis using ok(1) by (simp add: clamped_part_def release_value)
  qed
qed (simp add: clamped_part_def)

lemma quiet_purge:
  assumes q: "quiet w" and js: "uw_jobs w = xs @ Purging t c # ys" and o: "\<not> list_ex (batch_on t c) (uw_jobs w)"
    and d: "deleteForConnector t c (uw_rows w) = (rows', n)"
  shows "quiet (jobs_to (xs @ Releasing t [(Connectors, 1), (StoredRows, n)] None # ys) (w\<lparr>uw_rows := rows'\<rparr>))"
proof -
  have "job_known rows' j" if "j \<in> set (uw_jobs w)" for j
  proof (rule kept_elsewhere)
    show "\<forall>t' c' i. (t', c', i) \<in> set (uw_rows w) \<longrightarrow> (t', c') \<noteq> (t, c) \<longrightarrow> (t', c', i) \<in> set rows'" using delete_effect[OF d] by blast
    show "\<not> batch_on t c j" using o that by (auto simp: list_ex_iff)
    show "job_known (uw_rows w) j" using q that by (auto simp: quiet_def list_all_iff)
  qed
  then show ?thesis using q js by (auto simp: quiet_def list_all_iff)
qed

lemma quiet_upsert:
  assumes q: "quiet w" and js: "uw_jobs w = xs @ j # ys" and u: "upsertRows t c ids (uw_rows w) = (rows', n)"
    and k: "job_known rows' j'" and g: "g = 0"
  shows "quiet (jobs_to (xs @ j' # ys) (w\<lparr>uw_rows := rows', uw_hidden := charge t StoredRows g (uw_hidden w)\<rparr>))"
  using upsert_effect[OF u] by (intro quiet_replace[OF q js jobs_to_simps(1)]) (simp_all add: k g)

lemma quiet_step:
  assumes "usage_step E True st w w'" and inv: "usage_inv w" and q: "quiet w"
  shows "quiet w'"
  using assms(1)
proof cases
  case (start_create n t m ms)
  show ?thesis unfolding start_create(1) by (intro quiet_add[OF q _ jobs_to_simps(1)]) simp_all
next
  case (start_reserve n t key m)
  show ?thesis unfolding start_reserve(1) by (intro quiet_add[OF q _ jobs_to_simps(1)]) simp_all
next
  case (start_batch t batch key c)
  show ?thesis unfolding start_batch(1) by (intro quiet_add[OF q _ jobs_to_simps(1)]) simp_all
next
  case (start_settle t m key)
  show ?thesis unfolding start_settle(1) by (intro quiet_add[OF q _ jobs_to_simps(1)]) simp_all
next
  case (resolve xs t m n k ys e)
  show ?thesis unfolding resolve(1) using quiet_job[OF q resolve(2)] refuse_known[of "uw_rows w" t k]
    by (intro quiet_shift[OF q resolve(2)]) (auto split: decision.split)
next
  case (bump_counter xs t m n k ys)
  show ?thesis unfolding bump_counter(1) using quiet_job[OF q bump_counter(2)]
    by (intro quiet_replace[OF q bump_counter(2) jobs_to_simps(1)]) (simp_all add: resume_known)
next
  case (too_many xs t m n mx i k ys)
  show ?thesis unfolding too_many(1) using quiet_job[OF q too_many(2)] by (intro quiet_shift[OF q too_many(2)]) (simp add: refuse_known)
next
  case (try_ok xs t m n mx i k ys cs')
  show ?thesis unfolding try_ok(1) using quiet_job[OF q try_ok(2)]
    by (intro quiet_replace[OF q try_ok(2) jobs_to_simps(1)]) (simp_all add: resume_known)
next
  case (try_duplicate xs t m n mx i k ys)
  show ?thesis unfolding try_duplicate(1) using quiet_job[OF q try_duplicate(2)] by (intro quiet_shift[OF q try_duplicate(2)]) simp
next
  case (reread xs t m n mx i k ys)
  show ?thesis unfolding reread(1) using quiet_job[OF q reread(2)] refuse_known[of "uw_rows w" t k]
    by (intro quiet_shift[OF q reread(2)]) (auto split: option.split)
next
  case (consume_error xs j ys t m n k)
  have "cont_known (uw_rows w) t k" using quiet_job[OF q consume_error(2)] consume_error(3) by auto
  then show ?thesis unfolding consume_error(1) by (intro quiet_shift[OF q consume_error(2)]) (rule refuse_known)
next
  case (create_ok xs t ms n ys)
  show ?thesis unfolding create_ok(1) by (intro quiet_replace[OF q create_ok(2) jobs_to_simps(1)]) simp_all
next
  case (create_fails xs t ms n ys)
  show ?thesis unfolding create_fails(1) by (intro quiet_shift[OF q create_fails(2)]) simp
next
  case (record_reservation xs t m key n ys led')
  show ?thesis unfolding record_reservation(1) by (intro quiet_replace[OF q record_reservation(2) jobs_to_simps(1)]) simp_all
next
  case (reservation_fails xs t m key n ys)
  show ?thesis unfolding reservation_fails(1) by (intro quiet_shift[OF q reservation_fails(2)]) simp
next
  case (release_one xs t m n rs after ys cs')
  have "clamped_part t m n (uw_counters w) cs' = 0" unfolding release_one(3) by (rule quiet_release[OF inv q release_one(2)])
  moreover have "job_known (uw_rows w) (Releasing t rs after)" using quiet_job[OF q release_one(2)] by (cases after) auto
  ultimately show ?thesis unfolding release_one(1) by (intro quiet_replace[OF q release_one(2) jobs_to_simps(1)]) simp_all
next
  case (release_error xs t m n rs after ys)
  have "job_known (uw_rows w) (Releasing t rs after)" using quiet_job[OF q release_error(2)] by (cases after) auto
  then show ?thesis unfolding release_error(1) by (intro quiet_replace[OF q release_error(2) jobs_to_simps(1)]) simp_all
next
  case (refresh_known xs t c known ys part rows' u)
  have "known_ok (uw_rows w) t c known" using quiet_job[OF q refresh_known(2)] by simp
  then have "known_ok (uw_rows w) t c part" using refresh_known(3) by (auto simp: known_ok_def)
  then have "u = 0" using refresh_none[of "uw_rows w" t c part] refresh_known(4) by simp
  then show ?thesis unfolding refresh_known(1) by (intro quiet_upsert[OF q refresh_known(2,4)]) simp_all
next
  case (look xs t c batch key ys known)
  have "known_ok (uw_rows w) t c known \<and> distinct known \<and> set known \<subseteq> set batch" using look(3) by (auto simp: findExistingSourceRowIds_def known_ok_def)
  then show ?thesis unfolding look(1) by (intro quiet_shift[OF q look(2)]) simp
next
  case (draw xs t c batch key known ys led' d)
  show ?thesis unfolding draw(1) using quiet_job[OF q draw(2)] by (intro quiet_replace[OF q draw(2) jobs_to_simps(1)]) simp_all
next
  case (refund xs t c key known drawn qq ys led' kept)
  show ?thesis unfolding refund(1) using quiet_job[OF q refund(2)] by (intro quiet_replace[OF q refund(2) jobs_to_simps(1)]) simp_all
next
  case (refund_error xs t c key known drawn qq ys)
  show ?thesis unfolding refund_error(1) using quiet_job[OF q refund_error(2)] by (intro quiet_shift[OF q refund_error(2)]) simp
next
  case (upsert_ok xs t c batch key known drawn ys rows' u)
  have "u \<le> fresh_rows batch known" using quiet_job[OF q upsert_ok(2)] new_bound[OF _ _ _ _ upsert_ok(3)] by auto
  then show ?thesis unfolding upsert_ok(1) by (intro quiet_upsert[OF q upsert_ok(2,3)]) simp_all
next
  case (adjust xs t d ys)
  then show ?thesis using quiet_job[OF q adjust(2)] by simp
next
  case (adjust_error xs t d ys)
  then show ?thesis using quiet_job[OF q adjust_error(2)] by simp
next
  case (upsert_fails xs t c batch key known drawn ys part rows' u partial)
  have "u \<le> fresh_rows batch known" using quiet_job[OF q upsert_fails(2)] new_bound[OF _ _ _ upsert_fails(3,4)] by auto
  then show ?thesis unfolding upsert_fails(1) using upsert_fails(5) by (intro quiet_upsert[OF q upsert_fails(2,4)]) simp_all
next
  case (undo xs t key bk rest ys led' kept)
  show ?thesis unfolding undo(1) by (intro quiet_replace[OF q undo(2) jobs_to_simps(1)]) simp_all
next
  case (undo_error xs t key bk rest ys)
  show ?thesis unfolding undo_error(1) by (intro quiet_shift[OF q undo_error(2)]) simp
next
  case (settle xs t m key ys led' left)
  show ?thesis unfolding settle(1) by (intro quiet_replace[OF q settle(2) jobs_to_simps(1)]) simp_all
next
  case (remove_resource m n t)
  show ?thesis unfolding remove_resource(1) by (intro quiet_add[OF q _ jobs_to_simps(1)]) simp_all
next
  case (remove_connector t c)
  show ?thesis unfolding remove_connector(1) by (intro quiet_add[OF q _ jobs_to_simps(1)]) simp_all
next
  case (purge_rows xs t c ys rows' n)
  show ?thesis unfolding purge_rows(1) using purge_rows(3) by (intro quiet_purge[OF q purge_rows(2) _ purge_rows(4)]) simp
next
  case (crash xs j ys)
  then show ?thesis using q by (simp add: quiet_def)
qed (use q in \<open>simp_all add: quiet_def\<close>)

lemma quiet_reach: "usage_reach E True st w0 w \<Longrightarrow> usage_inv w0 \<Longrightarrow> quiet w0 \<Longrightarrow> quiet w"
  by (induction rule: usage_reach.induct) (auto intro: quiet_step usage_inv_reach)

section \<open>Hard limits\<close>

definition hard_limited :: "(string \<Rightarrow> entitlement set) \<Rightarrow> string \<Rightarrow> usage_metric \<Rightarrow> int \<Rightarrow> bool" where
  "hard_limited E t m M \<longleftrightarrow> (\<forall>e\<in>E t. \<exists>l. en_limit e m = Some l \<and> lm_hard l \<and> lm_max l \<le> M)"

fun limited :: "string \<Rightarrow> usage_metric \<Rightarrow> int \<Rightarrow> usage_job \<Rightarrow> bool" where
  "limited t m M (Bumping u x n k) = (\<not> (u = t \<and> x = m))"
| "limited t m M (Trying u x n mx i k) = (u = t \<and> x = m \<longrightarrow> mx \<le> M)"
| "limited t m M (Rereading u x n mx i k) = (u = t \<and> x = m \<longrightarrow> mx \<le> M)"
| "limited t m M j = True"

definition in_limit :: "string \<Rightarrow> usage_metric \<Rightarrow> int \<Rightarrow> usage_world \<Rightarrow> bool" where
  "in_limit t m M w \<longleftrightarrow> counted t m w \<le> M + uw_forced w (t, m) \<and> list_all (limited t m M) (uw_jobs w)"

lemma limited_resume [simp]: "limited t m M (resume u x n k)"
  by (induction u x n k rule: resume.induct) simp_all

lemma limited_refuse [simp]: "limited t m M (refuse u q n k)"
  by (induction u q n k rule: refuse.induct) simp_all

lemma in_limit_job: "in_limit t m M w \<Longrightarrow> uw_jobs w = xs @ j # ys \<Longrightarrow> limited t m M j"
  by (simp add: in_limit_def)

lemma in_limit_replace:
  "in_limit t m M w \<Longrightarrow> uw_jobs w = xs @ j # ys \<Longrightarrow> limited t m M j' \<Longrightarrow> uw_jobs w' = xs @ j' # ys \<Longrightarrow> counted t m w' \<le> M + uw_forced w' (t, m) \<Longrightarrow> in_limit t m M w'"
  by (simp add: in_limit_def)

lemma in_limit_step:
  assumes "usage_step E orderly st w w'" and inv: "usage_inv w" and l: "hard_limited E t m M" and w: "in_limit t m M w" and c: "periodOf m = Current_count"
  shows "in_limit t m M w'"
  using assms(1)
proof cases
  case (resolve xs u x n k ys e)
  have "decide e m \<noteq> Unbounded \<and> (\<forall>mx. decide e m = Bounded mx \<longrightarrow> mx \<le> M)" if "u = t"
    using l resolve(3) that by (auto simp: hard_limited_def decide_def)
  then have "limited t m M (case decide e x of Blocked \<Rightarrow> refuse u False n k | Unbounded \<Rightarrow> Bumping u x n k | Bounded mx \<Rightarrow> Trying u x n mx 0 k)"
    by (auto split: decision.split)
  then show ?thesis unfolding resolve(1) using w by (intro in_limit_replace[OF w resolve(2) _ jobs_to_simps(1)]) (simp_all add: in_limit_def counted_def)
next
  case (bump_counter xs u x n k ys)
  have "\<not> (u = t \<and> x = m)" using in_limit_job[OF w bump_counter(2)] by simp
  then show ?thesis unfolding bump_counter(1) using w
    by (intro in_limit_replace[OF w bump_counter(2) _ jobs_to_simps(1)]) (auto simp: in_limit_def counted_def bump_counted[OF c])
next
  case (try_ok xs u x n mx i k ys cs')
  have j: "u = t \<and> x = m \<longrightarrow> mx \<le> M" using in_limit_job[OF w try_ok(2)] by simp
  have e: "cs' = bump (uw_now w) (u, x, periodKeyFor x (uw_now w)) n (meteredExpiry (meteredRetentionDays st) x (uw_now w)) (uw_counters w)"
    and room: "uw_counters w (u, x, periodKeyFor x (uw_now w)) = None \<or> row_value (uw_counters w (u, x, periodKeyFor x (uw_now w))) \<le> mx - n"
    using tryIncrement_Some[OF try_ok(4)] by auto
  have "row_value (uw_counters w (t, m, ''current'')) + n \<le> M" if "u = t \<and> x = m"
    using room j that try_ok(3) c by (auto simp: periodKeyFor_current)
  moreover have "0 \<le> uw_forced w (t, m)" using inv_parts(6)[OF inv try_ok(2)] by (simp add: books_ok_def)
  ultimately show ?thesis unfolding try_ok(1) using w
    by (intro in_limit_replace[OF w try_ok(2) _ jobs_to_simps(1)]) (auto simp: in_limit_def counted_def e bump_counted[OF c])
next
  case (try_duplicate xs u x n mx i k ys)
  then show ?thesis using w by (auto simp: in_limit_def counted_def)
next
  case (reread xs u x n mx i k ys)
  have "limited t m M (Trying u x n mx (Suc i) k)" using in_limit_job[OF w reread(2)] by simp
  then show ?thesis unfolding reread(1) using w
    by (intro in_limit_replace[OF w reread(2) _ jobs_to_simps(1)]) (auto simp: in_limit_def counted_def split: option.split)
next
  case (release_one xs u x n rs after ys cs')
  have n: "0 \<le> n" using inv_parts(1)[OF inv release_one(2)] by simp
  have "0 \<le> row_value (uw_counters w (t, m, ''current''))" using inv_parts(7)[OF inv release_one(2) c, of t] by (simp add: counted_def)
  then have "row_value (cs' (t, m, ''current'')) \<le> row_value (uw_counters w (t, m, ''current''))"
    using n unfolding release_one(3) release_value by (auto split: if_splits)
  then show ?thesis unfolding release_one(1) using w by (intro in_limit_replace[OF w release_one(2) _ jobs_to_simps(1)]) (auto simp: in_limit_def counted_def)
next
  case (draw xs u d batch key known ys led' n)
  then show ?thesis using w by (auto simp: in_limit_def counted_def)
next
  case (adjust xs u d ys)
  show ?thesis unfolding adjust(1) using w
    by (intro in_limit_replace[OF w adjust(2) _ jobs_to_simps(1)]) (auto simp: in_limit_def counted_def bump_value charge_at)
qed (use w in \<open>auto simp: in_limit_def counted_def\<close>)

lemma in_limit_reach:
  "usage_reach E orderly st w0 w \<Longrightarrow> usage_inv w0 \<Longrightarrow> hard_limited E t m M \<Longrightarrow> in_limit t m M w0 \<Longrightarrow> periodOf m = Current_count \<Longrightarrow> in_limit t m M w"
  by (induction rule: usage_reach.induct) (auto intro: in_limit_step usage_inv_reach)

section \<open>What goes wrong without the order\<close>

text \<open>
  A bulk write that stored its rows and then failed elsewhere (\<open>bumpDataVersion\<close>) reports no inserted rows: their
  capacity is given back and they stay uncounted.
\<close>

lemma unreported_rows_uncounted:
  assumes js: "uw_jobs w = [Writing t c batch key known drawn]" and new: "new_ids t c batch (uw_rows w) \<noteq> []"
  shows "\<exists>w'. usage_step E False st w w' \<and> uw_hidden w (t, StoredRows) < uw_hidden w' (t, StoredRows) \<and> counted t StoredRows w' = counted t StoredRows w"
proof -
  obtain rows' u where up: "upsertRows t c batch (uw_rows w) = (rows', u)" by (cases "upsertRows t c batch (uw_rows w)")
  have "0 < u" using up new by (auto simp: upsertRows_def)
  let ?w = "jobs_to ([] @ Undoing t key (back_to_reservation batch known drawn 0) (unwritten batch known 0 - back_to_reservation batch known drawn 0) # [])
    (w\<lparr>uw_rows := rows', uw_hidden := charge t StoredRows (u - min (fresh_rows batch known) 0) (uw_hidden w)\<rparr>)"
  have "usage_step E False st w ?w" by (rule upsert_fails[OF _ subset_refl up]) (simp_all add: js)
  moreover have "uw_hidden w (t, StoredRows) < uw_hidden ?w (t, StoredRows)" using \<open>0 < u\<close> by (simp add: charge_at)
  moreover have "counted t StoredRows ?w = counted t StoredRows w" by (simp add: counted_def)
  ultimately show ?thesis by blast
qed

section \<open>The properties\<close>

text \<open>At the start nothing is in flight and the counters agree with the collections.\<close>

definition settled_world :: "usage_world \<Rightarrow> bool" where
  "settled_world w \<longleftrightarrow> uw_jobs w = [] \<and> ledger_ok (uw_ledger w) \<and> distinct (uw_rows w) \<and> (\<forall>x. 0 \<le> uw_resources w x) 
     \<and> (\<forall>x. uw_lost w x = 0 \<and> uw_hidden w x = 0 \<and> uw_forced w x = 0 \<and> uw_clamped w x = 0)
     \<and> (\<forall>t m. periodOf m = Current_count \<longrightarrow> counted t m w = resources t m w + open_total t m (uw_ledger w))"

lemma settled_inv: "settled_world w \<Longrightarrow> usage_inv w"
proof -
  assume s: "settled_world w"
  have "0 \<le> resources t m w + open_total t m (uw_ledger w)" for t m
    using s open_nonneg[of "uw_ledger w" t m] by (simp add: settled_world_def resources_def)
  then show "usage_inv w" using s by (simp add: settled_world_def usage_inv_def usage_fine_def in_use_def books_def books_ok_def)
qed

lemma settled_quiet: "settled_world w \<Longrightarrow> quiet w"
  by (simp add: settled_world_def quiet_def)

lemma nothing_hidden:
  assumes "usage_reach E orderly st w0 w" and "settled_world w0"
  shows "(orderly \<or> m \<noteq> StoredRows \<longrightarrow> uw_hidden w (t, m) = 0 \<and> uw_forced w (t, m) = 0) \<and> (orderly \<longrightarrow> uw_clamped w (t, m) = 0)"
proof -
  have "quiet w" if orderly
    using quiet_reach[OF _ settled_inv[OF assms(2)] settled_quiet[OF assms(2)]] assms(1) that by simp
  moreover have "books_ok w" using usage_inv_reach[OF assms(1) settled_inv[OF assms(2)]] by (simp add: usage_inv_def usage_fine_def)
  ultimately show ?thesis by (auto simp: quiet_def books_ok_def)
qed

text \<open>C7. Hard limits. Between two reconciliations, however requests, queue workers, failures and crashes interleave,
  the counter of a resource never passes the limit, and neither do the resources together with the open
  reservations. For stored rows two things are added to the limit: to the counter, rows counted after they were
  stored; to the rows, those stored beyond the capacity their batch took. Both are nothing while a failed bulk
  write reports the rows it inserted and no connector is purged under a batch in flight; otherwise rows can be
  stored past the limit (\<open>unreported_rows_uncounted\<close> above).\<close>

theorem quota_never_exceeded:
  assumes "usage_reach E orderly st w0 w" and "settled_world w0" and "hard_limited E t m M" and "counted t m w0 \<le> M" and "periodOf m = Current_count"
  shows "counted t m w \<le> M + uw_forced w (t, m)
    \<and> resources t m w + open_total t m (uw_ledger w) \<le> M + uw_hidden w (t, m)
    \<and> (orderly \<or> m \<noteq> StoredRows \<longrightarrow> uw_forced w (t, m) = 0 \<and> uw_hidden w (t, m) = 0)"
proof -
  have inv: "usage_inv w" by (rule usage_inv_reach[OF assms(1) settled_inv[OF assms(2)]])
  have "in_limit t m M w0" using assms(2,4) by (simp add: in_limit_def settled_world_def)
  then have le: "counted t m w \<le> M + uw_forced w (t, m)" using in_limit_reach[OF assms(1) settled_inv[OF assms(2)] assms(3) _ assms(5)] by (simp add: in_limit_def)
  have "0 \<le> sum_list (map (\<lambda>j. held j t m) (uw_jobs w))" using inv all_held_nonneg[of w "uw_jobs w"] by (simp add: usage_inv_def)
  moreover have "counted t m w = in_use t m w" "0 \<le> uw_lost w (t, m)" "0 \<le> uw_clamped w (t, m)" using inv assms(5) by (simp_all add: usage_inv_def usage_fine_def books_ok_def)
  ultimately have "resources t m w + open_total t m (uw_ledger w) \<le> M + uw_hidden w (t, m)" using le by (simp add: in_use_def books_def)
  then show ?thesis using le nothing_hidden[OF assms(1,2), of m t] by blast
qed

definition demo_usage :: usage_world where
  "demo_usage = \<lparr>uw_counters = (\<lambda>_. None), uw_ledger = [], uw_rows = [], uw_resources = (\<lambda>_. 0), uw_jobs = [], uw_now = 0, uw_lost = (\<lambda>_. 0),
     uw_hidden = (\<lambda>_. 0), uw_forced = (\<lambda>_. 0), uw_clamped = (\<lambda>_. 0)\<rparr>"

definition demo_plan :: "string \<Rightarrow> entitlement set" where
  "demo_plan t = {\<lparr>en_blocked = False, en_limit = (\<lambda>m. Some \<lparr>lm_max = 3, lm_hard = True\<rparr>)\<rparr>}"

definition demo_counters :: usage_counters where
  "demo_counters = bump 0 (''t1'', StoredRows, ''current'') 2 None (\<lambda>_. None)"

definition demo_reserved :: ledger where
  "demo_reserved = projr (ledger_create 0 (''t1'', StoredRows, ''j'') 2 86400000 (86400000 + 7 * DAY_MS) [])"

text \<open>A webhook delivery reserves two rows against a plan of three.\<close>

lemma demo_usage_reach:
  "usage_reach demo_plan True demo_settings demo_usage
     (jobs_to [Releasing ''t1'' [] None] (demo_usage\<lparr>uw_counters := demo_counters, uw_ledger := demo_reserved\<rparr>))"
proof -
  let ?k = "To_reserve ''j''"
  have step: "usage_reach demo_plan True demo_settings demo_usage w \<Longrightarrow> usage_step demo_plan True demo_settings w w' \<Longrightarrow> w' = v \<Longrightarrow> usage_reach demo_plan True demo_settings demo_usage v"
    for w w' v using usage_next by metis
  have per: "periodKeyFor StoredRows 0 = ''current''" "meteredExpiry 90 StoredRows 0 = None" "meteredRetentionDays demo_settings = 90" by code_simp+
  have led: "ledger_create 0 (''t1'', StoredRows, ''j'') 2 (0 + reservationTtlHours demo_settings * 3600000) (0 + reservationTtlHours demo_settings * 3600000 + 7 * DAY_MS) [] = Inr demo_reserved"
    by code_simp
  have "usage_reach demo_plan True demo_settings demo_usage (jobs_to [Entitling ''t1'' StoredRows 2 ?k] demo_usage)"
    by (rule step[OF usage_start start_reserve[of 2 "''t1''" "''j''" StoredRows]]) (simp_all add: demo_usage_def periodOf_def jobs_to_def)
  then have "usage_reach demo_plan True demo_settings demo_usage (jobs_to [Trying ''t1'' StoredRows 2 3 0 ?k] demo_usage)"
    by (rule step[OF _ resolve[of _ "[]" "''t1''" StoredRows 2 ?k "[]" "\<lparr>en_blocked = False, en_limit = (\<lambda>m. Some \<lparr>lm_max = 3, lm_hard = True\<rparr>)\<rparr>"]])
      (simp_all add: demo_plan_def decide_def jobs_to_def)
  then have "usage_reach demo_plan True demo_settings demo_usage (jobs_to [Reserving ''t1'' StoredRows ''j'' 2] (demo_usage\<lparr>uw_counters := demo_counters\<rparr>))"
    by (rule step[OF _ try_ok[of _ "[]" "''t1''" StoredRows 2 3 0 ?k "[]" _ demo_counters]])
      (simp_all add: jobs_to_def demo_usage_def per tryIncrement_def demo_counters_def)
  then show ?thesis
    by (rule step[OF _ record_reservation[of _ "[]" "''t1''" StoredRows "''j''" 2 "[]" _ demo_reserved]]) (simp_all add: jobs_to_def demo_usage_def led[simplified])
qed

lemma demo_settled: "settled_world demo_usage"
  by (simp add: settled_world_def demo_usage_def ledger_ok_def counted_def resources_def open_total_def)

theorem quota_never_exceeded_witness:
  "\<exists>w. usage_reach demo_plan True demo_settings demo_usage w \<and> counted ''t1'' StoredRows w = 2 \<and> counted ''t1'' StoredRows w \<le> 3
     \<and> resources ''t1'' StoredRows w + open_total ''t1'' StoredRows (uw_ledger w) \<le> 3"
proof -
  let ?w = "jobs_to [Releasing ''t1'' [] None] (demo_usage\<lparr>uw_counters := demo_counters, uw_ledger := demo_reserved\<rparr>)"
  have "hard_limited demo_plan ''t1'' StoredRows 3" by (simp add: hard_limited_def demo_plan_def)
  moreover have "counted ''t1'' StoredRows demo_usage \<le> 3" by (simp add: counted_def demo_usage_def)
  moreover have "periodOf StoredRows = Current_count" by code_simp
  moreover have "counted ''t1'' StoredRows ?w = 2" by (simp add: counted_def demo_counters_def bump_value)
  moreover have "uw_forced ?w (''t1'', StoredRows) = 0" "uw_hidden ?w (''t1'', StoredRows) = 0" by (simp_all add: demo_usage_def)
  moreover note quota_never_exceeded[OF demo_usage_reach demo_settled, of "''t1''" StoredRows 3]
  ultimately have "counted ''t1'' StoredRows ?w \<le> 3" "resources ''t1'' StoredRows ?w + open_total ''t1'' StoredRows (uw_ledger ?w) \<le> 3" by simp_all
  then show ?thesis using demo_usage_reach \<open>counted ''t1'' StoredRows ?w = 2\<close> by blast
qed

text \<open>C8. Nothing is counted twice and nothing leaks unseen. Between two reconciliations, however requests, retries,
  partial writes, settlements, failures and crashes interleave, a counter is exactly the resources, the open
  reservations, what requests in flight hold, and what crashes, failed releases and voided reservations left, plus
  what releases could not take at zero and less the rows stored beyond the capacity taken for them and not counted
  since. The last three are nothing while failed bulk writes report what they inserted and no connector is
  purged under a batch in flight; only stored rows can be hidden at all.\<close>

theorem usage_accounted:
  assumes "usage_reach E orderly st w0 w" and "settled_world w0" and "periodOf m = Current_count"
  shows "counted t m w = resources t m w + open_total t m (uw_ledger w) + sum_list (map (\<lambda>j. held j t m) (uw_jobs w))
      + uw_lost w (t, m) + uw_clamped w (t, m) - (uw_hidden w (t, m) - uw_forced w (t, m))
    \<and> 0 \<le> uw_lost w (t, m) \<and> 0 \<le> uw_clamped w (t, m) \<and> 0 \<le> uw_hidden w (t, m) \<and> 0 \<le> uw_forced w (t, m)
    \<and> (orderly \<or> m \<noteq> StoredRows \<longrightarrow> uw_hidden w (t, m) = 0 \<and> uw_forced w (t, m) = 0) \<and> (orderly \<longrightarrow> uw_clamped w (t, m) = 0)"
proof -
  have inv: "usage_inv w" by (rule usage_inv_reach[OF assms(1) settled_inv[OF assms(2)]])
  then have "counted t m w = in_use t m w" "books_ok w" using assms(3) by (simp_all add: usage_inv_def usage_fine_def)
  then show ?thesis using nothing_hidden[OF assms(1,2), of m t] by (simp add: in_use_def books_def books_ok_def)
qed

theorem usage_accounted_witness:
  "\<exists>w. usage_reach demo_plan True demo_settings demo_usage w \<and> counted ''t1'' StoredRows w = 2 \<and> open_total ''t1'' StoredRows (uw_ledger w) = 2
     \<and> uw_lost w (''t1'', StoredRows) = 0 \<and> resources ''t1'' StoredRows w = 0"
proof -
  let ?w = "jobs_to [Releasing ''t1'' [] None] (demo_usage\<lparr>uw_counters := demo_counters, uw_ledger := demo_reserved\<rparr>)"
  have p: "periodOf StoredRows = Current_count" "open_total ''t1'' StoredRows demo_reserved = 2" by code_simp+
  have "counted ''t1'' StoredRows ?w = 2" by (simp add: counted_def demo_counters_def bump_value)
  moreover have "uw_lost ?w (''t1'', StoredRows) = 0" "uw_clamped ?w (''t1'', StoredRows) = 0"
    "uw_hidden ?w (''t1'', StoredRows) = 0" "uw_forced ?w (''t1'', StoredRows) = 0" by (simp_all add: demo_usage_def)
  moreover note conjunct1[OF usage_accounted[OF demo_usage_reach demo_settled p(1), of "''t1''"]]
  ultimately have "resources ''t1'' StoredRows ?w = 0" using p(2) by simp
  then show ?thesis using demo_usage_reach p(2) \<open>counted ''t1'' StoredRows ?w = 2\<close> \<open>uw_lost ?w (''t1'', StoredRows) = 0\<close> by auto
qed

end
