(* ===== verification/Sessions.thy ===== *)
theory Sessions
  imports Prelude
begin

text \<open>
  Login sessions: \<open>src/models/Session.js\<close>, \<open>src/repositories/session.repository.js\<close>, the lifecycle in
  \<open>src/modules/iam/auth/session.service.js\<close>, refreshing and logging out in \<open>auth.service.js\<close>, and the check of an
  access token against its session in \<open>src/middleware/auth.middleware.js\<close>. The key derivation of refresh tokens and
  the verification of JWTs are parameters.
\<close>

section \<open>Sessions\<close>

datatype actor_kind = User_actor | Admin_actor | Service_actor
datatype portal = User_portal | Admin_portal
datatype session_status = Active_session | Revoked_session | Expired_session
datatype end_reason = Rotated | Ended string

record session =
  se_id :: string
  se_family :: "string option"
  se_actor :: string
  se_kind :: actor_kind
  se_tenant :: "string option"
  se_impersonated :: "string option"
  se_hash :: string
  se_auth_at :: "int option"
  se_issued :: int
  se_expires :: int
  se_status :: session_status
  se_revoked_at :: "int option"
  se_reason :: "end_reason option"
  se_replaced :: "string option"
  se_restricted :: bool
  se_stepup :: "int option"

text \<open>Durations in milliseconds.\<close>

record auth_settings =
  refreshTtl :: int
  absoluteTtl :: int
  reuseGraceMs :: int

definition live_status :: "session \<Rightarrow> bool" where
  "live_status s \<longleftrightarrow> se_status s = Active_session"

definition sessionPortal :: "session \<Rightarrow> portal" where
  "sessionPortal s = (if se_kind s = Admin_actor then Admin_portal else User_portal)"

definition family :: "session \<Rightarrow> string" where
  "family s = (case se_family s of Some f \<Rightarrow> f | None \<Rightarrow> se_id s)"

definition sessionExpiryFromNow :: "auth_settings \<Rightarrow> int \<Rightarrow> int" where
  "sessionExpiryFromNow st now = now + refreshTtl st"

definition familyAuthenticatedAt :: "session \<Rightarrow> int" where
  "familyAuthenticatedAt s = (case se_auth_at s of Some t \<Rightarrow> t | None \<Rightarrow> se_issued s)"

definition absoluteExpiryFor :: "auth_settings \<Rightarrow> int \<Rightarrow> int" where
  "absoluteExpiryFor st t = t + absoluteTtl st"

definition isPastAbsoluteLifetime :: "auth_settings \<Rightarrow> int \<Rightarrow> session \<Rightarrow> bool" where
  "isPastAbsoluteLifetime st now s \<longleftrightarrow> absoluteExpiryFor st (familyAuthenticatedAt s) \<le> now"

definition cappedExpiry :: "auth_settings \<Rightarrow> int \<Rightarrow> int \<Rightarrow> int" where
  "cappedExpiry st now t = min (sessionExpiryFromNow st now) (absoluteExpiryFor st t)"

section \<open>The repository\<close>

definition update_where :: "(session \<Rightarrow> bool) \<Rightarrow> (session \<Rightarrow> session) \<Rightarrow> session list \<Rightarrow> session list" where
  "update_where P f ss = map (\<lambda>s. if P s then f s else s) ss"

definition end_with :: "int \<Rightarrow> end_reason \<Rightarrow> session \<Rightarrow> session" where
  "end_with now r s = s\<lparr>se_status := Revoked_session, se_revoked_at := Some now, se_reason := Some r\<rparr>"

definition find_session :: "string \<Rightarrow> session list \<Rightarrow> session option" where
  "find_session sid ss = List.find (\<lambda>s. se_id s = sid) ss"

definition findByRefreshTokenHash :: "string \<Rightarrow> session list \<Rightarrow> session option" where
  "findByRefreshTokenHash h ss = List.find (\<lambda>s. se_hash s = h) ss"

definition repo_revoke :: "int \<Rightarrow> string \<Rightarrow> string \<Rightarrow> session list \<Rightarrow> session list" where
  "repo_revoke now sid reason ss = update_where (\<lambda>s. se_id s = sid \<and> live_status s) (end_with now (Ended reason)) ss"

text \<open>The compare-and-set of a rotation; \<open>None\<close> when another request ended the session first.\<close>

definition markRotated :: "int \<Rightarrow> string \<Rightarrow> string \<Rightarrow> session list \<Rightarrow> session list option" where
  "markRotated now sid successor ss =
     (if list_ex (\<lambda>s. se_id s = sid \<and> live_status s) ss
      then Some (update_where (\<lambda>s. se_id s = sid \<and> live_status s) (\<lambda>s. (end_with now Rotated s)\<lparr>se_replaced := Some successor\<rparr>) ss) else None)"

definition repo_revokeAllForActor :: "int \<Rightarrow> string \<Rightarrow> string \<Rightarrow> session list \<Rightarrow> session list" where
  "repo_revokeAllForActor now a reason ss = update_where (\<lambda>s. se_actor s = a \<and> live_status s) (end_with now (Ended reason)) ss"

definition revokeAllForTenant :: "int \<Rightarrow> string \<Rightarrow> string \<Rightarrow> session list \<Rightarrow> session list" where
  "revokeAllForTenant now t reason ss = update_where (\<lambda>s. se_tenant s = Some t \<and> live_status s) (end_with now (Ended reason)) ss"

definition repo_markExpired :: "string \<Rightarrow> session list \<Rightarrow> session list" where
  "repo_markExpired sid ss = update_where (\<lambda>s. se_id s = sid \<and> live_status s) (\<lambda>s. s\<lparr>se_status := Expired_session\<rparr>) ss"

definition setRestrictionForLogin :: "string \<Rightarrow> bool \<Rightarrow> session list \<Rightarrow> session list" where
  "setRestrictionForLogin sid r ss = (case find_session sid ss of
     None \<Rightarrow> ss
   | Some x \<Rightarrow> update_where (\<lambda>s. (se_id s = sid \<or> se_family s = Some (family x)) \<and> live_status s) (\<lambda>s. s\<lparr>se_restricted := r\<rparr>) ss)"

definition restrictAllForActor :: "string \<Rightarrow> session list \<Rightarrow> session list" where
  "restrictAllForActor a ss = update_where (\<lambda>s. se_actor s = a \<and> live_status s) (\<lambda>s. s\<lparr>se_restricted := True\<rparr>) ss"

definition revokeRestrictedForActor :: "int \<Rightarrow> string \<Rightarrow> string \<Rightarrow> session list \<Rightarrow> session list" where
  "revokeRestrictedForActor now a reason ss = update_where (\<lambda>s. se_actor s = a \<and> live_status s \<and> se_restricted s) (end_with now (Ended reason)) ss"

definition markSteppedUp :: "string \<Rightarrow> int \<Rightarrow> session list \<Rightarrow> session list" where
  "markSteppedUp sid t ss = update_where (\<lambda>s. se_id s = sid \<and> live_status s) (\<lambda>s. s\<lparr>se_stepup := Some t\<rparr>) ss"

section \<open>The lifecycle\<close>

text \<open>\<open>create\<close>: \<open>auth_at\<close> and \<open>fam\<close> default to now and to the session's own id; \<open>ex\<close> is an explicit deadline.\<close>

definition create_session ::
  "auth_settings \<Rightarrow> int \<Rightarrow> string \<Rightarrow> string \<Rightarrow> actor_kind \<Rightarrow> string \<Rightarrow> string option \<Rightarrow> string option \<Rightarrow> int option \<Rightarrow> string option \<Rightarrow> int option \<Rightarrow> bool \<Rightarrow> int option \<Rightarrow> session" where
  "create_session st now sid h kind a tenant imp auth_at fam ex restricted stepup =
     (let signedInAt = (case auth_at of Some t \<Rightarrow> t | None \<Rightarrow> now) in
      \<lparr>se_id = sid, se_family = Some (case fam of Some f \<Rightarrow> f | None \<Rightarrow> sid), se_actor = a, se_kind = kind, se_tenant = tenant, se_impersonated = imp, se_hash = h,
       se_auth_at = Some signedInAt, se_issued = now,
       se_expires = (case ex of Some t \<Rightarrow> min t (cappedExpiry st now signedInAt) | None \<Rightarrow> cappedExpiry st now signedInAt),
       se_status = Active_session, se_revoked_at = None, se_reason = None, se_replaced = None, se_restricted = restricted, se_stepup = stepup\<rparr>)"

text \<open>The session a rotation creates; \<open>tighten\<close> restricts it.\<close>

definition successor_of :: "auth_settings \<Rightarrow> int \<Rightarrow> string \<Rightarrow> string \<Rightarrow> bool \<Rightarrow> session \<Rightarrow> session" where
  "successor_of st now sid h tighten s =
     create_session st now sid h (se_kind s) (se_actor s) (se_tenant s) (se_impersonated s) (Some (familyAuthenticatedAt s)) (Some (family s)) None
       (tighten \<or> se_restricted s) (se_stepup s)"

text \<open>\<open>within\<close> bounds how long ago the rotation may be; \<open>None\<close> is no bound.\<close>

definition liveSuccessorOf :: "int option \<Rightarrow> int \<Rightarrow> session \<Rightarrow> session list \<Rightarrow> session option" where
  "liveSuccessorOf within_ms now s ss =
     (case (se_reason s, se_replaced s) of
        (Some Rotated, Some sid) \<Rightarrow>
          if (case within_ms of None \<Rightarrow> False | Some g \<Rightarrow> g \<le> 0 \<or> (case se_revoked_at s of None \<Rightarrow> True | Some t \<Rightarrow> g < now - t)) then None
          else (case find_session sid ss of
                  None \<Rightarrow> None
                | Some x \<Rightarrow> if live_status x \<and> se_actor x = se_actor s \<and> now < se_expires x then Some x else None)
      | _ \<Rightarrow> None)"

definition LOGOUT_MAX_ROTATION_HOPS :: nat where
  "LOGOUT_MAX_ROTATION_HOPS = 3"

fun descendant :: "nat \<Rightarrow> string \<Rightarrow> session \<Rightarrow> session list \<Rightarrow> session option" where
  "descendant 0 a s ss = None"
| "descendant (Suc n) a s ss =
     (case (se_reason s, se_replaced s) of
        (Some Rotated, Some sid) \<Rightarrow>
          (case find_session sid ss of
             None \<Rightarrow> None
           | Some x \<Rightarrow> if se_actor x \<noteq> a then None else if live_status x then Some x else descendant n a x ss)
      | _ \<Rightarrow> None)"

definition liveDescendantOf :: "session \<Rightarrow> session list \<Rightarrow> session option" where
  "liveDescendantOf s ss = descendant LOGOUT_MAX_ROTATION_HOPS (se_actor s) s ss"

text \<open>The sessions a logout ends: the one of the access token, the one of the cookie, and its live descendant.\<close>

definition logout_targets :: "(string \<Rightarrow> string) \<Rightarrow> string option \<Rightarrow> string option \<Rightarrow> portal option \<Rightarrow> session list \<Rightarrow> string list" where
  "logout_targets hf refreshToken sessionId p ss =
     (case sessionId of None \<Rightarrow> [] | Some sid \<Rightarrow> [sid])
       @ (case refreshToken of None \<Rightarrow> [] | Some tok \<Rightarrow>
            if tok = [] then []
            else (case findByRefreshTokenHash (hf tok) ss of
                    None \<Rightarrow> []
                  | Some s \<Rightarrow> if p = None \<or> p = Some (sessionPortal s)
                      then se_id s # (case liveDescendantOf s ss of None \<Rightarrow> [] | Some x \<Rightarrow> [se_id x]) else []))"

definition logoutByRefreshToken :: "(string \<Rightarrow> string) \<Rightarrow> int \<Rightarrow> string option \<Rightarrow> string option \<Rightarrow> portal option \<Rightarrow> string \<Rightarrow> session list \<Rightarrow> session list" where
  "logoutByRefreshToken hf now refreshToken sessionId p reason ss =
     fold (\<lambda>sid ss. repo_revoke now sid reason ss) (logout_targets hf refreshToken sessionId p ss) ss"

section \<open>Access\<close>

definition sessionIsLive :: "int \<Rightarrow> session option \<Rightarrow> bool" where
  "sessionIsLive now x \<longleftrightarrow> (case x of None \<Rightarrow> False | Some s \<Rightarrow> live_status s \<and> now < se_expires s)"

record jwt_payload =
  jw_sub :: string
  jw_session :: "string option"
  jw_tenant :: "string option"
  jw_support :: "string option"

record live_account =
  la_tenant :: "string option"
  la_mfa :: bool

datatype token_refusal = Session_inactive | Account_inactive | Session_restricted

text \<open>After the signature: \<open>account\<close> is what \<open>assertActorActive\<close> returns, \<open>required\<close> the MFA policy of the workspace.\<close>

definition verifyAccessToken ::
  "portal \<Rightarrow> int \<Rightarrow> (string \<Rightarrow> live_account option) \<Rightarrow> (live_account \<Rightarrow> bool) \<Rightarrow> bool \<Rightarrow> jwt_payload \<Rightarrow> session list \<Rightarrow> (token_refusal, string \<times> session) res" where
  "verifyAccessToken audience now account required allowRestricted payload ss =
     (case (case jw_session payload of None \<Rightarrow> None | Some sid \<Rightarrow> find_session sid ss) of
        None \<Rightarrow> Inl Session_inactive
      | Some s \<Rightarrow>
        if \<not> sessionIsLive now (Some s) then Inl Session_inactive
        else if se_actor s \<noteq> jw_sub payload then Inl Session_inactive
        else (case account (jw_sub payload) of
                None \<Rightarrow> Inl Account_inactive
              | Some ac \<Rightarrow>
                if audience = User_portal \<and> jw_tenant payload \<noteq> None \<and> la_tenant ac \<noteq> None \<and> jw_tenant payload \<noteq> la_tenant ac then Inl Session_inactive
                else if (se_restricted s \<or> audience = User_portal \<and> se_impersonated s = None \<and> \<not> la_mfa ac \<and> required ac) \<and> \<not> allowRestricted
                  then Inl Session_restricted
                else Inr (jw_sub payload, s)))"

section \<open>Refreshing, interleaved\<close>

record auth_account =
  ac_active :: bool
  ac_mfa :: bool

text \<open>What a refresh still has to do. Every constructor but the last two awaits one database call.\<close>

datatype refresh_job =
    Finding string "portal option"
  | Gracing session
  | Replaying session
  | Expiring string
  | Account_reading session "session option"
  | Tenant_reading session "session option" auth_account
  | Killing session
  | Rotating session bool
  | Claiming session session
  | Superseding session string
  | Predecessor_reading session
  | Successor_reading session
  | Refused
  | Granted string

text \<open>The checks on the session to continue with, before the account is read.\<close>

definition current_check :: "auth_settings \<Rightarrow> int \<Rightarrow> session \<Rightarrow> session option \<Rightarrow> refresh_job" where
  "current_check st now s joined =
     (let c = (case joined of Some x \<Rightarrow> x | None \<Rightarrow> s) in
      if se_expires c \<le> now \<or> isPastAbsoluteLifetime st now c then Expiring (se_id c) else Account_reading s joined)"

text \<open>After account and tenant have passed; \<open>tighten\<close> is the MFA policy's answer.\<close>

definition after_gates :: "session \<Rightarrow> session option \<Rightarrow> bool \<Rightarrow> refresh_job" where
  "after_gates s joined tighten = (case joined of
     Some x \<Rightarrow> Granted (se_id x)
   | None \<Rightarrow> if se_impersonated s \<noteq> None then Refused else Rotating s tighten)"

text \<open>\<open>sw_handed\<close> are the sessions whose refresh token a client has received; \<open>sw_logins\<close> the logins with their times.\<close>

record session_world =
  sw_sessions :: "session list"
  sw_handed :: "string list"
  sw_logins :: "(string \<times> int) list"
  sw_used :: "string list"
  sw_jobs :: "refresh_job list"
  sw_now :: int

definition set_jobs :: "refresh_job list \<Rightarrow> session_world \<Rightarrow> session_world" where
  "set_jobs js w = w\<lparr>sw_jobs := js\<rparr>"

text \<open>
  The account, tenant and policy reads may answer anything. A refresh token is a fresh secret: a client presents
  only tokens it was handed, or strings that match no session.
\<close>

inductive session_step :: "(string \<Rightarrow> string) \<Rightarrow> auth_settings \<Rightarrow> session_world \<Rightarrow> session_world \<Rightarrow> bool" for hf st where
  present: "(case findByRefreshTokenHash (hf tok) (sw_sessions w) of None \<Rightarrow> True | Some s \<Rightarrow> se_id s \<in> set (sw_handed w))
    \<Longrightarrow> session_step hf st w (set_jobs (sw_jobs w @ [Finding tok p]) w)"
| find_token: "sw_jobs w = xs @ Finding tok p # ys \<Longrightarrow> tok \<noteq> []
    \<Longrightarrow> (case findByRefreshTokenHash (hf tok) (sw_sessions w) of None \<Rightarrow> True | Some s \<Rightarrow> se_id s \<in> set (sw_handed w))
    \<Longrightarrow> session_step hf st w (set_jobs (xs @ (case findByRefreshTokenHash (hf tok) (sw_sessions w) of
           None \<Rightarrow> Refused
         | Some s \<Rightarrow> if p \<noteq> None \<and> p \<noteq> Some (sessionPortal s) then Refused
             else if live_status s then current_check st (sw_now w) s None else Gracing s) # ys) w)"
| no_token: "sw_jobs w = xs @ Finding [] p # ys \<Longrightarrow> session_step hf st w (set_jobs (xs @ Refused # ys) w)"
| grace: "sw_jobs w = xs @ Gracing s # ys
    \<Longrightarrow> session_step hf st w (set_jobs (xs @ (case liveSuccessorOf (Some (reuseGraceMs st)) (sw_now w) s (sw_sessions w) of
           None \<Rightarrow> Replaying s | Some x \<Rightarrow> current_check st (sw_now w) s (Some x)) # ys) w)"
| replay: "sw_jobs w = xs @ Replaying s # ys
    \<Longrightarrow> session_step hf st w (set_jobs (xs @ Refused # ys) (w\<lparr>sw_sessions := repo_revokeAllForActor (sw_now w) (se_actor s) ''replay_detected'' (sw_sessions w)\<rparr>))"
| expire: "sw_jobs w = xs @ Expiring sid # ys
    \<Longrightarrow> session_step hf st w (set_jobs (xs @ Refused # ys) (w\<lparr>sw_sessions := repo_markExpired sid (sw_sessions w)\<rparr>))"
| read_account: "sw_jobs w = xs @ Account_reading s joined # ys
    \<Longrightarrow> session_step hf st w (set_jobs (xs @ (case account of
           None \<Rightarrow> Killing s
         | Some ac \<Rightarrow> if \<not> ac_active ac then Killing s
             else if sessionPortal s = User_portal \<and> se_tenant s \<noteq> None then Tenant_reading s joined ac else after_gates s joined tighten) # ys) w)"
| read_tenant: "sw_jobs w = xs @ Tenant_reading s joined ac # ys
    \<Longrightarrow> session_step hf st w (set_jobs (xs @ (if tenant_active then after_gates s joined tighten else Killing s) # ys) w)"
| kill: "sw_jobs w = xs @ Killing s # ys
    \<Longrightarrow> session_step hf st w (set_jobs (xs @ Refused # ys) (w\<lparr>sw_sessions := repo_revokeAllForActor (sw_now w) (se_actor s) reason (sw_sessions w)\<rparr>))"
| rotate: "sw_jobs w = xs @ Rotating s tighten # ys \<Longrightarrow> sid \<notin> set (sw_used w) \<Longrightarrow> h \<notin> se_hash ` set (sw_sessions w)
    \<Longrightarrow> x = successor_of st (sw_now w) sid h tighten s
    \<Longrightarrow> session_step hf st w (set_jobs (xs @ Claiming s x # ys) (w\<lparr>sw_sessions := sw_sessions w @ [x], sw_used := sid # sw_used w\<rparr>))"
| claim: "sw_jobs w = xs @ Claiming s x # ys \<Longrightarrow> markRotated (sw_now w) (se_id s) (se_id x) (sw_sessions w) = Some ss
    \<Longrightarrow> session_step hf st w (set_jobs (xs @ Granted (se_id x) # ys) (w\<lparr>sw_sessions := ss, sw_handed := se_id x # sw_handed w\<rparr>))"
| lose_claim: "sw_jobs w = xs @ Claiming s x # ys \<Longrightarrow> markRotated (sw_now w) (se_id s) (se_id x) (sw_sessions w) = None
    \<Longrightarrow> session_step hf st w (set_jobs (xs @ Superseding s (se_id x) # ys) w)"
| supersede: "sw_jobs w = xs @ Superseding s sid # ys
    \<Longrightarrow> session_step hf st w (set_jobs (xs @ Predecessor_reading s # ys) (w\<lparr>sw_sessions := repo_revoke (sw_now w) sid ''rotation_superseded'' (sw_sessions w)\<rparr>))"
| read_predecessor: "sw_jobs w = xs @ Predecessor_reading s # ys
    \<Longrightarrow> session_step hf st w (set_jobs (xs @ (case find_session (se_id s) (sw_sessions w) of None \<Rightarrow> Refused | Some y \<Rightarrow> Successor_reading y) # ys) w)"
| read_successor: "sw_jobs w = xs @ Successor_reading y # ys
    \<Longrightarrow> session_step hf st w (set_jobs (xs @ (case liveSuccessorOf None (sw_now w) y (sw_sessions w) of None \<Rightarrow> Refused | Some x \<Rightarrow> Granted (se_id x)) # ys) w)"
| fail: "sw_jobs w = xs @ j # ys \<Longrightarrow> session_step hf st w (set_jobs (xs @ Refused # ys) w)"
| start_session: "sid \<notin> set (sw_used w) \<Longrightarrow> h \<notin> se_hash ` set (sw_sessions w)
    \<Longrightarrow> x = create_session st (sw_now w) sid h kind a tenant None None None None restricted None
    \<Longrightarrow> session_step hf st w (w\<lparr>sw_sessions := sw_sessions w @ [x], sw_handed := sid # sw_handed w, sw_logins := (sid, sw_now w) # sw_logins w, sw_used := sid # sw_used w\<rparr>)"
| start_support: "sid \<notin> set (sw_used w) \<Longrightarrow> h \<notin> se_hash ` set (sw_sessions w)
    \<Longrightarrow> x = create_session st (sw_now w) sid h User_actor a tenant (Some operator) None None (Some t) False None
    \<Longrightarrow> session_step hf st w (w\<lparr>sw_sessions := sw_sessions w @ [x], sw_logins := (sid, sw_now w) # sw_logins w, sw_used := sid # sw_used w\<rparr>)"
| end_one: "session_step hf st w (w\<lparr>sw_sessions := repo_revoke (sw_now w) sid reason (sw_sessions w)\<rparr>)"
| end_actor: "session_step hf st w (w\<lparr>sw_sessions := repo_revokeAllForActor (sw_now w) a reason (sw_sessions w)\<rparr>)"
| end_tenant: "session_step hf st w (w\<lparr>sw_sessions := revokeAllForTenant (sw_now w) t reason (sw_sessions w)\<rparr>)"
| end_restricted: "session_step hf st w (w\<lparr>sw_sessions := revokeRestrictedForActor (sw_now w) a reason (sw_sessions w)\<rparr>)"
| restrict: "session_step hf st w (w\<lparr>sw_sessions := restrictAllForActor a (sw_sessions w)\<rparr>)"
| set_restriction: "session_step hf st w (w\<lparr>sw_sessions := setRestrictionForLogin sid r (sw_sessions w)\<rparr>)"
| step_up: "session_step hf st w (w\<lparr>sw_sessions := markSteppedUp sid t (sw_sessions w)\<rparr>)"
| purge: "se_expires s \<le> sw_now w \<Longrightarrow> sw_sessions w = us @ s # bs \<Longrightarrow> session_step hf st w (w\<lparr>sw_sessions := us @ bs\<rparr>)"
| clock: "sw_now w \<le> t \<Longrightarrow> session_step hf st w (w\<lparr>sw_now := t\<rparr>)"

inductive session_reach :: "(string \<Rightarrow> string) \<Rightarrow> auth_settings \<Rightarrow> session_world \<Rightarrow> session_world \<Rightarrow> bool" for hf st w0 where
  session_start: "session_reach hf st w0 w0"
| session_next: "session_reach hf st w0 w \<Longrightarrow> session_step hf st w w' \<Longrightarrow> session_reach hf st w0 w'"

section \<open>What no update changes\<close>

definition core :: "session \<Rightarrow> session" where
  "core s = s\<lparr>se_status := Active_session, se_revoked_at := None, se_reason := None, se_replaced := None, se_restricted := False, se_stepup := None\<rparr>"

lemma core_parts:
  assumes "core s = core x"
  shows "se_id s = se_id x" "family s = family x" "se_actor s = se_actor x" "familyAuthenticatedAt s = familyAuthenticatedAt x" "se_expires s = se_expires x"
proof -
  have p: "se_id (core s) = se_id s" "se_family (core s) = se_family s" "se_actor (core s) = se_actor s" "se_auth_at (core s) = se_auth_at s"
    "se_issued (core s) = se_issued s" "se_expires (core s) = se_expires s" for s by (simp_all add: core_def)
  have q: "se_id s = se_id x" "se_family s = se_family x" "se_actor s = se_actor x" "se_auth_at s = se_auth_at x" "se_issued s = se_issued x" "se_expires s = se_expires x"
    using p[of s] p[of x] assms by simp_all
  then show "se_id s = se_id x" "family s = family x" "se_actor s = se_actor x" "familyAuthenticatedAt s = familyAuthenticatedAt x" "se_expires s = se_expires x"
    unfolding family_def familyAuthenticatedAt_def q by simp_all
qed

text \<open>Nothing comes alive and no successor is recorded.\<close>

definition weaker :: "session list \<Rightarrow> session list \<Rightarrow> bool" where
  "weaker ss ss' \<longleftrightarrow> (distinct (map se_id ss) \<longrightarrow> distinct (map se_id ss'))
     \<and> (\<forall>s'\<in>set ss'. \<exists>s\<in>set ss. core s' = core s \<and> (live_status s' \<longrightarrow> live_status s) \<and> se_replaced s' = se_replaced s)"

definition tame :: "(session \<Rightarrow> session) \<Rightarrow> bool" where
  "tame f \<longleftrightarrow> (\<forall>s. core (f s) = core s \<and> (live_status (f s) \<longrightarrow> live_status s) \<and> se_replaced (f s) = se_replaced s)"

lemma weaker_where: "tame f \<Longrightarrow> weaker ss (update_where P f ss)"
proof -
  assume f: "tame f"
  have "se_id (f s) = se_id s" for s using f core_parts(1) unfolding tame_def by blast
  then have "map se_id (update_where P f ss) = map se_id ss" by (simp add: update_where_def)
  moreover have "\<exists>s\<in>set ss. core s' = core s \<and> (live_status s' \<longrightarrow> live_status s) \<and> se_replaced s' = se_replaced s" if "s' \<in> set (update_where P f ss)" for s'
  proof -
    have "s' \<in> (\<lambda>s. if P s then f s else s) ` set ss" using that by (simp only: update_where_def set_map)
    then obtain s where "s \<in> set ss" "s' = (if P s then f s else s)" by (rule imageE)
    then show ?thesis using f unfolding tame_def by (cases "P s") auto
  qed
  ultimately show ?thesis by (simp add: weaker_def)
qed

lemma tame_ends: "tame (end_with now r)" "tame (\<lambda>s. s\<lparr>se_status := Expired_session\<rparr>)" "tame (\<lambda>s. s\<lparr>se_restricted := b\<rparr>)" "tame (\<lambda>s. s\<lparr>se_stepup := x\<rparr>)"
  by (simp_all add: tame_def core_def end_with_def live_status_def)

lemma weaker_refl: "weaker ss ss"
  by (auto simp: weaker_def)

lemma weaker_ops:
  "weaker ss (repo_revoke now sid r ss)" "weaker ss (repo_revokeAllForActor now a r ss)" "weaker ss (revokeAllForTenant now t r ss)" "weaker ss (repo_markExpired sid ss)"
  "weaker ss (restrictAllForActor a ss)" "weaker ss (revokeRestrictedForActor now a r ss)" "weaker ss (markSteppedUp sid x ss)" "weaker ss (setRestrictionForLogin sid b ss)"
  by (simp_all add: repo_revoke_def repo_revokeAllForActor_def revokeAllForTenant_def repo_markExpired_def restrictAllForActor_def revokeRestrictedForActor_def
    markSteppedUp_def setRestrictionForLogin_def weaker_where tame_ends weaker_refl split: option.split)

lemma weaker_purge: "weaker (us @ s # bs) (us @ bs)"
  by (auto simp: weaker_def)

section \<open>The invariant\<close>

text \<open>A session a job has read: the store still has it with the same core, or no longer has it.\<close>

definition snapshot :: "session_world \<Rightarrow> session \<Rightarrow> bool" where
  "snapshot w s \<longleftrightarrow> se_id s \<in> set (sw_used w) \<and> (\<forall>y\<in>set (sw_sessions w). se_id y = se_id s \<longrightarrow> core y = core s)
     \<and> (\<forall>r. se_replaced s = Some r \<longrightarrow> r \<in> set (sw_handed w)) \<and> family s \<in> set (sw_used w)"

definition timely :: "auth_settings \<Rightarrow> session_world \<Rightarrow> session \<Rightarrow> bool" where
  "timely st w s \<longleftrightarrow> (family s, familyAuthenticatedAt s) \<in> set (sw_logins w) \<and> se_expires s \<le> familyAuthenticatedAt s + absoluteTtl st"

definition origin :: "auth_settings \<Rightarrow> session_world \<Rightarrow> session \<Rightarrow> bool" where
  "origin st w s \<longleftrightarrow> snapshot w s \<and> se_id s \<in> set (sw_handed w) \<and> timely st w s"

fun refresh_fine :: "auth_settings \<Rightarrow> session_world \<Rightarrow> refresh_job \<Rightarrow> bool" where
  "refresh_fine st w (Finding tok p) = True"
| "refresh_fine st w (Gracing s) = origin st w s"
| "refresh_fine st w (Replaying s) = origin st w s"
| "refresh_fine st w (Expiring sid) = True"
| "refresh_fine st w (Account_reading s joined) = (origin st w s \<and> (case joined of None \<Rightarrow> True | Some x \<Rightarrow> se_id x \<in> set (sw_handed w)))"
| "refresh_fine st w (Tenant_reading s joined ac) = (origin st w s \<and> (case joined of None \<Rightarrow> True | Some x \<Rightarrow> se_id x \<in> set (sw_handed w)))"
| "refresh_fine st w (Killing s) = origin st w s"
| "refresh_fine st w (Rotating s b) = origin st w s"
| "refresh_fine st w (Claiming s x) = (origin st w s \<and> snapshot w x \<and> family x = family s \<and> se_actor x = se_actor s \<and> se_id x \<notin> set (sw_handed w))"
| "refresh_fine st w (Superseding s sid) = origin st w s"
| "refresh_fine st w (Predecessor_reading s) = origin st w s"
| "refresh_fine st w (Successor_reading y) = snapshot w y"
| "refresh_fine st w Refused = True"
| "refresh_fine st w (Granted sid) = (sid \<in> set (sw_handed w))"

fun claimed :: "refresh_job \<Rightarrow> string list" where
  "claimed (Claiming s x) = [se_id x]"
| "claimed j = []"

definition handed_live :: "session_world \<Rightarrow> session \<Rightarrow> bool" where
  "handed_live w s \<longleftrightarrow> s \<in> set (sw_sessions w) \<and> live_status s \<and> se_id s \<in> set (sw_handed w)"

definition session_inv :: "auth_settings \<Rightarrow> session_world \<Rightarrow> bool" where
  "session_inv st w \<longleftrightarrow> distinct (map se_id (sw_sessions w)) \<and> set (sw_handed w) \<subseteq> set (sw_used w)
     \<and> (\<forall>s\<in>set (sw_sessions w). snapshot w s \<and> timely st w s)
     \<and> (\<forall>s x. handed_live w s \<longrightarrow> handed_live w x \<longrightarrow> family s = family x \<longrightarrow> se_id s = se_id x)
     \<and> (\<forall>j\<in>set (sw_jobs w). refresh_fine st w j) \<and> distinct (concat (map claimed (sw_jobs w)))"

lemma session_invI:
  assumes "distinct (map se_id (sw_sessions w))" and "set (sw_handed w) \<subseteq> set (sw_used w)" and "\<And>s. s \<in> set (sw_sessions w) \<Longrightarrow> snapshot w s \<and> timely st w s"
    and "\<And>s x. handed_live w s \<Longrightarrow> handed_live w x \<Longrightarrow> family s = family x \<Longrightarrow> se_id s = se_id x"
    and "\<And>j. j \<in> set (sw_jobs w) \<Longrightarrow> refresh_fine st w j" and "distinct (concat (map claimed (sw_jobs w)))"
  shows "session_inv st w"
  unfolding session_inv_def
proof (intro conjI ballI allI impI)
qed (use assms in blast)+

text \<open>How worlds may grow under the snapshots of a job.\<close>

definition grows :: "session_world \<Rightarrow> session_world \<Rightarrow> bool" where
  "grows w w' \<longleftrightarrow> set (sw_used w) \<subseteq> set (sw_used w') \<and> set (sw_handed w) \<subseteq> set (sw_handed w') \<and> set (sw_logins w) \<subseteq> set (sw_logins w')
     \<and> (\<forall>y\<in>set (sw_sessions w'). (\<exists>s\<in>set (sw_sessions w). core y = core s) \<or> se_id y \<notin> set (sw_used w))"

lemma grows_snapshot: "grows w w' \<Longrightarrow> snapshot w s \<Longrightarrow> snapshot w' s"
proof -
  assume g: "grows w w'" and s: "snapshot w s"
  have "core y = core s" if "y \<in> set (sw_sessions w')" "se_id y = se_id s" for y
  proof -
    have "se_id y \<in> set (sw_used w)" using s that(2) by (simp add: snapshot_def)
    moreover have "(\<exists>s\<in>set (sw_sessions w). core y = core s) \<or> se_id y \<notin> set (sw_used w)" using g that(1) by (simp add: grows_def)
    ultimately obtain x where "x \<in> set (sw_sessions w)" "core y = core x" by blast
    then show ?thesis using s core_parts(1)[of y x] that(2) by (simp add: snapshot_def)
  qed
  moreover have "set (sw_used w) \<subseteq> set (sw_used w')" "set (sw_handed w) \<subseteq> set (sw_handed w')" using g by (simp_all add: grows_def)
  ultimately show ?thesis using s unfolding snapshot_def by (meson subsetD)
qed

lemma grows_timely: "grows w w' \<Longrightarrow> timely st w s \<Longrightarrow> timely st w' s"
  by (auto simp: grows_def timely_def)

lemma grows_origin: "grows w w' \<Longrightarrow> origin st w s \<Longrightarrow> origin st w' s"
  using grows_snapshot grows_timely by (auto simp: origin_def grows_def)

lemma grows_fine: "grows w w' \<Longrightarrow> (\<forall>sid\<in>set (claimed j). sid \<notin> set (sw_handed w')) \<Longrightarrow> refresh_fine st w j \<Longrightarrow> refresh_fine st w' j"
  using grows_origin[of w w'] grows_snapshot[of w w'] by (cases j) (auto simp: grows_def split: option.splits)

lemma set_jobs_simps [simp]:
  "sw_sessions (set_jobs js w) = sw_sessions w" "sw_handed (set_jobs js w) = sw_handed w" "sw_logins (set_jobs js w) = sw_logins w" "sw_used (set_jobs js w) = sw_used w"
  "sw_jobs (set_jobs js w) = js" "sw_now (set_jobs js w) = sw_now w" "snapshot (set_jobs js w) s = snapshot w s" "timely st (set_jobs js w) s = timely st w s"
  "origin st (set_jobs js w) s = origin st w s" "handed_live (set_jobs js w) s = handed_live w s"
  by (simp_all add: set_jobs_def snapshot_def timely_def origin_def handed_live_def)

lemma fine_set_jobs [simp]: "refresh_fine st (set_jobs js w) j = refresh_fine st w j"
  by (cases j) (simp_all split: option.split)

lemma set_jobs_twice: "set_jobs a (set_jobs b w) = set_jobs a w"
  by (simp add: set_jobs_def)

lemma inv_jobs:
  assumes "session_inv st w" "\<forall>j\<in>set js. j \<in> set (sw_jobs w) \<or> refresh_fine st w j" "distinct (concat (map claimed js))"
  shows "session_inv st (set_jobs js w)"
proof -
  have "\<forall>j\<in>set js. refresh_fine st w j" using assms(1,2) unfolding session_inv_def by blast
  then show ?thesis using assms(1,3) unfolding session_inv_def set_jobs_simps fine_set_jobs by blast
qed

lemma inv_next:
  assumes inv: "session_inv st w" and js: "sw_jobs w = xs @ j # ys" and ok: "refresh_fine st w j'" and c: "claimed j' = []"
  shows "session_inv st (set_jobs (xs @ j' # ys) w)"
  using inv js ok c by (intro inv_jobs[OF inv]) (auto simp: session_inv_def)

lemma inv_weaker:
  assumes inv: "session_inv st w" and k: "weaker (sw_sessions w) ss"
  shows "session_inv st (w\<lparr>sw_sessions := ss\<rparr>)"
proof -
  let ?w = "w\<lparr>sw_sessions := ss\<rparr>"
  have g: "grows w ?w" using k by (auto simp: grows_def weaker_def)
  have earlier: "\<exists>x\<in>set (sw_sessions w). core s = core x \<and> (live_status s \<longrightarrow> live_status x) \<and> se_replaced s = se_replaced x" if "s \<in> set ss" for s
    using k that by (auto simp: weaker_def)
  have one: "snapshot ?w s \<and> timely st ?w s" if s: "s \<in> set ss" for s
  proof -
    obtain x where x: "x \<in> set (sw_sessions w)" "core s = core x" "se_replaced s = se_replaced x" using earlier[OF s] by blast
    have "snapshot w x" "timely st w x" using inv x(1) by (auto simp: session_inv_def)
    then have "snapshot ?w x" "timely st ?w x" using grows_snapshot[OF g] grows_timely[OF g] by blast+
    then show ?thesis using x(2,3) core_parts[OF x(2)] by (simp add: snapshot_def timely_def)
  qed
  have unique: "se_id s = se_id x" if h: "handed_live ?w s" "handed_live ?w x" "family s = family x" for s x
  proof -
    obtain s' x' where o: "s' \<in> set (sw_sessions w)" "core s = core s'" "live_status s'" "x' \<in> set (sw_sessions w)" "core x = core x'" "live_status x'"
      using earlier[of s] earlier[of x] h(1,2) by (auto simp: handed_live_def)
    then have "handed_live w s'" "handed_live w x'" "family s' = family x'"
      using h core_parts[OF o(2)] core_parts[OF o(5)] by (simp_all add: handed_live_def)
    then have "se_id s' = se_id x'" using inv unfolding session_inv_def by blast
    then show ?thesis using core_parts(1)[OF o(2)] core_parts(1)[OF o(5)] by simp
  qed
  have jobs: "refresh_fine st ?w j" if j: "j \<in> set (sw_jobs w)" for j
  proof -
    have "refresh_fine st w j" using inv j by (simp add: session_inv_def)
    moreover have "\<forall>sid\<in>set (claimed j). sid \<notin> set (sw_handed ?w)" using \<open>refresh_fine st w j\<close> by (cases j) simp_all
    ultimately show "refresh_fine st ?w j" by (intro grows_fine[OF g])
  qed
  show ?thesis
  proof (rule session_invI)
    show "distinct (map se_id (sw_sessions ?w))" using inv k by (simp add: session_inv_def weaker_def)
    show "set (sw_handed ?w) \<subseteq> set (sw_used ?w)" "distinct (concat (map claimed (sw_jobs ?w)))" using inv by (simp_all add: session_inv_def)
    show "s \<in> set (sw_sessions ?w) \<Longrightarrow> snapshot ?w s \<and> timely st ?w s" for s using one by simp
    show "handed_live ?w s \<Longrightarrow> handed_live ?w x \<Longrightarrow> family s = family x \<Longrightarrow> se_id s = se_id x" for s x by (rule unique)
    show "j \<in> set (sw_jobs ?w) \<Longrightarrow> refresh_fine st ?w j" for j using jobs by simp
  qed
qed

lemma claimed_used: "session_inv st w \<Longrightarrow> j \<in> set (sw_jobs w) \<Longrightarrow> sid \<in> set (claimed j) \<Longrightarrow> sid \<in> set (sw_used w) \<and> sid \<notin> set (sw_handed w)"
proof -
  assume "session_inv st w" "j \<in> set (sw_jobs w)" and c: "sid \<in> set (claimed j)"
  then have "refresh_fine st w j" unfolding session_inv_def by blast
  then show ?thesis using c by (cases j) (simp_all add: snapshot_def)
qed

lemma inv_new:
  assumes inv: "session_inv st w" and n: "se_id x \<notin> set (sw_used w)"
    and h: "hs = sw_handed w \<or> hs = se_id x # sw_handed w \<and> family x = se_id x" and l: "set (sw_logins w) \<subseteq> set ls"
    and f: "family x = se_id x \<or> family x \<in> set (sw_used w)" and r: "se_replaced x = None"
    and ti: "(family x, familyAuthenticatedAt x) \<in> set ls" "se_expires x \<le> familyAuthenticatedAt x + absoluteTtl st"
  shows "session_inv st (w\<lparr>sw_sessions := sw_sessions w @ [x], sw_handed := hs, sw_logins := ls, sw_used := se_id x # sw_used w\<rparr>)" (is "session_inv st ?w")
proof (rule session_invI)
  have hs: "set (sw_handed w) \<subseteq> set hs" "set hs \<subseteq> insert (se_id x) (set (sw_handed w))" using h by auto
  have g: "grows w ?w" using n l hs(1) by (auto simp: grows_def)
  have old: "snapshot w s" "timely st w s" if "s \<in> set (sw_sessions w)" for s using inv that by (auto simp: session_inv_def)
  have ids: "se_id s \<in> set (sw_used w)" "family s \<in> set (sw_used w)" if "s \<in> set (sw_sessions w)" for s using old(1)[OF that] by (simp_all add: snapshot_def)
  have hu: "set (sw_handed w) \<subseteq> set (sw_used w)" using inv by (simp add: session_inv_def)
  show "distinct (map se_id (sw_sessions ?w))" using inv n ids(1) by (auto simp: session_inv_def)
  show "set (sw_handed ?w) \<subseteq> set (sw_used ?w)" using hs(2) hu by auto
  show "distinct (concat (map claimed (sw_jobs ?w)))" using inv by (simp add: session_inv_def)
  fix s
  show "s \<in> set (sw_sessions ?w) \<Longrightarrow> snapshot ?w s \<and> timely st ?w s"
  proof (cases "s = x")
    case True
    have c: "\<forall>y\<in>set (sw_sessions ?w). se_id y = se_id x \<longrightarrow> core y = core x"
    proof (intro ballI impI)
      fix y
      assume y: "y \<in> set (sw_sessions ?w)" "se_id y = se_id x"
      have "y \<notin> set (sw_sessions w)" using ids(1)[of y] y(2) n by auto
      then show "core y = core x" using y(1) by simp
    qed
    have "snapshot ?w x" unfolding snapshot_def using c r f by simp
    moreover have "timely st ?w x" unfolding timely_def using ti by simp
    ultimately show ?thesis unfolding True by blast
  next
    case False
    moreover assume "s \<in> set (sw_sessions ?w)"
    ultimately have "s \<in> set (sw_sessions w)" by simp
    then show ?thesis using grows_snapshot[OF g old(1)] grows_timely[OF g old(2)] by blast
  qed
next
  have hu: "set (sw_handed w) \<subseteq> set (sw_used w)" using inv by (simp add: session_inv_def)
  have old: "snapshot w s" if "s \<in> set (sw_sessions w)" for s using inv that by (auto simp: session_inv_def)
  have ids: "se_id s \<in> set (sw_used w)" "family s \<in> set (sw_used w)" if "s \<in> set (sw_sessions w)" for s using old[OF that] by (simp_all add: snapshot_def)
  have part: "handed_live w s \<or> s = x \<and> family x = se_id x" if "handed_live ?w s" for s
  proof (cases "s = x")
    case True
    then show ?thesis using that h n hu by (auto simp: handed_live_def)
  next
    case False
    then have "s \<in> set (sw_sessions w)" using that by (simp add: handed_live_def)
    then show ?thesis using that h ids(1)[of s] n by (auto simp: handed_live_def)
  qed
  fix s y
  assume a: "handed_live ?w s" "handed_live ?w y" "family s = family y"
  have fu: "handed_live w u \<Longrightarrow> family u \<in> set (sw_used w)" for u using ids(2) by (simp add: handed_live_def)
  show "se_id s = se_id y"
  proof (cases "handed_live w s"; cases "handed_live w y")
    assume "handed_live w s" "handed_live w y"
    then show ?thesis using inv a(3) unfolding session_inv_def by blast
  next
    assume h1: "handed_live w s" "\<not> handed_live w y"
    have "family y = se_id x" using part[OF a(2)] h1(2) by blast
    then show ?thesis using fu[OF h1(1)] a(3) n by simp
  next
    assume h1: "\<not> handed_live w s" "handed_live w y"
    have "family s = se_id x" using part[OF a(1)] h1(1) by blast
    then show ?thesis using fu[OF h1(2)] a(3) n by simp
  next
    assume "\<not> handed_live w s" "\<not> handed_live w y"
    then show ?thesis using part[OF a(1)] part[OF a(2)] by blast
  qed
next
  fix j
  assume j: "j \<in> set (sw_jobs ?w)"
  have g: "grows w ?w" using n l h by (auto simp: grows_def)
  have "refresh_fine st w j" using inv j by (simp add: session_inv_def)
  moreover have "\<forall>sid\<in>set (claimed j). sid \<notin> set (sw_handed ?w)" using claimed_used[OF inv, of j] j n h by auto
  ultimately show "refresh_fine st ?w j" by (intro grows_fine[OF g])
qed

lemma capped: "cappedExpiry st now t \<le> t + absoluteTtl st"
  by (simp add: cappedExpiry_def absoluteExpiryFor_def)

lemma created_parts [simp]:
  "se_id (create_session st now sid h kind a tenant imp au fam ex b u) = sid" "se_actor (create_session st now sid h kind a tenant imp au fam ex b u) = a"
  "family (create_session st now sid h kind a tenant imp au fam ex b u) = (case fam of Some f \<Rightarrow> f | None \<Rightarrow> sid)"
  "familyAuthenticatedAt (create_session st now sid h kind a tenant imp au fam ex b u) = (case au of Some t \<Rightarrow> t | None \<Rightarrow> now)"
  "se_replaced (create_session st now sid h kind a tenant imp au fam ex b u) = None" "live_status (create_session st now sid h kind a tenant imp au fam ex b u)"
  by (simp_all add: create_session_def family_def familyAuthenticatedAt_def live_status_def Let_def)

lemma created_expires: "se_expires (create_session st now sid h kind a tenant imp au fam ex b u) \<le> (case au of Some t \<Rightarrow> t | None \<Rightarrow> now) + absoluteTtl st"
  using capped[of st now] by (auto simp: create_session_def Let_def min_def split: option.split intro: order_trans)

lemma inv_rotate:
  assumes inv: "session_inv st w" and js: "sw_jobs w = xs @ Rotating s b # ys" and n: "sid \<notin> set (sw_used w)" and x: "x = successor_of st (sw_now w) sid h b s"
  shows "session_inv st (set_jobs (xs @ Claiming s x # ys) (w\<lparr>sw_sessions := sw_sessions w @ [x], sw_used := sid # sw_used w\<rparr>))"
proof -
  let ?w = "w\<lparr>sw_sessions := sw_sessions w @ [x], sw_used := sid # sw_used w\<rparr>"
  have o: "origin st w s" using inv js by (auto simp: session_inv_def)
  have xp: "se_id x = sid" "family x = family s" "familyAuthenticatedAt x = familyAuthenticatedAt s" "se_actor x = se_actor s" "se_replaced x = None"
    "se_expires x \<le> familyAuthenticatedAt s + absoluteTtl st"
    unfolding x successor_of_def using created_expires[of st "sw_now w" sid h "se_kind s" "se_actor s" "se_tenant s" "se_impersonated s" "Some (familyAuthenticatedAt s)"] by simp_all
  have fs: "family s \<in> set (sw_used w)" "(family s, familyAuthenticatedAt s) \<in> set (sw_logins w)" using o by (simp_all add: origin_def snapshot_def timely_def)
  have "?w = w\<lparr>sw_sessions := sw_sessions w @ [x], sw_handed := sw_handed w, sw_logins := sw_logins w, sw_used := se_id x # sw_used w\<rparr>" by (simp add: xp(1))
  then have inv': "session_inv st ?w" using inv_new[OF inv, of x "sw_handed w" "sw_logins w"] n xp fs by simp
  have hu: "set (sw_handed w) \<subseteq> set (sw_used w)" using inv by (simp add: session_inv_def)
  have g: "grows w ?w" using n xp(1) by (auto simp: grows_def)
  have c: "sid \<notin> set (claimed j)" if "j \<in> set (sw_jobs w)" for j using claimed_used[OF inv that] n by blast
  have "snapshot ?w x" using inv' by (simp add: session_inv_def)
  then have "refresh_fine st ?w (Claiming s x)" using grows_origin[OF g o] xp hu n by auto
  then show ?thesis
    using inv' js c by (intro inv_jobs[OF inv']) (auto simp: session_inv_def xp(1))
qed

lemma inv_claim:
  assumes inv: "session_inv st w" and js: "sw_jobs w = xs @ Claiming s x # ys" and m: "markRotated (sw_now w) (se_id s) (se_id x) (sw_sessions w) = Some ss"
  shows "session_inv st (set_jobs (xs @ Granted (se_id x) # ys) (w\<lparr>sw_sessions := ss, sw_handed := se_id x # sw_handed w\<rparr>))"
    and "\<exists>p. handed_live w p \<and> se_id p = se_id s \<and> family p = family x \<and> se_actor p = se_actor x"
    and "handed_live (w\<lparr>sw_sessions := ss, sw_handed := se_id x # sw_handed w\<rparr>) y \<Longrightarrow>
      \<exists>p. p \<in> set (sw_sessions w) \<and> core y = core p \<and> live_status p \<and> se_id y \<noteq> se_id s \<and> (se_id y = se_id x \<or> handed_live w p)"
proof -
  let ?w = "w\<lparr>sw_sessions := ss, sw_handed := se_id x # sw_handed w\<rparr>"
  let ?f = "\<lambda>u. (end_with (sw_now w) Rotated u)\<lparr>se_replaced := Some (se_id x)\<rparr>"
  have c: "origin st w s" "snapshot w x" "family x = family s" "se_actor x = se_actor s" "se_id x \<notin> set (sw_handed w)" using inv js by (auto simp: session_inv_def)
  have ss: "ss = update_where (\<lambda>u. se_id u = se_id s \<and> live_status u) ?f (sw_sessions w)" "list_ex (\<lambda>u. se_id u = se_id s \<and> live_status u) (sw_sessions w)"
    using m by (auto simp: markRotated_def split: if_splits)
  have fp: "core (?f u) = core u" "\<not> live_status (?f u)" "se_id (?f u) = se_id u" "se_replaced (?f u) = Some (se_id x)" for u
    by (simp_all add: core_def end_with_def live_status_def)
  obtain p where p: "p \<in> set (sw_sessions w)" "se_id p = se_id s" "live_status p" using ss(2) by (auto simp: list_ex_iff)
  have "core p = core s" using c(1) p by (simp add: origin_def snapshot_def)
  then have pl: "handed_live w p" "family p = family x" "se_actor p = se_actor x"
    using p c core_parts[of p s] by (auto simp: handed_live_def origin_def)
  then show "\<exists>p. handed_live w p \<and> se_id p = se_id s \<and> family p = family x \<and> se_actor p = se_actor x" using p(2) by blast
  have img: "\<exists>u\<in>set (sw_sessions w). core y = core u \<and> (live_status y \<longrightarrow> live_status u \<and> se_id y \<noteq> se_id s) \<and> (se_replaced y = se_replaced u \<or> se_replaced y = Some (se_id x))"
    if y: "y \<in> set ss" for y
  proof -
    have "y \<in> (\<lambda>u. if se_id u = se_id s \<and> live_status u then ?f u else u) ` set (sw_sessions w)" using y ss(1) by (simp only: update_where_def set_map)
    then obtain u where u: "u \<in> set (sw_sessions w)" "y = (if se_id u = se_id s \<and> live_status u then ?f u else u)" by (rule imageE)
    show ?thesis
    proof (cases "se_id u = se_id s \<and> live_status u")
      case True
      then show ?thesis using u fp[of u] by (intro bexI[of _ u]) simp_all
    next
      case False
      then have e: "y = u" using u(2) unfolding if_not_P[OF False] by blast
      then show ?thesis unfolding e using u(1) False by (intro bexI[of _ u]) auto
    qed
  qed
  have hl: "\<exists>p. p \<in> set (sw_sessions w) \<and> core y = core p \<and> live_status p \<and> se_id y \<noteq> se_id s \<and> (se_id y = se_id x \<or> handed_live w p)" if y: "handed_live ?w y" for y
  proof -
    obtain u where u: "u \<in> set (sw_sessions w)" "core y = core u" "live_status u" "se_id y \<noteq> se_id s" using img[of y] y by (auto simp: handed_live_def)
    then show ?thesis using y core_parts(1)[OF u(2)] by (auto simp: handed_live_def)
  qed
  then show "handed_live ?w y \<Longrightarrow> \<exists>p. p \<in> set (sw_sessions w) \<and> core y = core p \<and> live_status p \<and> se_id y \<noteq> se_id s \<and> (se_id y = se_id x \<or> handed_live w p)" .
  have g: "grows w ?w" using img by (auto simp: grows_def)
  have old: "snapshot w u" "timely st w u" if "u \<in> set (sw_sessions w)" for u using inv that by (auto simp: session_inv_def)
  have ids: "se_id u = se_id z" if "handed_live w u" "handed_live w z" "family u = family z" for u z using inv that unfolding session_inv_def by blast
  have dd: "distinct (map se_id (sw_sessions w))" using inv by (simp add: session_inv_def)
  have hu: "set (sw_handed w) \<subseteq> set (sw_used w)" using inv by (simp add: session_inv_def)
  have "map se_id ss = map se_id (sw_sessions w)" using ss(1) fp(3) by (simp add: update_where_def)
  have inv': "session_inv st (set_jobs (xs @ Refused # ys) ?w)"
  proof (rule session_invI)
    show "distinct (map se_id (sw_sessions (set_jobs (xs @ Refused # ys) ?w)))" using dd \<open>map se_id ss = map se_id (sw_sessions w)\<close> by simp
    show "set (sw_handed (set_jobs (xs @ Refused # ys) ?w)) \<subseteq> set (sw_used (set_jobs (xs @ Refused # ys) ?w))" using hu c(2) by (simp add: snapshot_def)
    show "distinct (concat (map claimed (sw_jobs (set_jobs (xs @ Refused # ys) ?w))))" using inv js by (simp add: session_inv_def)
    show "y \<in> set (sw_sessions (set_jobs (xs @ Refused # ys) ?w)) \<Longrightarrow> snapshot (set_jobs (xs @ Refused # ys) ?w) y \<and> timely st (set_jobs (xs @ Refused # ys) ?w) y" for y
    proof -
      assume "y \<in> set (sw_sessions (set_jobs (xs @ Refused # ys) ?w))"
      then obtain u where u: "u \<in> set (sw_sessions w)" "core y = core u" "se_replaced y = se_replaced u \<or> se_replaced y = Some (se_id x)" using img by fastforce
      have "snapshot ?w u" "timely st ?w u" using grows_snapshot[OF g old(1)[OF u(1)]] grows_timely[OF g old(2)[OF u(1)]] by blast+
      then show ?thesis using u(2,3) core_parts[OF u(2)] by (auto simp: snapshot_def timely_def)
    qed
    show "se_id y = se_id z" if hy: "handed_live (set_jobs (xs @ Refused # ys) ?w) y" and hz: "handed_live (set_jobs (xs @ Refused # ys) ?w) z" and fyz: "family y = family z" for y z
    proof -
      obtain u v where u: "core y = core u" "se_id y \<noteq> se_id s" "se_id y = se_id x \<or> handed_live w u" "u \<in> set (sw_sessions w)"
        and v: "core z = core v" "se_id z \<noteq> se_id s" "se_id z = se_id x \<or> handed_live w v" "v \<in> set (sw_sessions w)" using hl[of y] hl[of z] hy hz by auto
      have xf: "family q = family p" if "se_id q = se_id x" "q \<in> set (sw_sessions w)" for q
        using c(2) that pl(2) core_parts(2)[of q x] by (simp add: snapshot_def)
      have fam: "family u = family v" "se_id u = se_id y" "se_id v = se_id z" using fyz core_parts[OF u(1)] core_parts[OF v(1)] by simp_all
      show ?thesis
      proof (cases "se_id y = se_id x"; cases "se_id z = se_id x")
        assume "se_id y = se_id x" "se_id z \<noteq> se_id x"
        then have "handed_live w v" "family v = family p" using v(3) xf[of u] u(4) fam by auto
        then have "se_id v = se_id s" using ids[OF _ pl(1)] p(2) by simp
        then show ?thesis using v(2) fam(3) by simp
      next
        assume "se_id y \<noteq> se_id x" "se_id z = se_id x"
        then have "handed_live w u" "family u = family p" using u(3) xf[of v] v(4) fam by auto
        then have "se_id u = se_id s" using ids[OF _ pl(1)] p(2) by simp
        then show ?thesis using u(2) fam(2) by simp
      next
        assume "se_id y \<noteq> se_id x" "se_id z \<noteq> se_id x"
        then show ?thesis using ids[of u v] u(3) v(3) fam by simp
      qed simp
    qed
    show "j \<in> set (sw_jobs (set_jobs (xs @ Refused # ys) ?w)) \<Longrightarrow> refresh_fine st (set_jobs (xs @ Refused # ys) ?w) j" for j
    proof -
      assume j: "j \<in> set (sw_jobs (set_jobs (xs @ Refused # ys) ?w))"
      show ?thesis
      proof (cases "j = Refused")
        case False
        then have jo: "j \<in> set xs \<union> set ys" "j \<in> set (sw_jobs w)" using j js by auto
        have "se_id x \<notin> set (claimed j)" using inv jo(1) unfolding session_inv_def js by auto
        then have "\<forall>sid\<in>set (claimed j). sid \<notin> set (sw_handed ?w)" using claimed_used[OF inv jo(2)] by auto
        moreover have "refresh_fine st w j" using inv jo(2) by (simp add: session_inv_def)
        ultimately have "refresh_fine st ?w j" by (intro grows_fine[OF g])
        then show ?thesis by simp
      qed simp
    qed
  qed
  have "session_inv st (set_jobs (xs @ Granted (se_id x) # ys) (set_jobs (xs @ Refused # ys) ?w))"
    by (rule inv_next[OF inv' set_jobs_simps(5)]) simp_all
  then show "session_inv st (set_jobs (xs @ Granted (se_id x) # ys) ?w)" unfolding set_jobs_twice .
qed

lemma origin_found:
  assumes inv: "session_inv st w" and f: "findByRefreshTokenHash h (sw_sessions w) = Some s" and h: "se_id s \<in> set (sw_handed w)"
  shows "origin st w s"
proof -
  have "s \<in> set (sw_sessions w)" using f by (auto simp: findByRefreshTokenHash_def find_Some_iff)
  then show ?thesis using inv h by (simp add: origin_def session_inv_def)
qed

lemma successor_handed: "liveSuccessorOf g now s ss = Some x \<Longrightarrow> se_replaced s = Some (se_id x)"
proof -
  assume a: "liveSuccessorOf g now s ss = Some x"
  then obtain sid where r: "se_replaced s = Some sid" "find_session sid ss = Some x"
    by (auto simp: liveSuccessorOf_def split: option.splits end_reason.splits if_splits)
  then show ?thesis by (auto simp: find_session_def find_Some_iff)
qed

lemma check_fine: "origin st w s \<Longrightarrow> (case joined of None \<Rightarrow> True | Some x \<Rightarrow> se_id x \<in> set (sw_handed w))
    \<Longrightarrow> refresh_fine st w (current_check st now s joined) \<and> claimed (current_check st now s joined) = []"
  by (simp add: current_check_def Let_def split: option.split)

lemma gates_fine: "origin st w s \<Longrightarrow> (case joined of None \<Rightarrow> True | Some x \<Rightarrow> se_id x \<in> set (sw_handed w))
    \<Longrightarrow> refresh_fine st w (after_gates s joined b) \<and> claimed (after_gates s joined b) = []"
  by (cases joined) (simp_all add: after_gates_def)

lemma inv_update:
  assumes inv: "session_inv st w" and js: "sw_jobs w = xs @ j # ys" and k: "weaker (sw_sessions w) ss" and ok: "refresh_fine st (w\<lparr>sw_sessions := ss\<rparr>) j'" and c: "claimed j' = []"
  shows "session_inv st (set_jobs (xs @ j' # ys) (w\<lparr>sw_sessions := ss\<rparr>))"
  by (rule inv_next[OF inv_weaker[OF inv k] _ ok c]) (simp add: js)

lemma weaker_grows: "weaker (sw_sessions w) ss \<Longrightarrow> grows w (w\<lparr>sw_sessions := ss\<rparr>)"
  by (auto simp: grows_def weaker_def)

lemma clock_simps [simp]:
  "snapshot (w\<lparr>sw_now := t\<rparr>) s = snapshot w s" "timely st (w\<lparr>sw_now := t\<rparr>) s = timely st w s" "handed_live (w\<lparr>sw_now := t\<rparr>) s = handed_live w s"
  "origin st (w\<lparr>sw_now := t\<rparr>) s = origin st w s" "sw_sessions (w\<lparr>sw_now := t\<rparr>) = sw_sessions w" "sw_handed (w\<lparr>sw_now := t\<rparr>) = sw_handed w"
  "sw_used (w\<lparr>sw_now := t\<rparr>) = sw_used w" "sw_jobs (w\<lparr>sw_now := t\<rparr>) = sw_jobs w"
  by (simp_all add: snapshot_def timely_def handed_live_def origin_def)

lemma fine_clock [simp]: "refresh_fine st (w\<lparr>sw_now := t\<rparr>) j = refresh_fine st w j"
  by (cases j) (simp_all split: option.split)

lemma inv_clock: "session_inv st w \<Longrightarrow> session_inv st (w\<lparr>sw_now := t\<rparr>)"
  unfolding session_inv_def clock_simps fine_clock by assumption

lemma session_inv_step:
  assumes "session_step hf st w w'" and inv: "session_inv st w"
  shows "session_inv st w'"
  using assms(1)
proof cases
  case (present tok p)
  show ?thesis unfolding present(1) using inv by (intro inv_jobs[OF inv]) (auto simp: session_inv_def)
next
  case (find_token xs tok p ys)
  have o: "findByRefreshTokenHash (hf tok) (sw_sessions w) = Some s \<Longrightarrow> origin st w s" for s using origin_found[OF inv] find_token(4) by simp
  show ?thesis unfolding find_token(1)
    using o check_fine[of st w _ None] by (intro inv_next[OF inv find_token(2)]) (auto split: option.split)
next
  case (no_token xs p ys)
  show ?thesis unfolding no_token(1) by (intro inv_next[OF inv no_token(2)]) simp_all
next
  case (grace xs s ys)
  have o: "origin st w s" using inv grace(2) by (auto simp: session_inv_def)
  have "se_id x \<in> set (sw_handed w)" if "liveSuccessorOf (Some (reuseGraceMs st)) (sw_now w) s (sw_sessions w) = Some x" for x
    using successor_handed[OF that] o by (simp add: origin_def snapshot_def)
  then show ?thesis unfolding grace(1) using o check_fine[OF o] by (intro inv_next[OF inv grace(2)]) (auto split: option.split)
next
  case (replay xs s ys)
  show ?thesis unfolding replay(1) by (rule inv_update[OF inv replay(2) weaker_ops(2)]) simp_all
next
  case (expire xs sid ys)
  show ?thesis unfolding expire(1) by (rule inv_update[OF inv expire(2) weaker_ops(4)]) simp_all
next
  case (read_account xs s joined ys account tighten)
  have o: "refresh_fine st w (Account_reading s joined)" using inv read_account(2) by (auto simp: session_inv_def)
  then show ?thesis unfolding read_account(1) using gates_fine[of st w s joined tighten] by (intro inv_next[OF inv read_account(2)]) (auto split: option.split)
next
  case (read_tenant xs s joined ac ys tenant_active tighten)
  have o: "refresh_fine st w (Tenant_reading s joined ac)" using inv read_tenant(2) by (auto simp: session_inv_def)
  then show ?thesis unfolding read_tenant(1) using gates_fine[of st w s joined tighten] by (intro inv_next[OF inv read_tenant(2)]) auto
next
  case (kill xs s ys reason)
  show ?thesis unfolding kill(1) by (rule inv_update[OF inv kill(2) weaker_ops(2)]) simp_all
next
  case (rotate xs s tighten ys sid h x)
  show ?thesis unfolding rotate(1) by (rule inv_rotate[OF inv rotate(2,3,5)])
next
  case (claim xs s x ys ss)
  show ?thesis unfolding claim(1) by (rule inv_claim(1)[OF inv claim(2,3)])
next
  case (lose_claim xs s x ys)
  have "origin st w s" using inv lose_claim(2) by (auto simp: session_inv_def)
  then show ?thesis unfolding lose_claim(1) by (intro inv_next[OF inv lose_claim(2)]) simp_all
next
  case (supersede xs s sid ys)
  have "origin st w s" using inv supersede(2) by (auto simp: session_inv_def)
  then have "origin st (w\<lparr>sw_sessions := repo_revoke (sw_now w) sid ''rotation_superseded'' (sw_sessions w)\<rparr>) s"
    by (rule grows_origin[OF weaker_grows[OF weaker_ops(1)]])
  then show ?thesis unfolding supersede(1) by (intro inv_update[OF inv supersede(2) weaker_ops(1)]) simp_all
next
  case (read_predecessor xs s ys)
  have "snapshot w y" if "find_session (se_id s) (sw_sessions w) = Some y" for y
    using that inv by (auto simp: find_session_def find_Some_iff session_inv_def)
  then show ?thesis unfolding read_predecessor(1) by (intro inv_next[OF inv read_predecessor(2)]) (auto split: option.split)
next
  case (read_successor xs y ys)
  have "snapshot w y" using inv read_successor(2) by (auto simp: session_inv_def)
  then have "se_id x \<in> set (sw_handed w)" if "liveSuccessorOf None (sw_now w) y (sw_sessions w) = Some x" for x
    using successor_handed[OF that] by (simp add: snapshot_def)
  then show ?thesis unfolding read_successor(1) by (intro inv_next[OF inv read_successor(2)]) (auto split: option.split)
next
  case (fail xs j ys)
  show ?thesis unfolding fail(1) by (intro inv_next[OF inv fail(2)]) simp_all
next
  case (start_session sid h x kind a tenant restricted)
  have e: "se_expires x \<le> sw_now w + absoluteTtl st" unfolding start_session(4) using created_expires[of st "sw_now w" sid h kind a tenant None None] by simp
  have p: "se_id x = sid" "family x = sid" "familyAuthenticatedAt x = sw_now w" "se_replaced x = None" unfolding start_session(4) by simp_all
  show ?thesis unfolding start_session(1)
    using inv_new[OF inv, of x "sid # sw_handed w" "(sid, sw_now w) # sw_logins w"] start_session(2) p e by auto
next
  case (start_support sid h x a tenant operator t)
  have e: "se_expires x \<le> sw_now w + absoluteTtl st" unfolding start_support(4)
    using created_expires[of st "sw_now w" sid h User_actor a tenant "Some operator" None] by simp
  have p: "se_id x = sid" "family x = sid" "familyAuthenticatedAt x = sw_now w" "se_replaced x = None" unfolding start_support(4) by simp_all
  have "w' = w\<lparr>sw_sessions := sw_sessions w @ [x], sw_handed := sw_handed w, sw_logins := (sid, sw_now w) # sw_logins w, sw_used := se_id x # sw_used w\<rparr>"
    using start_support(1) p(1) by simp
  then show ?thesis
    using inv_new[OF inv, of x "sw_handed w" "(sid, sw_now w) # sw_logins w"] start_support(2) p e by auto
next
  case (purge s us bs)
  have "weaker (sw_sessions w) (us @ bs)" unfolding purge(3) by (rule weaker_purge)
  then show ?thesis unfolding purge(1) by (rule inv_weaker[OF inv])
next
  case (clock t)
  then show ?thesis using inv_clock[OF inv] by simp
next
  case (end_one sid reason)
  show ?thesis unfolding end_one(1) by (rule inv_weaker[OF inv weaker_ops(1)])
next
  case (end_actor a reason)
  show ?thesis unfolding end_actor(1) by (rule inv_weaker[OF inv weaker_ops(2)])
next
  case (end_tenant t reason)
  show ?thesis unfolding end_tenant(1) by (rule inv_weaker[OF inv weaker_ops(3)])
next
  case (end_restricted a reason)
  show ?thesis unfolding end_restricted(1) by (rule inv_weaker[OF inv weaker_ops(6)])
next
  case (restrict a)
  show ?thesis unfolding restrict(1) by (rule inv_weaker[OF inv weaker_ops(5)])
next
  case (set_restriction sid r)
  show ?thesis unfolding set_restriction(1) by (rule inv_weaker[OF inv weaker_ops(8)])
next
  case (step_up sid t)
  show ?thesis unfolding step_up(1) by (rule inv_weaker[OF inv weaker_ops(7)])
qed

section \<open>Runs\<close>

definition fresh_sessions :: "session_world \<Rightarrow> bool" where
  "fresh_sessions w \<longleftrightarrow> sw_sessions w = [] \<and> sw_handed w = [] \<and> sw_jobs w = [] \<and> sw_used w = [] \<and> sw_logins w = []"

lemma inv_fresh: "fresh_sessions w \<Longrightarrow> session_inv st w"
  by (simp add: fresh_sessions_def session_inv_def handed_live_def)

lemma inv_reach: "session_reach hf st w w' \<Longrightarrow> session_inv st w \<Longrightarrow> session_inv st w'"
  by (induction rule: session_reach.induct) (auto intro: session_inv_step)

lemma handed_step: "session_step hf st w w' \<Longrightarrow> set (sw_used w) \<subseteq> set (sw_used w')"
  by (cases rule: session_step.cases) (auto simp: set_jobs_def)

text \<open>No live session that a client holds is the actor's and of one of the families.\<close>

definition settled :: "string set \<Rightarrow> string \<Rightarrow> session_world \<Rightarrow> bool" where
  "settled R a w \<longleftrightarrow> R \<subseteq> set (sw_used w) \<and> (\<forall>s. handed_live w s \<longrightarrow> se_actor s = a \<longrightarrow> family s \<notin> R)"

lemma settled_jobs [simp]: "settled R a (set_jobs js w) = settled R a w"
  unfolding settled_def set_jobs_simps ..

lemma settled_clock [simp]: "settled R a (w\<lparr>sw_now := t\<rparr>) = settled R a w"
  unfolding settled_def clock_simps ..

lemma settled_from:
  assumes "settled R a w" and "set (sw_used w) \<subseteq> set (sw_used w')"
    and "\<And>s. handed_live w' s \<Longrightarrow> (\<exists>p. handed_live w p \<and> family p = family s \<and> se_actor p = se_actor s) \<or> family s \<notin> set (sw_used w)"
  shows "settled R a w'"
  unfolding settled_def
proof (intro conjI allI impI)
  show "R \<subseteq> set (sw_used w')" using assms(1,2) by (auto simp: settled_def)
  fix s
  assume h: "handed_live w' s" "se_actor s = a"
  show "family s \<notin> R"
  proof (cases "family s \<in> set (sw_used w)")
    case True
    then obtain p where "handed_live w p" "family p = family s" "se_actor p = se_actor s" using assms(3)[OF h(1)] by blast
    then show ?thesis using assms(1) h(2) unfolding settled_def by metis
  next
    case False
    then show ?thesis using assms(1) by (auto simp: settled_def)
  qed
qed

lemma settled_weaker: "settled R a w \<Longrightarrow> weaker (sw_sessions w) ss \<Longrightarrow> settled R a (w\<lparr>sw_sessions := ss\<rparr>)"
proof (rule settled_from[of R a w])
  assume k: "weaker (sw_sessions w) ss"
  fix s
  assume h: "handed_live (w\<lparr>sw_sessions := ss\<rparr>) s"
  then obtain p where p: "p \<in> set (sw_sessions w)" "core s = core p" "live_status p" using k by (auto simp: handed_live_def weaker_def)
  have "handed_live w p" using h p core_parts(1)[OF p(2)] by (simp add: handed_live_def)
  then show "(\<exists>p. handed_live w p \<and> family p = family s \<and> se_actor p = se_actor s) \<or> family s \<notin> set (sw_used w)"
    using core_parts[OF p(2)] by metis
qed simp_all

lemma settled_new:
  assumes r: "settled R a w" and inv: "session_inv st w" and n: "se_id x \<notin> set (sw_used w)"
    and h: "hs = sw_handed w \<or> hs = se_id x # sw_handed w \<and> family x = se_id x"
  shows "settled R a (w\<lparr>sw_sessions := sw_sessions w @ [x], sw_handed := hs, sw_logins := ls, sw_used := se_id x # sw_used w\<rparr>)"
proof (rule settled_from[OF r])
  let ?w = "w\<lparr>sw_sessions := sw_sessions w @ [x], sw_handed := hs, sw_logins := ls, sw_used := se_id x # sw_used w\<rparr>"
  fix s
  assume hl: "handed_live ?w s"
  have hu: "set (sw_handed w) \<subseteq> set (sw_used w)" using inv by (simp add: session_inv_def)
  show "(\<exists>p. handed_live w p \<and> family p = family s \<and> se_actor p = se_actor s) \<or> family s \<notin> set (sw_used w)"
  proof (cases "s \<in> set (sw_sessions w)")
    case True
    then have "snapshot w s" using inv by (simp add: session_inv_def)
    then have "se_id s \<noteq> se_id x" using n by (auto simp: snapshot_def)
    then have "handed_live w s" using hl h True by (auto simp: handed_live_def)
    then show ?thesis by blast
  next
    case False
    then have x: "s = x" using hl by (simp add: handed_live_def)
    have "family x = se_id x" using hl h hu n unfolding x by (auto simp: handed_live_def)
    then show ?thesis using n unfolding x by simp
  qed
qed auto

lemma settled_claim:
  assumes r: "settled R a w" and inv: "session_inv st w" and js: "sw_jobs w = xs @ Claiming s x # ys"
    and m: "markRotated (sw_now w) (se_id s) (se_id x) (sw_sessions w) = Some ss"
  shows "settled R a (w\<lparr>sw_sessions := ss, sw_handed := se_id x # sw_handed w\<rparr>)"
proof (rule settled_from[OF r])
  fix y
  assume h: "handed_live (w\<lparr>sw_sessions := ss, sw_handed := se_id x # sw_handed w\<rparr>) y"
  obtain p where p: "p \<in> set (sw_sessions w)" "core y = core p" "live_status p" "se_id y = se_id x \<or> handed_live w p" using inv_claim(3)[OF inv js m h] by blast
  obtain q where q: "handed_live w q" "family q = family x" "se_actor q = se_actor x" using inv_claim(2)[OF inv js m] by blast
  have "\<exists>p. handed_live w p \<and> family p = family y \<and> se_actor p = se_actor y"
  proof (cases "handed_live w p")
    case True
    then show ?thesis using core_parts[OF p(2)] by metis
  next
    case False
    then have "se_id p = se_id x" using p(4) core_parts(1)[OF p(2)] by simp
    moreover have "snapshot w x" using inv js by (auto simp: session_inv_def)
    ultimately have "core p = core x" using p(1) by (simp add: snapshot_def)
    then have "family y = family x" "se_actor y = se_actor x" using core_parts[OF p(2)] core_parts[of p x] by simp_all
    then show ?thesis using q by metis
  qed
  then show "(\<exists>p. handed_live w p \<and> family p = family y \<and> se_actor p = se_actor y) \<or> family y \<notin> set (sw_used w)" by blast
qed simp

lemma settled_step:
  assumes "session_step hf st w w'" and inv: "session_inv st w" and r: "settled R a w"
  shows "settled R a w'"
  using assms(1)
proof cases
  case (rotate xs s tighten ys sid h x)
  have x: "se_id x = sid" unfolding rotate(5) successor_of_def by simp
  have "settled R a (w\<lparr>sw_sessions := sw_sessions w @ [x], sw_handed := sw_handed w, sw_logins := sw_logins w, sw_used := se_id x # sw_used w\<rparr>)"
    using rotate(3) x by (intro settled_new[OF r inv]) simp_all
  then show ?thesis unfolding rotate(1) settled_jobs by (simp add: x)
next
  case (claim xs s x ys ss)
  show ?thesis unfolding claim(1) settled_jobs by (rule settled_claim[OF r inv claim(2,3)])
next
  case (start_session sid h x kind b tenant restricted)
  have x: "se_id x = sid" "family x = sid" unfolding start_session(4) by simp_all
  show ?thesis unfolding start_session(1) using settled_new[OF r inv, of x "sid # sw_handed w"] start_session(2) x by simp
next
  case (start_support sid h x b tenant operator t)
  have x: "se_id x = sid" unfolding start_support(4) by simp
  show ?thesis unfolding start_support(1) using settled_new[OF r inv, of x "sw_handed w" "(sid, sw_now w) # sw_logins w"] start_support(2) x by simp
next
  case (purge s us bs)
  show ?thesis unfolding purge(1) by (rule settled_weaker[OF r]) (simp only: purge(3) weaker_purge)
next
  case (replay xs s ys)
  show ?thesis unfolding replay(1) settled_jobs by (rule settled_weaker[OF r weaker_ops(2)])
next
  case (expire xs sid ys)
  show ?thesis unfolding expire(1) settled_jobs by (rule settled_weaker[OF r weaker_ops(4)])
next
  case (kill xs s ys reason)
  show ?thesis unfolding kill(1) settled_jobs by (rule settled_weaker[OF r weaker_ops(2)])
next
  case (supersede xs s sid ys)
  show ?thesis unfolding supersede(1) settled_jobs by (rule settled_weaker[OF r weaker_ops(1)])
next
  case (end_one sid reason)
  show ?thesis unfolding end_one(1) by (rule settled_weaker[OF r weaker_ops(1)])
next
  case (end_actor b reason)
  show ?thesis unfolding end_actor(1) by (rule settled_weaker[OF r weaker_ops(2)])
next
  case (end_tenant t reason)
  show ?thesis unfolding end_tenant(1) by (rule settled_weaker[OF r weaker_ops(3)])
next
  case (end_restricted b reason)
  show ?thesis unfolding end_restricted(1) by (rule settled_weaker[OF r weaker_ops(6)])
next
  case (restrict b)
  show ?thesis unfolding restrict(1) by (rule settled_weaker[OF r weaker_ops(5)])
next
  case (set_restriction sid b)
  show ?thesis unfolding set_restriction(1) by (rule settled_weaker[OF r weaker_ops(8)])
next
  case (step_up sid t)
  show ?thesis unfolding step_up(1) by (rule settled_weaker[OF r weaker_ops(7)])
qed (simp_all add: r)

lemma settled_reach: "session_reach hf st w w' \<Longrightarrow> session_inv st w \<Longrightarrow> settled R a w \<Longrightarrow> settled R a w' \<and> session_inv st w'"
  by (induction rule: session_reach.induct) (auto intro: session_inv_step settled_step)

lemma settled_revoked: "settled (set (sw_used w)) a (w\<lparr>sw_sessions := repo_revokeAllForActor now a reason (sw_sessions w)\<rparr>)"
proof -
  have "\<not> live_status s" if m: "s \<in> set (repo_revokeAllForActor now a reason ss)" and a: "se_actor s = a" for s ss
  proof -
    obtain u where "s = (if se_actor u = a \<and> live_status u then end_with now (Ended reason) u else u)"
      using m unfolding repo_revokeAllForActor_def update_where_def set_map by (rule imageE)
    then show ?thesis using a by (cases "se_actor u = a \<and> live_status u") (auto simp: end_with_def live_status_def)
  qed
  then show ?thesis by (auto simp: settled_def handed_live_def)
qed

lemma accepted_session:
  assumes "verifyAccessToken aud now account required allow p ss = Inr (a, s)"
  shows "s \<in> set ss" "live_status s" "now < se_expires s" "se_actor s = a"
  using assms by (auto simp: verifyAccessToken_def sessionIsLive_def find_session_def find_Some_iff split: option.splits if_splits)

section \<open>Properties\<close>

text \<open>C9. A login never forks: in any run from an empty store, with refreshes, logouts, revocations and purges
  interleaved at every database call, two live sessions of one login whose refresh tokens clients hold are the same
  session. A refresh token exchanged twice, before or after its rotation, keeps a single successor.\<close>

theorem one_live_session_per_login:
  assumes "fresh_sessions w0" and "session_reach hf st w0 w"
    and "s \<in> set (sw_sessions w)" "live_status s" "se_id s \<in> set (sw_handed w)"
    and "x \<in> set (sw_sessions w)" "live_status x" "se_id x \<in> set (sw_handed w)" and "family s = family x"
  shows "s = x"
proof -
  have inv: "session_inv st w" using inv_reach[OF assms(2) inv_fresh[OF assms(1)]] .
  have "handed_live w s" "handed_live w x" using assms(3-8) by (simp_all add: handed_live_def)
  then have "se_id s = se_id x" using inv assms(9) unfolding session_inv_def by blast
  moreover have "distinct (map se_id (sw_sessions w))" using inv by (simp add: session_inv_def)
  ultimately show ?thesis using assms(3,6) by (auto simp: distinct_map dest: inj_onD)
qed

text \<open>C10. Revoking an actor is final: after \<open>revokeAllForActor\<close>, whatever refreshes are in flight and however the
  run goes on, a session a client holds that the access check accepts for the actor comes from a login made later;
  its family is none of the sessions there were.\<close>

theorem revocation_final:
  assumes "fresh_sessions w0" and "session_reach hf st w0 w"
    and "session_reach hf st (w\<lparr>sw_sessions := repo_revokeAllForActor (sw_now w) a reason (sw_sessions w)\<rparr>) w'"
    and "verifyAccessToken audience now account required allowRestricted p (sw_sessions w') = Inr (a, s)" and "se_id s \<in> set (sw_handed w')"
  shows "family s \<notin> set (sw_used w)"
proof -
  have "session_inv st w" using inv_reach[OF assms(2) inv_fresh[OF assms(1)]] .
  then have "session_inv st (w\<lparr>sw_sessions := repo_revokeAllForActor (sw_now w) a reason (sw_sessions w)\<rparr>)" by (rule inv_weaker[OF _ weaker_ops(2)])
  then have "settled (set (sw_used w)) a w'" using settled_reach[OF assms(3)] settled_revoked by blast
  moreover have "handed_live w' s" "se_actor s = a" using accepted_session[OF assms(4)] assms(5) by (simp_all add: handed_live_def)
  ultimately show ?thesis by (simp add: settled_def)
qed

text \<open>C26. However often a login is refreshed, its sessions end \<open>absoluteTtl\<close> after the original sign-in: a session
  the access check accepts belongs to a login made less than that long ago.\<close>

theorem absolute_lifetime:
  assumes "fresh_sessions w0" and "session_reach hf st w0 w"
    and "verifyAccessToken audience (sw_now w) account required allowRestricted p (sw_sessions w) = Inr (a, s)"
  shows "\<exists>t. (family s, t) \<in> set (sw_logins w) \<and> sw_now w < t + absoluteTtl st"
proof -
  have "session_inv st w" using inv_reach[OF assms(2) inv_fresh[OF assms(1)]] .
  then have "timely st w s" using accepted_session(1)[OF assms(3)] by (simp add: session_inv_def)
  then show ?thesis using accepted_session(3)[OF assms(3)] unfolding timely_def by (intro exI[of _ "familyAuthenticatedAt s"]) simp
qed

section \<open>An example run\<close>

definition ex_settings :: auth_settings where
  "ex_settings = \<lparr>refreshTtl = 10, absoluteTtl = 100, reuseGraceMs = 5\<rparr>"

definition ex_first :: session where
  "ex_first = create_session ex_settings 0 ''s1'' ''h1'' Admin_actor ''ann'' None None None None None False None"

definition ex_second :: session where
  "ex_second = successor_of ex_settings 0 ''s2'' ''h2'' False ex_first"

text \<open>\<open>ann\<close> signs in and refreshes once; \<open>ex_world n\<close> is the world after \<open>n\<close> steps.\<close>

definition ex_world :: "nat \<Rightarrow> session_world" where
  "ex_world n =
     \<lparr>sw_sessions = (if n = 0 then [] else if n < 5 then [ex_first] else if n = 5 then [ex_first, ex_second]
        else [(end_with 0 Rotated ex_first)\<lparr>se_replaced := Some ''s2''\<rparr>, ex_second]),
      sw_handed = (if n = 0 then [] else if n < 6 then [''s1''] else [''s2'', ''s1'']), sw_logins = (if n = 0 then [] else [(''s1'', 0)]),
      sw_used = (if n = 0 then [] else if n < 5 then [''s1''] else [''s2'', ''s1'']),
      sw_jobs = (if n < 2 then [] else if n = 2 then [Finding ''1'' None] else if n = 3 then [Account_reading ex_first None]
        else if n = 4 then [Rotating ex_first False] else if n = 5 then [Claiming ex_first ex_second] else [Granted ''s2'']), sw_now = 0\<rparr>"

lemma step_to: "session_step hf st w v \<Longrightarrow> v = w' \<Longrightarrow> session_step hf st w w'"
  by simp

lemma ex_found:
  "findByRefreshTokenHash (''h'' @ ''1'') (sw_sessions (ex_world 1)) = Some ex_first" "findByRefreshTokenHash (''h'' @ ''1'') (sw_sessions (ex_world 2)) = Some ex_first"
  "se_id ex_first \<in> set (sw_handed (ex_world 1))" "se_id ex_first \<in> set (sw_handed (ex_world 2))"
  by code_simp+

lemma ex_steps:
  "session_step ((@) ''h'') ex_settings (ex_world 0) (ex_world 1)" "session_step ((@) ''h'') ex_settings (ex_world 1) (ex_world 2)"
  "session_step ((@) ''h'') ex_settings (ex_world 2) (ex_world 3)" "session_step ((@) ''h'') ex_settings (ex_world 3) (ex_world 4)"
  "session_step ((@) ''h'') ex_settings (ex_world 4) (ex_world 5)" "session_step ((@) ''h'') ex_settings (ex_world 5) (ex_world 6)"
proof -
  show "session_step ((@) ''h'') ex_settings (ex_world 0) (ex_world 1)"
    by (rule step_to, rule session_step.start_session[where sid = "''s1''" and h = "''h1''" and kind = Admin_actor and a = "''ann''" and tenant = None and restricted = False])
      code_simp+
  show "session_step ((@) ''h'') ex_settings (ex_world 1) (ex_world 2)"
    by (rule step_to, rule session_step.present[where tok = "''1''" and p = None]) (code_simp+)
  show "session_step ((@) ''h'') ex_settings (ex_world 2) (ex_world 3)"
    by (rule step_to, rule session_step.find_token[where xs = "[]" and tok = "''1''" and p = None and ys = "[]"]) (code_simp+)
  show "session_step ((@) ''h'') ex_settings (ex_world 3) (ex_world 4)"
    by (rule step_to, rule session_step.read_account[where xs = "[]" and s = ex_first and joined = None and ys = "[]" and account = "Some \<lparr>ac_active = True, ac_mfa = True\<rparr>" and tighten = False])
      (code_simp+)
  show "session_step ((@) ''h'') ex_settings (ex_world 4) (ex_world 5)"
    by (rule step_to, rule session_step.rotate[where xs = "[]" and s = ex_first and tighten = False and ys = "[]" and sid = "''s2''" and h = "''h2''" and x = ex_second])
      (code_simp+)
  show "session_step ((@) ''h'') ex_settings (ex_world 5) (ex_world 6)"
    by (rule step_to, rule session_step.claim[where xs = "[]" and s = ex_first and x = ex_second and ys = "[]" and ss = "sw_sessions (ex_world 6)"]) (code_simp+)
qed

lemma ex_reach: "session_reach ((@) ''h'') ex_settings (ex_world 0) (ex_world 6)"
  by (rule session_reach.intros ex_steps)+

lemma ex_fresh: "fresh_sessions (ex_world 0)"
  by code_simp

definition ex_token :: jwt_payload where
  "ex_token = \<lparr>jw_sub = ''ann'', jw_session = Some ''s2'', jw_tenant = None, jw_support = None\<rparr>"

lemma ex_accepted:
  "verifyAccessToken Admin_portal 0 (\<lambda>_. Some \<lparr>la_tenant = None, la_mfa = True\<rparr>) (\<lambda>_. False) False ex_token (sw_sessions (ex_world 6)) = Inr (''ann'', ex_second)"
  "sw_now (ex_world 6) = 0" "ex_second \<in> set (sw_sessions (ex_world 6))" "live_status ex_second" "se_id ex_second \<in> set (sw_handed (ex_world 6))"
  by code_simp+

theorem one_live_session_per_login_witness:
  "session_reach ((@) ''h'') ex_settings (ex_world 0) (ex_world 6) \<and> length (sw_sessions (ex_world 6)) = 2
    \<and> sw_sessions (ex_world 6) ! 1 = last (sw_sessions (ex_world 6))"
proof (intro conjI)
  have e: "sw_sessions (ex_world 6) ! 1 = ex_second" "last (sw_sessions (ex_world 6)) = ex_second" by code_simp+
  show "sw_sessions (ex_world 6) ! 1 = last (sw_sessions (ex_world 6))"
    by (rule one_live_session_per_login[OF ex_fresh ex_reach]) (simp_all only: e ex_accepted)
qed (rule ex_reach, code_simp)

theorem absolute_lifetime_witness:
  "\<exists>t. (family ex_second, t) \<in> set (sw_logins (ex_world 6)) \<and> sw_now (ex_world 6) < t + absoluteTtl ex_settings"
  by (rule absolute_lifetime[OF ex_fresh ex_reach]) (unfold ex_accepted(2), rule ex_accepted(1))

text \<open>All of \<open>ann\<close>'s sessions are revoked and she signs in again.\<close>

definition ex_third :: session where
  "ex_third = create_session ex_settings 0 ''s3'' ''h3'' Admin_actor ''ann'' None None None None None False None"

definition ex_again :: session_world where
  "ex_again = (ex_world 6)\<lparr>sw_sessions := repo_revokeAllForActor 0 ''ann'' ''logout_all'' (sw_sessions (ex_world 6)) @ [ex_third],
     sw_handed := [''s3'', ''s2'', ''s1''], sw_logins := [(''s3'', 0), (''s1'', 0)], sw_used := [''s3'', ''s2'', ''s1'']\<rparr>"

lemma ex_again_reach:
  "session_reach ((@) ''h'') ex_settings ((ex_world 6)\<lparr>sw_sessions := repo_revokeAllForActor (sw_now (ex_world 6)) ''ann'' ''logout_all'' (sw_sessions (ex_world 6))\<rparr>) ex_again"
  by (rule session_reach.intros, rule session_reach.intros, rule step_to,
      rule session_step.start_session[where sid = "''s3''" and h = "''h3''" and kind = Admin_actor and a = "''ann''" and tenant = None and restricted = False]) code_simp+

lemma ex_again_accepted:
  "verifyAccessToken Admin_portal 0 (\<lambda>_. Some \<lparr>la_tenant = None, la_mfa = True\<rparr>) (\<lambda>_. False) False (ex_token\<lparr>jw_session := Some ''s3''\<rparr>) (sw_sessions ex_again) = Inr (''ann'', ex_third)"
  "se_id ex_third \<in> set (sw_handed ex_again)" "sw_now ex_again = 0"
  by code_simp+

theorem revocation_final_witness: "family ex_third \<notin> set (sw_used (ex_world 6)) \<and> sw_used (ex_world 6) = [''s2'', ''s1'']"
proof
  show "family ex_third \<notin> set (sw_used (ex_world 6))"
    using ex_again_accepted(1) unfolding ex_again_accepted(3)[symmetric] by (rule revocation_final[OF ex_fresh ex_reach ex_again_reach _ ex_again_accepted(2)])
qed code_simp

end
