(* ===== verification/Spec2Isabelle.thy ===== *)
theory Spec2Isabelle
  imports Limiter MemoryCache MemoryQueue NetGuard WebhookIntake QueryPipeline BusinessTime MetricCatalogue CronSchedule AuditChain TarArchive RbacCache UsageJobs Sessions
begin

text \<open>
  A verification library for the analytics backend, a multi-tenant service in JavaScript: tenants connect datasets,
  ask analytics queries over them under row-level security, and administrators manage roles, audit trails and plans.
  Paths below are under \<open>src/src/\<close>.

  How the parts interact. A webhook delivery (\<open>services/connector.service.js\<close>) is verified by its signature, claimed
  in the cache against replays, metered by the usage service and queued; the worker stores its rows. Outgoing
  connections pass the network guard. A query is validated, restricted to what row-level security lets the actor
  read, made into a pipeline and run under the tenant's limiter. Permissions of an actor are resolved from roles
  and grants, through a cache that every change invalidates. Whatever happens is written to the audit trail, whose
  records are chained by hashes.

  Theories, their sources and what their lemmas show.

  \<^item> \<open>Prelude\<close>: JavaScript strings, association lists as \<open>Map\<close>, numbers as text, results with errors.
  \<^item> \<open>Limiter\<close> (\<open>services/analytics.limiter.js\<close>): running and waiting calls of a tenant as a step relation with
    timers; bounds, no idle slot while calls wait, first come first served.
  \<^item> \<open>MemoryCache\<close> (\<open>cache/memory.js\<close>): every driver operation; what a reader sees refines an abstract cache with
    deadlines.
  \<^item> \<open>MemoryQueue\<close> (\<open>queues/memory.queue.js\<close>): buffer, dispatch loop, retries and shutdown; every message is
    accounted for and no wake-up is lost.
  \<^item> \<open>IpAddress\<close>, \<open>NetGuard\<close> (\<open>utils/netGuard.js\<close>): address literals, connection strings and the egress policy;
    an accepted MongoDB connection reaches only public or allowed hosts.
  \<^item> \<open>Json\<close>, \<open>WebhookVerify\<close>, \<open>WebhookIntake\<close> (\<open>modules/connectors/webhook/\<close>, \<open>handleWebhook\<close>): signatures, the
    time window, the replay claim with its limits, and what a delivery leaves of its charge, its claim and its job,
    failing calls of the compensation included.
  \<^item> \<open>SensitiveFields\<close> (\<open>utils/sensitiveFields.js\<close>): credential-like column names.
  \<^item> \<open>QueryContract\<close>, \<open>QueryNormalForm\<close>, \<open>Bson\<close>, \<open>QueryPipeline\<close> (\<open>services/analytics.engine.js\<close>): an
    accepted query is in a grammar of normal forms and is accepted again unchanged; a pipeline reads exactly the
    readable rows of the chosen datasets and dates, with values as literals.
  \<^item> \<open>DataAccess\<close> (\<open>services/dataAccess.service.js\<close>): scopes, policies and grants; a decision is exact and fails closed.
  \<^item> \<open>Calendar\<close>, \<open>BusinessTime\<close> (\<open>utils/timezone.js\<close>, date windows of the engine), \<open>CronSchedule\<close> (\<open>utils/cron.js\<close>):
    civil dates, wall clocks over zone offsets, windows and the next run of a schedule. A preset's window is exact
    where the zone's clock passes cleanly through the midnights that bound it, summer time included.
  \<^item> \<open>MetricCatalogue\<close> (\<open>services/metricDefinition.service.js\<close>): versions of metric definitions never change.
  \<^item> \<open>AuditPayload\<close>, \<open>CanonicalText\<close> (\<open>utils/auditPayload.js\<close>), \<open>IsoText\<close>, \<open>AuditChain\<close> (\<open>utils/auditChain.js\<close>,
    \<open>services/auditChain.service.js\<close>): redaction, the canonical text, sealing and verification, concurrent inserts.
  \<^item> \<open>TarArchive\<close> (\<open>utils/tarArchive.js\<close>): writer and extractor; round trip, and no file outside the destination.
  \<^item> \<open>Rbac\<close> (\<open>services/role.service.js\<close>, \<open>services/permission.service.js\<close> and their repositories): the collections
    stay well formed; what a batch leaves behind is stated for a refused batch too.
  \<^item> \<open>AdminService\<close> (\<open>services/admin.service.js\<close>): guarded writes with recount and undo as interleaved jobs; an active
    super administrator remains unless an unguarded write meets a row changed since it was read, and no grant
    exceeds the type of its holder unless an id in another letter case hides a lower type from the check.
  \<^item> \<open>RbacScope\<close>, \<open>RbacCache\<close> (\<open>services/rbac.cache.service.js\<close>): which version counters a change concerns, and the
    transparency of the cache under any interleaving.
  \<^item> \<open>UsageQuota\<close>, \<open>UsageJobs\<close> (\<open>services/usage.service.js\<close> and its repositories): counters, reservations and
    reconciliation as interleaved jobs with failures and crashes; between reconciliations the counters account for
    every resource and pass no hard limit, with the ways out (lost rows, clamped counters) as history of the run.
  \<^item> \<open>Sessions\<close> (\<open>modules/iam/auth/session.service.js\<close>, refresh and logout in \<open>auth.service.js\<close>,
    \<open>middleware/auth.middleware.js\<close>): refreshes as interleaved jobs; a login keeps one live session, a revocation
    is final, and no login outlives its absolute lifetime. A client presents tokens it was handed or unknown ones.

  Conventions. A collection is a list or a map in a record, and one database call is one atomic step; requests that
  await several calls are jobs whose steps interleave. Errors are values of the left summand. Time is an argument,
  in milliseconds. Loops are structural or have a termination measure, never fuel; bounds that appear are the
  code's own (the horizon of the cron projection, the five attempts of a conditional increment). The range loop of a
  cron field has no bound in the code: it is a partial function, and that it ends is a theorem. Code outside the repository is a
  parameter: hash and HMAC functions, JSON and URL parsers, name resolution, zone offsets, the text of a number.
  Strings are lists of bytes.

  Not modelled. Billing, subscriptions and entitlement resolution; passwords, login lockout and MFA; tenant lifecycle, export
  and retention; dashboards, reports and alerts; feature flags and settings; support access; mail and the outbox;
  monitoring and security detection; AI questions; file and database connectors; the HTTP layer, the Mongoose
  models and the adapters of Redis, BullMQ and S3. They are mostly calls of outside services and documents without
  rules of their own, or were left for size; the manifest lists their files. Within modelled parts, logs, metrics,
  audit emission and paginated lists are left out. A wall time that a zone repeats resolves to the first instant the
  offset search finds, and a lost invalidation of the permission cache is one that stays pending.
\<close>

end
